(* ===== verification/Prelude.thy ===== *)
theory Prelude
  imports Main "HOL-Library.Monad_Syntax" "HOL-Library.Word"
begin

text \<open>
  What every component theory shares.

  A Go call that may panic (a nil dereference, an index out of range, an explicit
  \<open>panic\<close>) has a result of type \<open>'a option\<close>: \<open>None\<close> is the panic. A Go call that
  returns \<open>(T, bool)\<close> returns \<open>'a option\<close> as well: \<open>None\<close> stands for
  \<open>(zero, false)\<close>. Pointers are natural numbers, a nil-able pointer is
  \<open>ptr option\<close>, and a heap is a partial map from pointers to nodes; memory that is no
  longer referenced stays in the map, as the garbage collector never reuses an address
  that a running operation can still see.

  The function \<open>run_steps\<close> runs a list of operations against an object and collects what the
  operations return; the refinement locale of theory \<open>Interfaces\<close> is stated over it.
\<close>

named_theorems rep_intros \<open>introduction rules of the representation relations\<close>
named_theorems seg_simps \<open>rewrite rules of heap segments\<close>

type_synonym ptr = nat

text \<open>Instants and durations are integers, in nanoseconds.\<close>

type_synonym time = int
type_synonym duration = int

section \<open>Runs of operations\<close>

fun run_steps :: "('s \<Rightarrow> 'op \<Rightarrow> ('out \<times> 's) option) \<Rightarrow> 's \<Rightarrow> 'op list \<Rightarrow> ('out list \<times> 's) option" where
  "run_steps f s [] = Some ([], s)"
| "run_steps f s (x # xs) =
     do { (r, s') \<leftarrow> f s x;
          (rs, s'') \<leftarrow> run_steps f s' xs;
          Some (r # rs, s'') }"

lemma run_steps_append:
  "run_steps f s (xs @ ys) =
     do { (rs, s') \<leftarrow> run_steps f s xs;
          (ts, s'') \<leftarrow> run_steps f s' ys;
          Some (rs @ ts, s'') }"
  by (induction xs arbitrary: s) (auto split: bind_splits simp: bind_eq_None_conv)

lemma run_steps_length:
  "run_steps f s xs = Some (rs, s') \<Longrightarrow> length rs = length xs"
  by (induction xs arbitrary: s rs s') (auto split: bind_splits)

lemma run_steps_invariant:
  assumes "run_steps f s xs = Some (rs, s')" and "I s"
    and step: "\<And>s x r t. I s \<Longrightarrow> f s x = Some (r, t) \<Longrightarrow> I t"
  shows "I s'"
  using assms(1,2)
proof (induction xs arbitrary: s rs)
  case Nil
  then show ?case by simp
next
  case (Cons x xs)
  then obtain r t ts where "f s x = Some (r, t)" "run_steps f t xs = Some (ts, s')"
    by (auto split: bind_splits)
  with Cons.IH Cons.prems(2) step show ?case by blast
qed

section \<open>Go integers\<close>

text \<open>Integer division and remainder of Go round towards zero.\<close>

definition go_div :: "int \<Rightarrow> int \<Rightarrow> int" where
  "go_div a b = sgn a * sgn b * (\<bar>a\<bar> div \<bar>b\<bar>)"

definition go_mod :: "int \<Rightarrow> int \<Rightarrow> int" where
  "go_mod a b = a - b * go_div a b"

lemma go_div_nonneg [simp]: "0 \<le> a \<Longrightarrow> 0 < b \<Longrightarrow> go_div a b = a div b"
  by (cases "a = 0") (auto simp: go_div_def)

lemma go_mod_nonneg [simp]: "0 \<le> a \<Longrightarrow> 0 < b \<Longrightarrow> go_mod a b = a mod b"
  by (simp add: go_mod_def minus_mult_div_eq_mod)

text \<open>The value of a 64-bit \<open>int\<close> after an operation whose exact result is \<open>x\<close>.\<close>

definition wrap64 :: "int \<Rightarrow> int" where
  "wrap64 x = (x + 2 ^ 63) mod 2 ^ 64 - 2 ^ 63"

lemma wrap64_id [simp]: "- (2 ^ 63) \<le> x \<Longrightarrow> x < 2 ^ 63 \<Longrightarrow> wrap64 x = x"
  by (simp add: wrap64_def)

text \<open>Two indices of a window no longer than the buffer are in different slots.\<close>

lemma mod_window:
  assumes "i mod n = j mod n" and "r \<le> i" and "i < w" and "r \<le> j" and "j < w" and "w \<le> r + n"
  shows "i = (j::nat)"
proof (rule ccontr)
  assume "i \<noteq> j"
  have "False" if "a < b" "b - a < n" "a mod n = b mod n" for a b :: nat
  proof -
    have "n dvd b - a" using that(1,3) by (metis mod_eq_dvd_iff_nat less_imp_le)
    with that show False by (auto dest: dvd_imp_le)
  qed
  note no = this
  from \<open>i \<noteq> j\<close> consider "i < j" | "j < i" by linarith
  then show False
  proof cases
    case 1
    then have "j - i < n" using assms by linarith
    with no [of i j] 1 assms(1) show False by simp
  next
    case 2
    then have "i - j < n" using assms by linarith
    with no [of j i] 2 assms(1) show False by simp
  qed
qed

section \<open>Lists\<close>

text \<open>The first pointer of a chain, or a default where the chain is empty; and the last.\<close>

definition first_or :: "'a list \<Rightarrow> 'a option \<Rightarrow> 'a option" where
  "first_or ps d = (case ps of [] \<Rightarrow> d | p # _ \<Rightarrow> Some p)"

definition last_or :: "'a option \<Rightarrow> 'a list \<Rightarrow> 'a option" where
  "last_or d ps = (if ps = [] then d else Some (last ps))"

lemma first_or_simps [simp]:
  "first_or [] d = d" "first_or (p # ps) d = Some p"
  by (simp_all add: first_or_def)

lemma last_or_simps [simp]:
  "last_or d [] = d" "last_or d (p # ps) = last_or (Some p) ps" "last_or d (ps @ [q]) = Some q"
  by (simp_all add: last_or_def)

lemma first_or_append [simp]: "first_or (ps @ qs) d = first_or ps (first_or qs d)"
  by (cases ps) simp_all

lemma last_or_append [simp]: "last_or d (ps @ qs) = last_or (last_or d ps) qs"
  by (simp add: last_or_def)

lemma first_or_None_iff [simp]: "first_or ps None = None \<longleftrightarrow> ps = []"
  by (cases ps) simp_all

lemma last_or_None_iff [simp]: "last_or None ps = None \<longleftrightarrow> ps = []"
  by (simp add: last_or_def)

lemma last_or_eq_skip: "q \<notin> set ps \<Longrightarrow> last_or d ps = Some q \<longleftrightarrow> ps = [] \<and> d = Some q"
  by (auto simp: last_or_def)

lemma last_or_Some_in: "last_or None ps = Some p \<Longrightarrow> p \<in> set ps"
  by (auto simp: last_or_def split: if_splits)

lemma first_or_Some_in: "first_or ps None = Some p \<Longrightarrow> p \<in> set ps"
  by (cases ps) auto

text \<open>All pointers of a chain were handed out by an allocator whose next pointer is \<open>n\<close>.\<close>

definition below :: "ptr \<Rightarrow> ptr list \<Rightarrow> bool" where
  "below n ps \<longleftrightarrow> (\<forall>p \<in> set ps. p < n)"

lemma below_simps [simp]:
  "below n []" "below n (p # ps) \<longleftrightarrow> p < n \<and> below n ps"
  "below n (ps @ qs) \<longleftrightarrow> below n ps \<and> below n qs"
  by (auto simp: below_def)

lemma below_Suc [simp]: "below n ps \<Longrightarrow> below (Suc n) ps"
  by (auto simp: below_def)

lemma below_not_in: "below n (map f xs) \<Longrightarrow> n \<notin> f ` set xs"
  by (auto simp: below_def)

lemma snoc_cases: "xs = [] \<or> (\<exists>ys y. xs = ys @ [y])"
  by (cases xs rule: rev_cases) auto

end
