(* ===== verification/Interfaces.thy ===== *)
theory Interfaces
  imports Prelude
begin

text \<open>
  The contracts between components, as locales.

  \<open>refinement\<close> is the contract every container keeps with the specification it implements:
  a representation relation that every operation preserves, with the operation returning
  what the specification returns and never panicking. Its lemmas lift this from one
  operation to any sequence of operations.

  The queue, stack and deque contracts extend it with the specification of the Go
  interfaces \<open>Queue\<close>, \<open>Stack\<close> and the deque types of package algo.
\<close>

locale refinement =
  fixes cstep :: "'c \<Rightarrow> 'op \<Rightarrow> ('out \<times> 'c) option"
    and astep :: "'a \<Rightarrow> 'op \<Rightarrow> 'out \<times> 'a"
    and rel :: "'c \<Rightarrow> 'a \<Rightarrow> bool"
  assumes step_refines:
    "rel c a \<Longrightarrow> \<exists>c'. cstep c x = Some (fst (astep a x), c') \<and> rel c' (snd (astep a x))"
begin

lemma run_refines:
  assumes "rel c a"
  shows "\<exists>c' rs a'. run_steps cstep c xs = Some (rs, c')
    \<and> run_steps (\<lambda>s x. Some (astep s x)) a xs = Some (rs, a') \<and> rel c' a'"
  using assms
proof (induction xs arbitrary: c a)
  case Nil
  then show ?case by simp
next
  case (Cons x xs)
  obtain r a1 where a: "astep a x = (r, a1)" by fastforce
  with step_refines [OF Cons.prems, of x]
  obtain c1 where c: "cstep c x = Some (r, c1)" and r1: "rel c1 a1" by auto
  from Cons.IH [OF r1] show ?case by (auto simp: a c)
qed

lemma run_never_panics: "rel c a \<Longrightarrow> run_steps cstep c xs \<noteq> None"
  using run_refines by fastforce

lemma run_outputs:
  assumes "rel c a" and "run_steps cstep c xs = Some (rs, c')"
  shows "\<exists>a'. run_steps (\<lambda>s x. Some (astep s x)) a xs = Some (rs, a') \<and> rel c' a'"
  using run_refines [OF assms(1), of xs] assms(2) by auto

end

section \<open>Deques\<close>

text \<open>The operations of \<open>Deque\<close> and \<open>DequeList\<close>, and what they return.\<close>

datatype 'a out = Unit | Item "'a option" | Count int | Flag bool | Items "'a list"

datatype 'a deque_op =
    PushBack 'a | PushFront 'a | PopBack | PopFront | PeekBack | PeekFront
  | DSize | DIsEmpty | DClear

definition first_item :: "'a list \<Rightarrow> 'a option" where
  "first_item xs = first_or xs None"

definition last_item :: "'a list \<Rightarrow> 'a option" where
  "last_item xs = last_or None xs"

fun deque_spec :: "'a list \<Rightarrow> 'a deque_op \<Rightarrow> 'a out \<times> 'a list" where
  "deque_spec xs (PushBack x) = (Unit, xs @ [x])"
| "deque_spec xs (PushFront x) = (Unit, x # xs)"
| "deque_spec xs PopBack = (Item (last_item xs), butlast xs)"
| "deque_spec xs PopFront = (Item (first_item xs), tl xs)"
| "deque_spec xs PeekBack = (Item (last_item xs), xs)"
| "deque_spec xs PeekFront = (Item (first_item xs), xs)"
| "deque_spec xs DSize = (Count (int (length xs)), xs)"
| "deque_spec xs DIsEmpty = (Flag (xs = []), xs)"
| "deque_spec xs DClear = (Unit, [])"

abbreviation total_step :: "('a \<Rightarrow> 'op \<Rightarrow> 'out \<times> 'a) \<Rightarrow> 'a \<Rightarrow> 'op \<Rightarrow> ('out \<times> 'a) option" where
  "total_step f \<equiv> (\<lambda>s x. Some (f s x))"

lemma deque_spec_push_all:
  "run_steps (total_step deque_spec) xs (map PushBack ys) = Some (map (\<lambda>_. Unit) ys, xs @ ys)"
  by (induction ys arbitrary: xs) auto

lemma deque_spec_pop_all:
  "run_steps (total_step deque_spec) (xs @ ys) (replicate (length xs) PopFront)
   = Some (map (\<lambda>x. Item (Some x)) xs, ys)"
  by (induction xs) (auto simp: first_item_def)

lemma deque_spec_pop_back_all:
  "run_steps (total_step deque_spec) (ys @ xs) (replicate (length xs) PopBack)
   = Some (map (\<lambda>x. Item (Some x)) (rev xs), ys)"
  by (induction xs rule: rev_induct)
    (auto simp: last_item_def butlast_append simp flip: append_assoc)

locale deque_impl = refinement cstep deque_spec rel
  for cstep :: "'c \<Rightarrow> 'a deque_op \<Rightarrow> ('a out \<times> 'c) option" and rel :: "'c \<Rightarrow> 'a list \<Rightarrow> bool" +
  fixes new :: 'c
  assumes new_rel: "rel new []"
begin

text \<open>First in, first out at opposite ends; last in, first out at the same end.\<close>

lemma fifo:
  "\<exists>c'. run_steps cstep new (map PushBack ys @ replicate (length ys) PopFront)
     = Some (map (\<lambda>_. Unit) ys @ map (\<lambda>x. Item (Some x)) ys, c') \<and> rel c' []"
  using run_refines [OF new_rel, of "map PushBack ys @ replicate (length ys) PopFront"]
    deque_spec_pop_all [of ys "[]"]
  by (auto simp: run_steps_append deque_spec_push_all)

lemma lifo:
  "\<exists>c'. run_steps cstep new (map PushBack ys @ replicate (length ys) PopBack)
     = Some (map (\<lambda>_. Unit) ys @ map (\<lambda>x. Item (Some x)) (rev ys), c') \<and> rel c' []"
  using run_refines [OF new_rel, of "map PushBack ys @ replicate (length ys) PopBack"]
    deque_spec_pop_back_all [of "[]" ys]
  by (auto simp: run_steps_append deque_spec_push_all)

end

section \<open>Queues and stacks\<close>

text \<open>The methods of the Go interfaces \<open>Queue\<close> and \<open>Stack\<close>. An error return is \<open>Item None\<close>:
  each interface has one error, the empty container.\<close>

datatype 'a queue_op = QPush 'a | QPop | QPeek | QSize | QIsEmpty

fun queue_spec :: "'a list \<Rightarrow> 'a queue_op \<Rightarrow> 'a out \<times> 'a list" where
  "queue_spec xs (QPush x) = (Unit, xs @ [x])"
| "queue_spec xs QPop = (Item (first_item xs), tl xs)"
| "queue_spec xs QPeek = (Item (first_item xs), xs)"
| "queue_spec xs QSize = (Count (int (length xs)), xs)"
| "queue_spec xs QIsEmpty = (Flag (xs = []), xs)"

datatype 'a stack_op = SPush 'a | SPop | SPeek | SSize | SIsEmpty

text \<open>The specification of a stack keeps its top at the head of the list.\<close>

fun stack_spec :: "'a list \<Rightarrow> 'a stack_op \<Rightarrow> 'a out \<times> 'a list" where
  "stack_spec xs (SPush x) = (Unit, x # xs)"
| "stack_spec xs SPop = (Item (first_item xs), tl xs)"
| "stack_spec xs SPeek = (Item (first_item xs), xs)"
| "stack_spec xs SSize = (Count (int (length xs)), xs)"
| "stack_spec xs SIsEmpty = (Flag (xs = []), xs)"

lemma queue_spec_push_all:
  "run_steps (total_step queue_spec) xs (map QPush ys) = Some (map (\<lambda>_. Unit) ys, xs @ ys)"
  by (induction ys arbitrary: xs) auto

lemma queue_spec_pop_all:
  "run_steps (total_step queue_spec) (xs @ ys) (replicate (length xs) QPop)
   = Some (map (\<lambda>x. Item (Some x)) xs, ys)"
  by (induction xs) (auto simp: first_item_def)

lemma stack_spec_push_all:
  "run_steps (total_step stack_spec) xs (map SPush ys) = Some (map (\<lambda>_. Unit) ys, rev ys @ xs)"
  by (induction ys arbitrary: xs) auto

lemma stack_spec_pop_all:
  "run_steps (total_step stack_spec) (xs @ ys) (replicate (length xs) SPop)
   = Some (map (\<lambda>x. Item (Some x)) xs, ys)"
  by (induction xs) (auto simp: first_item_def)

locale queue_impl = refinement cstep queue_spec rel
  for cstep :: "'c \<Rightarrow> 'a queue_op \<Rightarrow> ('a out \<times> 'c) option" and rel :: "'c \<Rightarrow> 'a list \<Rightarrow> bool" +
  fixes new :: 'c
  assumes new_rel: "rel new []"
begin

lemma push_then_pop:
  "\<exists>c'. run_steps cstep new (map QPush ys @ replicate (length ys) QPop)
     = Some (map (\<lambda>_. Unit) ys @ map (\<lambda>x. Item (Some x)) ys, c') \<and> rel c' []"
  using run_refines [OF new_rel, of "map QPush ys @ replicate (length ys) QPop"]
    queue_spec_pop_all [of ys "[]"]
  by (auto simp: run_steps_append queue_spec_push_all)

end

locale stack_impl = refinement cstep stack_spec rel
  for cstep :: "'c \<Rightarrow> 'a stack_op \<Rightarrow> ('a out \<times> 'c) option" and rel :: "'c \<Rightarrow> 'a list \<Rightarrow> bool" +
  fixes new :: 'c
  assumes new_rel: "rel new []"
begin

lemma push_then_pop:
  "\<exists>c'. run_steps cstep new (map SPush ys @ replicate (length ys) SPop)
     = Some (map (\<lambda>_. Unit) ys @ map (\<lambda>x. Item (Some x)) (rev ys), c') \<and> rel c' []"
  using run_refines [OF new_rel, of "map SPush ys @ replicate (length ys) SPop"]
    stack_spec_pop_all [of "rev ys" "[]"]
  by (auto simp: run_steps_append stack_spec_push_all)

end

end
