(* ===== verification/Deques.thy ===== *)
theory Deques
  imports Interfaces
begin

text \<open>
  \<open>algo/deque.go\<close> and \<open>algo/deque_list.go\<close>: a deque over a slice, and a deque over a doubly
  linked list. The slice is owned by the deque alone, so it is a HOL list. The linked list is
  modelled with its nodes in a heap and nil-able pointers; following a nil pointer is a panic.
  Both implement the deque contract of \<open>Interfaces\<close>, and they agree on every sequence of
  operations.
\<close>

section \<open>Deque over a slice\<close>

record 'a deque =
  elements :: "'a list"

definition NewDeque :: "'a deque" where
  "NewDeque = \<lparr>elements = []\<rparr>"

definition dq_PushBack :: "'a deque \<Rightarrow> 'a \<Rightarrow> 'a deque" where
  "dq_PushBack d item = d\<lparr>elements := elements d @ [item]\<rparr>"

definition dq_PushFront :: "'a deque \<Rightarrow> 'a \<Rightarrow> 'a deque" where
  "dq_PushFront d item = d\<lparr>elements := [item] @ elements d\<rparr>"

definition dq_IsEmpty :: "'a deque \<Rightarrow> bool" where
  "dq_IsEmpty d \<longleftrightarrow> length (elements d) = 0"

definition dq_PopBack :: "'a deque \<Rightarrow> 'a option \<times> 'a deque" where
  "dq_PopBack d =
     (if dq_IsEmpty d then (None, d)
      else let lastIndex = length (elements d) - 1; item = elements d ! lastIndex
           in (Some item, d\<lparr>elements := take lastIndex (elements d)\<rparr>))"

definition dq_PopFront :: "'a deque \<Rightarrow> 'a option \<times> 'a deque" where
  "dq_PopFront d =
     (if dq_IsEmpty d then (None, d)
      else let item = elements d ! 0 in (Some item, d\<lparr>elements := drop 1 (elements d)\<rparr>))"

definition dq_PeekBack :: "'a deque \<Rightarrow> 'a option" where
  "dq_PeekBack d =
     (if dq_IsEmpty d then None else Some (elements d ! (length (elements d) - 1)))"

definition dq_PeekFront :: "'a deque \<Rightarrow> 'a option" where
  "dq_PeekFront d = (if dq_IsEmpty d then None else Some (elements d ! 0))"

definition dq_Size :: "'a deque \<Rightarrow> int" where
  "dq_Size d = int (length (elements d))"

definition dq_Clear :: "'a deque \<Rightarrow> 'a deque" where
  "dq_Clear d = d\<lparr>elements := []\<rparr>"

text \<open>A call of a method of the type, with what it returns.\<close>

fun dq_step :: "'a deque \<Rightarrow> 'a deque_op \<Rightarrow> ('a out \<times> 'a deque) option" where
  "dq_step d (PushBack x) = Some (Unit, dq_PushBack d x)"
| "dq_step d (PushFront x) = Some (Unit, dq_PushFront d x)"
| "dq_step d PopBack = Some (map_prod Item id (dq_PopBack d))"
| "dq_step d PopFront = Some (map_prod Item id (dq_PopFront d))"
| "dq_step d PeekBack = Some (Item (dq_PeekBack d), d)"
| "dq_step d PeekFront = Some (Item (dq_PeekFront d), d)"
| "dq_step d DSize = Some (Count (dq_Size d), d)"
| "dq_step d DIsEmpty = Some (Flag (dq_IsEmpty d), d)"
| "dq_step d DClear = Some (Unit, dq_Clear d)"

lemmas dq_defs = dq_PushBack_def dq_PushFront_def dq_IsEmpty_def dq_PopBack_def dq_PopFront_def
  dq_PeekBack_def dq_PeekFront_def dq_Size_def dq_Clear_def NewDeque_def

definition dq_rel :: "'a deque \<Rightarrow> 'a list \<Rightarrow> bool" where
  "dq_rel d xs \<longleftrightarrow> elements d = xs"

interpretation dq: deque_impl dq_step dq_rel NewDeque
proof unfold_locales
  fix c :: "'a deque" and a x
  assume "dq_rel c a"
  then show "\<exists>c'. dq_step c x = Some (fst (deque_spec a x), c') \<and> dq_rel c' (snd (deque_spec a x))"
    by (cases x)
      (auto simp: dq_rel_def dq_defs Let_def first_item_def last_item_def first_or_def last_or_def
        last_conv_nth butlast_conv_take drop_Suc hd_conv_nth split: list.split)
qed (simp add: dq_rel_def NewDeque_def)

section \<open>Deque over a doubly linked list\<close>

record 'a dnode =
  dn_Value :: 'a
  dn_Prev :: "ptr option"
  dn_Next :: "ptr option"

record 'a deque_list =
  dl_heap :: "ptr \<rightharpoonup> 'a dnode"
  dl_fresh :: ptr
  dl_head :: "ptr option"
  dl_tail :: "ptr option"
  dl_size :: int

definition NewDequeList :: "'a deque_list" where
  "NewDequeList =
     \<lparr>dl_heap = Map.empty, dl_fresh = 0, dl_head = None, dl_tail = None, dl_size = 0\<rparr>"

text \<open>Reading and writing a field through a pointer panics when the pointer is nil.\<close>

definition load_node :: "(ptr \<rightharpoonup> 'n) \<Rightarrow> ptr option \<Rightarrow> 'n option" where
  "load_node h q = do { p \<leftarrow> q; h p }"

definition set_node :: "(ptr \<rightharpoonup> 'n) \<Rightarrow> ptr option \<Rightarrow> ('n \<Rightarrow> 'n) \<Rightarrow> (ptr \<rightharpoonup> 'n) option" where
  "set_node h q f = do { p \<leftarrow> q; n \<leftarrow> h p; Some (h(p \<mapsto> f n)) }"

definition dl_IsEmpty :: "'a deque_list \<Rightarrow> bool" where
  "dl_IsEmpty d \<longleftrightarrow> dl_size d = 0"

definition dl_new_node :: "'a deque_list \<Rightarrow> 'a dnode \<Rightarrow> ptr \<times> 'a deque_list" where
  "dl_new_node d node =
     (dl_fresh d, d\<lparr>dl_heap := (dl_heap d)(dl_fresh d \<mapsto> node), dl_fresh := Suc (dl_fresh d)\<rparr>)"

definition dl_PushBack :: "'a deque_list \<Rightarrow> 'a \<Rightarrow> 'a deque_list option" where
  "dl_PushBack d item =
     (let (newNode, d) = dl_new_node d \<lparr>dn_Value = item, dn_Prev = dl_tail d, dn_Next = None\<rparr>
      in do {
        d \<leftarrow> (if dl_IsEmpty d then Some (d\<lparr>dl_head := Some newNode, dl_tail := Some newNode\<rparr>)
             else do {
               h \<leftarrow> set_node (dl_heap d) (dl_tail d) (dn_Next_update (\<lambda>_. Some newNode));
               Some (d\<lparr>dl_heap := h, dl_tail := Some newNode\<rparr>) });
        Some (d\<lparr>dl_size := dl_size d + 1\<rparr>) })"

definition dl_PushFront :: "'a deque_list \<Rightarrow> 'a \<Rightarrow> 'a deque_list option" where
  "dl_PushFront d item =
     (let (newNode, d) = dl_new_node d \<lparr>dn_Value = item, dn_Prev = None, dn_Next = dl_head d\<rparr>
      in do {
        d \<leftarrow> (if dl_IsEmpty d then Some (d\<lparr>dl_head := Some newNode, dl_tail := Some newNode\<rparr>)
             else do {
               h \<leftarrow> set_node (dl_heap d) (dl_head d) (dn_Prev_update (\<lambda>_. Some newNode));
               Some (d\<lparr>dl_heap := h, dl_head := Some newNode\<rparr>) });
        Some (d\<lparr>dl_size := dl_size d + 1\<rparr>) })"

definition dl_PopBack :: "'a deque_list \<Rightarrow> ('a option \<times> 'a deque_list) option" where
  "dl_PopBack d =
     (if dl_IsEmpty d then Some (None, d)
      else do {
        n \<leftarrow> load_node (dl_heap d) (dl_tail d);
        let item = dn_Value n;
        d \<leftarrow> (if dl_head d = dl_tail d then Some (d\<lparr>dl_head := None, dl_tail := None\<rparr>)
             else do {
               let d = d\<lparr>dl_tail := dn_Prev n\<rparr>;
               h \<leftarrow> set_node (dl_heap d) (dl_tail d) (dn_Next_update (\<lambda>_. None));
               Some (d\<lparr>dl_heap := h\<rparr>) });
        Some (Some item, d\<lparr>dl_size := dl_size d - 1\<rparr>) })"

definition dl_PopFront :: "'a deque_list \<Rightarrow> ('a option \<times> 'a deque_list) option" where
  "dl_PopFront d =
     (if dl_IsEmpty d then Some (None, d)
      else do {
        n \<leftarrow> load_node (dl_heap d) (dl_head d);
        let item = dn_Value n;
        d \<leftarrow> (if dl_head d = dl_tail d then Some (d\<lparr>dl_head := None, dl_tail := None\<rparr>)
             else do {
               let d = d\<lparr>dl_head := dn_Next n\<rparr>;
               h \<leftarrow> set_node (dl_heap d) (dl_head d) (dn_Prev_update (\<lambda>_. None));
               Some (d\<lparr>dl_heap := h\<rparr>) });
        Some (Some item, d\<lparr>dl_size := dl_size d - 1\<rparr>) })"

definition dl_PeekBack :: "'a deque_list \<Rightarrow> 'a option option" where
  "dl_PeekBack d =
     (if dl_IsEmpty d then Some None
      else do { n \<leftarrow> load_node (dl_heap d) (dl_tail d); Some (Some (dn_Value n)) })"

definition dl_PeekFront :: "'a deque_list \<Rightarrow> 'a option option" where
  "dl_PeekFront d =
     (if dl_IsEmpty d then Some None
      else do { n \<leftarrow> load_node (dl_heap d) (dl_head d); Some (Some (dn_Value n)) })"

definition dl_Size :: "'a deque_list \<Rightarrow> int" where
  "dl_Size d = dl_size d"

definition dl_Clear :: "'a deque_list \<Rightarrow> 'a deque_list" where
  "dl_Clear d = d\<lparr>dl_head := None, dl_tail := None, dl_size := 0\<rparr>"

fun dl_step :: "'a deque_list \<Rightarrow> 'a deque_op \<Rightarrow> ('a out \<times> 'a deque_list) option" where
  "dl_step d (PushBack x) = map_option (Pair Unit) (dl_PushBack d x)"
| "dl_step d (PushFront x) = map_option (Pair Unit) (dl_PushFront d x)"
| "dl_step d PopBack = map_option (map_prod Item id) (dl_PopBack d)"
| "dl_step d PopFront = map_option (map_prod Item id) (dl_PopFront d)"
| "dl_step d PeekBack = map_option (\<lambda>v. (Item v, d)) (dl_PeekBack d)"
| "dl_step d PeekFront = map_option (\<lambda>v. (Item v, d)) (dl_PeekFront d)"
| "dl_step d DSize = Some (Count (dl_Size d), d)"
| "dl_step d DIsEmpty = Some (Flag (dl_IsEmpty d), d)"
| "dl_step d DClear = Some (Unit, dl_Clear d)"

subsection \<open>Doubly linked segments\<close>

text \<open>
  \<open>dseg h prv nvs nxt\<close>: the heap holds a chain of nodes at the pointers of \<open>nvs\<close> with the values
  of \<open>nvs\<close>, whose first node points back to \<open>prv\<close> and whose last node points on to \<open>nxt\<close>.
\<close>

fun dseg :: "(ptr \<rightharpoonup> 'a dnode) \<Rightarrow> ptr option \<Rightarrow> (ptr \<times> 'a) list \<Rightarrow> ptr option \<Rightarrow> bool" where
  "dseg h prv [] nxt = True"
| "dseg h prv ((p, v) # nvs) nxt =
     (h p = Some \<lparr>dn_Value = v, dn_Prev = prv, dn_Next = first_or (map fst nvs) nxt\<rparr>
      \<and> dseg h (Some p) nvs nxt)"

lemma dseg_append [seg_simps]:
  "dseg h prv (xs @ ys) nxt =
     (dseg h prv xs (first_or (map fst ys) nxt) \<and> dseg h (last_or prv (map fst xs)) ys nxt)"
  by (induction h prv xs nxt rule: dseg.induct) auto

lemma dseg_frame [seg_simps]:
  "p \<notin> fst ` set nvs \<Longrightarrow> dseg (h(p := x)) prv nvs nxt = dseg h prv nvs nxt"
  by (induction h prv nvs nxt rule: dseg.induct) auto

definition dl_rel :: "'a deque_list \<Rightarrow> 'a list \<Rightarrow> bool" where
  "dl_rel d xs \<longleftrightarrow>
     (\<exists>nvs. xs = map snd nvs \<and> distinct (map fst nvs) \<and> below (dl_fresh d) (map fst nvs)
        \<and> dseg (dl_heap d) None nvs None
        \<and> dl_head d = first_or (map fst nvs) None \<and> dl_tail d = last_or None (map fst nvs)
        \<and> dl_size d = int (length nvs))"

lemma dl_relI [rep_intros]:
  assumes "distinct (map fst nvs)" and "below (dl_fresh d) (map fst nvs)"
    and "dseg (dl_heap d) None nvs None"
    and "dl_head d = first_or (map fst nvs) None" and "dl_tail d = last_or None (map fst nvs)"
    and "dl_size d = int (length nvs)" and "xs = map snd nvs"
  shows "dl_rel d xs"
  using assms by (auto simp: dl_rel_def)

lemma dl_relE:
  assumes "dl_rel d xs"
  obtains nvs where "xs = map snd nvs" "distinct (map fst nvs)"
    "below (dl_fresh d) (map fst nvs)" "dseg (dl_heap d) None nvs None"
    "dl_head d = first_or (map fst nvs) None" "dl_tail d = last_or None (map fst nvs)"
    "dl_size d = int (length nvs)"
  using assms by (auto simp: dl_rel_def)

lemmas dl_defs = dl_PushBack_def dl_PushFront_def dl_PopBack_def dl_PopFront_def dl_PeekBack_def
  dl_PeekFront_def dl_IsEmpty_def dl_Size_def dl_Clear_def dl_new_node_def load_node_def
  set_node_def

lemma dl_rel_PushBack:
  assumes "dl_rel d xs"
  shows "\<exists>d'. dl_PushBack d x = Some d' \<and> dl_rel d' (xs @ [x])"
proof -
  from assms obtain nvs where nvs: "xs = map snd nvs" "distinct (map fst nvs)"
    "below (dl_fresh d) (map fst nvs)" "dseg (dl_heap d) None nvs None"
    "dl_head d = first_or (map fst nvs) None" "dl_tail d = last_or None (map fst nvs)"
    "dl_size d = int (length nvs)" by (rule dl_relE)
  let ?nvs = "nvs @ [(dl_fresh d, x)]"
  have fresh: "dl_fresh d \<notin> fst ` set nvs" by (rule below_not_in [OF nvs(3)])
  have "nvs = [] \<or> (\<exists>ys q v. nvs = ys @ [(q, v)])" using snoc_cases [of nvs] by auto
  then show ?thesis
    using nvs fresh
    by (elim disjE exE)
      (auto simp: dl_defs seg_simps image_Un intro!: dl_relI [of ?nvs])
qed

lemma dl_rel_PushFront:
  assumes "dl_rel d xs"
  shows "\<exists>d'. dl_PushFront d x = Some d' \<and> dl_rel d' (x # xs)"
proof -
  from assms obtain nvs where nvs: "xs = map snd nvs" "distinct (map fst nvs)"
    "below (dl_fresh d) (map fst nvs)" "dseg (dl_heap d) None nvs None"
    "dl_head d = first_or (map fst nvs) None" "dl_tail d = last_or None (map fst nvs)"
    "dl_size d = int (length nvs)" by (rule dl_relE)
  let ?nvs = "(dl_fresh d, x) # nvs"
  have fresh: "dl_fresh d \<notin> fst ` set nvs" by (rule below_not_in [OF nvs(3)])
  show ?thesis
    using nvs fresh
    by (cases nvs) (auto simp: dl_defs seg_simps intro!: dl_relI [of ?nvs])
qed

lemma dl_rel_nonempty:
  assumes "dl_rel d xs"
  shows "dl_IsEmpty d \<longleftrightarrow> xs = []"
  using assms by (auto simp: dl_rel_def dl_IsEmpty_def)

lemma dl_rel_PopBack:
  assumes "dl_rel d xs"
  shows "\<exists>d'. dl_PopBack d = Some (last_item xs, d') \<and> dl_rel d' (butlast xs)"
proof (cases "xs = []")
  case True
  with assms dl_rel_nonempty show ?thesis by (auto simp: dl_PopBack_def last_item_def)
next
  case False
  from assms obtain nvs where nvs: "xs = map snd nvs" "distinct (map fst nvs)"
    "below (dl_fresh d) (map fst nvs)" "dseg (dl_heap d) None nvs None"
    "dl_head d = first_or (map fst nvs) None" "dl_tail d = last_or None (map fst nvs)"
    "dl_size d = int (length nvs)" by (rule dl_relE)
  from False nvs(1) obtain ys p v where ys: "nvs = ys @ [(p, v)]"
    using snoc_cases [of nvs] by auto
  consider "ys = []" | zs q w where "ys = zs @ [(q, w)]"
    using snoc_cases [of ys] by auto
  then show ?thesis
  proof cases
    case 1
    with ys nvs show ?thesis
      by (auto simp: dl_defs last_item_def intro!: dl_relI [of "[]"])
  next
    case 2
    have "first_or (map fst zs) (Some q) \<noteq> Some p"
      using nvs(2) ys 2 by (cases zs) auto
    with 2 ys nvs show ?thesis
      by (auto simp: dl_defs last_item_def seg_simps butlast_append image_Un
          intro!: dl_relI [of ys])
  qed
qed

lemma dl_rel_PopFront:
  assumes "dl_rel d xs"
  shows "\<exists>d'. dl_PopFront d = Some (first_item xs, d') \<and> dl_rel d' (tl xs)"
proof (cases "xs = []")
  case True
  with assms dl_rel_nonempty show ?thesis by (auto simp: dl_PopFront_def first_item_def)
next
  case False
  from assms obtain nvs where nvs: "xs = map snd nvs" "distinct (map fst nvs)"
    "below (dl_fresh d) (map fst nvs)" "dseg (dl_heap d) None nvs None"
    "dl_head d = first_or (map fst nvs) None" "dl_tail d = last_or None (map fst nvs)"
    "dl_size d = int (length nvs)" by (rule dl_relE)
  from False nvs(1) obtain p v ys where ys: "nvs = (p, v) # ys" by (cases nvs) auto
  show ?thesis
  proof (cases ys)
    case Nil
    with ys nvs show ?thesis
      by (auto simp: dl_defs first_item_def intro!: dl_relI [of "[]"])
  next
    case (Cons b zs)
    have "last_or (Some (fst b)) (map fst zs) \<noteq> Some p"
      using nvs(2) ys Cons last_in_set [of "map fst zs"] by (auto simp: last_or_def split: if_splits)
    with Cons ys nvs show ?thesis
      by (cases b) (auto simp: dl_defs first_item_def seg_simps intro!: dl_relI [of ys])
  qed
qed

lemma dl_rel_PeekBack: "dl_rel d xs \<Longrightarrow> dl_PeekBack d = Some (last_item xs)"
  using snoc_cases [of xs]
  by (auto elim!: dl_relE simp: dl_defs last_item_def seg_simps map_eq_append_conv)

lemma dl_rel_PeekFront: "dl_rel d xs \<Longrightarrow> dl_PeekFront d = Some (first_item xs)"
  by (cases xs) (auto elim!: dl_relE simp: dl_defs first_item_def)

lemma dl_rel_Clear: "dl_rel d xs \<Longrightarrow> dl_rel (dl_Clear d) []"
  by (auto simp: dl_defs intro: dl_relI [of "[]"])

interpretation dl: deque_impl dl_step dl_rel NewDequeList
proof unfold_locales
  fix c :: "'a deque_list" and a x
  assume r: "dl_rel c a"
  show "\<exists>c'. dl_step c x = Some (fst (deque_spec a x), c') \<and> dl_rel c' (snd (deque_spec a x))"
  proof (cases x)
    case (PushBack v)
    then show ?thesis using dl_rel_PushBack [OF r, of v] by auto
  next
    case (PushFront v)
    then show ?thesis using dl_rel_PushFront [OF r, of v] by auto
  next
    case PopBack
    then show ?thesis using dl_rel_PopBack [OF r] by auto
  next
    case PopFront
    then show ?thesis using dl_rel_PopFront [OF r] by auto
  next
    case DSize
    then show ?thesis using r by (auto simp: dl_Size_def dl_rel_def)
  qed (use r in \<open>auto simp: dl_rel_PeekBack dl_rel_PeekFront dl_rel_nonempty intro: dl_rel_Clear\<close>)
qed (auto simp: NewDequeList_def intro: dl_relI [of "[]"])

section \<open>Properties\<close>

text \<open>C14: on every sequence of operations the linked deque never follows a nil pointer and
  returns exactly what the slice deque returns.\<close>

theorem DequeList_equivalent_to_Deque:
  "\<exists>outs d d'. run_steps dl_step NewDequeList ops = Some (outs, d)
     \<and> run_steps dq_step NewDeque ops = Some (outs, d')
     \<and> dl_rel d (elements d')"
  using dl.run_refines [OF dl.new_rel, of ops] dq.run_refines [OF dq.new_rel, of ops]
  by (fastforce simp: dq_rel_def)

end
