(* ===== verification/Stacks.thy ===== *)
theory Stacks
  imports Interfaces
begin

text \<open>
  \<open>algo/stack.go\<close>: \<open>SliceStack\<close>, a stack over a slice whose top is the last element. Every
  method runs under the mutex of the stack, so a method is one atomic step of the model. The
  error \<open>ErrStackEmpty\<close> is \<open>None\<close>.
\<close>

record 'a slice_stack =
  st_items :: "'a list"

definition NewStack :: "'a slice_stack" where
  "NewStack = \<lparr>st_items = []\<rparr>"

definition st_Push :: "'a slice_stack \<Rightarrow> 'a \<Rightarrow> 'a slice_stack" where
  "st_Push s item = s\<lparr>st_items := st_items s @ [item]\<rparr>"

definition st_Pop :: "'a slice_stack \<Rightarrow> 'a option \<times> 'a slice_stack" where
  "st_Pop s =
     (if length (st_items s) = 0 then (None, s)
      else let index = length (st_items s) - 1; item = st_items s ! index
           in (Some item, s\<lparr>st_items := take index (st_items s)\<rparr>))"

definition st_Peek :: "'a slice_stack \<Rightarrow> 'a option" where
  "st_Peek s =
     (if length (st_items s) = 0 then None
      else Some (st_items s ! (length (st_items s) - 1)))"

definition st_Size :: "'a slice_stack \<Rightarrow> int" where
  "st_Size s = int (length (st_items s))"

definition st_IsEmpty :: "'a slice_stack \<Rightarrow> bool" where
  "st_IsEmpty s \<longleftrightarrow> length (st_items s) = 0"

fun st_step :: "'a slice_stack \<Rightarrow> 'a stack_op \<Rightarrow> ('a out \<times> 'a slice_stack) option" where
  "st_step s (SPush x) = Some (Unit, st_Push s x)"
| "st_step s SPop = Some (map_prod Item id (st_Pop s))"
| "st_step s SPeek = Some (Item (st_Peek s), s)"
| "st_step s SSize = Some (Count (st_Size s), s)"
| "st_step s SIsEmpty = Some (Flag (st_IsEmpty s), s)"

definition st_rel :: "'a slice_stack \<Rightarrow> 'a list \<Rightarrow> bool" where
  "st_rel s xs \<longleftrightarrow> st_items s = rev xs"

interpretation st: stack_impl st_step st_rel NewStack
proof unfold_locales
  fix c :: "'a slice_stack" and a x
  assume "st_rel c a"
  then show "\<exists>c'. st_step c x = Some (fst (stack_spec a x), c') \<and> st_rel c' (snd (stack_spec a x))"
    by (cases x; cases a)
      (auto simp: st_rel_def st_Push_def st_Pop_def st_Peek_def st_Size_def st_IsEmpty_def
        Let_def first_item_def nth_append)
qed (simp add: st_rel_def NewStack_def)

text \<open>Pushing any items and popping as many returns them in reverse order and leaves the
  stack empty.\<close>

theorem SliceStack_last_in_first_out:
  "\<exists>s. run_steps st_step NewStack (map SPush xs @ replicate (length xs) SPop)
     = Some (map (\<lambda>_. Unit) xs @ map (\<lambda>x. Item (Some x)) (rev xs), s) \<and> st_IsEmpty s"
  using st.push_then_pop [of xs] by (auto simp: st_rel_def st_IsEmpty_def)

end
