(* ===== verification/Queues.thy ===== *)
theory Queues
  imports Interfaces
begin

text \<open>
  \<open>algo/queue.go\<close>: \<open>SliceQueue\<close>, the sequential behaviour of \<open>LockFreeQueue\<close>, and \<open>ChannelQueue\<close>.
  Theory \<open>LockFree\<close> has the interleavings of the lock-free queue.
\<close>

section \<open>SliceQueue\<close>

record 'a slice_queue =
  sq_items :: "'a list"

definition NewQueue :: "'a slice_queue" where
  "NewQueue = \<lparr>sq_items = []\<rparr>"

definition sq_Push :: "'a slice_queue \<Rightarrow> 'a \<Rightarrow> 'a slice_queue" where
  "sq_Push q item = q\<lparr>sq_items := sq_items q @ [item]\<rparr>"

definition sq_Pop :: "'a slice_queue \<Rightarrow> 'a option \<times> 'a slice_queue" where
  "sq_Pop q =
     (if length (sq_items q) = 0 then (None, q)
      else let item = sq_items q ! 0 in (Some item, q\<lparr>sq_items := drop 1 (sq_items q)\<rparr>))"

definition sq_Peek :: "'a slice_queue \<Rightarrow> 'a option" where
  "sq_Peek q = (if length (sq_items q) = 0 then None else Some (sq_items q ! 0))"

definition sq_Size :: "'a slice_queue \<Rightarrow> int" where
  "sq_Size q = int (length (sq_items q))"

definition sq_IsEmpty :: "'a slice_queue \<Rightarrow> bool" where
  "sq_IsEmpty q \<longleftrightarrow> length (sq_items q) = 0"

fun sq_step :: "'a slice_queue \<Rightarrow> 'a queue_op \<Rightarrow> ('a out \<times> 'a slice_queue) option" where
  "sq_step q (QPush x) = Some (Unit, sq_Push q x)"
| "sq_step q QPop = Some (map_prod Item id (sq_Pop q))"
| "sq_step q QPeek = Some (Item (sq_Peek q), q)"
| "sq_step q QSize = Some (Count (sq_Size q), q)"
| "sq_step q QIsEmpty = Some (Flag (sq_IsEmpty q), q)"

definition sq_rel :: "'a slice_queue \<Rightarrow> 'a list \<Rightarrow> bool" where
  "sq_rel q xs \<longleftrightarrow> sq_items q = xs"

interpretation sq: queue_impl sq_step sq_rel NewQueue
proof unfold_locales
  fix c :: "'a slice_queue" and a x
  assume "sq_rel c a"
  then show "\<exists>c'. sq_step c x = Some (fst (queue_spec a x), c') \<and> sq_rel c' (snd (queue_spec a x))"
    by (cases x; cases a)
      (auto simp: sq_rel_def sq_Push_def sq_Pop_def sq_Peek_def sq_Size_def sq_IsEmpty_def
        Let_def first_item_def)
qed (simp add: sq_rel_def NewQueue_def)

section \<open>ChannelQueue\<close>

text \<open>
  A buffered Go channel: its buffer, its capacity and whether it is closed. Sending on a
  closed channel panics; receiving from a closed channel delivers the buffered items and then
  the zero value of the element type, which is the parameter \<open>zero\<close>. An operation that has to
  wait is \<open>Blocks\<close>.
\<close>

datatype 'r effect = Returns 'r | Blocks | Panics

record 'a chan =
  ch_buf :: "'a list"
  ch_cap :: int
  ch_closed :: bool

record 'a channel_queue =
  cq_ch :: "'a chan"
  cq_capacity :: int

datatype queue_error = ErrQueueEmpty | ErrQueueFull

text \<open>One arm of a \<open>select\<close>: a send or a receive that is ready now (\<open>Returns\<close>), would block, or
  panics.\<close>

definition ch_send :: "'a chan \<Rightarrow> 'a \<Rightarrow> 'a chan effect" where
  "ch_send c x =
     (if ch_closed c then Panics
      else if int (length (ch_buf c)) < ch_cap c then Returns (c\<lparr>ch_buf := ch_buf c @ [x]\<rparr>)
      else Blocks)"

definition ch_recv :: "'a \<Rightarrow> 'a chan \<Rightarrow> ('a \<times> 'a chan) effect" where
  "ch_recv zero c =
     (case ch_buf c of
        x # xs \<Rightarrow> Returns (x, c\<lparr>ch_buf := xs\<rparr>)
      | [] \<Rightarrow> if ch_closed c then Returns (zero, c) else Blocks)"

definition ch_close :: "'a chan \<Rightarrow> 'a chan effect" where
  "ch_close c = (if ch_closed c then Panics else Returns (c\<lparr>ch_closed := True\<rparr>))"

definition NewChannelQueue :: "int \<Rightarrow> 'a channel_queue" where
  "NewChannelQueue capacity =
     (let capacity = (if capacity \<le> 0 then 1 else capacity)
      in \<lparr>cq_ch = \<lparr>ch_buf = [], ch_cap = capacity, ch_closed = False\<rparr>, cq_capacity = capacity\<rparr>)"

definition cq_Push :: "'a channel_queue \<Rightarrow> 'a \<Rightarrow> 'a channel_queue effect" where
  "cq_Push q item =
     (case ch_send (cq_ch q) item of
        Returns c \<Rightarrow> Returns (q\<lparr>cq_ch := c\<rparr>) | Blocks \<Rightarrow> Blocks | Panics \<Rightarrow> Panics)"

definition cq_TryPush :: "'a channel_queue \<Rightarrow> 'a \<Rightarrow> (queue_error option \<times> 'a channel_queue) effect" where
  "cq_TryPush q item =
     (case ch_send (cq_ch q) item of
        Returns c \<Rightarrow> Returns (None, q\<lparr>cq_ch := c\<rparr>)
      | Blocks \<Rightarrow> Returns (Some ErrQueueFull, q)
      | Panics \<Rightarrow> Panics)"

definition cq_Pop :: "'a \<Rightarrow> 'a channel_queue \<Rightarrow> ((queue_error + 'a) \<times> 'a channel_queue) effect" where
  "cq_Pop zero q =
     (case ch_recv zero (cq_ch q) of
        Returns (item, c) \<Rightarrow> Returns (Inr item, q\<lparr>cq_ch := c\<rparr>)
      | Blocks \<Rightarrow> Returns (Inl ErrQueueEmpty, q)
      | Panics \<Rightarrow> Panics)"

definition cq_BlockingPop :: "'a \<Rightarrow> 'a channel_queue \<Rightarrow> ('a \<times> 'a channel_queue) effect" where
  "cq_BlockingPop zero q =
     (case ch_recv zero (cq_ch q) of
        Returns (item, c) \<Rightarrow> Returns (item, q\<lparr>cq_ch := c\<rparr>)
      | Blocks \<Rightarrow> Blocks
      | Panics \<Rightarrow> Panics)"

text \<open>
  Where the inner \<open>select\<close> of \<open>Peek\<close> finds the channel full, the code hands the item to a new
  goroutine that sends it later: the third component of the result lists these items.
\<close>

definition cq_Peek ::
    "'a \<Rightarrow> 'a channel_queue \<Rightarrow> ((queue_error + 'a) \<times> 'a channel_queue \<times> 'a list) effect" where
  "cq_Peek zero q =
     (case ch_recv zero (cq_ch q) of
        Returns (item, c) \<Rightarrow>
          (case ch_send c item of
             Returns c' \<Rightarrow> Returns (Inr item, q\<lparr>cq_ch := c'\<rparr>, [])
           | Blocks \<Rightarrow> Returns (Inr item, q\<lparr>cq_ch := c\<rparr>, [item])
           | Panics \<Rightarrow> Panics)
      | Blocks \<Rightarrow> Returns (Inl ErrQueueEmpty, q, [])
      | Panics \<Rightarrow> Panics)"

definition cq_Size :: "'a channel_queue \<Rightarrow> int" where
  "cq_Size q = int (length (ch_buf (cq_ch q)))"

definition cq_IsEmpty :: "'a channel_queue \<Rightarrow> bool" where
  "cq_IsEmpty q \<longleftrightarrow> length (ch_buf (cq_ch q)) = 0"

definition cq_IsFull :: "'a channel_queue \<Rightarrow> bool" where
  "cq_IsFull q \<longleftrightarrow> int (length (ch_buf (cq_ch q))) = cq_capacity q"

definition cq_Capacity :: "'a channel_queue \<Rightarrow> int" where
  "cq_Capacity q = cq_capacity q"

definition cq_Close :: "'a channel_queue \<Rightarrow> 'a channel_queue effect" where
  "cq_Close q =
     (case ch_close (cq_ch q) of
        Returns c \<Rightarrow> Returns (q\<lparr>cq_ch := c\<rparr>) | Blocks \<Rightarrow> Blocks | Panics \<Rightarrow> Panics)"

text \<open>
  \<open>Range\<close> hands items to a callback until it returns false or the channel has no item. On a
  closed channel the receive never fails, so the loop is given fuel: \<open>None\<close> is a loop that is
  still running when the fuel is gone. The result lists the items handed over.
\<close>

fun cq_Range :: "nat \<Rightarrow> 'a \<Rightarrow> ('a \<Rightarrow> bool) \<Rightarrow> 'a channel_queue \<Rightarrow> ('a list \<times> 'a channel_queue) option" where
  "cq_Range 0 zero fn q = None"
| "cq_Range (Suc fuel) zero fn q =
     (case ch_recv zero (cq_ch q) of
        Returns (item, c) \<Rightarrow>
          (if \<not> fn item then Some ([item], q\<lparr>cq_ch := c\<rparr>)
           else map_option (\<lambda>(xs, q'). (item # xs, q')) (cq_Range fuel zero fn (q\<lparr>cq_ch := c\<rparr>)))
      | _ \<Rightarrow> Some ([], q))"

definition cq_wf :: "'a channel_queue \<Rightarrow> bool" where
  "cq_wf q \<longleftrightarrow> 0 < cq_capacity q \<and> ch_cap (cq_ch q) = cq_capacity q
     \<and> int (length (ch_buf (cq_ch q))) \<le> cq_capacity q"

lemmas cq_defs = ch_send_def ch_recv_def ch_close_def cq_Push_def cq_TryPush_def cq_Pop_def
  cq_BlockingPop_def cq_Peek_def cq_Size_def cq_IsEmpty_def cq_IsFull_def cq_Close_def cq_wf_def

lemma cq_wf_New: "cq_wf (NewChannelQueue n)"
  by (simp add: NewChannelQueue_def cq_wf_def Let_def)

lemma cq_wf_TryPush: "cq_wf q \<Longrightarrow> cq_TryPush q x = Returns (e, q') \<Longrightarrow> cq_wf q'"
  by (auto simp: cq_defs split: if_splits)

lemma cq_wf_Pop: "cq_wf q \<Longrightarrow> cq_Pop zero q = Returns (r, q') \<Longrightarrow> cq_wf q'"
  by (auto simp: cq_defs split: if_splits list.splits)

lemma cq_wf_Peek: "cq_wf q \<Longrightarrow> cq_Peek zero q = Returns (r, q', later) \<Longrightarrow> cq_wf q'"
  by (auto simp: cq_defs split: if_splits list.splits)

text \<open>The items of an open queue come out in the order they went in, and never more than the
  capacity are kept.\<close>

fun try_push_all :: "'a channel_queue \<Rightarrow> 'a list \<Rightarrow> 'a channel_queue" where
  "try_push_all q [] = q"
| "try_push_all q (x # xs) =
     (case cq_TryPush q x of Returns (_, q') \<Rightarrow> try_push_all q' xs | _ \<Rightarrow> q)"

lemma try_push_all_buf:
  assumes "cq_wf q" and "\<not> ch_closed (cq_ch q)"
  shows "cq_wf (try_push_all q xs) \<and> \<not> ch_closed (cq_ch (try_push_all q xs))
    \<and> cq_capacity (try_push_all q xs) = cq_capacity q
    \<and> ch_buf (cq_ch (try_push_all q xs))
      = ch_buf (cq_ch q) @ take (nat (cq_capacity q) - length (ch_buf (cq_ch q))) xs"
  using assms
proof (induction xs arbitrary: q)
  case Nil
  then show ?case by simp
next
  case (Cons x xs)
  show ?case
  proof (cases "int (length (ch_buf (cq_ch q))) < cq_capacity q")
    case True
    then have "nat (cq_capacity q) - length (ch_buf (cq_ch q))
      = Suc (nat (cq_capacity q) - Suc (length (ch_buf (cq_ch q))))" by linarith
    with True Cons.prems
      Cons.IH [of "q\<lparr>cq_ch := (cq_ch q)\<lparr>ch_buf := ch_buf (cq_ch q) @ [x]\<rparr>\<rparr>"]
    show ?thesis by (simp add: cq_TryPush_def ch_send_def cq_wf_def)
  next
    case False
    with Cons.prems Cons.IH [of q] show ?thesis
      by (auto simp: cq_TryPush_def ch_send_def cq_wf_def)
  qed
qed

lemma cq_Range_open:
  assumes "\<not> ch_closed (cq_ch q)" and "length (ch_buf (cq_ch q)) < fuel" and "\<forall>x. fn x"
  shows "cq_Range fuel zero fn q = Some (ch_buf (cq_ch q), q\<lparr>cq_ch := (cq_ch q)\<lparr>ch_buf := []\<rparr>\<rparr>)"
  using assms
proof (induction fuel arbitrary: q)
  case 0
  then show ?case by simp
next
  case (Suc fuel)
  then show ?case
    by (cases "ch_buf (cq_ch q)") (auto simp: ch_recv_def)
qed

lemma cq_Range_closed_spins:
  assumes "ch_closed (cq_ch q)" and "\<forall>x. fn x"
  shows "cq_Range fuel zero fn q = None"
  using assms
proof (induction fuel arbitrary: q)
  case 0
  then show ?case by simp
next
  case (Suc fuel)
  then show ?case
    by (cases "ch_buf (cq_ch q)") (auto simp: ch_recv_def)
qed

section \<open>Properties of the channel queue\<close>

text \<open>A new queue of any requested capacity keeps the first items offered, as many as its
  capacity, in their order: draining it hands over exactly those, and leaves it empty.\<close>

theorem ChannelQueue_bounded_fifo:
  fixes xs :: "'a list"
  shows "\<exists>q. cq_Range (Suc (nat (max 1 n))) zero (\<lambda>_. True) (try_push_all (NewChannelQueue n) xs)
     = Some (take (nat (max 1 n)) xs, q) \<and> cq_IsEmpty q \<and> cq_Capacity q = max 1 n"
proof -
  let ?q = "try_push_all (NewChannelQueue n) xs"
  have new: "cq_capacity (NewChannelQueue n :: 'a channel_queue) = max 1 n"
    "ch_buf (cq_ch (NewChannelQueue n :: 'a channel_queue)) = []"
    "\<not> ch_closed (cq_ch (NewChannelQueue n :: 'a channel_queue))"
    by (auto simp: NewChannelQueue_def Let_def)
  have q: "\<not> ch_closed (cq_ch ?q)" "cq_capacity ?q = max 1 n" "ch_buf (cq_ch ?q) = take (nat (max 1 n)) xs"
    using try_push_all_buf [OF cq_wf_New new(3), of xs] new(1,2) by auto
  from cq_Range_open [OF q(1), of "Suc (nat (max 1 n))" "\<lambda>_. True" zero] q show ?thesis
    by (simp add: cq_IsEmpty_def cq_Capacity_def)
qed

text \<open>\<open>Peek\<close> is not a peek: on an open queue of two or more items, with no other caller, it
  returns the first item and moves it behind all others.\<close>

theorem ChannelQueue_Peek_rotates:
  assumes "cq_wf q" and "\<not> ch_closed (cq_ch q)" and "ch_buf (cq_ch q) = x # xs"
  shows "\<exists>q'. cq_Peek zero q = Returns (Inr x, q', []) \<and> ch_buf (cq_ch q') = xs @ [x]"
  using assms by (simp add: cq_defs)

theorem ChannelQueue_Peek_rotates_witness:
  "\<exists>q q'. cq_Peek 0 (try_push_all (NewChannelQueue 3) [1 :: nat, 2]) = Returns (Inr 1, q, [])
    \<and> ch_buf (cq_ch q) = [2, 1]"
  using ChannelQueue_Peek_rotates [of "try_push_all (NewChannelQueue 3) [1 :: nat, 2]" 1 "[2]" 0]
  by (simp add: cq_defs NewChannelQueue_def)



end
