(* ===== verification/LockFree.thy ===== *)
theory LockFree
  imports Interfaces
begin

text \<open>
  \<open>LockFreeQueue\<close> of \<open>algo/queue.go\<close>, with the interleavings of its atomic loads and
  compare-and-swaps. Every atomic access of the code is one step of a thread; the program
  counter of a thread holds the local variables that are live there. \<open>lf_push_step\<close> and
  \<open>lf_pop_step\<close> are the two loops; a step that follows a nil pointer has the result \<open>None\<close>.
  Any number of threads run, each one calling \<open>Push\<close> and \<open>Pop\<close> any number of times.

  The system keeps two histories the code does not have: the values in the order in which they
  were linked into the list, and the values in the order in which the head moved past them.
\<close>

record 'a lf_node =
  lf_value :: 'a
  lf_next :: "ptr option"

record 'a lf_queue =
  lf_heap :: "ptr \<rightharpoonup> 'a lf_node"
  lf_fresh :: ptr
  lf_head :: ptr
  lf_tail :: ptr
  lf_count :: int

definition NewLockFreeQueue :: "'a \<Rightarrow> 'a lf_queue" where
  "NewLockFreeQueue zero =
     \<lparr>lf_heap = [0 \<mapsto> \<lparr>lf_value = zero, lf_next = None\<rparr>], lf_fresh = 1, lf_head = 0, lf_tail = 0,
      lf_count = 0\<rparr>"

datatype 'a lf_pc =
    PushStart 'a
  | PushLoadTail ptr
  | PushLoadNext ptr ptr
  | PushCheck ptr ptr "ptr option"
  | PushLink ptr ptr
  | PushHelp ptr ptr ptr
  | PushSwing ptr ptr
  | PushCount
  | PopStart
  | PopLoadTail ptr
  | PopLoadNext ptr ptr
  | PopCheck ptr ptr "ptr option"
  | PopHelp ptr ptr
  | PopReadValue ptr "ptr option"
  | PopSwing ptr ptr 'a
  | PopCount 'a
  | Finished "'a out"

text \<open>What a step contributes to the histories.\<close>

datatype 'a lf_event = Silent | Linked 'a | Unlinked 'a

definition lf_load_next :: "'a lf_queue \<Rightarrow> ptr \<Rightarrow> ptr option option" where
  "lf_load_next q p = map_option lf_next (lf_heap q p)"

fun lf_push_step :: "'a lf_queue \<Rightarrow> 'a lf_pc \<Rightarrow> ('a lf_queue \<times> 'a lf_pc \<times> 'a lf_event) option" where
  "lf_push_step q (PushStart item) =
     Some (q\<lparr>lf_heap := (lf_heap q)(lf_fresh q \<mapsto> \<lparr>lf_value = item, lf_next = None\<rparr>),
             lf_fresh := Suc (lf_fresh q)\<rparr>, PushLoadTail (lf_fresh q), Silent)"
| "lf_push_step q (PushLoadTail node) = Some (q, PushLoadNext node (lf_tail q), Silent)"
| "lf_push_step q (PushLoadNext node tail) =
     do { nx \<leftarrow> lf_load_next q tail; Some (q, PushCheck node tail nx, Silent) }"
| "lf_push_step q (PushCheck node tail nx) =
     (if tail = lf_tail q
      then (case nx of
              None \<Rightarrow> Some (q, PushLink node tail, Silent)
            | Some n \<Rightarrow> Some (q, PushHelp node tail n, Silent))
      else Some (q, PushLoadTail node, Silent))"
| "lf_push_step q (PushLink node tail) =
     do { t \<leftarrow> lf_heap q tail;
          new \<leftarrow> lf_heap q node;
          Some (if lf_next t = None
                then (q\<lparr>lf_heap := (lf_heap q)(tail \<mapsto> t\<lparr>lf_next := Some node\<rparr>)\<rparr>,
                      PushSwing node tail, Linked (lf_value new))
                else (q, PushLoadTail node, Silent)) }"
| "lf_push_step q (PushHelp node tail n) =
     Some (if lf_tail q = tail then q\<lparr>lf_tail := n\<rparr> else q, PushLoadTail node, Silent)"
| "lf_push_step q (PushSwing node tail) =
     Some (if lf_tail q = tail then q\<lparr>lf_tail := node\<rparr> else q, PushCount, Silent)"
| "lf_push_step q PushCount = Some (q\<lparr>lf_count := lf_count q + 1\<rparr>, Finished Unit, Silent)"
| "lf_push_step q _ = None"

fun lf_pop_step :: "'a lf_queue \<Rightarrow> 'a lf_pc \<Rightarrow> ('a lf_queue \<times> 'a lf_pc \<times> 'a lf_event) option" where
  "lf_pop_step q PopStart = Some (q, PopLoadTail (lf_head q), Silent)"
| "lf_pop_step q (PopLoadTail head) = Some (q, PopLoadNext head (lf_tail q), Silent)"
| "lf_pop_step q (PopLoadNext head tail) =
     do { nx \<leftarrow> lf_load_next q head; Some (q, PopCheck head tail nx, Silent) }"
| "lf_pop_step q (PopCheck head tail nx) =
     (if head = lf_head q
      then (if head = tail
            then (case nx of
                    None \<Rightarrow> Some (q, Finished (Item None), Silent)
                  | Some n \<Rightarrow> Some (q, PopHelp tail n, Silent))
            else Some (q, PopReadValue head nx, Silent))
      else Some (q, PopStart, Silent))"
| "lf_pop_step q (PopHelp tail n) =
     Some (if lf_tail q = tail then q\<lparr>lf_tail := n\<rparr> else q, PopStart, Silent)"
| "lf_pop_step q (PopReadValue head nx) =
     do { n \<leftarrow> nx; node \<leftarrow> lf_heap q n; Some (q, PopSwing head n (lf_value node), Silent) }"
| "lf_pop_step q (PopSwing head n value) =
     Some (if lf_head q = head then (q\<lparr>lf_head := n\<rparr>, PopCount value, Unlinked value)
           else (q, PopStart, Silent))"
| "lf_pop_step q (PopCount value) =
     Some (q\<lparr>lf_count := lf_count q + - 1\<rparr>, Finished (Item (Some value)), Silent)"
| "lf_pop_step q _ = None"

text \<open>\<open>Peek\<close>, \<open>Size\<close> and \<open>IsEmpty\<close> as they run when no other thread does.\<close>

definition lf_Peek :: "'a lf_queue \<Rightarrow> 'a option option" where
  "lf_Peek q =
     do { nx \<leftarrow> lf_load_next q (lf_head q);
          case nx of None \<Rightarrow> Some None
          | Some n \<Rightarrow> map_option (\<lambda>x. Some (lf_value x)) (lf_heap q n) }"

definition lf_Size :: "'a lf_queue \<Rightarrow> int" where
  "lf_Size q = lf_count q"

definition lf_IsEmpty :: "'a lf_queue \<Rightarrow> bool option" where
  "lf_IsEmpty q = map_option (\<lambda>nx. nx = None) (lf_load_next q (lf_head q))"

fun is_push_pc :: "'a lf_pc \<Rightarrow> bool" where
  "is_push_pc (PushStart _) = True"
| "is_push_pc (PushLoadTail _) = True"
| "is_push_pc (PushLoadNext _ _) = True"
| "is_push_pc (PushCheck _ _ _) = True"
| "is_push_pc (PushLink _ _) = True"
| "is_push_pc (PushHelp _ _ _) = True"
| "is_push_pc (PushSwing _ _) = True"
| "is_push_pc PushCount = True"
| "is_push_pc _ = False"

definition lf_thread_step ::
    "'a lf_queue \<Rightarrow> 'a lf_pc \<Rightarrow> ('a lf_queue \<times> 'a lf_pc \<times> 'a lf_event) option" where
  "lf_thread_step q pc = (if is_push_pc pc then lf_push_step q pc else lf_pop_step q pc)"

record 'a lf_sys =
  sys_q :: "'a lf_queue"
  sys_pcs :: "'a lf_pc list"
  sys_linked :: "'a list"
  sys_popped :: "'a list"

fun lf_record :: "'a lf_event \<Rightarrow> 'a lf_sys \<Rightarrow> 'a lf_sys" where
  "lf_record Silent s = s"
| "lf_record (Linked v) s = s\<lparr>sys_linked := sys_linked s @ [v]\<rparr>"
| "lf_record (Unlinked v) s = s\<lparr>sys_popped := sys_popped s @ [v]\<rparr>"

text \<open>Idle threads have finished a call; they may start any call.\<close>

definition lf_init :: "'a \<Rightarrow> nat \<Rightarrow> 'a lf_sys" where
  "lf_init zero n =
     \<lparr>sys_q = NewLockFreeQueue zero, sys_pcs = replicate n (Finished Unit),
      sys_linked = [], sys_popped = []\<rparr>"

inductive lf_sys_step :: "'a lf_sys \<Rightarrow> 'a lf_sys \<Rightarrow> bool" where
  call_push: "i < length (sys_pcs s) \<Longrightarrow> sys_pcs s ! i = Finished r \<Longrightarrow>
     lf_sys_step s (s\<lparr>sys_pcs := (sys_pcs s)[i := PushStart x]\<rparr>)"
| call_pop: "i < length (sys_pcs s) \<Longrightarrow> sys_pcs s ! i = Finished r \<Longrightarrow>
     lf_sys_step s (s\<lparr>sys_pcs := (sys_pcs s)[i := PopStart]\<rparr>)"
| run_thread: "i < length (sys_pcs s) \<Longrightarrow>
     lf_thread_step (sys_q s) (sys_pcs s ! i) = Some (q', pc', e) \<Longrightarrow>
     lf_sys_step s (lf_record e (s\<lparr>sys_q := q', sys_pcs := (sys_pcs s)[i := pc']\<rparr>))"

inductive lf_reachable :: "'a \<Rightarrow> nat \<Rightarrow> 'a lf_sys \<Rightarrow> bool" for zero n where
  start: "lf_reachable zero n (lf_init zero n)"
| step: "lf_reachable zero n s \<Longrightarrow> lf_sys_step s t \<Longrightarrow> lf_reachable zero n t"

section \<open>The invariant\<close>

text \<open>
  \<open>ns\<close> is the chain of all nodes ever linked, in order; the head is at position \<open>k\<close> and the tail
  at position \<open>j\<close>. Positions never go back, so what a thread has read about a position stays true.
\<close>

definition lf_val :: "'a lf_queue \<Rightarrow> ptr \<Rightarrow> 'a" where
  "lf_val q p = lf_value (the (lf_heap q p))"

definition lf_shape :: "'a lf_queue \<Rightarrow> ptr list \<Rightarrow> nat \<Rightarrow> nat \<Rightarrow> bool" where
  "lf_shape q ns k j \<longleftrightarrow>
     distinct ns \<and> below (lf_fresh q) ns
     \<and> (\<forall>i < length ns. \<exists>v. lf_heap q (ns ! i) = Some \<lparr>lf_value = v,
           lf_next = (if Suc i < length ns then Some (ns ! Suc i) else None)\<rparr>)
     \<and> k \<le> j \<and> j < length ns \<and> lf_head q = ns ! k \<and> lf_tail q = ns ! j"

fun lf_priv :: "'a lf_pc \<Rightarrow> ptr option" where
  "lf_priv (PushLoadTail n) = Some n"
| "lf_priv (PushLoadNext n _) = Some n"
| "lf_priv (PushCheck n _ _) = Some n"
| "lf_priv (PushLink n _) = Some n"
| "lf_priv (PushHelp n _ _) = Some n"
| "lf_priv _ = None"

definition priv_ok :: "'a lf_queue \<Rightarrow> ptr list \<Rightarrow> 'a lf_pc \<Rightarrow> bool" where
  "priv_ok q ns pc \<longleftrightarrow>
     (\<forall>n. lf_priv pc = Some n \<longrightarrow>
        n \<notin> set ns \<and> n < lf_fresh q \<and> (\<exists>v. lf_heap q n = Some \<lparr>lf_value = v, lf_next = None\<rparr>))"

text \<open>\<open>node_at ns i p\<close>: the node \<open>p\<close> is at position \<open>i\<close> of the chain; \<open>succ_at ns j p n\<close>: \<open>p\<close> is at
  a position up to \<open>j\<close> and \<open>n\<close> follows it.\<close>

definition node_at :: "ptr list \<Rightarrow> nat \<Rightarrow> ptr \<Rightarrow> bool" where
  "node_at ns i p \<longleftrightarrow> i < length ns \<and> ns ! i = p"

definition pos_le :: "ptr list \<Rightarrow> nat \<Rightarrow> ptr \<Rightarrow> bool" where
  "pos_le ns j p \<longleftrightarrow> (\<exists>i. i \<le> j \<and> node_at ns i p)"

definition succ_at :: "ptr list \<Rightarrow> nat \<Rightarrow> ptr \<Rightarrow> ptr \<Rightarrow> bool" where
  "succ_at ns j p n \<longleftrightarrow> (\<exists>i. i \<le> j \<and> node_at ns i p \<and> node_at ns (Suc i) n)"

fun loc_ok :: "'a lf_queue \<Rightarrow> ptr list \<Rightarrow> nat \<Rightarrow> nat \<Rightarrow> 'a lf_pc \<Rightarrow> bool" where
  "loc_ok q ns k j (PushLoadNext n t) = pos_le ns j t"
| "loc_ok q ns k j (PushCheck n t nx) =
     (pos_le ns j t \<and> (\<forall>x. nx = Some x \<longrightarrow> succ_at ns j t x))"
| "loc_ok q ns k j (PushLink n t) = pos_le ns j t"
| "loc_ok q ns k j (PushHelp n t x) = succ_at ns j t x"
| "loc_ok q ns k j (PushSwing n t) = succ_at ns j t n"
| "loc_ok q ns k j (PopLoadTail h) = pos_le ns k h"
| "loc_ok q ns k j (PopLoadNext h t) =
     (\<exists>i m. i \<le> k \<and> i \<le> m \<and> m \<le> j \<and> node_at ns i h \<and> node_at ns m t)"
| "loc_ok q ns k j (PopCheck h t nx) =
     (\<exists>i m. i \<le> k \<and> i \<le> m \<and> m \<le> j \<and> node_at ns i h \<and> node_at ns m t
        \<and> (\<forall>x. nx = Some x \<longrightarrow> node_at ns (Suc i) x) \<and> (i < m \<longrightarrow> nx \<noteq> None))"
| "loc_ok q ns k j (PopHelp t x) = succ_at ns j t x"
| "loc_ok q ns k j (PopReadValue h nx) =
     (\<exists>i x. i \<le> k \<and> Suc i \<le> j \<and> node_at ns i h \<and> nx = Some x \<and> node_at ns (Suc i) x)"
| "loc_ok q ns k j (PopSwing h x v) =
     (\<exists>i. i \<le> k \<and> Suc i \<le> j \<and> node_at ns i h \<and> node_at ns (Suc i) x \<and> v = lf_val q x)"
| "loc_ok q ns k j _ = True"

lemma node_at_mono: "node_at ns i p \<Longrightarrow> node_at (ns @ xs) i p"
  by (simp add: node_at_def nth_append)

lemma node_at_in: "node_at ns i p \<Longrightarrow> p \<in> set ns"
  by (auto simp: node_at_def)

lemma node_at_inj: "distinct ns \<Longrightarrow> node_at ns i p \<Longrightarrow> node_at ns m p \<Longrightarrow> i = m"
  by (auto simp: node_at_def nth_eq_iff_index_eq)

lemma node_at_fun: "node_at ns i p \<Longrightarrow> node_at ns i p' \<Longrightarrow> p = p'"
  by (simp add: node_at_def)

lemma pos_le_mono: "pos_le ns j p \<Longrightarrow> j \<le> j' \<Longrightarrow> pos_le (ns @ xs) j' p"
  unfolding pos_le_def by (meson node_at_mono le_trans)

lemma succ_at_mono: "succ_at ns j p n \<Longrightarrow> j \<le> j' \<Longrightarrow> succ_at (ns @ xs) j' p n"
  unfolding succ_at_def by (meson node_at_mono le_trans)

lemma loc_ok_mono:
  assumes "loc_ok q ns k j pc" and "k \<le> k'" and "j \<le> j'"
    and "\<forall>p \<in> set ns. lf_val q' p = lf_val q p"
  shows "loc_ok q' (ns @ xs) k' j' pc"
proof (cases pc)
  case (PopLoadNext h t)
  with assms show ?thesis by simp (meson node_at_mono le_trans)
next
  case (PopCheck h t nx)
  with assms show ?thesis by (cases nx; simp; meson node_at_mono le_trans)
next
  case (PopReadValue h nx)
  with assms show ?thesis by (cases nx; simp; meson node_at_mono le_trans)
next
  case (PopSwing h x v)
  with assms(1) obtain i where "i \<le> k" "Suc i \<le> j" "node_at ns i h" "node_at ns (Suc i) x"
    "v = lf_val q x" by auto
  moreover from this(4) have "x \<in> set ns" by (rule node_at_in)
  ultimately show ?thesis
    using PopSwing assms(2-4) by simp (meson node_at_mono le_trans)
qed (use assms in \<open>auto intro: pos_le_mono succ_at_mono\<close>)

text \<open>The counter lags behind the list by the calls between their compare-and-swap and their
  atomic add.\<close>

fun lf_pending :: "'a lf_pc \<Rightarrow> int" where
  "lf_pending (PushSwing _ _) = 1"
| "lf_pending PushCount = 1"
| "lf_pending (PopCount _) = -1"
| "lf_pending _ = 0"

fun lf_growth :: "'a lf_event \<Rightarrow> int" where
  "lf_growth Silent = 0"
| "lf_growth (Linked _) = 1"
| "lf_growth (Unlinked _) = -1"

definition good_step ::
    "'a lf_queue \<Rightarrow> ptr list \<Rightarrow> nat \<Rightarrow> nat \<Rightarrow> 'a lf_pc \<Rightarrow> 'a lf_queue \<Rightarrow> 'a lf_pc \<Rightarrow> 'a lf_event
     \<Rightarrow> ptr list \<Rightarrow> nat \<Rightarrow> nat \<Rightarrow> bool" where
  "good_step q ns k j pc q' pc' e xs k' j' \<longleftrightarrow>
     lf_shape q' (ns @ xs) k' j' \<and> k \<le> k' \<and> j \<le> j'
     \<and> (\<forall>p \<in> set ns. lf_val q' p = lf_val q p)
     \<and> loc_ok q' (ns @ xs) k' j' pc' \<and> priv_ok q' (ns @ xs) pc'
     \<and> (\<forall>p. p \<notin> set ns \<longrightarrow> p < lf_fresh q \<longrightarrow> lf_heap q' p = lf_heap q p)
     \<and> lf_fresh q \<le> lf_fresh q'
     \<and> (\<forall>n \<in> set xs. lf_priv pc = Some n)
     \<and> (\<forall>n. lf_priv pc' = Some n \<longrightarrow> lf_priv pc = Some n \<or> lf_fresh q \<le> n)
     \<and> (case e of
          Silent \<Rightarrow> xs = [] \<and> k' = k
        | Linked v \<Rightarrow> k' = k \<and> (\<exists>n. xs = [n] \<and> v = lf_val q' n)
        | Unlinked v \<Rightarrow> xs = [] \<and> k' = Suc k \<and> v = lf_val q (ns ! Suc k))
     \<and> lf_count q' + lf_pending pc' = lf_count q + lf_pending pc + lf_growth e"

lemma lf_shape_next:
  assumes "lf_shape q ns k j" and "node_at ns i p"
  shows "\<exists>v. lf_heap q p = Some \<lparr>lf_value = v,
    lf_next = (if Suc i < length ns then Some (ns ! Suc i) else None)\<rparr>"
  using assms by (auto simp: lf_shape_def node_at_def)

lemma lf_shape_head: "lf_shape q ns k j \<Longrightarrow> node_at ns k (lf_head q)"
  by (simp add: lf_shape_def node_at_def)

lemma lf_shape_tail: "lf_shape q ns k j \<Longrightarrow> node_at ns j (lf_tail q)"
  by (simp add: lf_shape_def node_at_def)

lemma lf_shape_move:
  assumes "lf_shape q ns k j" and "lf_heap q' = lf_heap q" and "lf_fresh q' = lf_fresh q"
    and "lf_head q' = ns ! k'" and "lf_tail q' = ns ! j'" and "k' \<le> j'" and "j' < length ns"
  shows "lf_shape q' ns k' j'"
  using assms by (simp add: lf_shape_def)

text \<open>A step that leaves the shared state alone.\<close>

lemma good_step_local:
  assumes "lf_shape q ns k j" and "priv_ok q ns pc"
    and "loc_ok q ns k j pc'" and "lf_priv pc' = lf_priv pc \<or> lf_priv pc' = None"
    and "lf_pending pc' = lf_pending pc"
  shows "good_step q ns k j pc q pc' Silent [] k j"
  using assms by (auto simp: good_step_def priv_ok_def)

text \<open>A compare-and-swap of the tail to the successor of the node it was read from.\<close>

lemma good_step_tail:
  assumes shape: "lf_shape q ns k j" and "priv_ok q ns pc" and succ: "succ_at ns j t x"
    and q': "q' = (if lf_tail q = t then q\<lparr>lf_tail := x\<rparr> else q)"
    and "\<And>j'. loc_ok q' ns k j' pc'" and "lf_priv pc' = lf_priv pc \<or> lf_priv pc' = None"
    and "lf_pending pc' = lf_pending pc"
  shows "\<exists>j'. good_step q ns k j pc q' pc' Silent [] k j'"
proof (cases "lf_tail q = t")
  case True
  from succ obtain i where i: "i \<le> j" "node_at ns i t" "node_at ns (Suc i) x"
    by (auto simp: succ_at_def)
  have "i = j"
    using node_at_inj [OF _ i(2), of j] lf_shape_tail [OF shape] shape True
    by (simp add: lf_shape_def)
  with i assms True have "good_step q ns k j pc q' pc' Silent [] k (Suc j)"
    by (auto simp: good_step_def priv_ok_def lf_shape_def node_at_def lf_val_def)
  then show ?thesis ..
next
  case False
  with assms have "good_step q ns k j pc q' pc' Silent [] k j"
    by (auto simp: good_step_def priv_ok_def)
  then show ?thesis ..
qed

text \<open>A successful link: the chain grows by the private node of the thread.\<close>

lemma good_step_link:
  assumes shape: "lf_shape q ns k j" and priv: "priv_ok q ns (PushLink n t)"
    and t: "lf_heap q t = Some tn" "lf_next tn = None" and pos: "pos_le ns j t"
  shows "good_step q ns k j (PushLink n t)
    (q\<lparr>lf_heap := (lf_heap q)(t \<mapsto> tn\<lparr>lf_next := Some n\<rparr>)\<rparr>) (PushSwing n t)
    (Linked (lf_val q n)) [n] k j"
proof -
  let ?q = "q\<lparr>lf_heap := (lf_heap q)(t \<mapsto> tn\<lparr>lf_next := Some n\<rparr>)\<rparr>"
  from pos obtain i where i: "i \<le> j" "node_at ns i t" by (auto simp: pos_le_def)
  from lf_shape_next [OF shape i(2)] t have last: "Suc i = length ns"
    using i(2) by (auto simp: node_at_def split: if_splits)
  from priv obtain v where n: "n \<notin> set ns" "n < lf_fresh q"
    "lf_heap q n = Some \<lparr>lf_value = v, lf_next = None\<rparr>" by (auto simp: priv_ok_def)
  have tin: "t \<in> set ns" using node_at_in [OF i(2)] .
  have ij: "j = i" using i(1) last shape by (simp add: lf_shape_def)
  have tns: "ns ! i = t" "i < length ns" using i(2) by (simp_all add: node_at_def)
  have dist: "distinct ns" using shape by (simp add: lf_shape_def)
  have heap: "\<exists>v. lf_heap ?q ((ns @ [n]) ! m) = Some \<lparr>lf_value = v, lf_next =
      (if Suc m < length (ns @ [n]) then Some ((ns @ [n]) ! Suc m) else None)\<rparr>"
    if m: "m < length (ns @ [n])" for m
  proof (cases "m < i")
    case True
    then have "ns ! m \<noteq> t" "Suc m < length ns"
      using tns dist last by (auto simp: nth_eq_iff_index_eq)
    with True last lf_shape_next [OF shape, of m "ns ! m"] show ?thesis
      by (simp add: nth_append node_at_def)
  next
    case False
    then consider "m = i" | "m = Suc i" using m last by force
    then show ?thesis
    proof cases
      case 1
      with t tns last show ?thesis by (cases tn) (simp add: nth_append)
    next
      case 2
      with n tin last show ?thesis by (auto simp: nth_append)
    qed
  qed
  have "lf_shape ?q (ns @ [n]) k j"
    using shape heap n dist
    unfolding lf_shape_def by (auto simp: nth_append)
  moreover have "\<forall>p \<in> set ns. lf_val ?q p = lf_val q p"
    using t by (auto simp: lf_val_def)
  moreover have "lf_val ?q n = lf_val q n"
    using t n tin by (auto simp: lf_val_def)
  moreover have "succ_at (ns @ [n]) j t n"
    using i last by (auto simp: succ_at_def node_at_def nth_append intro!: exI [of _ i])
  ultimately show ?thesis
    using tin n by (auto simp: good_step_def priv_ok_def)
qed

lemma good_step_alloc:
  assumes shape: "lf_shape q ns k j"
  shows "good_step q ns k j (PushStart x)
    (q\<lparr>lf_heap := (lf_heap q)(lf_fresh q \<mapsto> \<lparr>lf_value = x, lf_next = None\<rparr>),
       lf_fresh := Suc (lf_fresh q)\<rparr>) (PushLoadTail (lf_fresh q)) Silent [] k j"
proof -
  have new: "lf_fresh q \<notin> set ns" using shape by (auto simp: lf_shape_def below_def)
  then have "ns ! i \<noteq> lf_fresh q" if "i < length ns" for i using that by (metis nth_mem)
  with shape have "lf_shape (q\<lparr>lf_heap := (lf_heap q)(lf_fresh q \<mapsto> \<lparr>lf_value = x, lf_next = None\<rparr>),
       lf_fresh := Suc (lf_fresh q)\<rparr>) ns k j"
    by (simp add: lf_shape_def)
  with new show ?thesis
    by (auto simp: good_step_def lf_val_def priv_ok_def)
qed

lemma ex_good:
  assumes "good_step q ns k j pc q' pc' e xs k' j'" and "r = Some (q', pc', e)"
  shows "\<exists>q' pc' e xs k' j'. r = Some (q', pc', e) \<and> good_step q ns k j pc q' pc' e xs k' j'"
  using assms by blast

text \<open>A successful pop: the head moves to the next position.\<close>

lemma good_step_pop:
  assumes shape: "lf_shape q ns k j" and loc: "loc_ok q ns k j (PopSwing h x v)"
    and h: "lf_head q = h"
  shows "good_step q ns k j (PopSwing h x v) (q\<lparr>lf_head := x\<rparr>) (PopCount v) (Unlinked v) [] (Suc k) j"
proof -
  from loc obtain i where i: "i \<le> k" "Suc i \<le> j" "node_at ns i h" "node_at ns (Suc i) x"
    "v = lf_val q x" by auto
  have "i = k"
    using node_at_inj [OF _ i(3)] lf_shape_head [OF shape] shape h by (simp add: lf_shape_def)
  with i shape show ?thesis
    by (auto simp: good_step_def priv_ok_def lf_shape_def node_at_def lf_val_def)
qed

lemma lf_push_good:
  assumes shape: "lf_shape q ns k j" and loc: "loc_ok q ns k j pc" and priv: "priv_ok q ns pc"
    and pc: "is_push_pc pc"
  shows "\<exists>q' pc' e xs k' j'. lf_push_step q pc = Some (q', pc', e)
    \<and> good_step q ns k j pc q' pc' e xs k' j'"
proof (cases pc)
  case (PushStart x)
  then show ?thesis by (intro ex_good) (use good_step_alloc [OF shape, of x] in auto)
next
  case (PushLoadTail n)
  with shape priv have "good_step q ns k j pc q (PushLoadNext n (lf_tail q)) Silent [] k j"
    by (intro good_step_local) (auto simp: pos_le_def dest: lf_shape_tail)
  with PushLoadTail show ?thesis by (intro ex_good) auto
next
  case (PushLoadNext n t)
  with loc obtain i where i: "i \<le> j" "node_at ns i t" by (auto simp: pos_le_def)
  from lf_shape_next [OF shape i(2)] obtain v where
    t: "lf_heap q t = Some \<lparr>lf_value = v, lf_next = (if Suc i < length ns then Some (ns ! Suc i) else None)\<rparr>"
    by auto
  let ?nx = "if Suc i < length ns then Some (ns ! Suc i) else None"
  have "good_step q ns k j pc q (PushCheck n t ?nx) Silent [] k j"
    using shape priv i PushLoadNext
    by (intro good_step_local) (auto simp: pos_le_def succ_at_def node_at_def)
  with PushLoadNext t show ?thesis by (intro ex_good) (auto simp: lf_load_next_def)
next
  case (PushCheck n t nx)
  have "good_step q ns k j pc q pc' Silent [] k j"
    if "pc' = PushLoadTail n \<or> nx = None \<and> pc' = PushLink n t
      \<or> (\<exists>x. nx = Some x \<and> pc' = PushHelp n t x)" for pc'
    using shape priv loc PushCheck that by (intro good_step_local) auto
  note step = this
  show ?thesis
  proof (cases "t = lf_tail q")
    case True
    show ?thesis
    proof (cases nx)
      case None
      with PushCheck True show ?thesis
        by (intro ex_good [OF step [of "PushLink n t"]]) simp_all
    next
      case (Some x)
      with PushCheck True show ?thesis
        by (intro ex_good [OF step [of "PushHelp n t x"]]) simp_all
    qed
  next
    case False
    with PushCheck show ?thesis
      by (intro ex_good [OF step [of "PushLoadTail n"]]) simp_all
  qed
next
  case (PushLink n t)
  with loc obtain i where i: "i \<le> j" "node_at ns i t" by (auto simp: pos_le_def)
  from lf_shape_next [OF shape i(2)] obtain tn where t: "lf_heap q t = Some tn" by auto
  from priv PushLink obtain nn where n: "lf_heap q n = Some nn" by (auto simp: priv_ok_def)
  show ?thesis
  proof (cases "lf_next tn = None")
    case True
    from good_step_link [OF shape _ t True] loc priv PushLink
    have "good_step q ns k j pc (q\<lparr>lf_heap := (lf_heap q)(t \<mapsto> tn\<lparr>lf_next := Some n\<rparr>)\<rparr>)
      (PushSwing n t) (Linked (lf_val q n)) [n] k j" by simp
    with PushLink True t n show ?thesis by (intro ex_good) (auto simp: lf_val_def)
  next
    case False
    have "good_step q ns k j pc q (PushLoadTail n) Silent [] k j"
      using shape priv PushLink by (intro good_step_local) auto
    with PushLink False t n show ?thesis by (intro ex_good) auto
  qed
next
  case (PushHelp n t x)
  with good_step_tail [OF shape priv, of t x _ "PushLoadTail n"] loc
  obtain j' where "good_step q ns k j pc (if lf_tail q = t then q\<lparr>lf_tail := x\<rparr> else q)
    (PushLoadTail n) Silent [] k j'" by fastforce
  with PushHelp show ?thesis by (intro ex_good) auto
next
  case (PushSwing n t)
  with good_step_tail [OF shape priv, of t n _ PushCount] loc
  obtain j' where "good_step q ns k j pc (if lf_tail q = t then q\<lparr>lf_tail := n\<rparr> else q)
    PushCount Silent [] k j'" by fastforce
  with PushSwing show ?thesis by (intro ex_good) auto
next
  case PushCount
  then have "good_step q ns k j pc (q\<lparr>lf_count := lf_count q + 1\<rparr>) (Finished Unit) Silent [] k j"
    using shape by (auto simp: good_step_def priv_ok_def lf_shape_def lf_val_def)
  with PushCount show ?thesis by (intro ex_good) auto
qed (use pc in simp_all)

lemma lf_pop_good:
  assumes shape: "lf_shape q ns k j" and loc: "loc_ok q ns k j pc" and priv: "priv_ok q ns pc"
    and pc: "\<not> is_push_pc pc" "\<forall>r. pc \<noteq> Finished r"
  shows "\<exists>q' pc' e xs k' j'. lf_pop_step q pc = Some (q', pc', e)
    \<and> good_step q ns k j pc q' pc' e xs k' j'"
proof (cases pc)
  case PopStart
  with shape priv have "good_step q ns k j pc q (PopLoadTail (lf_head q)) Silent [] k j"
    by (intro good_step_local) (auto simp: pos_le_def dest: lf_shape_head)
  with PopStart show ?thesis by (intro ex_good) auto
next
  case (PopLoadTail h)
  with loc obtain i where "i \<le> k" "node_at ns i h" by (auto simp: pos_le_def)
  moreover from this(1) shape have "i \<le> j" by (simp add: lf_shape_def)
  ultimately have "good_step q ns k j pc q (PopLoadNext h (lf_tail q)) Silent [] k j"
    using shape priv PopLoadTail lf_shape_tail [OF shape]
    by (intro good_step_local) auto
  with PopLoadTail show ?thesis by (intro ex_good) auto
next
  case (PopLoadNext h t)
  with loc obtain i m where i: "i \<le> k" "i \<le> m" "m \<le> j" "node_at ns i h" "node_at ns m t" by auto
  from lf_shape_next [OF shape i(4)] obtain v where
    h: "lf_heap q h = Some \<lparr>lf_value = v, lf_next = (if Suc i < length ns then Some (ns ! Suc i) else None)\<rparr>"
    by auto
  let ?nx = "if Suc i < length ns then Some (ns ! Suc i) else None"
  have "i < m \<longrightarrow> ?nx \<noteq> None" using i(5) by (auto simp: node_at_def)
  moreover have "\<forall>x. ?nx = Some x \<longrightarrow> node_at ns (Suc i) x" by (auto simp: node_at_def)
  ultimately have "loc_ok q ns k j (PopCheck h t ?nx)"
    using i unfolding loc_ok.simps by blast
  then have "good_step q ns k j pc q (PopCheck h t ?nx) Silent [] k j"
    using shape priv PopLoadNext by (intro good_step_local) auto
  with PopLoadNext h show ?thesis by (intro ex_good) (auto simp: lf_load_next_def)
next
  case (PopCheck h t nx)
  with loc obtain i m where i: "i \<le> k" "i \<le> m" "m \<le> j" "node_at ns i h" "node_at ns m t"
    "\<forall>x. nx = Some x \<longrightarrow> node_at ns (Suc i) x" "i < m \<longrightarrow> nx \<noteq> None" by auto
  have step: "good_step q ns k j pc q pc' Silent [] k j"
    if "loc_ok q ns k j pc'" "lf_priv pc' = None" "lf_pending pc' = 0" for pc'
    using shape priv PopCheck that by (intro good_step_local) auto
  show ?thesis
  proof (cases "h = lf_head q")
    case False
    with PopCheck show ?thesis by (intro ex_good [OF step [of PopStart]]) simp_all
  next
    case True
    show ?thesis
    proof (cases "h = t")
      case eq: True
      show ?thesis
      proof (cases nx)
        case None
        with PopCheck True eq show ?thesis
          by (intro ex_good [OF step [of "Finished (Item None)"]]) simp_all
      next
        case (Some x)
        with i eq le_trans [OF i(2,3)] have "succ_at ns j t x"
          by (auto simp: succ_at_def intro!: exI [of _ i])
        with PopCheck True eq Some show ?thesis
          by (intro ex_good [OF step [of "PopHelp t x"]]) simp_all
      qed
    next
      case neq: False
      with i node_at_fun have "i < m" by (metis le_neq_implies_less)
      with i have "loc_ok q ns k j (PopReadValue h nx)" by fastforce
      with PopCheck True neq show ?thesis
        by (intro ex_good [OF step [of "PopReadValue h nx"]]) simp_all
    qed
  qed
next
  case (PopHelp t x)
  with good_step_tail [OF shape priv, of t x _ PopStart] loc
  obtain j' where "good_step q ns k j pc (if lf_tail q = t then q\<lparr>lf_tail := x\<rparr> else q)
    PopStart Silent [] k j'" by fastforce
  with PopHelp show ?thesis by (intro ex_good) auto
next
  case (PopReadValue h nx)
  with loc obtain i x where i: "i \<le> k" "Suc i \<le> j" "node_at ns i h" "nx = Some x"
    "node_at ns (Suc i) x" by auto
  from lf_shape_next [OF shape i(5)] obtain node where x: "lf_heap q x = Some node" by auto
  have "loc_ok q ns k j (PopSwing h x (lf_value node))"
    using i x by (auto simp: lf_val_def)
  then have "good_step q ns k j pc q (PopSwing h x (lf_value node)) Silent [] k j"
    using shape priv PopReadValue by (intro good_step_local) auto
  with PopReadValue i x show ?thesis by (intro ex_good) auto
next
  case (PopSwing h x v)
  show ?thesis
  proof (cases "lf_head q = h")
    case True
    with good_step_pop [OF shape _ True] loc PopSwing
    have "good_step q ns k j pc (q\<lparr>lf_head := x\<rparr>) (PopCount v) (Unlinked v) [] (Suc k) j" by simp
    with PopSwing True show ?thesis by (intro ex_good) auto
  next
    case False
    have "good_step q ns k j pc q PopStart Silent [] k j"
      using shape priv PopSwing by (intro good_step_local) auto
    with PopSwing False show ?thesis by (intro ex_good) auto
  qed
next
  case (PopCount v)
  then have "good_step q ns k j pc (q\<lparr>lf_count := lf_count q + - 1\<rparr>) (Finished (Item (Some v))) Silent [] k j"
    using shape by (auto simp: good_step_def priv_ok_def lf_shape_def lf_val_def)
  with PopCount show ?thesis by (intro ex_good) auto
qed (use pc in simp_all)

lemma lf_thread_good:
  assumes "lf_shape q ns k j" and "loc_ok q ns k j pc" and "priv_ok q ns pc"
    and "\<forall>r. pc \<noteq> Finished r"
  shows "\<exists>q' pc' e xs k' j'. lf_thread_step q pc = Some (q', pc', e)
    \<and> good_step q ns k j pc q' pc' e xs k' j'"
  using lf_push_good lf_pop_good assms by (auto simp: lf_thread_step_def)

lemma lf_thread_Finished [simp]: "lf_thread_step q (Finished r) = None"
  by (simp add: lf_thread_step_def)

section \<open>The invariant of the system\<close>

definition priv_unique :: "'a lf_pc list \<Rightarrow> bool" where
  "priv_unique pcs \<longleftrightarrow>
     (\<forall>i < length pcs. \<forall>m < length pcs. \<forall>n.
        lf_priv (pcs ! i) = Some n \<longrightarrow> lf_priv (pcs ! m) = Some n \<longrightarrow> i = m)"

definition lf_inv_at :: "'a lf_sys \<Rightarrow> ptr list \<Rightarrow> nat \<Rightarrow> nat \<Rightarrow> bool" where
  "lf_inv_at s ns k j \<longleftrightarrow>
     lf_shape (sys_q s) ns k j
     \<and> sys_linked s = map (lf_val (sys_q s)) (tl ns)
     \<and> sys_popped s = take k (sys_linked s)
     \<and> (\<forall>pc \<in> set (sys_pcs s). loc_ok (sys_q s) ns k j pc \<and> priv_ok (sys_q s) ns pc)
     \<and> priv_unique (sys_pcs s)
     \<and> lf_count (sys_q s) + sum_list (map lf_pending (sys_pcs s))
       = int (length (sys_linked s)) - int (length (sys_popped s))"

definition lf_inv :: "'a lf_sys \<Rightarrow> bool" where
  "lf_inv s \<longleftrightarrow> (\<exists>ns k j. lf_inv_at s ns k j)"

lemma lf_inv_init: "lf_inv (lf_init zero n)"
proof -
  have "sum_list (map lf_pending (replicate n (Finished Unit :: 'a lf_pc))) = 0"
    by (induction n) auto
  then have "lf_inv_at (lf_init zero n) [0] 0 0"
    by (auto simp: lf_inv_at_def lf_init_def NewLockFreeQueue_def lf_shape_def priv_ok_def
        priv_unique_def)
  then show ?thesis by (auto simp: lf_inv_def)
qed

lemma sum_pending_update:
  "i < length pcs \<Longrightarrow>
   sum_list (map lf_pending (pcs[i := pc])) = sum_list (map lf_pending pcs) + lf_pending pc - lf_pending (pcs ! i)"
  by (induction pcs arbitrary: i) (auto split: nat.splits simp: nth_Cons')

lemma priv_unique_update:
  assumes "priv_unique pcs" and "i < length pcs"
    and "\<And>n m. lf_priv pc = Some n \<Longrightarrow> m < length pcs \<Longrightarrow> m \<noteq> i \<Longrightarrow> lf_priv (pcs ! m) \<noteq> Some n"
  shows "priv_unique (pcs[i := pc])"
  using assms unfolding priv_unique_def
  by (metis length_list_update nth_list_update nth_list_update_neq)

lemma lf_inv_call:
  assumes inv: "lf_inv_at s ns k j" and i: "i < length (sys_pcs s)" "sys_pcs s ! i = Finished r"
    and pc: "lf_priv pc = None" "lf_pending pc = 0" "loc_ok (sys_q s) ns k j pc"
  shows "lf_inv_at (s\<lparr>sys_pcs := (sys_pcs s)[i := pc]\<rparr>) ns k j"
proof -
  have "priv_unique ((sys_pcs s)[i := pc])"
    using inv i pc by (intro priv_unique_update) (auto simp: lf_inv_at_def)
  moreover have "\<forall>x \<in> set ((sys_pcs s)[i := pc]). loc_ok (sys_q s) ns k j x \<and> priv_ok (sys_q s) ns x"
    using inv pc set_update_subset_insert [of "sys_pcs s" i pc]
    by (auto simp: lf_inv_at_def priv_ok_def)
  moreover have "sum_list (map lf_pending ((sys_pcs s)[i := pc])) = sum_list (map lf_pending (sys_pcs s))"
    using i pc by (simp add: sum_pending_update)
  ultimately show ?thesis using inv by (simp add: lf_inv_at_def)
qed

lemma lf_inv_thread:
  assumes inv: "lf_inv_at s ns k j" and i: "i < length (sys_pcs s)"
    and good: "good_step (sys_q s) ns k j (sys_pcs s ! i) q' pc' e xs k' j'"
  shows "lf_inv_at (lf_record e (s\<lparr>sys_q := q', sys_pcs := (sys_pcs s)[i := pc']\<rparr>)) (ns @ xs) k' j'"
proof -
  let ?pcs = "(sys_pcs s)[i := pc']"
  from inv have shape: "lf_shape (sys_q s) ns k j"
    and linked: "sys_linked s = map (lf_val (sys_q s)) (tl ns)"
    and popped: "sys_popped s = take k (sys_linked s)"
    and ok: "\<And>m. m < length (sys_pcs s) \<Longrightarrow> loc_ok (sys_q s) ns k j (sys_pcs s ! m)"
      "\<And>m. m < length (sys_pcs s) \<Longrightarrow> priv_ok (sys_q s) ns (sys_pcs s ! m)"
    and uniq: "priv_unique (sys_pcs s)"
    and count: "lf_count (sys_q s) + sum_list (map lf_pending (sys_pcs s))
       = int (length (sys_linked s)) - int (length (sys_popped s))"
    by (auto simp: lf_inv_at_def)
  from good have shape': "lf_shape q' (ns @ xs) k' j'" and kj: "k \<le> k'" "j \<le> j'"
    and val: "\<forall>p \<in> set ns. lf_val q' p = lf_val (sys_q s) p"
    and own: "loc_ok q' (ns @ xs) k' j' pc'" "priv_ok q' (ns @ xs) pc'"
    and frame: "\<forall>p. p \<notin> set ns \<longrightarrow> p < lf_fresh (sys_q s) \<longrightarrow> lf_heap q' p = lf_heap (sys_q s) p"
    and fresh: "lf_fresh (sys_q s) \<le> lf_fresh q'"
    and xs: "\<forall>n \<in> set xs. lf_priv (sys_pcs s ! i) = Some n"
    and priv': "\<forall>n. lf_priv pc' = Some n \<longrightarrow> lf_priv (sys_pcs s ! i) = Some n \<or> lf_fresh (sys_q s) \<le> n"
    and ev: "case e of Silent \<Rightarrow> xs = [] \<and> k' = k
        | Linked v \<Rightarrow> k' = k \<and> (\<exists>n. xs = [n] \<and> v = lf_val q' n)
        | Unlinked v \<Rightarrow> xs = [] \<and> k' = Suc k \<and> v = lf_val (sys_q s) (ns ! Suc k)"
    and count': "lf_count q' + lf_pending pc'
      = lf_count (sys_q s) + lf_pending (sys_pcs s ! i) + lf_growth e"
    by (simp_all add: good_step_def)
  have other: "lf_priv (sys_pcs s ! m) \<noteq> Some n"
    if "lf_priv (sys_pcs s ! i) = Some n" "m < length (sys_pcs s)" "m \<noteq> i" for n m
    using uniq i that by (auto simp: priv_unique_def)
  have "priv_unique ?pcs"
  proof (rule priv_unique_update [OF uniq i])
    fix n m assume n: "lf_priv pc' = Some n" and m: "m < length (sys_pcs s)" "m \<noteq> i"
    from priv' n consider "lf_priv (sys_pcs s ! i) = Some n" | "lf_fresh (sys_q s) \<le> n" by blast
    then show "lf_priv (sys_pcs s ! m) \<noteq> Some n"
      using other m ok(2) [OF m(1)] by cases (auto simp: priv_ok_def)
  qed
  moreover have "\<forall>x \<in> set ?pcs. loc_ok q' (ns @ xs) k' j' x \<and> priv_ok q' (ns @ xs) x"
  proof
    fix x assume "x \<in> set ?pcs"
    then obtain m where m: "m < length (sys_pcs s)" "x = (if m = i then pc' else sys_pcs s ! m)"
      by (auto simp: in_set_conv_nth nth_list_update)
    show "loc_ok q' (ns @ xs) k' j' x \<and> priv_ok q' (ns @ xs) x"
    proof (cases "m = i")
      case True
      with m own show ?thesis by simp
    next
      case False
      have "priv_ok q' (ns @ xs) (sys_pcs s ! m)"
        unfolding priv_ok_def
      proof (intro allI impI)
        fix n assume n: "lf_priv (sys_pcs s ! m) = Some n"
        with ok(2) [OF m(1)] have "n \<notin> set ns" "n < lf_fresh (sys_q s)"
          "\<exists>v. lf_heap (sys_q s) n = Some \<lparr>lf_value = v, lf_next = None\<rparr>" by (auto simp: priv_ok_def)
        moreover have "n \<notin> set xs" using xs other [OF _ m(1) False] n by blast
        ultimately show "n \<notin> set (ns @ xs) \<and> n < lf_fresh q'
            \<and> (\<exists>v. lf_heap q' n = Some \<lparr>lf_value = v, lf_next = None\<rparr>)"
          using frame fresh by auto
      qed
      with m False loc_ok_mono [OF ok(1) [OF m(1)] kj val] show ?thesis by simp
    qed
  qed
  moreover have "ns \<noteq> []" "k < length ns" using shape by (auto simp: lf_shape_def)
  moreover have "map (lf_val q') (tl ns) = map (lf_val (sys_q s)) (tl ns)"
    using val \<open>ns \<noteq> []\<close> by (auto dest: list.set_sel(2))
  moreover have "k' < length (ns @ xs)" using shape' by (auto simp: lf_shape_def)
  ultimately show ?thesis
    using shape' linked popped count count' ev i
    by (cases e)
      (auto simp: lf_inv_at_def sum_pending_update take_Suc_conv_app_nth nth_tl)
qed

theorem lf_inv_step: "lf_sys_step s t \<Longrightarrow> lf_inv s \<Longrightarrow> lf_inv t"
proof (induction rule: lf_sys_step.induct)
  case (call_push i s r x)
  then show ?case
    using lf_inv_call [of s _ _ _ i r "PushStart x"] by (fastforce simp: lf_inv_def)
next
  case (call_pop i s r)
  then show ?case
    using lf_inv_call [of s _ _ _ i r PopStart] by (fastforce simp: lf_inv_def)
next
  case (run_thread i s q' pc' e)
  then obtain ns k j where inv: "lf_inv_at s ns k j" by (auto simp: lf_inv_def)
  have "sys_pcs s ! i \<noteq> Finished r" for r using run_thread(2) by auto
  with inv run_thread lf_thread_good [of "sys_q s" ns k j "sys_pcs s ! i"]
  obtain xs k' j' where "good_step (sys_q s) ns k j (sys_pcs s ! i) q' pc' e xs k' j'"
    by (force simp: lf_inv_at_def)
  with lf_inv_thread [OF inv run_thread(1)] show ?case unfolding lf_inv_def by blast
qed

lemma lf_reachable_inv: "lf_reachable zero n s \<Longrightarrow> lf_inv s"
  by (induction rule: lf_reachable.induct) (auto intro: lf_inv_init lf_inv_step)

section \<open>One caller at a time\<close>

text \<open>
  A call that no other thread disturbs: the loop runs until the call returns. Eight steps are
  enough for a call when the tail is at the last node, which a finished call leaves behind.
\<close>

fun lf_run :: "nat \<Rightarrow> 'a lf_queue \<Rightarrow> 'a lf_pc \<Rightarrow> ('a out \<times> 'a lf_queue) option" where
  "lf_run 0 q pc = (case pc of Finished r \<Rightarrow> Some (r, q) | _ \<Rightarrow> None)"
| "lf_run (Suc fuel) q pc =
     (case pc of Finished r \<Rightarrow> Some (r, q)
      | _ \<Rightarrow> do { (q', pc', _) \<leftarrow> lf_thread_step q pc; lf_run fuel q' pc' })"

fun lf_step :: "'a lf_queue \<Rightarrow> 'a queue_op \<Rightarrow> ('a out \<times> 'a lf_queue) option" where
  "lf_step q (QPush x) = lf_run 8 q (PushStart x)"
| "lf_step q QPop = lf_run 8 q PopStart"
| "lf_step q QPeek = map_option (\<lambda>v. (Item v, q)) (lf_Peek q)"
| "lf_step q QSize = Some (Count (lf_Size q), q)"
| "lf_step q QIsEmpty = map_option (\<lambda>b. (Flag b, q)) (lf_IsEmpty q)"

definition lf_rel :: "'a lf_queue \<Rightarrow> 'a list \<Rightarrow> bool" where
  "lf_rel q xs \<longleftrightarrow>
     (\<exists>ns k. lf_shape q ns k (length ns - 1) \<and> xs = map (lf_val q) (drop (Suc k) ns)
        \<and> lf_count q = int (length xs))"

lemma lf_rel_Push:
  assumes "lf_rel q xs"
  shows "\<exists>q'. lf_run 8 q (PushStart x) = Some (Unit, q') \<and> lf_rel q' (xs @ [x])"
proof -
  from assms obtain ns k where shape: "lf_shape q ns k (length ns - 1)"
    and xs: "xs = map (lf_val q) (drop (Suc k) ns)" and count: "lf_count q = int (length xs)"
    by (auto simp: lf_rel_def)
  let ?n = "lf_fresh q" and ?t = "lf_tail q"
  let ?q1 = "q\<lparr>lf_heap := (lf_heap q)(?n \<mapsto> \<lparr>lf_value = x, lf_next = None\<rparr>), lf_fresh := Suc ?n\<rparr>"
  have ns: "ns \<noteq> []" and kl: "Suc k \<le> length ns" and dist: "distinct ns" using shape by (auto simp: lf_shape_def)
  have new: "?n \<notin> set ns" using shape by (auto simp: lf_shape_def below_def)
  from lf_shape_next [OF shape lf_shape_tail [OF shape]] ns obtain v where
    t: "lf_heap q ?t = Some \<lparr>lf_value = v, lf_next = None\<rparr>" by auto
  have tin: "?t \<in> set ns" using node_at_in [OF lf_shape_tail [OF shape]] .
  with new have tn: "?t \<noteq> ?n" by auto
  from good_step_alloc [OF shape, of x] have s1: "lf_shape ?q1 ns k (length ns - 1)"
    and v1: "\<forall>p \<in> set ns. lf_val ?q1 p = lf_val q p" and p1: "priv_ok ?q1 ns (PushLoadTail ?n)"
    by (auto simp: good_step_def)
  have "pos_le ns (length ns - 1) ?t" using lf_shape_tail [OF shape] by (auto simp: pos_le_def)
  with good_step_link [OF s1, of ?n ?t] p1 t tn
  have g: "good_step ?q1 ns k (length ns - 1) (PushLink ?n ?t)
    (?q1\<lparr>lf_heap := (lf_heap ?q1)(?t \<mapsto> \<lparr>lf_value = v, lf_next = Some ?n\<rparr>)\<rparr>) (PushSwing ?n ?t)
    (Linked (lf_val ?q1 ?n)) [?n] k (length ns - 1)"
    by (simp add: priv_ok_def)
  let ?q2 = "?q1\<lparr>lf_heap := (lf_heap ?q1)(?t \<mapsto> \<lparr>lf_value = v, lf_next = Some ?n\<rparr>)\<rparr>"
  let ?q3 = "?q2\<lparr>lf_tail := ?n, lf_count := lf_count q + 1\<rparr>"
  have run: "lf_run 8 q (PushStart x) = Some (Unit, ?q3)"
    using t tn by (simp add: eval_nat_numeral lf_thread_step_def lf_load_next_def)
  have s2: "lf_shape ?q2 (ns @ [?n]) k (length ns - 1)"
    and v2: "\<forall>p \<in> set ns. lf_val ?q2 p = lf_val ?q1 p"
    using g by (simp_all add: good_step_def)
  from s2 have "lf_head q = (ns @ [?n]) ! k" by (simp add: lf_shape_def)
  with kl have "lf_shape ?q3 (ns @ [?n]) k (length (ns @ [?n]) - 1)"
    by (intro lf_shape_move [OF s2]) simp_all
  moreover have "\<forall>p \<in> set ns. lf_val ?q3 p = lf_val q p"
    using v1 v2 by (auto simp: lf_val_def)
  moreover have "lf_val ?q3 ?n = x" using tn by (simp add: lf_val_def)
  ultimately have "lf_rel ?q3 (xs @ [x])"
    unfolding lf_rel_def using kl xs count
    by (intro exI [of _ "ns @ [?n]"] exI [of _ k]) (auto dest!: in_set_dropD)
  with run show ?thesis by blast
qed

lemma lf_rel_Pop:
  assumes "lf_rel q xs"
  shows "\<exists>q'. lf_run 8 q PopStart = Some (Item (first_item xs), q') \<and> lf_rel q' (tl xs)"
proof -
  from assms obtain ns k where shape: "lf_shape q ns k (length ns - 1)"
    and xs: "xs = map (lf_val q) (drop (Suc k) ns)" and count: "lf_count q = int (length xs)"
    by (auto simp: lf_rel_def)
  have k: "k < length ns" "lf_head q = ns ! k" "lf_tail q = ns ! (length ns - 1)" "distinct ns"
    using shape by (auto simp: lf_shape_def)
  from lf_shape_next [OF shape lf_shape_head [OF shape]] obtain v where
    h: "lf_heap q (lf_head q) = Some \<lparr>lf_value = v,
      lf_next = (if Suc k < length ns then Some (ns ! Suc k) else None)\<rparr>" by auto
  show ?thesis
  proof (cases "Suc k < length ns")
    case False
    then have "k = length ns - 1" using k by linarith
    with False h k have "lf_run 8 q PopStart = Some (Item None, q)"
      by (simp add: eval_nat_numeral lf_thread_step_def lf_load_next_def)
    with False xs assms show ?thesis by (auto simp: first_item_def)
  next
    case True
    then have ht: "lf_head q \<noteq> lf_tail q" using k by (simp add: nth_eq_iff_index_eq)
    from lf_shape_next [OF shape, of "Suc k" "ns ! Suc k"] True obtain n where
      n: "lf_heap q (ns ! Suc k) = Some n" by (auto simp: node_at_def)
    let ?q = "q\<lparr>lf_head := ns ! Suc k, lf_count := lf_count q - 1\<rparr>"
    have run: "lf_run 8 q PopStart = Some (Item (Some (lf_value n)), ?q)"
      using h True ht n by (simp add: eval_nat_numeral lf_thread_step_def lf_load_next_def)
    have xs': "xs = lf_val q (ns ! Suc k) # map (lf_val q) (drop (Suc (Suc k)) ns)"
      using xs True by (simp flip: Cons_nth_drop_Suc)
    have val: "lf_val ?q = lf_val q" by (auto simp: lf_val_def)
    have "lf_shape ?q ns (Suc k) (length ns - 1)"
      using True k by (intro lf_shape_move [OF shape]) simp_all
    then have "lf_rel ?q (tl xs)"
      unfolding lf_rel_def using xs' count val by (intro exI [of _ ns] exI [of _ "Suc k"]) auto
    with run xs' n show ?thesis by (simp add: first_item_def lf_val_def)
  qed
qed

lemma lf_shape_view:
  assumes shape: "lf_shape q ns k j"
  shows "lf_Peek q = Some (first_item (map (lf_val q) (drop (Suc k) ns)))
    \<and> lf_IsEmpty q = Some (length ns \<le> Suc k)"
proof -
  from lf_shape_next [OF shape lf_shape_head [OF shape]] obtain v where
    h: "lf_heap q (lf_head q) = Some \<lparr>lf_value = v,
      lf_next = (if Suc k < length ns then Some (ns ! Suc k) else None)\<rparr>" by auto
  show ?thesis
  proof (cases "Suc k < length ns")
    case False
    with h show ?thesis by (simp add: lf_Peek_def lf_IsEmpty_def lf_load_next_def first_item_def)
  next
    case True
    from lf_shape_next [OF shape, of "Suc k" "ns ! Suc k"] True obtain n where
      n: "lf_heap q (ns ! Suc k) = Some n" by (auto simp: node_at_def)
    have "drop (Suc k) ns = ns ! Suc k # drop (Suc (Suc k)) ns"
      using True by (simp add: Cons_nth_drop_Suc)
    with h n True show ?thesis
      by (simp add: lf_Peek_def lf_IsEmpty_def lf_load_next_def first_item_def lf_val_def)
  qed
qed

lemma lf_rel_head: "lf_rel q xs \<Longrightarrow> lf_Peek q = Some (first_item xs) \<and> lf_IsEmpty q = Some (xs = [])"
  by (auto simp: lf_rel_def dest: lf_shape_view)

interpretation lf: queue_impl lf_step lf_rel "NewLockFreeQueue zero"
proof unfold_locales
  fix c :: "'a lf_queue" and a x
  assume r: "lf_rel c a"
  show "\<exists>c'. lf_step c x = Some (fst (queue_spec a x), c') \<and> lf_rel c' (snd (queue_spec a x))"
  proof (cases x)
    case (QPush v)
    then show ?thesis using lf_rel_Push [OF r, of v] by auto
  next
    case QPop
    then show ?thesis using lf_rel_Pop [OF r] by auto
  next
    case QSize
    then show ?thesis using r by (auto simp: lf_rel_def lf_Size_def)
  qed (use r lf_rel_head [OF r] in auto)
next
  show "lf_rel (NewLockFreeQueue zero) []"
    by (auto simp: lf_rel_def lf_shape_def NewLockFreeQueue_def intro!: exI [of _ "[0]"] exI [of _ 0])
qed

section \<open>Schedules\<close>

text \<open>A schedule says which thread moves next, and which call an idle thread makes.\<close>

datatype 'a lf_choice = CallPush nat 'a | CallPop nat | RunThread nat

fun lf_finished :: "'a lf_pc \<Rightarrow> bool" where
  "lf_finished (Finished _) = True"
| "lf_finished _ = False"

fun lf_choose :: "'a lf_sys \<Rightarrow> 'a lf_choice \<Rightarrow> 'a lf_sys option" where
  "lf_choose s (CallPush i x) =
     (if i < length (sys_pcs s) \<and> lf_finished (sys_pcs s ! i)
      then Some (s\<lparr>sys_pcs := (sys_pcs s)[i := PushStart x]\<rparr>) else None)"
| "lf_choose s (CallPop i) =
     (if i < length (sys_pcs s) \<and> lf_finished (sys_pcs s ! i)
      then Some (s\<lparr>sys_pcs := (sys_pcs s)[i := PopStart]\<rparr>) else None)"
| "lf_choose s (RunThread i) =
     (if i < length (sys_pcs s)
      then do { (q', pc', e) \<leftarrow> lf_thread_step (sys_q s) (sys_pcs s ! i);
                Some (lf_record e (s\<lparr>sys_q := q', sys_pcs := (sys_pcs s)[i := pc']\<rparr>)) }
      else None)"

fun lf_schedule :: "'a lf_sys \<Rightarrow> 'a lf_choice list \<Rightarrow> 'a lf_sys option" where
  "lf_schedule s [] = Some s"
| "lf_schedule s (c # cs) = do { t \<leftarrow> lf_choose s c; lf_schedule t cs }"

lemma lf_finishedE: "lf_finished pc \<Longrightarrow> (\<And>r. pc = Finished r \<Longrightarrow> P) \<Longrightarrow> P"
  by (cases pc) auto

lemma lf_choose_step: "lf_choose s c = Some t \<Longrightarrow> lf_sys_step s t"
  by (cases c)
    (auto split: if_splits bind_splits elim!: lf_finishedE
      intro: call_push call_pop run_thread)

lemma lf_schedule_reachable:
  "lf_reachable zero n s \<Longrightarrow> lf_schedule s cs = Some t \<Longrightarrow> lf_reachable zero n t"
proof (induction cs arbitrary: s)
  case (Cons c cs)
  then obtain u where "lf_choose s c = Some u" "lf_schedule u cs = Some t"
    by (auto split: bind_splits)
  with Cons show ?case by (meson lf_choose_step lf_reachable.step)
qed simp

section \<open>Properties\<close>

text \<open>C1: with any number of threads pushing and popping in any interleaving, the values popped
  are the values pushed, in the order their pushes took effect, without loss or repetition.\<close>

theorem LockFreeQueue_fifo_any_interleaving:
  assumes "lf_reachable zero n s"
  shows "sys_popped s = take (length (sys_popped s)) (sys_linked s)"
proof -
  from lf_reachable_inv [OF assms] obtain k where "sys_popped s = take k (sys_linked s)"
    by (auto simp: lf_inv_def lf_inv_at_def)
  then show ?thesis by (metis append_eq_conv_conj append_take_drop_id)
qed

text \<open>Thread 0 pushes 7 and 8 while thread 1 pops; the pop starts before the first push has swung
  the tail and helps it along.\<close>

definition lf_demo :: "nat lf_sys option" where
  "lf_demo = lf_schedule (lf_init 0 2)
     ([CallPush 0 7] @ replicate 5 (RunThread 0) @ [CallPop 1] @ replicate 5 (RunThread 1)
      @ replicate 2 (RunThread 0) @ [CallPush 0 8] @ replicate 7 (RunThread 0)
      @ replicate 7 (RunThread 1))"

lemma lf_demo_runs:
  "\<exists>s. lf_demo = Some s \<and> sys_popped s = [7] \<and> sys_linked s = [7, 8]
     \<and> sys_pcs s = [Finished Unit, Finished (Item (Some 7))]"
  by (simp add: lf_demo_def lf_init_def NewLockFreeQueue_def lf_thread_step_def lf_load_next_def
      numeral_eq_Suc)

lemma lf_demo_reachable: "lf_demo = Some s \<Longrightarrow> lf_reachable 0 2 s"
  unfolding lf_demo_def by (rule lf_schedule_reachable [OF lf_reachable.start])

theorem LockFreeQueue_fifo_any_interleaving_witness:
  "\<exists>s. lf_demo = Some s \<and> sys_popped s = [7] \<and> sys_popped s = take (length (sys_popped s)) (sys_linked s)"
proof -
  obtain s where s: "lf_demo = Some s" "sys_popped s = [7]" using lf_demo_runs by blast
  from LockFreeQueue_fifo_any_interleaving [OF lf_demo_reachable [OF s(1)]] s
  show ?thesis by blast
qed

text \<open>C27: no interleaving makes a call follow a nil pointer: a thread that has not returned can
  always take its next step.\<close>

theorem LockFreeQueue_never_stuck:
  assumes "lf_reachable zero n s" and "i < length (sys_pcs s)"
    and "\<not> lf_finished (sys_pcs s ! i)"
  shows "lf_thread_step (sys_q s) (sys_pcs s ! i) \<noteq> None"
proof -
  from lf_reachable_inv [OF assms(1)] assms(2) obtain ns k j
    where "lf_shape (sys_q s) ns k j" "loc_ok (sys_q s) ns k j (sys_pcs s ! i)"
      "priv_ok (sys_q s) ns (sys_pcs s ! i)"
    by (auto simp: lf_inv_def lf_inv_at_def)
  moreover have "\<forall>r. sys_pcs s ! i \<noteq> Finished r" using assms(3) by auto
  ultimately show ?thesis using lf_thread_good by fastforce
qed

definition lf_demo2 :: "nat lf_sys option" where
  "lf_demo2 = lf_schedule (lf_init 0 2)
     ([CallPush 0 7] @ replicate 5 (RunThread 0) @ [CallPop 1] @ replicate 4 (RunThread 1))"

lemma lf_demo2_runs:
  "\<exists>s. lf_demo2 = Some s \<and> sys_pcs s = [PushSwing 1 0, PopHelp 0 1]"
  by (simp add: lf_demo2_def lf_init_def NewLockFreeQueue_def lf_thread_step_def lf_load_next_def
      numeral_eq_Suc)

theorem LockFreeQueue_never_stuck_witness:
  "\<exists>s. lf_demo2 = Some s \<and> lf_thread_step (sys_q s) (sys_pcs s ! 1) \<noteq> None"
proof -
  obtain s where s: "lf_demo2 = Some s" "sys_pcs s = [PushSwing 1 0, PopHelp 0 1]"
    using lf_demo2_runs by blast
  then have "lf_reachable 0 2 s"
    unfolding lf_demo2_def by (intro lf_schedule_reachable [OF lf_reachable.start])
  from LockFreeQueue_never_stuck [OF this, of 1] s show ?thesis by auto
qed

text \<open>When no call is in progress, \<open>Size\<close>, \<open>IsEmpty\<close> and \<open>Peek\<close> are exact: they describe the
  values pushed and not yet popped.\<close>

theorem LockFreeQueue_exact_when_quiescent:
  assumes "lf_reachable zero n s" and "\<forall>pc \<in> set (sys_pcs s). lf_finished pc"
  shows "let rest = drop (length (sys_popped s)) (sys_linked s)
    in lf_Size (sys_q s) = int (length rest) \<and> lf_IsEmpty (sys_q s) = Some (rest = [])
     \<and> lf_Peek (sys_q s) = Some (first_item rest)"
proof -
  from lf_reachable_inv [OF assms(1)] obtain ns k j where inv: "lf_inv_at s ns k j"
    by (auto simp: lf_inv_def)
  then have shape: "lf_shape (sys_q s) ns k j" by (simp add: lf_inv_at_def)
  then have k: "k < length ns" by (simp add: lf_shape_def)
  have "map lf_pending (sys_pcs s) = map (\<lambda>_. 0) (sys_pcs s)"
    using assms(2) by (intro map_cong refl) (auto elim!: lf_finishedE)
  then have "sum_list (map lf_pending (sys_pcs s)) = 0" by (simp only: sum_list_0)
  with inv have count: "lf_count (sys_q s) = int (length (sys_linked s)) - int (length (sys_popped s))"
    by (simp add: lf_inv_at_def)
  have linked: "sys_linked s = map (lf_val (sys_q s)) (tl ns)" and popped: "sys_popped s = take k (sys_linked s)"
    using inv by (simp_all add: lf_inv_at_def)
  then have len: "length (sys_popped s) = k" using k by simp
  then have rest: "drop (length (sys_popped s)) (sys_linked s) = map (lf_val (sys_q s)) (drop (Suc k) ns)"
    by (simp only: linked drop_map drop_Suc)
  have "lf_Size (sys_q s) = int (length (drop (Suc k) ns))"
    using count len linked k by (simp add: lf_Size_def)
  then show ?thesis
    unfolding Let_def rest using lf_shape_view [OF shape] by simp
qed

theorem LockFreeQueue_exact_when_quiescent_witness:
  "\<exists>s. lf_demo = Some s \<and> lf_Size (sys_q s) = 1 \<and> lf_Peek (sys_q s) = Some (Some 8)"
proof -
  obtain s where s: "lf_demo = Some s" "sys_popped s = [7]" "sys_linked s = [7, 8]"
    "sys_pcs s = [Finished Unit, Finished (Item (Some 7))]" using lf_demo_runs by blast
  from LockFreeQueue_exact_when_quiescent [OF lf_demo_reachable [OF s(1)]] s
  have "lf_Size (sys_q s) = 1 \<and> lf_Peek (sys_q s) = Some (Some 8)"
    by (simp add: first_item_def Let_def)
  with s(1) show ?thesis by blast
qed

end
