(* ===== verification/Lists.thy ===== *)
theory Lists
  imports Interfaces
begin

text \<open>
  \<open>algo/linkedlist.go\<close>: a singly linked list with a head, a tail and a size, its nodes in a heap.
  The walks of \<open>Remove\<close>, \<open>Contains\<close>, \<open>ToSlice\<close> and \<open>ForEach\<close> stop at a nil pointer only, so they
  are given fuel; \<open>ll_size\<close> many steps are always enough, which the refinement shows. \<open>compareEqual\<close> compares
  its arguments as interface values: whether two values of the type of the list are equal, and whether comparing
  them panics, is an argument \<open>eq\<close> of the operations that use it.
\<close>

datatype panic = Uncomparable

type_synonym 'a go_eq = "'a \<Rightarrow> 'a \<Rightarrow> panic + bool"

record 'a lnode =
  ln_Data :: 'a
  ln_Next :: "ptr option"

record 'a linked_list =
  ll_heap :: "ptr \<rightharpoonup> 'a lnode"
  ll_fresh :: ptr
  ll_head :: "ptr option"
  ll_tail :: "ptr option"
  ll_size :: int

definition NewLinkedList :: "'a linked_list" where
  "NewLinkedList =
     \<lparr>ll_heap = Map.empty, ll_fresh = 0, ll_head = None, ll_tail = None, ll_size = 0\<rparr>"

definition ll_IsEmpty :: "'a linked_list \<Rightarrow> bool" where
  "ll_IsEmpty l \<longleftrightarrow> ll_size l = 0"

definition ll_load :: "'a linked_list \<Rightarrow> ptr option \<Rightarrow> 'a lnode option" where
  "ll_load l q = do { p \<leftarrow> q; ll_heap l p }"

definition ll_set_next :: "'a linked_list \<Rightarrow> ptr option \<Rightarrow> ptr option \<Rightarrow> 'a linked_list option" where
  "ll_set_next l q x =
     do { p \<leftarrow> q; n \<leftarrow> ll_heap l p; Some (l\<lparr>ll_heap := (ll_heap l)(p \<mapsto> n\<lparr>ln_Next := x\<rparr>)\<rparr>) }"

definition ll_new_node :: "'a linked_list \<Rightarrow> 'a lnode \<Rightarrow> ptr \<times> 'a linked_list" where
  "ll_new_node l node =
     (ll_fresh l, l\<lparr>ll_heap := (ll_heap l)(ll_fresh l \<mapsto> node), ll_fresh := Suc (ll_fresh l)\<rparr>)"

definition ll_Add :: "'a linked_list \<Rightarrow> 'a \<Rightarrow> 'a linked_list option" where
  "ll_Add l data =
     (let (newNode, l) = ll_new_node l \<lparr>ln_Data = data, ln_Next = None\<rparr>
      in do {
        l \<leftarrow> (if ll_IsEmpty l then Some (l\<lparr>ll_head := Some newNode\<rparr>)
             else ll_set_next l (ll_tail l) (Some newNode));
        Some (l\<lparr>ll_tail := Some newNode, ll_size := ll_size l + 1\<rparr>) })"

definition ll_AddFront :: "'a linked_list \<Rightarrow> 'a \<Rightarrow> 'a linked_list" where
  "ll_AddFront l data =
     (let (newNode, l) = ll_new_node l \<lparr>ln_Data = data, ln_Next = ll_head l\<rparr>;
          l = l\<lparr>ll_head := Some newNode\<rparr>;
          l = (if ll_tail l = None then l\<lparr>ll_tail := Some newNode\<rparr> else l)
      in l\<lparr>ll_size := ll_size l + 1\<rparr>)"

definition ll_RemoveFirst :: "'a linked_list \<Rightarrow> ('a option \<times> 'a linked_list) option" where
  "ll_RemoveFirst l =
     (if ll_IsEmpty l then Some (None, l)
      else do {
        n \<leftarrow> ll_load l (ll_head l);
        let data = ln_Data n;
        let l = l\<lparr>ll_head := ln_Next n, ll_size := ll_size l - 1\<rparr>;
        let l = (if ll_head l = None then l\<lparr>ll_tail := None\<rparr> else l);
        Some (Some data, l) })"

text \<open>The search loop of \<open>Remove\<close>: it stops at a node whose successor is nil or holds the data. The outer
  option is a nil pointer followed, the sum the panic of a comparison.\<close>

fun ll_seek :: "'a go_eq \<Rightarrow> nat \<Rightarrow> 'a linked_list \<Rightarrow> 'a \<Rightarrow> ptr option \<Rightarrow> (panic + ptr option) option" where
  "ll_seek eq 0 l data current = None"
| "ll_seek eq (Suc fuel) l data current =
     do { n \<leftarrow> ll_load l current;
          if ln_Next n = None then Some (Inr current)
          else do { m \<leftarrow> ll_load l (ln_Next n);
                    case eq (ln_Data m) data of
                      Inl e \<Rightarrow> Some (Inl e)
                    | Inr b \<Rightarrow> if b then Some (Inr current) else ll_seek eq fuel l data (ln_Next n) } }"

definition ll_Remove :: "'a go_eq \<Rightarrow> 'a linked_list \<Rightarrow> 'a \<Rightarrow> ((panic + bool) \<times> 'a linked_list) option" where
  "ll_Remove eq l data =
     (if ll_IsEmpty l then Some (Inr False, l)
      else do {
        h \<leftarrow> ll_load l (ll_head l);
        case eq (ln_Data h) data of
          Inl e \<Rightarrow> Some (Inl e, l)
        | Inr True \<Rightarrow> do { (_, l) \<leftarrow> ll_RemoveFirst l; Some (Inr True, l) }
        | Inr False \<Rightarrow> do {
            found \<leftarrow> ll_seek eq (nat (ll_size l)) l data (ll_head l);
            case found of
              Inl e \<Rightarrow> Some (Inl e, l)
            | Inr current \<Rightarrow> do {
                n \<leftarrow> ll_load l current;
                if ln_Next n = None then Some (Inr False, l)
                else do {
                  let l = (if ln_Next n = ll_tail l then l\<lparr>ll_tail := current\<rparr> else l);
                  m \<leftarrow> ll_load l (ln_Next n);
                  l \<leftarrow> ll_set_next l current (ln_Next m);
                  Some (Inr True, l\<lparr>ll_size := ll_size l - 1\<rparr>) } } } })"

text \<open>The nodes a walk from a pointer to nil meets, the first \<open>fuel\<close> of them at most.\<close>

fun ll_walk :: "nat \<Rightarrow> 'a linked_list \<Rightarrow> ptr option \<Rightarrow> 'a list option" where
  "ll_walk 0 l current = (if current = None then Some [] else None)"
| "ll_walk (Suc fuel) l current =
     (case current of None \<Rightarrow> Some []
      | Some p \<Rightarrow> do { n \<leftarrow> ll_heap l p; xs \<leftarrow> ll_walk fuel l (ln_Next n); Some (ln_Data n # xs) })"

fun ll_contains_from :: "'a go_eq \<Rightarrow> nat \<Rightarrow> 'a linked_list \<Rightarrow> 'a \<Rightarrow> ptr option \<Rightarrow> (panic + bool) option" where
  "ll_contains_from eq 0 l data current = (if current = None then Some (Inr False) else None)"
| "ll_contains_from eq (Suc fuel) l data current =
     (case current of None \<Rightarrow> Some (Inr False)
      | Some p \<Rightarrow> do { n \<leftarrow> ll_heap l p;
                     case eq (ln_Data n) data of
                       Inl e \<Rightarrow> Some (Inl e)
                     | Inr b \<Rightarrow> if b then Some (Inr True) else ll_contains_from eq fuel l data (ln_Next n) })"

definition ll_Contains :: "'a go_eq \<Rightarrow> 'a linked_list \<Rightarrow> 'a \<Rightarrow> (panic + bool) option" where
  "ll_Contains eq l data = ll_contains_from eq (nat (ll_size l)) l data (ll_head l)"

fun ll_advance :: "nat \<Rightarrow> 'a linked_list \<Rightarrow> ptr option \<Rightarrow> ptr option option" where
  "ll_advance 0 l current = Some current"
| "ll_advance (Suc i) l current = do { n \<leftarrow> ll_load l current; ll_advance i l (ln_Next n) }"

definition ll_Get :: "'a linked_list \<Rightarrow> int \<Rightarrow> 'a option option" where
  "ll_Get l index =
     (if index < 0 \<or> ll_size l \<le> index then Some None
      else do { current \<leftarrow> ll_advance (nat index) l (ll_head l);
                n \<leftarrow> ll_load l current; Some (Some (ln_Data n)) })"

definition ll_GetFirst :: "'a linked_list \<Rightarrow> 'a option option" where
  "ll_GetFirst l =
     (if ll_IsEmpty l then Some None
      else do { n \<leftarrow> ll_load l (ll_head l); Some (Some (ln_Data n)) })"

definition ll_GetLast :: "'a linked_list \<Rightarrow> 'a option option" where
  "ll_GetLast l =
     (if ll_IsEmpty l then Some None
      else do { n \<leftarrow> ll_load l (ll_tail l); Some (Some (ln_Data n)) })"

definition ll_Clear :: "'a linked_list \<Rightarrow> 'a linked_list" where
  "ll_Clear l = l\<lparr>ll_head := None, ll_tail := None, ll_size := 0\<rparr>"

text \<open>
  \<open>ToSlice\<close> allocates \<open>ll_size\<close> zero values and overwrites one per node; a list longer than its size
  would write out of range and panic. \<open>ForEach\<close> hands the same sequence of items to its callback.
\<close>

definition ll_ToSlice :: "'a \<Rightarrow> 'a linked_list \<Rightarrow> 'a list option" where
  "ll_ToSlice zero l =
     do { xs \<leftarrow> ll_walk (nat (ll_size l)) l (ll_head l);
          Some (xs @ replicate (nat (ll_size l) - length xs) zero) }"

definition ll_ForEach :: "'a linked_list \<Rightarrow> ('s \<Rightarrow> 'a \<Rightarrow> 's) \<Rightarrow> 's \<Rightarrow> 's option" where
  "ll_ForEach l f s = map_option (foldl f s) (ll_walk (nat (ll_size l)) l (ll_head l))"

section \<open>Specification and refinement\<close>

datatype 'a list_op =
    LAdd 'a | LAddFront 'a | LRemoveFirst | LRemove 'a | LContains 'a | LGet int
  | LGetFirst | LGetLast | LToSlice | LIsEmpty | LClear

text \<open>The place of the first item that is equal to \<open>x\<close>, if no comparison with an item before it panics.\<close>

fun first_equal :: "'a go_eq \<Rightarrow> 'a \<Rightarrow> 'a list \<Rightarrow> panic + nat option" where
  "first_equal eq x [] = Inr None"
| "first_equal eq x (y # ys) =
     (case eq y x of
        Inl e \<Rightarrow> Inl e
      | Inr True \<Rightarrow> Inr (Some 0)
      | Inr False \<Rightarrow> (case first_equal eq x ys of Inl e \<Rightarrow> Inl e | Inr i \<Rightarrow> Inr (map_option Suc i)))"

definition remove_at :: "nat \<Rightarrow> 'a list \<Rightarrow> 'a list" where
  "remove_at i xs = take i xs @ drop (Suc i) xs"

fun list_spec :: "'a go_eq \<Rightarrow> 'a list \<Rightarrow> 'a list_op \<Rightarrow> (panic + 'a out) \<times> 'a list" where
  "list_spec eq xs (LAdd x) = (Inr Unit, xs @ [x])"
| "list_spec eq xs (LAddFront x) = (Inr Unit, x # xs)"
| "list_spec eq xs LRemoveFirst = (Inr (Item (first_item xs)), tl xs)"
| "list_spec eq xs (LRemove x) =
     (case first_equal eq x xs of
        Inl e \<Rightarrow> (Inl e, xs)
      | Inr None \<Rightarrow> (Inr (Flag False), xs)
      | Inr (Some i) \<Rightarrow> (Inr (Flag True), remove_at i xs))"
| "list_spec eq xs (LContains x) =
     (case first_equal eq x xs of Inl e \<Rightarrow> (Inl e, xs) | Inr found \<Rightarrow> (Inr (Flag (found \<noteq> None)), xs))"
| "list_spec eq xs (LGet i) =
     (Inr (Item (if 0 \<le> i \<and> i < int (length xs) then Some (xs ! nat i) else None)), xs)"
| "list_spec eq xs LGetFirst = (Inr (Item (first_item xs)), xs)"
| "list_spec eq xs LGetLast = (Inr (Item (last_item xs)), xs)"
| "list_spec eq xs LToSlice = (Inr (Items xs), xs)"
| "list_spec eq xs LIsEmpty = (Inr (Flag (xs = [])), xs)"
| "list_spec eq xs LClear = (Inr Unit, [])"

text \<open>With an equality that is the equality of values and never panics, these are membership and the removal
  of the first occurrence.\<close>

lemma first_equal_comparable:
  assumes "\<forall>y \<in> set xs. eq y x = Inr (y = x)"
  shows "list_spec eq xs (LContains x) = (Inr (Flag (x \<in> set xs)), xs)"
    "list_spec eq xs (LRemove x) = (Inr (Flag (x \<in> set xs)), remove1 x xs)"
proof -
  have "if x \<in> set xs then \<exists>i. first_equal eq x xs = Inr (Some i) \<and> remove_at i xs = remove1 x xs
    else first_equal eq x xs = Inr None"
    using assms by (induction xs) (auto simp: remove_at_def)
  then show "list_spec eq xs (LContains x) = (Inr (Flag (x \<in> set xs)), xs)"
    "list_spec eq xs (LRemove x) = (Inr (Flag (x \<in> set xs)), remove1 x xs)"
    by (auto simp: remove1_idem split: if_splits)
qed

fun ll_step :: "'a go_eq \<Rightarrow> 'a \<Rightarrow> 'a linked_list \<Rightarrow> 'a list_op \<Rightarrow> ((panic + 'a out) \<times> 'a linked_list) option" where
  "ll_step eq zero l (LAdd x) = map_option (Pair (Inr Unit)) (ll_Add l x)"
| "ll_step eq zero l (LAddFront x) = Some (Inr Unit, ll_AddFront l x)"
| "ll_step eq zero l LRemoveFirst = map_option (map_prod (Inr \<circ> Item) id) (ll_RemoveFirst l)"
| "ll_step eq zero l (LRemove x) = map_option (map_prod (map_sum id Flag) id) (ll_Remove eq l x)"
| "ll_step eq zero l (LContains x) = map_option (\<lambda>b. (map_sum id Flag b, l)) (ll_Contains eq l x)"
| "ll_step eq zero l (LGet i) = map_option (\<lambda>v. (Inr (Item v), l)) (ll_Get l i)"
| "ll_step eq zero l LGetFirst = map_option (\<lambda>v. (Inr (Item v), l)) (ll_GetFirst l)"
| "ll_step eq zero l LGetLast = map_option (\<lambda>v. (Inr (Item v), l)) (ll_GetLast l)"
| "ll_step eq zero l LToSlice = map_option (\<lambda>v. (Inr (Items v), l)) (ll_ToSlice zero l)"
| "ll_step eq zero l LIsEmpty = Some (Inr (Flag (ll_IsEmpty l)), l)"
| "ll_step eq zero l LClear = Some (Inr Unit, ll_Clear l)"

fun lseg :: "(ptr \<rightharpoonup> 'a lnode) \<Rightarrow> (ptr \<times> 'a) list \<Rightarrow> ptr option \<Rightarrow> bool" where
  "lseg h [] nxt = True"
| "lseg h ((p, v) # nvs) nxt =
     (h p = Some \<lparr>ln_Data = v, ln_Next = first_or (map fst nvs) nxt\<rparr> \<and> lseg h nvs nxt)"

lemma lseg_append [seg_simps]:
  "lseg h (xs @ ys) nxt = (lseg h xs (first_or (map fst ys) nxt) \<and> lseg h ys nxt)"
  by (induction h xs nxt rule: lseg.induct) auto

lemma lseg_frame [seg_simps]:
  "p \<notin> fst ` set nvs \<Longrightarrow> lseg (h(p := x)) nvs nxt = lseg h nvs nxt"
  by (induction h nvs nxt rule: lseg.induct) auto

definition ll_at :: "'a linked_list \<Rightarrow> (ptr \<times> 'a) list \<Rightarrow> bool" where
  "ll_at l nvs \<longleftrightarrow>
     distinct (map fst nvs) \<and> below (ll_fresh l) (map fst nvs) \<and> lseg (ll_heap l) nvs None
     \<and> ll_head l = first_or (map fst nvs) None \<and> ll_tail l = last_or None (map fst nvs)
     \<and> ll_size l = int (length nvs)"

definition ll_rel :: "'a linked_list \<Rightarrow> 'a list \<Rightarrow> bool" where
  "ll_rel l xs \<longleftrightarrow> (\<exists>nvs. ll_at l nvs \<and> xs = map snd nvs)"

lemma ll_relI [rep_intros]: "ll_at l nvs \<Longrightarrow> xs = map snd nvs \<Longrightarrow> ll_rel l xs"
  by (auto simp: ll_rel_def)

lemmas ll_defs = ll_IsEmpty_def ll_load_def ll_set_next_def ll_new_node_def ll_at_def

lemma ll_rel_IsEmpty: "ll_rel l xs \<Longrightarrow> ll_IsEmpty l \<longleftrightarrow> xs = []"
  by (auto simp: ll_rel_def ll_defs)

lemma ll_rel_Add:
  assumes "ll_rel l xs"
  shows "\<exists>l'. ll_Add l x = Some l' \<and> ll_rel l' (xs @ [x])"
proof -
  from assms obtain nvs where nvs: "ll_at l nvs" "xs = map snd nvs" by (auto simp: ll_rel_def)
  then have fresh: "ll_fresh l \<notin> fst ` set nvs" by (auto simp: ll_at_def dest: below_not_in)
  have "nvs = [] \<or> (\<exists>ys q v. nvs = ys @ [(q, v)])" using snoc_cases [of nvs] by auto
  with nvs fresh show ?thesis
    by (elim disjE exE)
      (auto simp: ll_defs ll_Add_def seg_simps image_Un
        intro!: ll_relI [of _ "nvs @ [(ll_fresh l, x)]"])
qed

lemma ll_rel_AddFront:
  assumes "ll_rel l xs"
  shows "ll_rel (ll_AddFront l x) (x # xs)"
proof -
  from assms obtain nvs where nvs: "ll_at l nvs" "xs = map snd nvs" by (auto simp: ll_rel_def)
  then have "ll_fresh l \<notin> fst ` set nvs" by (auto simp: ll_at_def dest: below_not_in)
  with nvs show ?thesis
    by (cases nvs)
      (auto simp: ll_defs ll_AddFront_def seg_simps last_or_def
        intro!: ll_relI [of _ "(ll_fresh l, x) # nvs"])
qed

lemma ll_rel_RemoveFirst:
  assumes "ll_rel l xs"
  shows "\<exists>l'. ll_RemoveFirst l = Some (first_item xs, l') \<and> ll_rel l' (tl xs)"
proof -
  from assms obtain nvs where nvs: "ll_at l nvs" "xs = map snd nvs" by (auto simp: ll_rel_def)
  show ?thesis
  proof (cases nvs)
    case Nil
    with nvs assms show ?thesis by (auto simp: ll_RemoveFirst_def ll_defs first_item_def)
  next
    case (Cons nv ys)
    with nvs show ?thesis
      by (cases nv; cases ys)
        (auto simp: ll_RemoveFirst_def ll_defs first_item_def intro!: ll_relI [of _ ys])
  qed
qed

text \<open>Walks along a segment.\<close>

lemma ll_walk_seg:
  "lseg (ll_heap l) nvs None \<Longrightarrow> length nvs \<le> fuel \<Longrightarrow>
   ll_walk fuel l (first_or (map fst nvs) None) = Some (map snd nvs)"
proof (induction nvs arbitrary: fuel)
  case Nil
  then show ?case by (cases fuel) auto
next
  case (Cons nv nvs)
  then show ?case by (cases fuel; cases nv) auto
qed

lemma ll_contains_seg:
  "lseg (ll_heap l) nvs None \<Longrightarrow> length nvs \<le> fuel \<Longrightarrow>
   ll_contains_from eq fuel l x (first_or (map fst nvs) None) =
     Some (case first_equal eq x (map snd nvs) of Inl e \<Rightarrow> Inl e | Inr found \<Rightarrow> Inr (found \<noteq> None))"
proof (induction nvs arbitrary: fuel)
  case Nil
  then show ?case by (cases fuel) auto
next
  case (Cons nv nvs)
  then show ?case by (cases fuel; cases nv) (auto split: sum.splits bool.splits)
qed

lemma ll_advance_seg:
  "lseg (ll_heap l) nvs None \<Longrightarrow> i \<le> length nvs \<Longrightarrow>
   ll_advance i l (first_or (map fst nvs) None) = Some (first_or (map fst (drop i nvs)) None)"
proof (induction nvs arbitrary: i)
  case Nil
  then show ?case by simp
next
  case (Cons nv nvs)
  then show ?case by (cases i; cases nv) (auto simp: ll_load_def)
qed

text \<open>The search stops at the last node, or right before the first node that holds the data.\<close>

lemma ll_seek_seg:
  "lseg (ll_heap l) (nv # nvs) None \<Longrightarrow> length nvs < fuel \<Longrightarrow>
   ll_seek eq fuel l x (Some (fst nv)) =
     (case first_equal eq x (map snd nvs) of
        Inl e \<Rightarrow> Some (Inl e)
      | Inr None \<Rightarrow> Some (Inr (last_or None (map fst (nv # nvs))))
      | Inr (Some i) \<Rightarrow> Some (Inr (Some (fst ((nv # nvs) ! i)))))"
proof (induction nvs arbitrary: nv fuel)
  case Nil
  then show ?case by (cases fuel; cases nv) (auto simp: ll_load_def)
next
  case (Cons m nvs)
  from Cons.prems obtain f where f: "fuel = Suc f" by (cases fuel) auto
  from Cons.prems Cons.IH [of m f] f show ?case
    by (cases nv; cases m) (auto simp: ll_load_def split: sum.splits bool.splits option.splits)
qed

lemma first_equal_less: "first_equal eq x xs = Inr (Some i) \<Longrightarrow> i < length xs"
  by (induction xs arbitrary: i) (auto split: sum.splits bool.splits)

lemma ll_unlink:
  assumes at: "ll_at l (bs @ (c, w) # (q, y) # zs)"
  defines "l1 \<equiv> (if Some q = ll_tail l then l\<lparr>ll_tail := Some c\<rparr> else l)"
  shows "\<exists>l2. ll_set_next l1 (Some c) (first_or (map fst zs) None) = Some l2
    \<and> ll_at (l2\<lparr>ll_size := ll_size l2 - 1\<rparr>) (bs @ (c, w) # zs)"
proof -
  have "Some q = ll_tail l \<longleftrightarrow> zs = []"
    using at last_or_eq_skip [of q "map fst zs" "Some q"] by (auto simp: ll_at_def)
  then show ?thesis
    using at by (cases zs) (auto simp: l1_def ll_defs seg_simps)
qed

lemma ll_rel_Remove:
  assumes "ll_rel l xs"
  shows "\<exists>l'. ll_step eq zero l (LRemove x) = Some (fst (list_spec eq xs (LRemove x)), l') \<and>
    ll_rel l' (snd (list_spec eq xs (LRemove x)))"
proof -
  from assms obtain nvs where nvs: "ll_at l nvs" "xs = map snd nvs" by (auto simp: ll_rel_def)
  have seg: "lseg (ll_heap l) nvs None" and head: "ll_head l = first_or (map fst nvs) None"
    and size: "ll_size l = int (length nvs)" using nvs by (auto simp: ll_at_def)
  show ?thesis
  proof (cases nvs)
    case Nil
    with nvs assms show ?thesis by (auto simp: ll_Remove_def ll_defs)
  next
    case (Cons nv rest)
    obtain p v where nv: "nv = (p, v)" by (cases nv)
    have nonempty: "\<not> ll_IsEmpty l" using size Cons by (simp add: ll_IsEmpty_def)
    have hd: "ll_load l (ll_head l) = Some \<lparr>ln_Data = v, ln_Next = first_or (map fst rest) None\<rparr>"
      using seg head Cons nv by (simp add: ll_load_def)
    have seek: "ll_seek eq (nat (ll_size l)) l x (ll_head l) =
       (case first_equal eq x (map snd rest) of
          Inl e \<Rightarrow> Some (Inl e)
        | Inr None \<Rightarrow> Some (Inr (last_or None (map fst nvs)))
        | Inr (Some i) \<Rightarrow> Some (Inr (Some (fst (nvs ! i)))))"
    proof -
      have "lseg (ll_heap l) (nv # rest) None" "length rest < nat (ll_size l)" "ll_head l = Some (fst nv)"
        using seg Cons size head by simp_all
      from ll_seek_seg [OF this(1,2), of eq x] this(3) show ?thesis unfolding Cons by simp
    qed
    consider e where "eq v x = Inl e" | "eq v x = Inr True"
      | e where "eq v x = Inr False" "first_equal eq x (map snd rest) = Inl e"
      | "eq v x = Inr False" "first_equal eq x (map snd rest) = Inr None"
      | i where "eq v x = Inr False" "first_equal eq x (map snd rest) = Inr (Some i)"
    proof -
      have "(\<exists>e. eq v x = Inl e) \<or> eq v x = Inr True \<or> eq v x = Inr False"
        by (cases "eq v x") auto
      moreover have "(\<exists>e. first_equal eq x (map snd rest) = Inl e) \<or> first_equal eq x (map snd rest) = Inr None \<or>
          (\<exists>i. first_equal eq x (map snd rest) = Inr (Some i))"
        by (metis not_None_eq old.sum.exhaust)
      ultimately show thesis using that by blast
    qed
    then show ?thesis
    proof cases
      case 1
      then show ?thesis using hd nonempty nvs Cons nv assms by (simp add: ll_Remove_def)
    next
      case 2
      from ll_rel_RemoveFirst [OF assms] obtain l' where
        l': "ll_RemoveFirst l = Some (first_item xs, l')" "ll_rel l' (tl xs)" by blast
      then show ?thesis using 2 hd nonempty nvs Cons nv by (simp add: ll_Remove_def remove_at_def)
    next
      case 3
      then show ?thesis using seek hd nonempty nvs Cons nv assms by (simp add: ll_Remove_def)
    next
      case 4
      obtain q w bs where bs: "nvs = bs @ [(q, w)]" using Cons snoc_cases [of nvs] by auto
      moreover from seg bs have "ll_heap l q = Some \<lparr>ln_Data = w, ln_Next = None\<rparr>"
        by (simp add: seg_simps)
      ultimately have "ll_load l (last_or None (map fst nvs)) = Some \<lparr>ln_Data = w, ln_Next = None\<rparr>"
        by (simp add: ll_load_def)
      then show ?thesis using 4 seek hd nonempty nvs Cons nv assms by (simp add: ll_Remove_def)
    next
      case 5
      have i: "i < length rest" using first_equal_less [OF 5(2)] by simp
      obtain c w q y where cw: "nvs ! i = (c, w)" "nvs ! Suc i = (q, y)" by fastforce
      define bs zs where "bs = take i nvs" and "zs = drop (Suc (Suc i)) nvs"
      have all: "nvs = bs @ (c, w) # (q, y) # zs"
        using i Cons cw unfolding bs_def zs_def by (metis Cons_nth_drop_Suc Suc_less_eq append_take_drop_id length_Cons less_SucI)
      have c: "ll_heap l c = Some \<lparr>ln_Data = w, ln_Next = Some q\<rparr>"
        and q: "ll_heap l q = Some \<lparr>ln_Data = y, ln_Next = first_or (map fst zs) None\<rparr>"
        using seg all by (simp_all add: seg_simps)
      from ll_unlink [of l bs c w q y zs] nvs all obtain l2 where
        l2: "ll_set_next (if Some q = ll_tail l then l\<lparr>ll_tail := Some c\<rparr> else l) (Some c)
            (first_or (map fst zs) None) = Some l2"
        "ll_at (l2\<lparr>ll_size := ll_size l2 - 1\<rparr>) (bs @ (c, w) # zs)" by blast
      have "ll_Remove eq l x = Some (Inr True, l2\<lparr>ll_size := ll_size l2 - 1\<rparr>)"
        using hd nonempty 5 seek l2(1) c q cw
        by (simp add: ll_Remove_def) (auto simp: ll_load_def split: if_splits)
      moreover have "map snd (bs @ (c, w) # zs) = remove_at (Suc i) xs"
      proof -
        have "bs @ [(c, w)] = take (Suc i) nvs" using take_Suc_conv_app_nth [of i nvs] cw(1) i Cons
          by (simp add: bs_def del: take_Suc_Cons)
        then have "bs @ (c, w) # zs = take (Suc i) nvs @ drop (Suc (Suc i)) nvs" unfolding zs_def by (metis append.assoc append_Cons append_Nil)
        then show ?thesis by (simp add: remove_at_def nvs(2) take_map drop_map)
      qed
      ultimately show ?thesis using 5 l2(2) nvs Cons nv by (auto intro: ll_relI)
    qed
  qed
qed

lemma ll_rel_Get:
  assumes "ll_rel l xs"
  shows "ll_Get l i = Some (if 0 \<le> i \<and> i < int (length xs) then Some (xs ! nat i) else None)"
proof -
  from assms obtain nvs where nvs: "ll_at l nvs" "xs = map snd nvs" by (auto simp: ll_rel_def)
  show ?thesis
  proof (cases "0 \<le> i \<and> i < int (length xs)")
    case True
    then have i: "nat i < length nvs" using nvs by auto
    then obtain p v where d: "drop (nat i) nvs = (p, v) # drop (Suc (nat i)) nvs" and v: "nvs ! nat i = (p, v)"
      by (metis Cons_nth_drop_Suc prod.exhaust)
    have "lseg (ll_heap l) (take (nat i) nvs @ drop (nat i) nvs) None"
      using nvs by (simp add: ll_at_def)
    then have "ll_heap l p = Some \<lparr>ln_Data = v, ln_Next = first_or (map fst (drop (Suc (nat i)) nvs)) None\<rparr>"
      unfolding d by (simp add: seg_simps)
    with nvs True i v d ll_advance_seg [of l nvs "nat i"] show ?thesis
      by (simp add: ll_Get_def ll_at_def ll_load_def)
  next
    case False
    with nvs show ?thesis by (auto simp: ll_Get_def ll_at_def)
  qed
qed

lemma ll_rel_views:
  assumes "ll_rel l xs"
  shows "ll_step eq zero l (LContains x) = Some (fst (list_spec eq xs (LContains x)), l)" "ll_GetFirst l = Some (first_item xs)"
    "ll_GetLast l = Some (last_item xs)" "ll_ToSlice zero l = Some xs"
    "ll_ForEach l f s = Some (foldl f s xs)" "ll_rel (ll_Clear l) []"
proof -
  from assms obtain nvs where nvs: "ll_at l nvs" "xs = map snd nvs" by (auto simp: ll_rel_def)
  then have seg: "lseg (ll_heap l) nvs None" and head: "ll_head l = first_or (map fst nvs) None"
    and size: "ll_size l = int (length nvs)" and tail: "ll_tail l = last_or None (map fst nvs)"
    by (auto simp: ll_at_def)
  show "ll_step eq zero l (LContains x) = Some (fst (list_spec eq xs (LContains x)), l)" "ll_ToSlice zero l = Some xs"
    "ll_ForEach l f s = Some (foldl f s xs)"
    using seg head size nvs ll_contains_seg [OF seg order_refl, of eq x] ll_walk_seg [OF seg order_refl]
    by (auto simp: ll_Contains_def ll_ToSlice_def ll_ForEach_def split: sum.splits)
  show "ll_GetFirst l = Some (first_item xs)"
    using seg head size nvs by (cases nvs) (auto simp: ll_GetFirst_def ll_defs first_item_def)
  show "ll_GetLast l = Some (last_item xs)"
    using seg tail size nvs snoc_cases [of nvs]
    by (auto simp: ll_GetLast_def ll_defs last_item_def seg_simps)
  show "ll_rel (ll_Clear l) []"
    by (intro ll_relI [of _ "[]"]) (auto simp: ll_Clear_def ll_at_def)
qed

lemma ll_rel_Contains:
  "ll_rel l xs \<Longrightarrow> ll_rel l (snd (list_spec eq xs (LContains x)))"
  by (auto split: sum.splits)

interpretation ll: refinement "ll_step eq zero" "list_spec eq" ll_rel
proof unfold_locales
  fix c :: "'a linked_list" and a x
  assume r: "ll_rel c a"
  show "\<exists>c'. ll_step eq zero c x = Some (fst (list_spec eq a x), c') \<and> ll_rel c' (snd (list_spec eq a x))"
  proof (cases x)
    case (LAdd v)
    then show ?thesis using ll_rel_Add [OF r, of v] by auto
  next
    case (LAddFront v)
    then show ?thesis using ll_rel_AddFront [OF r, of v] by auto
  next
    case LRemoveFirst
    then show ?thesis using ll_rel_RemoveFirst [OF r] by auto
  next
    case (LRemove v)
    then show ?thesis using ll_rel_Remove [OF r, of eq zero v] by simp
  next
    case (LContains v)
    show ?thesis unfolding LContains using ll_rel_views(1) [OF r, of eq zero v] ll_rel_Contains [OF r, of eq v]
      by (simp only: ex_simps) blast
  qed (use r in \<open>auto simp: ll_rel_views(2-) ll_rel_Get ll_rel_IsEmpty\<close>)
qed

lemma ll_rel_New: "ll_rel NewLinkedList []"
  by (intro ll_relI [of _ "[]"]) (auto simp: NewLinkedList_def ll_at_def)

text \<open>C15: any sequence of operations on a new linked list runs without following a nil pointer or
  overrunning a slice, and returns what the same operations on a plain list return, whatever the equality
  of its items: \<open>Contains\<close> and \<open>Remove\<close> look for the first item that compares equal, \<open>Remove\<close> unlinks
  it and repairs the tail, and when a comparison before it panics they panic and leave the list as it is.\<close>

theorem LinkedList_refines_list:
  "\<exists>outs l xs. run_steps (ll_step eq zero) NewLinkedList ops = Some (outs, l)
     \<and> run_steps (total_step (list_spec eq)) [] ops = Some (outs, xs)
     \<and> ll_ToSlice zero l = Some xs"
proof -
  from ll.run_refines [OF ll_rel_New, of eq zero ops] obtain outs l xs where
    "run_steps (ll_step eq zero) NewLinkedList ops = Some (outs, l)"
    "run_steps (total_step (list_spec eq)) [] ops = Some (outs, xs)" "ll_rel l xs" by blast
  then show ?thesis
    by (intro exI [of _ outs] exI [of _ l] exI [of _ xs]) (simp add: ll_rel_views(4))
qed

end
