(* ===== verification/UnionFind.thy ===== *)
theory UnionFind
  imports Prelude
begin

text \<open>
  \<open>algo/union_find.go\<close>: disjoint sets with union by rank and path compression. The elements are the
  indices of the parent slice. Climbing to the root and compressing the path are loops that a
  cyclic parent slice would never leave: they are \<open>partial_function\<close>s, \<open>None\<close> is a loop that
  does not return or an index out of range, and the invariant shows that they return.
\<close>

record union_find =
  uf_parent :: "nat list"
  uf_rank :: "nat list"
  uf_count :: int

definition NewUnionFind :: "nat \<Rightarrow> union_find" where
  "NewUnionFind n = \<lparr>uf_parent = [0..<n], uf_rank = replicate n 0, uf_count = int n\<rparr>"

partial_function (option) uf_climb :: "nat list \<Rightarrow> nat \<Rightarrow> nat option" where
  "uf_climb parent root =
     (if length parent \<le> root then None
      else if root = parent ! root then Some root
      else uf_climb parent (parent ! root))"

partial_function (option) uf_compress :: "nat list \<Rightarrow> nat \<Rightarrow> nat \<Rightarrow> nat list option" where
  "uf_compress parent root p =
     (if p = root then Some parent
      else if length parent \<le> p then None
      else uf_compress (parent[p := root]) root (parent ! p))"

definition uf_findWithoutLocking :: "union_find \<Rightarrow> int \<Rightarrow> (nat \<times> union_find) option" where
  "uf_findWithoutLocking uf p =
     (if p < 0 \<or> int (length (uf_parent uf)) \<le> p then None
      else do {
        root \<leftarrow> uf_climb (uf_parent uf) (nat p);
        parent \<leftarrow> uf_compress (uf_parent uf) root (nat p);
        Some (root, uf\<lparr>uf_parent := parent\<rparr>) })"

text \<open>\<open>Find\<close> returns a root without taking the write lock; otherwise it does what
  \<open>findWithoutLocking\<close> does.\<close>

definition uf_Find :: "union_find \<Rightarrow> int \<Rightarrow> (nat \<times> union_find) option" where
  "uf_Find uf p =
     (if p < 0 \<or> int (length (uf_parent uf)) \<le> p then None
      else if uf_parent uf ! nat p = nat p then Some (nat p, uf)
      else do {
        root \<leftarrow> uf_climb (uf_parent uf) (nat p);
        parent \<leftarrow> uf_compress (uf_parent uf) root (nat p);
        Some (root, uf\<lparr>uf_parent := parent\<rparr>) })"

definition uf_Union :: "union_find \<Rightarrow> int \<Rightarrow> int \<Rightarrow> union_find option" where
  "uf_Union uf p q =
     do {
       (rootP, uf) \<leftarrow> uf_findWithoutLocking uf p;
       (rootQ, uf) \<leftarrow> uf_findWithoutLocking uf q;
       if rootP = rootQ then Some uf
       else let uf =
           (if uf_rank uf ! rootP < uf_rank uf ! rootQ
            then uf\<lparr>uf_parent := (uf_parent uf)[rootP := rootQ]\<rparr>
            else if uf_rank uf ! rootP > uf_rank uf ! rootQ
            then uf\<lparr>uf_parent := (uf_parent uf)[rootQ := rootP]\<rparr>
            else uf\<lparr>uf_parent := (uf_parent uf)[rootQ := rootP],
                    uf_rank := (uf_rank uf)[rootP := uf_rank uf ! rootP + 1]\<rparr>)
         in Some (uf\<lparr>uf_count := uf_count uf - 1\<rparr>) }"

definition uf_Connected :: "union_find \<Rightarrow> int \<Rightarrow> int \<Rightarrow> (bool \<times> union_find) option" where
  "uf_Connected uf p q =
     do {
       (rootP, uf) \<leftarrow> uf_findWithoutLocking uf p;
       (rootQ, uf) \<leftarrow> uf_findWithoutLocking uf q;
       Some (rootP = rootQ, uf) }"

definition uf_Count :: "union_find \<Rightarrow> int" where
  "uf_Count uf = uf_count uf"

section \<open>Forests\<close>

text \<open>The rank grows strictly on the way to the root; so the way ends.\<close>

definition forest :: "nat list \<Rightarrow> nat list \<Rightarrow> bool" where
  "forest l rk \<longleftrightarrow> length rk = length l
     \<and> (\<forall>i < length l. l ! i < length l \<and> (l ! i \<noteq> i \<longrightarrow> rk ! i < rk ! (l ! i)))"

definition root_of :: "nat list \<Rightarrow> nat \<Rightarrow> nat" where
  "root_of l i = the (uf_climb l i)"

lemma forestD:
  assumes "forest l rk" and "i < length l"
  shows "l ! i < length l" "l ! i \<noteq> i \<Longrightarrow> rk ! i < rk ! (l ! i)"
  using assms by (auto simp: forest_def)

lemma forest_length: "forest l rk \<Longrightarrow> length rk = length l"
  by (simp add: forest_def)

lemma forest_induct [consumes 2, case_names node]:
  assumes "forest l rk" and "i < length l"
    and "\<And>i. i < length l \<Longrightarrow> (l ! i \<noteq> i \<Longrightarrow> P (l ! i)) \<Longrightarrow> P i"
  shows "P i"
  using assms(2)
proof (induction "Max (set rk) - rk ! i" arbitrary: i rule: less_induct)
  case less
  show ?case
  proof (rule assms(3) [OF less.prems])
    assume ne: "l ! i \<noteq> i"
    have li: "l ! i < length l" "rk ! i < rk ! (l ! i)"
      using forestD [OF assms(1) less.prems] ne by auto
    then have "rk ! (l ! i) \<le> Max (set rk)" using forest_length [OF assms(1)] by simp
    with li show "P (l ! i)" by (intro less.hyps) auto
  qed
qed

lemma uf_climb_root: "i < length l \<Longrightarrow> l ! i = i \<Longrightarrow> uf_climb l i = Some i"
  by (simp add: uf_climb.simps)

lemma uf_climb_step: "i < length l \<Longrightarrow> l ! i \<noteq> i \<Longrightarrow> uf_climb l i = uf_climb l (l ! i)"
  by (subst uf_climb.simps) auto

lemma root_of_root [simp]: "i < length l \<Longrightarrow> l ! i = i \<Longrightarrow> root_of l i = i"
  by (simp add: root_of_def uf_climb_root)

lemma root_of_step: "i < length l \<Longrightarrow> l ! i \<noteq> i \<Longrightarrow> root_of l i = root_of l (l ! i)"
  by (simp add: root_of_def uf_climb_step)

lemma uf_climb_returns:
  assumes "forest l rk" and "i < length l"
  shows "uf_climb l i = Some (root_of l i) \<and> root_of l i < length l
    \<and> l ! root_of l i = root_of l i \<and> rk ! i \<le> rk ! root_of l i
    \<and> (root_of l i \<noteq> i \<longrightarrow> rk ! i < rk ! root_of l i)"
  using assms
proof (induction rule: forest_induct)
  case (node i)
  show ?case
  proof (cases "l ! i = i")
    case True
    with node(1) show ?thesis by (simp add: uf_climb_root)
  next
    case False
    with node(2) forestD(2) [OF assms(1) node(1)] show ?thesis
      using uf_climb_step [OF node(1) False] root_of_step [OF node(1) False] by auto
  qed
qed

lemmas root_of_props = uf_climb_returns [THEN conjunct2]

lemma root_of_idem:
  assumes "forest l rk" and "i < length l"
  shows "root_of l (root_of l i) = root_of l i"
  by (rule root_of_root [OF root_of_props [OF assms, THEN conjunct1]
    root_of_props [OF assms, THEN conjunct2, THEN conjunct1]])

text \<open>Pointing an element at another of its own tree with a higher rank keeps every root.\<close>

lemma forest_update:
  assumes "forest l rk" and "k < length l" and "rk ! i < rk ! k"
  shows "forest (l[i := k]) rk"
  unfolding forest_def
proof (intro conjI allI impI)
  show "length rk = length (l[i := k])" using forest_length [OF assms(1)] by simp
  fix j assume "j < length (l[i := k])"
  then have j: "j < length l" by simp
  show "l[i := k] ! j < length (l[i := k])"
    using forestD(1) [OF assms(1) j] assms(2) j by (cases "j = i") simp_all
  assume "l[i := k] ! j \<noteq> j"
  then show "rk ! j < rk ! (l[i := k] ! j)"
    using forestD(2) [OF assms(1) j] assms(3) j by (cases "j = i") simp_all
qed

lemma root_of_shortcut:
  assumes f: "forest l rk" and i: "i < length l" and k: "k < length l" "rk ! i < rk ! k"
    and same: "root_of l k = root_of l i" and j: "j < length l"
  shows "root_of (l[i := k]) j = root_of l j"
proof -
  have f': "forest (l[i := k]) rk" by (rule forest_update [OF f k])
  have "j < length (l[i := k])" using j by simp
  with f' show ?thesis
  proof (induction rule: forest_induct)
    case (node j)
    then have j: "j < length l" by simp
    show ?case
    proof (cases "j = i")
      case True
      have "i \<noteq> k" using k by auto
      with True node j have "root_of (l[i := k]) j = root_of l k"
        using root_of_step [of j "l[i := k]"] by simp
      with same True show ?thesis by simp
    next
      case False
      with node j show ?thesis
        by (cases "l ! j = j") (auto simp: root_of_step)
    qed
  qed
qed

text \<open>Linking a root below another root.\<close>

lemma root_of_link:
  assumes f: "forest (l[a := b]) rk" and a: "a < length l" "l ! a = a"
    and b: "b < length l" "l ! b = b" and ab: "a \<noteq> b" and j: "j < length l"
  shows "root_of (l[a := b]) j = (if root_of l j = a then b else root_of l j)"
proof -
  have "j < length (l[a := b])" using j by simp
  with f show ?thesis
  proof (induction rule: forest_induct)
    case (node j)
    then have j: "j < length l" by simp
    show ?case
    proof (cases "l ! j = j")
      case True
      then show ?thesis
        using j a b ab root_of_step [of j "l[a := b]"] by (cases "j = a") auto
    next
      case False
      with a have "j \<noteq> a" by auto
      with False node j show ?thesis
        using root_of_step [of j "l[a := b]"] root_of_step [OF j False] by auto
    qed
  qed
qed

lemma uf_compress_returns:
  assumes "forest l rk" and "p < length l" and "r = root_of l p"
  shows "\<exists>l'. uf_compress l r p = Some l' \<and> length l' = length l \<and> forest l' rk
    \<and> (\<forall>j < length l. root_of l' j = root_of l j)
    \<and> (\<forall>j < length l. l' ! j = j \<longleftrightarrow> l ! j = j)"
  using assms
proof (induction "Max (set rk) - rk ! p" arbitrary: l p rule: less_induct)
  case less
  note f = less.prems(1) and p = less.prems(2) and r = less.prems(3)
  have root: "r < length l" "l ! r = r" "r \<noteq> p \<Longrightarrow> rk ! p < rk ! r"
    using root_of_props [OF f p] r by auto
  show ?case
  proof (cases "p = r")
    case True
    with f show ?thesis by (auto simp: uf_compress.simps)
  next
    case False
    then have ne: "l ! p \<noteq> p" using p r by auto
    let ?l = "l[p := r]" and ?p = "l ! p"
    have step: "uf_compress l r p = uf_compress ?l r ?p"
      using False p by (subst uf_compress.simps) simp
    have rr: "root_of l r = root_of l p" using root r by simp
    have f': "forest ?l rk" using False root by (intro forest_update [OF f]) auto
    have same: "root_of ?l j = root_of l j" if "j < length l" for j
      using root_of_shortcut [OF f p root(1) _ rr that] root(3) False by auto
    have p': "?p < length l" "rk ! p < rk ! ?p" using forestD [OF f p] ne by auto
    then have "rk ! ?p \<le> Max (set rk)" using forest_length [OF f] by simp
    with p'(2) have smaller: "Max (set rk) - rk ! ?p < Max (set rk) - rk ! p" by linarith
    have "r = root_of ?l ?p" using same [OF p'(1)] root_of_step [OF p ne] r by simp
    from less.hyps [OF smaller f' _ this] p'(1) obtain l' where l':
      "uf_compress ?l r ?p = Some l'" "length l' = length l" "forest l' rk"
      "\<forall>j < length l. root_of l' j = root_of ?l j"
      "\<forall>j < length l. l' ! j = j \<longleftrightarrow> ?l ! j = j" by auto
    moreover have "\<forall>j < length l. ?l ! j = j \<longleftrightarrow> l ! j = j"
      using ne False p by (auto simp: nth_list_update)
    ultimately show ?thesis using step same by auto
  qed
qed

section \<open>The invariant of the structure\<close>

abbreviation uf_size :: "union_find \<Rightarrow> nat" where
  "uf_size uf \<equiv> length (uf_parent uf)"

definition uf_root :: "union_find \<Rightarrow> nat \<Rightarrow> nat" where
  "uf_root uf i = root_of (uf_parent uf) i"

definition uf_roots :: "union_find \<Rightarrow> nat set" where
  "uf_roots uf = {i. i < uf_size uf \<and> uf_parent uf ! i = i}"

definition uf_class :: "union_find \<Rightarrow> nat \<Rightarrow> nat set" where
  "uf_class uf r = {j. j < uf_size uf \<and> uf_root uf j = r}"

definition uf_wf :: "union_find \<Rightarrow> bool" where
  "uf_wf uf \<longleftrightarrow> forest (uf_parent uf) (uf_rank uf)
     \<and> uf_count uf = int (card (uf_roots uf))
     \<and> (\<forall>r \<in> uf_roots uf. 2 ^ (uf_rank uf ! r) \<le> card (uf_class uf r))"

text \<open>Two states that differ only in how far their paths are compressed.\<close>

definition uf_alike :: "union_find \<Rightarrow> union_find \<Rightarrow> bool" where
  "uf_alike uf uf' \<longleftrightarrow> uf_size uf' = uf_size uf \<and> uf_rank uf' = uf_rank uf
     \<and> uf_count uf' = uf_count uf \<and> (\<forall>j < uf_size uf. uf_root uf' j = uf_root uf j)
     \<and> uf_roots uf' = uf_roots uf"

lemma uf_alike_class: "uf_alike uf uf' \<Longrightarrow> uf_class uf' r = uf_class uf r"
  by (auto simp: uf_alike_def uf_class_def)

lemma uf_alike_refl [simp]: "uf_alike uf uf"
  by (simp add: uf_alike_def)

lemma uf_alike_trans: "uf_alike a b \<Longrightarrow> uf_alike b c \<Longrightarrow> uf_alike a c"
  by (auto simp: uf_alike_def)

lemma uf_roots_finite [simp]: "finite (uf_roots uf)" "finite (uf_class uf r)"
  by (simp_all add: uf_roots_def uf_class_def)

lemma uf_root_bound: "uf_wf uf \<Longrightarrow> i < uf_size uf \<Longrightarrow> uf_root uf i \<in> uf_roots uf"
  using root_of_props by (auto simp: uf_wf_def uf_root_def uf_roots_def)

lemma uf_root_fix: "r \<in> uf_roots uf \<Longrightarrow> uf_root uf r = r"
  by (simp add: uf_roots_def uf_root_def)

lemma uf_find_wf:
  assumes wf: "uf_wf uf" and p: "0 \<le> p" "p < int (uf_size uf)"
  shows "\<exists>uf'. uf_findWithoutLocking uf p = Some (uf_root uf (nat p), uf')
    \<and> uf_wf uf' \<and> uf_alike uf uf'"
proof -
  let ?l = "uf_parent uf"
  have f: "forest ?l (uf_rank uf)" using wf by (simp add: uf_wf_def)
  have p': "nat p < length ?l" using p by simp
  from uf_climb_returns [OF f p'] have climb: "uf_climb ?l (nat p) = Some (root_of ?l (nat p))" by blast
  from uf_compress_returns [OF f p' refl] obtain l' where l':
    "uf_compress ?l (root_of ?l (nat p)) (nat p) = Some l'" "length l' = length ?l"
    "forest l' (uf_rank uf)" "\<forall>j < length ?l. root_of l' j = root_of ?l j"
    "\<forall>j < length ?l. l' ! j = j \<longleftrightarrow> ?l ! j = j" by blast
  let ?uf = "uf\<lparr>uf_parent := l'\<rparr>"
  have alike: "uf_alike uf ?uf"
    using l' by (auto simp: uf_alike_def uf_root_def uf_roots_def)
  moreover from alike have "uf_wf ?uf"
    using wf l' uf_alike_class [OF alike] by (simp add: uf_wf_def uf_alike_def)
  moreover have "uf_findWithoutLocking uf p = Some (uf_root uf (nat p), ?uf)"
    using p climb l' by (simp add: uf_findWithoutLocking_def uf_root_def)
  ultimately show ?thesis by blast
qed

lemma uf_Find_same:
  assumes "uf_wf uf"
  shows "uf_Find uf p = uf_findWithoutLocking uf p"
proof (cases "0 \<le> p \<and> p < int (uf_size uf) \<and> uf_parent uf ! nat p = nat p")
  case True
  then show ?thesis
    by (auto simp: uf_Find_def uf_findWithoutLocking_def uf_climb_root uf_compress.simps)
next
  case False
  then show ?thesis by (auto simp: uf_Find_def uf_findWithoutLocking_def)
qed

text \<open>Linking the root \<open>a\<close> below the root \<open>b\<close>, with the rank of \<open>b\<close> at least one above.\<close>

lemma uf_link:
  assumes wf: "uf_wf uf" and ab: "a \<in> uf_roots uf" "b \<in> uf_roots uf" "a \<noteq> b"
    and uf': "uf' = \<lparr>uf_parent = (uf_parent uf)[a := b], uf_rank = rk, uf_count = uf_count uf - 1\<rparr>"
    and rk: "rk = uf_rank uf \<and> uf_rank uf ! a < uf_rank uf ! b
      \<or> rk = (uf_rank uf)[b := uf_rank uf ! b + 1] \<and> uf_rank uf ! a = uf_rank uf ! b"
  shows "uf_wf uf' \<and> uf_size uf' = uf_size uf
    \<and> (\<forall>j < uf_size uf. uf_root uf' j = (if uf_root uf j = a then b else uf_root uf j))
    \<and> uf_roots uf' = uf_roots uf - {a}"
proof -
  let ?l = "uf_parent uf"
  have f: "forest ?l (uf_rank uf)" using wf by (simp add: uf_wf_def)
  have a: "a < length ?l" "?l ! a = a" and b: "b < length ?l" "?l ! b = b"
    using ab by (auto simp: uf_roots_def)
  have len: "length (uf_rank uf) = length ?l" using f by (rule forest_length)
  have f': "forest (?l[a := b]) rk"
    unfolding forest_def
  proof (intro conjI allI impI)
    show "length rk = length (?l[a := b])" using rk len by auto
    fix i assume "i < length (?l[a := b])"
    then have i: "i < length ?l" by simp
    show "?l[a := b] ! i < length (?l[a := b])" using forestD(1) [OF f i] b i by (cases "i = a") auto
    assume "?l[a := b] ! i \<noteq> i"
    then show "rk ! i < rk ! (?l[a := b] ! i)"
      using rk i a b len ab(3) forestD [OF f i] by (auto simp: nth_list_update)
  qed
  have root: "\<forall>j < length ?l. root_of (?l[a := b]) j = (if root_of ?l j = a then b else root_of ?l j)"
    using root_of_link [OF f' a b ab(3)] by blast
  then have root': "\<forall>j < uf_size uf. uf_root uf' j = (if uf_root uf j = a then b else uf_root uf j)"
    by (simp add: uf' uf_root_def)
  have roots: "uf_roots uf' = uf_roots uf - {a}"
    using a b ab(3) by (auto simp: uf_roots_def uf' nth_list_update)
  have size: "uf_size uf' = uf_size uf" by (simp add: uf')
  have cls: "uf_class uf' r = uf_class uf r" if "r \<noteq> a" "r \<noteq> b" for r
    using root' size that by (auto simp: uf_class_def)
  have clsb: "uf_class uf' b = uf_class uf a \<union> uf_class uf b"
  proof (rule set_eqI)
    fix j
    show "j \<in> uf_class uf' b \<longleftrightarrow> j \<in> uf_class uf a \<union> uf_class uf b"
    proof (cases "j < uf_size uf")
      case True
      then have "uf_root uf' j = (if uf_root uf j = a then b else uf_root uf j)" using root' by blast
      with True show ?thesis
        by (cases "uf_root uf j = a") (simp_all add: uf_class_def size)
    qed (simp add: uf_class_def size)
  qed
  have disj: "uf_class uf a \<inter> uf_class uf b = {}" using ab(3) by (auto simp: uf_class_def)
  have big: "2 ^ (uf_rank uf ! r) \<le> card (uf_class uf r)" if "r \<in> uf_roots uf" for r
    using wf that by (simp add: uf_wf_def)
  have "2 ^ (rk ! r) \<le> card (uf_class uf' r)" if r: "r \<in> uf_roots uf'" for r
  proof (cases "r = b")
    case True
    have "card (uf_class uf' b) = card (uf_class uf a) + card (uf_class uf b)"
      using disj by (simp add: clsb card_Un_disjoint)
    with True rk big [OF ab(1)] big [OF ab(2)] b len show ?thesis by auto
  next
    case False
    with r roots have r': "r \<noteq> a" "r \<in> uf_roots uf" by auto
    have "rk ! r = uf_rank uf ! r" using rk False by (elim disjE conjE) simp_all
    with big [OF r'(2)] cls [OF r'(1) False] show ?thesis by simp
  qed
  moreover have "uf_count uf - 1 = int (card (uf_roots uf - {a}))"
  proof -
    have "card (uf_roots uf) = Suc (card (uf_roots uf - {a}))"
      using card_Suc_Diff1 [OF uf_roots_finite(1) ab(1)] by simp
    then show ?thesis using wf by (simp add: uf_wf_def)
  qed
  ultimately have "uf_wf uf'"
    using f' roots by (simp add: uf_wf_def uf')
  with size root' roots show ?thesis by blast
qed

lemma uf_Union_wf:
  assumes wf: "uf_wf uf" and p: "0 \<le> p" "p < int (uf_size uf)" and q: "0 \<le> q" "q < int (uf_size uf)"
  shows "\<exists>uf'. uf_Union uf p q = Some uf' \<and> uf_wf uf' \<and> uf_size uf' = uf_size uf
    \<and> (\<forall>i < uf_size uf. \<forall>j < uf_size uf. uf_root uf' i = uf_root uf' j \<longleftrightarrow>
         uf_root uf i = uf_root uf j
         \<or> {uf_root uf i, uf_root uf j} = {uf_root uf (nat p), uf_root uf (nat q)})
    \<and> uf_count uf' = uf_count uf - (if uf_root uf (nat p) = uf_root uf (nat q) then 0 else 1)"
proof -
  from uf_find_wf [OF wf p] obtain u1 where
    u1: "uf_findWithoutLocking uf p = Some (uf_root uf (nat p), u1)" "uf_wf u1" "uf_alike uf u1" by blast
  then have q1: "0 \<le> q" "q < int (uf_size u1)" using q by (auto simp: uf_alike_def)
  from uf_find_wf [OF u1(2) q1] obtain u2 where
    u2: "uf_findWithoutLocking u1 q = Some (uf_root u1 (nat q), u2)" "uf_wf u2" "uf_alike u1 u2" by blast
  let ?p = "uf_root uf (nat p)" and ?q = "uf_root uf (nat q)"
  have rq: "uf_root u1 (nat q) = ?q" using u1(3) q by (auto simp: uf_alike_def)
  have alike: "uf_alike uf u2" using u1(3) u2(3) by (rule uf_alike_trans)
  then have root: "\<forall>j < uf_size uf. uf_root u2 j = uf_root uf j" and size: "uf_size u2 = uf_size uf"
    and count: "uf_count u2 = uf_count uf" and roots: "uf_roots u2 = uf_roots uf"
    by (auto simp: uf_alike_def)
  show ?thesis
  proof (cases "?p = ?q")
    case True
    then have "uf_Union uf p q = Some u2" using u1(1) u2(1) rq by (simp add: uf_Union_def)
    with True root size count u2(2) show ?thesis by auto
  next
    case False
    have pq: "?p \<in> uf_roots u2" "?q \<in> uf_roots u2"
      using uf_root_bound [OF wf] p q roots by auto
    note link = uf_link [OF u2(2)]
    have "\<exists>u3 a b. uf_Union uf p q = Some u3 \<and> {a, b} = {?p, ?q} \<and> a \<noteq> b
      \<and> uf_wf u3 \<and> uf_size u3 = uf_size u2
      \<and> (\<forall>j < uf_size u2. uf_root u3 j = (if uf_root u2 j = a then b else uf_root u2 j))
      \<and> uf_count u3 = uf_count u2 - 1"
    proof -
      consider (lt) "uf_rank u2 ! ?p < uf_rank u2 ! ?q" | (gt) "uf_rank u2 ! ?p > uf_rank u2 ! ?q"
        | (eq) "uf_rank u2 ! ?p = uf_rank u2 ! ?q" by linarith
      then show ?thesis
      proof cases
        case lt
        let ?u = "\<lparr>uf_parent = (uf_parent u2)[?p := ?q], uf_rank = uf_rank u2, uf_count = uf_count u2 - 1\<rparr>"
        have "uf_Union uf p q = Some ?u"
          using u1(1) u2(1) rq False lt by (cases u2) (simp add: uf_Union_def)
        with link [OF pq False refl] lt False show ?thesis
          by (intro exI [of _ ?u] exI [of _ ?p] exI [of _ ?q]) simp
      next
        case gt
        let ?u = "\<lparr>uf_parent = (uf_parent u2)[?q := ?p], uf_rank = uf_rank u2, uf_count = uf_count u2 - 1\<rparr>"
        have "uf_Union uf p q = Some ?u"
          using u1(1) u2(1) rq False gt by (cases u2) (simp add: uf_Union_def)
        with link [OF pq(2,1) False [symmetric] refl] gt False show ?thesis
          by (intro exI [of _ ?u] exI [of _ ?q] exI [of _ ?p]) (simp add: insert_commute)
      next
        case eq
        let ?u = "\<lparr>uf_parent = (uf_parent u2)[?q := ?p],
          uf_rank = (uf_rank u2)[?p := uf_rank u2 ! ?p + 1], uf_count = uf_count u2 - 1\<rparr>"
        have "uf_Union uf p q = Some ?u"
          using u1(1) u2(1) rq False eq by (cases u2) (simp add: uf_Union_def)
        with link [OF pq(2,1) False [symmetric] refl] eq False show ?thesis
          by (intro exI [of _ ?u] exI [of _ ?q] exI [of _ ?p]) (simp add: insert_commute)
      qed
    qed
    then obtain u3 a b where u3: "uf_Union uf p q = Some u3" "{a, b} = {?p, ?q}" "a \<noteq> b"
      "uf_wf u3" "uf_size u3 = uf_size u2"
      "\<forall>j < uf_size u2. uf_root u3 j = (if uf_root u2 j = a then b else uf_root u2 j)"
      "uf_count u3 = uf_count u2 - 1" by blast
    then have r3: "\<And>j. j < uf_size uf \<Longrightarrow> uf_root u3 j = (if uf_root uf j = a then b else uf_root uf j)"
      using root size by simp
    have "uf_root u3 i = uf_root u3 j \<longleftrightarrow>
        uf_root uf i = uf_root uf j \<or> {uf_root uf i, uf_root uf j} = {?p, ?q}"
      if ij: "i < uf_size uf" "j < uf_size uf" for i j
      unfolding r3 [OF ij(1)] r3 [OF ij(2)] u3(2) [symmetric]
      using u3(3) by (auto simp: doubleton_eq_iff)
    moreover have "uf_count u3 = uf_count uf - 1" "uf_size u3 = uf_size uf"
      using u3(5,7) count size by simp_all
    ultimately show ?thesis using u3(1,4) False by simp
  qed
qed

section \<open>Sequences of unions\<close>

fun uf_unions :: "union_find \<Rightarrow> (nat \<times> nat) list \<Rightarrow> union_find option" where
  "uf_unions uf [] = Some uf"
| "uf_unions uf ((p, q) # ps) = do { uf' \<leftarrow> uf_Union uf (int p) (int q); uf_unions uf' ps }"

text \<open>The least equivalence relation that contains the given pairs.\<close>

definition joined :: "(nat \<times> nat) set \<Rightarrow> (nat \<times> nat) set" where
  "joined R = (R \<union> R\<inverse>)\<^sup>*"

lemma joined_sym: "(x, y) \<in> joined R \<Longrightarrow> (y, x) \<in> joined R"
  unfolding joined_def by (rule symD [OF sym_rtrancl]) (auto simp: sym_def)

lemma joined_refl [simp]: "(x, x) \<in> joined R"
  by (simp add: joined_def)

lemma joined_trans: "(x, y) \<in> joined R \<Longrightarrow> (y, z) \<in> joined R \<Longrightarrow> (x, z) \<in> joined R"
  unfolding joined_def by (rule rtrancl_trans)

lemma joined_insert:
  "(x, y) \<in> joined (insert (a, b) R) \<longleftrightarrow> (x, y) \<in> joined R
     \<or> (x, a) \<in> joined R \<and> (b, y) \<in> joined R \<or> (x, b) \<in> joined R \<and> (a, y) \<in> joined R"
proof -
  have "insert (a, b) R \<union> (insert (a, b) R)\<inverse> = insert (a, b) (insert (b, a) (R \<union> R\<inverse>))" by auto
  then have "joined (insert (a, b) R) = (insert (a, b) (insert (b, a) (R \<union> R\<inverse>)))\<^sup>*"
    by (simp add: joined_def)
  then show ?thesis
    using joined_trans [of x a R y] joined_trans [of x b R y]
    by (simp add: rtrancl_insert joined_def [symmetric]) blast
qed

text \<open>Classes and roots correspond one to one.\<close>

definition uf_partition :: "union_find \<Rightarrow> (nat \<times> nat) set \<Rightarrow> bool" where
  "uf_partition uf R \<longleftrightarrow> (\<forall>i < uf_size uf. \<forall>j < uf_size uf.
     uf_root uf i = uf_root uf j \<longleftrightarrow> (i, j) \<in> joined R)"

lemma NewUnionFind_wf: "uf_wf (NewUnionFind n) \<and> uf_partition (NewUnionFind n) {}"
proof -
  have "uf_roots (NewUnionFind n) = {..<n}" by (auto simp: uf_roots_def NewUnionFind_def)
  moreover have "forest [0..<n] (replicate n 0)" by (simp add: forest_def)
  moreover have "uf_class (NewUnionFind n) r = {r}" if "r < n" for r
    using that by (auto simp: uf_class_def uf_root_def NewUnionFind_def)
  ultimately show ?thesis
    by (auto simp: uf_wf_def uf_partition_def uf_root_def NewUnionFind_def joined_def)
qed

lemma uf_Union_partition:
  assumes wf: "uf_wf uf" and part: "uf_partition uf R" and p: "p < uf_size uf" and q: "q < uf_size uf"
  shows "\<exists>uf'. uf_Union uf (int p) (int q) = Some uf' \<and> uf_wf uf' \<and> uf_size uf' = uf_size uf
    \<and> uf_partition uf' (insert (p, q) R)"
proof -
  from uf_Union_wf [OF wf, of "int p" "int q"] p q obtain uf' where uf':
    "uf_Union uf (int p) (int q) = Some uf'" "uf_wf uf'" "uf_size uf' = uf_size uf"
    "\<forall>i < uf_size uf. \<forall>j < uf_size uf. uf_root uf' i = uf_root uf' j \<longleftrightarrow>
         uf_root uf i = uf_root uf j \<or> {uf_root uf i, uf_root uf j} = {uf_root uf p, uf_root uf q}"
    by auto
  have "uf_root uf' i = uf_root uf' j \<longleftrightarrow> (i, j) \<in> joined (insert (p, q) R)"
    if ij: "i < uf_size uf" "j < uf_size uf" for i j
  proof -
    have same: "uf_root uf x = uf_root uf y \<longleftrightarrow> (x, y) \<in> joined R"
      if "x < uf_size uf" "y < uf_size uf" for x y
      using part that by (simp add: uf_partition_def)
    have "uf_root uf' i = uf_root uf' j \<longleftrightarrow> uf_root uf i = uf_root uf j
        \<or> uf_root uf i = uf_root uf p \<and> uf_root uf q = uf_root uf j
        \<or> uf_root uf i = uf_root uf q \<and> uf_root uf p = uf_root uf j"
      using uf'(4) ij by (simp add: doubleton_eq_iff) metis
    then show ?thesis
      by (simp add: joined_insert same [OF ij] same [OF ij(1) p] same [OF q ij(2)]
        same [OF ij(1) q] same [OF p ij(2)])
  qed
  then have "uf_partition uf' (insert (p, q) R)" by (simp add: uf_partition_def uf'(3))
  with uf' show ?thesis by blast
qed

lemma uf_unions_partition:
  assumes "uf_wf uf" and "uf_partition uf R" and "\<forall>(p, q) \<in> set ps. p < uf_size uf \<and> q < uf_size uf"
  shows "\<exists>uf'. uf_unions uf ps = Some uf' \<and> uf_wf uf' \<and> uf_size uf' = uf_size uf
    \<and> uf_partition uf' (set ps \<union> R)"
  using assms
proof (induction ps arbitrary: uf R)
  case Nil
  then show ?case by simp
next
  case (Cons x ps)
  obtain p q where x: "x = (p, q)" by (cases x)
  with Cons.prems(3) have pq: "p < uf_size uf" "q < uf_size uf" by auto
  from uf_Union_partition [OF Cons.prems(1,2) pq] obtain u where u:
    "uf_Union uf (int p) (int q) = Some u" "uf_wf u" "uf_size u = uf_size uf"
    "uf_partition u (insert (p, q) R)" by blast
  have "\<forall>(p, q) \<in> set ps. p < uf_size u \<and> q < uf_size u" using Cons.prems(3) u(3) by simp
  from Cons.IH [OF u(2,4) this] show ?case by (simp add: x u(1,3))
qed

lemma uf_Connected_roots:
  assumes "uf_wf uf" and "i < uf_size uf" and "j < uf_size uf"
  shows "\<exists>uf'. uf_Connected uf (int i) (int j) = Some (uf_root uf i = uf_root uf j, uf')
    \<and> uf_wf uf' \<and> uf_alike uf uf'"
proof -
  from uf_find_wf [OF assms(1), of "int i"] assms(2) obtain u1 where
    u1: "uf_findWithoutLocking uf (int i) = Some (uf_root uf i, u1)" "uf_wf u1" "uf_alike uf u1" by auto
  have j: "j < uf_size u1" and rj: "uf_root u1 j = uf_root uf j"
    using u1(3) assms(3) by (auto simp: uf_alike_def)
  from uf_find_wf [OF u1(2), of "int j"] j obtain u2 where
    u2: "uf_findWithoutLocking u1 (int j) = Some (uf_root u1 j, u2)" "uf_wf u2" "uf_alike u1 u2" by auto
  from u1(3) u2(3) have "uf_alike uf u2" by (rule uf_alike_trans)
  then show ?thesis using u1(1) u2(1,2) rj by (simp add: uf_Connected_def)
qed

lemma uf_roots_card:
  assumes wf: "uf_wf uf" and part: "uf_partition uf R"
  shows "card (uf_roots uf)
    = card ((\<lambda>i. {j. j < uf_size uf \<and> (i, j) \<in> joined R}) ` {..<uf_size uf})" (is "_ = card (?c ` _)")
proof -
  have cls: "?c i = uf_class uf (uf_root uf i)" if "i < uf_size uf" for i
  proof (rule set_eqI)
    fix j
    show "j \<in> ?c i \<longleftrightarrow> j \<in> uf_class uf (uf_root uf i)"
      using part that by (auto simp: uf_partition_def uf_class_def intro: joined_sym)
  qed
  have roots: "uf_root uf ` {..<uf_size uf} = uf_roots uf"
  proof (rule equalityI)
    show "uf_root uf ` {..<uf_size uf} \<subseteq> uf_roots uf" using uf_root_bound [OF wf] by auto
    show "uf_roots uf \<subseteq> uf_root uf ` {..<uf_size uf}"
    proof
      fix r assume r: "r \<in> uf_roots uf"
      then show "r \<in> uf_root uf ` {..<uf_size uf}"
        using uf_root_fix [OF r, symmetric] by (intro image_eqI) (auto simp: uf_roots_def)
    qed
  qed
  have "?c ` {..<uf_size uf} = uf_class uf ` uf_root uf ` {..<uf_size uf}"
    unfolding image_image by (rule image_cong) (auto simp: cls)
  also have "\<dots> = uf_class uf ` uf_roots uf" by (simp only: roots)
  finally have "card (?c ` {..<uf_size uf}) = card (uf_class uf ` uf_roots uf)" by simp
  also have "\<dots> = card (uf_roots uf)"
  proof (rule card_image, rule inj_onI)
    fix r s assume r: "r \<in> uf_roots uf" "s \<in> uf_roots uf" "uf_class uf r = uf_class uf s"
    have "r \<in> uf_class uf r" using r(1) uf_root_fix [OF r(1)] by (simp add: uf_class_def uf_roots_def)
    with r(3) have "r \<in> uf_class uf s" by simp
    with uf_root_fix [OF r(1)] show "r = s" by (simp add: uf_class_def)
  qed
  finally show ?thesis by simp
qed

text \<open>C18: after any sequence of unions on \<open>n\<close> elements, \<open>Connected p q\<close> answers exactly whether
  \<open>p\<close> and \<open>q\<close> are related by the least equivalence that contains the united pairs.\<close>

theorem UnionFind_decides_equivalence:
  assumes "\<forall>(a, b) \<in> set ps. a < n \<and> b < n" and "p < n" and "q < n"
  shows "\<exists>uf uf'. uf_unions (NewUnionFind n) ps = Some uf
    \<and> uf_Connected uf (int p) (int q) = Some ((p, q) \<in> joined (set ps), uf')"
proof -
  have size: "uf_size (NewUnionFind n) = n" by (simp add: NewUnionFind_def)
  from uf_unions_partition [of "NewUnionFind n" "{}" ps] NewUnionFind_wf [of n] assms(1)
  obtain uf where uf: "uf_unions (NewUnionFind n) ps = Some uf" "uf_wf uf" "uf_size uf = n"
    "uf_partition uf (set ps)" by (auto simp: size)
  then have "uf_root uf p = uf_root uf q \<longleftrightarrow> (p, q) \<in> joined (set ps)"
    using assms(2,3) by (simp add: uf_partition_def)
  with uf uf_Connected_roots [OF uf(2), of p q] assms(2,3) show ?thesis by auto
qed

theorem UnionFind_decides_equivalence_witness:
  "\<exists>uf uf'. uf_unions (NewUnionFind 4) [(0, 1), (1, 2)] = Some uf
    \<and> uf_Connected uf 0 2 = Some ((0, 2) \<in> joined {(0, 1), (1, 2)}, uf')"
  using UnionFind_decides_equivalence [of "[(0, 1), (1, 2)]" 4 0 2] by simp

text \<open>C28: \<open>Count\<close> is the number of equivalence classes of the united pairs, and the rank of every
  element stays logarithmic in the number of elements, so does the length of every path.\<close>

theorem UnionFind_count_and_rank:
  assumes "\<forall>(a, b) \<in> set ps. a < n \<and> b < n"
  shows "\<exists>uf. uf_unions (NewUnionFind n) ps = Some uf
    \<and> uf_Count uf = int (card ((\<lambda>i. {j. j < n \<and> (i, j) \<in> joined (set ps)}) ` {..<n}))
    \<and> (\<forall>i < n. 2 ^ (uf_rank uf ! i) \<le> n)"
proof -
  have size: "uf_size (NewUnionFind n) = n" by (simp add: NewUnionFind_def)
  from uf_unions_partition [of "NewUnionFind n" "{}" ps] NewUnionFind_wf [of n] assms(1)
  obtain uf where uf: "uf_unions (NewUnionFind n) ps = Some uf" "uf_wf uf" "uf_size uf = n"
    "uf_partition uf (set ps)" by (auto simp: size)
  have "2 ^ (uf_rank uf ! i) \<le> n" if i: "i < n" for i
  proof -
    have f: "forest (uf_parent uf) (uf_rank uf)" using uf(2) by (simp add: uf_wf_def)
    let ?r = "uf_root uf i"
    have "uf_rank uf ! i \<le> uf_rank uf ! ?r"
      using root_of_props [OF f, of i] i uf(3) by (simp add: uf_root_def)
    then have "2 ^ (uf_rank uf ! i) \<le> (2 :: nat) ^ (uf_rank uf ! ?r)" by simp
    also have "\<dots> \<le> card (uf_class uf ?r)"
      using uf(2) uf_root_bound [OF uf(2), of i] i uf(3) by (simp add: uf_wf_def)
    also have "\<dots> \<le> card {..<n}"
      by (rule card_mono) (use uf(3) in \<open>auto simp: uf_class_def\<close>)
    finally show ?thesis by simp
  qed
  with uf uf_roots_card [OF uf(2,4)] show ?thesis by (simp add: uf_Count_def uf_wf_def)
qed

theorem UnionFind_count_and_rank_witness:
  "\<exists>uf. uf_unions (NewUnionFind 4) [(0, 1), (1, 2)] = Some uf
    \<and> uf_Count uf = int (card ((\<lambda>i. {j. j < 4 \<and> (i, j) \<in> joined (set [(0, 1), (1, 2)])}) ` {..<4}))
    \<and> (\<forall>i < 4. 2 ^ (uf_rank uf ! i) \<le> (4 :: nat))"
  using UnionFind_count_and_rank [of "[(0, 1), (1, 2)]" 4] by simp

text \<open>\<open>Connected\<close>, which holds only the read lock, writes to the parent slice: two concurrent
  calls race.\<close>

theorem UnionFind_Connected_writes:
  "\<exists>uf uf'. uf_unions (NewUnionFind 4) [(0, 1), (2, 3), (0, 2)] = Some uf
    \<and> uf_Connected uf 3 0 = Some (True, uf') \<and> uf_parent uf' \<noteq> uf_parent uf"
  by (simp add: uf_Union_def uf_Connected_def uf_findWithoutLocking_def NewUnionFind_def
    uf_climb.simps uf_compress.simps numeral_2_eq_2 numeral_3_eq_3 upt_rec)

end
