(* ===== verification/GoLists.thy ===== *)
theory GoLists
  imports Prelude "HOL-Library.AList"
begin

text \<open>
  The standard library's \<open>container/list\<close> as the caches use it. A list is the sequence of its
  elements, each an address with its value; an address is never used twice. \<open>MoveToFront\<close> and
  \<open>Remove\<close> of an element that is not in the list change nothing, as in the library.
\<close>

type_synonym 'a golist = "(ptr \<times> 'a) list"

definition gl_PushFront :: "'a golist \<Rightarrow> ptr \<Rightarrow> 'a \<Rightarrow> 'a golist" where
  "gl_PushFront l e x = (e, x) # l"

definition gl_PushBack :: "'a golist \<Rightarrow> ptr \<Rightarrow> 'a \<Rightarrow> 'a golist" where
  "gl_PushBack l e x = l @ [(e, x)]"

definition gl_Remove :: "'a golist \<Rightarrow> ptr \<Rightarrow> 'a golist" where
  "gl_Remove l e = filter (\<lambda>(e', x). e' \<noteq> e) l"

definition gl_MoveToFront :: "'a golist \<Rightarrow> ptr \<Rightarrow> 'a golist" where
  "gl_MoveToFront l e = (case map_of l e of None \<Rightarrow> l | Some x \<Rightarrow> (e, x) # gl_Remove l e)"

definition gl_Back :: "'a golist \<Rightarrow> (ptr \<times> 'a) option" where
  "gl_Back l = (if l = [] then None else Some (last l))"

definition gl_Front :: "'a golist \<Rightarrow> (ptr \<times> 'a) option" where
  "gl_Front l = (case l of [] \<Rightarrow> None | x # _ \<Rightarrow> Some x)"

text \<open>Assigning to \<open>e.Value\<close>.\<close>

definition gl_SetValue :: "'a golist \<Rightarrow> ptr \<Rightarrow> 'a \<Rightarrow> 'a golist" where
  "gl_SetValue l e x = map (\<lambda>(e', y). if e' = e then (e, x) else (e', y)) l"

lemma gl_Remove_absent [simp]: "e \<notin> fst ` set l \<Longrightarrow> gl_Remove l e = l"
  by (induction l) (auto simp: gl_Remove_def)

lemma gl_Remove_middle:
  "e \<notin> fst ` set us \<Longrightarrow> e \<notin> fst ` set vs \<Longrightarrow> gl_Remove (us @ (e, x) # vs) e = us @ vs"
  using gl_Remove_absent [of e us] gl_Remove_absent [of e vs] by (simp add: gl_Remove_def)

lemma gl_SetValue_absent [simp]: "e \<notin> fst ` set l \<Longrightarrow> gl_SetValue l e x = l"
  by (induction l) (auto simp: gl_SetValue_def)

lemma map_of_skip [simp]: "e \<notin> fst ` set us \<Longrightarrow> (m ++ map_of us) e = m e"
  by (simp add: map_add_def map_of_eq_None_iff [THEN iffD2])

text \<open>A new key goes to the end of an association list.\<close>

lemma update_absent: "k \<notin> fst ` set ys \<Longrightarrow> AList.update k e ys = ys @ [(k, e)]"
  by (induction ys) auto

end
