(* ===== verification/Lru.thy ===== *)
theory Lru
  imports GoLists Interfaces
begin

text \<open>
  \<open>algo/lru.go\<close>: the least-recently-used cache, a doubly linked list of entries, the most recent
  first, and a map from each key to its list element. The specification is an association list in
  order of recency.
\<close>

record ('k, 'v) lru =
  lru_size :: int
  lru_list :: "('k \<times> 'v) golist"
  lru_items :: "'k \<rightharpoonup> ptr"
  lru_fresh :: ptr

text \<open>\<open>ErrInvalidSize\<close> is \<open>None\<close>.\<close>

definition NewLRU :: "int \<Rightarrow> ('k, 'v) lru option" where
  "NewLRU sz =
     (if sz \<le> 0 then None
      else Some \<lparr>lru_size = sz, lru_list = [], lru_items = Map.empty, lru_fresh = 0\<rparr>)"

definition NewLRUNoError :: "int \<Rightarrow> ('k, 'v) lru" where
  "NewLRUNoError sz =
     (let sz = (if sz \<le> 0 then 1 else sz)
      in \<lparr>lru_size = sz, lru_list = [], lru_items = Map.empty, lru_fresh = 0\<rparr>)"

definition lru_removeElement :: "('k, 'v) lru \<Rightarrow> ptr \<Rightarrow> (('k \<times> 'v) \<times> ('k, 'v) lru) option" where
  "lru_removeElement c e =
     do { kv \<leftarrow> map_of (lru_list c) e;
          Some (kv, c\<lparr>lru_list := gl_Remove (lru_list c) e,
                     lru_items := (lru_items c)(fst kv := None)\<rparr>) }"

definition lru_removeOldest :: "('k, 'v) lru \<Rightarrow> (('k \<times> 'v) option \<times> ('k, 'v) lru) option" where
  "lru_removeOldest c =
     (case gl_Back (lru_list c) of
        Some (e, _) \<Rightarrow> do { (kv, c) \<leftarrow> lru_removeElement c e; Some (Some kv, c) }
      | None \<Rightarrow> Some (None, c))"

definition lru_Add :: "('k, 'v) lru \<Rightarrow> 'k \<Rightarrow> 'v \<Rightarrow> (bool \<times> ('k, 'v) lru) option" where
  "lru_Add c key val =
     (case lru_items c key of
        Some e \<Rightarrow>
          Some (False, c\<lparr>lru_list := gl_SetValue (gl_MoveToFront (lru_list c) e) e (key, val)\<rparr>)
      | None \<Rightarrow>
          let c = c\<lparr>lru_list := gl_PushFront (lru_list c) (lru_fresh c) (key, val),
                    lru_items := (lru_items c)(key \<mapsto> lru_fresh c),
                    lru_fresh := lru_fresh c + 1\<rparr>;
              evict = int (length (lru_list c)) > lru_size c
          in if evict then do { (_, c) \<leftarrow> lru_removeOldest c; Some (evict, c) }
             else Some (evict, c))"

definition lru_Get :: "('k, 'v) lru \<Rightarrow> 'k \<Rightarrow> ('v option \<times> ('k, 'v) lru) option" where
  "lru_Get c key =
     (case lru_items c key of
        Some e \<Rightarrow>
          do { kv \<leftarrow> map_of (lru_list c) e;
               Some (Some (snd kv), c\<lparr>lru_list := gl_MoveToFront (lru_list c) e\<rparr>) }
      | None \<Rightarrow> Some (None, c))"

definition lru_GetOldest :: "('k, 'v) lru \<Rightarrow> ('k \<times> 'v) option" where
  "lru_GetOldest c = map_option snd (gl_Back (lru_list c))"

definition lru_Contains :: "('k, 'v) lru \<Rightarrow> 'k \<Rightarrow> bool" where
  "lru_Contains c key = (lru_items c key \<noteq> None)"

definition lru_Peek :: "('k, 'v) lru \<Rightarrow> 'k \<Rightarrow> 'v option option" where
  "lru_Peek c key =
     (case lru_items c key of
        Some e \<Rightarrow> do { kv \<leftarrow> map_of (lru_list c) e; Some (Some (snd kv)) }
      | None \<Rightarrow> Some None)"

definition lru_Remove :: "('k, 'v) lru \<Rightarrow> 'k \<Rightarrow> (bool \<times> ('k, 'v) lru) option" where
  "lru_Remove c key =
     (case lru_items c key of
        Some e \<Rightarrow> do { (_, c) \<leftarrow> lru_removeElement c e; Some (True, c) }
      | None \<Rightarrow> Some (False, c))"

definition lru_Len :: "('k, 'v) lru \<Rightarrow> int" where
  "lru_Len c = int (length (lru_list c))"

definition lru_Clear :: "('k, 'v) lru \<Rightarrow> ('k, 'v) lru" where
  "lru_Clear c = c\<lparr>lru_list := [], lru_items := Map.empty\<rparr>"

definition lru_Keys :: "('k, 'v) lru \<Rightarrow> 'k list" where
  "lru_Keys c = map (fst \<circ> snd) (rev (lru_list c))"

section \<open>The specification\<close>

datatype ('k, 'v) lru_op =
    LAdd 'k 'v | LGet 'k | LGetOldest | LContains 'k | LPeek 'k | LRemove 'k | LRemoveOldest
  | LLen | LClear | LKeys

datatype ('k, 'v) lru_out =
    OFlag bool | OValue "'v option" | OEntry "('k \<times> 'v) option" | OCount int | OKeys "'k list" | OUnit

fun lru_step :: "('k, 'v) lru \<Rightarrow> ('k, 'v) lru_op \<Rightarrow> (('k, 'v) lru_out \<times> ('k, 'v) lru) option" where
  "lru_step c (LAdd k v) = do { (b, c) \<leftarrow> lru_Add c k v; Some (OFlag b, c) }"
| "lru_step c (LGet k) = do { (v, c) \<leftarrow> lru_Get c k; Some (OValue v, c) }"
| "lru_step c LGetOldest = Some (OEntry (lru_GetOldest c), c)"
| "lru_step c (LContains k) = Some (OFlag (lru_Contains c k), c)"
| "lru_step c (LPeek k) = do { v \<leftarrow> lru_Peek c k; Some (OValue v, c) }"
| "lru_step c (LRemove k) = do { (b, c) \<leftarrow> lru_Remove c k; Some (OFlag b, c) }"
| "lru_step c LRemoveOldest = do { (kv, c) \<leftarrow> lru_removeOldest c; Some (OEntry kv, c) }"
| "lru_step c LLen = Some (OCount (lru_Len c), c)"
| "lru_step c LClear = Some (OUnit, lru_Clear c)"
| "lru_step c LKeys = Some (OKeys (lru_Keys c), c)"

definition drop_key :: "'k \<Rightarrow> ('k \<times> 'v) list \<Rightarrow> ('k \<times> 'v) list" where
  "drop_key k kvs = filter (\<lambda>kv. fst kv \<noteq> k) kvs"

fun lru_spec :: "nat \<Rightarrow> ('k \<times> 'v) list \<Rightarrow> ('k, 'v) lru_op \<Rightarrow> ('k, 'v) lru_out \<times> ('k \<times> 'v) list" where
  "lru_spec n kvs (LAdd k v) =
     (if k \<in> fst ` set kvs then (OFlag False, (k, v) # drop_key k kvs)
      else (OFlag (n \<le> length kvs), take n ((k, v) # kvs)))"
| "lru_spec n kvs (LGet k) =
     (case map_of kvs k of None \<Rightarrow> (OValue None, kvs)
      | Some v \<Rightarrow> (OValue (Some v), (k, v) # drop_key k kvs))"
| "lru_spec n kvs LGetOldest = (OEntry (last_item kvs), kvs)"
| "lru_spec n kvs (LContains k) = (OFlag (k \<in> fst ` set kvs), kvs)"
| "lru_spec n kvs (LPeek k) = (OValue (map_of kvs k), kvs)"
| "lru_spec n kvs (LRemove k) = (OFlag (k \<in> fst ` set kvs), drop_key k kvs)"
| "lru_spec n kvs LRemoveOldest = (OEntry (last_item kvs), butlast kvs)"
| "lru_spec n kvs LLen = (OCount (int (length kvs)), kvs)"
| "lru_spec n kvs LClear = (OUnit, [])"
| "lru_spec n kvs LKeys = (OKeys (map fst (rev kvs)), kvs)"

section \<open>The representation\<close>

text \<open>The map a list of entries determines.\<close>

definition key_index :: "('k \<times> 'v) golist \<Rightarrow> 'k \<Rightarrow> ptr option" where
  "key_index l = map_of (map (\<lambda>(e, k, v). (k, e)) l)"

abbreviation keys_of :: "('k \<times> 'v) golist \<Rightarrow> 'k set" where
  "keys_of l \<equiv> (\<lambda>x. fst (snd x)) ` set l"

lemma key_index_simps [simp]:
  "key_index [] = Map.empty" "key_index ((e, k, v) # l) = (key_index l)(k \<mapsto> e)"
  "key_index (us @ vs) = key_index vs ++ key_index us"
  by (simp_all add: key_index_def)

lemma key_index_None [simp]: "key_index l k = None \<longleftrightarrow> k \<notin> keys_of l"
  by (simp add: key_index_def map_of_eq_None_iff image_image case_prod_beta)

lemma key_index_Some: "key_index l k = Some e \<Longrightarrow> \<exists>v. (e, k, v) \<in> set l"
  by (induction l) (auto split: if_splits)

lemma key_index_skip [simp]: "k \<notin> keys_of us \<Longrightarrow> (m ++ key_index us) k = m k"
  by (simp add: map_add_def key_index_None [THEN iffD2])

lemma key_index_upd_skip:
  "k \<notin> keys_of us \<Longrightarrow> m(k := x) ++ key_index us = (m ++ key_index us)(k := x)"
  by (auto simp: fun_eq_iff map_add_def key_index_None [THEN iffD2] split: option.splits)

lemma key_index_del:
  "k \<notin> keys_of us \<Longrightarrow> k \<notin> keys_of vs
   \<Longrightarrow> (key_index vs ++ key_index us)(k := None) = key_index vs ++ key_index us"
  by (rule fun_upd_idem) simp

definition lru_repr :: "('k, 'v) lru \<Rightarrow> ('k \<times> 'v) list \<Rightarrow> bool" where
  "lru_repr c kvs \<longleftrightarrow> kvs = map snd (lru_list c) \<and> distinct (map (\<lambda>x. fst (snd x)) (lru_list c))
     \<and> distinct (map fst (lru_list c)) \<and> below (lru_fresh c) (map fst (lru_list c))
     \<and> lru_items c = key_index (lru_list c)"

definition lru_rel :: "nat \<Rightarrow> ('k, 'v) lru \<Rightarrow> ('k \<times> 'v) list \<Rightarrow> bool" where
  "lru_rel n c kvs \<longleftrightarrow> 0 < n \<and> lru_size c = int n \<and> length kvs \<le> n \<and> lru_repr c kvs"

lemma drop_key_absent [simp]: "k \<notin> fst ` set kvs \<Longrightarrow> drop_key k kvs = kvs"
  by (induction kvs) (auto simp: drop_key_def)

lemma drop_key_middle:
  "k \<notin> fst ` set us \<Longrightarrow> k \<notin> fst ` set vs \<Longrightarrow> drop_key k (us @ (k, v) # vs) = us @ vs"
  using drop_key_absent [of k us] drop_key_absent [of k vs] by (simp add: drop_key_def)

lemma map_of_drop_key: "map_of (drop_key k kvs) = (map_of kvs)(k := None)"
  by (induction kvs) (auto simp: drop_key_def fun_eq_iff)

lemma lru_repr_absent:
  assumes "lru_repr c kvs"
  shows "lru_items c k = None \<longleftrightarrow> k \<notin> fst ` set kvs" "map_of kvs k = None \<longleftrightarrow> k \<notin> fst ` set kvs"
  using assms by (auto simp: lru_repr_def map_of_eq_None_iff image_image)

lemma lru_repr_present:
  assumes rel: "lru_repr c kvs" and e: "lru_items c k = Some e"
  obtains us vs v where "lru_list c = us @ (e, k, v) # vs" "e \<notin> fst ` set us" "e \<notin> fst ` set vs"
    "kvs = map snd us @ (k, v) # map snd vs" "k \<notin> keys_of us" "k \<notin> keys_of vs"
proof -
  from rel e key_index_Some [of "lru_list c" k e] obtain v where "(e, k, v) \<in> set (lru_list c)"
    by (auto simp: lru_repr_def)
  then obtain us vs where l: "lru_list c = us @ (e, k, v) # vs" by (meson split_list)
  with rel show ?thesis by (intro that [of us v vs]) (auto simp: lru_repr_def)
qed

lemma lru_removeElement_repr:
  assumes rel: "lru_repr c kvs" and e: "lru_items c k = Some e"
  shows "\<exists>v c'. map_of kvs k = Some v \<and> lru_removeElement c e = Some ((k, v), c')
    \<and> lru_repr c' (drop_key k kvs) \<and> lru_size c' = lru_size c"
proof -
  from lru_repr_present [OF rel e] obtain us vs v where l:
    "lru_list c = us @ (e, k, v) # vs" "e \<notin> fst ` set us" "e \<notin> fst ` set vs"
    "kvs = map snd us @ (k, v) # map snd vs" "k \<notin> keys_of us" "k \<notin> keys_of vs" .
  have dk: "drop_key k kvs = map snd (us @ vs)" using l(4-6) by (simp add: drop_key_middle image_image)
  let ?c = "c\<lparr>lru_list := us @ vs, lru_items := (lru_items c)(k := None)\<rparr>"
  have "lru_removeElement c e = Some ((k, v), ?c)"
    using l(1-3) by (simp add: lru_removeElement_def gl_Remove_middle)
  moreover have "map_of kvs k = Some v" using l(4,5) by (simp add: image_image)
  moreover have "lru_repr ?c (drop_key k kvs)"
    unfolding dk using rel l(1,5,6) by (auto simp: lru_repr_def key_index_upd_skip key_index_del)
  moreover have "lru_size ?c = lru_size c" by simp
  ultimately show ?thesis by blast
qed

lemma lru_touch_repr:
  assumes rel: "lru_repr c kvs" and e: "lru_items c k = Some e"
  shows "\<exists>v. map_of kvs k = Some v \<and> map_of (lru_list c) e = Some (k, v)
    \<and> lru_repr (c\<lparr>lru_list := gl_MoveToFront (lru_list c) e\<rparr>) ((k, v) # drop_key k kvs)
    \<and> lru_repr (c\<lparr>lru_list := gl_SetValue (gl_MoveToFront (lru_list c) e) e (k, w)\<rparr>)
        ((k, w) # drop_key k kvs)"
proof -
  from lru_repr_present [OF rel e] obtain us vs v where l:
    "lru_list c = us @ (e, k, v) # vs" "e \<notin> fst ` set us" "e \<notin> fst ` set vs"
    "kvs = map snd us @ (k, v) # map snd vs" "k \<notin> keys_of us" "k \<notin> keys_of vs" .
  have dk: "drop_key k kvs = map snd (us @ vs)" using l(4-6) by (simp add: drop_key_middle image_image)
  have mv: "gl_MoveToFront (lru_list c) e = (e, k, v) # us @ vs"
    using l(1-3) by (simp add: gl_MoveToFront_def gl_Remove_middle)
  have e': "e \<notin> fst ` set (us @ vs)" using l(2,3) by auto
  have sv: "gl_SetValue ((e, k, v) # us @ vs) e (k, w) = (e, k, w) # us @ vs"
    using gl_SetValue_absent [OF e', of "(k, w)"] by (simp add: gl_SetValue_def)
  have rel': "lru_repr (c\<lparr>lru_list := (e, k, u) # us @ vs\<rparr>) ((k, u) # map snd (us @ vs))" for u
    using rel l(1,5,6) by (auto simp: lru_repr_def key_index_upd_skip)
  have "map_of kvs k = Some v" using l(4,5) by (simp add: image_image)
  moreover have "map_of (lru_list c) e = Some (k, v)" using l(1,2) by simp
  ultimately show ?thesis using rel' [of v] rel' [of w] by (simp add: mv sv dk)
qed

lemma lru_removeOldest_repr:
  assumes rel: "lru_repr c kvs"
  shows "\<exists>c'. lru_removeOldest c = Some (last_item kvs, c') \<and> lru_repr c' (butlast kvs)
    \<and> lru_size c' = lru_size c"
proof (cases "lru_list c = []")
  case True
  with rel show ?thesis by (auto simp: lru_removeOldest_def gl_Back_def last_item_def lru_repr_def)
next
  case False
  then obtain us e k v where l: "lru_list c = us @ [(e, k, v)]"
    by (metis append_butlast_last_id prod.collapse)
  with rel have kvs: "kvs = map snd us @ [(k, v)]" "k \<notin> keys_of us"
    by (auto simp: lru_repr_def)
  with rel l have "lru_items c k = Some e" by (simp add: lru_repr_def)
  from lru_removeElement_repr [OF rel this] obtain c' v' where
    "map_of kvs k = Some v'" "lru_removeElement c e = Some ((k, v'), c')" "lru_repr c' (drop_key k kvs)"
    "lru_size c' = lru_size c" by blast
  moreover have "drop_key k kvs = butlast kvs" using kvs drop_key_middle [of k "map snd us" "[]"]
    by (simp add: image_image)
  moreover have "map_of kvs k = Some v" using kvs by (simp add: image_image)
  ultimately show ?thesis using l kvs
    by (simp add: lru_removeOldest_def gl_Back_def last_item_def)
qed

lemma lru_push_repr:
  assumes "lru_repr c kvs" and "lru_items c k = None"
  shows "lru_repr (c\<lparr>lru_list := gl_PushFront (lru_list c) (lru_fresh c) (k, v),
    lru_items := (lru_items c)(k \<mapsto> lru_fresh c), lru_fresh := lru_fresh c + 1\<rparr>) ((k, v) # kvs)"
  using assms below_not_in [of "lru_fresh c" fst "lru_list c"]
  by (auto simp: lru_repr_def gl_PushFront_def)

lemma drop_key_length: "length (drop_key k kvs) \<le> length kvs"
  by (simp add: drop_key_def)

lemma drop_key_length_present: "k \<in> fst ` set kvs \<Longrightarrow> length (drop_key k kvs) < length kvs"
  unfolding drop_key_def by (elim imageE) (rule length_filter_less, auto)

lemma lru_repr_mem: "lru_repr c kvs \<Longrightarrow> lru_items c k = Some e \<Longrightarrow> k \<in> fst ` set kvs"
  using lru_repr_absent(1) [of c kvs k] by auto

lemma lru_Add_rel:
  assumes rel: "lru_rel n c kvs"
  shows "\<exists>c'. lru_step c (LAdd k v) = Some (fst (lru_spec n kvs (LAdd k v)), c')
    \<and> lru_rel n c' (snd (lru_spec n kvs (LAdd k v)))"
proof (cases "lru_items c k")
  case (Some e)
  have r: "lru_repr c kvs" using rel by (simp add: lru_rel_def)
  then have "k \<in> fst ` set kvs" using Some by (rule lru_repr_mem)
  with lru_touch_repr [OF r Some] drop_key_length_present [of k kvs] Some rel show ?thesis
    by (auto simp: lru_Add_def lru_rel_def)
next
  case None
  have r: "lru_repr c kvs" using rel by (simp add: lru_rel_def)
  have k: "k \<notin> fst ` set kvs" using lru_repr_absent(1) [OF r] None by blast
  let ?c = "c\<lparr>lru_list := gl_PushFront (lru_list c) (lru_fresh c) (k, v),
    lru_items := (lru_items c)(k \<mapsto> lru_fresh c), lru_fresh := lru_fresh c + 1\<rparr>"
  have r': "lru_repr ?c ((k, v) # kvs)" by (rule lru_push_repr [OF r None])
  have len: "length (lru_list ?c) = Suc (length kvs)" using r by (simp add: lru_repr_def gl_PushFront_def)
  show ?thesis
  proof (cases "n \<le> length kvs")
    case True
    with rel have n: "length kvs = n" by (simp add: lru_rel_def)
    from lru_removeOldest_repr [OF r'] obtain c' where c':
      "lru_removeOldest ?c = Some (last_item ((k, v) # kvs), c')"
      "lru_repr c' (butlast ((k, v) # kvs))" "lru_size c' = lru_size c" by auto
    have "lru_Add c k v = Some (True, c')"
      using None c'(1) n rel len by (simp add: lru_Add_def lru_rel_def)
    then show ?thesis using c'(2,3) n rel k by (simp add: lru_rel_def butlast_conv_take)
  next
    case False
    then have "lru_Add c k v = Some (False, ?c)"
      using None rel len by (simp add: lru_Add_def lru_rel_def)
    with r' k False rel show ?thesis by (simp add: lru_rel_def)
  qed
qed

interpretation lru: refinement lru_step "lru_spec n" "lru_rel n" for n
proof
  fix c :: "('k, 'v) lru" and kvs and x :: "('k, 'v) lru_op"
  assume rel: "lru_rel n c kvs"
  then have r: "lru_repr c kvs" and l: "lru_list c = [] \<longleftrightarrow> kvs = []"
    by (auto simp: lru_rel_def lru_repr_def)
  note absent = lru_repr_absent [OF r]
  show "\<exists>c'. lru_step c x = Some (fst (lru_spec n kvs x), c') \<and> lru_rel n c' (snd (lru_spec n kvs x))"
  proof (cases x)
    case (LAdd k v)
    with lru_Add_rel [OF rel] show ?thesis by blast
  next
    case (LGet k)
    show ?thesis
    proof (cases "lru_items c k")
      case None
      with absent have "map_of kvs k = None" by simp
      with None LGet rel show ?thesis by (simp add: lru_Get_def)
    next
      case (Some e)
      then have "k \<in> fst ` set kvs" by (rule lru_repr_mem [OF r])
      from lru_touch_repr [OF r Some] obtain v where "map_of kvs k = Some v"
        "map_of (lru_list c) e = Some (k, v)"
        "lru_repr (c\<lparr>lru_list := gl_MoveToFront (lru_list c) e\<rparr>) ((k, v) # drop_key k kvs)" by blast
      with LGet Some rel drop_key_length_present [OF \<open>k \<in> fst ` set kvs\<close>] show ?thesis
        by (simp add: lru_Get_def lru_rel_def)
    qed
  next
    case LGetOldest
    with rel show ?thesis
      by (auto simp: lru_rel_def lru_repr_def lru_GetOldest_def gl_Back_def last_item_def last_or_def last_map)
  next
    case (LContains k)
    with rel absent show ?thesis by (auto simp: lru_Contains_def)
  next
    case (LPeek k)
    show ?thesis
    proof (cases "lru_items c k")
      case None
      with absent have "map_of kvs k = None" by simp
      with None LPeek rel show ?thesis by (simp add: lru_Peek_def)
    next
      case (Some e)
      from lru_touch_repr [OF r Some] obtain v where "map_of kvs k = Some v"
        "map_of (lru_list c) e = Some (k, v)" by blast
      with LPeek Some rel show ?thesis by (simp add: lru_Peek_def)
    qed
  next
    case (LRemove k)
    show ?thesis
    proof (cases "lru_items c k")
      case None
      with absent have "k \<notin> fst ` set kvs" by simp
      with None LRemove rel show ?thesis by (simp add: lru_Remove_def)
    next
      case (Some e)
      then have "k \<in> fst ` set kvs" by (rule lru_repr_mem [OF r])
      with lru_removeElement_repr [OF r Some] LRemove Some rel drop_key_length [of k kvs] show ?thesis
        by (auto simp: lru_Remove_def lru_rel_def)
    qed
  next
    case LRemoveOldest
    with lru_removeOldest_repr [OF r] rel show ?thesis by (auto simp: lru_rel_def)
  next
    case LLen
    with rel show ?thesis by (auto simp: lru_Len_def lru_rel_def lru_repr_def)
  next
    case LClear
    with rel show ?thesis by (auto simp: lru_Clear_def lru_rel_def lru_repr_def)
  next
    case LKeys
    with rel show ?thesis by (auto simp: lru_Keys_def lru_rel_def lru_repr_def rev_map)
  qed
qed

lemma NewLRU_rel: "0 < n \<Longrightarrow> \<exists>c. NewLRU (int n) = Some c \<and> lru_rel n c []"
  by (simp add: NewLRU_def lru_rel_def lru_repr_def)

section \<open>Properties\<close>

text \<open>C17: on a cache of any positive size, any sequence of operations returns what the association
  list in order of recency returns; it never panics and never holds more entries than its size.\<close>

theorem LRU_refines_recency_list:
  assumes "0 < n"
  shows "\<exists>c c' rs kvs. NewLRU (int n) = Some c \<and> run_steps lru_step c ops = Some (rs, c')
    \<and> run_steps (total_step (lru_spec n)) [] ops = Some (rs, kvs)
    \<and> lru_Len c' = int (length kvs) \<and> length kvs \<le> n"
proof -
  from NewLRU_rel [OF assms] obtain c :: "('a, 'b) lru" where
    c: "NewLRU (int n) = Some c" "lru_rel n c []" by blast
  from lru.run_refines [OF c(2)] obtain c' rs kvs where
    "run_steps lru_step c ops = Some (rs, c')" "run_steps (total_step (lru_spec n)) [] ops = Some (rs, kvs)"
    "lru_rel n c' kvs" by blast
  moreover from this(3) have "lru_Len c' = int (length kvs)" "length kvs \<le> n"
    by (auto simp: lru_rel_def lru_repr_def lru_Len_def)
  ultimately show ?thesis using c(1) by blast
qed

theorem LRU_refines_recency_list_witness:
  "\<exists>c c' rs kvs. NewLRU 2 = Some c
    \<and> run_steps lru_step c [LAdd (1 :: nat) True, LAdd 2 False, LGet 1, LAdd 3 True] = Some (rs, c')
    \<and> run_steps (total_step (lru_spec 2)) [] [LAdd 1 True, LAdd 2 False, LGet 1, LAdd 3 True] = Some (rs, kvs)
    \<and> lru_Len c' = int (length kvs) \<and> length kvs \<le> 2"
  using LRU_refines_recency_list [of 2 "[LAdd (1 :: nat) True, LAdd 2 False, LGet 1, LAdd 3 True]"] by simp

text \<open>The keys in the order of their last use, the latest first.\<close>

definition recent :: "'k list \<Rightarrow> 'k list" where
  "recent ks = fold (\<lambda>k acc. k # removeAll k acc) ks []"

lemma recent_snoc: "recent (ks @ [k]) = k # removeAll k (recent ks)"
  by (simp add: recent_def)

lemma recent_distinct: "distinct (recent ks)"
  by (induction ks rule: rev_induct) (auto simp: recent_snoc distinct_removeAll, simp add: recent_def)

lemma map_fst_drop_key: "map fst (drop_key k kvs) = removeAll k (map fst kvs)"
  by (induction kvs) (auto simp: drop_key_def)

lemma take_removeAll:
  assumes "distinct xs" and "k \<in> set (take n xs)"
  shows "removeAll k (take n xs) = take (n - 1) (removeAll k xs)"
  using assms
proof (induction xs arbitrary: n)
  case Nil
  then show ?case by simp
next
  case (Cons x xs)
  then obtain m where n: "n = Suc m" by (cases n) auto
  show ?case
  proof (cases "x = k")
    case True
    with Cons.prems have k: "k \<notin> set xs" by simp
    then have "k \<notin> set (take m xs)" by (auto dest: in_set_takeD)
    with k True n show ?thesis by simp
  next
    case False
    with Cons.prems n have k: "k \<in> set (take m xs)" by auto
    then obtain l where "m = Suc l" by (cases m) auto
    with Cons.IH [OF _ k] Cons.prems(1) False n show ?thesis by simp
  qed
qed

lemma lru_spec_adds:
  assumes "0 < n"
  shows "\<exists>rs kvs. run_steps (total_step (lru_spec n)) [] (map (\<lambda>(k, v). LAdd k v) kvs0) = Some (rs, kvs)
    \<and> map fst kvs = take n (recent (map fst kvs0))"
proof (induction kvs0 rule: rev_induct)
  case Nil
  then show ?case by (simp add: recent_def)
next
  case (snoc kv kvs0)
  obtain k v where kv: "kv = (k, v)" by (cases kv)
  from snoc obtain rs kvs where IH:
    "run_steps (total_step (lru_spec n)) [] (map (\<lambda>(k, v). LAdd k v) kvs0) = Some (rs, kvs)"
    "map fst kvs = take n (recent (map fst kvs0))" by blast
  let ?r = "recent (map fst kvs0)"
  have "map fst (snd (lru_spec n kvs (LAdd k v))) = take n (k # removeAll k ?r)"
  proof (cases "k \<in> fst ` set kvs")
    case True
    then have "k \<in> set (take n ?r)" using IH(2) by (metis list.set_map)
    from take_removeAll [OF recent_distinct this] True assms show ?thesis
      by (cases n) (simp_all add: map_fst_drop_key IH(2))
  next
    case False
    then have k: "k \<notin> set (take n ?r)" using IH(2) by (metis list.set_map)
    obtain m where n: "n = Suc m" using assms by (cases n) auto
    have "take m (removeAll k ?r) = take m ?r"
    proof -
      have "?r = take n ?r @ drop n ?r" by simp
      then have "removeAll k ?r = take n ?r @ removeAll k (drop n ?r)"
        using removeAll_id [OF k] by (metis removeAll_append)
      then have "take m (removeAll k ?r) = take m (take n ?r @ removeAll k (drop n ?r))" by simp
      also have "\<dots> = take m ?r"
        by (cases "length ?r \<le> m") (simp_all add: n min_def)
      finally show ?thesis .
    qed
    moreover have "map fst (take m kvs) = take m ?r"
      using IH(2) by (simp add: take_map [symmetric] n min_def)
    ultimately show ?thesis using False n by (simp add: take_map [symmetric])
  qed
  with IH show ?case
    by (cases "lru_spec n kvs (LAdd k v)") (simp add: kv run_steps_append recent_snoc del: lru_spec.simps)
qed

text \<open>After any sequence of additions the cache holds exactly the \<open>n\<close> most recently added
  distinct keys, and \<open>Keys\<close> lists them from the least to the most recent.\<close>

theorem LRU_keeps_most_recent:
  assumes "0 < n"
  shows "\<exists>c c' rs. NewLRU (int n) = Some c
    \<and> run_steps lru_step c (map (\<lambda>(k, v). LAdd k v) kvs) = Some (rs, c')
    \<and> lru_Keys c' = rev (take n (recent (map fst kvs)))"
proof -
  from NewLRU_rel [OF assms] obtain c :: "('a, 'b) lru" where
    c: "NewLRU (int n) = Some c" "lru_rel n c []" by blast
  from lru.run_refines [OF c(2)] lru_spec_adds [OF assms, of kvs] obtain c' rs l where
    "run_steps lru_step c (map (\<lambda>(k, v). LAdd k v) kvs) = Some (rs, c')" "lru_rel n c' l"
    "map fst l = take n (recent (map fst kvs))" by force
  moreover from this(2) have "lru_Keys c' = rev (map fst l)"
    by (simp add: lru_rel_def lru_repr_def lru_Keys_def rev_map)
  ultimately show ?thesis using c(1) by auto
qed

theorem LRU_keeps_most_recent_witness:
  "\<exists>c c' rs. NewLRU 2 = Some c
    \<and> run_steps lru_step c (map (\<lambda>(k, v). LAdd k v) [(1 :: nat, True), (2, True), (1, False), (3, True)])
      = Some (rs, c') \<and> lru_Keys c' = [1, 3]"
  using LRU_keeps_most_recent [of 2 "[(1 :: nat, True), (2, True), (1, False), (3, True)]"]
  by (simp add: recent_def)

end
