(* ===== verification/Caches.thy ===== *)
theory Caches
  imports Lru
begin

text \<open>
  Package cache: \<open>cache/lru.go\<close> (the LRU cache with a time to live per entry) and
  \<open>cache/hashtable.go\<close>, the two implementations of the interface \<open>TypedCacheWithExpiration\<close>,
  with that interface as a locale. \<open>time.Now()\<close> is an argument: an operation that asks for the time
  more than once sees the same instant. An entry is never changed after it was stored, so it is
  its value with its expiration, \<open>0\<close> for none.
\<close>

section \<open>Entries\<close>

definition isExpired :: "time \<Rightarrow> 'v \<times> time \<Rightarrow> bool" where
  "isExpired now e \<longleftrightarrow> snd e > 0 \<and> now > snd e"

definition expiry :: "time \<Rightarrow> duration \<Rightarrow> time" where
  "expiry now ttl = (if ttl > 0 then now + ttl else 0)"

definition live_value :: "time \<Rightarrow> ('v \<times> time) option \<Rightarrow> 'v option" where
  "live_value now e = (case e of None \<Rightarrow> None | Some e \<Rightarrow> if isExpired now e then None else Some (fst e))"

section \<open>The LRU cache with expiration\<close>

record ('k, 'v) lru_ttl =
  lt_cache :: "('k, 'v \<times> time) lru"
  lt_expiration :: "'k \<rightharpoonup> time"

definition NewLRUCache :: "int \<Rightarrow> ('k, 'v) lru_ttl option" where
  "NewLRUCache capacity =
     do { l \<leftarrow> NewLRU capacity; Some \<lparr>lt_cache = l, lt_expiration = Map.empty\<rparr> }"

definition lt_Get :: "time \<Rightarrow> ('k, 'v) lru_ttl \<Rightarrow> 'k \<Rightarrow> ('v option \<times> ('k, 'v) lru_ttl) option" where
  "lt_Get now c key =
     do { (entry, l) \<leftarrow> lru_Get (lt_cache c) key;
          case entry of
            None \<Rightarrow> Some (None, c\<lparr>lt_cache := l\<rparr>)
          | Some e \<Rightarrow>
              if isExpired now e then do {
                (_, l) \<leftarrow> lru_Remove l key;
                Some (None, \<lparr>lt_cache = l, lt_expiration = (lt_expiration c)(key := None)\<rparr>) }
              else Some (Some (fst e), c\<lparr>lt_cache := l\<rparr>) }"

definition lt_Set :: "('k, 'v) lru_ttl \<Rightarrow> 'k \<Rightarrow> 'v \<Rightarrow> (bool \<times> ('k, 'v) lru_ttl) option" where
  "lt_Set c key val =
     do { (evicted, l) \<leftarrow> lru_Add (lt_cache c) key (val, 0);
          Some (evicted, \<lparr>lt_cache = l, lt_expiration = (lt_expiration c)(key := None)\<rparr>) }"

definition lt_SetWithTTL ::
    "time \<Rightarrow> ('k, 'v) lru_ttl \<Rightarrow> 'k \<Rightarrow> 'v \<Rightarrow> duration \<Rightarrow> (bool \<times> ('k, 'v) lru_ttl) option" where
  "lt_SetWithTTL now c key val ttl =
     (let expiration = (if ttl > 0 then now + ttl else 0) in
      do { (evicted, l) \<leftarrow> lru_Add (lt_cache c) key (val, expiration);
           Some (evicted, \<lparr>lt_cache = l, lt_expiration =
             (if expiration > 0 then (lt_expiration c)(key \<mapsto> expiration)
              else (lt_expiration c)(key := None))\<rparr>) })"

definition lt_Delete :: "('k, 'v) lru_ttl \<Rightarrow> 'k \<Rightarrow> (bool \<times> ('k, 'v) lru_ttl) option" where
  "lt_Delete c key =
     do { (removed, l) \<leftarrow> lru_Remove (lt_cache c) key;
          Some (removed, \<lparr>lt_cache = l, lt_expiration =
            (if removed then (lt_expiration c)(key := None) else lt_expiration c)\<rparr>) }"

definition lt_Len :: "('k, 'v) lru_ttl \<Rightarrow> int" where
  "lt_Len c = lru_Len (lt_cache c)"

section \<open>The hash table\<close>

text \<open>The map is an association list; its order is one of the orders in which Go may iterate.\<close>

record ('k, 'v) hashtable =
  ht_items :: "('k \<times> ('v \<times> time)) list"

definition NewHashtable :: "('k, 'v) hashtable" where
  "NewHashtable = \<lparr>ht_items = []\<rparr>"

definition NewHashtableWithCapacity :: "int \<Rightarrow> ('k, 'v) hashtable" where
  "NewHashtableWithCapacity capacity = \<lparr>ht_items = []\<rparr>"

definition ht_Get :: "time \<Rightarrow> ('k, 'v) hashtable \<Rightarrow> 'k \<Rightarrow> 'v option \<times> ('k, 'v) hashtable" where
  "ht_Get now h key =
     (case map_of (ht_items h) key of
        None \<Rightarrow> (None, h)
      | Some e \<Rightarrow>
          if isExpired now e then (None, h\<lparr>ht_items := AList.delete key (ht_items h)\<rparr>)
          else (Some (fst e), h))"

definition ht_Set :: "('k, 'v) hashtable \<Rightarrow> 'k \<Rightarrow> 'v \<Rightarrow> bool \<times> ('k, 'v) hashtable" where
  "ht_Set h key val = (True, h\<lparr>ht_items := AList.update key (val, 0) (ht_items h)\<rparr>)"

definition ht_SetWithTTL ::
    "time \<Rightarrow> ('k, 'v) hashtable \<Rightarrow> 'k \<Rightarrow> 'v \<Rightarrow> duration \<Rightarrow> bool \<times> ('k, 'v) hashtable" where
  "ht_SetWithTTL now h key val ttl =
     (let expiration = (if ttl > 0 then now + ttl else 0)
      in (False, h\<lparr>ht_items := AList.update key (val, expiration) (ht_items h)\<rparr>))"

definition ht_Delete :: "('k, 'v) hashtable \<Rightarrow> 'k \<Rightarrow> bool \<times> ('k, 'v) hashtable" where
  "ht_Delete h key =
     (if map_of (ht_items h) key \<noteq> None
      then (True, h\<lparr>ht_items := AList.delete key (ht_items h)\<rparr>) else (False, h))"

definition ht_Len :: "('k, 'v) hashtable \<Rightarrow> int" where
  "ht_Len h = int (length (ht_items h))"

definition ht_Clear :: "('k, 'v) hashtable \<Rightarrow> ('k, 'v) hashtable" where
  "ht_Clear h = h\<lparr>ht_items := []\<rparr>"

definition ht_Has :: "time \<Rightarrow> ('k, 'v) hashtable \<Rightarrow> 'k \<Rightarrow> bool \<times> ('k, 'v) hashtable" where
  "ht_Has now h key =
     (case map_of (ht_items h) key of
        None \<Rightarrow> (False, h)
      | Some e \<Rightarrow>
          if isExpired now e then (False, h\<lparr>ht_items := AList.delete key (ht_items h)\<rparr>)
          else (True, h))"

definition ht_Keys :: "time \<Rightarrow> ('k, 'v) hashtable \<Rightarrow> 'k list" where
  "ht_Keys now h = map fst (filter (\<lambda>(k, e). \<not> isExpired now e) (ht_items h))"

definition ht_Values :: "time \<Rightarrow> ('k, 'v) hashtable \<Rightarrow> 'v list" where
  "ht_Values now h = map (fst \<circ> snd) (filter (\<lambda>(k, e). \<not> isExpired now e) (ht_items h))"

text \<open>The callback works on a state of its own.\<close>

definition ht_ForEach :: "time \<Rightarrow> ('k, 'v) hashtable \<Rightarrow> ('k \<Rightarrow> 'v \<Rightarrow> 's \<Rightarrow> 's) \<Rightarrow> 's \<Rightarrow> 's" where
  "ht_ForEach now h fn s =
     fold (\<lambda>(k, e) s. if \<not> isExpired now e then fn k (fst e) s else s) (ht_items h) s"

definition ht_Clone :: "time \<Rightarrow> ('k, 'v) hashtable \<Rightarrow> ('k, 'v) hashtable" where
  "ht_Clone now h = \<lparr>ht_items =
     fold (\<lambda>(k, e) items. if \<not> isExpired now e then AList.update k (fst e, snd e) items else items)
       (ht_items h) []\<rparr>"

section \<open>The interface\<close>

datatype ('k, 'v) cache_op = CGet 'k | CSet 'k 'v | CSetTTL 'k 'v duration | CDelete 'k

datatype 'v cache_out = Hit "'v option" | Stored bool | Deleted bool

text \<open>What was written and not deleted since, expired or not.\<close>

fun written :: "('k \<rightharpoonup> 'v \<times> time) \<Rightarrow> time \<times> ('k, 'v) cache_op \<Rightarrow> ('k \<rightharpoonup> 'v \<times> time)" where
  "written m (now, CGet k) = m"
| "written m (now, CSet k v) = m(k \<mapsto> (v, 0))"
| "written m (now, CSetTTL k v ttl) = m(k \<mapsto> (v, expiry now ttl))"
| "written m (now, CDelete k) = m(k := None)"

text \<open>The contract: a cache has a content; \<open>Get\<close> returns the live value and may drop an expired
  entry; the writes store their entry and may evict others.\<close>

locale ttl_cache =
  fixes content :: "'c \<Rightarrow> 'k \<rightharpoonup> 'v \<times> time"
    and ok :: "'c \<Rightarrow> bool"
    and new :: 'c
    and step :: "'c \<Rightarrow> time \<times> ('k, 'v) cache_op \<Rightarrow> ('v cache_out \<times> 'c) option"
  assumes new: "ok new" "content new = Map.empty"
    and get: "ok c \<Longrightarrow> \<exists>c'. step c (now, CGet k) = Some (Hit (live_value now (content c k)), c') \<and> ok c'
      \<and> content c' = (if live_value now (content c k) = None then (content c)(k := None) else content c)"
    and set: "ok c \<Longrightarrow> \<exists>b c'. step c (now, CSet k v) = Some (Stored b, c') \<and> ok c'
      \<and> content c' k = Some (v, 0) \<and> content c' \<subseteq>\<^sub>m (content c)(k \<mapsto> (v, 0))"
    and set_ttl: "ok c \<Longrightarrow> \<exists>b c'. step c (now, CSetTTL k v ttl) = Some (Stored b, c') \<and> ok c'
      \<and> content c' k = Some (v, expiry now ttl) \<and> content c' \<subseteq>\<^sub>m (content c)(k \<mapsto> (v, expiry now ttl))"
    and delete: "ok c \<Longrightarrow> \<exists>c'. step c (now, CDelete k) = Some (Deleted (content c k \<noteq> None), c') \<and> ok c'
      \<and> content c' = (content c)(k := None)"
begin

lemma step_sound:
  assumes "ok c" and le: "content c \<subseteq>\<^sub>m m"
  shows "\<exists>r c'. step c x = Some (r, c') \<and> ok c' \<and> content c' \<subseteq>\<^sub>m written m x"
proof -
  obtain now op where x: "x = (now, op)" by (cases x)
  show ?thesis
  proof (cases op)
    case (CGet k)
    from get [OF assms(1), of now k] le show ?thesis
      by (auto simp: x CGet map_le_def split: if_splits)
  next
    case (CSet k v)
    from set [OF assms(1), of now k v] le show ?thesis
      by (fastforce simp: x CSet map_le_def split: if_splits)
  next
    case (CSetTTL k v ttl)
    from set_ttl [OF assms(1), of now k v ttl] le show ?thesis
      by (fastforce simp: x CSetTTL map_le_def split: if_splits)
  next
    case (CDelete k)
    from delete [OF assms(1), of now k] le show ?thesis
      by (auto simp: x CDelete map_le_def)
  qed
qed

lemma run_sound:
  assumes "ok c" and "content c \<subseteq>\<^sub>m m"
  shows "\<exists>rs c'. run_steps step c xs = Some (rs, c') \<and> ok c' \<and> content c' \<subseteq>\<^sub>m foldl written m xs"
  using assms
proof (induction xs arbitrary: c m)
  case Nil
  then show ?case by simp
next
  case (Cons x xs)
  from step_sound [OF Cons.prems, of x] obtain r c' where
    c': "step c x = Some (r, c')" "ok c'" "content c' \<subseteq>\<^sub>m written m x" by blast
  from Cons.IH [OF c'(2,3)] show ?case by (auto simp: c'(1))
qed

lemma live_value_le: "m \<subseteq>\<^sub>m m' \<Longrightarrow> live_value now (m k) = Some v \<Longrightarrow> live_value now (m' k) = Some v"
  by (auto simp: live_value_def map_le_def dom_def split: option.splits)

text \<open>A hit is never stale: it is the last value written, not deleted since and not expired.\<close>

lemma hit_is_last_write:
  "\<exists>rs c'. run_steps step new xs = Some (rs, c')
     \<and> (\<exists>h c''. step c' (now, CGet k) = Some (Hit h, c'')
          \<and> (\<forall>v. h = Some v \<longrightarrow> live_value now (foldl written Map.empty xs k) = Some v))"
proof -
  from run_sound [OF new(1), of Map.empty xs] new(2) obtain rs c' where
    c': "run_steps step new xs = Some (rs, c')" "ok c'" "content c' \<subseteq>\<^sub>m foldl written Map.empty xs" by auto
  from get [OF c'(2), of now k] live_value_le [OF c'(3)] c'(1) show ?thesis by fast
qed

end

text \<open>A cache that never evicts.\<close>

locale unbounded_ttl_cache = ttl_cache +
  assumes set_exact: "ok c \<Longrightarrow> step c (now, CSet k v) = Some (r, c') \<Longrightarrow> content c' = (content c)(k \<mapsto> (v, 0))"
    and set_ttl_exact: "ok c \<Longrightarrow> step c (now, CSetTTL k v ttl) = Some (r, c')
      \<Longrightarrow> content c' = (content c)(k \<mapsto> (v, expiry now ttl))"
begin

text \<open>From an instant on, the content and what was written have the same live entries.\<close>

definition agree :: "time \<Rightarrow> 'a \<Rightarrow> ('b \<rightharpoonup> 'c \<times> time) \<Rightarrow> bool" where
  "agree t c m \<longleftrightarrow> (\<forall>k now. t \<le> now \<longrightarrow> live_value now (content c k) = live_value now (m k))"

lemma step_exact:
  assumes "ok c" and "agree t c m" and "t \<le> now"
  shows "\<exists>r c'. step c (now, op) = Some (r, c') \<and> ok c' \<and> agree now c' (written m (now, op))"
proof (cases op)
  case (CGet k)
  from get [OF assms(1), of now k] obtain c' where c':
    "step c (now, CGet k) = Some (Hit (live_value now (content c k)), c')" "ok c'"
    "content c' = (if live_value now (content c k) = None then (content c)(k := None) else content c)" by blast
  have "agree now c' m"
    unfolding agree_def
  proof (intro allI impI)
    fix k' now' assume t: "now \<le> now'"
    have "live_value now' (content c' k') = live_value now' (content c k')"
    proof (cases "k' = k \<and> live_value now (content c k) = None")
      case True
      then have "live_value now' (content c k) = None"
        using t by (auto simp: live_value_def isExpired_def split: option.splits if_splits)
      with True show ?thesis by (simp add: c'(3) live_value_def)
    qed (auto simp: c'(3))
    also have "\<dots> = live_value now' (m k')" using assms(2,3) t by (simp add: agree_def)
    finally show "live_value now' (content c' k') = live_value now' (m k')" .
  qed
  with c' show ?thesis by (simp add: CGet)
next
  case (CSet k v)
  from set [OF assms(1), of now k v] obtain b c' where
    c': "step c (now, CSet k v) = Some (Stored b, c')" "ok c'" by blast
  with set_exact [OF assms(1) c'(1)] assms(2,3) show ?thesis by (simp add: CSet agree_def)
next
  case (CSetTTL k v ttl)
  from set_ttl [OF assms(1), of now k v ttl] obtain b c' where
    c': "step c (now, CSetTTL k v ttl) = Some (Stored b, c')" "ok c'" by blast
  with set_ttl_exact [OF assms(1) c'(1)] assms(2,3) show ?thesis by (simp add: CSetTTL agree_def)
next
  case (CDelete k)
  from delete [OF assms(1), of now k] assms(2,3) show ?thesis by (auto simp: CDelete agree_def)
qed

lemma run_exact:
  assumes "ok c" and "agree t c m" and "sorted (t # map fst xs)"
  shows "\<exists>rs c'. run_steps step c xs = Some (rs, c') \<and> ok c'
    \<and> agree (last (t # map fst xs)) c' (foldl written m xs)"
  using assms
proof (induction xs arbitrary: c m t)
  case Nil
  then show ?case by simp
next
  case (Cons x xs)
  obtain now op where x: "x = (now, op)" by (cases x)
  from Cons.prems(3) have t: "t \<le> now" "sorted (now # map fst xs)" by (auto simp: x)
  from step_exact [OF Cons.prems(1,2) t(1), of op] obtain r c' where
    c': "step c (now, op) = Some (r, c')" "ok c'" "agree now c' (written m (now, op))" by blast
  from Cons.IH [OF c'(2,3) t(2)] show ?case by (auto simp: x c'(1))
qed

lemma get_exact:
  assumes "sorted (map fst xs @ [now])"
  shows "\<exists>rs c' c''. run_steps step new xs = Some (rs, c')
    \<and> step c' (now, CGet k) = Some (Hit (live_value now (foldl written Map.empty xs k)), c'')"
proof -
  define t where "t = (if xs = [] then now else fst (hd xs))"
  have "agree t new Map.empty" by (simp add: agree_def new)
  moreover have "sorted (t # map fst xs)"
    using assms by (cases xs) (auto simp: t_def sorted_append)
  ultimately obtain rs c' where c': "run_steps step new xs = Some (rs, c')" "ok c'"
    "agree (last (t # map fst xs)) c' (foldl written Map.empty xs)"
    using run_exact [OF new(1)] by blast
  have "last (t # map fst xs) \<le> now"
    using assms by (auto simp: t_def sorted_append last_map)
  with c'(3) have "live_value now (content c' k) = live_value now (foldl written Map.empty xs k)"
    by (simp add: agree_def)
  with get [OF c'(2), of now k] c'(1) show ?thesis by auto
qed

end

section \<open>The implementations\<close>

fun ht_step ::
    "('k, 'v) hashtable \<Rightarrow> time \<times> ('k, 'v) cache_op \<Rightarrow> ('v cache_out \<times> ('k, 'v) hashtable) option" where
  "ht_step h (now, CGet k) = (case ht_Get now h k of (v, h) \<Rightarrow> Some (Hit v, h))"
| "ht_step h (now, CSet k v) = (case ht_Set h k v of (b, h) \<Rightarrow> Some (Stored b, h))"
| "ht_step h (now, CSetTTL k v ttl) = (case ht_SetWithTTL now h k v ttl of (b, h) \<Rightarrow> Some (Stored b, h))"
| "ht_step h (now, CDelete k) = (case ht_Delete h k of (b, h) \<Rightarrow> Some (Deleted b, h))"

fun lt_step ::
    "('k, 'v) lru_ttl \<Rightarrow> time \<times> ('k, 'v) cache_op \<Rightarrow> ('v cache_out \<times> ('k, 'v) lru_ttl) option" where
  "lt_step c (now, CGet k) = do { (v, c) \<leftarrow> lt_Get now c k; Some (Hit v, c) }"
| "lt_step c (now, CSet k v) = do { (b, c) \<leftarrow> lt_Set c k v; Some (Stored b, c) }"
| "lt_step c (now, CSetTTL k v ttl) = do { (b, c) \<leftarrow> lt_SetWithTTL now c k v ttl; Some (Stored b, c) }"
| "lt_step c (now, CDelete k) = do { (b, c) \<leftarrow> lt_Delete c k; Some (Deleted b, c) }"

abbreviation ht_content :: "('k, 'v) hashtable \<Rightarrow> 'k \<rightharpoonup> 'v \<times> time" where
  "ht_content h \<equiv> map_of (ht_items h)"

definition ht_wf :: "('k, 'v) hashtable \<Rightarrow> bool" where
  "ht_wf h \<longleftrightarrow> distinct (map fst (ht_items h))"

lemma live_value_None:
  "live_value now e = None \<longleftrightarrow> (case e of None \<Rightarrow> True | Some e \<Rightarrow> isExpired now e)"
  by (simp add: live_value_def split: option.splits)

lemma ht_Get_step:
  assumes "ht_wf h"
  shows "\<exists>h'. ht_Get now h k = (live_value now (ht_content h k), h') \<and> ht_wf h'
    \<and> ht_content h' = (if live_value now (ht_content h k) = None then (ht_content h)(k := None) else ht_content h)"
proof (cases "ht_content h k")
  case None
  with assms show ?thesis by (auto simp: ht_Get_def live_value_def)
next
  case (Some e)
  with assms show ?thesis
    by (auto simp: ht_Get_def live_value_def ht_wf_def delete_conv' distinct_delete)
qed

interpretation ht: ttl_cache ht_content ht_wf NewHashtable ht_step
proof
  fix h :: "('k, 'v) hashtable" and now k v ttl
  assume wf: "ht_wf h"
  show "\<exists>h'. ht_step h (now, CGet k) = Some (Hit (live_value now (ht_content h k)), h') \<and> ht_wf h'
      \<and> ht_content h' = (if live_value now (ht_content h k) = None then (ht_content h)(k := None) else ht_content h)"
    using ht_Get_step [OF wf, of now k] by auto
  show "\<exists>b h'. ht_step h (now, CSet k v) = Some (Stored b, h') \<and> ht_wf h'
      \<and> ht_content h' k = Some (v, 0) \<and> ht_content h' \<subseteq>\<^sub>m (ht_content h)(k \<mapsto> (v, 0))"
    using wf by (simp add: ht_Set_def ht_wf_def update_conv' distinct_update ex_bool_eq)
  show "\<exists>b h'. ht_step h (now, CSetTTL k v ttl) = Some (Stored b, h') \<and> ht_wf h'
      \<and> ht_content h' k = Some (v, expiry now ttl) \<and> ht_content h' \<subseteq>\<^sub>m (ht_content h)(k \<mapsto> (v, expiry now ttl))"
    using wf
    by (simp add: ht_SetWithTTL_def ht_wf_def expiry_def update_conv' distinct_update Let_def ex_bool_eq)
  show "\<exists>h'. ht_step h (now, CDelete k) = Some (Deleted (ht_content h k \<noteq> None), h') \<and> ht_wf h'
      \<and> ht_content h' = (ht_content h)(k := None)"
    using wf
    by (auto simp: ht_Delete_def ht_wf_def delete_conv' distinct_delete fun_upd_idem map_of_eq_None_iff)
qed (simp_all add: NewHashtable_def ht_wf_def)

interpretation ht: unbounded_ttl_cache ht_content ht_wf NewHashtable ht_step
  by unfold_locales
    (auto simp: ht_Set_def ht_SetWithTTL_def expiry_def update_conv')

definition lt_content :: "('k, 'v) lru_ttl \<Rightarrow> 'k \<rightharpoonup> 'v \<times> time" where
  "lt_content c k = Option.bind (lru_Peek (lt_cache c) k) (\<lambda>e. e)"

definition lt_ok :: "nat \<Rightarrow> ('k, 'v) lru_ttl \<Rightarrow> bool" where
  "lt_ok n c \<longleftrightarrow> (\<exists>kvs. lru_rel n (lt_cache c) kvs)"

lemma lt_content_rel: "lru_rel n (lt_cache c) kvs \<Longrightarrow> lt_content c = map_of kvs"
proof
  fix k
  assume "lru_rel n (lt_cache c) kvs"
  from lru.step_refines [OF this, of "LPeek k"] show "lt_content c k = map_of kvs k"
    by (auto simp: lt_content_def split: bind_splits)
qed

lemma lru_spec_Get_content: "map_of (snd (lru_spec n kvs (LGet k))) = map_of kvs"
  by (auto simp: map_of_drop_key fun_eq_iff split: option.splits)

lemma map_le_take:
  assumes "distinct (map fst kvs)"
  shows "map_of (take n kvs) \<subseteq>\<^sub>m map_of kvs"
proof -
  have "map_of kvs = map_of (drop n kvs) ++ map_of (take n kvs)"
    by (simp flip: map_of_append)
  then show ?thesis by simp
qed

lemma lru_spec_Add_content:
  assumes "0 < n" and "distinct (map fst kvs)"
  shows "map_of (snd (lru_spec n kvs (LAdd k v))) k = Some v"
    and "map_of (snd (lru_spec n kvs (LAdd k v))) \<subseteq>\<^sub>m (map_of kvs)(k \<mapsto> v)"
proof -
  obtain m where n: "n = Suc m" using assms(1) by (cases n) auto
  show "map_of (snd (lru_spec n kvs (LAdd k v))) k = Some v" by (simp add: n)
  show "map_of (snd (lru_spec n kvs (LAdd k v))) \<subseteq>\<^sub>m (map_of kvs)(k \<mapsto> v)"
  proof (cases "k \<in> fst ` set kvs")
    case True
    then show ?thesis by (simp add: map_of_drop_key map_le_def)
  next
    case False
    with assms(2) have "map_of (take n ((k, v) # kvs)) \<subseteq>\<^sub>m map_of ((k, v) # kvs)"
      by (intro map_le_take) simp
    with False show ?thesis by simp
  qed
qed

lemma lru_rel_distinct: "lru_rel n c kvs \<Longrightarrow> distinct (map fst kvs) \<and> 0 < n"
  by (auto simp: lru_rel_def lru_repr_def comp_def)

lemma lt_Add_step:
  assumes "lru_rel n (lt_cache c) kvs"
  shows "\<exists>b l kvs'. lru_Add (lt_cache c) k e = Some (b, l) \<and> lru_rel n l kvs'
    \<and> map_of kvs' k = Some e \<and> map_of kvs' \<subseteq>\<^sub>m (map_of kvs)(k \<mapsto> e)"
  using lru_Add_rel [OF assms, of k e] lru_rel_distinct [OF assms] lru_spec_Add_content [of n kvs k e]
  by (auto split: bind_splits simp del: lru_spec.simps)

lemma lt_Remove_step:
  assumes "lru_rel n l kvs"
  shows "\<exists>l'. lru_Remove l k = Some (map_of kvs k \<noteq> None, l') \<and> lru_rel n l' (drop_key k kvs)"
  using lru.step_refines [OF assms, of "LRemove k"]
  by (auto split: bind_splits simp: map_of_eq_None_iff)

lemma lt_Get_step:
  assumes "lru_rel n (lt_cache c) kvs"
  shows "\<exists>c' kvs'. lt_Get now c k = Some (live_value now (map_of kvs k), c') \<and> lru_rel n (lt_cache c') kvs'
    \<and> map_of kvs' = (if live_value now (map_of kvs k) = None then (map_of kvs)(k := None) else map_of kvs)"
proof -
  from lru.step_refines [OF assms, of "LGet k"] obtain l where
    l: "lru_Get (lt_cache c) k = Some (map_of kvs k, l)" "lru_rel n l (snd (lru_spec n kvs (LGet k)))"
    by (auto split: bind_splits option.splits)
  show ?thesis
  proof (cases "map_of kvs k")
    case None
    with l show ?thesis
      by (intro exI [of _ "c\<lparr>lt_cache := l\<rparr>"] exI [of _ kvs]) (auto simp: lt_Get_def live_value_def)
  next
    case (Some e)
    show ?thesis
    proof (cases "isExpired now e")
      case True
      from lt_Remove_step [OF l(2), of k] obtain b l' where
        "lru_Remove l k = Some (b, l')" "lru_rel n l' (drop_key k (snd (lru_spec n kvs (LGet k))))" by blast
      with l(1) Some True show ?thesis
        by (intro exI [of _ "\<lparr>lt_cache = l', lt_expiration = (lt_expiration c)(k := None)\<rparr>"]
              exI [of _ "drop_key k (snd (lru_spec n kvs (LGet k)))"])
          (simp add: lt_Get_def live_value_def map_of_drop_key lru_spec_Get_content del: lru_spec.simps)
    next
      case False
      with l Some show ?thesis
        by (intro exI [of _ "c\<lparr>lt_cache := l\<rparr>"] exI [of _ "snd (lru_spec n kvs (LGet k))"])
          (simp add: lt_Get_def live_value_def lru_spec_Get_content del: lru_spec.simps)
    qed
  qed
qed

lemma NewLRUCache_ok:
  assumes "0 < n"
  shows "\<exists>c :: ('k, 'v) lru_ttl. NewLRUCache (int n) = Some c \<and> lru_rel n (lt_cache c) []"
proof -
  from NewLRU_rel [OF assms] obtain l :: "('k, 'v \<times> time) lru" where
    "NewLRU (int n) = Some l" "lru_rel n l []" by blast
  then show ?thesis by (simp add: NewLRUCache_def)
qed

text \<open>The cache that \<open>NewLRUCache\<close> returns for the capacity \<open>n + 1\<close>.\<close>

definition new_lru_ttl :: "nat \<Rightarrow> ('k, 'v) lru_ttl" where
  "new_lru_ttl n = the (NewLRUCache (int (Suc n)))"

interpretation lt: ttl_cache lt_content "lt_ok (Suc n)" "new_lru_ttl n" lt_step for n
proof
  have new: "lru_rel (Suc n) (lt_cache (new_lru_ttl n :: ('k, 'v) lru_ttl)) []"
    using NewLRUCache_ok [of "Suc n"] unfolding new_lru_ttl_def by (metis option.sel zero_less_Suc)
  then show "lt_ok (Suc n) (new_lru_ttl n :: ('k, 'v) lru_ttl)" by (auto simp: lt_ok_def)
  from lt_content_rel [OF new] show "lt_content (new_lru_ttl n :: ('k, 'v) lru_ttl) = Map.empty" by simp
  fix c :: "('k, 'v) lru_ttl" and now k v ttl
  assume "lt_ok (Suc n) c"
  then obtain kvs where rel: "lru_rel (Suc n) (lt_cache c) kvs" by (auto simp: lt_ok_def)
  then have content: "lt_content c = map_of kvs" by (rule lt_content_rel)
  note ok = lt_ok_def lt_content_rel
  from lt_Get_step [OF rel, of now k] obtain c' kvs' where c':
    "lt_Get now c k = Some (live_value now (map_of kvs k), c')" "lru_rel (Suc n) (lt_cache c') kvs'"
    "map_of kvs' = (if live_value now (map_of kvs k) = None then (map_of kvs)(k := None) else map_of kvs)"
    by blast
  then show "\<exists>c'. lt_step c (now, CGet k) = Some (Hit (live_value now (lt_content c k)), c') \<and> lt_ok (Suc n) c'
      \<and> lt_content c' = (if live_value now (lt_content c k) = None then (lt_content c)(k := None) else lt_content c)"
    by (intro exI [of _ c']) (auto simp: content ok)
  show "\<exists>b c'. lt_step c (now, CSet k v) = Some (Stored b, c') \<and> lt_ok (Suc n) c'
      \<and> lt_content c' k = Some (v, 0) \<and> lt_content c' \<subseteq>\<^sub>m (lt_content c)(k \<mapsto> (v, 0))"
    using lt_Add_step [OF rel, of k "(v, 0)"] by (fastforce simp: lt_Set_def content ok)
  show "\<exists>b c'. lt_step c (now, CSetTTL k v ttl) = Some (Stored b, c') \<and> lt_ok (Suc n) c'
      \<and> lt_content c' k = Some (v, expiry now ttl) \<and> lt_content c' \<subseteq>\<^sub>m (lt_content c)(k \<mapsto> (v, expiry now ttl))"
    using lt_Add_step [OF rel, of k "(v, expiry now ttl)"]
    by (fastforce simp: lt_SetWithTTL_def content ok Let_def simp flip: expiry_def)
  show "\<exists>c'. lt_step c (now, CDelete k) = Some (Deleted (lt_content c k \<noteq> None), c') \<and> lt_ok (Suc n) c'
      \<and> lt_content c' = (lt_content c)(k := None)"
    using lt_Remove_step [OF rel, of k] by (auto simp: lt_Delete_def content ok map_of_drop_key)
qed

section \<open>Properties\<close>



text \<open>C30: the hash table never evicts: as long as the clock does not run backwards, a lookup returns
  exactly the last value written, not deleted since and not expired.\<close>

theorem Hashtable_get_exact:
  assumes "sorted (map fst ops @ [now])"
  shows "\<exists>rs h' h''. run_steps ht_step NewHashtable ops = Some (rs, h')
    \<and> ht_step h' (now, CGet k) = Some (Hit (live_value now (foldl written Map.empty ops k)), h'')"
  by (rule ht.get_exact [OF assms])

theorem Hashtable_get_exact_witness:
  "\<exists>rs h' h''. run_steps ht_step NewHashtable [(5, CSetTTL (1 :: nat) True 10), (6, CGet 1)] = Some (rs, h')
    \<and> ht_step h' (15, CGet 1) = Some (Hit (Some True), h'')"
  using Hashtable_get_exact [of "[(5, CSetTTL (1 :: nat) True 10), (6, CGet 1)]" 15 1]
  by (simp add: live_value_def isExpired_def expiry_def)

lemma clone_items:
  assumes "distinct (map fst xs)" and "fst ` set xs \<inter> fst ` set ys = {}"
  shows "fold (\<lambda>(k, e) items. if \<not> isExpired now e then AList.update k (fst e, snd e) items else items) xs ys
    = ys @ filter (\<lambda>(k, e). \<not> isExpired now e) xs"
  using assms
proof (induction xs arbitrary: ys)
  case Nil
  then show ?case by simp
next
  case (Cons x xs)
  obtain k e where x: "x = (k, e)" by (cases x)
  have "k \<notin> fst ` set ys" using Cons.prems(2) by (auto simp: x)
  then have "AList.update k e ys = ys @ [(k, e)]" by (rule update_absent)
  with Cons show ?case by (auto simp: x)
qed

lemma map_of_filter_live:
  "distinct (map fst xs) \<Longrightarrow> t \<le> now \<Longrightarrow>
   live_value now (map_of (filter (\<lambda>(k, e). \<not> isExpired t e) xs) k) = live_value now (map_of xs k)"
proof (induction xs)
  case Nil
  then show ?case by simp
next
  case (Cons x xs)
  have "map_of xs (fst x) = None" using Cons.prems by (simp add: map_of_eq_None_iff)
  with Cons show ?case
    by (cases x) (auto simp: live_value_def isExpired_def split: option.splits)
qed

text \<open>The views of the hash table agree with \<open>Get\<close>: \<open>Keys\<close> lists every key with a live value
  once, \<open>Values\<close> lists their values in the same order, \<open>Has\<close> answers what \<open>Get\<close> finds and leaves the
  same table, and a \<open>Clone\<close> returns now and later what the table returns.\<close>

theorem Hashtable_views:
  assumes "ht_wf h"
  shows "distinct (ht_Keys now h)
    \<and> set (ht_Keys now h) = {k. live_value now (ht_content h k) \<noteq> None}
    \<and> map (\<lambda>k. live_value now (ht_content h k)) (ht_Keys now h) = map Some (ht_Values now h)
    \<and> (\<forall>k. ht_Has now h k = (case ht_Get now h k of (v, h') \<Rightarrow> (v \<noteq> None, h')))
    \<and> (\<forall>k t. now \<le> t \<longrightarrow> live_value t (ht_content (ht_Clone now h) k) = live_value t (ht_content h k))"
proof (intro conjI allI impI)
  let ?l = "filter (\<lambda>(k, e). \<not> isExpired now e) (ht_items h)"
  have d: "distinct (map fst (ht_items h))" using assms by (simp add: ht_wf_def)
  show "distinct (ht_Keys now h)" unfolding ht_Keys_def by (rule distinct_map_filter [OF d])
  have live: "live_value now (ht_content h k) = Some (fst e)" if "(k, e) \<in> set ?l" for k e
    using that d by (auto simp: live_value_def)
  then show "map (\<lambda>k. live_value now (ht_content h k)) (ht_Keys now h) = map Some (ht_Values now h)"
    unfolding ht_Keys_def ht_Values_def map_map by (intro map_cong) auto
  show "set (ht_Keys now h) = {k. live_value now (ht_content h k) \<noteq> None}"
  proof (intro equalityI subsetI CollectI)
    fix k assume "k \<in> set (ht_Keys now h)"
    then obtain e where "(k, e) \<in> set ?l" by (auto simp: ht_Keys_def)
    from live [OF this] show "live_value now (ht_content h k) \<noteq> None" by simp
  next
    fix k assume "k \<in> {k. live_value now (ht_content h k) \<noteq> None}"
    then obtain e where "ht_content h k = Some e" "\<not> isExpired now e"
      by (auto simp: live_value_def split: option.splits if_splits)
    then have "(k, e) \<in> set ?l" by (auto dest: map_of_SomeD)
    then show "k \<in> set (ht_Keys now h)" unfolding ht_Keys_def by force
  qed
  fix k
  show "ht_Has now h k = (case ht_Get now h k of (v, h') \<Rightarrow> (v \<noteq> None, h'))"
    by (simp add: ht_Has_def ht_Get_def split: option.splits)
  fix t assume "now \<le> t"
  then show "live_value t (ht_content (ht_Clone now h) k) = live_value t (ht_content h k)"
    using clone_items [OF d, of "[]" now] map_of_filter_live [OF d] by (simp add: ht_Clone_def)
qed

theorem Hashtable_views_witness:
  "distinct (ht_Keys 7 \<lparr>ht_items = [(1 :: nat, (True, 5)), (2, (False, 9)), (3, (True, 0))]\<rparr>)
    \<and> ht_Keys 7 \<lparr>ht_items = [(1 :: nat, (True, 5)), (2, (False, 9)), (3, (True, 0))]\<rparr> = [2, 3]"
  using Hashtable_views [of "\<lparr>ht_items = [(1 :: nat, (True, 5)), (2, (False, 9)), (3, (True, 0))]\<rparr>" 7]
  by (simp add: ht_wf_def ht_Keys_def isExpired_def)

lemma lt_SetWithTTL_expiration:
  assumes "lru_rel n (lt_cache c) kvs" and "0 < ttl" and "0 < now"
  shows "\<exists>b c' kvs'. lt_SetWithTTL now c k v ttl = Some (b, c') \<and> lru_rel n (lt_cache c') kvs'
    \<and> dom (lt_expiration c') = insert k (dom (lt_expiration c))"
proof -
  from lt_Add_step [OF assms(1), of k "(v, now + ttl)"] obtain b l kvs' where
    "lru_Add (lt_cache c) k (v, now + ttl) = Some (b, l)" "lru_rel n l kvs'" by blast
  with assms(2,3) show ?thesis by (simp add: lt_SetWithTTL_def) blast
qed

text \<open>An eviction leaves the expiration of the evicted key behind: the cache of size \<open>n\<close> keeps
  one expiration for every key ever stored with a time to live, however few entries it holds.\<close>

theorem LRUCache_expiration_leak:
  assumes "0 < n" and "0 < ttl" and "0 < now"
  shows "\<exists>c rs c'. NewLRUCache (int n) = Some c
    \<and> run_steps lt_step c (map (\<lambda>k. (now, CSetTTL k v ttl)) ks) = Some (rs, c')
    \<and> lt_Len c' \<le> int n \<and> dom (lt_expiration c') = set ks"
proof -
  obtain c :: "('a, 'b) lru_ttl" where
    c: "NewLRUCache (int n) = Some c" "lru_rel n (lt_cache c) []" "lt_expiration c = Map.empty"
    using NewLRUCache_ok [OF assms(1)] by (fastforce simp: NewLRUCache_def split: bind_splits)
  have "\<exists>rs c' kvs. run_steps lt_step c (map (\<lambda>k. (now, CSetTTL k v ttl)) ks) = Some (rs, c')
    \<and> lru_rel n (lt_cache c') kvs \<and> dom (lt_expiration c') = set ks"
  proof (induction ks rule: rev_induct)
    case Nil
    with c show ?case by auto
  next
    case (snoc k ks)
    then obtain rs c' kvs where IH:
      "run_steps lt_step c (map (\<lambda>k. (now, CSetTTL k v ttl)) ks) = Some (rs, c')"
      "lru_rel n (lt_cache c') kvs" "dom (lt_expiration c') = set ks" by blast
    from lt_SetWithTTL_expiration [OF IH(2) assms(2,3), of k v] obtain b c'' kvs' where
      "lt_SetWithTTL now c' k v ttl = Some (b, c'')" "lru_rel n (lt_cache c'') kvs'"
      "dom (lt_expiration c'') = insert k (set ks)" using IH(3) by auto
    with IH(1) show ?case by (auto simp: run_steps_append)
  qed
  then obtain rs c' kvs where "run_steps lt_step c (map (\<lambda>k. (now, CSetTTL k v ttl)) ks) = Some (rs, c')"
    "lru_rel n (lt_cache c') kvs" "dom (lt_expiration c') = set ks" by blast
  moreover from this(2) have "lt_Len c' \<le> int n"
    by (auto simp: lt_Len_def lru_Len_def lru_rel_def lru_repr_def)
  ultimately show ?thesis using c(1) by blast
qed

theorem LRUCache_expiration_leak_witness:
  "\<exists>c rs c'. NewLRUCache 1 = Some c
    \<and> run_steps lt_step c (map (\<lambda>k. (5, CSetTTL k True 10)) [1 :: nat, 2, 3]) = Some (rs, c')
    \<and> lt_Len c' \<le> 1 \<and> dom (lt_expiration c') = {1, 2, 3}"
  using LRUCache_expiration_leak [of 1 10 5 True "[1 :: nat, 2, 3]"] by simp

end
