(* ===== verification/Lfu.thy ===== *)
theory Lfu
  imports Lru
begin

text \<open>
  \<open>algo/lfu.go\<close>: the least-frequently-used cache. Every frequency has a list of its entries, the
  latest use first; \<open>minFreq\<close> is meant to be the least frequency in use. The specification is one
  list of entries in order of their last use, each with its frequency; the victim is the least
  recently used among the least frequently used.

  An entry is reachable from the map under its key and from one list element; the pointer that
  the element holds is represented by the key. \<open>None\<close> is a nil dereference, and for the loop of
  \<open>Resize\<close> also a loop that never ends.
\<close>

record ('k, 'v) lfu_entry =
  le_key :: 'k
  le_value :: 'v
  le_freq :: int
  le_elem :: ptr

record ('k, 'v) lfu =
  lfu_capacity :: int
  lfu_minFreq :: int
  lfu_items :: "('k \<times> ('k, 'v) lfu_entry) list"
  lfu_freqList :: "int \<rightharpoonup> 'k golist"
  lfu_fresh :: ptr

definition NewLFU :: "int \<Rightarrow> ('k, 'v) lfu" where
  "NewLFU capacity =
     (let capacity = (if capacity < 1 then 1 else capacity)
      in \<lparr>lfu_capacity = capacity, lfu_minFreq = 0, lfu_items = [], lfu_freqList = Map.empty, lfu_fresh = 0\<rparr>)"

definition lfu_incrementFreq :: "('k, 'v) lfu \<Rightarrow> ('k, 'v) lfu_entry \<Rightarrow> ('k, 'v) lfu option" where
  "lfu_incrementFreq c entry =
     (let freq = le_freq entry in
      do { l \<leftarrow> lfu_freqList c freq;
           let l = gl_Remove l (le_elem entry);
               c = (if l = []
                    then c\<lparr>lfu_freqList := (lfu_freqList c)(freq := None),
                           lfu_minFreq := (if lfu_minFreq c = freq then lfu_minFreq c + 1 else lfu_minFreq c)\<rparr>
                    else c\<lparr>lfu_freqList := (lfu_freqList c)(freq \<mapsto> l)\<rparr>);
               newFreq = freq + 1;
               l = (case lfu_freqList c newFreq of None \<Rightarrow> [] | Some l \<Rightarrow> l);
               e = lfu_fresh c;
               entry = entry\<lparr>le_freq := newFreq, le_elem := e\<rparr>
           in Some (c\<lparr>lfu_freqList := (lfu_freqList c)(newFreq \<mapsto> gl_PushFront l e (le_key entry)),
                      lfu_items := AList.update (le_key entry) entry (lfu_items c),
                      lfu_fresh := e + 1\<rparr>) })"

definition lfu_removeEntry :: "('k, 'v) lfu \<Rightarrow> ('k, 'v) lfu_entry \<Rightarrow> ('k, 'v) lfu option" where
  "lfu_removeEntry c entry =
     do { l \<leftarrow> lfu_freqList c (le_freq entry);
          let l = gl_Remove l (le_elem entry)
          in Some (c\<lparr>lfu_freqList := (lfu_freqList c)(le_freq entry := (if l = [] then None else Some l)),
                     lfu_items := AList.delete (le_key entry) (lfu_items c)\<rparr>) }"

definition lfu_evict :: "('k, 'v) lfu \<Rightarrow> ('k, 'v) lfu option" where
  "lfu_evict c =
     (if length (lfu_items c) = 0 then Some c
      else case lfu_freqList c (lfu_minFreq c) of
          None \<Rightarrow> Some c
        | Some minList \<Rightarrow>
            (case gl_Back minList of
               None \<Rightarrow> Some c
             | Some (e, key) \<Rightarrow> do { entry \<leftarrow> map_of (lfu_items c) key; lfu_removeEntry c entry }))"

definition lfu_Get :: "('k, 'v) lfu \<Rightarrow> 'k \<Rightarrow> ('v option \<times> ('k, 'v) lfu) option" where
  "lfu_Get c key =
     (case map_of (lfu_items c) key of
        None \<Rightarrow> Some (None, c)
      | Some entry \<Rightarrow> do { c \<leftarrow> lfu_incrementFreq c entry; Some (Some (le_value entry), c) })"

definition lfu_Set :: "('k, 'v) lfu \<Rightarrow> 'k \<Rightarrow> 'v \<Rightarrow> (bool \<times> ('k, 'v) lfu) option" where
  "lfu_Set c key val =
     (case map_of (lfu_items c) key of
        Some entry \<Rightarrow> do { c \<leftarrow> lfu_incrementFreq c (entry\<lparr>le_value := val\<rparr>); Some (True, c) }
      | None \<Rightarrow>
          do { c \<leftarrow> (if int (length (lfu_items c)) \<ge> lfu_capacity c then lfu_evict c else Some c);
               let l = (case lfu_freqList c 1 of None \<Rightarrow> [] | Some l \<Rightarrow> l);
                   e = lfu_fresh c;
                   entry = \<lparr>le_key = key, le_value = val, le_freq = 1, le_elem = e\<rparr>
               in Some (True, c\<lparr>lfu_freqList := (lfu_freqList c)(1 \<mapsto> gl_PushFront l e key),
                                lfu_items := AList.update key entry (lfu_items c),
                                lfu_minFreq := 1, lfu_fresh := e + 1\<rparr>) })"

definition lfu_Delete :: "('k, 'v) lfu \<Rightarrow> 'k \<Rightarrow> (bool \<times> ('k, 'v) lfu) option" where
  "lfu_Delete c key =
     (case map_of (lfu_items c) key of
        None \<Rightarrow> Some (False, c)
      | Some entry \<Rightarrow> do { c \<leftarrow> lfu_removeEntry c entry; Some (True, c) })"

definition lfu_Len :: "('k, 'v) lfu \<Rightarrow> int" where
  "lfu_Len c = int (length (lfu_items c))"

definition lfu_Capacity :: "('k, 'v) lfu \<Rightarrow> int" where
  "lfu_Capacity c = lfu_capacity c"

partial_function (option) lfu_shrink :: "('k, 'v) lfu \<Rightarrow> ('k, 'v) lfu option" where
  "lfu_shrink c =
     (if int (length (lfu_items c)) > lfu_capacity c
      then Option.bind (lfu_evict c) lfu_shrink else Some c)"

definition lfu_Resize :: "('k, 'v) lfu \<Rightarrow> int \<Rightarrow> ('k, 'v) lfu option" where
  "lfu_Resize c newCapacity =
     (let newCapacity = (if newCapacity < 1 then 1 else newCapacity)
      in lfu_shrink (c\<lparr>lfu_capacity := newCapacity\<rparr>))"

definition lfu_Clear :: "('k, 'v) lfu \<Rightarrow> ('k, 'v) lfu" where
  "lfu_Clear c = c\<lparr>lfu_items := [], lfu_freqList := Map.empty, lfu_minFreq := 0\<rparr>"

section \<open>The specification\<close>

text \<open>Entries with their value and frequency, the latest use first.\<close>

type_synonym ('k, 'v) lfu_log = "('k \<times> 'v \<times> int) list"

abbreviation freq_of :: "'k \<times> 'v \<times> int \<Rightarrow> int" where
  "freq_of x \<equiv> snd (snd x)"

definition lfu_victim :: "('k, 'v) lfu_log \<Rightarrow> 'k" where
  "lfu_victim xs = fst (last (filter (\<lambda>x. freq_of x = Min (freq_of ` set xs)) xs))"

datatype ('k, 'v) lfu_op = FGet 'k | FSet 'k 'v | FDelete 'k | FLen | FClear

fun lfu_step :: "('k, 'v) lfu \<Rightarrow> ('k, 'v) lfu_op \<Rightarrow> (('k, 'v) lru_out \<times> ('k, 'v) lfu) option" where
  "lfu_step c (FGet k) = do { (v, c) \<leftarrow> lfu_Get c k; Some (OValue v, c) }"
| "lfu_step c (FSet k v) = do { (b, c) \<leftarrow> lfu_Set c k v; Some (OFlag b, c) }"
| "lfu_step c (FDelete k) = do { (b, c) \<leftarrow> lfu_Delete c k; Some (OFlag b, c) }"
| "lfu_step c FLen = Some (OCount (lfu_Len c), c)"
| "lfu_step c FClear = Some (OUnit, lfu_Clear c)"

fun lfu_spec :: "nat \<Rightarrow> ('k, 'v) lfu_log \<Rightarrow> ('k, 'v) lfu_op \<Rightarrow> ('k, 'v) lru_out \<times> ('k, 'v) lfu_log" where
  "lfu_spec n xs (FGet k) =
     (case map_of xs k of None \<Rightarrow> (OValue None, xs)
      | Some (v, f) \<Rightarrow> (OValue (Some v), (k, v, f + 1) # drop_key k xs))"
| "lfu_spec n xs (FSet k v) =
     (case map_of xs k of
        Some (_, f) \<Rightarrow> (OFlag True, (k, v, f + 1) # drop_key k xs)
      | None \<Rightarrow> (OFlag True, (k, v, 1) # (if n \<le> length xs then drop_key (lfu_victim xs) xs else xs)))"
| "lfu_spec n xs (FDelete k) = (OFlag (map_of xs k \<noteq> None), drop_key k xs)"
| "lfu_spec n xs FLen = (OCount (int (length xs)), xs)"
| "lfu_spec n xs FClear = (OUnit, [])"

section \<open>The representation\<close>

definition bucket :: "(int \<rightharpoonup> 'k golist) \<Rightarrow> int \<Rightarrow> 'k golist" where
  "bucket F f = (case F f of None \<Rightarrow> [] | Some l \<Rightarrow> l)"

definition with_freq :: "int \<Rightarrow> ('k, 'v) lfu_log \<Rightarrow> 'k list" where
  "with_freq f xs = map fst (filter (\<lambda>x. freq_of x = f) xs)"

definition lfu_core ::
    "('k \<rightharpoonup> ('k, 'v) lfu_entry) \<Rightarrow> (int \<rightharpoonup> 'k golist) \<Rightarrow> ptr \<Rightarrow> ('k, 'v) lfu_log \<Rightarrow> bool" where
  "lfu_core m F n xs \<longleftrightarrow> distinct (map fst xs)
     \<and> (\<forall>k. map_option (\<lambda>e. (le_value e, le_freq e)) (m k) = map_of xs k)
     \<and> (\<forall>k e. m k = Some e \<longrightarrow> le_key e = k)
     \<and> (\<forall>f. F f \<noteq> Some [] \<and> map snd (bucket F f) = with_freq f xs
          \<and> distinct (map fst (bucket F f)) \<and> below n (map fst (bucket F f))
          \<and> (\<forall>(e, k) \<in> set (bucket F f). map_option le_elem (m k) = Some e))"

lemma with_freq_simps [simp]:
  "with_freq f [] = []"
  "with_freq f ((k, v, g) # xs) = (if g = f then k # with_freq f xs else with_freq f xs)"
  by (simp_all add: with_freq_def)

lemma with_freq_drop_key: "with_freq f (drop_key k xs) = removeAll k (with_freq f xs)"
  by (induction xs) (auto simp: drop_key_def)

lemma with_freq_mem: "k \<in> set (with_freq f xs) \<longleftrightarrow> (\<exists>v. (k, v, f) \<in> set xs)"
  by (force simp: with_freq_def)

lemma bucket_upd [simp]:
  "bucket (F(f \<mapsto> l)) g = (if g = f then l else bucket F g)"
  "bucket (F(f := None)) g = (if g = f then [] else bucket F g)"
  by (simp_all add: bucket_def)

lemma distinct_drop_key: "distinct (map fst xs) \<Longrightarrow> distinct (map fst (drop_key k xs))"
  by (simp add: map_fst_drop_key distinct_removeAll)

lemma removeAll_other: "(\<And>x. x \<in> set l \<Longrightarrow> snd x \<noteq> k) \<Longrightarrow> removeAll k (map snd l) = map snd l"
  by (induction l) auto

lemma golist_remove_key:
  assumes d: "distinct (map fst l)" and ek: "(e, k) \<in> set l"
    and el: "\<forall>(e', k') \<in> set l. map_option le_elem (m k') = Some e'"
  shows "map snd (gl_Remove l e) = removeAll k (map snd l)"
    and "\<And>e' k'. (e', k') \<in> set (gl_Remove l e) \<Longrightarrow> (e', k') \<in> set l \<and> k' \<noteq> k"
proof -
  have iff: "e' = e \<longleftrightarrow> k' = k" if "(e', k') \<in> set l" for e' k'
  proof
    assume "e' = e"
    with d that ek show "k' = k" by (meson eq_key_imp_eq_value)
  next
    assume "k' = k"
    moreover have "map_option le_elem (m k') = Some e'" "map_option le_elem (m k) = Some e"
      using el that ek by auto
    ultimately show "e' = e" by simp
  qed
  then have "gl_Remove l e = filter (\<lambda>(e', k'). k' \<noteq> k) l"
    unfolding gl_Remove_def by (intro filter_cong) auto
  moreover have "map snd (filter (\<lambda>(e', k'). k' \<noteq> k) l) = removeAll k (map snd l)" for l :: "'a golist"
    by (induction l) auto
  ultimately show "map snd (gl_Remove l e) = removeAll k (map snd l)" by simp
  show "(e', k') \<in> set l \<and> k' \<noteq> k" if "(e', k') \<in> set (gl_Remove l e)" for e' k'
    using that iff by (auto simp: gl_Remove_def)
qed

lemma lfu_core_bucket:
  assumes core: "lfu_core m F n xs" and k: "m k = Some en"
  shows "map_of xs k = Some (le_value en, le_freq en)" "le_key en = k"
    "\<exists>l. F (le_freq en) = Some l \<and> (le_elem en, k) \<in> set l"
proof -
  show x: "map_of xs k = Some (le_value en, le_freq en)"
    using core k unfolding lfu_core_def by (metis option.simps(9))
  show "le_key en = k" using core k by (simp add: lfu_core_def)
  from x have "k \<in> set (with_freq (le_freq en) xs)" by (auto simp: with_freq_mem dest: map_of_SomeD)
  moreover have "map snd (bucket F (le_freq en)) = with_freq (le_freq en) xs"
    using core by (simp add: lfu_core_def)
  ultimately obtain e where e: "(e, k) \<in> set (bucket F (le_freq en))"
    by (metis imageE list.set_map prod.collapse)
  moreover have "map_option le_elem (m k) = Some e" using core e by (auto simp: lfu_core_def)
  ultimately have "(le_elem en, k) \<in> set (bucket F (le_freq en))" using k by simp
  then show "\<exists>l. F (le_freq en) = Some l \<and> (le_elem en, k) \<in> set l"
    by (cases "F (le_freq en)") (auto simp: bucket_def)
qed

lemma lfu_core_remove:
  assumes core: "lfu_core m F n xs" and k: "m k = Some en" and l: "F (le_freq en) = Some l"
    and F': "F' = F(le_freq en := (if gl_Remove l (le_elem en) = [] then None else Some (gl_Remove l (le_elem en))))"
  shows "lfu_core (m(k := None)) F' n (drop_key k xs)"
proof -
  note b = lfu_core_bucket [OF core k]
  let ?f = "le_freq en" and ?e = "le_elem en"
  have ek: "(?e, k) \<in> set l" using b(3) l by auto
  have bl: "bucket F ?f = l" using l by (simp add: bucket_def)
  have core': "\<And>f. F f \<noteq> Some []" "\<And>f. map snd (bucket F f) = with_freq f xs"
    "\<And>f. distinct (map fst (bucket F f))" "\<And>f. below n (map fst (bucket F f))"
    "\<And>f e k. (e, k) \<in> set (bucket F f) \<Longrightarrow> map_option le_elem (m k) = Some e"
    using core by (auto simp: lfu_core_def)
  have d: "distinct (map fst l)" using core'(3) [of ?f] bl by simp
  have el: "\<forall>(e', k') \<in> set l. map_option le_elem (m k') = Some e'"
    using core'(5) [of _ _ ?f] bl by auto
  note gr = golist_remove_key [OF d ek el]
  have bF: "bucket F' f = (if f = ?f then gl_Remove l ?e else bucket F f)" for f
    by (simp add: F')
  have other: "k' \<noteq> k" if "(e', k') \<in> set (bucket F f)" "f \<noteq> ?f" for e' k' f
  proof
    assume "k' = k"
    then have "k \<in> set (with_freq f xs)" using that(1) core'(2) [of f] by (metis imageI list.set_map snd_conv)
    then obtain v where "(k, v, f) \<in> set xs" by (auto simp: with_freq_mem)
    then have "map_of xs k = Some (v, f)" using core by (simp add: lfu_core_def)
    with b(1) that(2) show False by simp
  qed
  show ?thesis
    unfolding lfu_core_def
  proof (intro conjI allI impI)
    show "distinct (map fst (drop_key k xs))" using core by (simp add: lfu_core_def distinct_drop_key)
    fix k' show "map_option (\<lambda>e. (le_value e, le_freq e)) ((m(k := None)) k') = map_of (drop_key k xs) k'"
      using core by (simp add: lfu_core_def map_of_drop_key)
    fix e assume "(m(k := None)) k' = Some e"
    then show "le_key e = k'" using core by (auto simp: lfu_core_def split: if_splits)
  next
    fix f
    show "F' f \<noteq> Some []" using core'(1) by (simp add: F')
    show "map snd (bucket F' f) = with_freq f (drop_key k xs)"
    proof (cases "f = ?f")
      case True
      then show ?thesis using gr(1) core'(2) [of ?f] bl by (simp add: bF with_freq_drop_key)
    next
      case False
      then show ?thesis
        using core'(2) [of f] removeAll_other [of "bucket F f" k] other by (auto simp: bF with_freq_drop_key)
    qed
    show "distinct (map fst (bucket F' f))"
      using core'(3) d by (simp add: bF gl_Remove_def distinct_map_filter)
    show "below n (map fst (bucket F' f))"
      using core'(4) [of f] core'(4) [of ?f] bl by (auto simp: bF gl_Remove_def below_def)
    show "\<forall>(e, k') \<in> set (bucket F' f). map_option le_elem ((m(k := None)) k') = Some e"
    proof
      fix x assume "x \<in> set (bucket F' f)"
      moreover obtain e' k' where x: "x = (e', k')" by (cases x)
      ultimately have mem: "(e', k') \<in> set (bucket F' f)" by simp
      have "(e', k') \<in> set (bucket F f) \<and> k' \<noteq> k"
      proof (cases "f = ?f")
        case True
        with mem have "(e', k') \<in> set (gl_Remove l ?e)" by (simp add: bF)
        from gr(2) [OF this] True bl show ?thesis by simp
      next
        case False
        with mem have "(e', k') \<in> set (bucket F f)" by (simp add: bF)
        with other [OF this False] show ?thesis by simp
      qed
      with core'(5) [of e' k' f] show "case x of (e, k') \<Rightarrow> map_option le_elem ((m(k := None)) k') = Some e"
        by (simp add: x)
    qed
  qed
qed

lemma lfu_core_push:
  assumes core: "lfu_core m F n xs" and k: "m k = None"
  shows "lfu_core (m(k \<mapsto> \<lparr>le_key = k, le_value = v, le_freq = f, le_elem = n\<rparr>))
    (F(f \<mapsto> gl_PushFront (bucket F f) n k)) (Suc n) ((k, v, f) # xs)"
proof -
  have core': "\<And>f. F f \<noteq> Some []" "\<And>f. map snd (bucket F f) = with_freq f xs"
    "\<And>f. distinct (map fst (bucket F f))" "\<And>f. below n (map fst (bucket F f))"
    "\<And>f e k. (e, k) \<in> set (bucket F f) \<Longrightarrow> map_option le_elem (m k) = Some e"
    using core by (auto simp: lfu_core_def)
  have xk: "k \<notin> fst ` set xs"
    using core k unfolding lfu_core_def by (metis map_of_eq_None_iff option.simps(8))
  have n: "n \<notin> fst ` set (bucket F g)" for g using core'(4) [of g] by (rule below_not_in)
  have kk: "k' \<noteq> k" if "(e', k') \<in> set (bucket F g)" for e' k' g
    using core'(5) [OF that] k by auto
  show ?thesis
    unfolding lfu_core_def
  proof (intro conjI allI impI)
    show "distinct (map fst ((k, v, f) # xs))" using core xk by (simp add: lfu_core_def)
    let ?m = "m(k \<mapsto> \<lparr>le_key = k, le_value = v, le_freq = f, le_elem = n\<rparr>)"
    fix k' show "map_option (\<lambda>e. (le_value e, le_freq e)) (?m k') = map_of ((k, v, f) # xs) k'"
      using core by (simp add: lfu_core_def)
    fix e assume "?m k' = Some e"
    then show "le_key e = k'" using core by (auto simp: lfu_core_def split: if_splits)
  next
    let ?m = "m(k \<mapsto> \<lparr>le_key = k, le_value = v, le_freq = f, le_elem = n\<rparr>)"
    let ?F = "F(f \<mapsto> gl_PushFront (bucket F f) n k)"
    fix g
    show "?F g \<noteq> Some []" using core'(1) by (simp add: gl_PushFront_def)
    show "map snd (bucket ?F g) = with_freq g ((k, v, f) # xs)"
      using core'(2) [of g] by (auto simp: gl_PushFront_def)
    show "distinct (map fst (bucket ?F g))" using core'(3) [of g] n [of g] by (auto simp: gl_PushFront_def)
    show "below (Suc n) (map fst (bucket ?F g))" using core'(4) [of g] by (auto simp: gl_PushFront_def)
    show "\<forall>(e, k') \<in> set (bucket ?F g). map_option le_elem (?m k') = Some e"
    proof
      fix x assume mem: "x \<in> set (bucket ?F g)"
      obtain e k' where x: "x = (e, k')" by (cases x)
      from mem x consider "e = n" "k' = k" | "(e, k') \<in> set (bucket F g)"
        by (auto simp: gl_PushFront_def split: if_splits)
      then show "case x of (e, k') \<Rightarrow> map_option le_elem (?m k') = Some e"
      proof cases
        case 2
        with kk [OF 2] core'(5) [OF 2] show ?thesis by (simp add: x)
      qed (simp add: x)
    qed
  qed
qed

definition is_min :: "int \<Rightarrow> ('k, 'v) lfu_log \<Rightarrow> bool" where
  "is_min m xs \<longleftrightarrow> (\<exists>x \<in> set xs. freq_of x = m) \<and> (\<forall>x \<in> set xs. m \<le> freq_of x)"

definition lfu_repr :: "('k, 'v) lfu \<Rightarrow> ('k, 'v) lfu_log \<Rightarrow> bool" where
  "lfu_repr c xs \<longleftrightarrow> distinct (map fst (lfu_items c))
     \<and> lfu_core (map_of (lfu_items c)) (lfu_freqList c) (lfu_fresh c) xs"

definition lfu_rel :: "nat \<Rightarrow> ('k, 'v) lfu \<Rightarrow> ('k, 'v) lfu_log \<Rightarrow> bool" where
  "lfu_rel n c xs \<longleftrightarrow> 0 < n \<and> lfu_capacity c = int n \<and> length xs \<le> n \<and> lfu_repr c xs
     \<and> (\<forall>x \<in> set xs. 1 \<le> freq_of x) \<and> (length xs = n \<longrightarrow> is_min (lfu_minFreq c) xs)"

lemma lfu_repr_lookup: "lfu_repr c xs \<Longrightarrow>
  map_of xs k = map_option (\<lambda>e. (le_value e, le_freq e)) (map_of (lfu_items c) k)"
  by (simp add: lfu_repr_def lfu_core_def)

lemma lfu_repr_length:
  assumes "lfu_repr c xs"
  shows "length (lfu_items c) = length xs"
proof -
  have "k \<in> set (map fst (lfu_items c)) \<longleftrightarrow> k \<in> set (map fst xs)" for k
    using lfu_repr_lookup [OF assms, of k] by (metis map_of_eq_None_iff option.map_disc_iff list.set_map)
  then have "set (map fst (lfu_items c)) = set (map fst xs)" by blast
  moreover have "distinct (map fst (lfu_items c))" "distinct (map fst xs)"
    using assms by (auto simp: lfu_repr_def lfu_core_def)
  ultimately have "length (map fst (lfu_items c)) = length (map fst xs)" by (metis distinct_card)
  then show ?thesis by simp
qed

lemma lfu_incrementFreq_repr:
  assumes repr: "lfu_repr c xs" and k: "map_of (lfu_items c) k = Some en"
  shows "\<exists>c'. lfu_incrementFreq c (en\<lparr>le_value := w\<rparr>) = Some c'
    \<and> lfu_repr c' ((k, w, le_freq en + 1) # drop_key k xs) \<and> lfu_capacity c' = lfu_capacity c
    \<and> lfu_minFreq c' = (if with_freq (le_freq en) (drop_key k xs) = [] \<and> lfu_minFreq c = le_freq en
                        then lfu_minFreq c + 1 else lfu_minFreq c)"
proof -
  let ?f = "le_freq en" and ?n = "lfu_fresh c"
  have core: "lfu_core (map_of (lfu_items c)) (lfu_freqList c) ?n xs"
    and d: "distinct (map fst (lfu_items c))" using repr by (auto simp: lfu_repr_def)
  from lfu_core_bucket [OF core k] obtain l where l: "lfu_freqList c ?f = Some l" and key: "le_key en = k"
    by blast
  let ?l = "gl_Remove l (le_elem en)"
  let ?F = "(lfu_freqList c)(?f := (if ?l = [] then None else Some ?l))"
  have core1: "lfu_core ((map_of (lfu_items c))(k := None)) ?F ?n (drop_key k xs)"
    by (rule lfu_core_remove [OF core k l refl])
  have core2: "lfu_core (((map_of (lfu_items c))(k := None))(k \<mapsto>
      \<lparr>le_key = k, le_value = w, le_freq = ?f + 1, le_elem = ?n\<rparr>))
    (?F(?f + 1 \<mapsto> gl_PushFront (bucket ?F (?f + 1)) ?n k)) (Suc ?n) ((k, w, ?f + 1) # drop_key k xs)"
    by (rule lfu_core_push [OF core1]) simp
  have "map snd (bucket ?F ?f) = with_freq ?f (drop_key k xs)"
    using core1 by (simp add: lfu_core_def)
  then have empty: "?l = [] \<longleftrightarrow> with_freq ?f (drop_key k xs) = []"
    by (auto simp: bucket_def split: if_splits)
  let ?entry = "\<lparr>le_key = k, le_value = w, le_freq = ?f + 1, le_elem = ?n\<rparr>"
  let ?c = "c\<lparr>lfu_freqList := ?F(?f + 1 \<mapsto> gl_PushFront (bucket ?F (?f + 1)) ?n k),
      lfu_minFreq := (if ?l = [] \<and> lfu_minFreq c = ?f then lfu_minFreq c + 1 else lfu_minFreq c),
      lfu_items := AList.update k ?entry (lfu_items c), lfu_fresh := ?n + 1\<rparr>"
  have "lfu_incrementFreq c (en\<lparr>le_value := w\<rparr>) = Some ?c"
    using l key by (cases c; cases en) (simp add: lfu_incrementFreq_def Let_def bucket_def)
  moreover have "lfu_repr ?c ((k, w, ?f + 1) # drop_key k xs)"
    using core2 d by (simp add: lfu_repr_def update_conv' distinct_update)
  ultimately show ?thesis using empty by (intro exI [of _ ?c]) simp
qed

lemma is_min_touch:
  assumes "is_min m xs" and "distinct (map fst xs)" and "map_of xs k = Some (v, f)"
    and m': "m' = (if with_freq f (drop_key k xs) = [] \<and> m = f then m + 1 else m)"
  shows "is_min m' ((k, w, f + 1) # drop_key k xs)"
proof -
  from assms(3) have kx: "(k, v, f) \<in> set xs" by (rule map_of_SomeD)
  have sub: "set (drop_key k xs) \<subseteq> set xs" by (auto simp: drop_key_def)
  have le: "m \<le> f" using assms(1) kx by (auto simp: is_min_def)
  show ?thesis
  proof (cases "with_freq f (drop_key k xs) = [] \<and> m = f")
    case True
    then have "\<forall>x \<in> set (drop_key k xs). freq_of x \<noteq> f" by (auto simp: with_freq_def filter_empty_conv)
    moreover have "\<forall>x \<in> set (drop_key k xs). m \<le> freq_of x" using assms(1) sub by (auto simp: is_min_def)
    ultimately show ?thesis using True by (force simp: is_min_def m')
  next
    case False
    have "\<exists>x \<in> set (drop_key k xs). freq_of x = m"
    proof (cases "m = f")
      case True
      with False show ?thesis by (auto simp: with_freq_def filter_empty_conv)
    next
      case ne: False
      from assms(1) obtain x where x: "x \<in> set xs" "freq_of x = m" by (auto simp: is_min_def)
      have "fst x \<noteq> k"
      proof
        assume "fst x = k"
        then have "(k, snd x) \<in> set xs" using x(1) by (cases x) simp
        with assms(2) have "map_of xs k = Some (snd x)" by (rule map_of_is_SomeI)
        with assms(3) x(2) ne show False by simp
      qed
      with x show ?thesis by (intro bexI [of _ x]) (simp_all add: drop_key_def)
    qed
    with False le assms(1) sub show ?thesis by (auto simp: is_min_def m')
  qed
qed

lemma lfu_touch_rel:
  assumes rel: "lfu_rel n c xs" and k: "map_of (lfu_items c) k = Some en"
  shows "\<exists>c'. lfu_incrementFreq c (en\<lparr>le_value := w\<rparr>) = Some c'
    \<and> lfu_rel n c' ((k, w, le_freq en + 1) # drop_key k xs)"
proof -
  have repr: "lfu_repr c xs" using rel by (simp add: lfu_rel_def)
  have x: "map_of xs k = Some (le_value en, le_freq en)" using lfu_repr_lookup [OF repr] k by simp
  then have kx: "k \<in> fst ` set xs" "(k, le_value en, le_freq en) \<in> set xs"
    by (auto dest: map_of_SomeD intro: rev_image_eqI)
  from lfu_incrementFreq_repr [OF repr k, of w] obtain c' where c':
    "lfu_incrementFreq c (en\<lparr>le_value := w\<rparr>) = Some c'"
    "lfu_repr c' ((k, w, le_freq en + 1) # drop_key k xs)" "lfu_capacity c' = lfu_capacity c"
    "lfu_minFreq c' = (if with_freq (le_freq en) (drop_key k xs) = [] \<and> lfu_minFreq c = le_freq en
                        then lfu_minFreq c + 1 else lfu_minFreq c)" by blast
  have len: "length (drop_key k xs) < length xs" by (rule drop_key_length_present [OF kx(1)])
  have d: "distinct (map fst xs)" using repr by (simp add: lfu_repr_def lfu_core_def)
  have "length xs = length ((k, w, le_freq en + 1) # drop_key k xs)"
  proof -
    have "length (drop_key k xs) = length (removeAll k (map fst xs))"
      by (metis length_map map_fst_drop_key)
    also have "removeAll k (map fst xs) = remove1 k (map fst xs)" by (simp add: distinct_remove1_removeAll d)
    finally show ?thesis using kx(1) len by (simp add: length_remove1)
  qed
  moreover have "\<forall>x \<in> set ((k, w, le_freq en + 1) # drop_key k xs). 1 \<le> freq_of x"
    using rel kx(2) by (fastforce simp: lfu_rel_def drop_key_def)
  moreover have "is_min (lfu_minFreq c') ((k, w, le_freq en + 1) # drop_key k xs)" if "length xs = n"
    using rel that by (intro is_min_touch [OF _ d x c'(4)]) (simp add: lfu_rel_def)
  ultimately show ?thesis using rel c' by (simp add: lfu_rel_def)
qed

lemma lfu_removeEntry_repr:
  assumes repr: "lfu_repr c xs" and k: "map_of (lfu_items c) k = Some en"
  shows "\<exists>c'. lfu_removeEntry c en = Some c' \<and> lfu_repr c' (drop_key k xs)
    \<and> lfu_capacity c' = lfu_capacity c \<and> lfu_minFreq c' = lfu_minFreq c"
proof -
  have core: "lfu_core (map_of (lfu_items c)) (lfu_freqList c) (lfu_fresh c) xs"
    and d: "distinct (map fst (lfu_items c))" using repr by (auto simp: lfu_repr_def)
  from lfu_core_bucket [OF core k] obtain l where l: "lfu_freqList c (le_freq en) = Some l" and key: "le_key en = k"
    by blast
  from lfu_core_remove [OF core k l refl] d l key show ?thesis
    by (simp add: lfu_removeEntry_def lfu_repr_def delete_conv' distinct_delete Let_def)
qed

lemma lfu_evict_repr:
  assumes repr: "lfu_repr c xs" and min: "is_min (lfu_minFreq c) xs"
  shows "\<exists>c'. lfu_evict c = Some c' \<and> lfu_repr c' (drop_key (lfu_victim xs) xs)
    \<and> lfu_victim xs \<in> fst ` set xs \<and> lfu_capacity c' = lfu_capacity c"
proof -
  let ?m = "lfu_minFreq c" and ?F = "lfu_freqList c"
  have core: "lfu_core (map_of (lfu_items c)) ?F (lfu_fresh c) xs" using repr by (simp add: lfu_repr_def)
  have "Min (freq_of ` set xs) = ?m" using min by (intro Min_eqI) (force simp: is_min_def)+
  then have victim: "lfu_victim xs = last (with_freq ?m xs)" and ne: "with_freq ?m xs \<noteq> []"
    using min by (auto simp: lfu_victim_def with_freq_def is_min_def filter_empty_conv last_map)
  have keys: "map snd (bucket ?F ?m) = with_freq ?m xs"
    and elems: "\<forall>(e, k) \<in> set (bucket ?F ?m). map_option le_elem (map_of (lfu_items c) k) = Some e"
    using core by (auto simp: lfu_core_def)
  from keys ne obtain l where l: "?F ?m = Some l" "l \<noteq> []" "bucket ?F ?m = l"
    by (cases "?F ?m") (force simp: bucket_def)+
  obtain e where e: "last l = (e, lfu_victim xs)"
    using l keys victim by (metis last_map prod.collapse)
  then have mem: "(e, lfu_victim xs) \<in> set l" using l(2) by (metis last_in_set)
  with elems l(3) obtain en where en: "map_of (lfu_items c) (lfu_victim xs) = Some en" by auto
  have "lfu_victim xs \<in> fst ` set xs"
    using victim ne by (metis last_in_set with_freq_mem imageI fst_conv)
  moreover have "lfu_items c \<noteq> []" using en by auto
  ultimately show ?thesis
    using lfu_removeEntry_repr [OF repr en] l e en by (auto simp: lfu_evict_def gl_Back_def)
qed

lemma lfu_insert_repr:
  assumes repr: "lfu_repr c xs" and k: "map_of (lfu_items c) k = None"
  shows "lfu_repr (c\<lparr>lfu_freqList := (lfu_freqList c)(1 \<mapsto> gl_PushFront (bucket (lfu_freqList c) 1) (lfu_fresh c) k),
      lfu_items := AList.update k \<lparr>le_key = k, le_value = v, le_freq = 1, le_elem = lfu_fresh c\<rparr> (lfu_items c),
      lfu_minFreq := 1, lfu_fresh := lfu_fresh c + 1\<rparr>) ((k, v, 1) # xs)"
proof -
  from lfu_core_push [of "map_of (lfu_items c)" "lfu_freqList c" "lfu_fresh c" xs k v 1] repr k show ?thesis
    by (simp add: lfu_repr_def update_conv' distinct_update)
qed

lemma lfu_insert_rel:
  assumes rel: "lfu_rel n c xs" and k: "map_of (lfu_items c) k = None"
  shows "\<exists>c'. lfu_Set c k v = Some (True, c')
    \<and> lfu_rel n c' ((k, v, 1) # (if n \<le> length xs then drop_key (lfu_victim xs) xs else xs))"
proof -
  have repr: "lfu_repr c xs" using rel by (simp add: lfu_rel_def)
  let ?xs = "if n \<le> length xs then drop_key (lfu_victim xs) xs else xs"
  have "\<exists>c1. (if int (length (lfu_items c)) \<ge> lfu_capacity c then lfu_evict c else Some c) = Some c1
    \<and> lfu_repr c1 ?xs \<and> lfu_capacity c1 = lfu_capacity c \<and> length ?xs < n"
  proof (cases "n \<le> length xs")
    case True
    with rel have "is_min (lfu_minFreq c) xs" "length xs = n" by (auto simp: lfu_rel_def)
    with lfu_evict_repr [OF repr this(1)] True rel lfu_repr_length [OF repr]
      drop_key_length_present [of "lfu_victim xs" xs] show ?thesis by (auto simp: lfu_rel_def)
  next
    case False
    with rel repr lfu_repr_length [OF repr] show ?thesis by (simp add: lfu_rel_def)
  qed
  then obtain c1 where c1:
    "(if int (length (lfu_items c)) \<ge> lfu_capacity c then lfu_evict c else Some c) = Some c1"
    "lfu_repr c1 ?xs" "lfu_capacity c1 = lfu_capacity c" "length ?xs < n" by blast
  have "map_of ?xs k = None" using lfu_repr_lookup [OF repr, of k] k by (simp add: map_of_drop_key)
  then have k1: "map_of (lfu_items c1) k = None" using lfu_repr_lookup [OF c1(2), of k] by simp
  from lfu_insert_repr [OF c1(2) k1, of v] obtain c' where c':
    "c' = c1\<lparr>lfu_freqList := (lfu_freqList c1)(1 \<mapsto> gl_PushFront (bucket (lfu_freqList c1) 1) (lfu_fresh c1) k),
      lfu_items := AList.update k \<lparr>le_key = k, le_value = v, le_freq = 1, le_elem = lfu_fresh c1\<rparr> (lfu_items c1),
      lfu_minFreq := 1, lfu_fresh := lfu_fresh c1 + 1\<rparr>" "lfu_repr c' ((k, v, 1) # ?xs)" by blast
  have set: "lfu_Set c k v = Some (True, c')"
    using k c1(1) by (simp add: lfu_Set_def Let_def c'(1) bucket_def del: fun_upd_apply)
  have freqs: "\<forall>x \<in> set ?xs. 1 \<le> freq_of x" using rel by (auto simp: lfu_rel_def drop_key_def)
  then have "is_min (lfu_minFreq c') ((k, v, 1) # ?xs)" by (auto simp: is_min_def c'(1))
  moreover have "lfu_capacity c' = lfu_capacity c" using c1(3) by (simp add: c'(1))
  ultimately have "lfu_rel n c' ((k, v, 1) # ?xs)"
    using rel c'(2) c1(4) freqs by (simp add: lfu_rel_def)
  with set show ?thesis by blast
qed

interpretation lfu: refinement lfu_step "lfu_spec n" "lfu_rel n" for n
proof
  fix c :: "('k, 'v) lfu" and xs and x :: "('k, 'v) lfu_op"
  assume rel: "lfu_rel n c xs"
  then have repr: "lfu_repr c xs" by (simp add: lfu_rel_def)
  note lookup = lfu_repr_lookup [OF repr]
  show "\<exists>c'. lfu_step c x = Some (fst (lfu_spec n xs x), c') \<and> lfu_rel n c' (snd (lfu_spec n xs x))"
  proof (cases x)
    case (FGet k)
    show ?thesis
    proof (cases "map_of (lfu_items c) k")
      case None
      with rel lookup [of k] show ?thesis by (simp add: FGet lfu_Get_def)
    next
      case (Some en)
      have "en\<lparr>le_value := le_value en\<rparr> = en" by simp
      with lfu_touch_rel [OF rel Some, of "le_value en"] lookup [of k] Some show ?thesis
        by (auto simp: FGet lfu_Get_def)
    qed
  next
    case (FSet k v)
    show ?thesis
    proof (cases "map_of (lfu_items c) k")
      case None
      with lfu_insert_rel [OF rel None, of v] lookup [of k] show ?thesis by (auto simp: FSet)
    next
      case (Some en)
      with lfu_touch_rel [OF rel Some, of v] lookup [of k] show ?thesis
        by (auto simp: FSet lfu_Set_def)
    qed
  next
    case (FDelete k)
    show ?thesis
    proof (cases "map_of (lfu_items c) k")
      case None
      then have "k \<notin> fst ` set xs" using lookup [of k] by (metis map_of_eq_None_iff option.simps(8))
      with rel None lookup [of k] show ?thesis by (simp add: FDelete lfu_Delete_def)
    next
      case (Some en)
      then have "k \<in> fst ` set xs" using lookup [of k] by (metis map_of_eq_None_iff option.distinct(1) option.simps(9))
      then have "length (drop_key k xs) < length xs" by (rule drop_key_length_present)
      with lfu_removeEntry_repr [OF repr Some] rel Some lookup [of k] show ?thesis
        by (auto simp: FDelete lfu_Delete_def lfu_rel_def drop_key_def)
    qed
  next
    case FLen
    with rel lfu_repr_length [OF repr] show ?thesis by (simp add: lfu_Len_def)
  next
    case FClear
    with rel show ?thesis
      by (simp add: lfu_Clear_def lfu_rel_def lfu_repr_def lfu_core_def bucket_def)
  qed
qed

lemma NewLFU_rel: "lfu_rel (nat (max 1 n)) (NewLFU n) []"
  by (simp add: NewLFU_def lfu_rel_def lfu_repr_def lfu_core_def bucket_def max_def)

section \<open>Resizing\<close>

lemma lfu_shrink_done: "int (length (lfu_items c)) \<le> lfu_capacity c \<Longrightarrow> lfu_shrink c = Some c"
  by (simp add: lfu_shrink.simps)

text \<open>An eviction that changes nothing while the cache is too large repeats for ever.\<close>

lemma lfu_shrink_stuck:
  assumes big: "int (length (lfu_items c)) > lfu_capacity c" and stuck: "lfu_evict c = Some c"
  shows "lfu_shrink c = None"
proof -
  have "x \<noteq> c" if "lfu_shrink x = Some y" for x y
  proof (rule lfu_shrink.raw_induct [of "\<lambda>x y. x \<noteq> c" x y, OF _ that])
    fix f x y
    assume IH: "\<And>x y. f x = Some y \<Longrightarrow> x \<noteq> c"
      and step: "(if int (length (lfu_items x)) > lfu_capacity x
        then Option.bind (lfu_evict x) f else Some x) = Some y"
    show "x \<noteq> c"
    proof
      assume "x = c"
      with step big stuck have "f c = Some y" by simp
      with IH show False by blast
    qed
  qed
  then show ?thesis by (cases "lfu_shrink c") auto
qed

lemma lfu_Resize_grow:
  "int (length (lfu_items c)) \<le> n \<Longrightarrow> 1 \<le> n \<Longrightarrow> lfu_Resize c n = Some (c\<lparr>lfu_capacity := n\<rparr>)"
  by (simp add: lfu_Resize_def lfu_shrink_done)

section \<open>Properties\<close>


text \<open>When a new key is written to a full cache, one entry goes: it has the least frequency of all,
  and every other entry of that frequency was used after it.\<close>

theorem LFU_victim_is_least_used:
  assumes rel: "lfu_rel n c xs" and full: "lfu_Len c = lfu_Capacity c" and new: "k \<notin> fst ` set xs"
  shows "\<exists>c' us f v ws. lfu_Set c k val = Some (True, c') \<and> lfu_rel n c' ((k, val, 1) # us @ ws)
    \<and> xs = us @ (lfu_victim xs, v, f) # ws
    \<and> (\<forall>x \<in> set xs. f \<le> freq_of x) \<and> (\<forall>x \<in> set ws. f < freq_of x)"
proof -
  have repr: "lfu_repr c xs" using rel by (simp add: lfu_rel_def)
  have len: "length xs = n"
    using full rel lfu_repr_length [OF repr] by (simp add: lfu_rel_def lfu_Len_def lfu_Capacity_def)
  with rel have min: "is_min (lfu_minFreq c) xs" by (simp add: lfu_rel_def)
  let ?m = "lfu_minFreq c" and ?P = "\<lambda>x. freq_of x = lfu_minFreq c"
  have "Min (freq_of ` set xs) = ?m" using min by (intro Min_eqI) (force simp: is_min_def)+
  then have v: "lfu_victim xs = fst (last (filter ?P xs))" by (simp add: lfu_victim_def)
  have ex: "\<exists>x \<in> set xs. ?P x" using min by (simp add: is_min_def)
  from split_list_last_prop [OF ex] obtain us x ws where
    uw: "xs = us @ x # ws" "?P x" "\<forall>w \<in> set ws. \<not> ?P w" by (elim exE conjE) (rule that)
  then have "filter ?P ws = []" by (simp add: filter_empty_conv)
  with v uw(1,2) have vx: "lfu_victim xs = fst x" by simp
  have d: "distinct (map fst xs)" using repr by (simp add: lfu_repr_def lfu_core_def)
  have drop: "drop_key (lfu_victim xs) xs = us @ ws"
    using drop_key_middle [of "fst x" us ws "snd x"] d uw(1) vx by (auto simp: drop_key_def)
  have "map_of xs k = None" using new by (simp add: map_of_eq_None_iff)
  with lfu_repr_lookup [OF repr, of k] have "map_of (lfu_items c) k = None" by simp
  from lfu_insert_rel [OF rel this, of val] len drop obtain c' where
    "lfu_Set c k val = Some (True, c')" "lfu_rel n c' ((k, val, 1) # us @ ws)" by auto
  moreover have "\<forall>x \<in> set xs. ?m \<le> freq_of x" using min by (simp add: is_min_def)
  moreover have "\<forall>x \<in> set ws. ?m < freq_of x"
  proof
    fix w assume w: "w \<in> set ws"
    then have "w \<in> set xs" by (simp add: uw(1))
    then have "?m \<le> freq_of w" using min by (simp add: is_min_def)
    moreover have "freq_of w \<noteq> ?m" using uw(3) w by blast
    ultimately show "?m < freq_of w" by simp
  qed
  moreover have "xs = us @ (lfu_victim xs, fst (snd x), ?m) # ws" using uw vx by (cases x) auto
  ultimately show ?thesis by blast
qed

theorem LFU_victim_is_least_used_witness:
  "\<exists>c c' us f v ws. lfu_rel 1 c [(1 :: nat, True, 1)] \<and> lfu_Set c 2 False = Some (True, c')
    \<and> lfu_rel 1 c' ((2, False, 1) # us @ ws) \<and> [(1, True, 1)] = us @ (1, v, f) # ws"
proof -
  from lfu.step_refines [OF NewLFU_rel [of 1], of "FSet (1 :: nat) True"] obtain c where
    c: "lfu_rel 1 c [(1 :: nat, True, 1)]" by auto
  then have "length (lfu_items c) = 1" using lfu_repr_length by (fastforce simp: lfu_rel_def)
  then have full: "lfu_Len c = lfu_Capacity c" using c by (simp add: lfu_Len_def lfu_Capacity_def lfu_rel_def)
  have "lfu_victim [(1 :: nat, True, 1)] = 1" by (simp add: lfu_victim_def)
  with LFU_victim_is_least_used [OF c full, of 2 False] c show ?thesis by force
qed

lemmas lfu_eval = NewLFU_def lfu_Set_def lfu_Get_def lfu_Delete_def lfu_evict_def lfu_removeEntry_def
  lfu_incrementFreq_def gl_PushFront_def gl_Remove_def gl_Back_def Let_def

text \<open>Shrinking hangs: after three writes and three lookups on a cache of capacity 3, whose
  entries then have the frequencies 1, 2 and 3, \<open>Resize(1)\<close> evicts one entry, finds no list for the
  frequency \<open>minFreq\<close> and repeats for ever, with the lock held.\<close>

theorem LFU_Resize_never_returns:
  "\<exists>c rs. run_steps lfu_step (NewLFU 3)
      [FSet (1 :: nat) True, FSet 2 True, FGet 2, FSet 3 True, FGet 3, FGet 3] = Some (rs, c)
    \<and> lfu_Len c = 3 \<and> lfu_Resize c 1 = None"
proof -
  let ?e = "\<lambda>k f el. \<lparr>le_key = k, le_value = True, le_freq = f, le_elem = el\<rparr>"
  let ?F = "[2 \<mapsto> [(2, 2)], 3 \<mapsto> [(5, 3)]] :: int \<rightharpoonup> nat golist"
  let ?c = "\<lparr>lfu_capacity = 3, lfu_minFreq = 1, lfu_items = [(1, ?e 1 1 0), (2, ?e 2 2 2), (3, ?e 3 3 5)],
    lfu_freqList = ?F(1 \<mapsto> [(0, 1)]), lfu_fresh = 6\<rparr>"
  have run: "\<exists>rs. run_steps lfu_step (NewLFU 3)
      [FSet (1 :: nat) True, FSet 2 True, FGet 2, FSet 3 True, FGet 3, FGet 3] = Some (rs, ?c)"
    by (simp add: lfu_eval) (auto simp: fun_eq_iff eval_nat_numeral)
  let ?d = "?c\<lparr>lfu_capacity := 1, lfu_items := [(2, ?e 2 2 2), (3, ?e 3 3 5)], lfu_freqList := ?F\<rparr>"
  have "lfu_evict (?c\<lparr>lfu_capacity := 1\<rparr>) = Some ?d"
    by (simp add: lfu_eval)
  moreover have "lfu_shrink ?d = None" by (rule lfu_shrink_stuck) (simp_all add: lfu_eval)
  ultimately have "lfu_Resize ?c 1 = None"
    unfolding lfu_Resize_def Let_def by (subst lfu_shrink.simps) simp
  with run show ?thesis by (auto simp: lfu_Len_def)
qed

text \<open>A deletion may leave \<open>minFreq\<close> without a list; after a \<open>Resize\<close> to the number of entries
  left, a write evicts nothing and the cache exceeds its capacity.\<close>

theorem LFU_exceeds_capacity:
  "\<exists>c c' c'' rs. run_steps lfu_step (NewLFU 3)
      [FSet (1 :: nat) True, FSet 2 True, FSet 3 True, FGet 1, FGet 2, FDelete 3] = Some (rs, c)
    \<and> lfu_Resize c 2 = Some c' \<and> lfu_Set c' 4 True = Some (True, c'')
    \<and> lfu_Capacity c'' = 2 \<and> lfu_Len c'' = 3"
proof -
  have "\<exists>c rs. run_steps lfu_step (NewLFU 3)
      [FSet (1 :: nat) True, FSet 2 True, FSet 3 True, FGet 1, FGet 2, FDelete 3] = Some (rs, c)
    \<and> lfu_capacity c = 3 \<and> lfu_minFreq c = 1 \<and> lfu_freqList c 1 = None
    \<and> map fst (lfu_items c) = [1, 2]"
    by (simp add: lfu_eval)
  then obtain c rs where c: "run_steps lfu_step (NewLFU 3)
      [FSet (1 :: nat) True, FSet 2 True, FSet 3 True, FGet 1, FGet 2, FDelete 3] = Some (rs, c)"
    "lfu_minFreq c = 1" "lfu_freqList c 1 = None" "map fst (lfu_items c) = [1, 2]"
    by (elim exE conjE) (rule that)
  from c(4) have len: "length (lfu_items c) = 2" by (metis length_map length_Cons list.size(3) numeral_2_eq_2)
  have absent: "map_of (lfu_items c) 4 = None" using c(4) by (simp add: map_of_eq_None_iff flip: list.set_map)
  have resize: "lfu_Resize c 2 = Some (c\<lparr>lfu_capacity := 2\<rparr>)" using len by (intro lfu_Resize_grow) auto
  have "length (AList.update 4 e (lfu_items c)) = 3" for e :: "(nat, bool) lfu_entry"
    using absent len by (simp add: map_of_eq_None_iff update_absent)
  then have "\<exists>c''. lfu_Set (c\<lparr>lfu_capacity := 2\<rparr>) 4 True = Some (True, c'')
      \<and> lfu_Capacity c'' = 2 \<and> lfu_Len c'' = 3"
    using absent len c(2,3) by (simp add: lfu_Set_def lfu_evict_def lfu_Len_def lfu_Capacity_def Let_def)
  with c(1) resize show ?thesis by blast
qed

end
