(* ===== verification/DynamicLfu.thy ===== *)
theory DynamicLfu
  imports Lfu
begin

text \<open>
  \<open>cache/dynamic_lfu.go\<close>: the LFU cache that resizes itself. The interface \<open>CapacityController\<close> of
  \<open>cache/capacity_controller.go\<close> is a record of its three methods; the statistics that come from the
  runtime, memory and hit ratios, are opaque to this code and are passed through as one value
  \<open>mem\<close> of any type. The mutex of the cache is part of the state: locking it twice from one
  goroutine never returns, and \<open>None\<close> stands for a call that does not return (or panics).
\<close>

record 'm cache_stats =
  cs_Capacity :: int
  cs_Size :: int
  cs_Mem :: 'm
  cs_LastResizeSize :: int

record 'm controller =
  ShouldGrow :: "'m cache_stats \<Rightarrow> bool"
  ShouldShrink :: "'m cache_stats \<Rightarrow> bool"
  NextCapacity :: "int \<Rightarrow> bool \<Rightarrow> int"

record ('k, 'v, 'm) dynamic_lfu =
  dy_LFU :: "('k, 'v) lfu"
  dy_minCapacity :: int
  dy_maxCapacity :: int
  dy_controller :: "'m controller"
  dy_autoGrow :: bool
  dy_autoShrink :: bool
  dy_lastResizeSize :: int
  dy_hits :: int
  dy_misses :: int
  dy_locked :: bool

text \<open>The default controller is an argument: its decisions are floating-point comparisons.\<close>

definition NewDynamicLFU :: "'m controller \<Rightarrow> int \<Rightarrow> ('k, 'v, 'm) dynamic_lfu" where
  "NewDynamicLFU ctl capacity =
     (let capacity = (if capacity < 1 then 1 else capacity)
      in \<lparr>dy_LFU = NewLFU capacity, dy_minCapacity = 1, dy_maxCapacity = capacity * 1000,
          dy_controller = ctl, dy_autoGrow = True, dy_autoShrink = False,
          dy_lastResizeSize = 0, dy_hits = 0, dy_misses = 0, dy_locked = False\<rparr>)"

definition dy_Lock :: "('k, 'v, 'm) dynamic_lfu \<Rightarrow> ('k, 'v, 'm) dynamic_lfu option" where
  "dy_Lock c = (if dy_locked c then None else Some (c\<lparr>dy_locked := True\<rparr>))"

definition dy_Unlock :: "('k, 'v, 'm) dynamic_lfu \<Rightarrow> ('k, 'v, 'm) dynamic_lfu" where
  "dy_Unlock c = c\<lparr>dy_locked := False\<rparr>"

definition dy_SetCapacityController ::
    "('k, 'v, 'm) dynamic_lfu \<Rightarrow> 'm controller option \<Rightarrow> ('k, 'v, 'm) dynamic_lfu" where
  "dy_SetCapacityController c controller =
     (case controller of None \<Rightarrow> c | Some ctl \<Rightarrow> c\<lparr>dy_controller := ctl\<rparr>)"

definition dy_EnableAutoGrow :: "('k, 'v, 'm) dynamic_lfu \<Rightarrow> bool \<Rightarrow> ('k, 'v, 'm) dynamic_lfu" where
  "dy_EnableAutoGrow c enabled = c\<lparr>dy_autoGrow := enabled\<rparr>"

definition dy_EnableAutoShrink :: "('k, 'v, 'm) dynamic_lfu \<Rightarrow> bool \<Rightarrow> ('k, 'v, 'm) dynamic_lfu" where
  "dy_EnableAutoShrink c enabled = c\<lparr>dy_autoShrink := enabled\<rparr>"

definition dy_SetCapacityLimits ::
    "('k, 'v, 'm) dynamic_lfu \<Rightarrow> int \<Rightarrow> int \<Rightarrow> ('k, 'v, 'm) dynamic_lfu option" where
  "dy_SetCapacityLimits c lo hi =
     do { c \<leftarrow> dy_Lock c;
          let lo = (if lo < 1 then 1 else lo);
              hi = (if hi < lo then lo else hi);
              c = c\<lparr>dy_minCapacity := lo, dy_maxCapacity := hi\<rparr>;
              current = lfu_Capacity (dy_LFU c)
          in do {
            l \<leftarrow> (if current < lo then lfu_Resize (dy_LFU c) lo
                  else if current > hi then lfu_Resize (dy_LFU c) hi
                  else Some (dy_LFU c));
            Some (dy_Unlock (c\<lparr>dy_LFU := l\<rparr>)) } }"

definition dy_getStats :: "'m \<Rightarrow> ('k, 'v, 'm) dynamic_lfu \<Rightarrow> 'm cache_stats" where
  "dy_getStats mem c = \<lparr>cs_Capacity = lfu_Capacity (dy_LFU c), cs_Size = lfu_Len (dy_LFU c),
     cs_Mem = mem, cs_LastResizeSize = dy_lastResizeSize c\<rparr>"

definition dy_Resize :: "('k, 'v, 'm) dynamic_lfu \<Rightarrow> int \<Rightarrow> ('k, 'v, 'm) dynamic_lfu option" where
  "dy_Resize c newCapacity =
     do { c \<leftarrow> dy_Lock c;
          let n = (if newCapacity < 1 then 1 else newCapacity);
              n = (if n < dy_minCapacity c then dy_minCapacity c else n);
              n = (if n > dy_maxCapacity c then dy_maxCapacity c else n)
          in do { l \<leftarrow> lfu_Resize (dy_LFU c) n; Some (dy_Unlock (c\<lparr>dy_LFU := l\<rparr>)) } }"

definition dy_tryAutoGrow :: "'m \<Rightarrow> ('k, 'v, 'm) dynamic_lfu \<Rightarrow> ('k, 'v, 'm) dynamic_lfu option" where
  "dy_tryAutoGrow mem c =
     (if \<not> ShouldGrow (dy_controller c) (dy_getStats mem c) then Some c
      else let current = lfu_Capacity (dy_LFU c);
               new = NextCapacity (dy_controller c) current True;
               new = (if new > dy_maxCapacity c then dy_maxCapacity c else new)
           in if new > current then do {
                l \<leftarrow> lfu_Resize (dy_LFU c) new;
                Some (c\<lparr>dy_LFU := l, dy_lastResizeSize := lfu_Len l\<rparr>) }
              else Some c)"

definition dy_tryAutoShrink :: "'m \<Rightarrow> ('k, 'v, 'm) dynamic_lfu \<Rightarrow> ('k, 'v, 'm) dynamic_lfu option" where
  "dy_tryAutoShrink mem c =
     (if \<not> ShouldShrink (dy_controller c) (dy_getStats mem c) then Some c
      else let current = lfu_Capacity (dy_LFU c);
               new = NextCapacity (dy_controller c) current False;
               new = (if new < dy_minCapacity c then dy_minCapacity c else new)
           in if new < current then do {
                c \<leftarrow> dy_Resize c new;
                Some (c\<lparr>dy_lastResizeSize := lfu_Len (dy_LFU c)\<rparr>) }
              else Some c)"

definition dy_Get :: "('k, 'v, 'm) dynamic_lfu \<Rightarrow> 'k \<Rightarrow> ('v option \<times> ('k, 'v, 'm) dynamic_lfu) option" where
  "dy_Get c key =
     do { c \<leftarrow> dy_Lock c;
          (v, l) \<leftarrow> lfu_Get (dy_LFU c) key;
          let c = c\<lparr>dy_LFU := l\<rparr>
          in case v of
               None \<Rightarrow> Some (None, dy_Unlock (c\<lparr>dy_misses := dy_misses c + 1\<rparr>))
             | Some x \<Rightarrow> Some (Some x, dy_Unlock (c\<lparr>dy_hits := dy_hits c + 1\<rparr>)) }"

text \<open>The statistics of the runtime are read once for growing and once for shrinking.\<close>

definition dy_Set ::
    "'m \<Rightarrow> 'm \<Rightarrow> ('k, 'v, 'm) dynamic_lfu \<Rightarrow> 'k \<Rightarrow> 'v \<Rightarrow> (bool \<times> ('k, 'v, 'm) dynamic_lfu) option" where
  "dy_Set mem mem' c key val =
     do { c \<leftarrow> dy_Lock c;
          c \<leftarrow> (if dy_autoGrow c then dy_tryAutoGrow mem c else Some c);
          c \<leftarrow> (if dy_autoShrink c then dy_tryAutoShrink mem' c else Some c);
          (b, l) \<leftarrow> lfu_Set (dy_LFU c) key val;
          Some (b, dy_Unlock (c\<lparr>dy_LFU := l\<rparr>)) }"

definition dy_Delete :: "('k, 'v, 'm) dynamic_lfu \<Rightarrow> 'k \<Rightarrow> (bool \<times> ('k, 'v, 'm) dynamic_lfu) option" where
  "dy_Delete c key =
     do { c \<leftarrow> dy_Lock c;
          (b, l) \<leftarrow> lfu_Delete (dy_LFU c) key;
          Some (b, dy_Unlock (c\<lparr>dy_LFU := l\<rparr>)) }"

definition dy_Len :: "('k, 'v, 'm) dynamic_lfu \<Rightarrow> int" where
  "dy_Len c = lfu_Len (dy_LFU c)"

definition dy_Capacity :: "('k, 'v, 'm) dynamic_lfu \<Rightarrow> int" where
  "dy_Capacity c = lfu_Capacity (dy_LFU c)"

definition dy_Clear :: "('k, 'v, 'm) dynamic_lfu \<Rightarrow> ('k, 'v, 'm) dynamic_lfu option" where
  "dy_Clear c =
     do { c \<leftarrow> dy_Lock c;
          Some (dy_Unlock (c\<lparr>dy_LFU := lfu_Clear (dy_LFU c), dy_hits := 0, dy_misses := 0\<rparr>)) }"

section \<open>Growing\<close>

definition dy_ok :: "('k, 'v, 'm) dynamic_lfu \<Rightarrow> bool" where
  "dy_ok c \<longleftrightarrow> \<not> dy_locked c \<and> (\<exists>n xs. lfu_rel n (dy_LFU c) xs \<and> int n \<le> dy_maxCapacity c)"

lemma lfu_rel_grow:
  assumes "lfu_rel n c xs" and "int n < m"
  shows "\<exists>c'. lfu_Resize c m = Some c' \<and> lfu_rel (nat m) c' xs"
proof -
  have repr: "lfu_repr c xs" and n: "0 < n" "length xs \<le> n" using assms by (auto simp: lfu_rel_def)
  have "lfu_Resize c m = Some (c\<lparr>lfu_capacity := m\<rparr>)"
    using lfu_repr_length [OF repr] n assms(2) by (intro lfu_Resize_grow) linarith+
  moreover have "lfu_rel (nat m) (c\<lparr>lfu_capacity := m\<rparr>) xs"
    using assms n by (auto simp: lfu_rel_def lfu_repr_def)
  ultimately show ?thesis by blast
qed

lemma dy_tryAutoGrow_rel:
  assumes rel: "lfu_rel n (dy_LFU c) xs" and max: "int n \<le> dy_maxCapacity c"
  shows "\<exists>c' m. dy_tryAutoGrow mem c = Some c' \<and> lfu_rel m (dy_LFU c') xs \<and> n \<le> m
    \<and> int m \<le> dy_maxCapacity c \<and> dy_locked c' = dy_locked c \<and> dy_maxCapacity c' = dy_maxCapacity c
    \<and> dy_autoShrink c' = dy_autoShrink c"
proof -
  let ?cur = "lfu_Capacity (dy_LFU c)"
  let ?next = "NextCapacity (dy_controller c) ?cur True"
  let ?new = "if ?next > dy_maxCapacity c then dy_maxCapacity c else ?next"
  have cur: "?cur = int n" using rel by (simp add: lfu_rel_def lfu_Capacity_def)
  show ?thesis
  proof (cases "ShouldGrow (dy_controller c) (dy_getStats mem c) \<and> ?new > ?cur")
    case True
    then have lt: "int n < ?new" using cur by simp
    from lfu_rel_grow [OF rel lt] obtain l where
      l: "lfu_Resize (dy_LFU c) ?new = Some l" "lfu_rel (nat ?new) l xs" by blast
    with True have "dy_tryAutoGrow mem c = Some (c\<lparr>dy_LFU := l, dy_lastResizeSize := lfu_Len l\<rparr>)"
      by (simp add: dy_tryAutoGrow_def Let_def)
    with l(2) lt max show ?thesis
      by (intro exI [of _ "c\<lparr>dy_LFU := l, dy_lastResizeSize := lfu_Len l\<rparr>"] exI [of _ "nat ?new"]) auto
  next
    case False
    then have "dy_tryAutoGrow mem c = Some c" by (auto simp: dy_tryAutoGrow_def Let_def)
    with rel max show ?thesis by auto
  qed
qed

section \<open>Properties\<close>

text \<open>With shrinking off, as it is by default, every \<open>Set\<close> returns, stores its value and keeps the
  capacity between the capacity before and the maximum, whatever the controller decides.\<close>

theorem DynamicLFU_Set_grows_within_limits:
  assumes ok: "dy_ok c" and "\<not> dy_autoShrink c"
  shows "\<exists>c' c''. dy_Set mem mem' c k v = Some (True, c') \<and> dy_ok c'
    \<and> dy_Get c' k = Some (Some v, c'')
    \<and> dy_Capacity c \<le> dy_Capacity c' \<and> dy_Capacity c' \<le> dy_maxCapacity c
    \<and> dy_Len c' \<le> dy_Capacity c'"
proof -
  from ok obtain n xs where rel: "lfu_rel n (dy_LFU c) xs" and n: "int n \<le> dy_maxCapacity c"
    and unlocked: "\<not> dy_locked c" by (auto simp: dy_ok_def)
  let ?c = "c\<lparr>dy_locked := True\<rparr>"
  have grow: "\<exists>c1 m. (if dy_autoGrow ?c then dy_tryAutoGrow mem ?c else Some ?c) = Some c1
    \<and> lfu_rel m (dy_LFU c1) xs \<and> n \<le> m \<and> int m \<le> dy_maxCapacity c
    \<and> dy_maxCapacity c1 = dy_maxCapacity c \<and> \<not> dy_autoShrink c1"
  proof (cases "dy_autoGrow ?c")
    case True
    from dy_tryAutoGrow_rel [of n ?c xs mem] rel n assms(2) True show ?thesis by auto
  next
    case False
    with rel n assms(2) show ?thesis by auto
  qed
  then obtain c1 m where c1: "(if dy_autoGrow ?c then dy_tryAutoGrow mem ?c else Some ?c) = Some c1"
    "lfu_rel m (dy_LFU c1) xs" "n \<le> m" "int m \<le> dy_maxCapacity c"
    "dy_maxCapacity c1 = dy_maxCapacity c" "\<not> dy_autoShrink c1" by blast
  let ?xs = "snd (lfu_spec m xs (FSet k v))"
  from lfu.step_refines [OF c1(2), of "FSet k v"] obtain l where
    l: "lfu_Set (dy_LFU c1) k v = Some (True, l)" "lfu_rel m l ?xs"
    by (auto split: bind_splits option.splits)
  let ?c' = "dy_Unlock (c1\<lparr>dy_LFU := l\<rparr>)"
  have set: "dy_Set mem mem' c k v = Some (True, ?c')"
    using unlocked c1(1,6) l(1) by (simp add: dy_Set_def dy_Lock_def)
  have ok': "dy_ok ?c'" using l(2) c1(4,5) by (auto simp: dy_ok_def dy_Unlock_def)
  have "\<exists>f. map_of ?xs k = Some (v, f)" by (auto split: option.splits)
  then obtain f where f: "map_of ?xs k = Some (v, f)" ..
  from lfu.step_refines [OF l(2), of "FGet k"] f obtain l' where
    "lfu_Get l k = Some (Some v, l')" by (auto split: bind_splits simp del: lfu_spec.simps(2))
  then have get: "\<exists>c''. dy_Get ?c' k = Some (Some v, c'')"
    by (simp add: dy_Get_def dy_Lock_def dy_Unlock_def)
  have "dy_Capacity c = int n" "dy_Capacity ?c' = int m"
    using rel l(2) by (simp_all add: dy_Capacity_def lfu_Capacity_def lfu_rel_def dy_Unlock_def)
  moreover have "dy_Len ?c' \<le> int m"
    using l(2) lfu_repr_length [of l ?xs] by (simp add: dy_Len_def lfu_Len_def lfu_rel_def dy_Unlock_def)
  ultimately show ?thesis using set ok' get c1(3,4) by auto
qed

theorem DynamicLFU_Set_grows_within_limits_witness:
  "\<exists>c :: (nat, bool, unit) dynamic_lfu. \<exists>c' c''.
    dy_Set () () c 7 True = Some (True, c') \<and> dy_Get c' 7 = Some (Some True, c'')
    \<and> dy_Capacity c = 2 \<and> dy_Capacity c' \<le> 2000"
proof -
  let ?c = "NewDynamicLFU \<lparr>ShouldGrow = \<lambda>_. True, ShouldShrink = \<lambda>_. True, NextCapacity = \<lambda>n _. 2 * n\<rparr> 2
    :: (nat, bool, unit) dynamic_lfu"
  have "dy_ok ?c" using NewLFU_rel [of 2] by (auto simp: dy_ok_def NewDynamicLFU_def)
  moreover have "\<not> dy_autoShrink ?c" "dy_maxCapacity ?c = 2000" "dy_Capacity ?c = 2"
    by (simp_all add: NewDynamicLFU_def dy_Capacity_def lfu_Capacity_def NewLFU_def)
  ultimately show ?thesis using DynamicLFU_Set_grows_within_limits [of ?c "()" "()" 7 True] by metis
qed

text \<open>With automatic shrinking enabled, a \<open>Set\<close> that finds the controller in favour of a smaller
  capacity never returns: it calls \<open>Resize\<close>, which waits for the lock that \<open>Set\<close> holds.\<close>

theorem DynamicLFU_shrink_deadlocks:
  assumes "dy_autoShrink c" and "\<not> dy_autoGrow c"
    and "ShouldShrink (dy_controller c) (dy_getStats mem' c)"
    and "NextCapacity (dy_controller c) (dy_Capacity c) False < dy_Capacity c"
    and "dy_minCapacity c < dy_Capacity c"
  shows "dy_Set mem mem' c k v = None"
proof (cases "dy_locked c")
  case True
  then show ?thesis by (simp add: dy_Set_def dy_Lock_def)
next
  case False
  have "dy_getStats mem' (c\<lparr>dy_locked := True\<rparr>) = dy_getStats mem' c" by (simp add: dy_getStats_def)
  with False assms show ?thesis
    by (simp add: dy_Set_def dy_Lock_def dy_tryAutoShrink_def dy_Capacity_def Let_def dy_Resize_def)
qed

theorem DynamicLFU_shrink_deadlocks_witness:
  "\<exists>c :: (nat, bool, unit) dynamic_lfu. \<not> dy_locked c \<and> dy_Set () () c 1 True = None"
proof -
  let ?c = "dy_EnableAutoGrow (dy_EnableAutoShrink (NewDynamicLFU
    \<lparr>ShouldGrow = \<lambda>_. True, ShouldShrink = \<lambda>_. True, NextCapacity = \<lambda>n _. n div 2\<rparr> 8) True) False
    :: (nat, bool, unit) dynamic_lfu"
  have "dy_Set () () ?c 1 True = None"
    by (rule DynamicLFU_shrink_deadlocks)
      (simp_all add: NewDynamicLFU_def dy_EnableAutoGrow_def dy_EnableAutoShrink_def dy_Capacity_def
        lfu_Capacity_def NewLFU_def)
  then show ?thesis by (intro exI [of _ ?c])
    (simp add: NewDynamicLFU_def dy_EnableAutoGrow_def dy_EnableAutoShrink_def)
qed

end
