(* ===== verification/CircuitBreaker.thy ===== *)
theory CircuitBreaker
  imports Interfaces
begin

text \<open>
  \<open>stability/circuit_breaker.go\<close> and \<open>stability/default_circuit_breaker.go\<close>: the circuit breaker, a
  state machine over closed, open and half-open, and the metrics collector that listens to it.
  \<open>time.Now()\<close> is an argument of each method. The errors of the protected function are of any type
  \<open>'e\<close>, a nil error is \<open>None\<close>. Calls of the callback of the configuration and of the listeners are
  recorded in the order in which they are started. Calling a nil function of the configuration
  panics: the result \<open>None\<close>.

  A request is two steps, admission and result, and other calls may come in between:
  \<open>cb_event\<close> lists the calls, and a run is any sequence of them.
\<close>

section \<open>Configuration and counts\<close>

datatype cb_state = StateClosed | StateOpen | StateHalfOpen

definition cb_String :: "cb_state \<Rightarrow> string" where
  "cb_String s = (case s of StateClosed \<Rightarrow> ''closed'' | StateOpen \<Rightarrow> ''open'' | StateHalfOpen \<Rightarrow> ''half-open'')"

record counts =
  Requests :: "64 word"
  TotalSuccesses :: "64 word"
  TotalFailures :: "64 word"
  ConsecutiveSuccesses :: "64 word"
  ConsecutiveFailures :: "64 word"

definition no_counts :: counts where
  "no_counts = \<lparr>Requests = 0, TotalSuccesses = 0, TotalFailures = 0, ConsecutiveSuccesses = 0,
     ConsecutiveFailures = 0\<rparr>"

record 'e cb_config =
  Name :: string
  MaxRequests :: "32 word"
  Interval :: duration
  Timeout :: duration
  ReadyToTrip :: "(counts \<Rightarrow> bool) option"
  HasOnStateChange :: bool
  IsSuccessful :: "('e option \<Rightarrow> bool) option"

text \<open>One minute in nanoseconds.\<close>

definition minute :: duration where
  "minute = 60 * 1000000000"

definition DefaultConfig :: "'e cb_config" where
  "DefaultConfig = \<lparr>Name = ''default'', MaxRequests = 1, Interval = minute, Timeout = minute,
     ReadyToTrip = Some (\<lambda>counts. ConsecutiveFailures counts > 5), HasOnStateChange = False,
     IsSuccessful = Some (\<lambda>err. err = None)\<rparr>"

section \<open>The breaker\<close>

text \<open>A notification: the configured callback, or a listener, with the old and the new state.\<close>

datatype 'l notification = Callback string cb_state cb_state | Listener 'l string cb_state cb_state

record ('e, 'l) breaker =
  cb_config :: "'e cb_config"
  cb_counts :: counts
  cb_state :: cb_state
  cb_openTime :: time
  cb_lastClearTime :: time
  cb_listeners :: "'l list"
  cb_notified :: "'l notification list"

definition NewCircuitBreaker :: "time \<Rightarrow> 'e cb_config \<Rightarrow> ('e, 'l) breaker" where
  "NewCircuitBreaker now config =
     (let config = (if MaxRequests config = 0 then config\<lparr>MaxRequests := 1\<rparr> else config);
          config = (if Interval config = 0 then config\<lparr>Interval := minute\<rparr> else config);
          config = (if Timeout config = 0 then config\<lparr>Timeout := minute\<rparr> else config);
          config = (if ReadyToTrip config = None
                    then config\<lparr>ReadyToTrip := Some (\<lambda>counts. ConsecutiveFailures counts > 5)\<rparr> else config);
          config = (if IsSuccessful config = None
                    then config\<lparr>IsSuccessful := Some (\<lambda>err. err = None)\<rparr> else config)
      in \<lparr>cb_config = config, cb_counts = no_counts, cb_state = StateClosed, cb_openTime = 0,
          cb_lastClearTime = now, cb_listeners = [], cb_notified = []\<rparr>)"

definition cb_notifyStateChange ::
    "('e, 'l) breaker \<Rightarrow> cb_state \<Rightarrow> cb_state \<Rightarrow> ('e, 'l) breaker" where
  "cb_notifyStateChange cb from to = cb\<lparr>cb_notified := cb_notified cb
     @ (if HasOnStateChange (cb_config cb) then [Callback (Name (cb_config cb)) from to] else [])
     @ map (\<lambda>l. Listener l (Name (cb_config cb)) from to) (cb_listeners cb)\<rparr>"

definition cb_currentState :: "time \<Rightarrow> ('e, 'l) breaker \<Rightarrow> cb_state \<times> ('e, 'l) breaker" where
  "cb_currentState now cb =
     (case cb_state cb of
        StateClosed \<Rightarrow>
          (StateClosed,
           if Interval (cb_config cb) > 0 \<and> now - cb_lastClearTime cb > Interval (cb_config cb)
           then cb\<lparr>cb_counts := no_counts, cb_lastClearTime := now\<rparr> else cb)
      | StateOpen \<Rightarrow>
          if now - cb_openTime cb > Timeout (cb_config cb)
          then (StateHalfOpen,
                cb_notifyStateChange
                  (cb\<lparr>cb_state := StateHalfOpen, cb_counts := no_counts, cb_lastClearTime := now\<rparr>)
                  StateOpen StateHalfOpen)
          else (StateOpen, cb)
      | StateHalfOpen \<Rightarrow> (StateHalfOpen, cb))"

definition cb_allowRequest :: "time \<Rightarrow> ('e, 'l) breaker \<Rightarrow> bool \<times> ('e, 'l) breaker" where
  "cb_allowRequest now cb =
     (let (state, cb) = cb_currentState now cb
      in (case state of
            StateClosed \<Rightarrow> True
          | StateOpen \<Rightarrow> False
          | StateHalfOpen \<Rightarrow> Requests (cb_counts cb) < ucast (MaxRequests (cb_config cb)), cb))"

definition cb_CanExecute :: "time \<Rightarrow> ('e, 'l) breaker \<Rightarrow> bool \<times> ('e, 'l) breaker" where
  "cb_CanExecute now cb = cb_allowRequest now cb"

definition cb_State :: "time \<Rightarrow> ('e, 'l) breaker \<Rightarrow> cb_state \<times> ('e, 'l) breaker" where
  "cb_State now cb = cb_currentState now cb"

definition cb_IsOpen :: "time \<Rightarrow> ('e, 'l) breaker \<Rightarrow> bool \<times> ('e, 'l) breaker" where
  "cb_IsOpen now cb = (let (s, cb) = cb_State now cb in (s = StateOpen, cb))"

definition cb_IsHalfOpen :: "time \<Rightarrow> ('e, 'l) breaker \<Rightarrow> bool \<times> ('e, 'l) breaker" where
  "cb_IsHalfOpen now cb = (let (s, cb) = cb_State now cb in (s = StateHalfOpen, cb))"

definition cb_IsClosed :: "time \<Rightarrow> ('e, 'l) breaker \<Rightarrow> bool \<times> ('e, 'l) breaker" where
  "cb_IsClosed now cb = (let (s, cb) = cb_State now cb in (s = StateClosed, cb))"

definition cb_Reset :: "time \<Rightarrow> ('e, 'l) breaker \<Rightarrow> ('e, 'l) breaker" where
  "cb_Reset now cb =
     (let old = cb_state cb;
          cb = cb\<lparr>cb_state := StateClosed, cb_counts := no_counts, cb_openTime := 0, cb_lastClearTime := now\<rparr>
      in if old \<noteq> StateClosed then cb_notifyStateChange cb old StateClosed else cb)"

definition cb_Trip :: "time \<Rightarrow> ('e, 'l) breaker \<Rightarrow> ('e, 'l) breaker" where
  "cb_Trip now cb =
     (let old = cb_state cb;
          cb = cb\<lparr>cb_state := StateOpen, cb_openTime := now\<rparr>
      in if old \<noteq> StateOpen then cb_notifyStateChange cb old StateOpen else cb)"

definition cb_GetCounts :: "('e, 'l) breaker \<Rightarrow> counts" where
  "cb_GetCounts cb = cb_counts cb"

definition cb_GetConfig :: "('e, 'l) breaker \<Rightarrow> 'e cb_config" where
  "cb_GetConfig cb = cb_config cb"

datatype cb_config_error = ErrInvalidMaxRequests | ErrInvalidInterval | ErrInvalidTimeout

definition cb_UpdateConfig :: "('e, 'l) breaker \<Rightarrow> 'e cb_config \<Rightarrow> cb_config_error option \<times> ('e, 'l) breaker" where
  "cb_UpdateConfig cb config =
     (if MaxRequests config = 0 then (Some ErrInvalidMaxRequests, cb)
      else if Interval config \<le> 0 then (Some ErrInvalidInterval, cb)
      else if Timeout config \<le> 0 then (Some ErrInvalidTimeout, cb)
      else (None, cb\<lparr>cb_config := config\<rparr>))"

definition cb_Subscribe :: "('e, 'l) breaker \<Rightarrow> 'l \<Rightarrow> ('e, 'l) breaker" where
  "cb_Subscribe cb l = cb\<lparr>cb_listeners := cb_listeners cb @ [l]\<rparr>"

text \<open>\<open>Unsubscribe\<close> compares the address of its loop variable with the address of its parameter,
  two different variables, and never the listeners they hold.\<close>

datatype address = LoopVariable | Parameter

fun cb_Unsubscribe_loop :: "'l list \<Rightarrow> 'l list \<Rightarrow> 'l list" where
  "cb_Unsubscribe_loop seen [] = seen"
| "cb_Unsubscribe_loop seen (l # ls) =
     (if LoopVariable = Parameter then seen @ ls else cb_Unsubscribe_loop (seen @ [l]) ls)"

definition cb_Unsubscribe :: "('e, 'l) breaker \<Rightarrow> 'l \<Rightarrow> ('e, 'l) breaker" where
  "cb_Unsubscribe cb listener = cb\<lparr>cb_listeners := cb_Unsubscribe_loop [] (cb_listeners cb)\<rparr>"

lemma Unsubscribe_loop_keeps: "cb_Unsubscribe_loop seen ls = seen @ ls"
  by (induction ls arbitrary: seen) simp_all

text \<open>So a listener is never removed.\<close>

lemma Unsubscribe_keeps: "cb_Unsubscribe cb l = cb"
  by (simp add: cb_Unsubscribe_def Unsubscribe_loop_keeps)

definition cb_onSuccess :: "time \<Rightarrow> ('e, 'l) breaker \<Rightarrow> ('e, 'l) breaker" where
  "cb_onSuccess now cb =
     (let k = cb_counts cb;
          k = k\<lparr>TotalSuccesses := TotalSuccesses k + 1, ConsecutiveSuccesses := ConsecutiveSuccesses k + 1,
                ConsecutiveFailures := 0\<rparr>;
          cb = cb\<lparr>cb_counts := k\<rparr>
      in if cb_state cb = StateHalfOpen
           \<and> ConsecutiveSuccesses k \<ge> ucast (MaxRequests (cb_config cb))
         then cb_notifyStateChange
                (cb\<lparr>cb_state := StateClosed, cb_counts := no_counts, cb_lastClearTime := now\<rparr>)
                StateHalfOpen StateClosed
         else cb)"

definition cb_onFailure :: "time \<Rightarrow> ('e, 'l) breaker \<Rightarrow> ('e, 'l) breaker option" where
  "cb_onFailure now cb =
     (let k = cb_counts cb;
          k = k\<lparr>TotalFailures := TotalFailures k + 1, ConsecutiveFailures := ConsecutiveFailures k + 1,
                ConsecutiveSuccesses := 0\<rparr>;
          cb = cb\<lparr>cb_counts := k\<rparr>
      in case cb_state cb of
           StateClosed \<Rightarrow>
             do { ready \<leftarrow> ReadyToTrip (cb_config cb);
                  Some (if ready k
                        then cb_notifyStateChange (cb\<lparr>cb_state := StateOpen, cb_openTime := now\<rparr>)
                               StateClosed StateOpen
                        else cb) }
         | StateHalfOpen \<Rightarrow>
             Some (cb_notifyStateChange (cb\<lparr>cb_state := StateOpen, cb_openTime := now\<rparr>)
                     StateHalfOpen StateOpen)
         | StateOpen \<Rightarrow> Some cb)"

definition cb_recordResult :: "time \<Rightarrow> 'e option \<Rightarrow> ('e, 'l) breaker \<Rightarrow> ('e, 'l) breaker option" where
  "cb_recordResult now err cb =
     (let cb = cb\<lparr>cb_counts := (cb_counts cb)\<lparr>Requests := Requests (cb_counts cb) + 1\<rparr>\<rparr>
      in do { ok \<leftarrow> IsSuccessful (cb_config cb);
              if ok err then Some (cb_onSuccess now cb) else cb_onFailure now cb })"

text \<open>\<open>ExecuteWithContext\<close> with no other call in between: the admission at \<open>t\<close>, the function, which
  returns a result and an error, and the recording at \<open>t'\<close>. A rejected request does not run the
  function and reports the state.\<close>

definition cb_ExecuteWithContext ::
    "time \<Rightarrow> time \<Rightarrow> ('r \<times> 'e option) \<Rightarrow> ('e, 'l) breaker
     \<Rightarrow> ((cb_state + ('r \<times> 'e option)) \<times> ('e, 'l) breaker) option" where
  "cb_ExecuteWithContext t t' outcome cb =
     (let (allowed, cb) = cb_allowRequest t cb
      in if \<not> allowed then (let (s, cb) = cb_State t' cb in Some (Inl s, cb))
         else do { cb \<leftarrow> cb_recordResult t' (snd outcome) cb; Some (Inr outcome, cb) })"

definition cb_Call ::
    "time \<Rightarrow> time \<Rightarrow> 'e option \<Rightarrow> ('e, 'l) breaker
     \<Rightarrow> ((cb_state + 'e option) \<times> ('e, 'l) breaker) option" where
  "cb_Call t t' err cb =
     map_option (\<lambda>(r, cb). (map_sum id snd r, cb)) (cb_ExecuteWithContext t t' ((), err) cb)"

section \<open>The metrics collector\<close>

record metrics =
  mc_stateHistory :: "(time \<times> cb_state \<times> cb_state \<times> string) list"
  mc_latencies :: "duration list"

definition NewMetricsCollector :: metrics where
  "NewMetricsCollector = \<lparr>mc_stateHistory = [], mc_latencies = []\<rparr>"

definition mc_OnStateChange :: "time \<Rightarrow> metrics \<Rightarrow> string \<Rightarrow> cb_state \<Rightarrow> cb_state \<Rightarrow> metrics" where
  "mc_OnStateChange now mc name from to =
     mc\<lparr>mc_stateHistory := mc_stateHistory mc @ [(now, from, to, ''state transition'')]\<rparr>"

definition mc_RecordLatency :: "metrics \<Rightarrow> duration \<Rightarrow> metrics" where
  "mc_RecordLatency mc d = mc\<lparr>mc_latencies := mc_latencies mc @ [d]\<rparr>"

record latency_stats =
  Mean :: duration
  MinLat :: duration
  MaxLat :: duration
  CountLat :: nat

fun mc_scan :: "duration \<times> duration \<times> duration \<Rightarrow> duration list \<Rightarrow> duration \<times> duration \<times> duration" where
  "mc_scan (acc, lo, hi) [] = (acc, lo, hi)"
| "mc_scan (acc, lo, hi) (lat # lats) =
     mc_scan (acc + lat, if lat < lo then lat else lo, if lat > hi then lat else hi) lats"

text \<open>The percentiles of the result are all the mean; sums are not wrapped to 64 bits.\<close>

definition mc_GetLatencyStats :: "metrics \<Rightarrow> latency_stats" where
  "mc_GetLatencyStats mc =
     (case mc_latencies mc of
        [] \<Rightarrow> \<lparr>Mean = 0, MinLat = 0, MaxLat = 0, CountLat = 0\<rparr>
      | l # ls \<Rightarrow>
          let (acc, lo, hi) = mc_scan (0, l, l) (l # ls)
          in \<lparr>Mean = go_div acc (int (length (l # ls))), MinLat = lo, MaxLat = hi,
              CountLat = length (l # ls)\<rparr>)"

definition mc_Reset :: "metrics \<Rightarrow> metrics" where
  "mc_Reset mc = mc\<lparr>mc_stateHistory := [], mc_latencies := []\<rparr>"

section \<open>Runs of calls\<close>

text \<open>Admissions and results may come in any order, from any number of requests in flight.\<close>

datatype ('e, 'l) cb_event =
    Admit time | Result time "'e option" | QueryState time | DoReset time | DoTrip time | DoSubscribe 'l

fun cb_apply :: "('e, 'l) breaker \<Rightarrow> ('e, 'l) cb_event \<Rightarrow> (unit \<times> ('e, 'l) breaker) option" where
  "cb_apply cb (Admit now) = Some ((), snd (cb_allowRequest now cb))"
| "cb_apply cb (Result now err) = map_option (Pair ()) (cb_recordResult now err cb)"
| "cb_apply cb (QueryState now) = Some ((), snd (cb_State now cb))"
| "cb_apply cb (DoReset now) = Some ((), cb_Reset now cb)"
| "cb_apply cb (DoTrip now) = Some ((), cb_Trip now cb)"
| "cb_apply cb (DoSubscribe l) = Some ((), cb_Subscribe cb l)"

text \<open>The changes the configured callback was told about, and that they form a path.\<close>

definition reported :: "'l notification list \<Rightarrow> (cb_state \<times> cb_state) list" where
  "reported ns = concat (map (\<lambda>n. case n of Callback _ a b \<Rightarrow> [(a, b)] | _ \<Rightarrow> []) ns)"

fun state_path :: "cb_state \<Rightarrow> (cb_state \<times> cb_state) list \<Rightarrow> cb_state \<Rightarrow> bool" where
  "state_path s [] t \<longleftrightarrow> s = t"
| "state_path s ((a, b) # cs) t \<longleftrightarrow> s = a \<and> a \<noteq> b \<and> state_path b cs t"

lemma state_path_snoc: "state_path s cs t \<Longrightarrow> t \<noteq> u \<Longrightarrow> state_path s (cs @ [(t, u)]) u"
  by (induction s cs t rule: state_path.induct) auto

lemma reported_append [simp]: "reported (xs @ ys) = reported xs @ reported ys"
  by (simp add: reported_def)

lemma reported_simps [simp]:
  "reported [] = []" "reported (Callback n a b # ns) = (a, b) # reported ns"
  by (simp_all add: reported_def)

lemma reported_listeners [simp]: "reported (map (\<lambda>l. Listener l n a b) ls) = []"
  by (simp add: reported_def)

definition cb_tracked :: "('e, 'l) breaker \<Rightarrow> bool" where
  "cb_tracked cb \<longleftrightarrow> HasOnStateChange (cb_config cb)
     \<and> state_path StateClosed (reported (cb_notified cb)) (cb_state cb)"

lemma cb_notify_tracked:
  assumes "cb_tracked cb" and "cb_state cb \<noteq> s" and "cb_notified cb' = cb_notified cb"
    and "cb_config cb' = cb_config cb" and "cb_state cb' = s"
  shows "cb_tracked (cb_notifyStateChange cb' (cb_state cb) s)"
  using assms state_path_snoc [of StateClosed "reported (cb_notified cb)" "cb_state cb" s]
  by (simp add: cb_tracked_def cb_notifyStateChange_def)

lemma cb_currentState_tracked:
  assumes "cb_tracked cb"
  shows "cb_tracked (snd (cb_currentState now cb))"
proof (cases "cb_state cb")
  case StateClosed
  with assms show ?thesis by (simp add: cb_currentState_def cb_tracked_def)
next
  case StateOpen
  with assms cb_notify_tracked [OF assms, of StateHalfOpen
      "cb\<lparr>cb_state := StateHalfOpen, cb_counts := no_counts, cb_lastClearTime := now\<rparr>"]
  show ?thesis by (simp add: cb_currentState_def)
next
  case StateHalfOpen
  with assms show ?thesis by (simp add: cb_currentState_def)
qed

lemma cb_tracked_same:
  "cb_tracked cb \<Longrightarrow> cb_notified cb' = cb_notified cb \<Longrightarrow> cb_config cb' = cb_config cb
   \<Longrightarrow> cb_state cb' = cb_state cb \<Longrightarrow> cb_tracked cb'"
  by (simp add: cb_tracked_def)

lemma cb_recordResult_tracked:
  assumes "cb_tracked cb" and "cb_recordResult now err cb = Some cb'"
  shows "cb_tracked cb'"
proof -
  let ?cb = "cb\<lparr>cb_counts := (cb_counts cb)\<lparr>Requests := Requests (cb_counts cb) + 1\<rparr>\<rparr>"
  have t: "cb_tracked ?cb" using assms(1) by (rule cb_tracked_same) simp_all
  from assms(2) obtain ok where ok: "IsSuccessful (cb_config cb) = Some ok"
    "(if ok err then Some (cb_onSuccess now ?cb) else cb_onFailure now ?cb) = Some cb'"
    by (cases "IsSuccessful (cb_config cb)") (simp_all add: cb_recordResult_def Let_def)
  show ?thesis
  proof (cases "ok err")
    case True
    with ok(2) have cb': "cb' = cb_onSuccess now ?cb" by simp
    have "cb_tracked (cb_onSuccess now ?cb)"
      using cb_notify_tracked [OF t, of StateClosed]
      by (auto simp: cb_onSuccess_def Let_def intro: cb_tracked_same [OF t])
    with cb' show ?thesis by simp
  next
    case False
    with ok(2) have "cb_onFailure now ?cb = Some cb'" by simp
    then show ?thesis
      using cb_notify_tracked [OF t, of StateOpen]
      by (auto simp: cb_onFailure_def Let_def intro: cb_tracked_same [OF t]
          split: cb_state.splits bind_splits if_splits)
  qed
qed

lemma cb_apply_tracked:
  assumes "cb_tracked cb" and "cb_apply cb ev = Some (r, cb')"
  shows "cb_tracked cb'"
proof (cases ev)
  case (Admit now)
  with assms cb_currentState_tracked [OF assms(1), of now] show ?thesis
    by (auto simp: cb_allowRequest_def split_beta Let_def)
next
  case (Result now err)
  with assms cb_recordResult_tracked [OF assms(1)] show ?thesis by auto
next
  case (QueryState now)
  with assms cb_currentState_tracked [OF assms(1), of now] show ?thesis by (auto simp: cb_State_def)
next
  case (DoReset now)
  with assms cb_notify_tracked [OF assms(1), of StateClosed] show ?thesis
    by (cases "cb_state cb = StateClosed") (auto simp: cb_Reset_def Let_def cb_tracked_def)
next
  case (DoTrip now)
  with assms cb_notify_tracked [OF assms(1), of StateOpen] show ?thesis
    by (cases "cb_state cb = StateOpen") (auto simp: cb_Trip_def Let_def cb_tracked_def)
next
  case (DoSubscribe l)
  with assms show ?thesis by (auto simp: cb_Subscribe_def intro: cb_tracked_same [OF assms(1)])
qed

section \<open>Sequences of requests\<close>

fun cb_call_step ::
    "('e, 'l) breaker \<Rightarrow> time \<times> time \<times> 'e option \<Rightarrow> ((cb_state + 'e option) \<times> ('e, 'l) breaker) option" where
  "cb_call_step cb (t, t', err) = cb_Call t t' err cb"

definition closed_with :: "'e cb_config \<Rightarrow> time \<Rightarrow> nat \<Rightarrow> ('e, 'l) breaker \<Rightarrow> bool" where
  "closed_with config t0 j cb \<longleftrightarrow> cb_state cb = StateClosed \<and> cb_config cb = config
     \<and> cb_lastClearTime cb = t0 \<and> ConsecutiveFailures (cb_counts cb) = of_nat j"

definition open_since :: "'e cb_config \<Rightarrow> time \<Rightarrow> ('e, 'l) breaker \<Rightarrow> bool" where
  "open_since config t cb \<longleftrightarrow> cb_state cb = StateOpen \<and> cb_config cb = config \<and> cb_openTime cb = t"

text \<open>The configurations that count an error as a failure and trip after five failures in a row,
  as \<open>NewCircuitBreaker\<close> does by default.\<close>

definition default_trip :: "'e cb_config \<Rightarrow> bool" where
  "default_trip config \<longleftrightarrow> ReadyToTrip config = Some (\<lambda>counts. ConsecutiveFailures counts > 5)
     \<and> IsSuccessful config = Some (\<lambda>err. err = None)"

lemma cb_fail_closed:
  assumes "closed_with config t0 j cb" and "default_trip config" and "t - t0 \<le> Interval config" and "j \<le> 5"
  shows "\<exists>cb'. cb_Call t t' (Some e) cb = Some (Inr (Some e), cb')
    \<and> (if j < 5 then closed_with config t0 (Suc j) cb' else open_since config t' cb')"
proof -
  have "(5 < (of_nat j + 1 :: 64 word)) = (\<not> j < 5)"
    using assms(4) by (auto simp: word_less_nat_alt unat_word_ariths unat_of_nat)
  then show ?thesis
    using assms(1-3)
    by (simp add: closed_with_def open_since_def default_trip_def cb_Call_def cb_ExecuteWithContext_def
        cb_allowRequest_def cb_currentState_def cb_recordResult_def cb_onFailure_def
        cb_notifyStateChange_def Let_def add.commute)
qed

lemma cb_reject_open:
  assumes "open_since config t0 cb" and "t - t0 \<le> Timeout config" and "t' - t0 \<le> Timeout config"
  shows "cb_Call t t' err cb = Some (Inl StateOpen, cb)"
  using assms by (simp add: open_since_def cb_Call_def cb_ExecuteWithContext_def cb_allowRequest_def
      cb_currentState_def cb_State_def Let_def)

lemma cb_reject_all:
  assumes "open_since config t0 cb"
    and "\<forall>(t, t', err) \<in> set calls. t - t0 \<le> Timeout config \<and> t' - t0 \<le> Timeout config"
  shows "run_steps cb_call_step cb calls = Some (replicate (length calls) (Inl StateOpen), cb)"
  using assms(2)
proof (induction calls)
  case Nil
  then show ?case by simp
next
  case (Cons c calls)
  obtain t t' err where c: "c = (t, t', err)" by (cases c)
  with Cons.prems cb_reject_open [OF assms(1), of t t' err] Cons.IH show ?case by simp
qed

lemma cb_fail_all:
  assumes "closed_with config t0 j cb" and "default_trip config" and "j + length calls \<le> 6" and "j < 6"
    and "\<forall>(t, t', err) \<in> set calls. t - t0 \<le> Interval config \<and> err \<noteq> None"
  shows "\<exists>cb'. run_steps cb_call_step cb calls = Some (map (\<lambda>(t, t', err). Inr err) calls, cb')
    \<and> (if j + length calls < 6 then closed_with config t0 (j + length calls) cb'
       else open_since config (fst (snd (last calls))) cb')"
  using assms(1,3-5)
proof (induction calls arbitrary: cb j)
  case Nil
  then show ?case by simp
next
  case (Cons c calls)
  obtain t t' e where c: "c = (t, t', Some e)" and t: "t - t0 \<le> Interval config"
    using Cons.prems(4) by (cases c) auto
  have j: "j \<le> 5" using Cons.prems(2) by simp
  from cb_fail_closed [OF Cons.prems(1) assms(2) t j, of t' e] obtain cb1 where
    cb1: "cb_Call t t' (Some e) cb = Some (Inr (Some e), cb1)"
    "if j < 5 then closed_with config t0 (Suc j) cb1 else open_since config t' cb1" by blast
  show ?case
  proof (cases "j < 5")
    case True
    with Cons.IH [of "Suc j" cb1] cb1 Cons.prems(2,4) show ?thesis by (auto simp: c)
  next
    case False
    with Cons.prems(2) j have "length calls = 0" by (simp del: length_0_conv)
    then have "calls = []" by simp
    with cb1 False j show ?thesis by (simp add: c)
  qed
qed

section \<open>Recovery\<close>

text \<open>In the half-open state with \<open>j\<close> successes and no failure.\<close>

definition half_open_with :: "'e cb_config \<Rightarrow> nat \<Rightarrow> ('e, 'l) breaker \<Rightarrow> bool" where
  "half_open_with config j cb \<longleftrightarrow> cb_state cb = StateHalfOpen \<and> cb_config cb = config
     \<and> Requests (cb_counts cb) = of_nat j \<and> ConsecutiveSuccesses (cb_counts cb) = of_nat j
     \<and> j < unat (MaxRequests config)"

definition closed_fresh :: "'e cb_config \<Rightarrow> time \<Rightarrow> ('e, 'l) breaker \<Rightarrow> bool" where
  "closed_fresh config t cb \<longleftrightarrow> cb_state cb = StateClosed \<and> cb_config cb = config
     \<and> cb_counts cb = no_counts \<and> cb_lastClearTime cb = t"

lemma unat_MaxRequests: "unat (ucast (m :: 32 word) :: 64 word) = unat m"
proof -
  have "unat m < 2 ^ 32" using unsigned_less [of m] by simp
  then have "unat m < 2 ^ 64" by simp
  then show ?thesis by (simp add: unsigned_ucast_eq take_bit_nat_eq_self)
qed

lemma count_less:
  fixes m :: "32 word"
  assumes "j \<le> unat m"
  shows "(of_nat j :: 64 word) < ucast m \<longleftrightarrow> j < unat m"
    and "ucast m \<le> (of_nat j :: 64 word) \<longleftrightarrow> unat m \<le> j"
proof -
  have "unat m < 2 ^ 32" using unsigned_less [of m] by simp
  then have "j < 2 ^ 64" using assms by simp
  then have "unat (of_nat j :: 64 word) = j" by (simp add: unat_of_nat)
  then show "(of_nat j :: 64 word) < ucast m \<longleftrightarrow> j < unat m"
    and "ucast m \<le> (of_nat j :: 64 word) \<longleftrightarrow> unat m \<le> j"
    by (simp_all add: word_less_nat_alt word_le_nat_alt unat_MaxRequests)
qed

lemma cb_half_open_call:
  assumes h: "half_open_with config j cb" and ok: "IsSuccessful config = Some ok" "ok err"
  shows "\<exists>cb'. cb_Call t t' err cb = Some (Inr err, cb')
    \<and> (if Suc j < unat (MaxRequests config) then half_open_with config (Suc j) cb'
       else closed_fresh config t' cb')"
proof -
  have j: "j < unat (MaxRequests config)" using h by (simp add: half_open_with_def)
  then have allowed: "(of_nat j :: 64 word) < ucast (MaxRequests config)" by (simp add: count_less)
  have "ucast (MaxRequests config) \<le> (of_nat (Suc j) :: 64 word) \<longleftrightarrow> unat (MaxRequests config) \<le> Suc j"
    using j by (intro count_less(2)) simp
  then have closes: "ucast (MaxRequests config) \<le> (1 + of_nat j :: 64 word)
      \<longleftrightarrow> \<not> Suc j < unat (MaxRequests config)" by auto
  show ?thesis
    using h ok allowed closes
    by (simp add: half_open_with_def closed_fresh_def cb_Call_def cb_ExecuteWithContext_def
        cb_allowRequest_def cb_currentState_def cb_recordResult_def cb_onSuccess_def
        cb_notifyStateChange_def Let_def add.commute)
qed

lemma cb_half_open_fail:
  assumes h: "half_open_with config j cb" and ok: "IsSuccessful config = Some ok" "\<not> ok err"
  shows "\<exists>cb'. cb_Call t t' err cb = Some (Inr err, cb') \<and> open_since config t' cb'"
proof -
  have "j < unat (MaxRequests config)" using h by (simp add: half_open_with_def)
  then have "(of_nat j :: 64 word) < ucast (MaxRequests config)" by (simp add: count_less)
  then show ?thesis
    using h ok
    by (simp add: half_open_with_def open_since_def cb_Call_def cb_ExecuteWithContext_def
        cb_allowRequest_def cb_currentState_def cb_recordResult_def cb_onFailure_def
        cb_notifyStateChange_def Let_def)
qed

text \<open>After the timeout the first request finds the breaker half-open.\<close>

lemma cb_timeout_half_open:
  assumes "open_since config t0 cb" and "t - t0 > Timeout config" and "MaxRequests config \<noteq> 0"
  shows "\<exists>cb1. half_open_with config 0 cb1 \<and> (\<forall>t' err. cb_Call t t' err cb = cb_Call t t' err cb1)"
proof -
  let ?cb = "cb_notifyStateChange
    (cb\<lparr>cb_state := StateHalfOpen, cb_counts := no_counts, cb_lastClearTime := t\<rparr>) StateOpen StateHalfOpen"
  have "half_open_with config 0 ?cb"
    using assms by (simp add: open_since_def half_open_with_def cb_notifyStateChange_def no_counts_def unat_gt_0)
  moreover have "cb_currentState t cb = (StateHalfOpen, ?cb)" "cb_currentState t ?cb = (StateHalfOpen, ?cb)"
    using assms(1,2) by (simp_all add: open_since_def cb_currentState_def cb_notifyStateChange_def)
  then have "cb_Call t t' err cb = cb_Call t t' err ?cb" for t' err
    by (simp add: cb_Call_def cb_ExecuteWithContext_def cb_allowRequest_def)
  ultimately show ?thesis by blast
qed

lemma cb_recover_from:
  assumes "half_open_with config j cb" and ok: "IsSuccessful config = Some ok"
    and "length calls = unat (MaxRequests config) - j" and "\<forall>(t, t', err) \<in> set calls. ok err"
  shows "\<exists>cb'. run_steps cb_call_step cb calls = Some (map (\<lambda>(t, t', err). Inr err) calls, cb')
    \<and> closed_fresh config (fst (snd (last calls))) cb'"
  using assms(1,3,4)
proof (induction calls arbitrary: j cb)
  case Nil
  then show ?case by (simp add: half_open_with_def)
next
  case (Cons c calls)
  obtain t t' err where c: "c = (t, t', err)" by (cases c)
  with Cons.prems(3) have "ok err" by simp
  from cb_half_open_call [OF Cons.prems(1) ok this] obtain cb1 where
    cb1: "cb_Call t t' err cb = Some (Inr err, cb1)"
    "if Suc j < unat (MaxRequests config) then half_open_with config (Suc j) cb1
     else closed_fresh config t' cb1" by blast
  show ?case
  proof (cases "Suc j < unat (MaxRequests config)")
    case True
    then have "length calls = unat (MaxRequests config) - Suc j" "calls \<noteq> []"
      using Cons.prems(2) by auto
    with Cons.IH [of "Suc j" cb1] cb1 True Cons.prems(3) show ?thesis by (auto simp: c)
  next
    case False
    with Cons.prems(1,2) have "length calls = 0"
      by (simp add: half_open_with_def del: length_0_conv)
    then have "calls = []" by simp
    with cb1 False show ?thesis by (simp add: c)
  qed
qed

section \<open>Properties\<close>

text \<open>C19: a new breaker with the default functions lets the first six of a sequence of failing
  requests through (within its interval), trips, and rejects every further request until its
  timeout has passed, without running it.\<close>

theorem CircuitBreaker_trips_and_fails_fast:
  fixes config :: "'e cb_config"
  assumes default: "ReadyToTrip config = None" "IsSuccessful config = None"
    and "Interval config \<noteq> 0" and "Timeout config \<noteq> 0" and len: "length fails = 6"
    and fails: "\<forall>(t, t', err) \<in> set fails. t - t0 \<le> Interval config \<and> err \<noteq> None"
    and late: "\<forall>(t, t', err) \<in> set calls. t - fst (snd (last fails)) \<le> Timeout config
      \<and> t' - fst (snd (last fails)) \<le> Timeout config"
  shows "\<exists>cb :: ('e, 'l) breaker.
    run_steps cb_call_step (NewCircuitBreaker t0 config) (fails @ calls)
      = Some (map (\<lambda>(t, t', err). Inr err) fails @ replicate (length calls) (Inl StateOpen), cb)
    \<and> cb_state cb = StateOpen"
proof -
  let ?new = "NewCircuitBreaker t0 config :: ('e, 'l) breaker"
  let ?cfg = "cb_config ?new"
  have cfg: "default_trip ?cfg" "Interval ?cfg = Interval config" "Timeout ?cfg = Timeout config"
    "closed_with ?cfg t0 0 ?new"
    using default assms(3,4)
    by (simp_all add: NewCircuitBreaker_def default_trip_def closed_with_def no_counts_def Let_def)
  from cb_fail_all [OF cfg(4,1), of fails] len fails cfg(2) obtain cb where
    "run_steps cb_call_step ?new fails = Some (map (\<lambda>(t, t', err). Inr err) fails, cb)"
    "open_since ?cfg (fst (snd (last fails))) cb" by auto
  moreover from cb_reject_all [OF this(2), of calls] late cfg(3) have
    "run_steps cb_call_step cb calls = Some (replicate (length calls) (Inl StateOpen), cb)" by simp
  ultimately show ?thesis by (auto simp: run_steps_append open_since_def)
qed

theorem CircuitBreaker_trips_and_fails_fast_witness:
  "\<exists>cb :: (nat, nat) breaker. run_steps cb_call_step
      (NewCircuitBreaker 0 (DefaultConfig\<lparr>ReadyToTrip := None, IsSuccessful := None\<rparr>))
      (replicate 6 (1, 2, Some 9) @ [(3, 4, None)])
    = Some (replicate 6 (Inr (Some 9)) @ [Inl StateOpen], cb) \<and> cb_state cb = StateOpen"
  using CircuitBreaker_trips_and_fails_fast
    [of "DefaultConfig\<lparr>ReadyToTrip := None, IsSuccessful := None\<rparr> :: nat cb_config"
      "replicate 6 (1, 2, Some 9)" 0 "[(3, 4, None)]"]
  by (simp add: DefaultConfig_def minute_def)

text \<open>C20: an open breaker recovers: after its timeout it lets requests through; \<open>MaxRequests\<close> of them
  in a row that succeed close it with fresh counts, and one that fails before that opens it again
  for another timeout.\<close>

theorem CircuitBreaker_recovers:
  assumes "open_since config t0 cb" and "fst (hd calls) - t0 > Timeout config"
    and ok: "IsSuccessful config = Some ok"
    and good: "\<forall>(t, t', err) \<in> set calls. ok err" and bad: "\<not> ok (Some e)"
    and len: "0 < length calls" "length calls \<le> unat (MaxRequests config)"
  shows "\<exists>cb'. run_steps cb_call_step cb calls = Some (map (\<lambda>(t, t', err). Inr err) calls, cb')
    \<and> (length calls = unat (MaxRequests config) \<longrightarrow>
         cb_state cb' = StateClosed \<and> cb_counts cb' = no_counts)
    \<and> (length calls < unat (MaxRequests config) \<longrightarrow> (\<forall>t t'. \<exists>cb''.
         cb_Call t t' (Some e) cb' = Some (Inr (Some e), cb'') \<and> open_since config t' cb''))"
proof -
  obtain t t' err rest where c: "calls = (t, t', err) # rest"
    using len(1) by (cases calls) auto
  have "MaxRequests config \<noteq> 0" using len by auto
  with cb_timeout_half_open [OF assms(1), of t] assms(2) c obtain cb1 where
    h: "half_open_with config 0 cb1" and same: "\<And>t' err. cb_Call t t' err cb = cb_Call t t' err cb1" by auto
  then have run: "run_steps cb_call_step cb calls = run_steps cb_call_step cb1 calls" by (simp add: c)
  have partial: "\<exists>cb'. run_steps cb_call_step cb1 calls = Some (map (\<lambda>(t, t', err). Inr err) calls, cb')
    \<and> half_open_with config (j + length calls) cb'"
    if "half_open_with config j cb1" "j + length calls < unat (MaxRequests config)"
      "\<forall>(t, t', err) \<in> set calls. ok err" for j cb1 calls
    using that
  proof (induction calls arbitrary: j cb1)
    case (Cons c calls)
    obtain t t' err where c: "c = (t, t', err)" by (cases c)
    with Cons.prems(3) have "ok err" by simp
    from cb_half_open_call [OF Cons.prems(1) ok this, of t t'] Cons.prems(2) obtain cb2 where
      "cb_Call t t' err cb1 = Some (Inr err, cb2)" "half_open_with config (Suc j) cb2" by auto
    with Cons.IH [of "Suc j" cb2] Cons.prems(2,3) show ?case by (auto simp: c)
  qed simp
  show ?thesis
  proof (cases "length calls = unat (MaxRequests config)")
    case True
    with cb_recover_from [OF h ok _ good] run show ?thesis by (auto simp: closed_fresh_def)
  next
    case False
    with partial [OF h _ good] len(2) run obtain cb' where
      "run_steps cb_call_step cb calls = Some (map (\<lambda>(t, t', err). Inr err) calls, cb')"
      "half_open_with config (length calls) cb'" by auto
    with cb_half_open_fail [OF this(2) ok bad] False show ?thesis by blast
  qed
qed

theorem CircuitBreaker_recovers_witness:
  "\<exists>cb' :: (nat, nat) breaker. run_steps cb_call_step (cb_Trip 5 (NewCircuitBreaker 0 DefaultConfig))
      [(100 * minute, 100 * minute, None)] = Some ([Inr None], cb') \<and> cb_state cb' = StateClosed"
proof -
  have "open_since DefaultConfig 5 (cb_Trip 5 (NewCircuitBreaker 0 DefaultConfig) :: (nat, nat) breaker)"
    by (simp add: open_since_def cb_Trip_def NewCircuitBreaker_def DefaultConfig_def minute_def
        cb_notifyStateChange_def Let_def)
  from CircuitBreaker_recovers [OF this, of "[(100 * minute, 100 * minute, None)]" "\<lambda>err. err = None" 1]
  show ?thesis by (auto simp: DefaultConfig_def minute_def)
qed



text \<open>Half-open for ever: when the number of successes so far reaches a lowered \<open>MaxRequests\<close>, no
  request is admitted any more and only a manual \<open>Reset\<close> or \<open>Trip\<close> leaves the state.\<close>

lemma half_open_stuck:
  assumes "cb_state cb = StateHalfOpen" and "ucast (MaxRequests (cb_config cb)) \<le> Requests (cb_counts cb)"
  shows "cb_allowRequest now cb = (False, cb) \<and> cb_State now cb = (StateHalfOpen, cb)"
  using assms by (simp add: cb_allowRequest_def cb_currentState_def cb_State_def not_less)

text \<open>\<open>UpdateConfig\<close> accepts a configuration without functions; the next result then panics.\<close>

lemma UpdateConfig_without_functions:
  assumes "MaxRequests config \<noteq> 0" and "0 < Interval config" and "0 < Timeout config"
    and "IsSuccessful config = None"
  shows "\<exists>cb'. cb_UpdateConfig cb config = (None, cb') \<and> cb_recordResult now err cb' = None"
  using assms by (simp add: cb_UpdateConfig_def cb_recordResult_def Let_def)

end
