(* ===== verification/StateMachine.thy ===== *)
theory StateMachine
  imports GoLists
begin

text \<open>
  Package state: \<open>state/state.go\<close> and \<open>state/statemachine.go\<close>. A state is an object with four
  methods; what the methods do to the rest of the program is a change of an environment of type
  \<open>'x\<close>. Events and state identifiers are strings, event data is of any type \<open>'d\<close>, and the errors
  of the callbacks of any type \<open>'r\<close>. The methods of the machine are modelled one at a time; in the
  code \<open>SendEvent\<close> holds the lock only around each access.
\<close>

type_synonym event = string
type_synonym state_id = string

record ('d, 'x, 'r) state =
  ID :: state_id
  OnEnter :: "'d \<Rightarrow> 'x \<Rightarrow> 'r option \<times> 'x"
  OnExit :: "'x \<Rightarrow> 'r option \<times> 'x"
  OnEvent :: "event \<Rightarrow> 'd \<Rightarrow> 'x \<Rightarrow> (state_id \<times> bool) \<times> 'x"

section \<open>The default state\<close>

record 'd base_state =
  bs_id :: state_id
  bs_handlers :: "(event \<times> ('d \<Rightarrow> state_id)) list"

definition NewBaseState :: "state_id \<Rightarrow> 'd base_state" where
  "NewBaseState i = \<lparr>bs_id = i, bs_handlers = []\<rparr>"

definition bs_AddEventHandler :: "'d base_state \<Rightarrow> event \<Rightarrow> ('d \<Rightarrow> state_id) \<Rightarrow> 'd base_state" where
  "bs_AddEventHandler s event handler = s\<lparr>bs_handlers := AList.update event handler (bs_handlers s)\<rparr>"

definition bs_OnEvent :: "'d base_state \<Rightarrow> event \<Rightarrow> 'd \<Rightarrow> state_id \<times> bool" where
  "bs_OnEvent s event data =
     (case map_of (bs_handlers s) event of
        Some handler \<Rightarrow> (handler data, True)
      | None \<Rightarrow> (bs_id s, False))"

definition base_as_state :: "'d base_state \<Rightarrow> ('d, 'x, 'r) state" where
  "base_as_state s = \<lparr>ID = bs_id s, OnEnter = (\<lambda>data x. (None, x)), OnExit = (\<lambda>x. (None, x)),
     OnEvent = (\<lambda>event data x. (bs_OnEvent s event data, x))\<rparr>"

section \<open>The machine\<close>

record ('d, 'x, 'r) machine =
  sm_states :: "(state_id \<times> ('d, 'x, 'r) state) list"
  sm_currentState :: "('d, 'x, 'r) state option"
  sm_initialState :: state_id

datatype 'r sm_error =
    NilState | StateExists state_id | NoSuchState state_id | InitialNotSet | NoStates
  | InitialNotFound state_id | NotInitialized | NotHandled event state_id | NextNotFound state_id
  | ExitError state_id 'r | EnterError state_id 'r | Callback 'r

definition NewStateMachine :: "('d, 'x, 'r) machine" where
  "NewStateMachine = \<lparr>sm_states = [], sm_currentState = None, sm_initialState = []\<rparr>"

definition sm_AddState ::
    "('d, 'x, 'r) machine \<Rightarrow> ('d, 'x, 'r) state option \<Rightarrow> 'r sm_error option \<times> ('d, 'x, 'r) machine" where
  "sm_AddState sm state =
     (case state of
        None \<Rightarrow> (Some NilState, sm)
      | Some s \<Rightarrow>
          if map_of (sm_states sm) (ID s) \<noteq> None then (Some (StateExists (ID s)), sm)
          else (None, sm\<lparr>sm_states := AList.update (ID s) s (sm_states sm)\<rparr>))"

definition sm_SetInitialState ::
    "('d, 'x, 'r) machine \<Rightarrow> state_id \<Rightarrow> 'r sm_error option \<times> ('d, 'x, 'r) machine" where
  "sm_SetInitialState sm i =
     (if map_of (sm_states sm) i = None then (Some (NoSuchState i), sm)
      else (None, sm\<lparr>sm_initialState := i\<rparr>))"

text \<open>The machine enters the initial state even when its callback reports an error.\<close>

definition sm_Initialize ::
    "'d \<Rightarrow> ('d, 'x, 'r) machine \<times> 'x \<Rightarrow> 'r sm_error option \<times> ('d, 'x, 'r) machine \<times> 'x" where
  "sm_Initialize data = (\<lambda>(sm, x).
     if sm_initialState sm = [] then (Some InitialNotSet, sm, x)
     else if length (sm_states sm) = 0 then (Some NoStates, sm, x)
     else case map_of (sm_states sm) (sm_initialState sm) of
         None \<Rightarrow> (Some (InitialNotFound (sm_initialState sm)), sm, x)
       | Some s \<Rightarrow> (let (e, x) = OnEnter s data x
                    in (map_option Callback e, sm\<lparr>sm_currentState := Some s\<rparr>, x)))"

definition sm_SendEvent ::
    "event \<Rightarrow> 'd \<Rightarrow> ('d, 'x, 'r) machine \<times> 'x \<Rightarrow> 'r sm_error option \<times> ('d, 'x, 'r) machine \<times> 'x" where
  "sm_SendEvent event data = (\<lambda>(sm, x).
     case sm_currentState sm of
       None \<Rightarrow> (Some NotInitialized, sm, x)
     | Some current \<Rightarrow>
         (let ((next, handled), x) = OnEvent current event data x in
          if \<not> handled then (Some (NotHandled event (ID current)), sm, x)
          else if next = ID current then (None, sm, x)
          else case map_of (sm_states sm) next of
              None \<Rightarrow> (Some (NextNotFound next), sm, x)
            | Some nextState \<Rightarrow>
                (let (e, x) = OnExit current x in
                 case e of
                   Some err \<Rightarrow> (Some (ExitError (ID current) err), sm, x)
                 | None \<Rightarrow>
                     (let (e, x) = OnEnter nextState data x in
                      case e of
                        Some err \<Rightarrow> (Some (EnterError (ID nextState) err), sm, x)
                      | None \<Rightarrow> (None, sm\<lparr>sm_currentState := Some nextState\<rparr>, x)))))"

definition sm_CurrentState :: "('d, 'x, 'r) machine \<Rightarrow> 'r sm_error + state_id" where
  "sm_CurrentState sm =
     (case sm_currentState sm of None \<Rightarrow> Inl NotInitialized | Some s \<Rightarrow> Inr (ID s))"

definition sm_HasState :: "('d, 'x, 'r) machine \<Rightarrow> state_id \<Rightarrow> bool" where
  "sm_HasState sm i \<longleftrightarrow> map_of (sm_states sm) i \<noteq> None"

section \<open>The invariant\<close>

text \<open>Every state is registered under its own identifier.\<close>

definition keyed :: "(state_id \<times> ('d, 'x, 'r) state) list \<Rightarrow> bool" where
  "keyed sts \<longleftrightarrow> distinct (map fst sts) \<and> (\<forall>p \<in> set sts. ID (snd p) = fst p)"

definition current_ok :: "(state_id \<times> ('d, 'x, 'r) state) list \<Rightarrow> ('d, 'x, 'r) state option \<Rightarrow> bool" where
  "current_ok sts c = (case c of None \<Rightarrow> True | Some s \<Rightarrow> map_of sts (ID s) = Some s)"

definition sm_wf :: "('d, 'x, 'r) machine \<Rightarrow> bool" where
  "sm_wf sm \<longleftrightarrow> keyed (sm_states sm) \<and> current_ok (sm_states sm) (sm_currentState sm)
     \<and> (sm_initialState sm \<noteq> [] \<longrightarrow> sm_HasState sm (sm_initialState sm))"

lemma keyed_lookup: "keyed sts \<Longrightarrow> map_of sts i = Some s \<Longrightarrow> ID s = i"
  by (auto simp: keyed_def dest!: map_of_SomeD)

lemma keyed_current: "keyed sts \<Longrightarrow> map_of sts i = Some s \<Longrightarrow> current_ok sts (Some s)"
  using keyed_lookup [of sts i s] by (simp add: current_ok_def)

lemma keyed_add:
  assumes "keyed sts" and "map_of sts (ID s) = None"
  shows "keyed (AList.update (ID s) s sts)"
    and "current_ok sts c \<Longrightarrow> current_ok (AList.update (ID s) s sts) c"
  using assms by (auto simp: keyed_def current_ok_def map_of_eq_None_iff update_absent split: option.splits)

datatype ('d, 'x, 'r) sm_op =
    OpAdd "('d, 'x, 'r) state option" | OpInitial state_id | OpInitialize 'd | OpEvent event 'd

fun sm_step ::
    "('d, 'x, 'r) machine \<times> 'x \<Rightarrow> ('d, 'x, 'r) sm_op
     \<Rightarrow> ('r sm_error option \<times> ('d, 'x, 'r) machine \<times> 'x) option" where
  "sm_step (sm, x) (OpAdd s) = Some (let (e, sm) = sm_AddState sm s in (e, sm, x))"
| "sm_step (sm, x) (OpInitial i) = Some (let (e, sm) = sm_SetInitialState sm i in (e, sm, x))"
| "sm_step (sm, x) (OpInitialize data) = Some (sm_Initialize data (sm, x))"
| "sm_step (sm, x) (OpEvent event data) = Some (sm_SendEvent event data (sm, x))"

lemma sm_wf_New: "sm_wf NewStateMachine"
  by (simp add: sm_wf_def NewStateMachine_def keyed_def current_ok_def)

lemma sm_wf_AddState:
  assumes "sm_wf sm"
  shows "sm_wf (snd (sm_AddState sm st))"
proof (cases st)
  case None
  with assms show ?thesis by (simp add: sm_AddState_def)
next
  case (Some s)
  show ?thesis
  proof (cases "map_of (sm_states sm) (ID s)")
    case None
    with assms Some keyed_add [of "sm_states sm" s] show ?thesis
      by (simp add: sm_AddState_def sm_wf_def sm_HasState_def update_conv')
  next
    case (Some t)
    with assms \<open>st = Some s\<close> show ?thesis by (simp add: sm_AddState_def)
  qed
qed

lemma sm_wf_SetInitialState: "sm_wf sm \<Longrightarrow> sm_wf (snd (sm_SetInitialState sm i))"
  by (simp add: sm_SetInitialState_def sm_wf_def sm_HasState_def)

lemma sm_wf_Initialize:
  assumes "sm_wf sm"
  shows "sm_wf (fst (snd (sm_Initialize data (sm, x))))"
proof (cases "sm_initialState sm = [] \<or> length (sm_states sm) = 0")
  case True
  with assms show ?thesis by (auto simp: sm_Initialize_def)
next
  case False
  show ?thesis
  proof (cases "map_of (sm_states sm) (sm_initialState sm)")
    case None
    with False assms show ?thesis by (simp add: sm_Initialize_def)
  next
    case (Some s)
    with assms have "current_ok (sm_states sm) (Some s)" by (intro keyed_current) (simp add: sm_wf_def)
    with False Some assms show ?thesis
      by (simp add: sm_Initialize_def sm_wf_def sm_HasState_def split: prod.split)
  qed
qed

text \<open>What a call of \<open>SendEvent\<close> can do.\<close>

definition sm_moved ::
    "event \<Rightarrow> 'd \<Rightarrow> ('d, 'x, 'r) machine \<Rightarrow> 'x \<Rightarrow> ('d, 'x, 'r) machine \<Rightarrow> 'x \<Rightarrow> bool" where
  "sm_moved event data sm x sm' x' \<longleftrightarrow> (\<exists>current next x1. sm_currentState sm = Some current
     \<and> OnEvent current event data x = ((next, True), x1)
     \<and> (if next = ID current then sm' = sm \<and> x' = x1
        else \<exists>s x2. map_of (sm_states sm) next = Some s \<and> OnExit current x1 = (None, x2)
               \<and> OnEnter s data x2 = (None, x') \<and> sm' = sm\<lparr>sm_currentState := Some s\<rparr>))"

lemma sm_SendEvent_result:
  assumes call: "sm_SendEvent event data (sm, x) = (e, sm', x')"
  shows "e \<noteq> None \<and> sm' = sm \<or> e = None \<and> sm_moved event data sm x sm' x'"
proof (cases "sm_currentState sm")
  case None
  with call show ?thesis by (auto simp: sm_SendEvent_def)
next
  case (Some c)
  obtain "next" handled x1 where on: "OnEvent c event data x = ((next, handled), x1)"
    by (metis surj_pair)
  show ?thesis
  proof (cases "handled \<and> next \<noteq> ID c")
    case False
    with call Some on show ?thesis by (auto simp: sm_SendEvent_def sm_moved_def split: if_splits)
  next
    case True
    show ?thesis
    proof (cases "map_of (sm_states sm) next")
      case None
      with call Some on True show ?thesis by (auto simp: sm_SendEvent_def)
    next
      case s: (Some s)
      obtain e1 x2 where exit: "OnExit c x1 = (e1, x2)" by fastforce
      obtain e2 x3 where enter: "OnEnter s data x2 = (e2, x3)" by fastforce
      from call Some on True s exit enter show ?thesis
        by (cases e1; cases e2) (auto simp: sm_SendEvent_def sm_moved_def)
    qed
  qed
qed

lemma sm_moved_wf:
  assumes wf: "sm_wf sm" and "sm_moved event data sm x sm' x'"
  shows "sm_wf sm'"
proof -
  from assms(2) consider "sm' = sm"
    | i s where "map_of (sm_states sm) i = Some s" "sm' = sm\<lparr>sm_currentState := Some s\<rparr>"
    unfolding sm_moved_def by (metis (full_types))
  then show ?thesis
  proof cases
    case 1
    with wf show ?thesis by simp
  next
    case 2
    with wf have "current_ok (sm_states sm) (Some s)" by (intro keyed_current) (simp_all add: sm_wf_def)
    with wf 2 show ?thesis by (simp add: sm_wf_def sm_HasState_def)
  qed
qed

lemma sm_step_wf:
  assumes "sm_wf (fst c)" and "sm_step c op = Some (e, c')"
  shows "sm_wf (fst c')"
proof -
  obtain sm x sm' x' where c: "c = (sm, x)" "c' = (sm', x')" by fastforce
  have wf: "sm_wf sm" using assms(1) by (simp add: c)
  show ?thesis
  proof (cases op)
    case (OpAdd s)
    with assms(2) sm_wf_AddState [OF wf, of s] show ?thesis by (cases "sm_AddState sm s") (simp add: c)
  next
    case (OpInitial i)
    with assms(2) sm_wf_SetInitialState [OF wf, of i] show ?thesis
      by (cases "sm_SetInitialState sm i") (simp add: c)
  next
    case (OpInitialize data)
    with assms(2) sm_wf_Initialize [OF wf, of data x] show ?thesis by (simp add: c)
  next
    case (OpEvent event data)
    with assms(2) have "sm_SendEvent event data (sm, x) = (e, sm', x')" by (simp add: c)
    from sm_SendEvent_result [OF this] sm_moved_wf [OF wf] wf show ?thesis by (auto simp: c)
  qed
qed

section \<open>Machines of default states\<close>

text \<open>The transition table of a list of default states: an event without a handler leaves the
  state.\<close>

definition table :: "'d base_state list \<Rightarrow> state_id \<Rightarrow> event \<times> 'd \<Rightarrow> state_id" where
  "table bs i ed =
     (case find (\<lambda>b. bs_id b = i) bs of
        None \<Rightarrow> i
      | Some b \<Rightarrow> fst (bs_OnEvent b (fst ed) (snd ed)))"

text \<open>Every handler leads to a state of the list.\<close>

definition closed_table :: "'d base_state list \<Rightarrow> bool" where
  "closed_table bs \<longleftrightarrow> (\<forall>b \<in> set bs. \<forall>(e, h) \<in> set (bs_handlers b). \<forall>d. h d \<in> bs_id ` set bs)"

definition setup_ops :: "'d base_state list \<Rightarrow> state_id \<Rightarrow> 'd \<Rightarrow> ('d, 'x, 'r) sm_op list" where
  "setup_ops bs i d = map (\<lambda>b. OpAdd (Some (base_as_state b))) bs @ [OpInitial i, OpInitialize d]"

definition sm_of :: "'d base_state list \<Rightarrow> state_id \<Rightarrow> state_id \<Rightarrow> ('d, 'x, 'r) machine \<Rightarrow> bool" where
  "sm_of bs i0 i sm \<longleftrightarrow> sm_states sm = map (\<lambda>b. (bs_id b, base_as_state b)) bs
     \<and> sm_initialState sm = i0
     \<and> (\<exists>b \<in> set bs. bs_id b = i \<and> sm_currentState sm = Some (base_as_state b))"

lemma base_simps [simp]:
  "ID (base_as_state b) = bs_id b" "OnEvent (base_as_state b) ev d x = (bs_OnEvent b ev d, x)"
  "OnExit (base_as_state b) x = (None, x)" "OnEnter (base_as_state b) d x = (None, x)"
  by (simp_all add: base_as_state_def)

lemma map_of_bases:
  assumes "distinct (map bs_id bs)" and "b \<in> set bs"
  shows "map_of (map (\<lambda>b. (bs_id b, base_as_state b)) bs) (bs_id b) = Some (base_as_state b)"
  using assms by (intro map_of_is_SomeI) (auto simp: comp_def)

lemma find_base:
  assumes "distinct (map bs_id bs)" and "b \<in> set bs"
  shows "find (\<lambda>b'. bs_id b' = bs_id b) bs = Some b"
  using assms by (induction bs) (auto simp: image_iff)

lemma add_all:
  assumes "distinct (map bs_id (bs @ cs))"
    and "sm = \<lparr>sm_states = map (\<lambda>b. (bs_id b, base_as_state b)) bs, sm_currentState = None, sm_initialState = []\<rparr>"
  shows "run_steps sm_step (sm, x) (map (\<lambda>b. OpAdd (Some (base_as_state b))) cs)
    = Some (replicate (length cs) None,
        sm\<lparr>sm_states := map (\<lambda>b. (bs_id b, base_as_state b)) (bs @ cs)\<rparr>, x)"
  using assms
proof (induction cs arbitrary: bs sm)
  case Nil
  then show ?case by simp
next
  case (Cons c cs)
  have "bs_id c \<notin> fst ` set (sm_states sm)" using Cons.prems by (auto simp: image_iff)
  then have "map_of (sm_states sm) (bs_id c) = None"
    and "AList.update (bs_id c) (base_as_state c) (sm_states sm) = sm_states sm @ [(bs_id c, base_as_state c)]"
    by (simp_all add: map_of_eq_None_iff update_absent)
  with Cons.prems Cons.IH [of "bs @ [c]"] show ?case by (simp add: sm_AddState_def)
qed

lemma sm_of_event:
  assumes "distinct (map bs_id bs)" and "closed_table bs" and "sm_of bs i0 i sm"
  shows "\<exists>e sm'. sm_step (sm, x) (OpEvent ev d) = Some (e, sm', x) \<and> sm_of bs i0 (table bs i (ev, d)) sm'"
proof -
  from assms(3) obtain b where b: "b \<in> set bs" "bs_id b = i" "sm_currentState sm = Some (base_as_state b)"
    by (auto simp: sm_of_def)
  have tab: "table bs i (ev, d) = fst (bs_OnEvent b ev d)"
    using find_base [OF assms(1) b(1)] b(2) by (simp add: table_def)
  show ?thesis
  proof (cases "map_of (bs_handlers b) ev")
    case None
    with b assms(3) tab show ?thesis by (simp add: sm_SendEvent_def bs_OnEvent_def)
  next
    case (Some h)
    then have "h d \<in> bs_id ` set bs"
      using assms(2) b(1) by (fastforce simp: closed_table_def dest: map_of_SomeD)
    then obtain b' where b': "b' \<in> set bs" "bs_id b' = h d" by auto
    have next': "map_of (sm_states sm) (h d) = Some (base_as_state b')"
      using map_of_bases [OF assms(1) b'(1)] assms(3) b'(2) by (simp add: sm_of_def)
    show ?thesis
    proof (cases "h d = bs_id b")
      case True
      with b assms(3) tab Some show ?thesis by (simp add: sm_SendEvent_def bs_OnEvent_def)
    next
      case False
      with b next' Some have "sm_step (sm, x) (OpEvent ev d)
          = Some (None, sm\<lparr>sm_currentState := Some (base_as_state b')\<rparr>, x)"
        by (simp add: sm_SendEvent_def bs_OnEvent_def)
      moreover have "sm_of bs i0 (table bs i (ev, d)) (sm\<lparr>sm_currentState := Some (base_as_state b')\<rparr>)"
        using assms(3) b' tab Some by (auto simp: sm_of_def bs_OnEvent_def)
      ultimately show ?thesis by blast
    qed
  qed
qed

lemma sm_of_events:
  assumes "distinct (map bs_id bs)" and "closed_table bs" and "sm_of bs i0 i sm"
  shows "\<exists>es sm'. run_steps sm_step (sm, x) (map (\<lambda>(ev, d). OpEvent ev d) evs) = Some (es, sm', x)
    \<and> sm_of bs i0 (foldl (table bs) i evs) sm'"
  using assms(3)
proof (induction evs arbitrary: sm i)
  case Nil
  then show ?case by simp
next
  case (Cons ed evs)
  obtain ev d where ed: "ed = (ev, d)" by (cases ed)
  from sm_of_event [OF assms(1,2) Cons.prems, of x ev d] obtain e sm1 where
    "sm_step (sm, x) (OpEvent ev d) = Some (e, sm1, x)" "sm_of bs i0 (table bs i (ev, d)) sm1" by blast
  with Cons.IH [of "table bs i (ev, d)" sm1] show ?case by (auto simp: ed)
qed

section \<open>Properties\<close>

text \<open>After any sequence of calls, whatever the states do, the machine has at most one state per
  identifier, registered under its own identifier, and its current state is a registered one.\<close>

theorem StateMachine_invariant:
  assumes "run_steps sm_step (NewStateMachine, x) ops = Some (es, sm, x')"
  shows "sm_wf sm \<and> (\<forall>i. sm_CurrentState sm = Inr i \<longrightarrow> sm_HasState sm i)"
proof -
  have "sm_wf (fst (sm, x'))"
    using assms by (rule run_steps_invariant) (use sm_wf_New sm_step_wf in auto)
  then have "sm_wf sm" by simp
  moreover from this have "sm_HasState sm (ID s)" if "sm_currentState sm = Some s" for s
    using that by (simp add: sm_wf_def current_ok_def sm_HasState_def)
  ultimately show ?thesis by (auto simp: sm_CurrentState_def split: option.splits)
qed

theorem StateMachine_invariant_witness:
  "\<exists>es x'. \<exists>sm :: (unit, nat, unit) machine.
    run_steps sm_step (NewStateMachine, 0) (setup_ops [NewBaseState ''a''] ''a'' ()) = Some (es, sm, x')
    \<and> sm_CurrentState sm = Inr ''a'' \<and> sm_HasState sm ''a''"
proof -
  have "\<exists>es x'. \<exists>sm :: (unit, nat, unit) machine.
    run_steps sm_step (NewStateMachine, 0) (setup_ops [NewBaseState ''a''] ''a'' ()) = Some (es, sm, x')
    \<and> sm_CurrentState sm = Inr ''a''"
    by (simp add: setup_ops_def sm_AddState_def sm_SetInitialState_def sm_Initialize_def NewStateMachine_def
        base_as_state_def NewBaseState_def sm_CurrentState_def)
  then obtain es x' and sm :: "(unit, nat, unit) machine" where
    run: "run_steps sm_step (NewStateMachine, 0) (setup_ops [NewBaseState ''a''] ''a'' ()) = Some (es, sm, x')"
    "sm_CurrentState sm = Inr ''a''" by (elim exE conjE) (rule that)
  from StateMachine_invariant [OF run(1)] run show ?thesis by blast
qed



text \<open>C33: a machine built from default states with distinct identifiers, whose handlers name states of
  the machine, follows its transition table on every sequence of events.\<close>

theorem StateMachine_follows_table:
  fixes bs :: "'d base_state list"
  assumes "distinct (map bs_id bs)" and "closed_table bs" and "i \<in> bs_id ` set bs" and "i \<noteq> []"
  shows "\<exists>es sm. run_steps sm_step (NewStateMachine :: ('d, 'x, 'r) machine, x)
      (setup_ops bs i d @ map (\<lambda>(ev, d). OpEvent ev d) evs) = Some (es, sm, x)
    \<and> sm_CurrentState sm = Inr (foldl (table bs) i evs)"
proof -
  let ?l = "map (\<lambda>b. (bs_id b, base_as_state b :: ('d, 'x, 'r) state)) bs"
  from assms(3) obtain b where b: "b \<in> set bs" "bs_id b = i" by auto
  have entry: "map_of ?l (bs_id b) = Some (base_as_state b)" by (rule map_of_bases [OF assms(1) b(1)])
  let ?sm = "\<lparr>sm_states = ?l, sm_currentState = Some (base_as_state b), sm_initialState = i\<rparr>"
  have "run_steps sm_step (NewStateMachine :: ('d, 'x, 'r) machine, x) (setup_ops bs i d)
    = Some (replicate (length bs) None @ [None, None], ?sm, x)"
    using add_all [of "[]" bs "NewStateMachine :: ('d, 'x, 'r) machine" x] assms(1,4) entry b(2)
    by (auto simp: setup_ops_def run_steps_append NewStateMachine_def sm_SetInitialState_def
        sm_Initialize_def)
  moreover have "sm_of bs i i ?sm" using b by (auto simp: sm_of_def)
  from sm_of_events [OF assms(1,2) this, of x evs] obtain es sm where
    "run_steps sm_step (?sm, x) (map (\<lambda>(ev, d). OpEvent ev d) evs) = Some (es, sm, x)"
    "sm_of bs i (foldl (table bs) i evs) sm" by blast
  moreover from this(2) have "sm_CurrentState sm = Inr (foldl (table bs) i evs)"
    by (auto simp: sm_of_def sm_CurrentState_def)
  ultimately show ?thesis by (simp add: run_steps_append)
qed

definition door :: "unit base_state list" where
  "door = [bs_AddEventHandler (NewBaseState ''open'') ''push'' (\<lambda>_. ''shut''),
           bs_AddEventHandler (NewBaseState ''shut'') ''pull'' (\<lambda>_. ''open'')]"

theorem StateMachine_follows_table_witness:
  "\<exists>es. \<exists>sm :: (unit, nat, unit) machine. run_steps sm_step (NewStateMachine, 0)
      (setup_ops door ''open'' () @ map (\<lambda>(ev, d). OpEvent ev d) [(''push'', ()), (''push'', ()), (''pull'', ())])
      = Some (es, sm, 0) \<and> sm_CurrentState sm = Inr ''open''"
proof -
  have "distinct (map bs_id door)" "closed_table door" "''open'' \<in> bs_id ` set door"
    by (simp_all add: door_def bs_AddEventHandler_def NewBaseState_def closed_table_def)
  moreover have "foldl (table door) ''open'' [(''push'', ()), (''push'', ()), (''pull'', ())] = ''open''"
    by (simp add: table_def door_def bs_AddEventHandler_def NewBaseState_def bs_OnEvent_def)
  ultimately show ?thesis
    using StateMachine_follows_table [of door "''open''" "0 :: nat" "()"
      "[(''push'', ()), (''push'', ()), (''pull'', ())]", where 'r = unit] by simp
qed

end
