(* ===== verification/LoadBalancer.thy ===== *)
theory LoadBalancer
  imports GoLists "HOL-Library.Multiset"
begin

text \<open>
  \<open>stability/load_balancer.go\<close>: the round-robin balancer. The pool is a map from identifiers to
  targets with the order of insertion beside it; \<open>currentIndex\<close> counts within the targets that
  are available at the time of the selection. \<open>time.Now()\<close> is an argument.
\<close>

record 'a target =
  tg_ID :: string
  tg_Data :: 'a
  tg_Weight :: int
  tg_Available :: bool
  tg_Requests :: int
  tg_LastUsed :: time

record 'a round_robin =
  rb_targets :: "(string \<times> 'a target) list"
  rb_targetOrder :: "string list"
  rb_currentIndex :: nat
  rb_TotalRequests :: int
  rb_FailedRequests :: int

datatype lb_error = ErrNoTargetsAvailable | ErrTargetNotFound | ErrTargetExists

definition NewRoundRobinLoadBalancer :: "'a round_robin" where
  "NewRoundRobinLoadBalancer = \<lparr>rb_targets = [], rb_targetOrder = [], rb_currentIndex = 0,
     rb_TotalRequests = 0, rb_FailedRequests = 0\<rparr>"

definition rb_available :: "'a round_robin \<Rightarrow> string \<Rightarrow> bool" where
  "rb_available rb i = (case map_of (rb_targets rb) i of None \<Rightarrow> False | Some t \<Rightarrow> tg_Available t)"

definition rb_getAvailableTargetIDs :: "'a round_robin \<Rightarrow> string list" where
  "rb_getAvailableTargetIDs rb = filter (rb_available rb) (rb_targetOrder rb)"

text \<open>The search loop, with the number of iterations left.\<close>

fun rb_search ::
    "nat \<Rightarrow> time \<Rightarrow> string list \<Rightarrow> 'a round_robin \<Rightarrow> (lb_error + (string \<times> 'a)) \<times> 'a round_robin" where
  "rb_search 0 now available rb = (Inl ErrNoTargetsAvailable, rb)"
| "rb_search (Suc n) now available rb =
     (let targetID = available ! (rb_currentIndex rb mod length available);
          rb = rb\<lparr>rb_currentIndex := (rb_currentIndex rb + 1) mod length available\<rparr>
      in case map_of (rb_targets rb) targetID of
           Some target \<Rightarrow>
             if tg_Available target
             then (Inr (targetID, tg_Data target),
                   rb\<lparr>rb_targets := AList.update targetID
                        (target\<lparr>tg_Requests := tg_Requests target + 1, tg_LastUsed := now\<rparr>) (rb_targets rb),
                      rb_TotalRequests := rb_TotalRequests rb + 1\<rparr>)
             else rb_search n now available rb
         | None \<Rightarrow> rb_search n now available rb)"

definition rb_SelectTarget ::
    "time \<Rightarrow> 'a round_robin \<Rightarrow> (lb_error + (string \<times> 'a)) \<times> 'a round_robin" where
  "rb_SelectTarget now rb =
     (let available = rb_getAvailableTargetIDs rb
      in if length available = 0 then (Inl ErrNoTargetsAvailable, rb)
         else rb_search (length available) now available rb)"

definition rb_GetTargets :: "'a round_robin \<Rightarrow> (string \<times> 'a target) list" where
  "rb_GetTargets rb = fold (\<lambda>(k, v) m. AList.update k v m) (rb_targets rb) []"

definition rb_GetAvailableTargets :: "'a round_robin \<Rightarrow> (string \<times> 'a target) list" where
  "rb_GetAvailableTargets rb =
     fold (\<lambda>(k, v) m. if tg_Available v then AList.update k v m else m) (rb_targets rb) []"

definition rb_SetTargetAvailability ::
    "'a round_robin \<Rightarrow> string \<Rightarrow> bool \<Rightarrow> lb_error option \<times> 'a round_robin" where
  "rb_SetTargetAvailability rb i available =
     (case map_of (rb_targets rb) i of
        None \<Rightarrow> (Some ErrTargetNotFound, rb)
      | Some target \<Rightarrow>
          (None, rb\<lparr>rb_targets := AList.update i (target\<lparr>tg_Available := available\<rparr>) (rb_targets rb)\<rparr>))"

definition rb_GetStats :: "'a round_robin \<Rightarrow> int \<times> int \<times> int \<times> int" where
  "rb_GetStats rb =
     (int (length (rb_targets rb)), int (length (filter (\<lambda>(i, t). tg_Available t) (rb_targets rb))),
      rb_TotalRequests rb, rb_FailedRequests rb)"

definition rb_Reset :: "'a round_robin \<Rightarrow> 'a round_robin" where
  "rb_Reset rb = rb\<lparr>rb_currentIndex := 0, rb_TotalRequests := 0, rb_FailedRequests := 0,
     rb_targets := map (\<lambda>(i, t). (i, t\<lparr>tg_Requests := 0, tg_LastUsed := 0\<rparr>)) (rb_targets rb)\<rparr>"

definition rb_AddTarget :: "'a round_robin \<Rightarrow> string \<Rightarrow> 'a \<Rightarrow> int \<Rightarrow> lb_error option \<times> 'a round_robin" where
  "rb_AddTarget rb i data weight =
     (if map_of (rb_targets rb) i \<noteq> None then (Some ErrTargetExists, rb)
      else (None, rb\<lparr>rb_targets := AList.update i
               \<lparr>tg_ID = i, tg_Data = data, tg_Weight = weight, tg_Available = True,
                tg_Requests = 0, tg_LastUsed = 0\<rparr> (rb_targets rb),
             rb_targetOrder := rb_targetOrder rb @ [i]\<rparr>))"

definition rb_RemoveTarget :: "'a round_robin \<Rightarrow> string \<Rightarrow> lb_error option \<times> 'a round_robin" where
  "rb_RemoveTarget rb i =
     (if map_of (rb_targets rb) i = None then (Some ErrTargetNotFound, rb)
      else let order = remove1 i (rb_targetOrder rb)
           in (None, rb\<lparr>rb_targets := AList.delete i (rb_targets rb), rb_targetOrder := order,
                        rb_currentIndex := (if rb_currentIndex rb \<ge> length order then 0
                                            else rb_currentIndex rb)\<rparr>))"

section \<open>The invariant\<close>

definition rb_wf :: "'a round_robin \<Rightarrow> bool" where
  "rb_wf rb \<longleftrightarrow> distinct (map fst (rb_targets rb)) \<and> distinct (rb_targetOrder rb)
     \<and> set (rb_targetOrder rb) = fst ` set (rb_targets rb)"

datatype 'a rb_op =
    RSelect time | RSetAvailability string bool | RReset | RAdd string 'a int | RRemove string

fun rb_step :: "'a round_robin \<Rightarrow> 'a rb_op \<Rightarrow> ((lb_error option + (string \<times> 'a)) \<times> 'a round_robin) option" where
  "rb_step rb (RSelect now) =
     Some (case rb_SelectTarget now rb of (Inl e, rb) \<Rightarrow> (Inl (Some e), rb) | (Inr r, rb) \<Rightarrow> (Inr r, rb))"
| "rb_step rb (RSetAvailability i b) = Some (apfst Inl (rb_SetTargetAvailability rb i b))"
| "rb_step rb RReset = Some (Inl None, rb_Reset rb)"
| "rb_step rb (RAdd i data w) = Some (apfst Inl (rb_AddTarget rb i data w))"
| "rb_step rb (RRemove i) = Some (apfst Inl (rb_RemoveTarget rb i))"

lemma update_keys:
  "map_of xs k \<noteq> None \<Longrightarrow> fst ` set (AList.update k v xs) = fst ` set xs"
  using map_of_eq_None_iff [of xs k] by (simp add: dom_update insert_absorb)

text \<open>One selection: the next available target in turn; its entry and the index change, not which
  targets are available.\<close>

lemma rb_SelectTarget_step:
  assumes av: "rb_getAvailableTargetIDs rb = as" and ne: "as \<noteq> []"
  shows "\<exists>t rb'. map_of (rb_targets rb) (as ! (rb_currentIndex rb mod length as)) = Some t
    \<and> rb_SelectTarget now rb = (Inr (as ! (rb_currentIndex rb mod length as), tg_Data t), rb')
    \<and> rb_getAvailableTargetIDs rb' = as
    \<and> rb_currentIndex rb' = (rb_currentIndex rb + 1) mod length as
    \<and> rb_targets rb' = AList.update (as ! (rb_currentIndex rb mod length as))
        (t\<lparr>tg_Requests := tg_Requests t + 1, tg_LastUsed := now\<rparr>) (rb_targets rb)
    \<and> rb_targetOrder rb' = rb_targetOrder rb \<and> rb_TotalRequests rb' = rb_TotalRequests rb + 1"
proof -
  let ?i = "as ! (rb_currentIndex rb mod length as)"
  have "?i \<in> set as" using ne by simp
  with av have "rb_available rb ?i" by (auto simp: rb_getAvailableTargetIDs_def)
  then obtain t where t: "map_of (rb_targets rb) ?i = Some t" "tg_Available t"
    by (auto simp: rb_available_def split: option.splits)
  let ?rb = "rb\<lparr>rb_currentIndex := (rb_currentIndex rb + 1) mod length as,
    rb_targets := AList.update ?i (t\<lparr>tg_Requests := tg_Requests t + 1, tg_LastUsed := now\<rparr>) (rb_targets rb),
    rb_TotalRequests := rb_TotalRequests rb + 1\<rparr>"
  obtain n where n: "length as = Suc n" using ne by (cases as) auto
  have "rb_SelectTarget now rb = (Inr (?i, tg_Data t), ?rb)"
    using av t ne by (simp add: rb_SelectTarget_def n Let_def)
  moreover have "rb_available ?rb = rb_available rb"
    using t by (auto simp: rb_available_def fun_eq_iff update_conv')
  then have "rb_getAvailableTargetIDs ?rb = as" using av by (simp add: rb_getAvailableTargetIDs_def)
  ultimately show ?thesis using t(1) by auto
qed

lemma rb_step_wf:
  assumes wf: "rb_wf rb" and step: "rb_step rb op = Some (r, rb')"
  shows "rb_wf rb'"
proof (cases op)
  case (RSelect now)
  show ?thesis
  proof (cases "rb_getAvailableTargetIDs rb = []")
    case True
    with wf step RSelect show ?thesis by (simp add: rb_SelectTarget_def)
  next
    case False
    from rb_SelectTarget_step [OF refl False, of now] obtain i t t' r1 rb1 where
      r1: "map_of (rb_targets rb) i = Some t" "rb_SelectTarget now rb = (Inr r1, rb1)"
      "rb_targets rb1 = AList.update i t' (rb_targets rb)" "rb_targetOrder rb1 = rb_targetOrder rb" by blast
    with step RSelect have "rb' = rb1" by simp
    with r1 wf update_keys [of "rb_targets rb" i t'] show ?thesis by (simp add: rb_wf_def distinct_update)
  qed
next
  case (RSetAvailability i b)
  show ?thesis
  proof (cases "map_of (rb_targets rb) i")
    case None
    with wf step RSetAvailability show ?thesis by (simp add: rb_SetTargetAvailability_def)
  next
    case (Some t)
    with step RSetAvailability
    have "rb' = rb\<lparr>rb_targets := AList.update i (t\<lparr>tg_Available := b\<rparr>) (rb_targets rb)\<rparr>"
      by (simp add: rb_SetTargetAvailability_def)
    with wf Some update_keys [of "rb_targets rb" i "t\<lparr>tg_Available := b\<rparr>"] show ?thesis
      by (simp add: rb_wf_def distinct_update)
  qed
next
  case RReset
  with wf step show ?thesis by (auto simp: rb_Reset_def rb_wf_def case_prod_beta comp_def image_image)
next
  case (RAdd i data w)
  show ?thesis
  proof (cases "map_of (rb_targets rb) i")
    case None
    then have "i \<notin> fst ` set (rb_targets rb)" by (simp add: map_of_eq_None_iff)
    moreover have "i \<notin> set (rb_targetOrder rb)" using calculation wf by (simp add: rb_wf_def)
    moreover have "rb' = rb\<lparr>rb_targets := rb_targets rb @ [(i, \<lparr>tg_ID = i, tg_Data = data, tg_Weight = w,
        tg_Available = True, tg_Requests = 0, tg_LastUsed = 0\<rparr>)], rb_targetOrder := rb_targetOrder rb @ [i]\<rparr>"
      using step RAdd None calculation(1) by (simp add: rb_AddTarget_def update_absent)
    ultimately show ?thesis using wf by (simp add: rb_wf_def)
  next
    case (Some t)
    with wf step RAdd show ?thesis by (simp add: rb_AddTarget_def)
  qed
next
  case (RRemove i)
  have keys: "fst ` set (AList.delete i (rb_targets rb)) = fst ` set (rb_targets rb) - {i}"
    using arg_cong [OF delete_keys, of set i "rb_targets rb"] by simp
  show ?thesis
  proof (cases "map_of (rb_targets rb) i")
    case None
    with wf step RRemove show ?thesis by (simp add: rb_RemoveTarget_def)
  next
    case (Some t)
    then have "rb_targets rb' = AList.delete i (rb_targets rb)" "rb_targetOrder rb' = remove1 i (rb_targetOrder rb)"
      using step RRemove by (auto simp: rb_RemoveTarget_def Let_def)
    with wf keys show ?thesis by (simp add: rb_wf_def distinct_delete)
  qed
qed

section \<open>Rotation\<close>

lemma rb_select_many:
  assumes "rb_getAvailableTargetIDs rb = as" and "as \<noteq> []"
  shows "\<exists>rs rb'. run_steps rb_step rb (map RSelect ts) = Some (rs, rb')
    \<and> map (\<lambda>r. case r of Inr (i, _) \<Rightarrow> Some i | _ \<Rightarrow> None) rs
      = map (\<lambda>j. Some (as ! ((rb_currentIndex rb + j) mod length as))) [0..<length ts]
    \<and> rb_getAvailableTargetIDs rb' = as"
  using assms(1)
proof (induction ts arbitrary: rb)
  case Nil
  then show ?case by simp
next
  case (Cons now ts)
  from rb_SelectTarget_step [OF Cons.prems assms(2), of now] obtain d rb1 where
    r1: "rb_SelectTarget now rb = (Inr (as ! (rb_currentIndex rb mod length as), d), rb1)"
    "rb_getAvailableTargetIDs rb1 = as" "rb_currentIndex rb1 = (rb_currentIndex rb + 1) mod length as"
    by blast
  from Cons.IH [OF r1(2)] obtain rs rb' where
    "run_steps rb_step rb1 (map RSelect ts) = Some (rs, rb')"
    "map (\<lambda>r. case r of Inr (i, _) \<Rightarrow> Some i | _ \<Rightarrow> None) rs
      = map (\<lambda>j. Some (as ! ((rb_currentIndex rb1 + j) mod length as))) [0..<length ts]"
    "rb_getAvailableTargetIDs rb' = as" by blast
  moreover have "(rb_currentIndex rb1 + j) mod length as = (rb_currentIndex rb + Suc j) mod length as" for j
    by (simp add: r1(3) mod_add_left_eq)
  then have "map (\<lambda>j. Some (as ! ((rb_currentIndex rb1 + j) mod length as))) [0..<length ts]
    = map (\<lambda>j. Some (as ! ((rb_currentIndex rb + j) mod length as))) [1..<Suc (length ts)]"
    by (simp add: map_Suc_upt [symmetric] del: upt_Suc)
  ultimately show ?case
    using r1(1) by (simp add: upt_conv_Cons del: upt_Suc)
qed

text \<open>A block of as many consecutive indices as there are entries hits every entry once.\<close>

lemma rotation_block:
  assumes "as \<noteq> []"
  shows "mset (map (\<lambda>j. as ! ((c + j) mod length as)) [0..<length as]) = mset as"
proof -
  let ?n = "length as" and ?c = "c mod length as"
  have "map (\<lambda>j. as ! ((c + j) mod ?n)) [0..<?n] = rotate ?c as"
    by (rule nth_equalityI) (auto simp: nth_rotate mod_simps add.commute)
  also have "mset (rotate ?c as) = mset as"
    by (metis append_take_drop_id mset_append rotate_drop_take union_commute mod_mod_trivial)
  finally show ?thesis .
qed

section \<open>Properties\<close>

text \<open>C21: after any sequence of calls a selection returns an available target of the pool with its
  data, and counts it, or reports that no target is available, exactly when none is.\<close>

theorem RoundRobin_selects_available:
  assumes "run_steps rb_step NewRoundRobinLoadBalancer ops = Some (rs, rb)"
  shows "case rb_SelectTarget now rb of
      (Inl e, rb') \<Rightarrow> e = ErrNoTargetsAvailable \<and> rb' = rb \<and> (\<forall>(i, t) \<in> set (rb_targets rb). \<not> tg_Available t)
    | (Inr (i, data), rb') \<Rightarrow> (\<exists>t t'. map_of (rb_targets rb) i = Some t \<and> tg_Available t \<and> data = tg_Data t
        \<and> map_of (rb_targets rb') i = Some t' \<and> tg_Requests t' = tg_Requests t + 1
        \<and> rb_TotalRequests rb' = rb_TotalRequests rb + 1)"
proof -
  have wf: "rb_wf rb"
    using assms by (rule run_steps_invariant) (simp add: rb_wf_def NewRoundRobinLoadBalancer_def, rule rb_step_wf)
  show ?thesis
  proof (cases "rb_getAvailableTargetIDs rb = []")
    case True
    have "\<not> tg_Available t" if "(i, t) \<in> set (rb_targets rb)" for i t
    proof -
      have "map_of (rb_targets rb) i = Some t" using wf that by (simp add: rb_wf_def)
      moreover have "i \<in> set (rb_targetOrder rb)" using wf that by (force simp: rb_wf_def)
      ultimately show ?thesis
        using True by (auto simp: rb_getAvailableTargetIDs_def filter_empty_conv rb_available_def)
    qed
    with True show ?thesis by (auto simp: rb_SelectTarget_def)
  next
    case False
    let ?as = "rb_getAvailableTargetIDs rb"
    let ?i = "?as ! (rb_currentIndex rb mod length ?as)"
    from rb_SelectTarget_step [OF refl False, of now] obtain t rb' where
      sel: "map_of (rb_targets rb) ?i = Some t" "rb_SelectTarget now rb = (Inr (?i, tg_Data t), rb')"
      "rb_targets rb' = AList.update ?i (t\<lparr>tg_Requests := tg_Requests t + 1, tg_LastUsed := now\<rparr>) (rb_targets rb)"
      "rb_TotalRequests rb' = rb_TotalRequests rb + 1" by blast
    have "?i \<in> set ?as" using False by simp
    then have "rb_available rb ?i" by (auto simp: rb_getAvailableTargetIDs_def)
    with sel show ?thesis by (simp add: rb_available_def update_conv')
  qed
qed

theorem RoundRobin_selects_available_witness:
  "\<exists>rs. \<exists>rb :: nat round_robin. run_steps rb_step NewRoundRobinLoadBalancer [RAdd ''a'' 7 1] = Some (rs, rb)
    \<and> (\<exists>rb'. rb_SelectTarget 5 rb = (Inr (''a'', 7), rb') \<and> rb_TotalRequests rb' = 1)"
proof -
  have "\<exists>rs. \<exists>rb :: nat round_robin. run_steps rb_step NewRoundRobinLoadBalancer [RAdd ''a'' 7 1] = Some (rs, rb)
    \<and> rb_TotalRequests rb = 0 \<and> (\<exists>rb'. rb_SelectTarget 5 rb = (Inr (''a'', 7), rb'))"
    by (simp add: rb_AddTarget_def NewRoundRobinLoadBalancer_def rb_SelectTarget_def
        rb_getAvailableTargetIDs_def rb_available_def Let_def)
  then obtain rs rb rb' where r: "run_steps rb_step NewRoundRobinLoadBalancer [RAdd ''a'' (7 :: nat) 1] = Some (rs, rb)"
    "rb_TotalRequests rb = 0" "rb_SelectTarget 5 rb = (Inr (''a'', 7), rb')"
    by (elim exE conjE) (rule that)
  from RoundRobin_selects_available [OF r(1), of 5] r show ?thesis by auto
qed

text \<open>The rotation is fair: while the set of available targets does not change, any number of
  rounds of as many consecutive selections as there are available targets selects every one of them
  equally often, once per round.\<close>

theorem RoundRobin_fair:
  assumes "rb_getAvailableTargetIDs rb = as" and "as \<noteq> []" and "length now = q * length as"
  shows "\<exists>rs rb'. run_steps rb_step rb (map RSelect now) = Some (rs, rb')
    \<and> mset (map (\<lambda>r. case r of Inr (i, _) \<Rightarrow> Some i | _ \<Rightarrow> None) rs)
      = repeat_mset q (image_mset Some (mset as))"
proof -
  let ?n = "length as" and ?c = "rb_currentIndex rb"
  from rb_select_many [OF assms(1,2), of now] obtain rs rb' where
    run: "run_steps rb_step rb (map RSelect now) = Some (rs, rb')"
    "map (\<lambda>r. case r of Inr (i, _) \<Rightarrow> Some i | _ \<Rightarrow> None) rs
      = map (\<lambda>j. Some (as ! ((?c + j) mod ?n))) [0..<q * ?n]" using assms(3) by auto
  let ?bs = "map Some as"
  have "mset (map (\<lambda>j. ?bs ! ((?c + j) mod ?n)) [0..<q * ?n]) = repeat_mset q (mset ?bs)"
  proof (induction q)
    case 0
    then show ?case by simp
  next
    case (Suc q)
    have "[0..<Suc q * ?n] = [0..<q * ?n] @ map (\<lambda>j. j + q * ?n) [0..<?n]"
      using upt_add_eq_append [of 0 "q * ?n" ?n] by (simp add: map_add_upt add.commute)
    moreover have "map (\<lambda>j. ?bs ! ((?c + j) mod ?n)) (map (\<lambda>j. j + q * ?n) [0..<?n])
      = map (\<lambda>j. ?bs ! ((?c + q * ?n + j) mod ?n)) [0..<?n]"
      unfolding map_map comp_def by (simp only: ac_simps)
    ultimately have "map (\<lambda>j. ?bs ! ((?c + j) mod ?n)) [0..<Suc q * ?n]
      = map (\<lambda>j. ?bs ! ((?c + j) mod ?n)) [0..<q * ?n]
        @ map (\<lambda>j. ?bs ! ((?c + q * ?n + j) mod ?n)) [0..<?n]" by (simp only: map_append)
    moreover have "mset (map (\<lambda>j. ?bs ! ((?c + q * ?n + j) mod ?n)) [0..<?n]) = mset ?bs"
      using rotation_block [of ?bs "?c + q * ?n"] assms(2) by (simp only: length_map map_is_Nil_conv simp_thms)
    ultimately show ?case using Suc by (simp only: mset_append repeat_mset_Suc add.commute)
  qed
  moreover have "map (\<lambda>j. ?bs ! ((?c + j) mod ?n)) [0..<q * ?n]
    = map (\<lambda>j. Some (as ! ((?c + j) mod ?n))) [0..<q * ?n]" using assms(2) by simp
  ultimately have "mset (map (\<lambda>r. case r of Inr (i, _) \<Rightarrow> Some i | _ \<Rightarrow> None) rs)
    = repeat_mset q (mset ?bs)" using run(2) by (simp only:)
  moreover have "mset ?bs = image_mset Some (mset as)" by simp
  ultimately show ?thesis using run(1) by (intro exI conjI) (assumption, simp only:)
qed

theorem RoundRobin_fair_witness:
  "\<exists>rs. \<exists>rb rb' :: nat round_robin. run_steps rb_step rb (map RSelect [1, 2, 3, 4]) = Some (rs, rb')
    \<and> mset (map (\<lambda>r. case r of Inr (i, _) \<Rightarrow> Some i | _ \<Rightarrow> None) rs)
      = repeat_mset 2 {#Some ''a'', Some ''b''#}"
proof -
  let ?rb = "snd (rb_AddTarget (snd (rb_AddTarget NewRoundRobinLoadBalancer ''a'' (7 :: nat) 1)) ''b'' 8 1)"
  have "rb_getAvailableTargetIDs ?rb = [''a'', ''b'']"
    by (simp add: rb_AddTarget_def NewRoundRobinLoadBalancer_def rb_getAvailableTargetIDs_def rb_available_def)
  from RoundRobin_fair [OF this, of "[1, 2, 3, 4]" 2] show ?thesis by (simp del: mset_map) blast
qed

end
