(* ===== verification/LeakyBucket.thy ===== *)
theory LeakyBucket
  imports Interfaces
begin

text \<open>
  \<open>stability/ratelimit.go\<close>: the leaky bucket. Levels and counts are 64-bit integers: sums that may
  leave the range are wrapped. A waiting caller holds a channel; the channels that were closed are
  recorded. \<open>WaitN\<close> takes the locks several times, so a waiting caller is a small state machine
  whose steps interleave with the leaks and with other callers. The time between two leaks is an
  argument of the constructor, as the code computes it in floating point; the contexts of the
  waiting callers are events.
\<close>

record leaky =
  lk_capacity :: int
  lk_leak :: duration
  lk_lastLeak :: time
  lk_current :: int
  lk_closed :: bool
  lk_waitQueue :: "nat list"
  lk_signalled :: "nat list"
  lk_fresh :: nat

definition NewLeakyBucket :: "time \<Rightarrow> duration \<Rightarrow> int \<Rightarrow> leaky" where
  "NewLeakyBucket now leak capacity =
     (let capacity = (if capacity \<le> 0 then 1 else capacity)
      in \<lparr>lk_capacity = capacity, lk_leak = leak, lk_lastLeak = now, lk_current = 0, lk_closed = False,
          lk_waitQueue = [], lk_signalled = [], lk_fresh = 0\<rparr>)"

definition lk_doLeak :: "time \<Rightarrow> leaky \<Rightarrow> leaky" where
  "lk_doLeak now lb =
     (if lk_current lb > 0
      then let lb = lb\<lparr>lk_current := lk_current lb - 1, lk_lastLeak := now\<rparr>
           in case lk_waitQueue lb of
                [] \<Rightarrow> lb
              | ch # rest \<Rightarrow> lb\<lparr>lk_waitQueue := rest, lk_signalled := ch # lk_signalled lb\<rparr>
      else lb)"

definition lk_AllowN :: "int \<Rightarrow> leaky \<Rightarrow> bool \<times> leaky" where
  "lk_AllowN n lb =
     (if n \<le> 0 then (True, lb)
      else if lk_closed lb then (False, lb)
      else if wrap64 (lk_current lb + n) \<le> lk_capacity lb
      then (True, lb\<lparr>lk_current := wrap64 (lk_current lb + n)\<rparr>)
      else (False, lb))"

definition lk_Allow :: "leaky \<Rightarrow> bool \<times> leaky" where
  "lk_Allow lb = lk_AllowN 1 lb"

text \<open>A caller of \<open>WaitN\<close>: about to register for a space with so many spaces still to take, waiting
  for its channel, or returned, with success or with the error of its context.\<close>

datatype lk_waiter = Register nat | WaitOn nat nat | Acquired | Cancelled

definition lk_WaitN :: "int \<Rightarrow> leaky \<Rightarrow> lk_waiter \<times> leaky" where
  "lk_WaitN n lb =
     (if n \<le> 0 then (Acquired, lb)
      else let (ok, lb) = lk_AllowN n lb in (if ok then Acquired else Register (nat n), lb))"

text \<open>One step of \<open>waitForSpace\<close>; \<open>None\<close> where the caller is blocked or has returned.\<close>

definition lk_waitForSpace :: "lk_waiter \<Rightarrow> leaky \<Rightarrow> (lk_waiter \<times> leaky) option" where
  "lk_waitForSpace w lb =
     (case w of
        Register r \<Rightarrow>
          Some (WaitOn (lk_fresh lb) r,
            lb\<lparr>lk_waitQueue := lk_waitQueue lb @ [lk_fresh lb], lk_fresh := lk_fresh lb + 1\<rparr>)
      | WaitOn ch r \<Rightarrow>
          if ch \<in> set (lk_signalled lb)
          then if lk_current lb < lk_capacity lb \<and> \<not> lk_closed lb
               then Some (if r \<le> 1 then Acquired else Register (r - 1),
                          lb\<lparr>lk_current := lk_current lb + 1\<rparr>)
               else Some (Register r, lb)
          else None
      | _ \<Rightarrow> None)"

definition lk_waitCancelled :: "lk_waiter \<Rightarrow> leaky \<Rightarrow> (lk_waiter \<times> leaky) option" where
  "lk_waitCancelled w lb =
     (case w of
        WaitOn ch r \<Rightarrow> Some (Cancelled, lb\<lparr>lk_waitQueue := remove1 ch (lk_waitQueue lb)\<rparr>)
      | _ \<Rightarrow> None)"

record reservation =
  rv_ok :: bool
  rv_delay :: duration
  rv_lb :: bool
  rv_tokens :: int
  rv_reserved :: bool
  rv_used :: bool

definition lk_ReserveN :: "int \<Rightarrow> leaky \<Rightarrow> reservation" where
  "lk_ReserveN n lb =
     (if n \<le> 0 then \<lparr>rv_ok = True, rv_delay = 0, rv_lb = False, rv_tokens = 0, rv_reserved = False, rv_used = False\<rparr>
      else if lk_closed lb
      then \<lparr>rv_ok = False, rv_delay = 0, rv_lb = False, rv_tokens = 0, rv_reserved = False, rv_used = False\<rparr>
      else let availableSpace = wrap64 (lk_capacity lb - lk_current lb)
           in if n \<le> availableSpace
              then \<lparr>rv_ok = True, rv_delay = 0, rv_lb = True, rv_tokens = n, rv_reserved = True, rv_used = False\<rparr>
              else \<lparr>rv_ok = True, rv_delay = wrap64 (wrap64 (n - availableSpace) * lk_leak lb), rv_lb = True,
                    rv_tokens = n, rv_reserved = False, rv_used = False\<rparr>)"

definition lk_Reserve :: "leaky \<Rightarrow> reservation" where
  "lk_Reserve lb = lk_ReserveN 1 lb"

definition lk_CancelAt :: "reservation \<Rightarrow> leaky \<Rightarrow> reservation \<times> leaky" where
  "lk_CancelAt r lb =
     (if \<not> rv_ok r \<or> \<not> rv_lb r \<or> rv_used r then (r, lb)
      else let r = r\<lparr>rv_used := True\<rparr>
           in if rv_reserved r
              then let level = wrap64 (lk_current lb - rv_tokens r)
                   in (r, lb\<lparr>lk_current := (if level < 0 then 0 else level)\<rparr>)
              else (r, lb))"

definition lk_Burst :: "leaky \<Rightarrow> int" where
  "lk_Burst lb = lk_capacity lb"

definition lk_SetBurst :: "int \<Rightarrow> leaky \<Rightarrow> leaky" where
  "lk_SetBurst burst lb =
     (if burst \<le> 0 then lb
      else let lb = lb\<lparr>lk_capacity := burst\<rparr>
           in if lk_current lb > lk_capacity lb then lb\<lparr>lk_current := lk_capacity lb\<rparr> else lb)"

text \<open>The code converts the difference to a floating-point number.\<close>

definition lk_Tokens :: "leaky \<Rightarrow> int" where
  "lk_Tokens lb = wrap64 (lk_capacity lb - lk_current lb)"

definition lk_Reset :: "time \<Rightarrow> leaky \<Rightarrow> leaky" where
  "lk_Reset now lb = lb\<lparr>lk_current := 0, lk_lastLeak := now,
     lk_signalled := rev (lk_waitQueue lb) @ lk_signalled lb, lk_waitQueue := []\<rparr>"

definition lk_Close :: "leaky \<Rightarrow> leaky" where
  "lk_Close lb =
     (if lk_closed lb then lb
      else lb\<lparr>lk_closed := True, lk_signalled := rev (lk_waitQueue lb) @ lk_signalled lb, lk_waitQueue := []\<rparr>)"

section \<open>The goroutine that leaks and its ticker\<close>

text \<open>The goroutine of \<open>startLeaking\<close> waits in its \<open>select\<close> on the channel of the ticker that
  \<open>leakTicker\<close> named when the wait began. A stopped ticker sends nothing. The interval of a
  positive limit is an argument; \<open>None\<close> stands for a limit that is not positive.\<close>

record lk_goroutine =
  lg_bucket :: leaky
  lg_leakTicker :: nat
  lg_watched :: nat

definition lk_SetLimit :: "duration option \<Rightarrow> lk_goroutine \<Rightarrow> lk_goroutine" where
  "lk_SetLimit newLeak g =
     (case newLeak of
        None \<Rightarrow> g
      | Some d \<Rightarrow> g\<lparr>lg_bucket := (lg_bucket g)\<lparr>lk_leak := d\<rparr>, lg_leakTicker := lg_leakTicker g + 1\<rparr>)"

text \<open>A tick of the running ticker: it reaches the goroutine only where that is the one it waits on.\<close>

definition lk_startLeaking :: "time \<Rightarrow> lk_goroutine \<Rightarrow> lk_goroutine" where
  "lk_startLeaking now g =
     (if lg_leakTicker g = lg_watched g
      then g\<lparr>lg_bucket := lk_doLeak now (lg_bucket g), lg_watched := lg_leakTicker g\<rparr>
      else g)"

text \<open>Once \<open>SetLimit\<close> has replaced the ticker of the waiting goroutine the bucket never leaks again.\<close>

lemma SetLimit_stops_leaking:
  assumes "lg_leakTicker g = lg_watched g"
  shows "fold lk_startLeaking ticks (lk_SetLimit (Some d) g) = lk_SetLimit (Some d) g"
  using assms by (induction ticks) (simp_all add: lk_startLeaking_def lk_SetLimit_def)

section \<open>Callers and leaks interleaved\<close>

record lk_sys =
  sys_bucket :: leaky
  sys_waiters :: "lk_waiter list"

text \<open>A new \<open>WaitN\<close> call appends a caller; \<open>Advance i\<close> and \<open>Expire i\<close> move the caller \<open>i\<close>.\<close>

datatype lk_event = Arrive int | Leak time | StartWait int | Advance nat | Expire nat | Shut

text \<open>Each event returns how many requests it admitted and how many leaks took place.\<close>

definition lk_level_change :: "leaky \<Rightarrow> leaky \<Rightarrow> int" where
  "lk_level_change lb lb' = lk_current lb' - lk_current lb"

fun lk_sys_step :: "lk_sys \<Rightarrow> lk_event \<Rightarrow> ((int \<times> int) \<times> lk_sys) option" where
  "lk_sys_step s (Arrive n) =
     (let (ok, lb) = lk_AllowN n (sys_bucket s)
      in Some ((if ok \<and> 0 < n then n else 0, 0), s\<lparr>sys_bucket := lb\<rparr>))"
| "lk_sys_step s (Leak now) =
     (let lb = lk_doLeak now (sys_bucket s)
      in Some ((0, if lk_current (sys_bucket s) > 0 then 1 else 0), s\<lparr>sys_bucket := lb\<rparr>))"
| "lk_sys_step s (StartWait n) =
     (let (w, lb) = lk_WaitN n (sys_bucket s)
      in Some ((if w = Acquired \<and> 0 < n then n else 0, 0),
               s\<lparr>sys_bucket := lb, sys_waiters := sys_waiters s @ [w]\<rparr>))"
| "lk_sys_step s (Advance i) =
     (if i < length (sys_waiters s)
      then case lk_waitForSpace (sys_waiters s ! i) (sys_bucket s) of
             None \<Rightarrow> Some ((0, 0), s)
           | Some (w, lb) \<Rightarrow>
               Some ((lk_current lb - lk_current (sys_bucket s), 0),
                     s\<lparr>sys_bucket := lb, sys_waiters := (sys_waiters s)[i := w]\<rparr>)
      else Some ((0, 0), s))"
| "lk_sys_step s (Expire i) =
     (if i < length (sys_waiters s)
      then case lk_waitCancelled (sys_waiters s ! i) (sys_bucket s) of
             None \<Rightarrow> Some ((0, 0), s)
           | Some (w, lb) \<Rightarrow> Some ((0, 0), s\<lparr>sys_bucket := lb, sys_waiters := (sys_waiters s)[i := w]\<rparr>)
      else Some ((0, 0), s))"
| "lk_sys_step s Shut = Some ((0, 0), s\<lparr>sys_bucket := lk_Close (sys_bucket s)\<rparr>)"

text \<open>Half the range of the integers: sums of two such numbers do not wrap.\<close>

definition small :: "int \<Rightarrow> bool" where
  "small n \<longleftrightarrow> n < 2 ^ 62"

fun small_event :: "lk_event \<Rightarrow> bool" where
  "small_event (Arrive n) = small n"
| "small_event (StartWait n) = small n"
| "small_event _ = True"

definition lk_wf :: "leaky \<Rightarrow> bool" where
  "lk_wf lb \<longleftrightarrow> 0 \<le> lk_current lb \<and> lk_current lb \<le> lk_capacity lb \<and> small (lk_capacity lb)"

lemma lk_AllowN_wf:
  assumes "lk_wf lb" and "small n" and "lk_AllowN n lb = (ok, lb')"
  shows "lk_wf lb' \<and> lk_capacity lb' = lk_capacity lb
    \<and> lk_current lb' = lk_current lb + (if ok \<and> 0 < n then n else 0)"
proof -
  have "wrap64 (lk_current lb + n) = lk_current lb + n" if "0 < n"
    using assms(1,2) that by (intro wrap64_id) (auto simp: lk_wf_def small_def)
  with assms show ?thesis by (auto simp: lk_AllowN_def lk_wf_def split: if_splits)
qed

lemma lk_sys_step_level:
  assumes wf: "lk_wf (sys_bucket s)" and ev: "small_event ev"
    and step: "lk_sys_step s ev = Some ((g, l), s')"
  shows "lk_wf (sys_bucket s') \<and> lk_capacity (sys_bucket s') = lk_capacity (sys_bucket s)
    \<and> lk_current (sys_bucket s') = lk_current (sys_bucket s) + g - l"
proof (cases ev)
  case (Arrive n)
  obtain ok lb where a: "lk_AllowN n (sys_bucket s) = (ok, lb)" by fastforce
  from lk_AllowN_wf [OF wf _ a] ev step a Arrive show ?thesis by auto
next
  case (Leak now)
  with step wf show ?thesis by (auto simp: lk_doLeak_def lk_wf_def Let_def split: list.splits if_splits)
next
  case (StartWait n)
  show ?thesis
  proof (cases "n \<le> 0")
    case True
    with StartWait step wf show ?thesis by (auto simp: lk_WaitN_def)
  next
    case False
    obtain ok lb where a: "lk_AllowN n (sys_bucket s) = (ok, lb)" by fastforce
    from lk_AllowN_wf [OF wf _ a] ev step a StartWait False show ?thesis
      by (auto simp: lk_WaitN_def)
  qed
next
  case (Advance i)
  with step wf show ?thesis
    by (auto simp: lk_waitForSpace_def lk_wf_def split: if_splits lk_waiter.splits)
next
  case (Expire i)
  with step wf show ?thesis
    by (auto simp: lk_waitCancelled_def lk_wf_def split: if_splits lk_waiter.splits)
next
  case Shut
  with step wf show ?thesis by (auto simp: lk_Close_def lk_wf_def)
qed

lemma lk_run_level:
  assumes "lk_wf (sys_bucket s)" and "\<forall>ev \<in> set evs. small_event ev"
    and "run_steps lk_sys_step s evs = Some (rs, s')"
  shows "lk_wf (sys_bucket s') \<and> lk_capacity (sys_bucket s') = lk_capacity (sys_bucket s)
    \<and> lk_current (sys_bucket s') = lk_current (sys_bucket s) + sum_list (map fst rs) - sum_list (map snd rs)"
  using assms
proof (induction evs arbitrary: s rs)
  case Nil
  then show ?case by simp
next
  case (Cons ev evs)
  then obtain g l s1 ts where s1: "lk_sys_step s ev = Some ((g, l), s1)"
    "run_steps lk_sys_step s1 evs = Some (ts, s')" "rs = (g, l) # ts"
    by (auto split: bind_splits)
  from lk_sys_step_level [OF Cons.prems(1) _ s1(1)] Cons.prems(2) have
    "lk_wf (sys_bucket s1) \<and> lk_capacity (sys_bucket s1) = lk_capacity (sys_bucket s)
     \<and> lk_current (sys_bucket s1) = lk_current (sys_bucket s) + g - l" by simp
  with Cons.IH [of s1 ts] Cons.prems(2) s1(2,3) show ?case by simp
qed

section \<open>Properties\<close>



text \<open>A lost wake-up: a caller that finds the bucket full and registers only after the bucket has
  leaked empty is never woken: no later leak changes anything, although the bucket is empty.\<close>

theorem LeakyBucket_lost_wakeup:
  "\<exists>rs s. run_steps lk_sys_step \<lparr>sys_bucket = NewLeakyBucket 0 5 1, sys_waiters = []\<rparr>
      [Arrive 1, StartWait 1, Leak 5, Advance 0] = Some (rs, s)
    \<and> lk_current (sys_bucket s) = 0 \<and> sys_waiters s = [WaitOn 0 1]
    \<and> (\<forall>ts. \<exists>rs'. run_steps lk_sys_step s (concat (map (\<lambda>t. [Leak t, Advance 0]) ts)) = Some (rs', s))"
proof -
  let ?b = "\<lparr>lk_capacity = 1, lk_leak = 5, lk_lastLeak = 5, lk_current = 0, lk_closed = False,
    lk_waitQueue = [0], lk_signalled = [], lk_fresh = 1\<rparr>"
  let ?s = "\<lparr>sys_bucket = ?b, sys_waiters = [WaitOn 0 1]\<rparr>"
  have "\<exists>rs. run_steps lk_sys_step \<lparr>sys_bucket = NewLeakyBucket 0 5 1, sys_waiters = []\<rparr>
      [Arrive 1, StartWait 1, Leak 5, Advance 0] = Some (rs, ?s)"
    by (simp add: NewLeakyBucket_def lk_AllowN_def lk_WaitN_def lk_waitForSpace_def lk_doLeak_def Let_def
        wrap64_def)
  moreover have "\<exists>rs'. run_steps lk_sys_step ?s (concat (map (\<lambda>t. [Leak t, Advance 0]) ts)) = Some (rs', ?s)" for ts
    by (induction ts) (auto simp: lk_doLeak_def lk_waitForSpace_def)
  ultimately show ?thesis by (auto intro!: exI [of _ ?s])
qed

text \<open>The sum of the level and a huge request wraps below the capacity: the request is admitted and the
  level becomes negative.\<close>

lemma AllowN_overflow:
  "\<exists>lb. lk_AllowN (2 ^ 63 - 1) (NewLeakyBucket 0 5 10\<lparr>lk_current := 1\<rparr>) = (True, lb) \<and> lk_current lb < 0"
  by (simp add: lk_AllowN_def NewLeakyBucket_def wrap64_def)

text \<open>A reservation takes nothing from the bucket, but cancelling it gives its tokens back.\<close>

lemma Cancel_frees_unreserved:
  assumes "0 < n" and "n \<le> lk_current lb" and "lk_current lb + n \<le> lk_capacity lb" and "lk_wf lb" and "\<not> lk_closed lb"
  shows "lk_current (snd (lk_CancelAt (lk_ReserveN n lb) lb)) = lk_current lb - n"
proof -
  have "wrap64 (lk_capacity lb - lk_current lb) = lk_capacity lb - lk_current lb"
    "wrap64 (lk_current lb - n) = lk_current lb - n"
    using assms by (auto simp: lk_wf_def small_def intro!: wrap64_id)
  with assms show ?thesis by (simp add: lk_CancelAt_def lk_ReserveN_def Let_def)
qed

end
