(* ===== verification/Tries.thy ===== *)
theory Tries
  imports GoLists Interfaces "HOL-Library.Sublist"
begin

text \<open>
  \<open>algo/trie.go\<close>: the trie over runes. A node is reachable from one parent only, so nodes are a
  datatype; a word is its list of runes. The Bloom filter in front of the trie comes from another
  package: its two operations are arguments.
\<close>

datatype 'c trie_node = TrieNode (isEnd: bool) (children: "('c \<times> 'c trie_node) list")

abbreviation leaf :: "'c trie_node" where
  "leaf \<equiv> TrieNode False []"

fun tr_insert :: "'c trie_node \<Rightarrow> 'c list \<Rightarrow> 'c trie_node" where
  "tr_insert (TrieNode e cs) [] = TrieNode True cs"
| "tr_insert (TrieNode e cs) (ch # w) =
     TrieNode e (AList.update ch
       (tr_insert (case map_of cs ch of None \<Rightarrow> leaf | Some n \<Rightarrow> n) w) cs)"

fun tr_search :: "'c trie_node \<Rightarrow> 'c list \<Rightarrow> bool" where
  "tr_search (TrieNode e cs) [] = e"
| "tr_search (TrieNode e cs) (ch # w) =
     (case map_of cs ch of None \<Rightarrow> False | Some n \<Rightarrow> tr_search n w)"

fun tr_startsWith :: "'c trie_node \<Rightarrow> 'c list \<Rightarrow> bool" where
  "tr_startsWith (TrieNode e cs) [] = True"
| "tr_startsWith (TrieNode e cs) (ch # w) =
     (case map_of cs ch of None \<Rightarrow> False | Some n \<Rightarrow> tr_startsWith n w)"

text \<open>The walk down to the node of the word and the change of that node, seen from each node on the
  way.\<close>

fun tr_delete :: "'c trie_node \<Rightarrow> 'c list \<Rightarrow> bool \<times> 'c trie_node" where
  "tr_delete (TrieNode e cs) [] = (if \<not> e then (False, TrieNode e cs) else (True, TrieNode False cs))"
| "tr_delete (TrieNode e cs) (ch # w) =
     (case map_of cs ch of
        None \<Rightarrow> (False, TrieNode e cs)
      | Some n \<Rightarrow> (let (b, n') = tr_delete n w
                  in (b, if b then TrieNode e (AList.update ch n' cs) else TrieNode e cs)))"

fun tr_words :: "'c trie_node \<Rightarrow> 'c list \<Rightarrow> 'c list list" where
  "tr_words (TrieNode e cs) pre =
     (if e then [pre] else []) @ concat (map (\<lambda>(ch, n). tr_words n (pre @ [ch])) cs)"

section \<open>The trie and its modifier\<close>

record ('c, 'f) bloom =
  bl_Add :: "'c list \<Rightarrow> 'f \<Rightarrow> 'f"
  bl_Test :: "'c list \<Rightarrow> 'f \<Rightarrow> bool"

text \<open>The chain of modifiers, from \<open>Trie.modifier\<close> along \<open>next\<close>, by the states of their filters. Only
  the first one is ever asked: no method of the modifier calls its \<open>next\<close>.\<close>

record ('c, 'f) trie =
  tr_root :: "'c trie_node"
  tr_modifier :: "'f list"

definition NewTrie :: "('c, 'f) trie" where
  "NewTrie = \<lparr>tr_root = leaf, tr_modifier = []\<rparr>"

definition tr_WithBloomFilter :: "'f \<Rightarrow> ('c, 'f) trie \<Rightarrow> ('c, 'f) trie" where
  "tr_WithBloomFilter bf t = t\<lparr>tr_modifier := tr_modifier t @ [bf]\<rparr>"

definition tr_Insert :: "('c, 'f) bloom \<Rightarrow> ('c, 'f) trie \<Rightarrow> 'c list \<Rightarrow> ('c, 'f) trie" where
  "tr_Insert b t word =
     (case tr_modifier t of
        f # fs \<Rightarrow> t\<lparr>tr_modifier := bl_Add b word f # fs, tr_root := tr_insert (tr_root t) word\<rparr>
      | [] \<Rightarrow> t\<lparr>tr_root := tr_insert (tr_root t) word\<rparr>)"

definition tr_Search :: "('c, 'f) bloom \<Rightarrow> ('c, 'f) trie \<Rightarrow> 'c list \<Rightarrow> bool" where
  "tr_Search b t word =
     (case tr_modifier t of
        f # fs \<Rightarrow> if \<not> bl_Test b word f then False else tr_search (tr_root t) word
      | [] \<Rightarrow> tr_search (tr_root t) word)"

definition tr_StartsWith :: "('c, 'f) trie \<Rightarrow> 'c list \<Rightarrow> bool" where
  "tr_StartsWith t pre = tr_startsWith (tr_root t) pre"

definition tr_Delete :: "('c, 'f) bloom \<Rightarrow> ('c, 'f) trie \<Rightarrow> 'c list \<Rightarrow> bool \<times> ('c, 'f) trie" where
  "tr_Delete b t word =
     (case tr_modifier t of
        f # fs \<Rightarrow> if \<not> bl_Test b word f then (False, t)
                  else (let (r, n) = tr_delete (tr_root t) word in (r, t\<lparr>tr_root := n\<rparr>))
      | [] \<Rightarrow> (let (r, n) = tr_delete (tr_root t) word in (r, t\<lparr>tr_root := n\<rparr>)))"

definition tr_GetAllWords :: "('c, 'f) trie \<Rightarrow> 'c list list" where
  "tr_GetAllWords t = tr_words (tr_root t) []"

section \<open>The set of words\<close>

lemma search_leaf [simp]: "tr_search leaf w = False"
  by (cases w) simp_all

lemma search_insert: "tr_search (tr_insert t w) v \<longleftrightarrow> v = w \<or> tr_search t v"
proof (induction t w arbitrary: v rule: tr_insert.induct)
  case (1 e cs)
  then show ?case by (cases v) auto
next
  case (2 e cs ch w)
  then show ?case by (cases v) (auto simp: update_conv' split: option.splits)
qed

lemma delete_found: "fst (tr_delete t w) = tr_search t w"
  by (induction t w rule: tr_delete.induct) (auto split: option.splits prod.splits)

lemma search_delete: "tr_search (snd (tr_delete t w)) v \<longleftrightarrow> v \<noteq> w \<and> tr_search t v"
proof (induction t w arbitrary: v rule: tr_delete.induct)
  case (1 e cs)
  then show ?case by (cases v) auto
next
  case (2 e cs ch w)
  show ?case
  proof (cases "map_of cs ch")
    case None
    then show ?thesis by (cases v) (auto split: option.splits)
  next
    case (Some n)
    obtain b n' where d: "tr_delete n w = (b, n')" by fastforce
    have IH: "tr_search n' v' \<longleftrightarrow> v' \<noteq> w \<and> tr_search n v'" for v'
      using 2 [OF Some, of v'] d by simp
    have b: "b = tr_search n w" using delete_found [of n w] d by simp
    from Some d IH b show ?thesis by (cases v) (auto simp: update_conv')
  qed
qed

text \<open>A node has one child for each rune.\<close>

inductive tr_wf :: "'c trie_node \<Rightarrow> bool" where
  "distinct (map fst cs) \<Longrightarrow> (\<And>ch n. (ch, n) \<in> set cs \<Longrightarrow> tr_wf n) \<Longrightarrow> tr_wf (TrieNode e cs)"

inductive_cases tr_wfE [elim!]: "tr_wf (TrieNode e cs)"

lemma wf_leaf [simp]: "tr_wf leaf"
  by (rule tr_wf.intros) simp_all

lemma wf_update:
  assumes "tr_wf (TrieNode e cs)" and "tr_wf n"
  shows "tr_wf (TrieNode e' (AList.update ch n cs))"
proof (rule tr_wf.intros)
  show "distinct (map fst (AList.update ch n cs))" using assms(1) by (auto simp: distinct_update)
  fix ch' n' assume "(ch', n') \<in> set (AList.update ch n cs)"
  then have "map_of (AList.update ch n cs) ch' = Some n'"
    using assms(1) by (intro map_of_is_SomeI) (auto simp: distinct_update)
  then have "n' = n \<or> map_of cs ch' = Some n'" by (auto simp: update_conv' split: if_splits)
  then show "tr_wf n'" using assms by (auto dest: map_of_SomeD)
qed

lemma wf_insert: "tr_wf t \<Longrightarrow> tr_wf (tr_insert t w)"
proof (induction t w rule: tr_insert.induct)
  case (1 e cs)
  then show ?case by (auto intro: tr_wf.intros)
next
  case (2 e cs ch w)
  then have "tr_wf (case map_of cs ch of None \<Rightarrow> leaf | Some n \<Rightarrow> n)"
    by (auto split: option.splits dest: map_of_SomeD)
  with 2 show ?case by (simp add: wf_update)
qed

lemma wf_delete: "tr_wf t \<Longrightarrow> tr_wf (snd (tr_delete t w))"
proof (induction t w rule: tr_delete.induct)
  case (1 e cs)
  then show ?case by (auto intro: tr_wf.intros)
next
  case (2 e cs ch w)
  show ?case
  proof (cases "map_of cs ch")
    case None
    with 2 show ?thesis by simp
  next
    case (Some n)
    then have "tr_wf n" using 2(2) by (auto dest: map_of_SomeD)
    with 2(1) [OF Some] have "tr_wf (snd (tr_delete n w))" .
    with Some 2(2) wf_update [OF 2(2)] show ?thesis by (auto split: prod.splits)
  qed
qed

lemma words_search:
  "tr_wf t \<Longrightarrow> set (tr_words t p) = (\<lambda>w. p @ w) ` {w. tr_search t w} \<and> distinct (tr_words t p)"
proof (induction t p rule: tr_words.induct)
  case (1 e cs p)
  have d: "distinct (map fst cs)" and wf: "\<And>ch n. (ch, n) \<in> set cs \<Longrightarrow> tr_wf n" using 1(2) by auto
  have IH: "set (tr_words n (p @ [ch])) = (\<lambda>w. p @ ch # w) ` {w. tr_search n w}
    \<and> distinct (tr_words n (p @ [ch]))" if "(ch, n) \<in> set cs" for ch n
    using 1(1) [OF that refl] wf [OF that] by simp
  have child: "tr_search (TrieNode e cs) (ch # w) \<longleftrightarrow> (\<exists>n. (ch, n) \<in> set cs \<and> tr_search n w)" for ch w
    by (cases "map_of cs ch") (simp_all flip: map_of_eq_Some_iff [OF d])
  let ?sub = "concat (map (\<lambda>(ch, n). tr_words n (p @ [ch])) cs)"
  have "set ?sub = (\<Union>(ch, n) \<in> set cs. (\<lambda>w. p @ ch # w) ` {w. tr_search n w})"
    using IH by (auto simp: case_prod_beta)
  also have "\<dots> = (\<lambda>w. p @ w) ` {w. w \<noteq> [] \<and> tr_search (TrieNode e cs) w}"
  proof (intro equalityI subsetI)
    fix v assume "v \<in> (\<Union>(ch, n) \<in> set cs. (\<lambda>w. p @ ch # w) ` {w. tr_search n w})"
    then obtain ch n w where "(ch, n) \<in> set cs" "tr_search n w" "v = p @ ch # w" by auto
    then have "tr_search (TrieNode e cs) (ch # w)" "v = p @ (ch # w)" using child by auto
    then show "v \<in> (\<lambda>w. p @ w) ` {w. w \<noteq> [] \<and> tr_search (TrieNode e cs) w}" by blast
  next
    fix v assume "v \<in> (\<lambda>w. p @ w) ` {w. w \<noteq> [] \<and> tr_search (TrieNode e cs) w}"
    then obtain w where w: "w \<noteq> []" "tr_search (TrieNode e cs) w" "v = p @ w" by blast
    then obtain ch w' where w': "w = ch # w'" by (cases w) auto
    with w child obtain n where "(ch, n) \<in> set cs" "tr_search n w'" by blast
    with w w' show "v \<in> (\<Union>(ch, n) \<in> set cs. (\<lambda>w. p @ ch # w) ` {w. tr_search n w})" by auto
  qed
  finally have sub: "set ?sub = (\<lambda>w. p @ w) ` {w. w \<noteq> [] \<and> tr_search (TrieNode e cs) w}" .
  have e: "tr_search (TrieNode e cs) [] = e" by simp
  have "set (tr_words (TrieNode e cs) p) = (if e then {p} else {}) \<union> set ?sub" by simp
  also have "\<dots> = (\<lambda>w. p @ w) ` {w. tr_search (TrieNode e cs) w}"
  proof (intro equalityI subsetI)
    fix v assume "v \<in> (if e then {p} else {}) \<union> set ?sub"
    then show "v \<in> (\<lambda>w. p @ w) ` {w. tr_search (TrieNode e cs) w}"
    proof
      assume "v \<in> (if e then {p} else {})"
      then have "v = p @ []" "tr_search (TrieNode e cs) []" by (auto split: if_splits)
      then show ?thesis by blast
    next
      assume "v \<in> set ?sub"
      then show ?thesis unfolding sub by blast
    qed
  next
    fix v assume "v \<in> (\<lambda>w. p @ w) ` {w. tr_search (TrieNode e cs) w}"
    then obtain w where w: "v = p @ w" "tr_search (TrieNode e cs) w" by blast
    show "v \<in> (if e then {p} else {}) \<union> set ?sub"
    proof (cases "w = []")
      case True
      with w e show ?thesis by simp
    next
      case False
      with w show ?thesis unfolding sub by blast
    qed
  qed
  finally have set: "set (tr_words (TrieNode e cs) p) = (\<lambda>w. p @ w) ` {w. tr_search (TrieNode e cs) w}" .
  have "distinct ?sub"
    using d IH
  proof (induction cs)
    case Nil
    then show ?case by simp
  next
    case (Cons c cs)
    obtain ch n where c: "c = (ch, n)" by (cases c)
    have "set (tr_words n (p @ [ch])) = (\<lambda>w. p @ ch # w) ` {w. tr_search n w}"
      "distinct (tr_words n (p @ [ch]))" using Cons.prems(2) [of ch n] by (auto simp: c)
    moreover have "p @ ch # w \<notin> set (concat (map (\<lambda>(ch, n). tr_words n (p @ [ch])) cs))" for w
    proof
      assume "p @ ch # w \<in> set (concat (map (\<lambda>(ch, n). tr_words n (p @ [ch])) cs))"
      then obtain ch' n' where m: "(ch', n') \<in> set cs" "p @ ch # w \<in> set (tr_words n' (p @ [ch']))"
        by auto
      then have "ch = ch'" using Cons.prems(2) [of ch' n'] by auto
      with m Cons.prems(1) show False by (force simp: c)
    qed
    moreover have "distinct (concat (map (\<lambda>(ch, n). tr_words n (p @ [ch])) cs))"
      using Cons by (auto simp: c)
    ultimately show ?case by (auto simp: c)
  qed
  moreover have "p \<notin> set ?sub" unfolding sub by auto
  ultimately show ?case using set by auto
qed

section \<open>Sequences of operations\<close>

datatype 'c trie_op = TInsert "'c list" | TSearch "'c list" | TDelete "'c list"

fun tr_step :: "('c, 'f) bloom \<Rightarrow> ('c, 'f) trie \<Rightarrow> 'c trie_op \<Rightarrow> (bool \<times> ('c, 'f) trie) option" where
  "tr_step b t (TInsert w) = Some (True, tr_Insert b t w)"
| "tr_step b t (TSearch w) = Some (tr_Search b t w, t)"
| "tr_step b t (TDelete w) = Some (tr_Delete b t w)"

text \<open>The specification: a set of words.\<close>

fun words_spec :: "'c list set \<Rightarrow> 'c trie_op \<Rightarrow> bool \<times> 'c list set" where
  "words_spec W (TInsert w) = (True, insert w W)"
| "words_spec W (TSearch w) = (w \<in> W, W)"
| "words_spec W (TDelete w) = (w \<in> W, W - {w})"

definition words_of :: "('c, 'f) trie \<Rightarrow> 'c list set" where
  "words_of t = {w. tr_search (tr_root t) w}"

definition words_rel :: "('c, 'f) trie \<Rightarrow> 'c list set \<Rightarrow> bool" where
  "words_rel t W \<longleftrightarrow> tr_modifier t = [] \<and> tr_wf (tr_root t) \<and> W = words_of t"

lemma words_of_Insert: "words_of (tr_Insert b t w) = insert w (words_of t)"
  by (auto simp: words_of_def tr_Insert_def search_insert split: list.splits)

lemma Delete_no_modifier:
  assumes "tr_modifier t = []"
  shows "tr_Delete b t w = (w \<in> words_of t, t\<lparr>tr_root := snd (tr_delete (tr_root t) w)\<rparr>)"
  using assms delete_found [of "tr_root t" w]
  by (auto simp: tr_Delete_def words_of_def case_prod_beta)

lemma words_rel_New: "words_rel NewTrie {}"
  by (simp add: words_rel_def words_of_def NewTrie_def)

lemma words_rel_step:
  assumes "words_rel t W"
  shows "\<exists>t'. tr_step b t x = Some (fst (words_spec W x), t') \<and> words_rel t' (snd (words_spec W x))"
proof (cases x)
  case (TInsert w)
  have "words_rel (tr_Insert b t w) (insert w W)"
    using assms by (simp add: words_rel_def words_of_Insert tr_Insert_def wf_insert
      flip: words_of_Insert [of b])
  with TInsert show ?thesis by simp
next
  case (TSearch w)
  with assms show ?thesis by (simp add: words_rel_def words_of_def tr_Search_def)
next
  case (TDelete w)
  have "words_of (t\<lparr>tr_root := snd (tr_delete (tr_root t) w)\<rparr>) = words_of t - {w}"
    by (auto simp: words_of_def search_delete)
  with TDelete assms show ?thesis
    by (simp add: words_rel_def Delete_no_modifier wf_delete)
qed

interpretation trie: refinement "tr_step b" words_spec words_rel for b
  by unfold_locales (rule words_rel_step)

text \<open>Delete keeps the nodes, so a prefix stays one for as long as its nodes are there.\<close>

lemma startsWith_leaf [simp]: "tr_startsWith leaf w \<longleftrightarrow> w = []"
  by (cases w) simp_all

lemma startsWith_insert: "tr_startsWith (tr_insert t w) p \<longleftrightarrow> prefix p w \<or> tr_startsWith t p"
proof (induction t w arbitrary: p rule: tr_insert.induct)
  case (1 e cs)
  then show ?case by (cases p) auto
next
  case (2 e cs ch w)
  then show ?case by (cases p) (auto simp: update_conv' split: option.splits)
qed

lemma startsWith_delete: "tr_startsWith (snd (tr_delete t w)) p = tr_startsWith t p"
proof (induction t w arbitrary: p rule: tr_delete.induct)
  case (1 e cs)
  then show ?case by (cases p) auto
next
  case (2 e cs ch w)
  show ?case
  proof (cases "map_of cs ch")
    case None
    then show ?thesis by simp
  next
    case (Some n)
    have "tr_startsWith (snd (tr_delete n w)) p' = tr_startsWith n p'" for p'
      using 2 [OF Some, of p'] by simp
    with Some show ?thesis by (cases p) (auto simp: update_conv' split: prod.splits)
  qed
qed

lemma StartsWith_Delete: "tr_StartsWith (snd (tr_Delete b t w)) p = tr_StartsWith t p"
  by (auto simp: tr_StartsWith_def tr_Delete_def case_prod_beta startsWith_delete split: list.splits)

lemma StartsWith_Insert: "tr_StartsWith (tr_Insert b t w) p \<longleftrightarrow> prefix p w \<or> tr_StartsWith t p"
  by (auto simp: tr_StartsWith_def tr_Insert_def startsWith_insert split: list.splits)

lemma run_StartsWith:
  assumes "run_steps (tr_step b) t xs = Some (rs, t')"
  shows "tr_StartsWith t' p \<longleftrightarrow> tr_StartsWith t p \<or> (\<exists>w. TInsert w \<in> set xs \<and> prefix p w)"
  using assms
proof (induction xs arbitrary: t rs)
  case Nil
  then show ?case by simp
next
  case (Cons x xs)
  then obtain r t1 ts where s: "tr_step b t x = Some (r, t1)" "run_steps (tr_step b) t1 xs = Some (ts, t')"
    by (auto split: bind_splits)
  have "tr_StartsWith t1 p \<longleftrightarrow> tr_StartsWith t p \<or> (\<exists>w. x = TInsert w \<and> prefix p w)"
  proof (cases x)
    case (TDelete w)
    with s StartsWith_Delete [of b t w p] show ?thesis by simp
  qed (use s in \<open>auto simp: StartsWith_Insert\<close>)
  with Cons.IH [OF s(2)] show ?case by auto
qed

section \<open>A filter without false negatives changes nothing\<close>

locale bloom_filter =
  fixes add :: "'c list \<Rightarrow> 'f \<Rightarrow> 'f" and test :: "'c list \<Rightarrow> 'f \<Rightarrow> bool"
  assumes test_added: "test w (add w f)"
    and test_kept: "test w f \<Longrightarrow> test w (add v f)"
begin

lemma covers_add: "\<forall>w \<in> W. test w f \<Longrightarrow> w \<in> insert v W \<Longrightarrow> test w (add v f)"
  using test_added test_kept by auto

end

definition filter_rel :: "('c, 'f) bloom \<Rightarrow> ('c, 'f) trie \<Rightarrow> 'c list set \<Rightarrow> bool" where
  "filter_rel b t W \<longleftrightarrow> tr_wf (tr_root t) \<and> W = words_of t
     \<and> (case tr_modifier t of [] \<Rightarrow> True | f # fs \<Rightarrow> \<forall>w \<in> W. bl_Test b w f)"

lemma filter_rel_step:
  assumes b: "bloom_filter (bl_Add b) (bl_Test b)" and "filter_rel b t W"
  shows "\<exists>t'. tr_step b t x = Some (fst (words_spec W x), t')
    \<and> filter_rel b t' (snd (words_spec W x))"
proof (cases "tr_modifier t")
  case Nil
  then have "words_rel t W" using assms(2) by (simp add: words_rel_def filter_rel_def)
  from words_rel_step [OF this, of b x] show ?thesis
    by (auto simp: words_rel_def filter_rel_def)
next
  case (Cons f fs)
  have c: "\<forall>w \<in> W. bl_Test b w f" and W: "W = words_of t" and wf: "tr_wf (tr_root t)"
    using assms(2) Cons by (simp_all add: filter_rel_def)
  show ?thesis
  proof (cases x)
    case (TInsert w)
    have "words_of (tr_Insert b t w) = insert w W" using W by (simp add: words_of_Insert)
    moreover have "tr_wf (tr_root (tr_Insert b t w))"
      "tr_modifier (tr_Insert b t w) = bl_Add b w f # fs"
      using wf Cons by (simp_all add: tr_Insert_def wf_insert)
    ultimately show ?thesis
      using TInsert bloom_filter.covers_add [OF b c] by (simp add: filter_rel_def)
  next
    case (TSearch w)
    have "tr_Search b t w \<longleftrightarrow> w \<in> W" using c W Cons by (auto simp: tr_Search_def words_of_def)
    with TSearch assms(2) show ?thesis by simp
  next
    case (TDelete w)
    let ?t = "t\<lparr>tr_root := snd (tr_delete (tr_root t) w)\<rparr>"
    show ?thesis
    proof (cases "bl_Test b w f")
      case True
      have "words_of ?t = W - {w}" using W by (auto simp: words_of_def search_delete)
      moreover have "tr_Delete b t w = (w \<in> W, ?t)"
        using Cons True W delete_found [of "tr_root t" w]
        by (auto simp: tr_Delete_def words_of_def case_prod_beta)
      ultimately show ?thesis
        using TDelete wf c Cons by (simp add: filter_rel_def wf_delete)
    next
      case False
      then have "w \<notin> W" using c by blast
      with False TDelete Cons assms(2) show ?thesis by (simp add: tr_Delete_def)
    qed
  qed
qed

lemma WithBloomFilter_New_rel: "filter_rel b (tr_WithBloomFilter f NewTrie) {}"
  by (simp add: filter_rel_def tr_WithBloomFilter_def NewTrie_def words_of_def)

text \<open>The exact filter, which remembers every word, meets the contract; one that forgets does not,
  and hides a word that is in the trie.\<close>

definition exact_filter :: "('c, 'c list list) bloom" where
  "exact_filter = \<lparr>bl_Add = (#), bl_Test = (\<lambda>w f. w \<in> set f)\<rparr>"

interpretation exact: bloom_filter "bl_Add exact_filter" "bl_Test exact_filter"
  by unfold_locales (simp_all add: exact_filter_def)

definition last_word_filter :: "('c, 'c list) bloom" where
  "last_word_filter = \<lparr>bl_Add = (\<lambda>w f. w), bl_Test = (\<lambda>w f. f = w)\<rparr>"

lemma forgetful_filter_hides:
  "tr_Search last_word_filter (tr_Insert last_word_filter (tr_Insert last_word_filter
     (tr_WithBloomFilter ''c'' NewTrie) ''a'') ''b'') ''a'' = False"
  by (simp add: tr_Search_def tr_Insert_def tr_WithBloomFilter_def NewTrie_def last_word_filter_def)

section \<open>Properties\<close>


text \<open>A filter that has no false negatives does not change what a trie returns.\<close>

theorem Trie_filter_is_transparent:
  assumes "\<And>w f. bl_Test b w (bl_Add b w f)"
    and "\<And>v w f. bl_Test b w f \<Longrightarrow> bl_Test b w (bl_Add b v f)"
  shows "\<exists>rs t W. run_steps (tr_step b) (tr_WithBloomFilter f NewTrie) xs = Some (rs, t)
    \<and> run_steps (total_step words_spec) {} xs = Some (rs, W)"
proof -
  have b: "bloom_filter (bl_Add b) (bl_Test b)" using assms by (rule bloom_filter.intro)
  have "refinement (tr_step b) words_spec (filter_rel b)"
    by (rule refinement.intro) (rule filter_rel_step [OF b])
  from refinement.run_refines [OF this WithBloomFilter_New_rel]
  show ?thesis by blast
qed

theorem Trie_filter_is_transparent_witness:
  "\<exists>rs t W. run_steps (tr_step exact_filter) (tr_WithBloomFilter [] NewTrie)
      [TInsert ''ab'', TSearch ''ab'', TDelete ''ab'', TSearch ''ab''] = Some (rs, t)
    \<and> run_steps (total_step words_spec) {}
      [TInsert ''ab'', TSearch ''ab'', TDelete ''ab'', TSearch ''ab''] = Some (rs, W)"
  by (rule Trie_filter_is_transparent) (simp_all add: exact_filter_def)

end
