(* ===== verification/Selects.thy ===== *)
theory Selects
  imports Prelude "HOL-Library.Multiset"
begin

text \<open>
  \<open>optz/kth.go\<close>: selection of the k-th smallest element. The slice is a list that every swap updates;
  the result comes with the permuted slice, as the caller sees it. The variable \<open>i\<close> of
  \<open>partition\<close> starts at \<open>left - 1\<close> and is incremented before every use: the model's \<open>m\<close> is
  \<open>i + 1\<close>.
\<close>

definition kth_swap :: "'a list \<Rightarrow> nat \<Rightarrow> nat \<Rightarrow> 'a list" where
  "kth_swap arr i j = arr[i := arr ! j, j := arr ! i]"

function partition_loop :: "('a \<Rightarrow> 'a \<Rightarrow> bool) \<Rightarrow> 'a \<Rightarrow> nat \<Rightarrow> 'a list \<Rightarrow> nat \<Rightarrow> nat \<Rightarrow> 'a list \<times> nat" where
  "partition_loop lt pivot right arr m j =
     (if j < right
      then if lt (arr ! j) pivot
           then partition_loop lt pivot right (kth_swap arr m j) (m + 1) (j + 1)
           else partition_loop lt pivot right arr m (j + 1)
      else (arr, m))"
  by pat_completeness auto
termination by (relation "measure (\<lambda>(lt, pivot, right, arr, m, j). right - j)") auto

declare partition_loop.simps [simp del]

definition kth_partition :: "('a \<Rightarrow> 'a \<Rightarrow> bool) \<Rightarrow> 'a list \<Rightarrow> nat \<Rightarrow> nat \<Rightarrow> 'a list \<times> nat" where
  "kth_partition lt arr left right =
     (let pivot = arr ! right;
          (arr, m) = partition_loop lt pivot right arr left left
      in (kth_swap arr m right, m))"

section \<open>What a partition does\<close>

lemma swap_simps [simp]:
  "length (kth_swap arr i j) = length arr"
  "i < length arr \<Longrightarrow> j < length arr \<Longrightarrow> mset (kth_swap arr i j) = mset arr"
  by (simp_all add: kth_swap_def mset_swap)

lemma swap_nth:
  "i < length arr \<Longrightarrow> j < length arr \<Longrightarrow> x < length arr \<Longrightarrow>
   kth_swap arr i j ! x = (if x = j then arr ! i else if x = i then arr ! j else arr ! x)"
  by (auto simp: kth_swap_def nth_list_update)

text \<open>The loop's invariant, with the key \<open>f\<close> that the comparison looks at.\<close>

definition split_at :: "('a \<Rightarrow> 'b::linorder) \<Rightarrow> 'a \<Rightarrow> 'a list \<Rightarrow> nat \<Rightarrow> nat \<Rightarrow> nat \<Rightarrow> bool" where
  "split_at f pivot arr left m j \<longleftrightarrow>
     (\<forall>x. left \<le> x \<and> x < m \<longrightarrow> f (arr ! x) < f pivot) \<and>
     (\<forall>x. m \<le> x \<and> x < j \<longrightarrow> f pivot \<le> f (arr ! x))"

lemma split_at_swap:
  assumes "split_at f pivot arr left m j" and "left \<le> m" and "m \<le> j" and "j < length arr"
    and "f (arr ! j) < f pivot"
  shows "split_at f pivot (kth_swap arr m j) left (m + 1) (j + 1)"
proof -
  have "f (kth_swap arr m j ! x) < f pivot" if "left \<le> x" "x < m + 1" for x
    using assms that by (cases "x = m") (auto simp: split_at_def swap_nth)
  moreover have "f pivot \<le> f (kth_swap arr m j ! x)" if "m + 1 \<le> x" "x < j + 1" for x
    using assms that by (cases "x = j") (auto simp: split_at_def swap_nth)
  ultimately show ?thesis by (simp add: split_at_def)
qed

lemma partition_loop_spec:
  assumes "partition_loop (\<lambda>a b. f a < f b) pivot right arr m j = (arr', m')"
    and "split_at f pivot arr left m j" and "left \<le> m" and "m \<le> j" and "j \<le> right"
    and "right < length arr"
  shows "split_at f pivot arr' left m' right \<and> m \<le> m' \<and> m' \<le> right \<and> length arr' = length arr
    \<and> mset arr' = mset arr \<and> arr' ! right = arr ! right
    \<and> (\<forall>x < length arr. x < left \<or> right < x \<longrightarrow> arr' ! x = arr ! x)"
  using assms
proof (induction "\<lambda>a b. f a < f b" pivot right arr m j rule: partition_loop.induct)
  case (1 pivot right arr m j)
  show ?case
  proof (cases "j < right")
    case False
    with "1.prems" show ?thesis by (simp add: partition_loop.simps)
  next
    case j: True
    show ?thesis
    proof (cases "f (arr ! j) < f pivot")
      case True
      let ?arr = "kth_swap arr m j"
      have "partition_loop (\<lambda>a b. f a < f b) pivot right ?arr (m + 1) (j + 1) = (arr', m')"
        using "1.prems"(1) j True by (subst (asm) partition_loop.simps) simp
      moreover have "split_at f pivot ?arr left (m + 1) (j + 1)"
        using "1.prems" j True by (intro split_at_swap) auto
      ultimately have *: "split_at f pivot arr' left m' right \<and> m + 1 \<le> m' \<and> m' \<le> right
        \<and> length arr' = length ?arr \<and> mset arr' = mset ?arr \<and> arr' ! right = ?arr ! right
        \<and> (\<forall>x < length ?arr. x < left \<or> right < x \<longrightarrow> arr' ! x = ?arr ! x)"
        using "1.hyps"(1) [OF j True] "1.prems" j by simp
      have same: "?arr ! x = arr ! x" if "x < length arr" "x < left \<or> right \<le> x" for x
        using that "1.prems" j by (subst swap_nth) auto
      have "?arr ! right = arr ! right" using same "1.prems"(6) by simp
      moreover have "mset ?arr = mset arr" using "1.prems" j by simp
      moreover have "\<forall>x < length arr. x < left \<or> right < x \<longrightarrow> arr' ! x = arr ! x"
        using * same by auto
      ultimately show ?thesis using * by simp
    next
      case False
      have "partition_loop (\<lambda>a b. f a < f b) pivot right arr m (j + 1) = (arr', m')"
        using "1.prems"(1) j False by (subst (asm) partition_loop.simps) simp
      moreover have "split_at f pivot arr left m (j + 1)"
        using "1.prems" j False by (auto simp: split_at_def less_Suc_eq)
      ultimately show ?thesis using "1.hyps"(2) [OF j False] "1.prems" j by simp
    qed
  qed
qed

lemma partition_spec:
  fixes f :: "'a \<Rightarrow> 'b::linorder"
  assumes "kth_partition (\<lambda>a b. f a < f b) arr left right = (arr', p)"
    and "left \<le> right" and "right < length arr"
  shows "left \<le> p \<and> p \<le> right \<and> length arr' = length arr \<and> mset arr' = mset arr
    \<and> (\<forall>x. left \<le> x \<and> x < p \<longrightarrow> f (arr' ! x) \<le> f (arr' ! p))
    \<and> (\<forall>x. p < x \<and> x \<le> right \<longrightarrow> f (arr' ! p) \<le> f (arr' ! x))
    \<and> (\<forall>x < length arr. x < left \<or> right < x \<longrightarrow> arr' ! x = arr ! x)"
proof -
  obtain a m where l: "partition_loop (\<lambda>a b. f a < f b) (arr ! right) right arr left left = (a, m)"
    by fastforce
  have "split_at f (arr ! right) arr left left left" by (auto simp: split_at_def)
  from partition_loop_spec [OF l this] assms(2,3) have
    s: "split_at f (arr ! right) a left m right" "left \<le> m" "m \<le> right" "length a = length arr"
    "mset a = mset arr" "a ! right = arr ! right"
    "\<forall>x < length arr. x < left \<or> right < x \<longrightarrow> a ! x = arr ! x" by auto
  from assms(1) l have r: "p = m" "arr' = kth_swap a m right"
    by (auto simp: kth_partition_def)
  have n: "arr' ! x = (if x = right then a ! m else if x = m then a ! right else a ! x)"
    if "x < length arr" for x using that s assms(3) by (simp add: r swap_nth)
  have "f (arr' ! x) \<le> f (arr' ! p)" if "left \<le> x" "x < p" for x
    using that s assms(3) by (auto simp: n r(1) split_at_def less_imp_le)
  moreover have "f (arr' ! p) \<le> f (arr' ! x)" if "p < x" "x \<le> right" for x
    using that s assms(3) by (auto simp: n r(1) split_at_def)
  moreover have "arr' ! x = arr ! x" if "x < length arr" "x < left \<or> right < x" for x
    using that s by (auto simp: n)
  moreover have "mset arr' = mset arr" "length arr' = length arr" using s assms(3) by (simp_all add: r)
  ultimately show ?thesis using s by (auto simp: r(1))
qed

section \<open>Selection\<close>

lemma partition_loop_bounds:
  "m \<le> snd (partition_loop lt pivot right arr m j) \<and> snd (partition_loop lt pivot right arr m j) \<le> m + (right - j)"
proof (induction lt pivot right arr m j rule: partition_loop.induct)
  case (1 lt pivot right arr m j)
  then show ?case by (subst (1 2) partition_loop.simps) auto
qed

lemma partition_bounds:
  assumes "kth_partition lt arr left right = (arr', p)" and "left \<le> right"
  shows "left \<le> p" and "p \<le> right"
  using partition_loop_bounds [of left lt "arr ! right" right arr left] assms
  by (auto simp: kth_partition_def split: prod.splits)

text \<open>\<open>left\<close> is never negative; \<open>right\<close> may be \<open>-1\<close>.\<close>

function find_kth_loop :: "('a \<Rightarrow> 'a \<Rightarrow> bool) \<Rightarrow> 'a list \<Rightarrow> int \<Rightarrow> nat \<Rightarrow> int \<Rightarrow> 'a list \<times> 'a option" where
  "find_kth_loop lt arr k left right =
     (if int left \<le> right
      then let (arr, pivotIdx) = kth_partition lt arr left (nat right)
           in if int pivotIdx = k - 1 then (arr, Some (arr ! pivotIdx))
              else if int pivotIdx < k - 1 then find_kth_loop lt arr k (pivotIdx + 1) right
              else find_kth_loop lt arr k left (int pivotIdx - 1)
      else (arr, if arr = [] then None else Some (arr ! 0)))"
  by pat_completeness auto
termination
proof (relation "measure (\<lambda>(lt, arr, k, left, right). nat (right + 1 - int left))", goal_cases)
  case (2 lt arr k left right x arr' p)
  then have "left \<le> p" "p \<le> nat right"
    using partition_bounds [of lt arr left "nat right" arr' p] by auto
  with 2 show ?case by simp
next
  case (3 lt arr k left right x arr' p)
  then have "left \<le> p" "p \<le> nat right"
    using partition_bounds [of lt arr left "nat right" arr' p] by auto
  with 3 show ?case by simp
qed simp

declare find_kth_loop.simps [simp del]

definition FindKthElement :: "('a \<Rightarrow> 'a \<Rightarrow> bool) \<Rightarrow> 'a list \<Rightarrow> int \<Rightarrow> 'a list \<times> 'a option" where
  "FindKthElement lt arr k = find_kth_loop lt arr k 0 (int (length arr) - 1)"

lemma nth_is_sorted_nth:
  fixes xs :: "'b::linorder list"
  assumes "p < length xs" and lo: "\<And>x. x < p \<Longrightarrow> xs ! x \<le> xs ! p"
    and hi: "\<And>x. p < x \<Longrightarrow> x < length xs \<Longrightarrow> xs ! p \<le> xs ! x"
  shows "sort xs ! p = xs ! p"
proof -
  let ?a = "take p xs" and ?b = "drop (Suc p) xs"
  have xs: "xs = ?a @ xs ! p # ?b" using assms(1) by (simp add: id_take_nth_drop)
  have a: "y \<le> xs ! p" if "y \<in> set ?a" for y
    using that lo assms(1) by (auto simp: in_set_conv_nth)
  have b: "xs ! p \<le> y" if "y \<in> set ?b" for y
    using that hi by (auto simp: in_set_conv_nth)
  have "sort xs = sort ?a @ xs ! p # sort ?b"
  proof (rule properties_for_sort)
    show "mset (sort ?a @ xs ! p # sort ?b) = mset xs" using arg_cong [OF xs, of mset] by simp
    show "sorted (sort ?a @ xs ! p # sort ?b)"
      using a b by (fastforce simp: sorted_append intro: order_trans)
  qed
  with assms(1) show ?thesis by (simp add: nth_append)
qed

text \<open>What is left of the window is at most, what is right of it at least, everything in it.\<close>

definition window :: "('a \<Rightarrow> 'b::linorder) \<Rightarrow> 'a list \<Rightarrow> nat \<Rightarrow> int \<Rightarrow> bool" where
  "window f arr left right \<longleftrightarrow>
     (\<forall>x y. x < left \<and> left \<le> y \<and> y < length arr \<longrightarrow> f (arr ! x) \<le> f (arr ! y)) \<and>
     (\<forall>x y. int x \<le> right \<and> right < int y \<and> y < length arr \<longrightarrow> f (arr ! x) \<le> f (arr ! y))"

lemma mset_eq_nth_image:
  assumes "mset xs = mset ys" and "\<And>i. i < length xs \<Longrightarrow> i < l \<or> r \<le> i \<Longrightarrow> ys ! i = xs ! i"
    and "l \<le> i" and "i < r" and "r \<le> length xs"
  shows "\<exists>j. l \<le> j \<and> j < r \<and> ys ! i = xs ! j"
proof -
  have len: "length ys = length xs" using assms(1) by (metis size_mset)
  have same: "take l ys = take l xs" "drop r ys = drop r xs" using assms(2) len assms(3-5)
    by (auto intro!: nth_equalityI)
  have p: "mset zs = mset (take l zs) + mset (take (r - l) (drop l zs)) + mset (drop r zs)" for zs :: "'a list"
  proof -
    have "take r zs = take l zs @ take (r - l) (drop l zs)"
      using take_add [of l "r - l" zs] assms(3,4) by simp
    then have "mset (take r zs) = mset (take l zs) + mset (take (r - l) (drop l zs))" by simp
    moreover have "mset zs = mset (take r zs @ drop r zs)" by (simp only: append_take_drop_id)
    ultimately show ?thesis by (simp only: mset_append)
  qed
  have "mset (take (r - l) (drop l ys)) = mset (take (r - l) (drop l xs))"
    using p [of xs] p [of ys] same assms(1) by (simp only: add_right_cancel add_left_cancel)
  then have "set (take (r - l) (drop l ys)) = set (take (r - l) (drop l xs))" by (metis set_mset_mset)
  moreover have "ys ! i \<in> set (take (r - l) (drop l ys))"
    using assms(3-5) len by (auto simp: in_set_conv_nth intro!: exI [of _ "i - l"])
  ultimately obtain j where "j < r - l" "ys ! i = take (r - l) (drop l xs) ! j"
    using assms(3-5) by (auto simp: in_set_conv_nth)
  then show ?thesis using assms(3-5) by (intro exI [of _ "l + j"]) auto
qed

lemma find_kth_loop_spec:
  fixes f :: "'a \<Rightarrow> 'b::linorder"
  assumes "find_kth_loop (\<lambda>a b. f a < f b) arr k left right = (arr', res)"
    and "window f arr left right" and "int left < k" and "k - 1 \<le> right" and "right < int (length arr)"
  shows "mset arr' = mset arr \<and> map_option f res = Some (sort (map f arr) ! nat (k - 1))"
  using assms
proof (induction "\<lambda>a b. f a < f b" arr k left right arbitrary: arr' res rule: find_kth_loop.induct)
  case (1 arr k left right)
  have le: "int left \<le> right" "left \<le> nat right" "nat right < length arr" using "1.prems" by auto
  obtain a p where part: "kth_partition (\<lambda>a b. f a < f b) arr left (nat right) = (a, p)" by fastforce
  from partition_spec [OF part le(2,3)] have
    p: "left \<le> p" "p \<le> nat right" and len: "length a = length arr" and ms: "mset a = mset arr"
    and lo: "\<And>x. left \<le> x \<Longrightarrow> x < p \<Longrightarrow> f (a ! x) \<le> f (a ! p)"
    and hi: "\<And>x. p < x \<Longrightarrow> x \<le> nat right \<Longrightarrow> f (a ! p) \<le> f (a ! x)"
    and out: "\<And>x. x < length arr \<Longrightarrow> x < left \<or> nat right < x \<Longrightarrow> a ! x = arr ! x" by auto
  have inside: "\<exists>y. left \<le> y \<and> y < nat right + 1 \<and> a ! x = arr ! y" if "left \<le> x" "x \<le> nat right" for x
    by (rule mset_eq_nth_image) (use ms out that le in auto)
  have win1: "f (arr ! x) \<le> f (arr ! y)" if "x < left" "left \<le> y" "y < length arr" for x y
    using that "1.prems"(2) by (simp add: window_def)
  have win2: "f (arr ! x) \<le> f (arr ! y)" if "x \<le> nat right" "nat right < y" "y < length arr" for x y
  proof -
    have "int x \<le> right" "right < int y" using that le by linarith+
    with that "1.prems"(2) show ?thesis by (simp add: window_def)
  qed
  have w1: "f (a ! x) \<le> f (a ! y)" if "x < left" "left \<le> y" "y < length arr" for x y
  proof (cases "y \<le> nat right")
    case True
    with inside that obtain z where z: "left \<le> z" "z < nat right + 1" "a ! y = arr ! z" by blast
    have "a ! x = arr ! x" using out that by simp
    with z that le win1 [of x z] show ?thesis by simp
  next
    case False
    with out that have "a ! x = arr ! x" "a ! y = arr ! y" by auto
    with that win1 show ?thesis by simp
  qed
  have w2: "f (a ! x) \<le> f (a ! y)" if "x \<le> nat right" "nat right < y" "y < length arr" for x y
  proof (cases "left \<le> x")
    case True
    with inside that obtain z where z: "left \<le> z" "z < nat right + 1" "a ! x = arr ! z" by blast
    have "a ! y = arr ! y" using out that by simp
    with z that win2 [of z y] show ?thesis by simp
  next
    case False
    with out that have "a ! x = arr ! x" "a ! y = arr ! y" by auto
    with that win2 show ?thesis by simp
  qed
  have below: "f (a ! x) \<le> f (a ! p)" if "x < p" for x
    using w1 [of x p] lo [of x] that p le by (cases "x < left") auto
  have above: "f (a ! p) \<le> f (a ! x)" if "p < x" "x < length arr" for x
    using w2 [of p x] hi [of x] that p le by (cases "x \<le> nat right") auto
  have mid: "f (a ! x) \<le> f (a ! y)" if "x \<le> p" "p \<le> y" "y < length arr" for x y
    using below [of x] above [of y] that by (metis le_neq_implies_less order_refl order_trans)
  have win_r: "window f a (p + 1) right"
    using mid w2 le len by (auto simp: window_def Suc_le_eq) 
  have win_l: "window f a left (int p - 1)"
    using mid w1 p le len by (auto simp: window_def)
  have sorts: "sort (map f a) = sort (map f arr)" using ms
    by (metis mset_map sorted_list_of_multiset_mset)
  note step = find_kth_loop.simps [of "\<lambda>a b. f a < f b" arr k left right]
  consider (eq) "int p = k - 1" | (lt) "int p < k - 1" | (gt) "k - 1 < int p" by linarith
  then show ?case
  proof cases
    case eq
    have "sort (map f a) ! p = map f a ! p"
      using below above len p le by (intro nth_is_sorted_nth) auto
    moreover have "nat (k - 1) = p" using eq by simp
    ultimately show ?thesis using eq part le "1.prems"(1) ms len p sorts by (auto simp: step)
  next
    case lt
    then have "find_kth_loop (\<lambda>a b. f a < f b) a k (p + 1) right = (arr', res)"
      using part le "1.prems"(1) by (simp add: step)
    from "1.hyps"(1) [OF le(1) part [symmetric] refl _ _ this win_r] lt "1.prems"(4,5) ms len sorts
    show ?thesis by auto
  next
    case gt
    then have "find_kth_loop (\<lambda>a b. f a < f b) a k left (int p - 1) = (arr', res)"
      using part le "1.prems"(1) by (simp add: step)
    from "1.hyps"(2) [OF le(1) part [symmetric] refl _ _ this win_l] gt "1.prems"(3,5) ms len sorts p le
    show ?thesis by auto
  qed
qed

text \<open>C36: selection is correct: for a comparison by a key and a rank within the slice it returns an
  element whose key is the one at that rank of the sorted keys, and only permutes the slice.\<close>

theorem FindKthElement_selects:
  fixes f :: "'a \<Rightarrow> 'b::linorder"
  assumes "1 \<le> k" and "k \<le> int (length arr)"
  shows "\<exists>arr' x. FindKthElement (\<lambda>a b. f a < f b) arr k = (arr', Some x)
    \<and> mset arr' = mset arr \<and> f x = sort (map f arr) ! nat (k - 1)"
proof -
  obtain arr' res where r: "find_kth_loop (\<lambda>a b. f a < f b) arr k 0 (int (length arr) - 1) = (arr', res)"
    by fastforce
  have "window f arr 0 (int (length arr) - 1)" by (auto simp: window_def)
  from find_kth_loop_spec [OF r this] assms r show ?thesis
    by (auto simp: FindKthElement_def)
qed

theorem FindKthElement_selects_witness:
  "\<exists>arr' x. FindKthElement (\<lambda>a b. a < b) [7, 3, 9, 1::nat] 2 = (arr', Some x)
    \<and> mset arr' = {#7, 3, 9, 1#} \<and> x = 3"
  using FindKthElement_selects [of 2 "[7, 3, 9, 1::nat]" "\<lambda>x. x"]
  by (auto simp: insort_key.simps ac_simps)

end
