(* ===== verification/Bitcounts.thy ===== *)
theory Bitcounts
  imports Prelude
begin

unbundle bit_operations_syntax

text \<open>
  \<open>optz/bitcount.go\<close> and the \<open>popcount\<close> of \<open>algo/roaring_bitmap.go\<close>: counting the set bits of a
  word by clearing the lowest one until none is left.
\<close>

section \<open>Clearing the lowest bit\<close>

lemma even_and_pred: "0 < m \<Longrightarrow> (2 * m) AND (2 * m - 1) = 2 * (m AND (m - 1))" for m :: nat
proof -
  assume "0 < m"
  then have "2 * m - 1 = 2 * (m - 1) + 1" by simp
  then show ?thesis by (subst and_rec) simp
qed

lemma odd_and_pred: "(2 * m + 1) AND (2 * m) = 2 * m" for m :: nat
  by (subst and_rec) simp

definition bits :: "nat \<Rightarrow> nat set" where
  "bits n = {i. bit n i}"

lemma bits_step: "bits n = (if odd n then {0} else {}) \<union> Suc ` bits (n div 2)"
proof -
  have "i \<in> bits n \<longleftrightarrow> i \<in> (if odd n then {0} else {}) \<union> Suc ` bits (n div 2)" for i
    by (cases i) (auto simp: bits_def bit_0 bit_Suc)
  then show ?thesis by blast
qed

lemma finite_bits [simp]: "finite (bits n)"
proof (rule finite_subset)
  show "bits n \<subseteq> {..<n}"
  proof
    fix i assume "i \<in> bits n"
    then have "odd (n div 2 ^ i)" by (simp add: bits_def bit_iff_odd)
    then have "n div 2 ^ i \<noteq> 0" by (metis even_zero)
    then have "2 ^ i \<le> n" by (simp add: div_eq_0_iff)
    moreover have "i < 2 ^ i" by simp
    ultimately show "i \<in> {..<n}" by (simp del: less_exp)
  qed
qed simp

lemma card_bits_step: "card (bits n) = n mod 2 + card (bits (n div 2))"
proof -
  have "card (bits n) = card (if odd n then {0::nat} else {}) + card (Suc ` bits (n div 2))"
    by (subst bits_step, subst card_Un_disjoint) auto
  moreover have "card (Suc ` bits (n div 2)) = card (bits (n div 2))" by (rule card_image) simp
  moreover have "card (if odd n then {0::nat} else {}) = n mod 2"
    by (simp add: odd_iff_mod_2_eq_one)
  ultimately show ?thesis by simp
qed

lemma card_clear_lowest: "0 < n \<Longrightarrow> Suc (card (bits (n AND (n - 1)))) = card (bits n)"
proof (induction n rule: less_induct)
  case (less n)
  show ?case
  proof (cases "even n")
    case True
    then obtain m where m: "n = 2 * m" by blast
    with less.prems have "0 < m" "m < n" by auto
    with less.IH [of m] m show ?thesis
      by (simp add: even_and_pred card_bits_step [of "2 * _"] del: One_nat_def)
  next
    case False
    then obtain m where m: "n = 2 * m + 1" by (elim oddE)
    have "n AND (n - 1) = 2 * m" unfolding m using odd_and_pred [of m] by simp
    moreover have "card (bits (2 * m)) = card (bits m)" by (subst card_bits_step) simp
    moreover have "card (bits n) = 1 + card (bits m)" by (subst card_bits_step) (simp add: m)
    ultimately show ?thesis by simp
  qed
qed

text \<open>The number of set bits of a word.\<close>

definition ones :: "'a::len word \<Rightarrow> nat" where
  "ones w = card {i. bit w i}"

lemma ones_bits: "ones w = card (bits (unat w))"
  by (simp add: ones_def bits_def bit_unsigned_iff)

lemma ones_0 [simp]: "ones 0 = 0"
  by (simp add: ones_def)

lemma ones_le: "ones (w :: 'a::len word) \<le> LENGTH('a)"
proof -
  have "{i. bit w i} \<subseteq> {..<LENGTH('a)}" using bit_imp_le_length [of w] by auto
  from card_mono [OF _ this] show ?thesis by (simp add: ones_def)
qed

lemma ones_clear_lowest: "w \<noteq> 0 \<Longrightarrow> Suc (ones (w AND (w - 1))) = ones w"
  using card_clear_lowest [of "unat w"]
  by (simp add: ones_bits unsigned_and_eq unat_minus_one unat_gt_0)

lemma ones_clear_less: "w \<noteq> 0 \<Longrightarrow> ones (w AND (w - 1)) < ones w"
  using ones_clear_lowest [of w] by simp

section \<open>The loops\<close>

function hamming_loop :: "32 word \<Rightarrow> 32 word \<Rightarrow> 32 word" where
  "hamming_loop n c = (if n > 0 then hamming_loop (n AND (n - 1)) (c + 1) else c)"
  by pat_completeness auto
termination
  by (relation "measure (\<lambda>(n, c). ones n)") (auto simp: word_gt_0 ones_clear_less)

function popcount_loop :: "64 word \<Rightarrow> int \<Rightarrow> int" where
  "popcount_loop x count = (if x \<noteq> 0 then popcount_loop (x AND (x - 1)) (count + 1) else count)"
  by pat_completeness auto
termination
  by (relation "measure (\<lambda>(x, c). ones x)") (auto simp: ones_clear_less)

declare hamming_loop.simps [simp del] popcount_loop.simps [simp del]

definition HammingWeightBitcount :: "32 word \<Rightarrow> 32 word" where
  "HammingWeightBitcount v = hamming_loop v 0"

definition NativeBitcount :: "32 word \<Rightarrow> 32 word" where
  "NativeBitcount v = hamming_loop v 0"

definition popcount :: "64 word \<Rightarrow> int" where
  "popcount x = popcount_loop x 0"

lemma hamming_loop_spec: "hamming_loop n c = c + of_nat (ones n)"
proof (induction n c rule: hamming_loop.induct)
  case (1 n c)
  then show ?case
    using ones_clear_lowest [of n]
    by (subst hamming_loop.simps) (auto simp: word_gt_0 add.assoc simp flip: of_nat_Suc)
qed

lemma popcount_loop_spec: "popcount_loop x c = c + int (ones x)"
proof (induction x c rule: popcount_loop.induct)
  case (1 x c)
  then show ?case using ones_clear_lowest [of x] by (subst popcount_loop.simps) auto
qed

lemma popcount_ones: "popcount x = int (ones x)"
  by (simp add: popcount_def popcount_loop_spec)

lemma Bitcount_counts:
  "unat (HammingWeightBitcount v) = ones v \<and> NativeBitcount v = HammingWeightBitcount v"
proof -
  have "ones v < 2 ^ 32" using ones_le [of v] by simp
  then show ?thesis
    by (simp add: HammingWeightBitcount_def NativeBitcount_def hamming_loop_spec unat_of_nat)
qed

end
