(* ===== verification/Containers.thy ===== *)
theory Containers
  imports Bitcounts
begin

text \<open>
  \<open>algo/roaring_bitmap.go\<close>, the containers: a set of 16-bit values is a sorted array while it is
  sparse and a bitmap once it is dense. The bitmap has 8192 words, of which the first 1024 are ever
  used. Containers are replaced, never changed, once they are in a bitmap, so they are values.
  The indices of the merging loops are the suffixes of the arrays that are left.
\<close>

datatype container = ArrayContainer "16 word list" | BitmapContainer "64 word list"

definition arrayToBitmapThreshold :: nat where "arrayToBitmapThreshold = 4096"
definition bitmapToArrayThreshold :: nat where "bitmapToArrayThreshold = 4096"

section \<open>Bitmap containers\<close>

definition bc_empty :: "64 word list" where
  "bc_empty = replicate 8192 0"

definition bc_setBit :: "64 word list \<Rightarrow> 16 word \<Rightarrow> 64 word list" where
  "bc_setBit b x = (let wordIndex = unat (x div 64); bitIndex = unat (x mod 64)
     in b[wordIndex := b ! wordIndex OR push_bit bitIndex 1])"

definition bc_clearBit :: "64 word list \<Rightarrow> 16 word \<Rightarrow> 64 word list" where
  "bc_clearBit b x = (let wordIndex = unat (x div 64); bitIndex = unat (x mod 64)
     in b[wordIndex := b ! wordIndex AND NOT (push_bit bitIndex 1)])"

definition bc_contains :: "64 word list \<Rightarrow> 16 word \<Rightarrow> bool" where
  "bc_contains b x = (let wordIndex = unat (x div 64); bitIndex = unat (x mod 64)
     in b ! wordIndex AND push_bit bitIndex 1 \<noteq> 0)"

definition bc_cardinality :: "64 word list \<Rightarrow> int" where
  "bc_cardinality b = sum_list (map popcount b)"

definition bc_toArray :: "64 word list \<Rightarrow> 16 word list" where
  "bc_toArray b =
     concat (map (\<lambda>(i, w). if w = 0 then []
                           else let baseIndex = of_nat (i * 64)
                                in map (\<lambda>j. baseIndex + of_nat j) (filter (\<lambda>j. w AND push_bit j 1 \<noteq> 0) [0..<64]))
       (enumerate 0 b))"

definition bc_toArrayContainer :: "64 word list \<Rightarrow> container" where
  "bc_toArrayContainer b = ArrayContainer (bc_toArray b)"

definition bc_shrink :: "64 word list \<Rightarrow> container" where
  "bc_shrink b = (if bc_cardinality b < int bitmapToArrayThreshold then bc_toArrayContainer b
     else BitmapContainer b)"

definition bc_add :: "64 word list \<Rightarrow> 16 word \<Rightarrow> container" where
  "bc_add b x = BitmapContainer (bc_setBit b x)"

definition bc_remove :: "64 word list \<Rightarrow> 16 word \<Rightarrow> container" where
  "bc_remove b x = bc_shrink (bc_clearBit b x)"

definition bc_union :: "64 word list \<Rightarrow> container \<Rightarrow> container" where
  "bc_union b other =
     (case other of
        BitmapContainer b' \<Rightarrow> BitmapContainer (map2 (\<lambda>x y. x OR y) b b')
      | ArrayContainer vs \<Rightarrow> BitmapContainer (fold (\<lambda>v b. bc_setBit b v) vs b))"

definition bc_intersection :: "64 word list \<Rightarrow> container \<Rightarrow> container" where
  "bc_intersection b other =
     (case other of
        BitmapContainer b' \<Rightarrow> bc_shrink (map2 (\<lambda>x y. x AND y) b b')
      | ArrayContainer vs \<Rightarrow> ArrayContainer (filter (bc_contains b) vs))"

definition bc_difference :: "64 word list \<Rightarrow> container \<Rightarrow> container" where
  "bc_difference b other =
     (case other of
        BitmapContainer b' \<Rightarrow> bc_shrink (map2 (\<lambda>x y. x AND NOT y) b b')
      | ArrayContainer vs \<Rightarrow> bc_shrink (fold (\<lambda>v b. bc_clearBit b v) vs b))"

section \<open>Array containers\<close>

definition ac_toBitmapContainer :: "16 word list \<Rightarrow> container" where
  "ac_toBitmapContainer vs = BitmapContainer (fold (\<lambda>v b. bc_setBit b v) vs bc_empty)"

text \<open>The binary search; \<open>left\<close> is never negative, \<open>right\<close> may be \<open>-1\<close>.\<close>

function ac_search :: "16 word list \<Rightarrow> 16 word \<Rightarrow> nat \<Rightarrow> int \<Rightarrow> bool" where
  "ac_search vs x left right =
     (if int left \<le> right
      then let mid = nat ((int left + right) div 2)
           in if vs ! mid = x then True
              else if vs ! mid < x then ac_search vs x (mid + 1) right
              else ac_search vs x left (int mid - 1)
      else False)"
  by pat_completeness auto
termination
  by (relation "measure (\<lambda>(vs, x, left, right). nat (right + 1 - int left))") auto

declare ac_search.simps [simp del]

definition ac_contains :: "16 word list \<Rightarrow> 16 word \<Rightarrow> bool" where
  "ac_contains vs x = ac_search vs x 0 (int (length vs) - 1)"

function ac_insertPos :: "16 word list \<Rightarrow> 16 word \<Rightarrow> nat \<Rightarrow> nat" where
  "ac_insertPos vs x p = (if p < length vs \<and> vs ! p < x then ac_insertPos vs x (p + 1) else p)"
  by pat_completeness auto
termination by (relation "measure (\<lambda>(vs, x, p). length vs - p)") auto

declare ac_insertPos.simps [simp del]

definition ac_grow :: "16 word list \<Rightarrow> container" where
  "ac_grow vs = (if length vs > arrayToBitmapThreshold then ac_toBitmapContainer vs
     else ArrayContainer vs)"

definition ac_add :: "16 word list \<Rightarrow> 16 word \<Rightarrow> container" where
  "ac_add vs x =
     (if ac_contains vs x then ArrayContainer vs
      else let p = ac_insertPos vs x 0 in ac_grow (take p vs @ x # drop p vs))"

fun ac_removePos :: "nat \<Rightarrow> 16 word list \<Rightarrow> 16 word \<Rightarrow> nat option" where
  "ac_removePos i [] x = None"
| "ac_removePos i (v # vs) x = (if v = x then Some i else ac_removePos (i + 1) vs x)"

definition ac_remove :: "16 word list \<Rightarrow> 16 word \<Rightarrow> container" where
  "ac_remove vs x =
     (case ac_removePos 0 vs x of
        None \<Rightarrow> ArrayContainer vs
      | Some p \<Rightarrow> ArrayContainer (take p vs @ drop (p + 1) vs))"

fun merge_union :: "16 word list \<Rightarrow> 16 word list \<Rightarrow> 16 word list" where
  "merge_union (a # as) (b # bs) =
     (if a < b then a # merge_union as (b # bs)
      else if a > b then b # merge_union (a # as) bs
      else a # merge_union as bs)"
| "merge_union [] bs = bs"
| "merge_union as [] = as"

definition ac_unionArray :: "16 word list \<Rightarrow> 16 word list \<Rightarrow> container" where
  "ac_unionArray vs ws = ac_grow (merge_union vs ws)"

fun merge_intersection :: "16 word list \<Rightarrow> 16 word list \<Rightarrow> 16 word list" where
  "merge_intersection (a # as) (b # bs) =
     (if a < b then merge_intersection as (b # bs)
      else if a > b then merge_intersection (a # as) bs
      else a # merge_intersection as bs)"
| "merge_intersection [] bs = []"
| "merge_intersection as [] = []"

definition ac_intersectionArray :: "16 word list \<Rightarrow> 16 word list \<Rightarrow> container" where
  "ac_intersectionArray vs ws = ArrayContainer (merge_intersection vs ws)"

fun merge_difference :: "16 word list \<Rightarrow> 16 word list \<Rightarrow> 16 word list" where
  "merge_difference (a # as) (b # bs) =
     (if a < b then a # merge_difference as (b # bs)
      else if a > b then merge_difference (a # as) bs
      else merge_difference as bs)"
| "merge_difference [] bs = []"
| "merge_difference as [] = as"

definition ac_differenceArray :: "16 word list \<Rightarrow> 16 word list \<Rightarrow> container" where
  "ac_differenceArray vs ws = ArrayContainer (merge_difference vs ws)"

definition ac_union :: "16 word list \<Rightarrow> container \<Rightarrow> container" where
  "ac_union vs other =
     (case other of ArrayContainer ws \<Rightarrow> ac_unionArray vs ws
                  | BitmapContainer b \<Rightarrow> bc_union b (ArrayContainer vs))"

definition ac_intersection :: "16 word list \<Rightarrow> container \<Rightarrow> container" where
  "ac_intersection vs other =
     (case other of ArrayContainer ws \<Rightarrow> ac_intersectionArray vs ws
                  | BitmapContainer b \<Rightarrow> bc_intersection b (ArrayContainer vs))"

definition ac_difference :: "16 word list \<Rightarrow> container \<Rightarrow> container" where
  "ac_difference vs other =
     (case other of ArrayContainer ws \<Rightarrow> ac_differenceArray vs ws
                  | BitmapContainer b \<Rightarrow> ArrayContainer (filter (\<lambda>v. \<not> bc_contains b v) vs))"

section \<open>The interface\<close>

definition c_contains :: "container \<Rightarrow> 16 word \<Rightarrow> bool" where
  "c_contains c x = (case c of ArrayContainer vs \<Rightarrow> ac_contains vs x | BitmapContainer b \<Rightarrow> bc_contains b x)"

definition c_add :: "container \<Rightarrow> 16 word \<Rightarrow> container" where
  "c_add c x = (case c of ArrayContainer vs \<Rightarrow> ac_add vs x | BitmapContainer b \<Rightarrow> bc_add b x)"

definition c_remove :: "container \<Rightarrow> 16 word \<Rightarrow> container" where
  "c_remove c x = (case c of ArrayContainer vs \<Rightarrow> ac_remove vs x | BitmapContainer b \<Rightarrow> bc_remove b x)"

definition c_cardinality :: "container \<Rightarrow> int" where
  "c_cardinality c = (case c of ArrayContainer vs \<Rightarrow> int (length vs) | BitmapContainer b \<Rightarrow> bc_cardinality b)"

definition c_union :: "container \<Rightarrow> container \<Rightarrow> container" where
  "c_union c d = (case c of ArrayContainer vs \<Rightarrow> ac_union vs d | BitmapContainer b \<Rightarrow> bc_union b d)"

definition c_intersection :: "container \<Rightarrow> container \<Rightarrow> container" where
  "c_intersection c d =
     (case c of ArrayContainer vs \<Rightarrow> ac_intersection vs d | BitmapContainer b \<Rightarrow> bc_intersection b d)"

definition c_difference :: "container \<Rightarrow> container \<Rightarrow> container" where
  "c_difference c d =
     (case c of ArrayContainer vs \<Rightarrow> ac_difference vs d | BitmapContainer b \<Rightarrow> bc_difference b d)"

definition c_toArray :: "container \<Rightarrow> 16 word list" where
  "c_toArray c = (case c of ArrayContainer vs \<Rightarrow> vs | BitmapContainer b \<Rightarrow> bc_toArray b)"

section \<open>The bits of a bitmap\<close>

declare upt_rec_numeral [simp del]

definition bbit :: "64 word list \<Rightarrow> nat \<Rightarrow> bool" where
  "bbit b n = bit (b ! (n div 64)) (n mod 64)"

lemma mask_bit: "(w AND 2 ^ j \<noteq> 0) = bit w j" for w :: "64 word"
  by (simp add: and_exp_eq_0_iff_not_bit)

lemma unat16 [simp]:
  "unat (x div 64) = unat x div 64" "unat (x mod 64) = unat x mod 64" for x :: "16 word"
  by (simp_all add: unat_div unat_mod)

lemma unat16_less: "unat (x :: 16 word) < 65536"
  using unsigned_less [of x] by simp

lemma idx_less: "unat (x :: 16 word) div 64 < 1024" "unat (x :: 16 word) div 64 < 8192"
  using unat16_less [of x] by auto

lemma bc_contains_bbit: "bc_contains b x = bbit b (unat x)"
  by (simp add: bc_contains_def bbit_def Let_def mask_bit)

lemma bit_exp64: "bit (2 ^ k :: 64 word) j \<longleftrightarrow> j = k \<and> j < 64"
  by (auto simp: bit_exp_iff possible_bit_word)

lemma split_index: "m div 64 = n div 64 \<Longrightarrow> m mod 64 = n mod 64 \<Longrightarrow> m = n" for m n :: nat
  by (metis div_mult_mod_eq)

lemma bbit_setBit:
  assumes "length b = 8192"
  shows "bbit (bc_setBit b x) n \<longleftrightarrow> n = unat x \<or> bbit b n"
  using assms idx_less [of x] split_index [of n "unat x"]
  by (auto simp: bbit_def bc_setBit_def Let_def nth_list_update bit_or_iff bit_exp64)

lemma bbit_clearBit:
  assumes "length b = 8192"
  shows "bbit (bc_clearBit b x) n \<longleftrightarrow> n \<noteq> unat x \<and> bbit b n"
  using assms idx_less [of x] split_index [of n "unat x"]
  by (auto simp: bbit_def bc_clearBit_def Let_def nth_list_update bit_and_iff bit_not_iff bit_exp64)

lemma length_setBit [simp]: "length (bc_setBit b x) = length b"
  by (simp add: bc_setBit_def Let_def)

lemma length_clearBit [simp]: "length (bc_clearBit b x) = length b"
  by (simp add: bc_clearBit_def Let_def)

lemma bbit_empty: "n < 64 * 8192 \<Longrightarrow> \<not> bbit bc_empty n"
  by (simp add: bbit_def bc_empty_def)

lemma bbit_map2:
  assumes "length b = 8192" and "length b' = 8192" and "n < 64 * 8192"
  shows "bbit (map2 (OR) b b') n \<longleftrightarrow> bbit b n \<or> bbit b' n"
    and "bbit (map2 (AND) b b') n \<longleftrightarrow> bbit b n \<and> bbit b' n"
    and "bbit (map2 (\<lambda>x y. x AND NOT y) b b') n \<longleftrightarrow> bbit b n \<and> \<not> bbit b' n"
  using assms by (auto simp: bbit_def bit_or_iff bit_and_iff bit_not_iff)

section \<open>A bitmap as a list\<close>

lemma concat_blocks:
  "concat (map (\<lambda>i. map (\<lambda>j. 64 * i + j) (filter (Q i) [0..<64])) [0..<m])
   = filter (\<lambda>n. Q (n div 64) (n mod 64)) [0..<64 * m]"
proof (induction m)
  case 0
  then show ?case by simp
next
  case (Suc m)
  have "[0..<64 * Suc m] = [0..<64 * m] @ [64 * m..<64 * m + 64]"
    using upt_add_eq_append [of 0 "64 * m" 64] by (simp add: add.commute)
  also have "[64 * m..<64 * m + 64] = map (\<lambda>j. 64 * m + j) [0..<64]"
    by (simp add: map_add_upt add.commute)
  finally have "filter (\<lambda>n. Q (n div 64) (n mod 64)) [0..<64 * Suc m]
    = filter (\<lambda>n. Q (n div 64) (n mod 64)) [0..<64 * m]
      @ map (\<lambda>j. 64 * m + j) (filter (\<lambda>j. Q ((64 * m + j) div 64) ((64 * m + j) mod 64)) [0..<64])"
    by (simp add: filter_map o_def)
  also have "filter (\<lambda>j. Q ((64 * m + j) div 64) ((64 * m + j) mod 64)) [0..<64] = filter (Q m) [0..<64]"
    by (rule filter_cong) auto
  finally show ?case using Suc by simp
qed

lemma toArray_filter:
  "bc_toArray b = map of_nat (filter (bbit b) [0..<64 * length b])"
proof -
  have row: "(if w = 0 then []
      else let baseIndex = of_nat (i * 64)
           in map (\<lambda>j. baseIndex + of_nat j) (filter (\<lambda>j. w AND push_bit j 1 \<noteq> 0) [0..<64]))
    = map (of_nat :: nat \<Rightarrow> 16 word) (map (\<lambda>j. 64 * i + j) (filter (bit w) [0..<64]))" for i and w :: "64 word"
  proof -
    show ?thesis by (simp add: mask_bit Let_def o_def mult.commute)
  qed
  have "bc_toArray b = map of_nat (concat (map (\<lambda>(i, w). map (\<lambda>j. 64 * i + j) (filter (bit w) [0..<64])) (enumerate 0 b)))"
    unfolding bc_toArray_def row by (simp add: map_concat o_def case_prod_unfold)
  also have "map (\<lambda>(i, w). map (\<lambda>j. 64 * i + j) (filter (bit w) [0..<64])) (enumerate 0 b)
    = map (\<lambda>i. map (\<lambda>j. 64 * i + j) (filter (bit (b ! i)) [0..<64])) [0..<length b]"
    by (rule nth_equalityI) (auto simp: nth_enumerate_eq)
  also have "concat \<dots> = filter (\<lambda>n. bit (b ! (n div 64)) (n mod 64)) [0..<64 * length b]"
    by (rule concat_blocks)
  finally show ?thesis by (simp add: bbit_def [abs_def])
qed

text \<open>The words that are ever used.\<close>

definition bitmap_ok :: "64 word list \<Rightarrow> bool" where
  "bitmap_ok b \<longleftrightarrow> length b = 8192 \<and> (\<forall>n < 64 * 8192. bbit b n \<longrightarrow> n < 65536)"

definition bitmap_elems :: "64 word list \<Rightarrow> 16 word set" where
  "bitmap_elems b = {x. bbit b (unat x)}"

lemma filter_used:
  assumes "bitmap_ok b"
  shows "filter (bbit b) [0..<64 * length b] = filter (bbit b) [0..<65536]"
proof -
  have "[0..<64 * length b] = [0..<65536] @ [65536..<64 * length b]"
    using assms upt_add_eq_append [of 0 65536 "64 * 8192 - 65536"] by (simp add: bitmap_ok_def)
  moreover have "filter (bbit b) [65536..<64 * length b] = []"
    using assms by (auto simp: bitmap_ok_def filter_empty_conv)
  ultimately show ?thesis by simp
qed

lemma strict_of_nat:
  "sorted_wrt (<) ns \<Longrightarrow> \<forall>n \<in> set ns. n < 65536 \<Longrightarrow> sorted_wrt (<) (map (of_nat :: nat \<Rightarrow> 16 word) ns)"
  by (induction ns) (auto simp: word_less_nat_alt unat_of_nat)

lemma bitmap_toArray:
  assumes "bitmap_ok b"
  shows "sorted_wrt (<) (bc_toArray b)" and "set (bc_toArray b) = bitmap_elems b"
proof -
  have t: "bc_toArray b = map of_nat (filter (bbit b) [0..<65536])"
    by (simp add: toArray_filter filter_used [OF assms])
  show "sorted_wrt (<) (bc_toArray b)"
    unfolding t by (rule strict_of_nat) (auto intro: sorted_wrt_filter)
  show "set (bc_toArray b) = bitmap_elems b"
  proof (intro set_eqI iffI)
    fix x assume "x \<in> set (bc_toArray b)"
    then show "x \<in> bitmap_elems b" by (auto simp: t bitmap_elems_def unat_of_nat)
  next
    fix x assume "x \<in> bitmap_elems b"
    then have "unat x \<in> set (filter (bbit b) [0..<65536])" using unat16_less [of x] by (simp add: bitmap_elems_def)
    then have "of_nat (unat x) \<in> set (bc_toArray b)" unfolding t set_map by (rule imageI)
    then show "x \<in> set (bc_toArray b)" by simp
  qed
qed

lemma ones_filter: "ones w = length (filter (bit w) [0..<64])" for w :: "64 word"
proof -
  have "{i. bit w i} = set (filter (bit w) [0..<64])" using bit_imp_le_length [of w] by auto
  then show ?thesis unfolding ones_def by (metis distinct_card distinct_filter distinct_upt)
qed

lemma cardinality_length: "bc_cardinality b = int (length (bc_toArray b))"
proof -
  have "length (bc_toArray b) = sum_list (map ones b)"
    unfolding bc_toArray_def length_concat map_map
  proof (rule arg_cong [where f = sum_list], rule nth_equalityI)
    fix i assume "i < length (map (length \<circ> (\<lambda>(i, w). if w = 0 then []
      else let baseIndex = of_nat (i * 64) :: 16 word
           in map (\<lambda>j. baseIndex + of_nat j) (filter (\<lambda>j. w AND push_bit j 1 \<noteq> 0) [0..<64]))) (enumerate 0 b))"
    then show "map (length \<circ> (\<lambda>(i, w). if w = 0 then []
      else let baseIndex = of_nat (i * 64) :: 16 word
           in map (\<lambda>j. baseIndex + of_nat j) (filter (\<lambda>j. w AND push_bit j 1 \<noteq> 0) [0..<64]))) (enumerate 0 b) ! i
      = map ones b ! i"
      by (simp add: nth_enumerate_eq ones_filter Let_def mask_bit)
  qed simp
  moreover have "bc_cardinality b = int (sum_list (map ones b))"
    unfolding bc_cardinality_def by (induction b) (simp_all add: popcount_ones)
  ultimately show ?thesis by simp
qed

section \<open>The set of a container\<close>

fun elems :: "container \<Rightarrow> 16 word set" where
  "elems (ArrayContainer vs) = set vs"
| "elems (BitmapContainer b) = bitmap_elems b"

text \<open>Arrays are strictly sorted and short, bitmaps are full enough.\<close>

fun c_ok :: "container \<Rightarrow> bool" where
  "c_ok (ArrayContainer vs) \<longleftrightarrow> sorted_wrt (<) vs \<and> length vs \<le> 4096"
| "c_ok (BitmapContainer b) \<longleftrightarrow> bitmap_ok b \<and> 4096 \<le> card (bitmap_elems b)"

lemma strict_card: "sorted_wrt (<) vs \<Longrightarrow> card (set vs) = length vs" for vs :: "16 word list"
  by (simp add: strict_sorted_iff distinct_card)

lemma bc_cardinality_card: "bitmap_ok b \<Longrightarrow> bc_cardinality b = int (card (bitmap_elems b))"
  using strict_card [OF bitmap_toArray(1)] by (simp add: cardinality_length bitmap_toArray(2))

lemma bitmap_okI:
  "length b = 8192 \<Longrightarrow> (\<And>n. n < 64 * 8192 \<Longrightarrow> bbit b n \<Longrightarrow> n < 65536) \<Longrightarrow> bitmap_ok b"
  by (simp add: bitmap_ok_def)

lemma bitmap_okD:
  "bitmap_ok b \<Longrightarrow> length b = 8192"
  "bitmap_ok b \<Longrightarrow> n < 64 * 8192 \<Longrightarrow> bbit b n \<Longrightarrow> n < 65536"
  by (simp_all add: bitmap_ok_def)

lemma bc_empty_ok: "bitmap_ok bc_empty" "bitmap_elems bc_empty = {}"
proof -
  have "length bc_empty = 8192" by (simp add: bc_empty_def)
  then show "bitmap_ok bc_empty" using bbit_empty by (auto intro: bitmap_okI)
  have "\<not> bbit bc_empty (unat x)" for x :: "16 word"
    using unat16_less [of x] by (intro bbit_empty) simp
  then show "bitmap_elems bc_empty = {}" by (simp add: bitmap_elems_def)
qed

lemma setBit_ok:
  assumes "bitmap_ok b"
  shows "bitmap_ok (bc_setBit b x)" and "bitmap_elems (bc_setBit b x) = insert x (bitmap_elems b)"
proof -
  have bb: "bbit (bc_setBit b x) n \<longleftrightarrow> n = unat x \<or> bbit b n" for n
    using assms by (intro bbit_setBit) (rule bitmap_okD)
  show "bitmap_ok (bc_setBit b x)"
  proof (rule bitmap_okI)
    show "length (bc_setBit b x) = 8192" using assms by (simp add: bitmap_okD)
    show "n < 65536" if "n < 64 * 8192" "bbit (bc_setBit b x) n" for n
      using that bitmap_okD(2) [OF assms] unat16_less [of x] by (auto simp: bb)
  qed
  show "bitmap_elems (bc_setBit b x) = insert x (bitmap_elems b)"
    by (auto simp: bitmap_elems_def bb simp flip: word_unat_eq_iff)
qed

lemma clearBit_ok:
  assumes "bitmap_ok b"
  shows "bitmap_ok (bc_clearBit b x)" and "bitmap_elems (bc_clearBit b x) = bitmap_elems b - {x}"
proof -
  have bb: "bbit (bc_clearBit b x) n \<longleftrightarrow> n \<noteq> unat x \<and> bbit b n" for n
    using assms by (intro bbit_clearBit) (rule bitmap_okD)
  show "bitmap_ok (bc_clearBit b x)"
  proof (rule bitmap_okI)
    show "length (bc_clearBit b x) = 8192" using assms by (simp add: bitmap_okD)
    show "n < 65536" if "n < 64 * 8192" "bbit (bc_clearBit b x) n" for n
      using that bitmap_okD(2) [OF assms] by (auto simp: bb)
  qed
  show "bitmap_elems (bc_clearBit b x) = bitmap_elems b - {x}"
    by (auto simp: bitmap_elems_def bb simp flip: word_unat_eq_iff)
qed

lemma fold_setBit:
  "bitmap_ok b \<Longrightarrow> bitmap_ok (fold (\<lambda>v b. bc_setBit b v) vs b)
    \<and> bitmap_elems (fold (\<lambda>v b. bc_setBit b v) vs b) = set vs \<union> bitmap_elems b"
  by (induction vs arbitrary: b) (auto simp: setBit_ok)

lemma fold_clearBit:
  "bitmap_ok b \<Longrightarrow> bitmap_ok (fold (\<lambda>v b. bc_clearBit b v) vs b)
    \<and> bitmap_elems (fold (\<lambda>v b. bc_clearBit b v) vs b) = bitmap_elems b - set vs"
  by (induction vs arbitrary: b) (auto simp: clearBit_ok)

lemma map2_ok:
  assumes "bitmap_ok b" and "bitmap_ok b'"
  shows "bitmap_ok (map2 (OR) b b')" "bitmap_elems (map2 (OR) b b') = bitmap_elems b \<union> bitmap_elems b'"
    and "bitmap_ok (map2 (AND) b b')" "bitmap_elems (map2 (AND) b b') = bitmap_elems b \<inter> bitmap_elems b'"
    and "bitmap_ok (map2 (\<lambda>x y. x AND NOT y) b b')"
      "bitmap_elems (map2 (\<lambda>x y. x AND NOT y) b b') = bitmap_elems b - bitmap_elems b'"
proof -
  note l = bitmap_okD(1) [OF assms(1)] bitmap_okD(1) [OF assms(2)]
  have u: "unat (x :: 16 word) < 64 * 8192" for x using unat16_less [of x] by simp
  note bb = bbit_map2 [OF l]
  show "bitmap_ok (map2 (OR) b b')" "bitmap_ok (map2 (AND) b b')"
    "bitmap_ok (map2 (\<lambda>x y. x AND NOT y) b b')"
    using bb bitmap_okD(2) [OF assms(1)] bitmap_okD(2) [OF assms(2)] l by (auto intro!: bitmap_okI)
  show "bitmap_elems (map2 (OR) b b') = bitmap_elems b \<union> bitmap_elems b'"
    "bitmap_elems (map2 (AND) b b') = bitmap_elems b \<inter> bitmap_elems b'"
    "bitmap_elems (map2 (\<lambda>x y. x AND NOT y) b b') = bitmap_elems b - bitmap_elems b'"
    using bb [OF u] by (auto simp: bitmap_elems_def)
qed

lemma shrink_ok:
  assumes "bitmap_ok b"
  shows "c_ok (bc_shrink b)" and "elems (bc_shrink b) = bitmap_elems b"
  using assms strict_card [OF bitmap_toArray(1) [OF assms]]
  by (auto simp: bc_shrink_def bitmapToArrayThreshold_def bc_toArrayContainer_def
      bc_cardinality_card bitmap_toArray)

lemma grow_ok:
  assumes "sorted_wrt (<) vs"
  shows "c_ok (ac_grow vs)" and "elems (ac_grow vs) = set vs"
  using assms strict_card [OF assms] fold_setBit [OF bc_empty_ok(1), of vs]
  by (auto simp: ac_grow_def arrayToBitmapThreshold_def ac_toBitmapContainer_def bc_empty_ok(2))

section \<open>Searching and merging arrays\<close>

lemma ac_search_spec:
  assumes "sorted_wrt (<) vs" and "right < int (length vs)"
  shows "ac_search vs x left right \<longleftrightarrow> (\<exists>i. left \<le> i \<and> int i \<le> right \<and> vs ! i = x)"
  using assms
proof (induction vs x left right rule: ac_search.induct)
  case (1 vs x left right)
  show ?case
  proof (cases "int left \<le> right")
    case False
    then show ?thesis by (subst ac_search.simps) auto
  next
    case le: True
    define mid where "mid = nat ((int left + right) div 2)"
    have mid: "left \<le> mid" "int mid \<le> right" "mid < length vs" using le "1.prems" by (auto simp: mid_def)
    have mono: "vs ! i < vs ! j" if "i < j" "j < length vs" for i j
      using "1.prems"(1) that by (simp add: sorted_wrt_iff_nth_less)
    consider "vs ! mid = x" | "vs ! mid < x" | "x < vs ! mid" by fastforce
    then show ?thesis
    proof cases
      case 1
      then show ?thesis using le mid by (subst ac_search.simps) (auto simp: mid_def [symmetric])
    next
      case 2
      have "i > mid" if "vs ! i = x" for i
        using that 2 mono [of i mid] mid by (metis not_less_iff_gr_or_eq order.asym)
      then have "(\<exists>i. left \<le> i \<and> int i \<le> right \<and> vs ! i = x) \<longleftrightarrow> (\<exists>i. mid + 1 \<le> i \<and> int i \<le> right \<and> vs ! i = x)"
        using mid by (metis Suc_eq_plus1 Suc_leI Suc_leD order.trans)
      moreover have "vs ! mid \<noteq> x" using 2 by simp
      ultimately show ?thesis using 2 "1.IH"(1) [OF le mid_def _ _ "1.prems"] le
        by (subst ac_search.simps) (simp add: mid_def [symmetric])
    next
      case 3
      have "i < mid" if "vs ! i = x" "int i \<le> right" for i
        using that 3 mono [of mid i] "1.prems"(2) by (metis not_less_iff_gr_or_eq of_nat_less_iff order.strict_trans1 order.asym)
      then have "(\<exists>i. left \<le> i \<and> int i \<le> right \<and> vs ! i = x) \<longleftrightarrow> (\<exists>i. left \<le> i \<and> int i \<le> int mid - 1 \<and> vs ! i = x)"
        using mid by force
      with 3 "1.IH"(2) [OF le mid_def] le "1.prems" mid show ?thesis
        by (subst ac_search.simps) (auto simp: mid_def [symmetric])
    qed
  qed
qed

lemma ac_contains_spec: "sorted_wrt (<) vs \<Longrightarrow> ac_contains vs x \<longleftrightarrow> x \<in> set vs"
  by (auto simp: ac_contains_def ac_search_spec in_set_conv_nth)

lemma ac_insertPos_spec:
  assumes "p \<le> length vs" and "\<forall>i < p. vs ! i < x"
  shows "ac_insertPos vs x p \<le> length vs \<and> (\<forall>i < ac_insertPos vs x p. vs ! i < x)
    \<and> (ac_insertPos vs x p < length vs \<longrightarrow> x \<le> vs ! ac_insertPos vs x p)"
  using assms
proof (induction vs x p rule: ac_insertPos.induct)
  case (1 vs x p)
  show ?case
  proof (cases "p < length vs \<and> vs ! p < x")
    case True
    then have "\<forall>i < p + 1. vs ! i < x" using 1(3) by (auto simp: less_Suc_eq)
    with True 1(1) show ?thesis by (subst (1 2 3 4) ac_insertPos.simps) simp
  next
    case False
    with 1(2,3) show ?thesis by (subst (1 2 3 4) ac_insertPos.simps) auto
  qed
qed

lemma insert_sorted:
  assumes "sorted_wrt (<) vs" and "x \<notin> set vs" and "p = ac_insertPos vs x 0"
  shows "sorted_wrt (<) (take p vs @ x # drop p vs)" and "set (take p vs @ x # drop p vs) = insert x (set vs)"
proof -
  have p: "p \<le> length vs" "\<forall>i < p. vs ! i < x" "p < length vs \<longrightarrow> x \<le> vs ! p"
    using ac_insertPos_spec [of 0 vs x] assms(3) by auto
  have lo: "v < x" if "v \<in> set (take p vs)" for v using that p by (auto simp: in_set_conv_nth)
  have hi: "x < v" if v: "v \<in> set (drop p vs)" for v
  proof -
    from v obtain i where i: "i < length vs - p" "v = vs ! (p + i)" by (auto simp: in_set_conv_nth)
    then have "x \<le> vs ! p" using p by simp
    also have "vs ! p \<le> v" using i assms(1) by (cases i) (auto simp: sorted_wrt_iff_nth_less less_imp_le)
    finally have "x \<le> v" .
    moreover have "v \<in> set vs" using v by (rule in_set_dropD)
    ultimately show ?thesis using assms(2) by (auto simp: le_less)
  qed
  have parts: "take p vs @ drop p vs = vs" by simp
  have "sorted_wrt (<) (take p vs @ drop p vs)" using assms(1) by simp
  then show "sorted_wrt (<) (take p vs @ x # drop p vs)"
    using lo hi by (auto simp: sorted_wrt_append simp del: append_take_drop_id)
  show "set (take p vs @ x # drop p vs) = insert x (set vs)"
    using arg_cong [OF parts, of set] by (simp del: append_take_drop_id)
qed

lemma ac_removePos_None: "ac_removePos i vs x = None \<longleftrightarrow> x \<notin> set vs"
  by (induction i vs x rule: ac_removePos.induct) auto

lemma ac_removePos_Some:
  "ac_removePos i vs x = Some p \<Longrightarrow> i \<le> p \<and> take (p - i) vs @ drop (p - i + 1) vs = remove1 x vs"
proof (induction i vs x rule: ac_removePos.induct)
  case (2 i v vs x)
  show ?case
  proof (cases "v = x")
    case False
    then have "i + 1 \<le> p \<and> take (p - (i + 1)) vs @ drop (p - (i + 1) + 1) vs = remove1 x vs"
      using 2 by simp
    moreover from this have "p - i = Suc (p - (i + 1))" by arith
    ultimately show ?thesis using False by simp
  qed (use 2 in auto)
qed simp

lemma strict_notin: "sorted_wrt (<) (b # bs) \<Longrightarrow> a < b \<Longrightarrow> a \<notin> set (b # bs)" for a :: "'a::order"
  by auto

lemma set_merge_union: "set (merge_union as bs) = set as \<union> set bs"
  by (induction as bs rule: merge_union.induct) auto

lemma strict_Cons2:
  "sorted_wrt (<) (b # bs) \<Longrightarrow> a < b \<Longrightarrow> sorted_wrt (<) (a # as) \<Longrightarrow> y \<in> set as \<union> set (b # bs) \<Longrightarrow> a < y"
  for a :: "'a::order"
  by (auto intro: less_trans)

lemma sorted_merge_union:
  "sorted_wrt (<) as \<Longrightarrow> sorted_wrt (<) bs \<Longrightarrow> sorted_wrt (<) (merge_union as bs)"
proof (induction as bs rule: merge_union.induct)
  case (1 a as b bs)
  consider (lt) "a < b" | (gt) "b < a" | (eq) "a = b" by fastforce
  then show ?case
  proof cases
    case lt
    then have "\<forall>y \<in> set as \<union> set (b # bs). a < y" using strict_Cons2 [OF 1(5) lt 1(4)] by blast
    with 1 lt show ?thesis by (simp add: set_merge_union)
  next
    case gt
    then have "\<forall>y \<in> set bs \<union> set (a # as). b < y" using strict_Cons2 [OF 1(4) gt 1(5)] by blast
    with 1 gt show ?thesis by (auto simp: set_merge_union)
  next
    case eq
    with 1 show ?thesis by (auto simp: set_merge_union)
  qed
qed auto

lemma merge_intersection_filter:
  "sorted_wrt (<) as \<Longrightarrow> sorted_wrt (<) bs \<Longrightarrow> merge_intersection as bs = filter (\<lambda>v. v \<in> set bs) as"
proof (induction as bs rule: merge_intersection.induct)
  case (1 a as b bs)
  consider (lt) "a < b" | (gt) "b < a" | (eq) "a = b" by fastforce
  then show ?case
  proof cases
    case lt
    with 1 strict_notin [of b bs a] show ?thesis by auto
  next
    case gt
    then have "filter (\<lambda>v. v \<in> set (b # bs)) (a # as) = filter (\<lambda>v. v \<in> set bs) (a # as)"
      using strict_notin [OF 1(4) gt] by (intro filter_cong) auto
    with 1 gt show ?thesis by auto
  next
    case eq
    then have "filter (\<lambda>v. v \<in> set (b # bs)) as = filter (\<lambda>v. v \<in> set bs) as"
      using 1(4) by (intro filter_cong) auto
    with 1 eq show ?thesis by auto
  qed
qed auto

lemma merge_difference_filter:
  "sorted_wrt (<) as \<Longrightarrow> sorted_wrt (<) bs \<Longrightarrow> merge_difference as bs = filter (\<lambda>v. v \<notin> set bs) as"
proof (induction as bs rule: merge_difference.induct)
  case (1 a as b bs)
  consider (lt) "a < b" | (gt) "b < a" | (eq) "a = b" by fastforce
  then show ?case
  proof cases
    case lt
    with 1 strict_notin [of b bs a] show ?thesis by auto
  next
    case gt
    then have "filter (\<lambda>v. v \<notin> set (b # bs)) (a # as) = filter (\<lambda>v. v \<notin> set bs) (a # as)"
      using strict_notin [OF 1(4) gt] by (intro filter_cong) auto
    with 1 gt show ?thesis by auto
  next
    case eq
    then have "filter (\<lambda>v. v \<notin> set (b # bs)) as = filter (\<lambda>v. v \<notin> set bs) as"
      using 1(4) by (intro filter_cong) auto
    with 1 eq show ?thesis by auto
  qed
qed auto

section \<open>The operations compute the set operations\<close>

lemma array_okI: "sorted_wrt (<) vs \<Longrightarrow> length vs \<le> 4096 \<Longrightarrow> c_ok (ArrayContainer vs)"
  by simp

lemma filter_ok: "c_ok (ArrayContainer vs) \<Longrightarrow> c_ok (ArrayContainer (filter P vs))"
  using length_filter_le [of P vs] by (auto intro: sorted_wrt_filter simp del: length_filter_le)

lemma c_contains_spec: "c_ok c \<Longrightarrow> c_contains c x \<longleftrightarrow> x \<in> elems c"
  by (cases c) (auto simp: c_contains_def ac_contains_spec bc_contains_bbit bitmap_elems_def)

lemma bc_contains_elems: "bc_contains b x \<longleftrightarrow> x \<in> bitmap_elems b"
  by (simp add: bc_contains_bbit bitmap_elems_def)

lemma finite_bitmap_elems [simp]: "finite (bitmap_elems b)"
  by (rule finite)

lemma c_add_spec:
  assumes "c_ok c"
  shows "c_ok (c_add c x)" and "elems (c_add c x) = insert x (elems c)"
proof -
  have "c_ok (c_add c x) \<and> elems (c_add c x) = insert x (elems c)"
  proof (cases c)
    case (ArrayContainer vs)
    show ?thesis
    proof (cases "x \<in> set vs")
      case False
      from insert_sorted [OF _ this refl] assms ArrayContainer have
        "sorted_wrt (<) (take (ac_insertPos vs x 0) vs @ x # drop (ac_insertPos vs x 0) vs)"
        "set (take (ac_insertPos vs x 0) vs @ x # drop (ac_insertPos vs x 0) vs) = insert x (set vs)" by auto
      from grow_ok [OF this(1)] this(2) False assms ArrayContainer show ?thesis
        by (simp add: c_add_def ac_add_def ac_contains_spec Let_def)
    qed (use assms ArrayContainer in \<open>auto simp: c_add_def ac_add_def ac_contains_spec\<close>)
  next
    case (BitmapContainer b)
    have "card (bitmap_elems b) \<le> card (insert x (bitmap_elems b))" by (rule card_insert_le)
    with assms BitmapContainer setBit_ok [of b x] show ?thesis by (simp add: c_add_def bc_add_def)
  qed
  then show "c_ok (c_add c x)" and "elems (c_add c x) = insert x (elems c)" by simp_all
qed

lemma c_remove_spec:
  assumes "c_ok c"
  shows "c_ok (c_remove c x)" and "elems (c_remove c x) = elems c - {x}"
proof -
  have "c_ok (c_remove c x) \<and> elems (c_remove c x) = elems c - {x}"
  proof (cases c)
    case (ArrayContainer vs)
    then have vs: "sorted_wrt (<) vs" "length vs \<le> 4096" "distinct vs"
      using assms by (auto simp: strict_sorted_iff)
    show ?thesis
    proof (cases "ac_removePos 0 vs x")
      case None
      then have "x \<notin> set vs" using ac_removePos_None [of 0 vs x] by simp
      with None assms ArrayContainer show ?thesis by (simp add: c_remove_def ac_remove_def)
    next
      case (Some p)
      from ac_removePos_Some [OF this] have "c_remove c x = ArrayContainer (remove1 x vs)"
        using Some ArrayContainer by (simp add: c_remove_def ac_remove_def)
      moreover have "remove1 x vs = filter (\<lambda>v. v \<noteq> x) vs"
        using vs(3) by (simp add: distinct_remove1_removeAll removeAll_filter_not_eq) metis
      ultimately show ?thesis using filter_ok [of vs] assms ArrayContainer by auto
    qed
  next
    case (BitmapContainer b)
    with assms clearBit_ok [of b x] shrink_ok [of "bc_clearBit b x"] show ?thesis
      by (simp add: c_remove_def bc_remove_def)
  qed
  then show "c_ok (c_remove c x)" and "elems (c_remove c x) = elems c - {x}" by simp_all
qed

lemma c_cardinality_spec: "c_ok c \<Longrightarrow> c_cardinality c = int (card (elems c))"
  by (cases c) (auto simp: c_cardinality_def bc_cardinality_card strict_card)

lemma c_toArray_spec:
  assumes "c_ok c"
  shows "sorted_wrt (<) (c_toArray c)" and "set (c_toArray c) = elems c"
  using assms by (cases c; auto simp: c_toArray_def bitmap_toArray)+

lemma bc_union_spec:
  assumes "c_ok (BitmapContainer b)" and "c_ok d"
  shows "c_ok (bc_union b d) \<and> elems (bc_union b d) = bitmap_elems b \<union> elems d"
proof (cases d)
  case (ArrayContainer vs)
  have "card (bitmap_elems b) \<le> card (set vs \<union> bitmap_elems b)" by (rule card_mono) auto
  with assms ArrayContainer fold_setBit [of b vs] show ?thesis by (auto simp: bc_union_def)
next
  case (BitmapContainer b')
  have "card (bitmap_elems b) \<le> card (bitmap_elems b \<union> bitmap_elems b')" by (rule card_mono) auto
  with assms BitmapContainer map2_ok(1,2) [of b b'] show ?thesis by (auto simp: bc_union_def)
qed

lemma bc_intersection_spec:
  assumes "c_ok (BitmapContainer b)" and "c_ok d"
  shows "c_ok (bc_intersection b d) \<and> elems (bc_intersection b d) = bitmap_elems b \<inter> elems d"
proof (cases d)
  case (ArrayContainer vs)
  with assms filter_ok [of vs "bc_contains b"] show ?thesis
    by (auto simp: bc_intersection_def bc_contains_elems)
next
  case (BitmapContainer b')
  with assms map2_ok(3,4) [of b b'] shrink_ok [of "map2 (AND) b b'"] show ?thesis
    by (simp add: bc_intersection_def)
qed

lemma bc_difference_spec:
  assumes "c_ok (BitmapContainer b)" and "c_ok d"
  shows "c_ok (bc_difference b d) \<and> elems (bc_difference b d) = bitmap_elems b - elems d"
proof (cases d)
  case (ArrayContainer vs)
  with assms fold_clearBit [of b vs] shrink_ok [of "fold (\<lambda>v b. bc_clearBit b v) vs b"] show ?thesis
    by (simp add: bc_difference_def)
next
  case (BitmapContainer b')
  with assms map2_ok(5,6) [of b b'] shrink_ok [of "map2 (\<lambda>x y. x AND NOT y) b b'"] show ?thesis
    by (simp add: bc_difference_def)
qed

lemma c_union_spec:
  assumes "c_ok c" and "c_ok d"
  shows "c_ok (c_union c d) \<and> elems (c_union c d) = elems c \<union> elems d"
proof (cases c)
  case c: (ArrayContainer vs)
  show ?thesis
  proof (cases d)
    case (ArrayContainer ws)
    with assms c grow_ok [OF sorted_merge_union [of vs ws]] show ?thesis
      by (simp add: c_union_def ac_union_def ac_unionArray_def set_merge_union)
  next
    case (BitmapContainer b)
    with assms c bc_union_spec [of b c] show ?thesis by (auto simp: c_union_def ac_union_def)
  qed
next
  case (BitmapContainer b)
  with assms bc_union_spec [of b d] show ?thesis by (simp add: c_union_def)
qed

lemma c_intersection_spec:
  assumes "c_ok c" and "c_ok d"
  shows "c_ok (c_intersection c d) \<and> elems (c_intersection c d) = elems c \<inter> elems d"
proof (cases c)
  case c: (ArrayContainer vs)
  show ?thesis
  proof (cases d)
    case (ArrayContainer ws)
    with assms c filter_ok [of vs "\<lambda>v. v \<in> set ws"] show ?thesis
      by (auto simp: c_intersection_def ac_intersection_def ac_intersectionArray_def merge_intersection_filter)
  next
    case (BitmapContainer b)
    with assms c bc_intersection_spec [of b c] show ?thesis
      by (auto simp: c_intersection_def ac_intersection_def)
  qed
next
  case (BitmapContainer b)
  with assms bc_intersection_spec [of b d] show ?thesis by (simp add: c_intersection_def)
qed

lemma c_difference_spec:
  assumes "c_ok c" and "c_ok d"
  shows "c_ok (c_difference c d) \<and> elems (c_difference c d) = elems c - elems d"
proof (cases c)
  case c: (ArrayContainer vs)
  show ?thesis
  proof (cases d)
    case (ArrayContainer ws)
    with assms c filter_ok [of vs "\<lambda>v. v \<notin> set ws"] show ?thesis
      by (auto simp: c_difference_def ac_difference_def ac_differenceArray_def merge_difference_filter)
  next
    case (BitmapContainer b)
    with assms c filter_ok [of vs "\<lambda>v. \<not> bc_contains b v"] show ?thesis
      by (auto simp: c_difference_def ac_difference_def bc_contains_elems)
  qed
next
  case (BitmapContainer b)
  with assms bc_difference_spec [of b d] show ?thesis by (simp add: c_difference_def)
qed

end
