(* ===== verification/Roaring.thy ===== *)
theory Roaring
  imports Containers Interfaces GoLists
begin

text \<open>
  \<open>algo/roaring_bitmap.go\<close>: a set of 32-bit values, one container for each value of the upper 16 bits.
  The map of containers is an association list; its order stands for the order in which Go happens
  to range over the map.
\<close>

type_synonym roaring = "(16 word \<times> container) list"

definition NewRoaringBitmap :: roaring where
  "NewRoaringBitmap = []"

definition rb_high :: "32 word \<Rightarrow> 16 word" where
  "rb_high x = ucast (drop_bit 16 x)"

definition rb_low :: "32 word \<Rightarrow> 16 word" where
  "rb_low x = ucast (x AND 0xFFFF)"

definition rb_Add :: "roaring \<Rightarrow> 32 word \<Rightarrow> roaring" where
  "rb_Add rb x =
     (let high = rb_high x; low = rb_low x
      in case map_of rb high of
           Some c \<Rightarrow> AList.update high (c_add c low) rb
         | None \<Rightarrow> AList.update high (ArrayContainer [low]) rb)"

definition rb_Contains :: "roaring \<Rightarrow> 32 word \<Rightarrow> bool" where
  "rb_Contains rb x =
     (let high = rb_high x; low = rb_low x
      in case map_of rb high of Some c \<Rightarrow> c_contains c low | None \<Rightarrow> False)"

definition rb_Remove :: "roaring \<Rightarrow> 32 word \<Rightarrow> roaring" where
  "rb_Remove rb x =
     (let high = rb_high x; low = rb_low x
      in case map_of rb high of
           Some c \<Rightarrow> (let newContainer = c_remove c low
                     in if c_cardinality newContainer = 0 then AList.delete high rb
                        else AList.update high newContainer rb)
         | None \<Rightarrow> rb)"

definition rb_Cardinality :: "roaring \<Rightarrow> int" where
  "rb_Cardinality rb = fold (\<lambda>(key, c) n. n + c_cardinality c) rb 0"

definition rb_Union :: "roaring \<Rightarrow> roaring \<Rightarrow> roaring" where
  "rb_Union rb other =
     fold (\<lambda>(key, d) result. case map_of result key of
             Some c \<Rightarrow> AList.update key (c_union c d) result
           | None \<Rightarrow> AList.update key d result) other rb"

definition rb_Intersection :: "roaring \<Rightarrow> roaring \<Rightarrow> roaring" where
  "rb_Intersection rb other =
     fold (\<lambda>(key, c) result. case map_of other key of
             Some d \<Rightarrow> (let e = c_intersection c d
                       in if c_cardinality e > 0 then AList.update key e result else result)
           | None \<Rightarrow> result) rb NewRoaringBitmap"

definition rb_Difference :: "roaring \<Rightarrow> roaring \<Rightarrow> roaring" where
  "rb_Difference rb other =
     fold (\<lambda>(key, c) result. case map_of other key of
             Some d \<Rightarrow> (let e = c_difference c d
                       in if c_cardinality e > 0 then AList.update key e result else result)
           | None \<Rightarrow> AList.update key c result) rb NewRoaringBitmap"

definition rb_ToArray :: "roaring \<Rightarrow> 32 word list" where
  "rb_ToArray rb =
     concat (map (\<lambda>key. map (\<lambda>val. push_bit 16 (ucast key) OR ucast val) (c_toArray (the (map_of rb key))))
       (sort (map fst rb)))"

section \<open>The two halves of a value\<close>

definition join :: "16 word \<Rightarrow> 16 word \<Rightarrow> 32 word" where
  "join k v = push_bit 16 (ucast k) OR ucast v"

lemma rb_low_eq: "rb_low x = ucast (take_bit 16 x)"
proof -
  have "(mask 16 :: 32 word) = 0xFFFF" by (simp add: mask_eq_exp_minus_1)
  then show ?thesis using take_bit_eq_mask [of 16 x] by (simp add: rb_low_def)
qed

lemma bit16 [dest]: "bit (v :: 16 word) n \<Longrightarrow> n < 16"
  using bit_imp_le_length [of v n] by simp

lemma high_join [simp]: "rb_high (join k v) = k"
  by (rule bit_word_eqI) (auto simp: rb_high_def join_def bit_simps)

lemma low_join [simp]: "rb_low (join k v) = v"
  by (rule bit_word_eqI) (auto simp: rb_low_eq join_def bit_simps)

lemma join_halves [simp]: "join (rb_high x) (rb_low x) = x"
  by (rule bit_word_eqI) (auto simp: rb_high_def rb_low_eq join_def bit_simps)

lemma halves_eq: "rb_high x = rb_high y \<Longrightarrow> rb_low x = rb_low y \<Longrightarrow> x = y"
  by (metis join_halves)

lemma join_inject: "join k v = join l w \<longleftrightarrow> k = l \<and> v = w"
  by (metis high_join low_join)

lemma unat_join: "unat (join k v) = 65536 * unat k + unat v"
proof -
  have "join k v = push_bit 16 (ucast k) + ucast v"
    unfolding join_def by (rule disjunctive_add [symmetric]) (auto simp: bit_simps)
  moreover have "unat (push_bit 16 (ucast k :: 32 word)) = 65536 * unat k"
    using unat16_less [of k]
    by (simp add: push_bit_eq_mult unat_word_ariths unsigned_ucast_eq take_bit_nat_eq_self)
  moreover have "unat (ucast v :: 32 word) = unat v"
    using unat16_less [of v] by (simp add: unsigned_ucast_eq take_bit_nat_eq_self)
  ultimately show ?thesis
    using unat16_less [of k] unat16_less [of v] by (simp add: unat_word_ariths)
qed

lemma join_less:
  "join k v < join l w \<longleftrightarrow> k < l \<or> k = l \<and> v < w"
proof -
  have *: "k < l \<or> k = l \<and> v < w \<longleftrightarrow> unat k < unat l \<or> unat k = unat l \<and> unat v < unat w"
    by (auto simp: word_less_nat_alt word_unat_eq_iff)
  show ?thesis unfolding word_less_nat_alt [of "join k v"] unat_join *
    using unat16_less [of v] unat16_less [of w] by (auto simp: word_less_nat_alt; linarith)
qed

section \<open>The set of a bitmap\<close>

definition rb_at :: "roaring \<Rightarrow> 16 word \<Rightarrow> 16 word set" where
  "rb_at rb k = (case map_of rb k of None \<Rightarrow> {} | Some c \<Rightarrow> elems c)"

definition rb_set :: "roaring \<Rightarrow> 32 word set" where
  "rb_set rb = {x. rb_low x \<in> rb_at rb (rb_high x)}"

text \<open>The keys are distinct; the containers keep their own invariant and none is empty.\<close>

definition rb_ok :: "roaring \<Rightarrow> bool" where
  "rb_ok rb \<longleftrightarrow> distinct (map fst rb) \<and> (\<forall>k c. map_of rb k = Some c \<longrightarrow> c_ok c \<and> elems c \<noteq> {})"

lemma rb_okD:
  "rb_ok rb \<Longrightarrow> distinct (map fst rb)"
  "rb_ok rb \<Longrightarrow> map_of rb k = Some c \<Longrightarrow> c_ok c"
  "rb_ok rb \<Longrightarrow> map_of rb k = Some c \<Longrightarrow> elems c \<noteq> {}"
  by (auto simp: rb_ok_def)

lemma rb_ok_New: "rb_ok NewRoaringBitmap" "rb_set NewRoaringBitmap = {}"
  by (simp_all add: rb_ok_def rb_set_def rb_at_def NewRoaringBitmap_def)

lemma rb_at_update: "rb_at (AList.update k c rb) = (rb_at rb)(k := elems c)"
  by (rule ext) (simp add: rb_at_def update_conv')

lemma rb_at_delete: "rb_at (AList.delete k rb) = (rb_at rb)(k := {})"
  by (rule ext) (simp add: rb_at_def delete_conv')

lemma rb_ok_update: "rb_ok rb \<Longrightarrow> c_ok c \<Longrightarrow> elems c \<noteq> {} \<Longrightarrow> rb_ok (AList.update k c rb)"
  by (simp add: rb_ok_def update_conv' distinct_update)

lemma rb_ok_delete: "rb_ok rb \<Longrightarrow> rb_ok (AList.delete k rb)"
  by (simp add: rb_ok_def delete_conv' distinct_delete)

lemma rb_at_None: "map_of rb k = None \<Longrightarrow> (rb_at rb)(k := {}) = rb_at rb"
  by (rule ext) (simp add: rb_at_def)

lemma halves_iff: "x = y \<longleftrightarrow> rb_high x = rb_high y \<and> rb_low x = rb_low y"
  using halves_eq by blast

lemma rb_set_upd:
  assumes "rb_at rb' = (rb_at rb)(k := V)"
  shows "rb_set rb' = {x \<in> rb_set rb. rb_high x \<noteq> k} \<union> join k ` V"
proof (intro set_eqI iffI)
  fix x assume "x \<in> rb_set rb'"
  then show "x \<in> {x \<in> rb_set rb. rb_high x \<noteq> k} \<union> join k ` V"
    using assms join_halves [of x] by (cases "rb_high x = k") (auto simp: rb_set_def intro!: image_eqI)
next
  fix x assume "x \<in> {x \<in> rb_set rb. rb_high x \<noteq> k} \<union> join k ` V"
  then show "x \<in> rb_set rb'" using assms by (auto simp: rb_set_def)
qed

lemma Contains_spec: "rb_ok rb \<Longrightarrow> rb_Contains rb x \<longleftrightarrow> x \<in> rb_set rb"
  by (auto simp: rb_Contains_def rb_set_def rb_at_def Let_def c_contains_spec rb_okD split: option.splits)

lemma Add_spec:
  assumes "rb_ok rb"
  shows "rb_ok (rb_Add rb x)" and "rb_set (rb_Add rb x) = insert x (rb_set rb)"
proof -
  obtain c where c: "rb_Add rb x = AList.update (rb_high x) c rb" "c_ok c"
    "elems c = insert (rb_low x) (rb_at rb (rb_high x))"
  proof (cases "map_of rb (rb_high x)")
    case None
    then show ?thesis by (intro that [of "ArrayContainer [rb_low x]"]) (simp_all add: rb_Add_def rb_at_def)
  next
    case (Some d)
    then show ?thesis using c_add_spec [OF rb_okD(2) [OF assms Some], of "rb_low x"]
      by (intro that [of "c_add d (rb_low x)"]) (simp_all add: rb_Add_def rb_at_def)
  qed
  from rb_ok_update [OF assms c(2), of "rb_high x"] rb_at_update [of "rb_high x" c rb] c(3) have
    "rb_ok (rb_Add rb x)" "rb_at (rb_Add rb x) = (rb_at rb)(rb_high x := insert (rb_low x) (rb_at rb (rb_high x)))"
    by (simp_all add: c(1))
  then show "rb_ok (rb_Add rb x)" "rb_set (rb_Add rb x) = insert x (rb_set rb)"
    by (auto simp: rb_set_def halves_iff [of _ x])
qed

lemma Remove_spec:
  assumes "rb_ok rb"
  shows "rb_ok (rb_Remove rb x)" and "rb_set (rb_Remove rb x) = rb_set rb - {x}"
proof -
  have "rb_ok (rb_Remove rb x) \<and> rb_at (rb_Remove rb x) = (rb_at rb)(rb_high x := rb_at rb (rb_high x) - {rb_low x})"
  proof (cases "map_of rb (rb_high x)")
    case None
    then show ?thesis using assms rb_at_None [OF None] by (simp add: rb_Remove_def) (simp add: rb_at_def)
  next
    case (Some c)
    let ?c = "c_remove c (rb_low x)"
    from c_remove_spec [OF rb_okD(2) [OF assms Some], of "rb_low x"] have
      c: "c_ok ?c" "elems ?c = rb_at rb (rb_high x) - {rb_low x}" using Some by (simp_all add: rb_at_def)
    show ?thesis
    proof (cases "elems ?c = {}")
      case True
      with c(1) have "c_cardinality ?c = 0" by (simp add: c_cardinality_spec)
      with Some True rb_ok_delete [OF assms, of "rb_high x"] rb_at_delete [of "rb_high x" rb] show ?thesis
        by (simp add: rb_Remove_def c(2) [symmetric])
    next
      case False
      then have "0 < card (elems ?c)" by (simp add: card_gt_0_iff)
      with c(1) False have "c_cardinality ?c \<noteq> 0" by (simp add: c_cardinality_spec)
      with Some rb_ok_update [OF assms c(1) False, of "rb_high x"] rb_at_update [of "rb_high x" ?c rb] c(2) show ?thesis
        by (simp add: rb_Remove_def)
    qed
  qed
  then show "rb_ok (rb_Remove rb x)" "rb_set (rb_Remove rb x) = rb_set rb - {x}"
    by (auto simp: rb_set_def halves_iff [of _ x])
qed

section \<open>Whole bitmaps\<close>

lemma rb_ok_Cons:
  assumes "rb_ok ((k, c) # rb)"
  shows "c_ok c" and "elems c \<noteq> {}" and "map_of rb k = None" and "rb_ok rb" and "k \<notin> fst ` set rb"
proof -
  have d: "distinct (map fst ((k, c) # rb))" using assms by (rule rb_okD)
  then show k: "k \<notin> fst ` set rb" by simp
  then show n: "map_of rb k = None" by (simp add: map_of_eq_None_iff)
  show "c_ok c" "elems c \<noteq> {}" using rb_okD(2,3) [OF assms, of k c] by simp_all
  have "map_of ((k, c) # rb) k' = Some c'" if "map_of rb k' = Some c'" for k' c' using that n by auto
  with d show "rb_ok rb" using rb_okD(2,3) [OF assms] by (auto simp: rb_ok_def simp del: map_of.simps)
qed

lemma rb_at_Cons: "rb_at ((k, c) # rb) = (rb_at rb)(k := elems c)"
  by (rule ext) (simp add: rb_at_def)

lemma rb_at_absent: "map_of rb k = None \<Longrightarrow> rb_at rb k = {}"
  by (simp add: rb_at_def)

lemma card_join: "card (join k ` V) = card V"
  by (rule card_image) (simp add: inj_on_def join_inject)

lemma Cardinality_fold:
  "rb_ok rb \<Longrightarrow> fold (\<lambda>(key, c) n. n + c_cardinality c) rb m = m + int (card (rb_set rb))"
proof (induction rb arbitrary: m)
  case Nil
  then show ?case by (simp add: rb_set_def rb_at_def)
next
  case (Cons kc rb)
  obtain k c where kc: "kc = (k, c)" by (cases kc)
  note ok = rb_ok_Cons [OF Cons.prems [unfolded kc]]
  have "rb_set (kc # rb) = {x \<in> rb_set rb. rb_high x \<noteq> k} \<union> join k ` elems c"
    unfolding kc by (rule rb_set_upd) (rule rb_at_Cons)
  moreover have "{x \<in> rb_set rb. rb_high x \<noteq> k} = rb_set rb"
    using rb_at_absent [OF ok(3)] by (auto simp: rb_set_def)
  moreover have "rb_set rb \<inter> join k ` elems c = {}"
    using rb_at_absent [OF ok(3)] by (auto simp: rb_set_def)
  ultimately have "card (rb_set (kc # rb)) = card (rb_set rb) + card (elems c)"
    by (simp add: card_Un_disjoint card_join)
  with Cons.IH [OF ok(4)] ok(1) show ?case by (simp add: kc c_cardinality_spec)
qed

lemma Cardinality_spec: "rb_ok rb \<Longrightarrow> rb_Cardinality rb = int (card (rb_set rb))"
  by (simp add: rb_Cardinality_def Cardinality_fold)

lemma rb_set_eqI:
  "(\<And>k. rb_at rb k = F (rb_at r1 k) (rb_at r2 k)) \<Longrightarrow> (\<And>v A B. v \<in> F A B \<longleftrightarrow> P (v \<in> A) (v \<in> B)) \<Longrightarrow>
   rb_set rb = {x. P (x \<in> rb_set r1) (x \<in> rb_set r2)}"
  by (simp add: rb_set_def)

lemma Union_fold:
  assumes "rb_ok result" and "rb_ok other"
  shows "rb_ok (fold (\<lambda>(key, d) result. case map_of result key of
             Some c \<Rightarrow> AList.update key (c_union c d) result
           | None \<Rightarrow> AList.update key d result) other result)
    \<and> (\<forall>k. rb_at (fold (\<lambda>(key, d) result. case map_of result key of
             Some c \<Rightarrow> AList.update key (c_union c d) result
           | None \<Rightarrow> AList.update key d result) other result) k = rb_at result k \<union> rb_at other k)"
  using assms
proof (induction other arbitrary: result)
  case Nil
  then show ?case by (simp add: rb_at_def)
next
  case (Cons kd other)
  obtain k d where kd: "kd = (k, d)" by (cases kd)
  note ok = rb_ok_Cons [OF Cons.prems(2) [unfolded kd]]
  let ?r = "case map_of result k of Some c \<Rightarrow> AList.update k (c_union c d) result
    | None \<Rightarrow> AList.update k d result"
  have r: "rb_ok ?r \<and> rb_at ?r = (rb_at result)(k := rb_at result k \<union> elems d)"
  proof (cases "map_of result k")
    case None
    with rb_ok_update [OF Cons.prems(1) ok(1,2)] show ?thesis
      by (simp add: rb_at_update rb_at_absent)
  next
    case (Some c)
    from c_union_spec [OF rb_okD(2) [OF Cons.prems(1) Some] ok(1)] Some
      rb_ok_update [OF Cons.prems(1), of "c_union c d" k] ok(2) show ?thesis
      by (simp add: rb_at_update) (simp add: rb_at_def)
  qed
  from Cons.IH [OF conjunct1 [OF r] ok(4)] conjunct2 [OF r] rb_at_absent [OF ok(3)] show ?case
    by (simp add: kd rb_at_Cons)
qed

lemma Union_spec:
  assumes "rb_ok rb" and "rb_ok other"
  shows "rb_ok (rb_Union rb other)" and "rb_set (rb_Union rb other) = rb_set rb \<union> rb_set other"
proof -
  from Union_fold [OF assms] have "rb_ok (rb_Union rb other)"
    "\<And>k. rb_at (rb_Union rb other) k = rb_at rb k \<union> rb_at other k" by (simp_all add: rb_Union_def)
  then show "rb_ok (rb_Union rb other)" "rb_set (rb_Union rb other) = rb_set rb \<union> rb_set other"
    by (auto simp: rb_set_def)
qed

text \<open>Intersection and difference share their loop: what is kept of a container is computed by \<open>pick\<close>.\<close>

definition keep :: "container option \<Rightarrow> 16 word \<Rightarrow> roaring \<Rightarrow> roaring" where
  "keep e key result = (case e of Some c \<Rightarrow> AList.update key c result | None \<Rightarrow> result)"

lemma keep_fold:
  assumes "rb_ok result" and "rb_ok rb" and "\<forall>k \<in> fst ` set rb. map_of result k = None"
    and pick: "\<And>k c. map_of rb k = Some c \<Longrightarrow>
      (case pick k c of None \<Rightarrow> F k (elems c) = {}
                     | Some e \<Rightarrow> c_ok e \<and> elems e = F k (elems c) \<and> elems e \<noteq> {})"
    and "\<And>k. F k {} = {}"
  shows "rb_ok (fold (\<lambda>(key, c) result. keep (pick key c) key result) rb result)
    \<and> (\<forall>k. rb_at (fold (\<lambda>(key, c) result. keep (pick key c) key result) rb result) k
          = rb_at result k \<union> F k (rb_at rb k))"
  using assms
proof (induction rb arbitrary: result)
  case Nil
  then show ?case by (simp add: rb_at_def)
next
  case (Cons kc rb)
  obtain k c where kc: "kc = (k, c)" by (cases kc)
  note ok = rb_ok_Cons [OF Cons.prems(2) [unfolded kc]]
  let ?r = "keep (pick k c) k result"
  have absent: "map_of result k = None" using Cons.prems(3) by (simp add: kc)
  have p: "case pick k c of None \<Rightarrow> F k (elems c) = {}
     | Some e \<Rightarrow> c_ok e \<and> elems e = F k (elems c) \<and> elems e \<noteq> {}"
    using Cons.prems(4) [of k c] by (simp add: kc)
  have r: "rb_ok ?r" "rb_at ?r = (rb_at result)(k := F k (elems c))"
    "\<forall>k' \<in> fst ` set rb. map_of ?r k' = None"
  proof -
    show "rb_ok ?r"
    proof (cases "pick k c")
      case (Some e)
      with p have "c_ok e" "elems e \<noteq> {}" by auto
      from rb_ok_update [OF Cons.prems(1) this] Some show ?thesis by (simp add: keep_def)
    qed (use Cons.prems(1) in \<open>simp add: keep_def\<close>)
    show "rb_at ?r = (rb_at result)(k := F k (elems c))"
      using p rb_at_None [OF absent] by (simp add: keep_def rb_at_update split: option.splits)
    show "\<forall>k' \<in> fst ` set rb. map_of ?r k' = None"
      using Cons.prems(3) ok(5) by (auto simp: keep_def update_conv' kc split: option.splits)
  qed
  have "case pick k' c' of None \<Rightarrow> F k' (elems c') = {}
     | Some e \<Rightarrow> c_ok e \<and> elems e = F k' (elems c') \<and> elems e \<noteq> {}" if "map_of rb k' = Some c'" for k' c'
    using Cons.prems(4) [of k' c'] that ok(3) by (cases "k' = k") (auto simp: kc)
  from Cons.IH [OF r(1) ok(4) r(3) this Cons.prems(5)] r(2) rb_at_absent [OF ok(3)] Cons.prems(5)
    rb_at_absent [OF absent]
  show ?case by (simp add: kc rb_at_Cons)
qed

text \<open>Restricted to the values under one key, with a container or without.\<close>

lemma fold_keep_cong:
  "(\<And>k c result. f (k, c) result = keep (pick k c) k result) \<Longrightarrow>
   fold f rb result = fold (\<lambda>(key, c) result. keep (pick key c) key result) rb result"
  by (rule fold_cong) (auto simp: fun_eq_iff)

definition pick_nonempty :: "container \<Rightarrow> container option" where
  "pick_nonempty e = (if c_cardinality e > 0 then Some e else None)"

lemma pick_nonempty_spec:
  assumes "c_ok e" and "elems e = V"
  shows "case pick_nonempty e of None \<Rightarrow> V = {} | Some e' \<Rightarrow> c_ok e' \<and> elems e' = V \<and> elems e' \<noteq> {}"
  using assms by (auto simp: pick_nonempty_def c_cardinality_spec card_gt_0_iff)

lemma Intersection_spec:
  assumes "rb_ok rb" and "rb_ok other"
  shows "rb_ok (rb_Intersection rb other)" and "rb_set (rb_Intersection rb other) = rb_set rb \<inter> rb_set other"
proof -
  let ?pick = "\<lambda>k c. case map_of other k of None \<Rightarrow> None | Some d \<Rightarrow> pick_nonempty (c_intersection c d)"
  let ?F = "\<lambda>k V. V \<inter> rb_at other k"
  have fold: "rb_Intersection rb other = fold (\<lambda>(key, c) result. keep (?pick key c) key result) rb NewRoaringBitmap"
    unfolding rb_Intersection_def
    by (rule fold_keep_cong) (auto simp: keep_def pick_nonempty_def Let_def split: option.splits)
  have p: "case ?pick k c of None \<Rightarrow> ?F k (elems c) = {}
    | Some e \<Rightarrow> c_ok e \<and> elems e = ?F k (elems c) \<and> elems e \<noteq> {}" if "map_of rb k = Some c" for k c
  proof (cases "map_of other k")
    case (Some d)
    from c_intersection_spec [OF rb_okD(2) [OF assms(1) that] rb_okD(2) [OF assms(2) Some]]
    show ?thesis using pick_nonempty_spec [of "c_intersection c d" "?F k (elems c)"] Some
      by (simp add: rb_at_def)
  qed (simp add: rb_at_def)
  from keep_fold [where pick = ?pick and F = ?F, OF rb_ok_New(1) assms(1) _ p] have "rb_ok (rb_Intersection rb other)"
    "\<And>k. rb_at (rb_Intersection rb other) k = rb_at rb k \<inter> rb_at other k"
    by (simp_all add: fold) (simp_all add: NewRoaringBitmap_def rb_at_def)
  then show "rb_ok (rb_Intersection rb other)" "rb_set (rb_Intersection rb other) = rb_set rb \<inter> rb_set other"
    by (auto simp: rb_set_def)
qed

lemma Difference_spec:
  assumes "rb_ok rb" and "rb_ok other"
  shows "rb_ok (rb_Difference rb other)" and "rb_set (rb_Difference rb other) = rb_set rb - rb_set other"
proof -
  let ?pick = "\<lambda>k c. case map_of other k of None \<Rightarrow> Some c | Some d \<Rightarrow> pick_nonempty (c_difference c d)"
  let ?F = "\<lambda>k V. V - rb_at other k"
  have fold: "rb_Difference rb other = fold (\<lambda>(key, c) result. keep (?pick key c) key result) rb NewRoaringBitmap"
    unfolding rb_Difference_def
    by (rule fold_keep_cong) (auto simp: keep_def pick_nonempty_def Let_def split: option.splits)
  have p: "case ?pick k c of None \<Rightarrow> ?F k (elems c) = {}
    | Some e \<Rightarrow> c_ok e \<and> elems e = ?F k (elems c) \<and> elems e \<noteq> {}" if "map_of rb k = Some c" for k c
  proof (cases "map_of other k")
    case (Some d)
    from c_difference_spec [OF rb_okD(2) [OF assms(1) that] rb_okD(2) [OF assms(2) Some]]
    show ?thesis using pick_nonempty_spec [of "c_difference c d" "?F k (elems c)"] Some
      by (simp add: rb_at_def)
  qed (use rb_okD(2,3) [OF assms(1) that] in \<open>simp add: rb_at_def\<close>)
  from keep_fold [where pick = ?pick and F = ?F, OF rb_ok_New(1) assms(1) _ p] have "rb_ok (rb_Difference rb other)"
    "\<And>k. rb_at (rb_Difference rb other) k = rb_at rb k - rb_at other k"
    by (simp_all add: fold) (simp_all add: NewRoaringBitmap_def rb_at_def)
  then show "rb_ok (rb_Difference rb other)" "rb_set (rb_Difference rb other) = rb_set rb - rb_set other"
    by (auto simp: rb_set_def)
qed

section \<open>The sorted array\<close>

lemma sorted_joins:
  assumes "sorted_wrt (<) ks" and "\<And>k. k \<in> set ks \<Longrightarrow> sorted_wrt (<) (A k)"
  shows "sorted_wrt (<) (concat (map (\<lambda>k. map (join k) (A k)) ks))"
  using assms
proof (induction ks)
  case Nil
  then show ?case by simp
next
  case (Cons k ks)
  have "sorted_wrt (<) (map (join k) (A k))" using Cons.prems(2) [of k] by (simp add: sorted_wrt_map join_less)
  moreover have "\<forall>x \<in> set (map (join k) (A k)). \<forall>y \<in> set (concat (map (\<lambda>k. map (join k) (A k)) ks)). x < y"
    using Cons.prems(1) by (auto simp: join_less)
  ultimately show ?case using Cons by (simp add: sorted_wrt_append)
qed

lemma ToArray_spec:
  assumes "rb_ok rb"
  shows "rb_ToArray rb = sorted_list_of_set (rb_set rb)"
proof -
  let ?A = "\<lambda>k. c_toArray (the (map_of rb k))"
  have t: "rb_ToArray rb = concat (map (\<lambda>k. map (join k) (?A k)) (sort (map fst rb)))"
    by (simp add: rb_ToArray_def join_def [abs_def])
  have key: "\<exists>c. map_of rb k = Some c" if "k \<in> fst ` set rb" for k
    using that by (metis domD dom_map_of_conv_image_fst)
  have A: "sorted_wrt (<) (?A k)" "set (?A k) = rb_at rb k" if "k \<in> fst ` set rb" for k
  proof -
    from key [OF that] obtain c where c: "map_of rb k = Some c" by blast
    from c_toArray_spec [OF rb_okD(2) [OF assms c]] c show "sorted_wrt (<) (?A k)" "set (?A k) = rb_at rb k"
      by (simp_all add: rb_at_def)
  qed
  have "sorted_wrt (<) (sort (map fst rb))" using rb_okD(1) [OF assms] by (simp add: strict_sorted_iff)
  then have "sorted_wrt (<) (rb_ToArray rb)" unfolding t by (rule sorted_joins) (use A(1) in simp)
  moreover have "set (rb_ToArray rb) = rb_set rb"
  proof (intro set_eqI iffI)
    fix x assume "x \<in> set (rb_ToArray rb)"
    then obtain k where "k \<in> fst ` set rb" "x \<in> join k ` set (?A k)" by (auto simp: t)
    with A show "x \<in> rb_set rb" by (auto simp: rb_set_def)
  next
    fix x assume x: "x \<in> rb_set rb"
    then have "map_of rb (rb_high x) \<noteq> None"
      using rb_at_absent [of rb "rb_high x"] by (auto simp: rb_set_def simp del: not_None_eq)
    then have k: "rb_high x \<in> fst ` set rb" by (simp add: map_of_eq_None_iff)
    have "join (rb_high x) (rb_low x) \<in> join (rb_high x) ` set (?A (rb_high x))"
      using x A(2) [OF k] by (intro imageI) (simp add: rb_set_def)
    then have "x \<in> join (rb_high x) ` set (?A (rb_high x))" by simp
    moreover have "set (rb_ToArray rb) = (\<Union>k \<in> fst ` set rb. join k ` set (?A k))" by (simp add: t)
    ultimately show "x \<in> set (rb_ToArray rb)" using k by blast
  qed
  ultimately show ?thesis
    by (intro strict_sorted_equal) simp_all
qed

section \<open>Sequences of operations\<close>

datatype rb_op = RAdd "32 word" | RRemove "32 word" | RContains "32 word" | RCardinality | RToArray
  | RUnion roaring | RIntersection roaring | RDifference roaring

fun rb_step :: "roaring \<Rightarrow> rb_op \<Rightarrow> (32 word out \<times> roaring) option" where
  "rb_step rb (RAdd x) = Some (Unit, rb_Add rb x)"
| "rb_step rb (RRemove x) = Some (Unit, rb_Remove rb x)"
| "rb_step rb (RContains x) = Some (Flag (rb_Contains rb x), rb)"
| "rb_step rb RCardinality = Some (Count (rb_Cardinality rb), rb)"
| "rb_step rb RToArray = Some (Items (rb_ToArray rb), rb)"
| "rb_step rb (RUnion other) = Some (Unit, rb_Union rb other)"
| "rb_step rb (RIntersection other) = Some (Unit, rb_Intersection rb other)"
| "rb_step rb (RDifference other) = Some (Unit, rb_Difference rb other)"

fun set_spec :: "32 word set \<Rightarrow> rb_op \<Rightarrow> 32 word out \<times> 32 word set" where
  "set_spec V (RAdd x) = (Unit, insert x V)"
| "set_spec V (RRemove x) = (Unit, V - {x})"
| "set_spec V (RContains x) = (Flag (x \<in> V), V)"
| "set_spec V RCardinality = (Count (int (card V)), V)"
| "set_spec V RToArray = (Items (sorted_list_of_set V), V)"
| "set_spec V (RUnion other) = (Unit, V \<union> rb_set other)"
| "set_spec V (RIntersection other) = (Unit, V \<inter> rb_set other)"
| "set_spec V (RDifference other) = (Unit, V - rb_set other)"

fun args_ok :: "rb_op \<Rightarrow> bool" where
  "args_ok (RUnion other) = rb_ok other"
| "args_ok (RIntersection other) = rb_ok other"
| "args_ok (RDifference other) = rb_ok other"
| "args_ok _ = True"

definition rb_rel :: "roaring \<Rightarrow> 32 word set \<Rightarrow> bool" where
  "rb_rel rb V \<longleftrightarrow> rb_ok rb \<and> V = rb_set rb"

text \<open>An operation whose argument is not a bitmap of the package is left out of the contract.\<close>

definition rb_step' :: "roaring \<Rightarrow> rb_op \<Rightarrow> (32 word out \<times> roaring) option" where
  "rb_step' rb x = (if args_ok x then rb_step rb x else rb_step rb RCardinality)"

definition set_spec' :: "32 word set \<Rightarrow> rb_op \<Rightarrow> 32 word out \<times> 32 word set" where
  "set_spec' V x = (if args_ok x then set_spec V x else set_spec V RCardinality)"

lemma rb_step_refines:
  assumes "rb_rel rb V" and "args_ok x"
  shows "\<exists>rb'. rb_step rb x = Some (fst (set_spec V x), rb') \<and> rb_rel rb' (snd (set_spec V x))"
  using assms
  by (cases x) (simp_all add: rb_rel_def Add_spec Remove_spec Contains_spec Cardinality_spec ToArray_spec
      Union_spec Intersection_spec Difference_spec)

interpretation roaring: refinement rb_step' set_spec' rb_rel
proof (unfold_locales)
  fix c a x assume "rb_rel c a"
  with rb_step_refines [of c a x] rb_step_refines [of c a RCardinality] show
    "\<exists>c'. rb_step' c x = Some (fst (set_spec' a x), c') \<and> rb_rel c' (snd (set_spec' a x))"
    by (auto simp: rb_step'_def set_spec'_def)
qed

lemma run_args_ok:
  assumes "\<forall>x \<in> set xs. args_ok x"
  shows "run_steps rb_step' rb xs = run_steps rb_step rb xs"
    and "run_steps (total_step set_spec') V xs = run_steps (total_step set_spec) V xs"
  using assms by (induction xs arbitrary: rb V) (auto simp: rb_step'_def set_spec'_def cong: Option.bind_cong)

section \<open>Properties\<close>

text \<open>C3: a Roaring bitmap is a set of 32-bit values: every sequence of additions, removals, unions,
  intersections and differences with well-formed bitmaps returns what the set returns, with exact
  cardinalities and sorted arrays, and leaves a well-formed bitmap, whatever representation its
  containers change to on the way.\<close>

theorem Roaring_refines_set:
  assumes "rb_ok rb" and "\<forall>x \<in> set xs. args_ok x"
  shows "\<exists>rs rb'. run_steps rb_step rb xs = Some (rs, rb')
    \<and> run_steps (total_step set_spec) (rb_set rb) xs = Some (rs, rb_set rb') \<and> rb_ok rb'"
  using roaring.run_refines [of rb "rb_set rb" xs] assms
  by (auto simp: run_args_ok rb_rel_def)

theorem Roaring_refines_set_witness:
  "\<exists>rs rb'. run_steps rb_step NewRoaringBitmap
      [RAdd 70000, RAdd 5, RUnion [(1, ArrayContainer [7])], RRemove 5, RToArray] = Some (rs, rb')
    \<and> run_steps (total_step set_spec) {} [RAdd 70000, RAdd 5, RUnion [(1, ArrayContainer [7])], RRemove 5, RToArray]
      = Some (rs, rb_set rb') \<and> rb_ok rb'"
proof -
  have "\<forall>x \<in> set [RAdd 70000, RAdd 5, RUnion [(1, ArrayContainer [7])], RRemove 5, RToArray]. args_ok x"
    by (auto simp: rb_ok_def)
  from Roaring_refines_set [OF rb_ok_New(1) this] show ?thesis by (simp only: rb_ok_New(2))
qed

text \<open>C37: the containers keep their type's promise: whatever is added or removed, an array is strictly
  sorted and holds at most 4096 values, and a bitmap holds at least 4096.\<close>

theorem Roaring_container_type:
  assumes "c_ok c" and "c_ok d"
  shows "c_ok (c_add c x) \<and> c_ok (c_remove c x) \<and> c_ok (c_union c d) \<and> c_ok (c_intersection c d)
    \<and> c_ok (c_difference c d) \<and> c_cardinality c = int (card (elems c)) \<and> sorted_wrt (<) (c_toArray c)"
  using assms by (simp add: c_add_spec c_remove_spec c_union_spec c_intersection_spec c_difference_spec
      c_cardinality_spec c_toArray_spec)

theorem Roaring_container_type_witness:
  "c_ok (c_add (ArrayContainer [3, 9]) 5) \<and> c_ok (c_union (ArrayContainer [3, 9]) (ArrayContainer [4]))"
  using Roaring_container_type [of "ArrayContainer [3, 9]" "ArrayContainer [4]" 5] by simp

end
