(* ===== verification/MessageCodec.thy ===== *)
theory MessageCodec
  imports Prelude
begin

unbundle bit_operations_syntax

text \<open>
  \<open>messages/msg_shared_memory.go\<close>: the bytes of a message. \<open>serializeMessage\<close> computes the size,
  allocates the bytes and fills them at an offset; \<open>deserializeMessage\<close> reads them back and panics
  (\<open>None\<close>) where an index or a slice leaves the data. Strings and byte slices are lists of
  bytes. A time is its \<open>UnixNano\<close>; the signed fields are the words that hold them.
\<close>

type_synonym bytes = "8 word list"

record message_header =
  hdr_key :: bytes
  hdr_value :: bytes

record sm_message =
  msg_topic :: bytes
  msg_partition :: "32 word"
  msg_offset :: "64 word"
  msg_key :: bytes
  msg_value :: bytes
  msg_headers :: "message_header list"
  msg_timestamp :: "64 word"

section \<open>Little-endian words\<close>

fun le_bytes :: "nat \<Rightarrow> 'a::len word \<Rightarrow> bytes" where
  "le_bytes 0 w = []"
| "le_bytes (Suc k) w = ucast w # le_bytes k (drop_bit 8 w)"

fun le_word :: "bytes \<Rightarrow> 'a::len word" where
  "le_word [] = 0"
| "le_word (b # bs) = ucast b OR push_bit 8 (le_word bs)"

lemma length_le_bytes [simp]: "length (le_bytes k w) = k"
  by (induction k arbitrary: w) simp_all

lemma le_word_le_bytes: "le_word (le_bytes k w) = take_bit (8 * k) w"
proof (induction k arbitrary: w)
  case 0
  then show ?case by simp
next
  case (Suc k)
  show ?case
    by (rule bit_word_eqI) (auto simp: Suc bit_simps dest: bit_imp_le_length)
qed

lemma le_word_32 [simp]: "le_word (le_bytes 4 (w :: 32 word)) = w"
  by (simp add: le_word_le_bytes take_bit_word_eq_self)

lemma le_word_64 [simp]: "le_word (le_bytes 8 (w :: 64 word)) = w"
  by (simp add: le_word_le_bytes take_bit_word_eq_self)

section \<open>Writing at an offset\<close>

text \<open>\<open>PutUint32\<close> and \<open>PutUint64\<close> panic where the bytes do not fit; \<open>copy\<close> copies what fits, and
  slicing at an offset past the end panics.\<close>

definition put_bytes :: "bytes \<Rightarrow> bytes \<times> nat \<Rightarrow> (bytes \<times> nat) option" where
  "put_bytes bs s = (case s of (data, off) \<Rightarrow>
     if off + length bs \<le> length data
     then Some (take off data @ bs @ drop (off + length bs) data, off + length bs) else None)"

definition copy_bytes :: "bytes \<Rightarrow> bytes \<times> nat \<Rightarrow> (bytes \<times> nat) option" where
  "copy_bytes bs s = (case s of (data, off) \<Rightarrow>
     if off \<le> length data
     then Some (take off data @ take (length data - off) bs @ drop (off + length bs) data, off + length bs)
     else None)"

definition put_block :: "bytes \<Rightarrow> bytes \<times> nat \<Rightarrow> (bytes \<times> nat) option" where
  "put_block bs s = do { s \<leftarrow> put_bytes (le_bytes 4 (of_nat (length bs) :: 32 word)) s; copy_bytes bs s }"

fun put_headers :: "message_header list \<Rightarrow> bytes \<times> nat \<Rightarrow> (bytes \<times> nat) option" where
  "put_headers [] s = Some s"
| "put_headers (h # hs) s =
     do { s \<leftarrow> put_block (hdr_key h) s; s \<leftarrow> put_block (hdr_value h) s; put_headers hs s }"

definition sm_size :: "sm_message \<Rightarrow> nat" where
  "sm_size m =
     4 + length (msg_topic m) + 4 + length (msg_key m) + 4 + length (msg_value m) + 4 + 8 + 8 + 4
     + (\<Sum>h \<leftarrow> msg_headers m. 4 + length (hdr_key h) + 4 + length (hdr_value h))"

definition serializeMessage :: "sm_message \<Rightarrow> bytes option" where
  "serializeMessage m =
     do { let data = replicate (sm_size m) 0
          in do {
          s \<leftarrow> put_block (msg_topic m) (data, 0);
          s \<leftarrow> put_block (msg_key m) s;
          s \<leftarrow> put_block (msg_value m) s;
          s \<leftarrow> put_bytes (le_bytes 4 (msg_partition m)) s;
          s \<leftarrow> put_bytes (le_bytes 8 (msg_offset m)) s;
          s \<leftarrow> put_bytes (le_bytes 8 (msg_timestamp m)) s;
          s \<leftarrow> put_bytes (le_bytes 4 (of_nat (length (msg_headers m)) :: 32 word)) s;
          s \<leftarrow> put_headers (msg_headers m) s;
          Some (fst s) } }"

section \<open>Reading at an offset\<close>

definition get_word :: "nat \<Rightarrow> bytes \<Rightarrow> nat \<Rightarrow> ('a::len word \<times> nat) option" where
  "get_word k data off =
     (if off + k \<le> length data then Some (le_word (take k (drop off data)), off + k) else None)"

definition get_slice :: "32 word \<Rightarrow> bytes \<Rightarrow> nat \<Rightarrow> (bytes \<times> nat) option" where
  "get_slice n data off =
     (if off + unat n \<le> length data then Some (take (unat n) (drop off data), off + unat n) else None)"

definition get_block :: "bytes \<Rightarrow> nat \<Rightarrow> (bytes \<times> nat) option" where
  "get_block data off = do { (n, off) \<leftarrow> get_word 4 data off; get_slice n data off }"

fun get_headers :: "nat \<Rightarrow> bytes \<Rightarrow> nat \<Rightarrow> (message_header list \<times> nat) option" where
  "get_headers 0 data off = Some ([], off)"
| "get_headers (Suc n) data off =
     do { (k, off) \<leftarrow> get_block data off; (v, off) \<leftarrow> get_block data off;
          (hs, off) \<leftarrow> get_headers n data off;
          Some (\<lparr>hdr_key = k, hdr_value = v\<rparr> # hs, off) }"

datatype codec_error = DataTooShort

definition deserializeMessage :: "bytes \<Rightarrow> (codec_error + sm_message) option" where
  "deserializeMessage data =
     (if length data < 24 then Some (Inl DataTooShort)
      else do {
        (topic, off) \<leftarrow> get_block data 0;
        (key, off) \<leftarrow> get_block data off;
        (val, off) \<leftarrow> get_block data off;
        (partition, off) \<leftarrow> get_word 4 data off;
        (msgOffset, off) \<leftarrow> get_word 8 data off;
        (timestamp, off) \<leftarrow> get_word 8 data off;
        (headerCount :: 32 word, off) \<leftarrow> get_word 4 data off;
        (headers, off) \<leftarrow> get_headers (unat headerCount) data off;
        Some (Inr \<lparr>msg_topic = topic, msg_partition = partition, msg_offset = msgOffset, msg_key = key,
          msg_value = val, msg_headers = headers, msg_timestamp = timestamp\<rparr>) })"

section \<open>What is written\<close>

definition block :: "bytes \<Rightarrow> bytes" where
  "block bs = le_bytes 4 (of_nat (length bs) :: 32 word) @ bs"

definition header_bytes :: "message_header \<Rightarrow> bytes" where
  "header_bytes h = block (hdr_key h) @ block (hdr_value h)"

definition message_bytes :: "sm_message \<Rightarrow> bytes" where
  "message_bytes m = block (msg_topic m) @ block (msg_key m) @ block (msg_value m)
     @ le_bytes 4 (msg_partition m) @ le_bytes 8 (msg_offset m) @ le_bytes 8 (msg_timestamp m)
     @ le_bytes 4 (of_nat (length (msg_headers m)) :: 32 word) @ concat (map header_bytes (msg_headers m))"

lemma length_block [simp]: "length (block bs) = 4 + length bs"
  by (simp add: block_def)

lemma length_message_bytes: "length (message_bytes m) = sm_size m"
proof -
  have "length (concat (map header_bytes hs))
    = (\<Sum>h \<leftarrow> hs. 4 + length (hdr_key h) + 4 + length (hdr_value h))" for hs
    by (induction hs) (simp_all add: header_bytes_def)
  then show ?thesis by (simp add: message_bytes_def sm_size_def)
qed

text \<open>The part that is filled and the part that is still to be.\<close>

lemma put_bytes_fill:
  "put_bytes bs (pre @ gap @ post, length pre) = Some ((pre @ bs) @ post, length (pre @ bs))"
  if "length gap = length bs"
  using that by (simp add: put_bytes_def)

lemma copy_bytes_fill:
  "copy_bytes bs (pre @ gap @ post, length pre) = Some ((pre @ bs) @ post, length (pre @ bs))"
  if "length gap = length bs"
  using that by (simp add: copy_bytes_def)

text \<open>A writer that appends the bytes \<open>bs\<close>, given as many zero bytes to fill.\<close>

definition writes :: "(bytes \<times> nat \<Rightarrow> (bytes \<times> nat) option) \<Rightarrow> bytes \<Rightarrow> bool" where
  "writes f bs \<longleftrightarrow> (\<forall>pre n. f (pre @ replicate (length bs + n) 0, length pre)
     = Some ((pre @ bs) @ replicate n 0, length (pre @ bs)))"

lemma writes_put: "writes (put_bytes bs) bs"
  unfolding writes_def
proof (intro allI)
  fix pre :: bytes and n
  show "put_bytes bs (pre @ replicate (length bs + n) 0, length pre)
    = Some ((pre @ bs) @ replicate n 0, length (pre @ bs))"
    unfolding replicate_add by (rule put_bytes_fill) simp
qed

lemma writes_copy: "writes (copy_bytes bs) bs"
  unfolding writes_def
proof (intro allI)
  fix pre :: bytes and n
  show "copy_bytes bs (pre @ replicate (length bs + n) 0, length pre)
    = Some ((pre @ bs) @ replicate n 0, length (pre @ bs))"
    unfolding replicate_add by (rule copy_bytes_fill) simp
qed

lemma writes_seq:
  assumes "writes f as" and "writes g bs"
  shows "writes (\<lambda>s. f s \<bind> g) (as @ bs)"
  unfolding writes_def
proof (intro allI)
  fix pre :: bytes and n
  have "f (pre @ replicate (length (as @ bs) + n) 0, length pre)
    = Some ((pre @ as) @ replicate (length bs + n) 0, length (pre @ as))"
    using assms(1) by (simp add: writes_def add.assoc del: append_assoc)
  moreover have "g ((pre @ as) @ replicate (length bs + n) 0, length (pre @ as))
    = Some (((pre @ as) @ bs) @ replicate n 0, length ((pre @ as) @ bs))"
    using assms(2) unfolding writes_def by blast
  ultimately show "f (pre @ replicate (length (as @ bs) + n) 0, length pre) \<bind> g
    = Some ((pre @ as @ bs) @ replicate n 0, length (pre @ as @ bs))" by simp
qed

lemma writes_block: "writes (put_block bs) (block bs)"
  unfolding put_block_def block_def by (rule writes_seq [OF writes_put writes_copy])

lemma writes_headers: "writes (put_headers hs) (concat (map header_bytes hs))"
proof (induction hs)
  case Nil
  then show ?case by (simp add: writes_def)
next
  case (Cons h hs)
  have "writes (\<lambda>s. put_block (hdr_key h) s \<bind> (\<lambda>s. put_block (hdr_value h) s \<bind> put_headers hs))
    (block (hdr_key h) @ block (hdr_value h) @ concat (map header_bytes hs))"
    by (intro writes_seq writes_block Cons)
  then show ?case by (simp add: header_bytes_def [of h])
qed

lemma serialize_bytes: "serializeMessage m = Some (message_bytes m)"
proof -
  let ?f = "\<lambda>s. put_block (msg_topic m) s \<bind> (\<lambda>s. put_block (msg_key m) s \<bind> (\<lambda>s. put_block (msg_value m) s
    \<bind> (\<lambda>s. put_bytes (le_bytes 4 (msg_partition m)) s \<bind> (\<lambda>s. put_bytes (le_bytes 8 (msg_offset m)) s
    \<bind> (\<lambda>s. put_bytes (le_bytes 8 (msg_timestamp m)) s
    \<bind> (\<lambda>s. put_bytes (le_bytes 4 (of_nat (length (msg_headers m)) :: 32 word)) s \<bind> put_headers (msg_headers m)))))))"
  have "writes ?f (message_bytes m)"
    unfolding message_bytes_def by (intro writes_seq writes_block writes_put writes_headers)
  then have "\<And>pre n. ?f (pre @ replicate (length (message_bytes m) + n) 0, length pre)
    = Some ((pre @ message_bytes m) @ replicate n 0, length (pre @ message_bytes m))"
    unfolding writes_def by blast
  from this [of "[]" 0] have "?f (replicate (sm_size m) 0, 0) = Some (message_bytes m, sm_size m)"
    by (simp add: length_message_bytes)
  moreover have "serializeMessage m = ?f (replicate (sm_size m) 0, 0) \<bind> (\<lambda>s. Some (fst s))"
    by (simp add: serializeMessage_def Option.bind_assoc)
  ultimately show ?thesis by simp
qed

section \<open>What is read\<close>

lemma get_word_at:
  "get_word k (pre @ le_bytes k w @ post) (length pre) = Some (le_word (le_bytes k w) :: 'a word, length pre + k)"
  for w :: "'a::len word"
  by (simp add: get_word_def)

definition small_bytes :: "bytes \<Rightarrow> bool" where
  "small_bytes bs \<longleftrightarrow> length bs < 2 ^ 32"

lemma get_block_at:
  assumes "small_bytes bs"
  shows "get_block (pre @ block bs @ post) (length pre) = Some (bs, length pre + length (block bs))"
proof -
  have "get_word 4 (pre @ le_bytes 4 (of_nat (length bs) :: 32 word) @ (bs @ post)) (length pre)
    = Some (of_nat (length bs) :: 32 word, length pre + 4)" unfolding get_word_at by simp
  moreover have "unat (of_nat (length bs) :: 32 word) = length bs"
    using assms by (simp add: unat_of_nat small_bytes_def)
  ultimately show ?thesis
    by (simp add: get_block_def block_def get_slice_def)
qed

definition small_header :: "message_header \<Rightarrow> bool" where
  "small_header h \<longleftrightarrow> small_bytes (hdr_key h) \<and> small_bytes (hdr_value h)"

lemma get_headers_at:
  assumes "\<forall>h \<in> set hs. small_header h"
  shows "get_headers (length hs) (pre @ concat (map header_bytes hs) @ post) (length pre)
    = Some (hs, length (pre @ concat (map header_bytes hs)))"
  using assms
proof (induction hs arbitrary: pre)
  case Nil
  then show ?case by simp
next
  case (Cons h hs)
  let ?data = "pre @ concat (map header_bytes (h # hs)) @ post"
  let ?pre = "pre @ header_bytes h"
  have h: "small_bytes (hdr_key h)" "small_bytes (hdr_value h)" using Cons.prems by (simp_all add: small_header_def)
  have "get_block ?data (length pre) = Some (hdr_key h, length (pre @ block (hdr_key h)))"
    using get_block_at [OF h(1), of pre "block (hdr_value h) @ concat (map header_bytes hs) @ post"]
    by (simp add: header_bytes_def [of h])
  moreover have "get_block ?data (length (pre @ block (hdr_key h))) = Some (hdr_value h, length ?pre)"
    using get_block_at [OF h(2), of "pre @ block (hdr_key h)" "concat (map header_bytes hs) @ post"]
    by (simp add: header_bytes_def [of h])
  moreover have "get_headers (length hs) ?data (length ?pre)
    = Some (hs, length (?pre @ concat (map header_bytes hs)))"
    using Cons.IH [of ?pre] Cons.prems by simp
  ultimately show ?case by simp
qed

text \<open>A message whose parts are shorter than four gigabytes, as every slot is.\<close>

definition small_message :: "sm_message \<Rightarrow> bool" where
  "small_message m \<longleftrightarrow> small_bytes (msg_topic m) \<and> small_bytes (msg_key m) \<and> small_bytes (msg_value m)
     \<and> length (msg_headers m) < 2 ^ 32 \<and> (\<forall>h \<in> set (msg_headers m). small_header h)"

lemma deserialize_bytes:
  assumes "small_message m"
  shows "deserializeMessage (message_bytes m) = Some (Inr m)"
proof -
  let ?d = "message_bytes m"
  let ?t = "block (msg_topic m)" and ?k = "block (msg_key m)" and ?v = "block (msg_value m)"
  let ?p = "le_bytes 4 (msg_partition m)" and ?o = "le_bytes 8 (msg_offset m)"
    and ?s = "le_bytes 8 (msg_timestamp m)"
    and ?n = "le_bytes 4 (of_nat (length (msg_headers m)) :: 32 word)"
  let ?h = "concat (map header_bytes (msg_headers m))"
  note m = assms [unfolded small_message_def]
  have 1: "get_block ?d 0 = Some (msg_topic m, length ?t)"
    using get_block_at [of "msg_topic m" "[]" "?k @ ?v @ ?p @ ?o @ ?s @ ?n @ ?h"] m
    by (simp add: message_bytes_def)
  have 2: "get_block ?d (length ?t) = Some (msg_key m, length (?t @ ?k))"
    using get_block_at [of "msg_key m" ?t "?v @ ?p @ ?o @ ?s @ ?n @ ?h"] m
    by (simp add: message_bytes_def)
  have 3: "get_block ?d (length (?t @ ?k)) = Some (msg_value m, length (?t @ ?k @ ?v))"
    using get_block_at [of "msg_value m" "?t @ ?k" "?p @ ?o @ ?s @ ?n @ ?h"] m
    by (simp add: message_bytes_def)
  have 4: "get_word 4 ?d (length (?t @ ?k @ ?v)) = Some (msg_partition m, length (?t @ ?k @ ?v @ ?p))"
    using get_word_at [of 4 "?t @ ?k @ ?v" "msg_partition m" "?o @ ?s @ ?n @ ?h"]
    by (simp add: message_bytes_def)
  have 5: "get_word 8 ?d (length (?t @ ?k @ ?v @ ?p)) = Some (msg_offset m, length (?t @ ?k @ ?v @ ?p @ ?o))"
    using get_word_at [of 8 "?t @ ?k @ ?v @ ?p" "msg_offset m" "?s @ ?n @ ?h"]
    by (simp add: message_bytes_def)
  have 6: "get_word 8 ?d (length (?t @ ?k @ ?v @ ?p @ ?o))
      = Some (msg_timestamp m, length (?t @ ?k @ ?v @ ?p @ ?o @ ?s))"
    using get_word_at [of 8 "?t @ ?k @ ?v @ ?p @ ?o" "msg_timestamp m" "?n @ ?h"]
    by (simp add: message_bytes_def)
  have 7: "get_word 4 ?d (length (?t @ ?k @ ?v @ ?p @ ?o @ ?s))
      = Some (of_nat (length (msg_headers m)) :: 32 word, length (?t @ ?k @ ?v @ ?p @ ?o @ ?s @ ?n))"
    using get_word_at [of 4 "?t @ ?k @ ?v @ ?p @ ?o @ ?s" "of_nat (length (msg_headers m)) :: 32 word" ?h]
    by (simp add: message_bytes_def)
  have 8: "get_headers (length (msg_headers m)) ?d (length (?t @ ?k @ ?v @ ?p @ ?o @ ?s @ ?n))
      = Some (msg_headers m, length ?d)"
    using get_headers_at [of "msg_headers m" "?t @ ?k @ ?v @ ?p @ ?o @ ?s @ ?n" "[]"] m
    by (simp add: message_bytes_def)
  have "unat (of_nat (length (msg_headers m)) :: 32 word) = length (msg_headers m)"
    using m by (simp add: unat_of_nat)
  moreover have "\<not> length ?d < 24" by (simp add: length_message_bytes sm_size_def)
  ultimately show ?thesis
    by (simp add: deserializeMessage_def 1 2 3 4 5 6 7 8 del: length_append length_block)
qed

section \<open>Properties\<close>

text \<open>C12: a message survives the shared memory: serializing never panics, fills exactly the bytes it
  allocated, and deserializing them gives the message back.\<close>

theorem Message_round_trip:
  assumes "small_message m"
  shows "\<exists>data. serializeMessage m = Some data \<and> length data = sm_size m
    \<and> deserializeMessage data = Some (Inr m)"
  using assms by (simp add: serialize_bytes length_message_bytes deserialize_bytes)

theorem Message_round_trip_witness:
  "\<exists>data. serializeMessage \<lparr>msg_topic = [116], msg_partition = 3, msg_offset = 7, msg_key = [], msg_value = [1, 2],
      msg_headers = [\<lparr>hdr_key = [9], hdr_value = []\<rparr>], msg_timestamp = 5\<rparr> = Some data
    \<and> length data = 48
    \<and> deserializeMessage data = Some (Inr \<lparr>msg_topic = [116], msg_partition = 3, msg_offset = 7, msg_key = [],
      msg_value = [1, 2], msg_headers = [\<lparr>hdr_key = [9], hdr_value = []\<rparr>], msg_timestamp = 5\<rparr>)"
  using Message_round_trip [of "\<lparr>msg_topic = [116], msg_partition = 3, msg_offset = 7, msg_key = [], msg_value = [1, 2],
      msg_headers = [\<lparr>hdr_key = [9], hdr_value = []\<rparr>], msg_timestamp = 5\<rparr>"]
  by (simp add: small_message_def small_bytes_def small_header_def sm_size_def)

text \<open>The length that \<open>deserializeMessage\<close> asks for is shorter than any message, so that data of that
  length can still run past its end.\<close>

lemma deserialize_panics: "deserializeMessage (replicate 24 0) = None"
  by (simp add: deserializeMessage_def get_block_def get_word_def get_slice_def numeral_eq_Suc)

end
