(* ===== verification/RingBuffer.thy ===== *)
theory RingBuffer
  imports MessageCodec
begin

text \<open>
  \<open>messages/msg_shared_memory.go\<close>: the ring buffer in shared memory. Any number of threads of any
  number of processes write and read; each atomic access to the header or to a slot's flag is one
  step, and the plain copies into and out of a slot, which its owner makes alone, are one step each.
  The program counters are the places between those accesses. The indices are \<open>uint64\<close> and wrap. The
  length field of a slot has 32 bits, and a read takes as many bytes of the data as it says:
  \<open>slot_payload\<close> is what a slot holds for its readers.

  Two fields are not in the code: the messages by the index they were written under, and the indices
  and messages that reads have returned.
\<close>

datatype slot_flag = SlotEmpty | SlotWriting | SlotReady | SlotReading

datatype ring_error = ErrSharedMemoryFull | ErrSharedMemoryClosed | ErrMessageTooLarge | ErrSharedMemoryEmpty

definition headerSize :: nat where "headerSize = 64"
definition slotHeaderSize :: nat where "slotHeaderSize = 48"

definition slot_payload :: "bytes \<Rightarrow> bytes" where
  "slot_payload m = take (unat (word_of_nat (length m) :: 32 word)) m"

definition next_index :: "nat \<Rightarrow> nat" where
  "next_index idx = (idx + 1) mod 2 ^ 64"

lemma slot_payload_length: "length (slot_payload m) \<le> length m"
  by (simp add: slot_payload_def)

lemma slot_payload_small: "length m < 2 ^ 32 \<Longrightarrow> slot_payload m = m"
  by (simp add: slot_payload_def unat_of_nat take_bit_nat_eq_self)

lemma next_index_Suc: "Suc idx < 2 ^ 64 \<Longrightarrow> next_index idx = Suc idx"
  by (simp add: next_index_def)

datatype pc =
    Idle
  | W_Closed bytes | W_Size bytes | W_Loop bytes | W_Load bytes | W_Flag bytes nat | W_Claim bytes nat
  | W_Advance bytes nat | W_Release bytes nat | W_Copy bytes nat | W_Ready bytes nat | W_Count
  | W_Done "ring_error option"
  | R_Closed | R_ClosedCount | R_Load | R_Flag nat | R_NotReady | R_Claim nat | R_Advance nat
  | R_Restore nat | R_Copy nat | R_Abort | R_Clear nat bytes | R_Count bytes
  | R_Done "ring_error + bytes"

record ring =
  rg_slotSize :: nat
  rg_slotCount :: nat
  rg_writeIndex :: nat
  rg_readIndex :: nat
  rg_messageCount :: "64 word"
  rg_closed :: bool
  rg_flag :: "nat \<Rightarrow> slot_flag"
  rg_slot :: "nat \<Rightarrow> bytes"
  rg_pc :: "nat \<Rightarrow> pc"
  rg_written :: "bytes list"
  rg_returned :: "(nat \<times> bytes) list"

definition NewSharedMemoryRingBuffer :: "int \<Rightarrow> int \<Rightarrow> ring" where
  "NewSharedMemoryRingBuffer slotSize slotCount =
     \<lparr>rg_slotSize = nat (if slotSize \<le> 0 then 4096 else slotSize),
      rg_slotCount = nat (if slotCount \<le> 0 then 1024 else slotCount),
      rg_writeIndex = 0, rg_readIndex = 0, rg_messageCount = 0, rg_closed = False,
      rg_flag = (\<lambda>_. SlotEmpty), rg_slot = (\<lambda>_. []), rg_pc = (\<lambda>_. Idle), rg_written = [], rg_returned = []\<rparr>"

definition rg_totalSize :: "ring \<Rightarrow> nat" where
  "rg_totalSize rb = headerSize + rg_slotSize rb * rg_slotCount rb"

definition rg_slotOffset :: "ring \<Rightarrow> nat \<Rightarrow> nat" where
  "rg_slotOffset rb index = headerSize + index * rg_slotSize rb"

definition rg_Size :: "ring \<Rightarrow> 64 word" where
  "rg_Size rb = rg_messageCount rb"

definition rg_IsFull :: "ring \<Rightarrow> bool" where
  "rg_IsFull rb \<longleftrightarrow> rg_messageCount rb \<ge> of_nat (rg_slotCount rb)"

definition rg_IsEmpty :: "ring \<Rightarrow> bool" where
  "rg_IsEmpty rb \<longleftrightarrow> rg_messageCount rb = 0"

abbreviation goto :: "nat \<Rightarrow> pc \<Rightarrow> ring \<Rightarrow> ring" where
  "goto t p rb \<equiv> rb\<lparr>rg_pc := (rg_pc rb)(t := p)\<rparr>"

abbreviation set_flag :: "nat \<Rightarrow> slot_flag \<Rightarrow> ring \<Rightarrow> ring" where
  "set_flag s f rb \<equiv> rb\<lparr>rg_flag := (rg_flag rb)(s := f)\<rparr>"

text \<open>One step of a thread inside \<open>Write\<close>.\<close>

definition rg_Write_step :: "nat \<Rightarrow> pc \<Rightarrow> ring \<Rightarrow> ring" where
  "rg_Write_step t p rb =
     (case p of
        W_Closed m \<Rightarrow> goto t (if rg_closed rb then W_Done (Some ErrSharedMemoryClosed) else W_Size m) rb
      | W_Size m \<Rightarrow> goto t (if length m + slotHeaderSize > rg_slotSize rb
                           then W_Done (Some ErrMessageTooLarge) else W_Loop m) rb
      | W_Loop m \<Rightarrow> goto t (if rg_closed rb then W_Done (Some ErrSharedMemoryClosed) else W_Load m) rb
      | W_Load m \<Rightarrow> goto t (W_Flag m (rg_writeIndex rb)) rb
      | W_Flag m idx \<Rightarrow>
          goto t (if rg_flag rb (idx mod rg_slotCount rb) \<noteq> SlotEmpty
                  then W_Done (Some ErrSharedMemoryFull) else W_Claim m idx) rb
      | W_Claim m idx \<Rightarrow>
          (let s = idx mod rg_slotCount rb
           in if rg_flag rb s = SlotEmpty then goto t (W_Advance m idx) (set_flag s SlotWriting rb)
              else goto t (W_Loop m) rb)
      | W_Advance m idx \<Rightarrow>
          if rg_writeIndex rb = idx
          then goto t (W_Copy m idx) (rb\<lparr>rg_writeIndex := next_index idx, rg_written := rg_written rb @ [m]\<rparr>)
          else goto t (W_Release m idx) rb
      | W_Release m idx \<Rightarrow> goto t (W_Loop m) (set_flag (idx mod rg_slotCount rb) SlotEmpty rb)
      | W_Copy m idx \<Rightarrow>
          (let s = idx mod rg_slotCount rb
           in if rg_slotOffset rb s + slotHeaderSize + length m > rg_totalSize rb
              then goto t (W_Done (Some ErrMessageTooLarge)) (set_flag s SlotEmpty rb)
              else goto t (W_Ready m idx) (rb\<lparr>rg_slot := (rg_slot rb)(s := slot_payload m)\<rparr>))
      | W_Ready m idx \<Rightarrow> goto t W_Count (set_flag (idx mod rg_slotCount rb) SlotReady rb)
      | W_Count \<Rightarrow> goto t (W_Done None) (rb\<lparr>rg_messageCount := rg_messageCount rb + 1\<rparr>)
      | _ \<Rightarrow> rb)"

text \<open>One step of a thread inside \<open>Read\<close>.\<close>

definition rg_Read_step :: "nat \<Rightarrow> pc \<Rightarrow> ring \<Rightarrow> ring" where
  "rg_Read_step t p rb =
     (case p of
        R_Closed \<Rightarrow> goto t (if rg_closed rb then R_ClosedCount else R_Load) rb
      | R_ClosedCount \<Rightarrow>
          goto t (if rg_messageCount rb = 0 then R_Done (Inl ErrSharedMemoryClosed) else R_Load) rb
      | R_Load \<Rightarrow> goto t (R_Flag (rg_readIndex rb)) rb
      | R_Flag idx \<Rightarrow>
          goto t (if rg_flag rb (idx mod rg_slotCount rb) \<noteq> SlotReady then R_NotReady else R_Claim idx) rb
      | R_NotReady \<Rightarrow>
          goto t (R_Done (Inl (if rg_closed rb then ErrSharedMemoryClosed else ErrSharedMemoryEmpty))) rb
      | R_Claim idx \<Rightarrow>
          (let s = idx mod rg_slotCount rb
           in if rg_flag rb s = SlotReady then goto t (R_Advance idx) (set_flag s SlotReading rb)
              else goto t R_Load rb)
      | R_Advance idx \<Rightarrow>
          if rg_readIndex rb = idx
          then goto t (R_Copy idx) (rb\<lparr>rg_readIndex := next_index idx\<rparr>)
          else goto t (R_Restore idx) rb
      | R_Restore idx \<Rightarrow> goto t R_Load (set_flag (idx mod rg_slotCount rb) SlotReady rb)
      | R_Copy idx \<Rightarrow>
          (let s = idx mod rg_slotCount rb
           in if rg_slotOffset rb s + slotHeaderSize > rg_totalSize rb
              then goto t (R_Done (Inl ErrSharedMemoryEmpty)) (set_flag s SlotEmpty rb)
              else if rg_slotOffset rb s + slotHeaderSize + length (rg_slot rb s) > rg_totalSize rb
              then goto t R_Abort (set_flag s SlotEmpty rb)
              else goto t (R_Clear idx (rg_slot rb s)) rb)
      | R_Abort \<Rightarrow> goto t (R_Done (Inl ErrSharedMemoryEmpty)) (rb\<lparr>rg_messageCount := rg_messageCount rb - 1\<rparr>)
      | R_Clear idx m \<Rightarrow>
          goto t (R_Count m) (set_flag (idx mod rg_slotCount rb) SlotEmpty
            (rb\<lparr>rg_returned := rg_returned rb @ [(idx, m)]\<rparr>))
      | R_Count m \<Rightarrow> goto t (R_Done (Inr m)) (rb\<lparr>rg_messageCount := rg_messageCount rb - 1\<rparr>)
      | _ \<Rightarrow> rb)"

definition rg_next :: "nat \<Rightarrow> ring \<Rightarrow> ring" where
  "rg_next t rb = rg_Write_step t (rg_pc rb t) (rg_Read_step t (rg_pc rb t) rb)"

fun at_rest :: "pc \<Rightarrow> bool" where
  "at_rest Idle = True"
| "at_rest (W_Done _) = True"
| "at_rest (R_Done _) = True"
| "at_rest _ = False"

text \<open>A thread at rest may call \<open>Write\<close> or \<open>Read\<close>; any thread may take its next step; any process
  may close the buffer.\<close>

inductive rg_step :: "ring \<Rightarrow> ring \<Rightarrow> bool" where
  start_Write: "at_rest (rg_pc rb t) \<Longrightarrow> rg_step rb (goto t (W_Closed m) rb)"
| start_Read: "at_rest (rg_pc rb t) \<Longrightarrow> rg_step rb (goto t R_Closed rb)"
| step_thread: "rg_step rb (rg_next t rb)"
| close_buffer: "rg_step rb (rb\<lparr>rg_closed := True\<rparr>)"

inductive rg_reach :: "ring \<Rightarrow> ring \<Rightarrow> bool" for rb0 where
  reach_refl: "rg_reach rb0 rb0"
| reach_step: "rg_reach rb0 rb \<Longrightarrow> rg_step rb rb' \<Longrightarrow> rg_reach rb0 rb'"

section \<open>The window of live indices\<close>

definition live :: "ring \<Rightarrow> nat \<Rightarrow> bool" where
  "live rb s \<longleftrightarrow> (\<exists>i. rg_readIndex rb \<le> i \<and> i < rg_writeIndex rb \<and> i mod rg_slotCount rb = s)"

lemma live_simps [simp]:
  "live (rb\<lparr>rg_pc := a\<rparr>) = live rb" "live (rb\<lparr>rg_flag := b\<rparr>) = live rb"
  "live (rb\<lparr>rg_slot := c\<rparr>) = live rb" "live (rb\<lparr>rg_messageCount := d\<rparr>) = live rb"
  "live (rb\<lparr>rg_closed := e\<rparr>) = live rb" "live (rb\<lparr>rg_returned := g\<rparr>) = live rb"
  "live (rb\<lparr>rg_written := h\<rparr>) = live rb"
  by (simp_all add: live_def fun_eq_iff)

definition fits :: "ring \<Rightarrow> bytes \<Rightarrow> bool" where
  "fits rb m \<longleftrightarrow> length m + slotHeaderSize \<le> rg_slotSize rb"

text \<open>The slot that a thread owns, and what its place promises.\<close>

fun own :: "nat \<Rightarrow> pc \<Rightarrow> nat option" where
  "own n (W_Advance m idx) = Some (idx mod n)"
| "own n (W_Release m idx) = Some (idx mod n)"
| "own n (W_Copy m idx) = Some (idx mod n)"
| "own n (W_Ready m idx) = Some (idx mod n)"
| "own n (R_Advance idx) = Some (idx mod n)"
| "own n (R_Restore idx) = Some (idx mod n)"
| "own n (R_Copy idx) = Some (idx mod n)"
| "own n (R_Clear idx m) = Some (idx mod n)"
| "own n _ = None"

fun pc_ok :: "ring \<Rightarrow> pc \<Rightarrow> bool" where
  "pc_ok rb (W_Loop m) \<longleftrightarrow> fits rb m"
| "pc_ok rb (W_Load m) \<longleftrightarrow> fits rb m"
| "pc_ok rb (W_Flag m idx) \<longleftrightarrow> fits rb m"
| "pc_ok rb (W_Claim m idx) \<longleftrightarrow> fits rb m"
| "pc_ok rb (W_Advance m idx) \<longleftrightarrow> fits rb m
     \<and> rg_flag rb (idx mod rg_slotCount rb) = SlotWriting \<and> \<not> live rb (idx mod rg_slotCount rb)"
| "pc_ok rb (W_Release m idx) \<longleftrightarrow> fits rb m
     \<and> rg_flag rb (idx mod rg_slotCount rb) = SlotWriting \<and> \<not> live rb (idx mod rg_slotCount rb)"
| "pc_ok rb (W_Copy m idx) \<longleftrightarrow> fits rb m
     \<and> rg_flag rb (idx mod rg_slotCount rb) = SlotWriting
     \<and> rg_readIndex rb \<le> idx \<and> idx < rg_writeIndex rb \<and> rg_written rb ! idx = m"
| "pc_ok rb (W_Ready m idx) \<longleftrightarrow> fits rb m
     \<and> rg_flag rb (idx mod rg_slotCount rb) = SlotWriting
     \<and> rg_readIndex rb \<le> idx \<and> idx < rg_writeIndex rb \<and> rg_written rb ! idx = m
     \<and> rg_slot rb (idx mod rg_slotCount rb) = slot_payload m"
| "pc_ok rb (R_Advance idx) \<longleftrightarrow>
     rg_flag rb (idx mod rg_slotCount rb) = SlotReading \<and> live rb (idx mod rg_slotCount rb)"
| "pc_ok rb (R_Restore idx) \<longleftrightarrow>
     rg_flag rb (idx mod rg_slotCount rb) = SlotReading \<and> live rb (idx mod rg_slotCount rb)"
| "pc_ok rb (R_Copy idx) \<longleftrightarrow>
     rg_flag rb (idx mod rg_slotCount rb) = SlotReading \<and> \<not> live rb (idx mod rg_slotCount rb)
     \<and> idx < rg_readIndex rb \<and> rg_slot rb (idx mod rg_slotCount rb) = slot_payload (rg_written rb ! idx)
     \<and> idx \<notin> fst ` set (rg_returned rb)"
| "pc_ok rb (R_Clear idx m) \<longleftrightarrow>
     rg_flag rb (idx mod rg_slotCount rb) = SlotReading \<and> \<not> live rb (idx mod rg_slotCount rb)
     \<and> idx < rg_readIndex rb \<and> m = slot_payload (rg_written rb ! idx) \<and> idx \<notin> fst ` set (rg_returned rb)"
| "pc_ok rb _ \<longleftrightarrow> True"

fun reading :: "nat \<Rightarrow> pc \<Rightarrow> bool" where
  "reading i (R_Copy idx) \<longleftrightarrow> i = idx"
| "reading i (R_Clear idx m) \<longleftrightarrow> i = idx"
| "reading i _ \<longleftrightarrow> False"

text \<open>The state of the memory, apart from the threads.\<close>

definition memory_ok :: "ring \<Rightarrow> bool" where
  "memory_ok rb \<longleftrightarrow>
     0 < rg_slotCount rb
     \<and> rg_readIndex rb \<le> rg_writeIndex rb \<and> rg_writeIndex rb \<le> rg_readIndex rb + rg_slotCount rb
     \<and> length (rg_written rb) = rg_writeIndex rb \<and> (\<forall>m \<in> set (rg_written rb). fits rb m)
     \<and> (\<forall>s < rg_slotCount rb. (rg_flag rb s = SlotReady \<longrightarrow> live rb s) \<and> (rg_flag rb s = SlotEmpty \<longrightarrow> \<not> live rb s))
     \<and> (\<forall>i. rg_readIndex rb \<le> i \<and> i < rg_writeIndex rb \<and> rg_flag rb (i mod rg_slotCount rb) \<noteq> SlotWriting
          \<longrightarrow> rg_slot rb (i mod rg_slotCount rb) = slot_payload (rg_written rb ! i))
     \<and> distinct (map fst (rg_returned rb))
     \<and> (\<forall>(i, m) \<in> set (rg_returned rb). i < rg_readIndex rb \<and> m = slot_payload (rg_written rb ! i))"

text \<open>A slot that is being written or read has an owner.\<close>

definition busy :: "slot_flag \<Rightarrow> bool" where
  "busy f \<longleftrightarrow> f = SlotWriting \<or> f = SlotReading"

lemma busy_simps [simp]: "busy SlotWriting" "busy SlotReading" "\<not> busy SlotReady" "\<not> busy SlotEmpty"
  by (simp_all add: busy_def)

definition ring_ok :: "ring \<Rightarrow> bool" where
  "ring_ok rb \<longleftrightarrow> memory_ok rb
     \<and> (\<forall>t. pc_ok rb (rg_pc rb t))
     \<and> (\<forall>t u s. own (rg_slotCount rb) (rg_pc rb t) = Some s \<and> own (rg_slotCount rb) (rg_pc rb u) = Some s \<longrightarrow> t = u)
     \<and> (\<forall>s < rg_slotCount rb. busy (rg_flag rb s) \<longrightarrow> (\<exists>t. own (rg_slotCount rb) (rg_pc rb t) = Some s))
     \<and> (\<forall>i < rg_readIndex rb. i \<in> fst ` set (rg_returned rb) \<or> (\<exists>t. reading i (rg_pc rb t)))"

section \<open>One thread moves\<close>

lemma ring_okD:
  assumes "ring_ok rb"
  shows "memory_ok rb" and "pc_ok rb (rg_pc rb t)"
    and "own (rg_slotCount rb) (rg_pc rb t) = Some s \<Longrightarrow> own (rg_slotCount rb) (rg_pc rb u) = Some s \<Longrightarrow> u = t"
    and "i < rg_readIndex rb \<Longrightarrow> i \<notin> fst ` set (rg_returned rb) \<Longrightarrow> \<exists>t. reading i (rg_pc rb t)"
    and "s < rg_slotCount rb \<Longrightarrow> busy (rg_flag rb s) \<Longrightarrow> \<exists>t. own (rg_slotCount rb) (rg_pc rb t) = Some s"
  using assms by (auto simp: ring_ok_def)

lemma reading_other:
  assumes "ring_ok rb" and "i < rg_readIndex rb" and "\<not> reading i (rg_pc rb t)"
  shows "i \<in> fst ` set (rg_returned rb) \<or> (\<exists>u. u \<noteq> t \<and> reading i (rg_pc rb u))"
  using ring_okD(4) [OF assms(1,2)] assms(3) by metis

lemma ring_ok_move:
  assumes ok: "ring_ok rb" and mem: "memory_ok rb'"
    and n: "rg_slotCount rb' = rg_slotCount rb" and pc: "rg_pc rb' = (rg_pc rb)(t := p)"
    and p: "pc_ok rb' p" and others: "\<And>u. u \<noteq> t \<Longrightarrow> pc_ok rb' (rg_pc rb u)"
    and own: "\<And>s u. own (rg_slotCount rb) p = Some s \<Longrightarrow> u \<noteq> t \<Longrightarrow> own (rg_slotCount rb) (rg_pc rb u) \<noteq> Some s"
    and fl: "\<And>s. s < rg_slotCount rb \<Longrightarrow> busy (rg_flag rb' s) \<Longrightarrow> own (rg_slotCount rb) p \<noteq> Some s \<Longrightarrow>
      busy (rg_flag rb s) \<and> own (rg_slotCount rb) (rg_pc rb t) \<noteq> Some s"
    and rd: "\<And>i. i < rg_readIndex rb' \<Longrightarrow>
      i \<in> fst ` set (rg_returned rb') \<or> reading i p \<or> (\<exists>u. u \<noteq> t \<and> reading i (rg_pc rb u))"
  shows "ring_ok rb'"
  unfolding ring_ok_def
proof (intro conjI allI impI)
  show "memory_ok rb'" by (rule mem)
  show "pc_ok rb' (rg_pc rb' u)" for u using p others by (simp add: pc)
  show "u = v" if "own (rg_slotCount rb') (rg_pc rb' u) = Some s \<and> own (rg_slotCount rb') (rg_pc rb' v) = Some s" for u v s
    using that own [of s] ring_okD(3) [OF ok, of v s u] by (auto simp: pc n split: if_splits)
  show "i \<in> fst ` set (rg_returned rb') \<or> (\<exists>u. reading i (rg_pc rb' u))" if "i < rg_readIndex rb'" for i
    using rd [OF that] by (auto simp: pc)
  show "\<exists>u. own (rg_slotCount rb') (rg_pc rb' u) = Some s"
    if "s < rg_slotCount rb'" "busy (rg_flag rb' s)" for s
  proof (cases "own (rg_slotCount rb) p = Some s")
    case True
    then show ?thesis by (auto simp: pc n)
  next
    case False
    with fl that n have "busy (rg_flag rb s)" "own (rg_slotCount rb) (rg_pc rb t) \<noteq> Some s" by auto
    with ring_okD(5) [OF ok] that(1) n obtain u where
      "own (rg_slotCount rb) (rg_pc rb u) = Some s" "u \<noteq> t" by metis
    then show ?thesis by (auto simp: pc n)
  qed
qed

lemma pc_ok_cong:
  assumes "pc_ok rb q"
    and "\<And>s. own (rg_slotCount rb) q = Some s \<Longrightarrow>
      rg_flag rb' s = rg_flag rb s \<and> rg_slot rb' s = rg_slot rb s \<and> live rb' s = live rb s"
    and "rg_slotCount rb' = rg_slotCount rb" and "rg_slotSize rb' = rg_slotSize rb"
    and "rg_readIndex rb \<le> rg_readIndex rb'" and "rg_writeIndex rb \<le> rg_writeIndex rb'"
    and "rg_readIndex rb \<le> rg_writeIndex rb"
    and "\<And>i. i < rg_writeIndex rb \<Longrightarrow> rg_written rb' ! i = rg_written rb ! i"
    and "\<And>m idx. q = W_Copy m idx \<or> q = W_Ready m idx \<Longrightarrow> rg_readIndex rb' \<le> idx"
    and "\<And>i. reading i q \<Longrightarrow> i \<notin> fst ` set (rg_returned rb) \<Longrightarrow> i \<notin> fst ` set (rg_returned rb')"
  shows "pc_ok rb' q"
  using assms by (cases q) (auto simp: fits_def)

text \<open>A step that changes neither the slots nor the indices.\<close>

lemma memory_ok_cong:
  assumes "memory_ok rb" and "rg_slotSize rb' = rg_slotSize rb" and "rg_slotCount rb' = rg_slotCount rb"
    and "rg_writeIndex rb' = rg_writeIndex rb" and "rg_readIndex rb' = rg_readIndex rb"
    and "rg_flag rb' = rg_flag rb" and "rg_slot rb' = rg_slot rb" and "rg_written rb' = rg_written rb"
    and "rg_returned rb' = rg_returned rb"
  shows "memory_ok rb'"
  using assms by (simp add: memory_ok_def live_def fits_def)

lemma ring_ok_local:
  assumes ok: "ring_ok rb" and "rg_slotSize rb' = rg_slotSize rb" and "rg_slotCount rb' = rg_slotCount rb"
    and "rg_writeIndex rb' = rg_writeIndex rb" and "rg_readIndex rb' = rg_readIndex rb"
    and "rg_flag rb' = rg_flag rb" and "rg_slot rb' = rg_slot rb" and "rg_written rb' = rg_written rb"
    and "rg_returned rb' = rg_returned rb"
    and p: "pc_ok rb p" and own: "own (rg_slotCount rb) p = own (rg_slotCount rb) (rg_pc rb t)"
    and rd: "\<And>i. reading i (rg_pc rb t) \<Longrightarrow> reading i p"
    and pc: "rg_pc rb' = (rg_pc rb)(t := p)"
  shows "ring_ok rb'"
proof (rule ring_ok_move [OF ok, where t = t and p = p])
  note eqs = assms(2-9)
  have *: "pc_ok rb' q = pc_ok rb q" for q
    using eqs by (cases q) (simp_all add: fits_def live_def)
  show "memory_ok rb'" using ring_okD(1) [OF ok] eqs by (rule memory_ok_cong)
  show "rg_slotCount rb' = rg_slotCount rb" "rg_pc rb' = (rg_pc rb)(t := p)" by fact+
  show "pc_ok rb' p" using p by (simp add: *)
  show "pc_ok rb' (rg_pc rb u)" for u using ring_okD(2) [OF ok] by (simp add: *)
  show "own (rg_slotCount rb) (rg_pc rb u) \<noteq> Some s" if "own (rg_slotCount rb) p = Some s" "u \<noteq> t" for s u
    using own that ring_okD(3) [OF ok, of t s u] by auto
  show "busy (rg_flag rb s) \<and> own (rg_slotCount rb) (rg_pc rb t) \<noteq> Some s"
    if "busy (rg_flag rb' s)" "own (rg_slotCount rb) p \<noteq> Some s" for s
    using that own eqs by simp
  show "i \<in> fst ` set (rg_returned rb') \<or> reading i p \<or> (\<exists>u. u \<noteq> t \<and> reading i (rg_pc rb u))"
    if "i < rg_readIndex rb'" for i
    using that rd ring_okD(4) [OF ok, of i] eqs by metis
qed

text \<open>A step that changes the slot \<open>s\<close> alone.\<close>

lemma live_eq:
  "rg_slotCount rb' = rg_slotCount rb \<Longrightarrow> rg_writeIndex rb' = rg_writeIndex rb \<Longrightarrow>
   rg_readIndex rb' = rg_readIndex rb \<Longrightarrow> live rb' = live rb"
  by (rule ext) (simp add: live_def)

lemma memory_okD:
  assumes "memory_ok rb"
  shows "0 < rg_slotCount rb" and "rg_readIndex rb \<le> rg_writeIndex rb"
    and "rg_writeIndex rb \<le> rg_readIndex rb + rg_slotCount rb" and "length (rg_written rb) = rg_writeIndex rb"
    and "s < rg_slotCount rb \<Longrightarrow> rg_flag rb s = SlotReady \<Longrightarrow> live rb s"
    and "s < rg_slotCount rb \<Longrightarrow> rg_flag rb s = SlotEmpty \<Longrightarrow> \<not> live rb s"
    and "rg_readIndex rb \<le> i \<Longrightarrow> i < rg_writeIndex rb \<Longrightarrow> rg_flag rb (i mod rg_slotCount rb) \<noteq> SlotWriting
      \<Longrightarrow> rg_slot rb (i mod rg_slotCount rb) = slot_payload (rg_written rb ! i)"
    and "m \<in> set (rg_written rb) \<Longrightarrow> fits rb m"
  using assms by (auto simp: memory_ok_def)

text \<open>The flag of the slot of \<open>idx\<close> changes to \<open>f\<close>, by a thread that owns it before or afterwards.\<close>

lemma ring_ok_flag:
  assumes ok: "ring_ok rb" and s: "s = idx mod rg_slotCount rb"
    and excl: "\<And>u. u \<noteq> t \<Longrightarrow> own (rg_slotCount rb) (rg_pc rb u) \<noteq> Some s"
    and f: "f = SlotReady \<Longrightarrow> live rb s" "f = SlotEmpty \<Longrightarrow> \<not> live rb s"
    and data: "\<And>i. rg_readIndex rb \<le> i \<Longrightarrow> i < rg_writeIndex rb \<Longrightarrow> i mod rg_slotCount rb = s \<Longrightarrow>
      f \<noteq> SlotWriting \<Longrightarrow> rg_slot rb s = slot_payload (rg_written rb ! i)"
    and p: "pc_ok (set_flag s f rb) p" and own: "own (rg_slotCount rb) p = (if busy f then Some s else None)"
    and own_t: "own (rg_slotCount rb) (rg_pc rb t) \<in> {None, Some s}"
    and rd: "\<And>i. \<not> reading i (rg_pc rb t)"
  shows "ring_ok (goto t p (set_flag s f rb))"
proof (rule ring_ok_move [OF ok, where t = t and p = p])
  let ?rb = "goto t p (set_flag s f rb)"
  note mem = ring_okD(1) [OF ok]
  show "memory_ok ?rb"
    using mem f data by (auto simp: memory_ok_def fits_def)
  show "pc_ok ?rb p" using p by (cases p) (simp_all add: fits_def)
  show "pc_ok ?rb (rg_pc rb u)" if "u \<noteq> t" for u
  proof (rule pc_ok_cong [OF ring_okD(2) [OF ok]])
    show "rg_flag ?rb s' = rg_flag rb s' \<and> rg_slot ?rb s' = rg_slot rb s' \<and> live ?rb s' = live rb s'"
      if "own (rg_slotCount rb) (rg_pc rb u) = Some s'" for s'
      using that excl [OF \<open>u \<noteq> t\<close>] by auto
    show "rg_readIndex ?rb \<le> i" if "rg_pc rb u = W_Copy m i \<or> rg_pc rb u = W_Ready m i" for m i
      using that ring_okD(2) [OF ok, of u] by auto
  qed (use mem in \<open>simp_all add: memory_okD\<close>)
  show "own (rg_slotCount rb) (rg_pc rb u) \<noteq> Some s'" if "own (rg_slotCount rb) p = Some s'" "u \<noteq> t" for s' u
    using own that excl by (auto split: if_splits)
  show "busy (rg_flag rb s') \<and> own (rg_slotCount rb) (rg_pc rb t) \<noteq> Some s'"
    if "busy (rg_flag ?rb s')" "own (rg_slotCount rb) p \<noteq> Some s'" for s'
    using that own own_t by (auto split: if_splits)
  show "i \<in> fst ` set (rg_returned ?rb) \<or> reading i p \<or> (\<exists>u. u \<noteq> t \<and> reading i (rg_pc rb u))"
    if "i < rg_readIndex ?rb" for i
    using that rd reading_other [OF ok, of i t] by auto
qed simp_all

lemma slot_less: "memory_ok rb \<Longrightarrow> i mod rg_slotCount rb < rg_slotCount rb"
  by (simp add: memory_okD)

lemma not_owned:
  assumes "ring_ok rb" and "rg_flag rb s = SlotEmpty \<or> rg_flag rb s = SlotReady"
  shows "own (rg_slotCount rb) (rg_pc rb u) \<noteq> Some s"
  using ring_okD(2) [OF assms(1), of u] assms(2) by (cases "rg_pc rb u") auto

lemma owned_alone:
  assumes "ring_ok rb" and "own (rg_slotCount rb) (rg_pc rb t) = Some s"
  shows "u \<noteq> t \<Longrightarrow> own (rg_slotCount rb) (rg_pc rb u) \<noteq> Some s"
  using ring_okD(3) [OF assms(1,2)] by blast

text \<open>The writer that finds the index unchanged moves the window up by one.\<close>

lemma live_advance_write:
  assumes "memory_ok rb" and "rg_writeIndex rb = idx"
  shows "live (rb\<lparr>rg_writeIndex := Suc idx\<rparr>) s \<longleftrightarrow> live rb s \<or> s = idx mod rg_slotCount rb"
  using assms memory_okD(2) [OF assms(1)] by (auto simp: live_def less_Suc_eq)

lemma live_advance_read:
  assumes "memory_ok rb" and "rg_readIndex rb = idx" and "idx < rg_writeIndex rb"
  shows "live (rb\<lparr>rg_readIndex := Suc idx\<rparr>) s \<longleftrightarrow> live rb s \<and> s \<noteq> idx mod rg_slotCount rb"
proof -
  have "i = idx" if "i mod rg_slotCount rb = idx mod rg_slotCount rb" "idx \<le> i" "i < rg_writeIndex rb" for i
    using mod_window [OF that(1,2,3), of ] assms memory_okD(3) [OF assms(1)] by simp
  note only = this
  show ?thesis
  proof
    assume "live (rb\<lparr>rg_readIndex := Suc idx\<rparr>) s"
    then obtain i where i: "Suc idx \<le> i" "i < rg_writeIndex rb" "i mod rg_slotCount rb = s"
      by (auto simp: live_def)
    with only [of i] have "s \<noteq> idx mod rg_slotCount rb" by auto
    moreover have "live rb s" using i assms(2) unfolding live_def by (intro exI [of _ i]) simp
    ultimately show "live rb s \<and> s \<noteq> idx mod rg_slotCount rb" by blast
  next
    assume a: "live rb s \<and> s \<noteq> idx mod rg_slotCount rb"
    then obtain i where i: "idx \<le> i" "i < rg_writeIndex rb" "i mod rg_slotCount rb = s"
      using assms(2) by (auto simp: live_def)
    with a have "i \<noteq> idx" by auto
    with i show "live (rb\<lparr>rg_readIndex := Suc idx\<rparr>) s" unfolding live_def by (intro exI [of _ i]) simp
  qed
qed

lemma live_room:
  assumes mem: "memory_ok rb" and "\<not> live rb (rg_writeIndex rb mod rg_slotCount rb)"
  shows "rg_writeIndex rb < rg_readIndex rb + rg_slotCount rb"
proof (rule ccontr)
  assume "\<not> ?thesis"
  with memory_okD(3) [OF mem] have w: "rg_writeIndex rb = rg_readIndex rb + rg_slotCount rb" by simp
  then have "rg_readIndex rb < rg_writeIndex rb" using memory_okD(1) [OF mem] by simp
  then have "live rb (rg_readIndex rb mod rg_slotCount rb)" by (auto simp: live_def)
  with assms(2) w show False by simp
qed

lemma live_index:
  assumes mem: "memory_ok rb" and "live rb (rg_readIndex rb mod rg_slotCount rb)"
  shows "rg_readIndex rb < rg_writeIndex rb"
  using assms by (auto simp: live_def)

lemma advance_write_ok:
  assumes ok: "ring_ok rb" and pc: "rg_pc rb t = W_Advance m idx" and w: "rg_writeIndex rb = idx"
  shows "ring_ok (goto t (W_Copy m idx) (rb\<lparr>rg_writeIndex := Suc idx, rg_written := rg_written rb @ [m]\<rparr>))"
proof (rule ring_ok_move [OF ok, where t = t and p = "W_Copy m idx"])
  let ?s = "idx mod rg_slotCount rb"
  let ?rb = "goto t (W_Copy m idx) (rb\<lparr>rg_writeIndex := Suc idx, rg_written := rg_written rb @ [m]\<rparr>)"
  note mem = ring_okD(1) [OF ok]
  have p: "fits rb m" "rg_flag rb ?s = SlotWriting" "\<not> live rb ?s"
    using ring_okD(2) [OF ok, of t] pc by simp_all
  note live = live_advance_write [OF mem w]
  have len: "length (rg_written rb) = idx" using memory_okD(4) [OF mem] w by simp
  have room: "idx < rg_readIndex rb + rg_slotCount rb" using live_room [OF mem] p(3) w by simp
  have fresh: "i mod rg_slotCount rb \<noteq> ?s" if "rg_readIndex rb \<le> i" "i < idx" for i
    using p(3) that w by (auto simp: live_def)
  have r: "rg_readIndex rb \<le> idx" using memory_okD(2) [OF mem] w by simp
  have flags: "(rg_flag rb s = SlotReady \<longrightarrow> live ?rb s) \<and> (rg_flag rb s = SlotEmpty \<longrightarrow> \<not> live ?rb s)"
    if "s < rg_slotCount rb" for s
    using memory_okD(5,6) [OF mem that] p(2) by (cases "s = ?s") (auto simp: live)
  have slots: "rg_slot rb (i mod rg_slotCount rb) = slot_payload ((rg_written rb @ [m]) ! i)"
    if "rg_readIndex rb \<le> i" "i < Suc idx" "rg_flag rb (i mod rg_slotCount rb) \<noteq> SlotWriting" for i
    using that memory_okD(7) [OF mem, of i] p(2) w len by (cases "i = idx") (auto simp: nth_append)
  have "i < rg_readIndex rb \<Longrightarrow> (rg_written rb @ [m]) ! i = rg_written rb ! i" for i
    using r len by (simp add: nth_append)
  then show "memory_ok ?rb"
    using mem flags slots len room r p(1) by (auto simp: memory_ok_def fits_def)
  show "pc_ok ?rb (W_Copy m idx)" using p r len w by (simp add: fits_def nth_append)
  show "pc_ok ?rb (rg_pc rb u)" if "u \<noteq> t" for u
  proof (rule pc_ok_cong [OF ring_okD(2) [OF ok]])
    show "rg_flag ?rb s = rg_flag rb s \<and> rg_slot ?rb s = rg_slot rb s \<and> live ?rb s = live rb s"
      if "own (rg_slotCount rb) (rg_pc rb u) = Some s" for s
      using that owned_alone [OF ok _ \<open>u \<noteq> t\<close>, of ?s] pc by (auto simp: live)
    show "rg_readIndex ?rb \<le> i" if "rg_pc rb u = W_Copy m' i \<or> rg_pc rb u = W_Ready m' i" for m' i
      using that ring_okD(2) [OF ok, of u] by auto
  qed (use w len r in \<open>simp_all add: nth_append\<close>)
  show "own (rg_slotCount rb) (rg_pc rb u) \<noteq> Some s"
    if "own (rg_slotCount rb) (W_Copy m idx) = Some s" "u \<noteq> t" for s u
    using that owned_alone [OF ok, of t ?s u] pc by simp
  show "i \<in> fst ` set (rg_returned ?rb) \<or> reading i (W_Copy m idx) \<or> (\<exists>u. u \<noteq> t \<and> reading i (rg_pc rb u))"
    if "i < rg_readIndex ?rb" for i
    using that reading_other [OF ok, of i t] pc by simp
qed (use pc in \<open>auto split: if_splits\<close>)

lemma advance_read_ok:
  assumes ok: "ring_ok rb" and pc: "rg_pc rb t = R_Advance idx" and r: "rg_readIndex rb = idx"
  shows "ring_ok (goto t (R_Copy idx) (rb\<lparr>rg_readIndex := Suc idx\<rparr>))"
proof (rule ring_ok_move [OF ok, where t = t and p = "R_Copy idx"])
  let ?s = "idx mod rg_slotCount rb"
  let ?rb = "goto t (R_Copy idx) (rb\<lparr>rg_readIndex := Suc idx\<rparr>)"
  note mem = ring_okD(1) [OF ok]
  have p: "rg_flag rb ?s = SlotReading" "live rb ?s" using ring_okD(2) [OF ok, of t] pc by simp_all
  have w: "idx < rg_writeIndex rb" using live_index [OF mem] p(2) r by simp
  note live = live_advance_read [OF mem r w]
  have data: "rg_slot rb ?s = slot_payload (rg_written rb ! idx)" using memory_okD(7) [OF mem, of idx] r w p(1) by simp
  have ret: "idx \<notin> fst ` set (rg_returned rb)" using mem r by (auto simp: memory_ok_def)
  have flags: "(rg_flag rb s = SlotReady \<longrightarrow> live ?rb s) \<and> (rg_flag rb s = SlotEmpty \<longrightarrow> \<not> live ?rb s)"
    if "s < rg_slotCount rb" for s
    using memory_okD(5,6) [OF mem that] p(1) by (auto simp: live)
  show "memory_ok ?rb"
    using mem flags r w by (auto simp: memory_ok_def fits_def)
  show "pc_ok ?rb (R_Copy idx)" using p data ret by (simp add: live)
  show "pc_ok ?rb (rg_pc rb u)" if "u \<noteq> t" for u
  proof (rule pc_ok_cong [OF ring_okD(2) [OF ok]])
    note alone = owned_alone [OF ok _ \<open>u \<noteq> t\<close>, of ?s]
    show "rg_flag ?rb s = rg_flag rb s \<and> rg_slot ?rb s = rg_slot rb s \<and> live ?rb s = live rb s"
      if "own (rg_slotCount rb) (rg_pc rb u) = Some s" for s
      using that alone pc by (auto simp: live)
    show "rg_readIndex ?rb \<le> i" if q: "rg_pc rb u = W_Copy m i \<or> rg_pc rb u = W_Ready m i" for m i
    proof -
      have "i \<noteq> idx" using q alone pc by auto
      moreover have "idx \<le> i" using q ring_okD(2) [OF ok, of u] r by auto
      ultimately show ?thesis by simp
    qed
  qed (use r memory_okD(2) [OF mem] in simp_all)
  show "own (rg_slotCount rb) (rg_pc rb u) \<noteq> Some s"
    if "own (rg_slotCount rb) (R_Copy idx) = Some s" "u \<noteq> t" for s u
    using that owned_alone [OF ok, of t ?s u] pc by simp
  show "i \<in> fst ` set (rg_returned ?rb) \<or> reading i (R_Copy idx) \<or> (\<exists>u. u \<noteq> t \<and> reading i (rg_pc rb u))"
    if "i < rg_readIndex ?rb" for i
  proof (cases "i = idx")
    case False
    with that r have "i < rg_readIndex rb" by simp
    with reading_other [OF ok this, of t] pc show ?thesis by auto
  qed simp
qed (use pc in \<open>auto split: if_splits\<close>)

lemma copy_in_ok:
  assumes ok: "ring_ok rb" and pc: "rg_pc rb t = W_Copy m idx"
  shows "ring_ok (goto t (W_Ready m idx) (rb\<lparr>rg_slot := (rg_slot rb)(idx mod rg_slotCount rb := slot_payload m)\<rparr>))"
proof (rule ring_ok_move [OF ok, where t = t and p = "W_Ready m idx"])
  let ?s = "idx mod rg_slotCount rb"
  let ?rb = "goto t (W_Ready m idx) (rb\<lparr>rg_slot := (rg_slot rb)(?s := slot_payload m)\<rparr>)"
  note mem = ring_okD(1) [OF ok]
  have p: "fits rb m" "rg_flag rb ?s = SlotWriting" "rg_readIndex rb \<le> idx" "idx < rg_writeIndex rb"
    "rg_written rb ! idx = m" using ring_okD(2) [OF ok, of t] pc by simp_all
  show "memory_ok ?rb" using mem p(2) by (auto simp: memory_ok_def fits_def)
  show "pc_ok ?rb (W_Ready m idx)" using p by (simp add: fits_def)
  show "pc_ok ?rb (rg_pc rb u)" if "u \<noteq> t" for u
  proof (rule pc_ok_cong [OF ring_okD(2) [OF ok]])
    show "rg_flag ?rb s = rg_flag rb s \<and> rg_slot ?rb s = rg_slot rb s \<and> live ?rb s = live rb s"
      if "own (rg_slotCount rb) (rg_pc rb u) = Some s" for s
      using that owned_alone [OF ok _ \<open>u \<noteq> t\<close>, of ?s] pc by auto
    show "rg_readIndex ?rb \<le> i" if "rg_pc rb u = W_Copy m' i \<or> rg_pc rb u = W_Ready m' i" for m' i
      using that ring_okD(2) [OF ok, of u] by auto
  qed (use memory_okD(2) [OF mem] in simp_all)
  show "own (rg_slotCount rb) (rg_pc rb u) \<noteq> Some s"
    if "own (rg_slotCount rb) (W_Ready m idx) = Some s" "u \<noteq> t" for s u
    using that owned_alone [OF ok, of t ?s u] pc by simp
  show "i \<in> fst ` set (rg_returned ?rb) \<or> reading i (W_Ready m idx) \<or> (\<exists>u. u \<noteq> t \<and> reading i (rg_pc rb u))"
    if "i < rg_readIndex ?rb" for i
    using that reading_other [OF ok, of i t] pc by simp
qed (use pc in \<open>auto split: if_splits\<close>)

lemma clear_ok:
  assumes ok: "ring_ok rb" and pc: "rg_pc rb t = R_Clear idx m"
  shows "ring_ok (goto t (R_Count m) (set_flag (idx mod rg_slotCount rb) SlotEmpty
    (rb\<lparr>rg_returned := rg_returned rb @ [(idx, m)]\<rparr>)))"
proof (rule ring_ok_move [OF ok, where t = t and p = "R_Count m"])
  let ?s = "idx mod rg_slotCount rb"
  let ?rb = "goto t (R_Count m) (set_flag ?s SlotEmpty (rb\<lparr>rg_returned := rg_returned rb @ [(idx, m)]\<rparr>))"
  note mem = ring_okD(1) [OF ok]
  have p: "rg_flag rb ?s = SlotReading" "\<not> live rb ?s" "idx < rg_readIndex rb" "m = slot_payload (rg_written rb ! idx)"
    "idx \<notin> fst ` set (rg_returned rb)" using ring_okD(2) [OF ok, of t] pc by simp_all
  have "i mod rg_slotCount rb \<noteq> ?s" if "rg_readIndex rb \<le> i" "i < rg_writeIndex rb" for i
    using that p(2) by (auto simp: live_def)
  then show "memory_ok ?rb" using mem p by (auto simp: memory_ok_def fits_def)
  show "pc_ok ?rb (R_Count m)" by simp
  show "pc_ok ?rb (rg_pc rb u)" if "u \<noteq> t" for u
  proof (rule pc_ok_cong [OF ring_okD(2) [OF ok]])
    note alone = owned_alone [OF ok _ \<open>u \<noteq> t\<close>, of ?s]
    show "rg_flag ?rb s = rg_flag rb s \<and> rg_slot ?rb s = rg_slot rb s \<and> live ?rb s = live rb s"
      if "own (rg_slotCount rb) (rg_pc rb u) = Some s" for s
      using that alone pc by auto
    show "rg_readIndex ?rb \<le> i" if "rg_pc rb u = W_Copy m' i \<or> rg_pc rb u = W_Ready m' i" for m' i
      using that ring_okD(2) [OF ok, of u] by auto
    show "i \<notin> fst ` set (rg_returned ?rb)"
      if "reading i (rg_pc rb u)" "i \<notin> fst ` set (rg_returned rb)" for i
    proof -
      have "own (rg_slotCount rb) (rg_pc rb u) = Some (i mod rg_slotCount rb)"
        using that(1) by (cases "rg_pc rb u") auto
      with alone pc have "i \<noteq> idx" by auto
      with that(2) show ?thesis by simp
    qed
  qed (use memory_okD(2) [OF mem] in simp_all)
  show "i \<in> fst ` set (rg_returned ?rb) \<or> reading i (R_Count m) \<or> (\<exists>u. u \<noteq> t \<and> reading i (rg_pc rb u))"
    if "i < rg_readIndex ?rb" for i
    using that reading_other [OF ok, of i t] pc by (cases "i = idx") auto
qed (use pc in \<open>auto split: if_splits\<close>)

text \<open>The bounds checks of the copies never fail: a slot is inside the memory.\<close>

lemma slot_inside:
  assumes "memory_ok rb" and "fits rb m"
  shows "rg_slotOffset rb (i mod rg_slotCount rb) + slotHeaderSize + length m \<le> rg_totalSize rb"
proof -
  let ?s = "i mod rg_slotCount rb"
  have "Suc ?s \<le> rg_slotCount rb" using slot_less [OF assms(1), of i] by simp
  then have "rg_slotSize rb * Suc ?s \<le> rg_slotSize rb * rg_slotCount rb" by (rule mult_le_mono2)
  with assms(2) show ?thesis
    by (simp add: rg_slotOffset_def rg_totalSize_def fits_def algebra_simps)
qed

lemma fits_payload: "fits rb m \<Longrightarrow> fits rb (slot_payload m)"
  using slot_payload_length [of m] by (simp add: fits_def)

lemma Write_step_ok:
  assumes ok: "ring_ok rb" and p: "rg_pc rb t = p" and max: "length (rg_written (rg_Write_step t p rb)) < 2 ^ 64"
  shows "ring_ok (rg_Write_step t p rb)"
proof -
  note mem = ring_okD(1) [OF ok] and pc = ring_okD(2) [OF ok, of t]
  note local = ring_ok_local [OF ok, where t = t]
  show ?thesis
  proof (cases p)
    case (W_Closed m)
    with pc p show ?thesis by (simp add: rg_Write_step_def; intro conjI impI; intro local; simp)
  next
    case (W_Size m)
    with pc p show ?thesis
      by (simp add: rg_Write_step_def; intro conjI impI; intro local; simp add: fits_def)
  next
    case (W_Loop m)
    with pc p show ?thesis by (simp add: rg_Write_step_def; intro conjI impI; intro local; simp)
  next
    case (W_Load m)
    with pc p show ?thesis by (simp add: rg_Write_step_def; intro local; simp)
  next
    case (W_Flag m idx)
    with pc p show ?thesis by (simp add: rg_Write_step_def; intro conjI impI; intro local; simp)
  next
    case (W_Claim m idx)
    let ?s = "idx mod rg_slotCount rb"
    have fits: "fits rb m" using pc p W_Claim by simp
    show ?thesis
    proof (cases "rg_flag rb ?s = SlotEmpty")
      case True
      then have "\<not> live rb ?s" using memory_okD(6) [OF mem slot_less [OF mem]] by simp
      with True fits have "ring_ok (goto t (W_Advance m idx) (set_flag ?s SlotWriting rb))"
        using p W_Claim by (intro ring_ok_flag [OF ok refl] not_owned [OF ok]) (auto simp: fits_def)
      with True W_Claim show ?thesis by (simp add: rg_Write_step_def Let_def)
    next
      case False
      with fits W_Claim p show ?thesis by (simp add: rg_Write_step_def Let_def; intro local; simp)
    qed
  next
    case (W_Advance m idx)
    show ?thesis
    proof (cases "rg_writeIndex rb = idx")
      case True
      then have "Suc idx < 2 ^ 64" using max W_Advance memory_okD(4) [OF mem] by (simp add: rg_Write_step_def)
      with True advance_write_ok [OF ok _ True, of t m] p W_Advance show ?thesis
        by (simp add: rg_Write_step_def next_index_Suc)
    next
      case False
      with pc p W_Advance show ?thesis by (simp add: rg_Write_step_def; intro local; simp)
    qed
  next
    case (W_Release m idx)
    with pc p have "ring_ok (goto t (W_Loop m) (set_flag (idx mod rg_slotCount rb) SlotEmpty rb))"
      by (intro ring_ok_flag [OF ok refl] owned_alone [OF ok, of t]) (auto simp: fits_def live_def)
    with W_Release show ?thesis by (simp add: rg_Write_step_def)
  next
    case (W_Copy m idx)
    with pc p have "fits rb m" by simp
    from slot_inside [OF mem this, of idx] copy_in_ok [OF ok, of t m idx] p W_Copy show ?thesis
      by (simp add: rg_Write_step_def Let_def)
  next
    case (W_Ready m idx)
    let ?s = "idx mod rg_slotCount rb"
    from W_Ready pc p have q: "rg_readIndex rb \<le> idx" "idx < rg_writeIndex rb" "rg_written rb ! idx = m"
      "rg_slot rb ?s = slot_payload m" by simp_all
    then have "live rb ?s" by (auto simp: live_def)
    moreover have "rg_slot rb ?s = slot_payload (rg_written rb ! i)"
      if "rg_readIndex rb \<le> i" "i < rg_writeIndex rb" "i mod rg_slotCount rb = ?s" for i
      using mod_window [OF that(3,1,2) q(1,2) memory_okD(3) [OF mem]] q by simp
    ultimately have "ring_ok (goto t W_Count (set_flag ?s SlotReady rb))"
      using p W_Ready by (intro ring_ok_flag [OF ok refl] owned_alone [OF ok, of t]) auto
    with W_Ready show ?thesis by (simp add: rg_Write_step_def)
  next
    case W_Count
    with p show ?thesis by (simp add: rg_Write_step_def; intro local; simp)
  qed (use ok in \<open>simp_all add: rg_Write_step_def\<close>)
qed

lemma Read_step_ok:
  assumes ok: "ring_ok rb" and p: "rg_pc rb t = p" and max: "length (rg_written rb) < 2 ^ 64"
  shows "ring_ok (rg_Read_step t p rb)"
proof -
  note mem = ring_okD(1) [OF ok] and pc = ring_okD(2) [OF ok, of t]
  note local = ring_ok_local [OF ok, where t = t]
  show ?thesis
  proof (cases p)
    case R_Closed
    with p show ?thesis by (simp add: rg_Read_step_def; intro conjI impI; intro local; simp)
  next
    case R_ClosedCount
    with p show ?thesis by (simp add: rg_Read_step_def; intro conjI impI; intro local; simp)
  next
    case R_Load
    with p show ?thesis by (simp add: rg_Read_step_def; intro local; simp)
  next
    case (R_Flag idx)
    with p show ?thesis by (simp add: rg_Read_step_def; intro conjI impI; intro local; simp)
  next
    case R_NotReady
    with p show ?thesis by (simp add: rg_Read_step_def; intro conjI impI; intro local; simp)
  next
    case (R_Claim idx)
    let ?s = "idx mod rg_slotCount rb"
    show ?thesis
    proof (cases "rg_flag rb ?s = SlotReady")
      case True
      then have "live rb ?s" using memory_okD(5) [OF mem slot_less [OF mem]] by simp
      moreover have "rg_slot rb ?s = slot_payload (rg_written rb ! i)"
        if "rg_readIndex rb \<le> i" "i < rg_writeIndex rb" "i mod rg_slotCount rb = ?s" for i
        using memory_okD(7) [OF mem that(1,2)] that(3) True by simp
      ultimately have "ring_ok (goto t (R_Advance idx) (set_flag ?s SlotReading rb))"
        using p R_Claim True
        by (intro ring_ok_flag [OF ok refl] not_owned [OF ok]) auto
      with True R_Claim show ?thesis by (simp add: rg_Read_step_def Let_def)
    next
      case False
      with R_Claim p show ?thesis by (simp add: rg_Read_step_def Let_def; intro local; simp)
    qed
  next
    case (R_Advance idx)
    show ?thesis
    proof (cases "rg_readIndex rb = idx")
      case True
      then have "idx < rg_writeIndex rb" using live_index [OF mem] pc p R_Advance by simp
      then have "next_index idx = Suc idx"
        using max memory_okD(4) [OF mem] by (intro next_index_Suc) simp
      with True advance_read_ok [OF ok _ True, of t] p R_Advance show ?thesis by (simp add: rg_Read_step_def)
    next
      case False
      with pc p R_Advance show ?thesis by (simp add: rg_Read_step_def; intro local; simp)
    qed
  next
    case (R_Restore idx)
    let ?s = "idx mod rg_slotCount rb"
    from R_Restore pc p have "rg_flag rb ?s = SlotReading" "live rb ?s" by simp_all
    moreover from this have "rg_slot rb ?s = slot_payload (rg_written rb ! i)"
      if "rg_readIndex rb \<le> i" "i < rg_writeIndex rb" "i mod rg_slotCount rb = ?s" for i
      using memory_okD(7) [OF mem that(1,2)] that(3) by simp
    ultimately have "ring_ok (goto t R_Load (set_flag ?s SlotReady rb))"
      using p R_Restore
      by (intro ring_ok_flag [OF ok refl] owned_alone [OF ok, of t]) auto
    with R_Restore show ?thesis by (simp add: rg_Read_step_def)
  next
    case (R_Copy idx)
    let ?s = "idx mod rg_slotCount rb"
    from R_Copy pc p have q: "idx < rg_readIndex rb" "rg_slot rb ?s = slot_payload (rg_written rb ! idx)" by simp_all
    then have "rg_written rb ! idx \<in> set (rg_written rb)" using memory_okD(2,4) [OF mem] by simp
    then have "fits rb (rg_slot rb ?s)"
      using memory_okD(8) [OF mem] q(2) by (simp add: fits_payload)
    from slot_inside [OF mem this, of idx] have
      "rg_Read_step t p rb = goto t (R_Clear idx (rg_slot rb ?s)) rb"
      using R_Copy by (simp add: rg_Read_step_def Let_def)
    with pc p R_Copy show ?thesis by (simp; intro local; simp)
  next
    case R_Abort
    with p show ?thesis by (simp add: rg_Read_step_def; intro local; simp)
  next
    case (R_Clear idx m)
    with clear_ok [OF ok, of t idx m] p show ?thesis by (simp add: rg_Read_step_def)
  next
    case (R_Count m)
    with p show ?thesis by (simp add: rg_Read_step_def; intro local; simp)
  qed (use ok in \<open>simp_all add: rg_Read_step_def\<close>)
qed

section \<open>Every reachable state\<close>

fun in_read :: "pc \<Rightarrow> bool" where
  "in_read R_Closed = True" | "in_read R_ClosedCount = True" | "in_read R_Load = True"
| "in_read (R_Flag _) = True" | "in_read R_NotReady = True" | "in_read (R_Claim _) = True"
| "in_read (R_Advance _) = True" | "in_read (R_Restore _) = True" | "in_read (R_Copy _) = True"
| "in_read R_Abort = True" | "in_read (R_Clear _ _) = True" | "in_read (R_Count _) = True"
| "in_read _ = False"

lemma rg_next_cases:
  "rg_next t rb = (if in_read (rg_pc rb t) then rg_Read_step t (rg_pc rb t) rb
                   else rg_Write_step t (rg_pc rb t) rb)"
  by (cases "rg_pc rb t") (simp_all add: rg_next_def rg_Read_step_def rg_Write_step_def)

lemma at_rest_pc: "at_rest p \<Longrightarrow> own n p = None \<and> \<not> reading i p"
  by (cases p) simp_all

lemma rg_next_written: "length (rg_written rb) \<le> length (rg_written (rg_next t rb))"
  by (cases "rg_pc rb t") (simp_all add: rg_next_cases rg_Read_step_def rg_Write_step_def Let_def)

lemma rg_step_written: "rg_step rb rb' \<Longrightarrow> length (rg_written rb) \<le> length (rg_written rb')"
  by (induction rule: rg_step.induct) (simp_all add: rg_next_written)

lemma rg_step_ok:
  assumes "rg_step rb rb'" and ok: "ring_ok rb" and max: "length (rg_written rb') < 2 ^ 64"
  shows "ring_ok rb'"
  using assms(1)
proof cases
  case (start_Write t m)
  with at_rest_pc [of "rg_pc rb t"] show ?thesis by (simp; intro ring_ok_local [OF ok, where t = t]; simp)
next
  case (start_Read t)
  with at_rest_pc [of "rg_pc rb t"] show ?thesis by (simp; intro ring_ok_local [OF ok, where t = t]; simp)
next
  case (step_thread t)
  have "length (rg_written rb) < 2 ^ 64" using rg_step_written [OF assms(1)] max by simp
  with Read_step_ok [OF ok refl, of t] Write_step_ok [OF ok refl, of t] step_thread max show ?thesis
    by (simp add: rg_next_cases split: if_splits)
next
  case close_buffer
  have "ring_ok (rb\<lparr>rg_closed := True\<rparr>)"
  proof (rule ring_ok_local [OF ok, where t = 0 and p = "rg_pc rb 0"])
    show "pc_ok rb (rg_pc rb 0)" using ok by (rule ring_okD)
  qed simp_all
  with close_buffer show ?thesis by simp
qed

lemma New_ok: "ring_ok (NewSharedMemoryRingBuffer slotSize slotCount)"
  by (simp add: ring_ok_def memory_ok_def NewSharedMemoryRingBuffer_def live_def)

lemma rg_reach_ok: "rg_reach rb0 rb \<Longrightarrow> ring_ok rb0 \<Longrightarrow> length (rg_written rb) < 2 ^ 64 \<Longrightarrow> ring_ok rb"
proof (induction rule: rg_reach.induct)
  case (reach_step rb rb')
  then show ?case using rg_step_written [of rb rb'] by (auto intro: rg_step_ok)
qed simp

section \<open>One reader\<close>

text \<open>The runs in which only the thread \<open>c\<close> reads, as one consumer does.\<close>

inductive rg_reach1 :: "nat \<Rightarrow> ring \<Rightarrow> ring \<Rightarrow> bool" for c rb0 where
  reach1_refl: "rg_reach1 c rb0 rb0"
| reach1_step: "rg_reach1 c rb0 rb \<Longrightarrow> rg_step rb rb' \<Longrightarrow> (\<forall>t. t \<noteq> c \<longrightarrow> \<not> in_read (rg_pc rb' t))
    \<Longrightarrow> rg_reach1 c rb0 rb'"

lemma reach1_reach: "rg_reach1 c rb0 rb \<Longrightarrow> rg_reach rb0 rb"
  by (induction rule: rg_reach1.induct) (auto intro: rg_reach.intros)

definition in_order :: "ring \<Rightarrow> bool" where
  "in_order rb \<longleftrightarrow> sorted_wrt (<) (map fst (rg_returned rb))
     \<and> (\<forall>t i. reading i (rg_pc rb t) \<longrightarrow> (\<forall>j \<in> fst ` set (rg_returned rb). j < i))"

lemma in_orderD:
  "in_order rb \<Longrightarrow> reading i (rg_pc rb t) \<Longrightarrow> j \<in> fst ` set (rg_returned rb) \<Longrightarrow> j < i"
  by (auto simp: in_order_def)

lemma Write_step_reads:
  "\<not> in_read p \<Longrightarrow> rg_returned (rg_Write_step t p rb) = rg_returned rb
    \<and> (reading i (rg_pc (rg_Write_step t p rb) u) \<longrightarrow> reading i (rg_pc rb u))"
  by (cases p) (auto simp: rg_Write_step_def Let_def)

lemma reading_in_read: "reading i p \<Longrightarrow> in_read p"
  by (cases p) simp_all

lemma Read_step_in_order:
  assumes ok: "ring_ok rb" and p: "rg_pc rb t = p" and ord: "in_order rb"
    and single: "\<forall>u. u \<noteq> t \<longrightarrow> \<not> in_read (rg_pc rb u)"
  shows "in_order (rg_Read_step t p rb)"
proof -
  have s: "\<not> reading i (rg_pc rb u)" if "u \<noteq> t" for u i
    using single that reading_in_read by blast
  have old: "j < rg_readIndex rb" if "j \<in> fst ` set (rg_returned rb)" for j
    using ring_okD(1) [OF ok] that by (auto simp: memory_ok_def)
  show ?thesis
  proof (cases p)
    case (R_Advance idx)
    then have "rg_readIndex rb = idx \<Longrightarrow> idx < rg_writeIndex rb"
      using live_index [OF ring_okD(1) [OF ok]] ring_okD(2) [OF ok, of t] p by simp
    with R_Advance ord old s show ?thesis by (auto simp: rg_Read_step_def in_order_def)
  next
    case (R_Clear idx m)
    have "\<forall>j \<in> fst ` set (rg_returned rb). j < idx" using in_orderD [OF ord, of idx t] p R_Clear by auto
    with R_Clear ord s show ?thesis
      by (auto simp: rg_Read_step_def in_order_def sorted_wrt_append)
  next
    case (R_Copy idx)
    have "\<forall>j \<in> fst ` set (rg_returned rb). j < idx" using in_orderD [OF ord, of idx t] p R_Copy by auto
    with R_Copy ord s show ?thesis by (auto simp: rg_Read_step_def in_order_def Let_def)
  qed (use ord s in \<open>auto simp: rg_Read_step_def in_order_def Let_def split: if_splits\<close>)
qed

lemma rg_step_in_order:
  assumes "rg_step rb rb'" and "ring_ok rb" and "in_order rb"
    and "\<forall>t. t \<noteq> c \<longrightarrow> \<not> in_read (rg_pc rb t)"
  shows "in_order rb'"
  using assms(1)
proof cases
  case (step_thread t)
  show ?thesis
  proof (cases "in_read (rg_pc rb t)")
    case True
    then have "\<forall>u. u \<noteq> t \<longrightarrow> \<not> in_read (rg_pc rb u)" using assms(4) by metis
    from Read_step_in_order [OF assms(2) refl assms(3) this] True step_thread show ?thesis
      by (simp add: rg_next_cases)
  next
    case False
    with step_thread Write_step_reads [OF False, of t rb] have
      "rg_returned rb' = rg_returned rb" and imp: "\<And>i u. reading i (rg_pc rb' u) \<Longrightarrow> reading i (rg_pc rb u)"
      by (simp_all add: rg_next_cases)
    with assms(3) show ?thesis unfolding in_order_def by metis
  qed
qed (use assms(3) in \<open>auto simp: in_order_def split: if_splits\<close>)

lemma reach1_in_order:
  assumes "rg_reach1 c (NewSharedMemoryRingBuffer slotSize slotCount) rb" and "length (rg_written rb) < 2 ^ 64"
  shows "ring_ok rb \<and> in_order rb \<and> (\<forall>t. t \<noteq> c \<longrightarrow> \<not> in_read (rg_pc rb t))"
  using assms
proof induction
  case reach1_refl
  show ?case using New_ok [of slotSize slotCount]
    by (simp add: in_order_def) (simp add: NewSharedMemoryRingBuffer_def)
next
  case (reach1_step rb rb')
  then have "length (rg_written rb) < 2 ^ 64" using rg_step_written [of rb rb'] by simp
  with reach1_step show ?case using rg_step_ok rg_step_in_order by blast
qed

lemma sorted_all_below:
  "sorted_wrt (<) ns \<Longrightarrow> set ns = {..<k} \<Longrightarrow> ns = [0..<k]" for ns :: "nat list"
  by (rule strict_sorted_equal) (auto simp: lessThan_atLeast0)

section \<open>A call with no other in flight\<close>

definition rg_call :: "nat \<Rightarrow> pc \<Rightarrow> ring \<Rightarrow> ring" where
  "rg_call t p rb = (rg_next t ^^ 12) (goto t p rb)"

lemma rg_call_steps:
  "rg_call t p rb = rg_next t (rg_next t (rg_next t (rg_next t (rg_next t (rg_next t (rg_next t (rg_next t
     (rg_next t (rg_next t (rg_next t (rg_next t (goto t p rb))))))))))))"
  by (simp add: rg_call_def eval_nat_numeral)

lemmas step_simps = rg_next_def rg_Read_step_def rg_Write_step_def

lemma rest_flags:
  assumes ok: "ring_ok rb" and rest: "\<forall>t. at_rest (rg_pc rb t)" and s: "s < rg_slotCount rb"
  shows "rg_flag rb s = (if live rb s then SlotReady else SlotEmpty)"
proof -
  have "\<not> busy (rg_flag rb s)" using ring_okD(5) [OF ok s] rest at_rest_pc by (metis option.distinct(1))
  then have "rg_flag rb s = SlotReady \<or> rg_flag rb s = SlotEmpty" by (cases "rg_flag rb s") simp_all
  with memory_okD(5,6) [OF ring_okD(1) [OF ok] s] show ?thesis by auto
qed

lemma rest_write_flag:
  assumes ok: "ring_ok rb" and rest: "\<forall>t. at_rest (rg_pc rb t)"
  shows "rg_flag rb (rg_writeIndex rb mod rg_slotCount rb) = SlotEmpty
    \<longleftrightarrow> rg_writeIndex rb < rg_readIndex rb + rg_slotCount rb"
proof -
  let ?s = "rg_writeIndex rb mod rg_slotCount rb"
  note mem = ring_okD(1) [OF ok]
  have "live rb ?s \<longleftrightarrow> \<not> rg_writeIndex rb < rg_readIndex rb + rg_slotCount rb"
  proof
    assume "live rb ?s"
    then obtain i where i: "rg_readIndex rb \<le> i" "i < rg_writeIndex rb" "i mod rg_slotCount rb = ?s"
      by (auto simp: live_def)
    show "\<not> rg_writeIndex rb < rg_readIndex rb + rg_slotCount rb"
    proof
      assume "rg_writeIndex rb < rg_readIndex rb + rg_slotCount rb"
      then have "i = rg_writeIndex rb"
        using mod_window [OF i(3), of "rg_readIndex rb" "Suc (rg_writeIndex rb)"] i by simp
      with i show False by simp
    qed
  qed (use live_room [OF mem] in blast)
  with rest_flags [OF ok rest slot_less [OF mem], of "rg_writeIndex rb"] show ?thesis by simp
qed

lemma rest_read_flag:
  assumes ok: "ring_ok rb" and rest: "\<forall>t. at_rest (rg_pc rb t)"
  shows "rg_flag rb (rg_readIndex rb mod rg_slotCount rb) = SlotReady
    \<longleftrightarrow> rg_readIndex rb < rg_writeIndex rb"
proof -
  let ?s = "rg_readIndex rb mod rg_slotCount rb"
  note mem = ring_okD(1) [OF ok]
  have "live rb ?s \<longleftrightarrow> rg_readIndex rb < rg_writeIndex rb"
    using live_index [OF mem] by (auto simp: live_def)
  with rest_flags [OF ok rest slot_less [OF mem], of "rg_readIndex rb"] show ?thesis by simp
qed

lemma call_Write:
  assumes ok: "ring_ok rb" and rest: "\<forall>t. at_rest (rg_pc rb t)" and "\<not> rg_closed rb"
  shows "rg_pc (rg_call t (W_Closed m) rb) t
    = W_Done (if \<not> fits rb m then Some ErrMessageTooLarge
              else if rg_writeIndex rb < rg_readIndex rb + rg_slotCount rb then None
              else Some ErrSharedMemoryFull)"
proof -
  note flag = rest_write_flag [OF ok rest]
  show ?thesis
  proof (cases "fits rb m")
    case False
    with assms(3) show ?thesis
      by (simp add: rg_call_steps step_simps fits_def)
  next
    case fits: True
    show ?thesis
    proof (cases "rg_writeIndex rb < rg_readIndex rb + rg_slotCount rb")
      case False
      with flag fits assms(3) show ?thesis
        by (simp add: rg_call_steps step_simps fits_def)
    next
      case True
      have "\<not> rg_totalSize rb < rg_slotOffset rb (rg_writeIndex rb mod rg_slotCount rb) + slotHeaderSize + length m"
        using slot_inside [OF ring_okD(1) [OF ok] fits, of "rg_writeIndex rb"] by simp
      with flag fits True assms(3) show ?thesis
        by (simp add: rg_call_steps step_simps fits_def
            rg_totalSize_def rg_slotOffset_def Let_def)
    qed
  qed
qed

lemma call_Read:
  assumes ok: "ring_ok rb" and rest: "\<forall>t. at_rest (rg_pc rb t)" and "\<not> rg_closed rb"
  shows "rg_pc (rg_call t R_Closed rb) t
    = R_Done (if rg_readIndex rb < rg_writeIndex rb then Inr (slot_payload (rg_written rb ! rg_readIndex rb))
              else Inl ErrSharedMemoryEmpty)"
proof -
  let ?s = "rg_readIndex rb mod rg_slotCount rb"
  note mem = ring_okD(1) [OF ok] and flag = rest_read_flag [OF ok rest]
  show ?thesis
  proof (cases "rg_readIndex rb < rg_writeIndex rb")
    case False
    with flag assms(3) show ?thesis
      by (simp add: rg_call_steps step_simps)
  next
    case True
    then have "rg_written rb ! rg_readIndex rb \<in> set (rg_written rb)" using memory_okD(4) [OF mem] by simp
    then have "fits rb (slot_payload (rg_written rb ! rg_readIndex rb))"
      using memory_okD(8) [OF mem] by (simp add: fits_payload)
    moreover have d: "rg_slot rb ?s = slot_payload (rg_written rb ! rg_readIndex rb)"
      using memory_okD(7) [OF mem, of "rg_readIndex rb"] True flag by simp
    ultimately have "\<not> rg_totalSize rb < rg_slotOffset rb ?s + slotHeaderSize + length (rg_slot rb ?s)"
      using slot_inside [OF mem, of _ "rg_readIndex rb"] by (simp add: not_less)
    with flag True assms(3) d show ?thesis
      by (simp add: rg_call_steps step_simps
          rg_totalSize_def rg_slotOffset_def Let_def)
  qed
qed

lemma reach_call:
  assumes "rg_reach rb0 rb" and "at_rest (rg_pc rb t)"
  shows "rg_reach rb0 (rg_call t (W_Closed m) rb)" and "rg_reach rb0 (rg_call t R_Closed rb)"
proof -
  have run: "rg_reach rb0 rb' \<Longrightarrow> rg_reach rb0 ((rg_next t ^^ k) rb')" for rb' k
    by (induction k) (auto intro: reach_step step_thread)
  show "rg_reach rb0 (rg_call t (W_Closed m) rb)" "rg_reach rb0 (rg_call t R_Closed rb)"
    unfolding rg_call_def
    by (rule run, rule reach_step [OF assms(1)], rule start_Write start_Read, rule assms(2))+
qed

lemma others_keep_pc:
  "u \<noteq> t \<Longrightarrow> rg_pc (rg_next t rb) u = rg_pc rb u"
  by (cases "rg_pc rb t") (simp_all add: step_simps Let_def)

lemma Write_step_pc: "\<not> in_read (rg_pc rb t) \<Longrightarrow> \<not> in_read (rg_pc (rg_next t rb) t)"
  by (cases "rg_pc rb t") (simp_all add: step_simps Let_def)

lemma next_single:
  "\<forall>u. u \<noteq> c \<longrightarrow> \<not> in_read (rg_pc rb u) \<Longrightarrow> \<forall>u. u \<noteq> c \<longrightarrow> \<not> in_read (rg_pc (rg_next t rb) u)"
  using others_keep_pc Write_step_pc by metis

definition single_reach :: "nat \<Rightarrow> ring \<Rightarrow> ring \<Rightarrow> bool" where
  "single_reach c rb0 rb \<longleftrightarrow> rg_reach1 c rb0 rb \<and> (\<forall>u. u \<noteq> c \<longrightarrow> \<not> in_read (rg_pc rb u))"

lemma single_reach_step:
  "single_reach c rb0 rb \<Longrightarrow> rg_step rb rb' \<Longrightarrow> \<forall>u. u \<noteq> c \<longrightarrow> \<not> in_read (rg_pc rb' u) \<Longrightarrow> single_reach c rb0 rb'"
  by (auto simp: single_reach_def intro: reach1_step)

lemma single_reach_call:
  assumes "single_reach c rb0 rb" and "at_rest (rg_pc rb t)" and "\<not> in_read p \<or> t = c"
    and "p = W_Closed m \<or> p = R_Closed"
  shows "single_reach c rb0 (rg_call t p rb)"
proof -
  have run: "single_reach c rb0 rb' \<Longrightarrow> single_reach c rb0 ((rg_next t ^^ k) rb')" for rb' k
  proof (induction k)
    case (Suc k)
    then have r: "single_reach c rb0 ((rg_next t ^^ k) rb')" by simp
    then have "\<forall>u. u \<noteq> c \<longrightarrow> \<not> in_read (rg_pc ((rg_next t ^^ k) rb') u)" by (simp add: single_reach_def)
    from single_reach_step [OF r step_thread next_single [OF this]] show ?case by simp
  qed simp
  have "rg_step rb (goto t p rb)"
    using assms(2,4) by (auto intro: start_Write start_Read)
  then have "single_reach c rb0 (goto t p rb)"
    by (rule single_reach_step [OF assms(1)]) (use assms(1,3) in \<open>auto simp: single_reach_def\<close>)
  then show ?thesis unfolding rg_call_def by (rule run)
qed

text \<open>A buffer with room for two messages, with one written and read back.\<close>

definition small_ring :: ring where
  "small_ring = NewSharedMemoryRingBuffer 64 2"

definition used_ring :: ring where
  "used_ring = rg_call 0 R_Closed (rg_call 0 (W_Closed [7]) small_ring)"

lemma written_ring:
  "rg_call 0 (W_Closed [7]) small_ring =
    \<lparr>rg_slotSize = 64, rg_slotCount = 2, rg_writeIndex = 1, rg_readIndex = 0, rg_messageCount = 1,
     rg_closed = False, rg_flag = (\<lambda>_. SlotEmpty)(0 := SlotReady), rg_slot = (\<lambda>_. [])(0 := [7]),
     rg_pc = (\<lambda>_. Idle)(0 := W_Done None), rg_written = [[7]], rg_returned = []\<rparr>"
  unfolding rg_call_steps small_ring_def NewSharedMemoryRingBuffer_def
  by (simp add: step_simps rg_totalSize_def rg_slotOffset_def headerSize_def slotHeaderSize_def Let_def
      next_index_def slot_payload_small)

lemma used_ring_eq:
  "used_ring =
    \<lparr>rg_slotSize = 64, rg_slotCount = 2, rg_writeIndex = 1, rg_readIndex = 1, rg_messageCount = 0,
     rg_closed = False, rg_flag = (\<lambda>_. SlotEmpty)(0 := SlotEmpty), rg_slot = (\<lambda>_. [])(0 := [7]),
     rg_pc = (\<lambda>_. Idle)(0 := R_Done (Inr [7])), rg_written = [[7]],
     rg_returned = [(0, [7])]\<rparr>"
  unfolding used_ring_def written_ring unfolding rg_call_steps
  by (simp add: step_simps rg_totalSize_def rg_slotOffset_def headerSize_def slotHeaderSize_def Let_def
      next_index_def slot_payload_small)

lemma used_ring_state:
  "rg_pc used_ring 0 = R_Done (Inr [7])" "rg_returned used_ring = [(0, [7])]"
  "rg_written used_ring = [[7]]" "rg_readIndex used_ring = 1" "\<not> rg_closed used_ring"
  "rg_slotSize used_ring = 64" "rg_slotCount used_ring = 2"
  by (simp_all add: used_ring_eq)

lemma used_rest: "\<forall>t. at_rest (rg_pc used_ring t)"
  by (simp add: used_ring_eq)

lemma used_reach: "rg_reach (NewSharedMemoryRingBuffer 64 2) used_ring"
proof -
  have "rg_reach (NewSharedMemoryRingBuffer 64 2) (rg_call 0 (W_Closed [7]) small_ring)"
    unfolding small_ring_def by (rule reach_call) (auto simp: NewSharedMemoryRingBuffer_def intro: reach_refl)
  then show ?thesis unfolding used_ring_def by (rule reach_call) (simp add: written_ring)
qed

lemma used_reach1: "rg_reach1 0 (NewSharedMemoryRingBuffer 64 2) used_ring"
proof -
  have "single_reach 0 small_ring small_ring"
    by (simp add: single_reach_def reach1_refl) (simp add: small_ring_def NewSharedMemoryRingBuffer_def)
  then have "single_reach 0 small_ring (rg_call 0 (W_Closed [7]) small_ring)"
    by (rule single_reach_call) (simp_all add: small_ring_def NewSharedMemoryRingBuffer_def)
  then have "single_reach 0 small_ring used_ring"
    unfolding used_ring_def by (rule single_reach_call) (simp_all add: written_ring)
  then show ?thesis by (simp add: single_reach_def) (simp add: small_ring_def)
qed

section \<open>Properties\<close>

lemma payload_of_small:
  assumes "memory_ok rb" and "rg_slotSize rb < 2 ^ 32" and "i < length (rg_written rb)"
  shows "slot_payload (rg_written rb ! i) = rg_written rb ! i"
  using memory_okD(8) [OF assms(1) nth_mem [OF assms(3)]] assms(2)
  by (intro slot_payload_small) (simp add: fits_def)

lemma rg_sizes:
  "rg_reach rb0 rb \<Longrightarrow> rg_slotSize rb = rg_slotSize rb0"
proof (induction rule: rg_reach.induct)
  case (reach_step rb rb')
  have "rg_slotSize (rg_next t rb) = rg_slotSize rb" for t
    by (cases "rg_pc rb t") (simp_all add: rg_next_cases rg_Read_step_def rg_Write_step_def Let_def)
  with reach_step show ?case by (auto elim: rg_step.cases)
qed simp

lemma small_slots:
  assumes "rg_reach (NewSharedMemoryRingBuffer slotSize slotCount) rb" and "slotSize < 2 ^ 32"
  shows "rg_slotSize rb < 2 ^ 32"
  using rg_sizes [OF assms(1)] assms(2) by (auto simp: NewSharedMemoryRingBuffer_def)

text \<open>C2: no message is lost, duplicated or mixed up, however many writers and readers of however many
  processes interleave: each message that a read returned is the one written under its index, no
  index is returned twice, a message that was serialized comes back deserialized, and whenever no
  call is in flight exactly the messages below the read index have been returned and the others,
  at most one for each slot, lie ready in their slots. Slots are smaller than \<open>2 ^ 32\<close> bytes, so that the
  length field holds the length, and fewer than \<open>2 ^ 64\<close> messages were written, so that no index has
  wrapped.\<close>

theorem SharedMemory_delivers_exactly_once:
  assumes "rg_reach (NewSharedMemoryRingBuffer slotSize slotCount) rb"
    and "slotSize < 2 ^ 32" and "length (rg_written rb) < 2 ^ 64"
  shows "distinct (map fst (rg_returned rb))
    \<and> (\<forall>(i, data) \<in> set (rg_returned rb). i < length (rg_written rb) \<and> data = rg_written rb ! i
        \<and> (\<forall>msg. small_message msg \<and> serializeMessage msg = Some (rg_written rb ! i)
              \<longrightarrow> deserializeMessage data = Some (Inr msg)))
    \<and> ((\<forall>t. at_rest (rg_pc rb t)) \<longrightarrow>
        fst ` set (rg_returned rb) = {..<rg_readIndex rb}
        \<and> length (rg_written rb) \<le> rg_readIndex rb + rg_slotCount rb
        \<and> (\<forall>i. rg_readIndex rb \<le> i \<and> i < length (rg_written rb) \<longrightarrow>
              rg_flag rb (i mod rg_slotCount rb) = SlotReady
              \<and> rg_slot rb (i mod rg_slotCount rb) = slot_payload (rg_written rb ! i)))"
proof (intro conjI impI)
  have ok: "ring_ok rb" using assms(1) New_ok assms(3) by (rule rg_reach_ok)
  note mem = ring_okD(1) [OF ok] and small = payload_of_small [OF ring_okD(1) [OF ok] small_slots [OF assms(1,2)]]
  have ret: "distinct (map fst (rg_returned rb))"
    "\<And>i m. (i, m) \<in> set (rg_returned rb) \<Longrightarrow> i < rg_readIndex rb \<and> m = rg_written rb ! i"
    using mem small memory_okD(2,4) [OF mem] by (auto simp: memory_ok_def)
  then show "distinct (map fst (rg_returned rb))" by simp
  show "\<forall>(i, data) \<in> set (rg_returned rb). i < length (rg_written rb) \<and> data = rg_written rb ! i
    \<and> (\<forall>msg. small_message msg \<and> serializeMessage msg = Some (rg_written rb ! i)
          \<longrightarrow> deserializeMessage data = Some (Inr msg))"
    using ret(2) memory_okD(2,4) [OF mem]
    by (fastforce simp: serialize_bytes deserialize_bytes)
  assume rest: "\<forall>t. at_rest (rg_pc rb t)"
  show "fst ` set (rg_returned rb) = {..<rg_readIndex rb}"
    using ret(2) ring_okD(4) [OF ok] rest at_rest_pc by (force simp: image_iff)
  show "length (rg_written rb) \<le> rg_readIndex rb + rg_slotCount rb"
    using memory_okD(3,4) [OF mem] by simp
  show "\<forall>i. rg_readIndex rb \<le> i \<and> i < length (rg_written rb) \<longrightarrow>
    rg_flag rb (i mod rg_slotCount rb) = SlotReady \<and> rg_slot rb (i mod rg_slotCount rb) = slot_payload (rg_written rb ! i)"
  proof (intro allI impI)
    fix i assume i: "rg_readIndex rb \<le> i \<and> i < length (rg_written rb)"
    then have "live rb (i mod rg_slotCount rb)" using memory_okD(4) [OF mem] by (auto simp: live_def)
    then have "rg_flag rb (i mod rg_slotCount rb) = SlotReady"
      using rest_flags [OF ok rest slot_less [OF mem]] by simp
    with i memory_okD(4,7) [OF mem] small show "rg_flag rb (i mod rg_slotCount rb) = SlotReady
      \<and> rg_slot rb (i mod rg_slotCount rb) = slot_payload (rg_written rb ! i)" by simp
  qed
qed

theorem SharedMemory_delivers_exactly_once_witness:
  "rg_returned used_ring = [(0, [7])] \<and> rg_written used_ring = [[7]]
    \<and> fst ` set (rg_returned used_ring) = {..<rg_readIndex used_ring}"
  using SharedMemory_delivers_exactly_once [OF used_reach] used_rest by (simp add: used_ring_state)

text \<open>C25: a single consumer sees the messages in the order they were written: what it has been given
  so far is a prefix of what was written, whoever wrote it (with the bounds of
  \<open>SharedMemory_delivers_exactly_once\<close> on the slots and on the number of messages).\<close>

theorem SharedMemory_single_consumer_in_order:
  assumes "rg_reach1 c (NewSharedMemoryRingBuffer slotSize slotCount) rb" and "at_rest (rg_pc rb c)"
    and "slotSize < 2 ^ 32" and "length (rg_written rb) < 2 ^ 64"
  shows "map snd (rg_returned rb) = take (rg_readIndex rb) (rg_written rb)"
proof -
  from reach1_in_order [OF assms(1,4)] have ok: "ring_ok rb" and ord: "in_order rb"
    and single: "\<forall>t. t \<noteq> c \<longrightarrow> \<not> in_read (rg_pc rb t)" by auto
  note mem = ring_okD(1) [OF ok]
  note small = payload_of_small [OF mem small_slots [OF reach1_reach [OF assms(1)] assms(3)]]
  have ret: "i < rg_readIndex rb \<and> m = rg_written rb ! i" if "(i, m) \<in> set (rg_returned rb)" for i m
    using mem that small memory_okD(2,4) [OF mem] by (auto simp: memory_ok_def)
  have "\<not> reading i (rg_pc rb t)" for i t
    using single at_rest_pc [OF assms(2)] reading_in_read by metis
  then have "set (map fst (rg_returned rb)) = {..<rg_readIndex rb}"
    using ret ring_okD(4) [OF ok] by (force simp: image_iff)
  with ord have idx: "map fst (rg_returned rb) = [0..<rg_readIndex rb]"
    by (intro sorted_all_below) (auto simp: in_order_def)
  then have len: "length (rg_returned rb) = rg_readIndex rb" by (metis length_map length_upt minus_nat.diff_0)
  show ?thesis
  proof (rule nth_equalityI)
    show "length (map snd (rg_returned rb)) = length (take (rg_readIndex rb) (rg_written rb))"
      using len memory_okD(2,4) [OF mem] by simp
    fix k assume k: "k < length (map snd (rg_returned rb))"
    then have "fst (rg_returned rb ! k) = k" using arg_cong [OF idx, of "\<lambda>xs. xs ! k"] len by simp
    with ret [of k "snd (rg_returned rb ! k)"] k len show
      "map snd (rg_returned rb) ! k = take (rg_readIndex rb) (rg_written rb) ! k"
      by (metis length_map nth_map nth_mem nth_take prod.collapse)
  qed
qed

theorem SharedMemory_single_consumer_in_order_witness:
  "map snd (rg_returned used_ring) = take 1 [[7]] \<and> rg_pc used_ring 0 = R_Done (Inr [7])"
  using SharedMemory_single_consumer_in_order [OF used_reach1] used_rest
  by (simp add: used_ring_state)

text \<open>With no other call in flight the buffer is a bounded queue: \<open>Write\<close> fails only for a message
  that does not fit a slot and for a full buffer, \<open>Read\<close> returns the oldest message that was not
  read, or that the buffer is empty.\<close>

theorem SharedMemory_bounded_queue:
  assumes "rg_reach (NewSharedMemoryRingBuffer slotSize slotCount) rb"
    and "\<forall>t. at_rest (rg_pc rb t)" and "\<not> rg_closed rb"
    and "slotSize < 2 ^ 32" and "length (rg_written rb) < 2 ^ 64"
  shows "rg_pc (rg_call t (W_Closed m) rb) t
      = W_Done (if length m + slotHeaderSize > rg_slotSize rb then Some ErrMessageTooLarge
                else if length (rg_written rb) - rg_readIndex rb < rg_slotCount rb then None
                else Some ErrSharedMemoryFull)
    \<and> rg_pc (rg_call t R_Closed rb) t
      = R_Done (if rg_readIndex rb < length (rg_written rb) then Inr (rg_written rb ! rg_readIndex rb)
                else Inl ErrSharedMemoryEmpty)"
proof -
  have ok: "ring_ok rb" using assms(1) New_ok assms(5) by (rule rg_reach_ok)
  note mem = ring_okD(1) [OF ok]
  have "rg_writeIndex rb < rg_readIndex rb + rg_slotCount rb
    \<longleftrightarrow> length (rg_written rb) - rg_readIndex rb < rg_slotCount rb"
    using memory_okD(2,4) [OF mem] by auto
  then show ?thesis
    using call_Write [OF ok assms(2,3), of t m] call_Read [OF ok assms(2,3), of t] memory_okD(4) [OF mem]
      payload_of_small [OF mem small_slots [OF assms(1,4)]]
    by (auto simp: fits_def not_le)
qed

theorem SharedMemory_bounded_queue_witness:
  "rg_pc (rg_call 3 (W_Closed [8]) used_ring) 3 = W_Done None
    \<and> rg_pc (rg_call 3 R_Closed used_ring) 3 = R_Done (Inl ErrSharedMemoryEmpty)"
  using SharedMemory_bounded_queue [OF used_reach used_rest, of 3 "[8]"]
  by (simp add: used_ring_state slotHeaderSize_def)

end
