(* ===== verification/HftRing.thy ===== *)
theory HftRing
  imports Interfaces Bitcounts
begin

text \<open>
  \<open>messages/msg_hft_shared_memory.go\<close>: the ring buffer of fixed-size messages for one producer and one
  consumer. Both work on the slots by index: a pointer to a message is the index of its slot, and
  \<open>Consume\<close> returns that pointer. Each operation is one step here; sequence numbers are unbounded,
  the code's would wrap after \<open>2 ^ 64\<close> messages.
\<close>

record hft_message =
  Sequence :: nat
  Timestamp :: "64 word"
  Symbol :: "8 word list"
  Price :: "64 word"
  Quantity :: "64 word"
  Side :: "8 word"
  OrderType :: "8 word"
  Flags :: "16 word"
  OrderID :: "32 word"
  AccountID :: "64 word"
  StrategyID :: "32 word"
  Extra :: "8 word list"

definition zero_message :: hft_message where
  "zero_message = \<lparr>Sequence = 0, Timestamp = 0, Symbol = replicate 8 0, Price = 0, Quantity = 0, Side = 0,
     OrderType = 0, Flags = 0, OrderID = 0, AccountID = 0, StrategyID = 0, Extra = replicate 48 0\<rparr>"

datatype hft_state = HftEmpty | HftWriting | HftReady | HftReading

record hft_ring =
  hf_slotCount :: nat
  hf_mask :: nat
  hf_write :: nat
  hf_read :: nat
  hf_closed :: bool
  hf_state :: "nat \<Rightarrow> hft_state"
  hf_message :: "nat \<Rightarrow> hft_message"

datatype hft_error = ErrHFTBufferFull | ErrHFTBufferEmpty | ErrHFTClosed | ErrNotPowerOfTwo

definition isPowerOfTwo :: "64 word \<Rightarrow> bool" where
  "isPowerOfTwo n \<longleftrightarrow> n > 0 \<and> n AND (n - 1) = 0"

definition NewHFTRingBuffer :: "64 word \<Rightarrow> hft_error + hft_ring" where
  "NewHFTRingBuffer slotCount =
     (let slotCount = (if slotCount = 0 then 1024 else slotCount)
      in if \<not> isPowerOfTwo slotCount then Inl ErrNotPowerOfTwo
         else Inr \<lparr>hf_slotCount = unat slotCount, hf_mask = unat (slotCount - 1), hf_write = 0, hf_read = 0,
           hf_closed = False, hf_state = (\<lambda>_. HftEmpty), hf_message = (\<lambda>_. zero_message)\<rparr>)"

text \<open>\<open>Publish\<close> fills in the caller's message as well, but for the caller that is the end of it.\<close>

definition hf_Publish :: "64 word \<Rightarrow> hft_message \<Rightarrow> hft_ring \<Rightarrow> hft_error option \<times> hft_ring" where
  "hf_Publish now msg rb =
     (if hf_closed rb then (Some ErrHFTClosed, rb)
      else let writeSeq = hf_write rb; readSeq = hf_read rb
      in if writeSeq - readSeq \<ge> hf_slotCount rb then (Some ErrHFTBufferFull, rb)
      else let slotIdx = writeSeq AND hf_mask rb
      in if hf_state rb slotIdx \<noteq> HftEmpty then (Some ErrHFTBufferFull, rb)
      else let msg = msg\<lparr>Sequence := writeSeq\<rparr>;
               msg = (if Timestamp msg = 0 then msg\<lparr>Timestamp := now\<rparr> else msg)
      in (None, rb\<lparr>hf_message := (hf_message rb)(slotIdx := msg),
                   hf_state := (hf_state rb)(slotIdx := HftReady), hf_write := writeSeq + 1\<rparr>))"

definition hf_Consume :: "hft_ring \<Rightarrow> (hft_error + nat) \<times> hft_ring" where
  "hf_Consume rb =
     (if hf_closed rb \<and> hf_read rb \<ge> hf_write rb then (Inl ErrHFTClosed, rb)
      else let readSeq = hf_read rb; writeSeq = hf_write rb
      in if readSeq \<ge> writeSeq then (Inl ErrHFTBufferEmpty, rb)
      else let slotIdx = readSeq AND hf_mask rb
      in if hf_state rb slotIdx \<noteq> HftReady then (Inl ErrHFTBufferEmpty, rb)
      else (Inr slotIdx, rb\<lparr>hf_state := (hf_state rb)(slotIdx := HftEmpty), hf_read := readSeq + 1\<rparr>))"

definition hf_ConsumeCopy :: "hft_ring \<Rightarrow> (hft_error + hft_message) \<times> hft_ring" where
  "hf_ConsumeCopy rb =
     (case hf_Consume rb of
        (Inl err, rb) \<Rightarrow> (Inl err, rb)
      | (Inr ptr, rb) \<Rightarrow> (Inr (hf_message rb ptr), rb))"

definition hf_Size :: "hft_ring \<Rightarrow> nat" where
  "hf_Size rb = hf_write rb - hf_read rb"

definition hf_IsClosed :: "hft_ring \<Rightarrow> bool" where
  "hf_IsClosed rb = hf_closed rb"

definition hf_Close :: "hft_ring \<Rightarrow> hft_ring" where
  "hf_Close rb = rb\<lparr>hf_closed := True\<rparr>"

text \<open>\<open>SendOrder\<close> of a producer with a symbol and an account.\<close>

record hft_producer =
  hp_symbol :: "8 word list"
  hp_accountID :: "64 word"

definition hf_SendOrder :: "64 word \<Rightarrow> hft_producer \<Rightarrow> 64 word \<Rightarrow> 64 word \<Rightarrow> 8 word \<Rightarrow> 8 word \<Rightarrow> 32 word
    \<Rightarrow> hft_ring \<Rightarrow> hft_error option \<times> hft_ring" where
  "hf_SendOrder now p price quantity side orderType orderID rb =
     hf_Publish now (zero_message\<lparr>Timestamp := now, Symbol := hp_symbol p, Price := price,
       Quantity := quantity, Side := side, OrderType := orderType, OrderID := orderID,
       AccountID := hp_accountID p\<rparr>) rb"

section \<open>Powers of two\<close>

lemma bits_0 [simp]: "bits 0 = {}"
  by (simp add: bits_def)

lemma single_bit: "card (bits n) = 1 \<Longrightarrow> \<exists>k. n = 2 ^ k"
proof -
  assume "card (bits n) = 1"
  then obtain k where k: "bits n = {k}" by (auto simp: card_1_singleton_iff)
  have "n = 2 ^ k"
  proof (rule bit_eqI)
    fix i
    have "bit n i \<longleftrightarrow> i = k" using k by (auto simp: bits_def set_eq_iff)
    then show "bit n i = bit (2 ^ k :: nat) i" by (auto simp: bit_exp_iff possible_bit_def)
  qed
  then show ?thesis by blast
qed

lemma isPowerOfTwo_iff: "isPowerOfTwo n \<longleftrightarrow> (\<exists>k. unat n = 2 ^ k)"
proof
  assume "isPowerOfTwo n"
  then have n: "n \<noteq> 0" "n AND (n - 1) = 0" by (auto simp: isPowerOfTwo_def)
  from ones_clear_lowest [OF n(1)] n(2) have "card (bits (unat n)) = 1" by (simp add: ones_bits)
  then show "\<exists>k. unat n = 2 ^ k" by (rule single_bit)
next
  assume "\<exists>k. unat n = 2 ^ k"
  then obtain k where k: "unat n = 2 ^ k" by blast
  then have n: "n \<noteq> 0" by auto
  have "bits (2 ^ k) = {k}" by (auto simp: bits_def bit_exp_iff possible_bit_def)
  then have "ones n = 1" using k by (simp add: ones_bits)
  with ones_clear_lowest [OF n] have "ones (n AND (n - 1)) = 0" by simp
  then have "n AND (n - 1) = 0"
    using ones_clear_lowest [of "n AND (n - 1)"] by fastforce
  with n show "isPowerOfTwo n" by (simp add: isPowerOfTwo_def word_gt_0)
qed

lemma and_mask_mod: "x AND (2 ^ k - 1) = x mod 2 ^ k" for x :: nat
  using take_bit_eq_mask [of k x] by (simp add: take_bit_eq_mod mask_eq_exp_minus_1)

section \<open>The queue of messages\<close>

definition hf_ok :: "hft_ring \<Rightarrow> bool" where
  "hf_ok rb \<longleftrightarrow> (\<exists>k. hf_slotCount rb = 2 ^ k) \<and> hf_mask rb = hf_slotCount rb - 1
     \<and> hf_read rb \<le> hf_write rb \<and> hf_write rb \<le> hf_read rb + hf_slotCount rb
     \<and> (\<forall>s < hf_slotCount rb. hf_state rb s =
          (if \<exists>i. hf_read rb \<le> i \<and> i < hf_write rb \<and> i mod hf_slotCount rb = s then HftReady else HftEmpty))"

definition hf_queue :: "hft_ring \<Rightarrow> hft_message list" where
  "hf_queue rb = map (\<lambda>i. hf_message rb (i mod hf_slotCount rb)) [hf_read rb..<hf_write rb]"

lemma hf_index: "hf_ok rb \<Longrightarrow> i AND hf_mask rb = i mod hf_slotCount rb"
  by (auto simp: hf_ok_def and_mask_mod [unfolded One_nat_def])

lemma hf_count_pos: "hf_ok rb \<Longrightarrow> 0 < hf_slotCount rb"
  by (auto simp: hf_ok_def)

lemma hf_okD:
  assumes "hf_ok rb"
  shows "hf_read rb \<le> hf_write rb" and "hf_write rb \<le> hf_read rb + hf_slotCount rb"
    and "s < hf_slotCount rb \<Longrightarrow> hf_state rb s =
      (if \<exists>i. hf_read rb \<le> i \<and> i < hf_write rb \<and> i mod hf_slotCount rb = s then HftReady else HftEmpty)"
  using assms by (auto simp: hf_ok_def)

text \<open>A live index is alone in its slot.\<close>

lemma hf_alone:
  assumes "hf_ok rb" and "i mod hf_slotCount rb = j mod hf_slotCount rb"
    and "hf_read rb \<le> i" and "i < w" and "hf_read rb \<le> j" and "j < w" and "w \<le> hf_read rb + hf_slotCount rb"
  shows "i = j"
  using assms(2-7) by (rule mod_window)

lemma hf_free_slot:
  assumes ok: "hf_ok rb" and room: "hf_write rb < hf_read rb + hf_slotCount rb"
  shows "hf_state rb (hf_write rb mod hf_slotCount rb) = HftEmpty"
proof -
  have "\<not> (hf_read rb \<le> i \<and> i < hf_write rb \<and> i mod hf_slotCount rb = hf_write rb mod hf_slotCount rb)" for i
    using hf_alone [OF ok, of i "hf_write rb" "Suc (hf_write rb)"] room hf_okD(1) [OF ok] by auto
  then show ?thesis using hf_okD(3) [OF ok] hf_count_pos [OF ok] by simp
qed

definition stamped :: "64 word \<Rightarrow> nat \<Rightarrow> hft_message \<Rightarrow> hft_message" where
  "stamped now n msg = (let msg = msg\<lparr>Sequence := n\<rparr>
     in if Timestamp msg = 0 then msg\<lparr>Timestamp := now\<rparr> else msg)"

lemma Publish_room:
  assumes ok: "hf_ok rb" and "\<not> hf_closed rb" and room: "hf_write rb < hf_read rb + hf_slotCount rb"
  shows "\<exists>rb'. hf_Publish now msg rb = (None, rb') \<and> hf_ok rb' \<and> hf_write rb' = Suc (hf_write rb)
    \<and> hf_queue rb' = hf_queue rb @ [stamped now (hf_write rb) msg] \<and> \<not> hf_closed rb'
    \<and> hf_slotCount rb' = hf_slotCount rb \<and> hf_read rb' = hf_read rb
    \<and> hf_message rb' (hf_write rb mod hf_slotCount rb) = stamped now (hf_write rb) msg"
proof -
  let ?s = "hf_write rb mod hf_slotCount rb" and ?m = "stamped now (hf_write rb) msg"
  let ?rb = "rb\<lparr>hf_message := (hf_message rb)(?s := ?m), hf_state := (hf_state rb)(?s := HftReady),
    hf_write := hf_write rb + 1\<rparr>"
  note r = hf_okD(1,2) [OF ok]
  have p: "hf_Publish now msg rb = (None, ?rb)"
    using assms(2) room hf_free_slot [OF ok room] r
    by (simp add: hf_Publish_def hf_index [OF ok] stamped_def Let_def)
  have alone: "i mod hf_slotCount rb \<noteq> ?s" if "hf_read rb \<le> i" "i < hf_write rb" for i
    using hf_alone [OF ok, of i "hf_write rb" "Suc (hf_write rb)"] that room by auto
  have "hf_queue ?rb = hf_queue rb @ [?m]"
    using alone r by (auto simp: hf_queue_def)
  moreover have "hf_ok ?rb"
  proof -
    have "((hf_state rb)(?s := HftReady)) s =
      (if \<exists>i. hf_read rb \<le> i \<and> i < Suc (hf_write rb) \<and> i mod hf_slotCount rb = s then HftReady else HftEmpty)"
      if "s < hf_slotCount rb" for s
    proof (cases "s = ?s")
      case True
      then show ?thesis using r by auto
    next
      case False
      then show ?thesis using hf_okD(3) [OF ok that] by (simp add: less_Suc_eq) metis
    qed
    then show ?thesis using ok room r by (simp add: hf_ok_def)
  qed
  ultimately show ?thesis using p assms(2) by simp
qed

lemma Publish_full:
  assumes "hf_ok rb" and "\<not> hf_closed rb" and "\<not> hf_write rb < hf_read rb + hf_slotCount rb"
  shows "hf_Publish now msg rb = (Some ErrHFTBufferFull, rb)"
proof -
  have "hf_slotCount rb \<le> hf_write rb - hf_read rb" using assms(3) by arith
  with assms(2) show ?thesis by (simp add: hf_Publish_def Let_def)
qed

lemma Consume_ready:
  assumes ok: "hf_ok rb" and some: "hf_read rb < hf_write rb"
  shows "\<exists>rb'. hf_Consume rb = (Inr (hf_read rb mod hf_slotCount rb), rb') \<and> hf_ok rb'
    \<and> hf_message rb' (hf_read rb mod hf_slotCount rb) = hd (hf_queue rb) \<and> hf_queue rb' = tl (hf_queue rb)
    \<and> hf_write rb' = hf_write rb \<and> hf_read rb' = Suc (hf_read rb) \<and> hf_closed rb' = hf_closed rb
    \<and> hf_slotCount rb' = hf_slotCount rb"
proof -
  let ?s = "hf_read rb mod hf_slotCount rb"
  let ?rb = "rb\<lparr>hf_state := (hf_state rb)(?s := HftEmpty), hf_read := hf_read rb + 1\<rparr>"
  note r = hf_okD(1,2) [OF ok]
  have state: "hf_state rb ?s = HftReady"
    using hf_okD(3) [OF ok, of ?s] hf_count_pos [OF ok] some by auto
  have c: "hf_Consume rb = (Inr ?s, ?rb)"
    using some state by (simp add: hf_Consume_def hf_index [OF ok] Let_def)
  have q: "[hf_read rb..<hf_write rb] = hf_read rb # [Suc (hf_read rb)..<hf_write rb]"
    using some by (simp add: upt_conv_Cons)
  have "hf_queue ?rb = tl (hf_queue rb)" "hf_message ?rb ?s = hd (hf_queue rb)"
    by (simp_all add: hf_queue_def q)
  moreover have "hf_ok ?rb"
  proof -
    have "((hf_state rb)(?s := HftEmpty)) s =
      (if \<exists>i. Suc (hf_read rb) \<le> i \<and> i < hf_write rb \<and> i mod hf_slotCount rb = s then HftReady else HftEmpty)"
      if "s < hf_slotCount rb" for s
    proof (cases "s = ?s")
      case True
      have "\<not> (Suc (hf_read rb) \<le> i \<and> i < hf_write rb \<and> i mod hf_slotCount rb = ?s)" for i
        using hf_alone [OF ok, of i "hf_read rb" "hf_write rb"] some r by auto
      with True show ?thesis by simp
    next
      case False
      then have "hf_read rb \<le> i \<and> i < hf_write rb \<and> i mod hf_slotCount rb = s
        \<longleftrightarrow> Suc (hf_read rb) \<le> i \<and> i < hf_write rb \<and> i mod hf_slotCount rb = s" for i
        by (cases "i = hf_read rb") auto
      then show ?thesis using hf_okD(3) [OF ok that] False by simp
    qed
    then show ?thesis using ok some by (simp add: hf_ok_def)
  qed
  ultimately show ?thesis using c by simp
qed

lemma Consume_empty:
  assumes "\<not> hf_read rb < hf_write rb"
  shows "hf_Consume rb = (Inl (if hf_closed rb then ErrHFTClosed else ErrHFTBufferEmpty), rb)"
  using assms by (simp add: hf_Consume_def Let_def)

lemma queue_length: "hf_ok rb \<Longrightarrow> length (hf_queue rb) = hf_write rb - hf_read rb"
  by (simp add: hf_queue_def)

lemma New_hf_ok:
  assumes "NewHFTRingBuffer n = Inr rb"
  shows "hf_ok rb" and "hf_queue rb = []" and "hf_write rb = 0" and "\<not> hf_closed rb" and "hf_read rb = 0"
proof -
  define m where "m = (if n = 0 then 1024 else n :: 64 word)"
  from assms have p: "isPowerOfTwo m" and rb: "rb = \<lparr>hf_slotCount = unat m, hf_mask = unat (m - 1), hf_write = 0,
    hf_read = 0, hf_closed = False, hf_state = (\<lambda>_. HftEmpty), hf_message = (\<lambda>_. zero_message)\<rparr>"
    by (auto simp: NewHFTRingBuffer_def m_def [symmetric] Let_def split: if_splits)
  from p have "m \<noteq> 0" by (auto simp: isPowerOfTwo_def)
  then have "unat (m - 1) = unat m - 1" by (simp add: unat_minus_one)
  with p show "hf_ok rb" "hf_queue rb = []" "hf_write rb = 0" "\<not> hf_closed rb" "hf_read rb = 0"
    by (simp_all add: rb hf_ok_def hf_queue_def isPowerOfTwo_iff)
qed

section \<open>Sequences of operations\<close>

datatype hft_op = HPublish "64 word" hft_message | HConsumeCopy | HSize | HClose

datatype hft_out = Published "hft_error option" | Consumed "hft_error + hft_message" | HCount nat | Closed

fun hf_step :: "hft_ring \<Rightarrow> hft_op \<Rightarrow> (hft_out \<times> hft_ring) option" where
  "hf_step rb (HPublish now msg) = Some (let (e, rb) = hf_Publish now msg rb in (Published e, rb))"
| "hf_step rb HConsumeCopy = Some (let (r, rb) = hf_ConsumeCopy rb in (Consumed r, rb))"
| "hf_step rb HSize = Some (HCount (hf_Size rb), rb)"
| "hf_step rb HClose = Some (Closed, hf_Close rb)"

text \<open>The specification: whether it is closed, how many were published, and a queue of at most \<open>n\<close>.\<close>

fun hft_spec :: "nat \<Rightarrow> bool \<times> nat \<times> hft_message list \<Rightarrow> hft_op \<Rightarrow> hft_out \<times> bool \<times> nat \<times> hft_message list" where
  "hft_spec n (c, w, q) (HPublish now msg) =
     (if c then (Published (Some ErrHFTClosed), c, w, q)
      else if length q < n then (Published None, c, Suc w, q @ [stamped now w msg])
      else (Published (Some ErrHFTBufferFull), c, w, q))"
| "hft_spec n (c, w, q) HConsumeCopy =
     (case q of [] \<Rightarrow> (Consumed (Inl (if c then ErrHFTClosed else ErrHFTBufferEmpty)), c, w, q)
              | m # q' \<Rightarrow> (Consumed (Inr m), c, w, q'))"
| "hft_spec n (c, w, q) HSize = (HCount (length q), c, w, q)"
| "hft_spec n (c, w, q) HClose = (Closed, True, w, q)"

definition hf_rel :: "nat \<Rightarrow> hft_ring \<Rightarrow> bool \<times> nat \<times> hft_message list \<Rightarrow> bool" where
  "hf_rel n rb a \<longleftrightarrow> hf_ok rb \<and> hf_slotCount rb = n \<and> a = (hf_closed rb, hf_write rb, hf_queue rb)"

lemma hf_step_refines:
  assumes "hf_rel n rb a"
  shows "\<exists>rb'. hf_step rb x = Some (fst (hft_spec n a x), rb') \<and> hf_rel n rb' (snd (hft_spec n a x))"
proof -
  have ok: "hf_ok rb" and n: "n = hf_slotCount rb" and a: "a = (hf_closed rb, hf_write rb, hf_queue rb)"
    using assms by (simp_all add: hf_rel_def)
  have len: "length (hf_queue rb) < n \<longleftrightarrow> hf_write rb < hf_read rb + hf_slotCount rb"
    using queue_length [OF ok] hf_okD(1) [OF ok] n by auto
  show ?thesis
  proof (cases x)
    case (HPublish now msg)
    show ?thesis
    proof (cases "hf_closed rb")
      case True
      with HPublish a assms show ?thesis by (simp add: hf_Publish_def)
    next
      case False
      show ?thesis
      proof (cases "hf_write rb < hf_read rb + hf_slotCount rb")
        case True
        from Publish_room [OF ok False True, of now msg] HPublish a n len True False show ?thesis
          by (auto simp: hf_rel_def)
      next
        case room: False
        with Publish_full [OF ok False room, of now msg] HPublish a assms len False show ?thesis by simp
      qed
    qed
  next
    case HConsumeCopy
    show ?thesis
    proof (cases "hf_read rb < hf_write rb")
      case True
      then have "hf_queue rb \<noteq> []" using queue_length [OF ok] by auto
      with Consume_ready [OF ok True] HConsumeCopy a n show ?thesis
        by (cases "hf_queue rb") (auto simp: hf_rel_def hf_ConsumeCopy_def)
    next
      case False
      then have "hf_queue rb = []" by (simp add: hf_queue_def)
      with Consume_empty [OF False] HConsumeCopy a assms show ?thesis by (simp add: hf_ConsumeCopy_def)
    qed
  next
    case HSize
    with a assms queue_length [OF ok] show ?thesis by (simp add: hf_Size_def)
  next
    case HClose
    with a assms show ?thesis by (auto simp: hf_Close_def hf_rel_def hf_ok_def hf_queue_def)
  qed
qed

interpretation hft: refinement hf_step "hft_spec n" "hf_rel n" for n
  by unfold_locales (rule hf_step_refines)

text \<open>Every message in the queue carries its place in the order of publication.\<close>

lemma spec_sequences:
  assumes "hft_spec n (c, w, q) x = (r, c', w', q')" and "map Sequence q = [w - length q..<w]" and "length q \<le> w"
  shows "map Sequence q' = [w' - length q'..<w'] \<and> length q' \<le> w'
    \<and> (\<forall>m. r = Consumed (Inr m) \<longrightarrow> Sequence m = w - length q \<and> w' - length q' = Suc (w - length q))
    \<and> ((\<forall>m. r \<noteq> Consumed (Inr m)) \<longrightarrow> w' - length q' = w - length q)"
proof (cases x)
  case (HPublish now msg)
  have "Sequence (stamped now w msg) = w" by (simp add: stamped_def Let_def)
  with HPublish assms show ?thesis by (auto split: if_splits simp: Suc_diff_le)
next
  case HConsumeCopy
  show ?thesis
  proof (cases q)
    case (Cons m qs)
    then have "Sequence m # map Sequence qs = (w - length q) # [Suc (w - length q)..<w]"
      using assms(2,3) by (simp add: upt_conv_Cons)
    with Cons HConsumeCopy assms show ?thesis by (auto simp: Suc_diff_Suc)
  qed (use HConsumeCopy assms in auto)
qed (use assms in auto)

definition consumed :: "hft_out list \<Rightarrow> nat list" where
  "consumed rs = concat (map (\<lambda>r. case r of Consumed (Inr m) \<Rightarrow> [Sequence m] | _ \<Rightarrow> []) rs)"

lemma run_sequences:
  assumes "run_steps (total_step (hft_spec n)) (c, w, q) xs = Some (rs, (c', w', q'))"
    and "map Sequence q = [w - length q..<w]" and "length q \<le> w"
  shows "consumed rs = [w - length q..<w' - length q'] \<and> w - length q \<le> w' - length q'"
  using assms
proof (induction xs arbitrary: c w q rs)
  case Nil
  then show ?case by (simp add: consumed_def)
next
  case (Cons x xs)
  obtain r c1 w1 q1 where s: "hft_spec n (c, w, q) x = (r, c1, w1, q1)" by (metis prod_cases4)
  with Cons.prems(1) obtain rs' where r: "rs = r # rs'"
    "run_steps (total_step (hft_spec n)) (c1, w1, q1) xs = Some (rs', (c', w', q'))"
    by (auto split: bind_splits)
  note q1 = spec_sequences [OF s Cons.prems(2,3)]
  from Cons.IH [OF r(2)] q1 have IH: "consumed rs' = [w1 - length q1..<w' - length q']"
    "w1 - length q1 \<le> w' - length q'" by auto
  show ?case
  proof (cases "\<exists>m. r = Consumed (Inr m)")
    case True
    then obtain m where m: "r = Consumed (Inr m)" by blast
    with q1 have "Sequence m = w - length q" "w1 - length q1 = Suc (w - length q)" by auto
    with IH m r(1) show ?thesis by (simp add: consumed_def upt_conv_Cons)
  next
    case False
    then have "consumed rs = consumed rs'"
      by (auto simp: consumed_def r(1) split: hft_out.splits sum.splits)
    with IH q1 False show ?thesis by auto
  qed
qed

section \<open>Properties\<close>



text \<open>The pointer that \<open>Consume\<close> returns does not stay valid until the next \<open>Consume\<close>: in a full
  buffer the slot is free as soon as \<open>Consume\<close> returns, and the next \<open>Publish\<close> overwrites the message
  the consumer is reading.\<close>

theorem HFT_Consume_pointer_overwritten:
  assumes "hf_ok rb" and "\<not> hf_closed rb" and "hf_write rb = hf_read rb + hf_slotCount rb"
  shows "\<exists>ptr rb1 rb2. hf_Consume rb = (Inr ptr, rb1) \<and> hf_message rb1 ptr = hd (hf_queue rb)
    \<and> hf_Publish now msg rb1 = (None, rb2) \<and> hf_message rb2 ptr = stamped now (hf_write rb) msg"
proof -
  have some: "hf_read rb < hf_write rb" using assms(3) hf_count_pos [OF assms(1)] by simp
  from Consume_ready [OF assms(1) some] obtain rb1 where c:
    "hf_Consume rb = (Inr (hf_read rb mod hf_slotCount rb), rb1)" "hf_ok rb1"
    "hf_message rb1 (hf_read rb mod hf_slotCount rb) = hd (hf_queue rb)" "hf_write rb1 = hf_write rb"
    "hf_read rb1 = Suc (hf_read rb)" "hf_closed rb1 = hf_closed rb" "hf_slotCount rb1 = hf_slotCount rb" by blast
  have "hf_write rb1 < hf_read rb1 + hf_slotCount rb1" using c assms(3) by simp
  from Publish_room [OF c(2) _ this, of now msg] c assms(2) obtain rb2 where
    "hf_Publish now msg rb1 = (None, rb2)"
    "hf_message rb2 (hf_write rb mod hf_slotCount rb) = stamped now (hf_write rb) msg" by auto
  moreover have "hf_write rb mod hf_slotCount rb = hf_read rb mod hf_slotCount rb" using assms(3) by simp
  ultimately show ?thesis using c by auto
qed

definition full_ring :: hft_ring where
  "full_ring = \<lparr>hf_slotCount = 1, hf_mask = 0, hf_write = 1, hf_read = 0, hf_closed = False,
     hf_state = (\<lambda>_. HftReady), hf_message = (\<lambda>_. zero_message)\<rparr>"

lemma full_ring_ok: "hf_ok full_ring"
  by (auto simp: hf_ok_def full_ring_def intro: exI [of _ 0])

theorem HFT_Consume_pointer_overwritten_witness:
  "\<exists>ptr rb1 rb2. hf_Consume full_ring = (Inr ptr, rb1) \<and> hf_message rb1 ptr = zero_message
    \<and> hf_Publish 9 zero_message rb1 = (None, rb2) \<and> Timestamp (hf_message rb2 ptr) = 9"
  using HFT_Consume_pointer_overwritten [OF full_ring_ok, of 9 zero_message]
  by (auto simp: full_ring_def hf_queue_def stamped_def zero_message_def)

end
