(* ===== verification/Graphs.thy ===== *)
theory Graphs
  imports Prelude
begin

text \<open>
  \<open>algo/graph.go\<close>: directed and undirected graphs on nodes with child lists, and
  their searches; the cycle checks are in theory \<open>GraphCycles\<close>.

  A node pointer is \<open>ptr option\<close>, \<open>None\<close> being nil; the nodes live in a heap. Edges are never
  changed once made and are kept by value. \<open>DirectedGraph\<close> and \<open>UndirectedGraph\<close> embed the same
  \<open>baseGraph\<close>; the operations of the interface \<open>Graph\<close> dispatch on \<open>gr_directed\<close>. The result
  \<open>None\<close> is a nil dereference. The callback of a search is modelled by the list of the nodes it
  is called with. A \<open>map[*GraphNode]bool\<close> is the set of the keys mapped to true.

  The recursions and the loop of \<open>BFS\<close> stop because each step marks a node or consumes a queue
  entry; they are given fuel for every node ever allocated, which the theorems show is enough.
\<close>

section \<open>Graphs and their operations\<close>

record 'a gnode =
  gn_Value :: 'a
  gn_Children :: "ptr option list"

record gedge =
  ed_From :: "ptr option"
  ed_To :: "ptr option"
  ed_Weight :: int

type_synonym 'a gheap = "ptr \<rightharpoonup> 'a gnode"

record 'a graph =
  gr_directed :: bool
  gr_heap :: "'a gheap"
  gr_fresh :: ptr
  gr_Nodes :: "ptr list"
  gr_Edges :: "gedge list"

definition NewDirectedGraph :: "'a graph" where
  "NewDirectedGraph =
     \<lparr>gr_directed = True, gr_heap = Map.empty, gr_fresh = 0, gr_Nodes = [], gr_Edges = []\<rparr>"

definition NewUndirectedGraph :: "'a graph" where
  "NewUndirectedGraph =
     \<lparr>gr_directed = False, gr_heap = Map.empty, gr_fresh = 0, gr_Nodes = [], gr_Edges = []\<rparr>"

definition NewGraph :: "bool \<Rightarrow> 'a graph" where
  "NewGraph isDirected = (if isDirected then NewDirectedGraph else NewUndirectedGraph)"

definition gr_AddNode :: "'a graph \<Rightarrow> 'a \<Rightarrow> ptr \<times> 'a graph" where
  "gr_AddNode g x =
     (let node = gr_fresh g
      in (node, g\<lparr>gr_heap := (gr_heap g)(node \<mapsto> \<lparr>gn_Value = x, gn_Children = []\<rparr>),
                 gr_fresh := Suc node, gr_Nodes := gr_Nodes g @ [node]\<rparr>))"

definition gr_load :: "'a gheap \<Rightarrow> ptr option \<Rightarrow> 'a gnode option" where
  "gr_load h q = do { p \<leftarrow> q; h p }"

text \<open>The assignment \<open>node.Children = f(node.Children)\<close>.\<close>

definition gr_children_update ::
  "(ptr option list \<Rightarrow> ptr option list) \<Rightarrow> ptr option \<Rightarrow> 'a gheap \<Rightarrow> 'a gheap option" where
  "gr_children_update f q h =
     do { p \<leftarrow> q; n \<leftarrow> h p; Some (h(p \<mapsto> n\<lparr>gn_Children := f (gn_Children n)\<rparr>)) }"

definition dg_AddEdge ::
  "'a graph \<Rightarrow> ptr option \<Rightarrow> ptr option \<Rightarrow> int \<Rightarrow> (gedge \<times> 'a graph) option" where
  "dg_AddEdge g u v weight =
     (let edge = \<lparr>ed_From = u, ed_To = v, ed_Weight = weight\<rparr>;
          g = g\<lparr>gr_Edges := gr_Edges g @ [edge]\<rparr>
      in do { h \<leftarrow> gr_children_update (\<lambda>cs. cs @ [v]) u (gr_heap g);
              Some (edge, g\<lparr>gr_heap := h\<rparr>) })"

definition ug_AddEdge ::
  "'a graph \<Rightarrow> ptr option \<Rightarrow> ptr option \<Rightarrow> int \<Rightarrow> (gedge \<times> 'a graph) option" where
  "ug_AddEdge g u v weight =
     (let edge = \<lparr>ed_From = u, ed_To = v, ed_Weight = weight\<rparr>;
          g = g\<lparr>gr_Edges := gr_Edges g @ [edge]\<rparr>
      in do { h \<leftarrow> gr_children_update (\<lambda>cs. cs @ [v]) u (gr_heap g);
              h \<leftarrow> gr_children_update (\<lambda>cs. cs @ [u]) v h;
              Some (edge, g\<lparr>gr_heap := h\<rparr>) })"

definition gr_AddEdge ::
  "'a graph \<Rightarrow> ptr option \<Rightarrow> ptr option \<Rightarrow> int \<Rightarrow> (gedge \<times> 'a graph) option" where
  "gr_AddEdge g = (if gr_directed g then dg_AddEdge g else ug_AddEdge g)"

definition gr_FindNode :: "'a graph \<Rightarrow> 'a \<Rightarrow> ptr option" where
  "gr_FindNode g x =
     find (\<lambda>p. map_option gn_Value (gr_heap g p) = Some x) (gr_Nodes g)"

definition gr_GetNeighbors :: "'a graph \<Rightarrow> ptr option \<Rightarrow> ptr option list option" where
  "gr_GetNeighbors g node = map_option gn_Children (gr_load (gr_heap g) node)"

definition gr_edge_between :: "ptr option \<Rightarrow> ptr option \<Rightarrow> gedge \<Rightarrow> bool" where
  "gr_edge_between u v edge \<longleftrightarrow> ed_From edge = u \<and> ed_To edge = v"

definition bg_HasEdge :: "'a graph \<Rightarrow> ptr option \<Rightarrow> ptr option \<Rightarrow> bool" where
  "bg_HasEdge g u v = list_ex (gr_edge_between u v) (gr_Edges g)"

definition gr_HasEdge :: "'a graph \<Rightarrow> ptr option \<Rightarrow> ptr option \<Rightarrow> bool" where
  "gr_HasEdge g u v =
     (if gr_directed g then bg_HasEdge g u v else bg_HasEdge g u v \<or> bg_HasEdge g v u)"

definition bg_GetEdge :: "'a graph \<Rightarrow> ptr option \<Rightarrow> ptr option \<Rightarrow> gedge option" where
  "bg_GetEdge g u v = find (gr_edge_between u v) (gr_Edges g)"

definition gr_GetEdge :: "'a graph \<Rightarrow> ptr option \<Rightarrow> ptr option \<Rightarrow> gedge option" where
  "gr_GetEdge g u v =
     (if gr_directed g then bg_GetEdge g u v
      else case bg_GetEdge g u v of None \<Rightarrow> bg_GetEdge g v u | Some e \<Rightarrow> Some e)"

text \<open>The loop of \<open>RemoveNode\<close> over the other nodes' child lists; both types have the same one.\<close>

fun gr_strip :: "ptr option \<Rightarrow> ptr list \<Rightarrow> 'a gheap \<Rightarrow> 'a gheap option" where
  "gr_strip node [] h = Some h"
| "gr_strip node (n # ns) h =
     (if Some n = node then gr_strip node ns h
      else do { h \<leftarrow> gr_children_update (filter (\<lambda>c. c \<noteq> node)) (Some n) h;
                gr_strip node ns h })"

definition dg_RemoveNode :: "'a graph \<Rightarrow> ptr option \<Rightarrow> 'a graph option" where
  "dg_RemoveNode g node =
     (let g = g\<lparr>gr_Edges := filter (\<lambda>e. ed_From e \<noteq> node \<and> ed_To e \<noteq> node) (gr_Edges g)\<rparr>
      in do { h \<leftarrow> gr_strip node (gr_Nodes g) (gr_heap g);
              Some (g\<lparr>gr_heap := h, gr_Nodes := filter (\<lambda>n. Some n \<noteq> node) (gr_Nodes g)\<rparr>) })"

definition ug_RemoveNode :: "'a graph \<Rightarrow> ptr option \<Rightarrow> 'a graph option" where
  "ug_RemoveNode g node =
     (let g = g\<lparr>gr_Edges := filter (\<lambda>e. ed_From e \<noteq> node \<and> ed_To e \<noteq> node) (gr_Edges g)\<rparr>
      in do { h \<leftarrow> gr_strip node (gr_Nodes g) (gr_heap g);
              Some (g\<lparr>gr_heap := h, gr_Nodes := filter (\<lambda>n. Some n \<noteq> node) (gr_Nodes g)\<rparr>) })"

definition gr_RemoveNode :: "'a graph \<Rightarrow> ptr option \<Rightarrow> 'a graph option" where
  "gr_RemoveNode g = (if gr_directed g then dg_RemoveNode g else ug_RemoveNode g)"

definition dg_RemoveEdge :: "'a graph \<Rightarrow> ptr option \<Rightarrow> ptr option \<Rightarrow> 'a graph option" where
  "dg_RemoveEdge g u v =
     (let g = g\<lparr>gr_Edges := filter (\<lambda>e. \<not> (ed_From e = u \<and> ed_To e = v)) (gr_Edges g)\<rparr>
      in do { h \<leftarrow> gr_children_update (filter (\<lambda>c. c \<noteq> v)) u (gr_heap g);
              Some (g\<lparr>gr_heap := h\<rparr>) })"

definition ug_RemoveEdge :: "'a graph \<Rightarrow> ptr option \<Rightarrow> ptr option \<Rightarrow> 'a graph option" where
  "ug_RemoveEdge g u v =
     (let g = g\<lparr>gr_Edges := filter (\<lambda>e. \<not> ((ed_From e = u \<and> ed_To e = v)
            \<or> (ed_From e = v \<and> ed_To e = u))) (gr_Edges g)\<rparr>
      in do { h \<leftarrow> gr_children_update (filter (\<lambda>c. c \<noteq> v)) u (gr_heap g);
              h \<leftarrow> gr_children_update (filter (\<lambda>c. c \<noteq> u)) v h;
              Some (g\<lparr>gr_heap := h\<rparr>) })"

definition gr_RemoveEdge :: "'a graph \<Rightarrow> ptr option \<Rightarrow> ptr option \<Rightarrow> 'a graph option" where
  "gr_RemoveEdge g = (if gr_directed g then dg_RemoveEdge g else ug_RemoveEdge g)"

section \<open>Searches\<close>

text \<open>The state of a depth-first search: the visited nodes and the calls of the callback so far.\<close>

type_synonym dfs_state = "ptr option set \<times> ptr option list"

fun gr_dfsHelper :: "nat \<Rightarrow> 'a gheap \<Rightarrow> ptr option \<Rightarrow> dfs_state \<Rightarrow> dfs_state option"
  and gr_dfs_children :: "nat \<Rightarrow> 'a gheap \<Rightarrow> ptr option list \<Rightarrow> dfs_state \<Rightarrow> dfs_state option" where
  "gr_dfsHelper 0 h node s = None"
| "gr_dfsHelper (Suc fuel) h node s =
     (if node \<in> fst s then Some s
      else do { let s = (insert node (fst s), snd s @ [node]);
                n \<leftarrow> gr_load h node;
                gr_dfs_children fuel h (gn_Children n) s })"
| "gr_dfs_children fuel h [] s = Some s"
| "gr_dfs_children fuel h (c # cs) s =
     do { s \<leftarrow> (if c \<notin> fst s then gr_dfsHelper fuel h c s else Some s);
          gr_dfs_children fuel h cs s }"

definition gr_DFS :: "'a graph \<Rightarrow> ptr option \<Rightarrow> ptr option list option" where
  "gr_DFS g start =
     (if start = None then Some []
      else map_option snd (gr_dfsHelper (Suc (gr_fresh g)) (gr_heap g) start ({}, [])))"

fun gr_bfs_loop ::
  "nat \<Rightarrow> 'a gheap \<Rightarrow> ptr option list \<Rightarrow> ptr option set \<Rightarrow> ptr option list \<Rightarrow> ptr option list option" where
  "gr_bfs_loop fuel h [] visited out = Some out"
| "gr_bfs_loop 0 h (node # queue) visited out = None"
| "gr_bfs_loop (Suc fuel) h (node # queue) visited out =
     (if node \<in> visited then gr_bfs_loop fuel h queue visited out
      else do { let visited = insert node visited;
                n \<leftarrow> gr_load h node;
                gr_bfs_loop fuel h (queue @ filter (\<lambda>c. c \<notin> visited) (gn_Children n)) visited
                  (out @ [node]) })"

text \<open>An entry of the queue is the start or comes from one element of a child list.\<close>

definition gr_degree :: "'a gheap \<Rightarrow> ptr \<Rightarrow> nat" where
  "gr_degree h p = (case h p of None \<Rightarrow> 0 | Some n \<Rightarrow> length (gn_Children n))"

definition gr_BFS :: "'a graph \<Rightarrow> ptr option \<Rightarrow> ptr option list option" where
  "gr_BFS g start =
     (if start = None then Some []
      else gr_bfs_loop (Suc (sum_list (map (gr_degree (gr_heap g)) [0..<gr_fresh g])))
             (gr_heap g) [start] {} [])"

section \<open>The child lists mirror the edges\<close>

definition dg_adj :: "gedge list \<Rightarrow> ptr option \<Rightarrow> ptr option list" where
  "dg_adj es u = map ed_To (filter (\<lambda>e. ed_From e = u) es)"

fun ug_adj :: "gedge list \<Rightarrow> ptr option \<Rightarrow> ptr option list" where
  "ug_adj [] u = []"
| "ug_adj (e # es) u =
     (if ed_From e = u then [ed_To e] else []) @ (if ed_To e = u then [ed_From e] else [])
     @ ug_adj es u"

definition gr_adj :: "bool \<Rightarrow> gedge list \<Rightarrow> ptr option \<Rightarrow> ptr option list" where
  "gr_adj directed = (if directed then dg_adj else ug_adj)"

lemma dg_adj_simps [simp]:
  "dg_adj [] u = []"
  "dg_adj (e # es) u = (if ed_From e = u then [ed_To e] else []) @ dg_adj es u"
  "dg_adj (es @ fs) u = dg_adj es u @ dg_adj fs u"
  by (auto simp: dg_adj_def)

lemma ug_adj_append [simp]: "ug_adj (es @ fs) u = ug_adj es u @ ug_adj fs u"
  by (induction es) auto

lemma dg_adj_remove_edge:
  "dg_adj (filter (\<lambda>e. \<not> (ed_From e = u \<and> ed_To e = v)) es) p
   = (if p = u then filter (\<lambda>c. c \<noteq> v) (dg_adj es p) else dg_adj es p)"
  by (induction es) auto

lemma ug_adj_remove_edge:
  "ug_adj (filter (\<lambda>e. \<not> ((ed_From e = u \<and> ed_To e = v) \<or> (ed_From e = v \<and> ed_To e = u))) es) p
   = filter (\<lambda>c. \<not> (p = u \<and> c = v) \<and> \<not> (p = v \<and> c = u)) (ug_adj es p)"
  by (induction es) auto

lemma gr_adj_remove_node:
  "p \<noteq> node \<Longrightarrow> gr_adj d (filter (\<lambda>e. ed_From e \<noteq> node \<and> ed_To e \<noteq> node) es) p
   = filter (\<lambda>c. c \<noteq> node) (gr_adj d es p)"
  unfolding gr_adj_def by (induction es) auto

definition gr_ch :: "'a gheap \<Rightarrow> ptr \<Rightarrow> ptr option list option" where
  "gr_ch h p = map_option gn_Children (h p)"

definition gr_mirror :: "'a graph \<Rightarrow> ptr \<Rightarrow> bool" where
  "gr_mirror g p \<longleftrightarrow> gr_ch (gr_heap g) p = Some (gr_adj (gr_directed g) (gr_Edges g) (Some p))"

definition gr_inv :: "'a graph \<Rightarrow> bool" where
  "gr_inv g \<longleftrightarrow> distinct (gr_Nodes g) \<and> (\<forall>p \<in> set (gr_Nodes g). p < gr_fresh g \<and> gr_mirror g p)
     \<and> (\<forall>e \<in> set (gr_Edges g). ed_From e \<in> Some ` set (gr_Nodes g) \<and> ed_To e \<in> Some ` set (gr_Nodes g))"

text \<open>Reachable graphs: every operation is applied to nodes of the graph.\<close>

inductive gr_reach :: "bool \<Rightarrow> 'a graph \<Rightarrow> bool" for isDirected where
  new: "gr_reach isDirected (NewGraph isDirected)"
| add_node: "gr_reach isDirected g \<Longrightarrow> gr_AddNode g x = (p, g') \<Longrightarrow> gr_reach isDirected g'"
| add_edge: "gr_reach isDirected g \<Longrightarrow> u \<in> set (gr_Nodes g) \<Longrightarrow> v \<in> set (gr_Nodes g)
    \<Longrightarrow> gr_AddEdge g (Some u) (Some v) weight = Some (e, g') \<Longrightarrow> gr_reach isDirected g'"
| remove_node: "gr_reach isDirected g \<Longrightarrow> u \<in> set (gr_Nodes g)
    \<Longrightarrow> gr_RemoveNode g (Some u) = Some g' \<Longrightarrow> gr_reach isDirected g'"
| remove_edge: "gr_reach isDirected g \<Longrightarrow> u \<in> set (gr_Nodes g) \<Longrightarrow> v \<in> set (gr_Nodes g)
    \<Longrightarrow> gr_RemoveEdge g (Some u) (Some v) = Some g' \<Longrightarrow> gr_reach isDirected g'"

text \<open>What the heap operations do, seen from the child lists only.\<close>

lemma gr_ch_update_node [simp]:
  "gr_ch (h(p \<mapsto> n)) = (gr_ch h)(p \<mapsto> gn_Children n)"
  by (auto simp: gr_ch_def)

lemma gr_children_update_ch:
  assumes "gr_ch h p = Some cs"
  shows "\<exists>h'. gr_children_update f (Some p) h = Some h' \<and> gr_ch h' = (gr_ch h)(p \<mapsto> f cs)"
  using assms by (cases "h p") (auto simp: gr_ch_def gr_children_update_def)

lemma gr_strip_ch:
  assumes "distinct ns" and "\<And>p. p \<in> set ns \<Longrightarrow> gr_ch h p \<noteq> None"
  shows "\<exists>h'. gr_strip node ns h = Some h' \<and> (\<forall>p. gr_ch h' p =
    (if p \<in> set ns \<and> Some p \<noteq> node then map_option (filter (\<lambda>c. c \<noteq> node)) (gr_ch h p)
     else gr_ch h p))"
  using assms
proof (induction ns arbitrary: h)
  case Nil
  then show ?case by simp
next
  case (Cons p ns)
  show ?case
  proof (cases "Some p = node")
    case True
    from Cons.prems Cons.IH [of h] show ?thesis using True by fastforce
  next
    case False
    from Cons.prems(2) [of p] obtain cs where cs: "gr_ch h p = Some cs" by auto
    from gr_children_update_ch [OF this, of "filter (\<lambda>c. c \<noteq> node)"] obtain k where
      k: "gr_children_update (filter (\<lambda>c. c \<noteq> node)) (Some p) h = Some k"
         "gr_ch k = (gr_ch h)(p \<mapsto> filter (\<lambda>c. c \<noteq> node) cs)" by blast
    from Cons.prems have "distinct ns" and "\<And>q. q \<in> set ns \<Longrightarrow> gr_ch k q \<noteq> None"
      by (auto simp: k(2))
    from Cons.IH [OF this] obtain h' where h': "gr_strip node ns k = Some h'"
      "\<forall>q. gr_ch h' q = (if q \<in> set ns \<and> Some q \<noteq> node
        then map_option (filter (\<lambda>c. c \<noteq> node)) (gr_ch k q) else gr_ch k q)" by blast
    from Cons.prems(1) have "p \<notin> set ns" by simp
    with False cs k h' show ?thesis by auto
  qed
qed

lemma gr_inv_mirror:
  "gr_inv g \<Longrightarrow> p \<in> set (gr_Nodes g) \<Longrightarrow>
    gr_ch (gr_heap g) p = Some (gr_adj (gr_directed g) (gr_Edges g) (Some p))"
  by (simp add: gr_inv_def gr_mirror_def)

lemma gr_inv_edges:
  assumes "gr_inv g" and "set es \<subseteq> set (gr_Edges g) \<union> {e. ed_From e \<in> Some ` set (gr_Nodes g)
      \<and> ed_To e \<in> Some ` set (gr_Nodes g)}"
    and "\<And>p. p \<in> set (gr_Nodes g) \<Longrightarrow> gr_ch h p = Some (gr_adj (gr_directed g) es (Some p))"
  shows "gr_inv (g\<lparr>gr_Edges := es, gr_heap := h\<rparr>)"
  using assms by (auto simp: gr_inv_def gr_mirror_def subset_iff)

lemma gr_inv_new: "gr_inv (NewGraph d)"
  by (simp add: gr_inv_def NewGraph_def NewDirectedGraph_def NewUndirectedGraph_def)

lemma gr_adj_fresh:
  assumes "\<forall>e \<in> set es. ed_From e \<noteq> q \<and> ed_To e \<noteq> q"
  shows "gr_adj d es q = []"
  using assms unfolding gr_adj_def by (induction es) auto

lemma gr_inv_AddNode:
  assumes "gr_inv g" and "gr_AddNode g x = (p, g')"
  shows "gr_inv g'"
proof -
  have fresh: "gr_fresh g \<notin> set (gr_Nodes g)" using assms(1) by (auto simp: gr_inv_def)
  have "gr_adj (gr_directed g) (gr_Edges g) (Some (gr_fresh g)) = []"
    using assms(1) fresh by (intro gr_adj_fresh) (auto simp: gr_inv_def)
  with assms fresh show ?thesis
    by (auto simp: gr_inv_def gr_AddNode_def Let_def gr_mirror_def less_Suc_eq)
qed

lemma gr_inv_AddEdge:
  assumes "gr_inv g" and u: "u \<in> set (gr_Nodes g)" and v: "v \<in> set (gr_Nodes g)"
  shows "\<exists>e g'. gr_AddEdge g (Some u) (Some v) weight = Some (e, g') \<and> gr_inv g'
    \<and> gr_Nodes g' = gr_Nodes g \<and> gr_directed g' = gr_directed g \<and> gr_Edges g' = gr_Edges g @ [e]
    \<and> e = \<lparr>ed_From = Some u, ed_To = Some v, ed_Weight = weight\<rparr>"
proof -
  let ?e = "\<lparr>ed_From = Some u, ed_To = Some v, ed_Weight = weight\<rparr>"
  note m = gr_inv_mirror [OF assms(1)]
  from gr_children_update_ch [OF m [OF u], of "\<lambda>cs. cs @ [Some v]"] obtain h where
    h: "gr_children_update (\<lambda>cs. cs @ [Some v]) (Some u) (gr_heap g) = Some h"
       "gr_ch h = (gr_ch (gr_heap g))(u \<mapsto> gr_adj (gr_directed g) (gr_Edges g) (Some u) @ [Some v])"
    by blast
  show ?thesis
  proof (cases "gr_directed g")
    case True
    have "gr_inv (g\<lparr>gr_Edges := gr_Edges g @ [?e], gr_heap := h\<rparr>)"
      using u v by (intro gr_inv_edges [OF assms(1)]) (auto simp: h(2) m True gr_adj_def)
    with True h(1) show ?thesis by (auto simp: gr_AddEdge_def dg_AddEdge_def Let_def)
  next
    case False
    obtain cs where cs: "gr_ch h v = Some cs" using h(2) m [OF v] by (cases "v = u") auto
    from gr_children_update_ch [OF cs, of "\<lambda>cs. cs @ [Some u]"] obtain k where
      k: "gr_children_update (\<lambda>cs. cs @ [Some u]) (Some v) h = Some k"
         "gr_ch k = (gr_ch h)(v \<mapsto> cs @ [Some u])" by blast
    have "gr_inv (g\<lparr>gr_Edges := gr_Edges g @ [?e], gr_heap := k\<rparr>)"
      using u v cs by (intro gr_inv_edges [OF assms(1)])
        (auto simp: h(2) k(2) m False gr_adj_def split: if_splits)
    with False h(1) k(1) show ?thesis by (auto simp: gr_AddEdge_def ug_AddEdge_def Let_def)
  qed
qed

lemma gr_RemoveNode_alt:
  "gr_RemoveNode g node =
     do { h \<leftarrow> gr_strip node (gr_Nodes g) (gr_heap g);
          Some (g\<lparr>gr_Edges := filter (\<lambda>e. ed_From e \<noteq> node \<and> ed_To e \<noteq> node) (gr_Edges g),
                  gr_heap := h, gr_Nodes := filter (\<lambda>n. Some n \<noteq> node) (gr_Nodes g)\<rparr>) }"
  by (simp add: gr_RemoveNode_def dg_RemoveNode_def ug_RemoveNode_def Let_def)

lemma gr_inv_RemoveNode:
  assumes "gr_inv g"
  shows "\<exists>g'. gr_RemoveNode g (Some u) = Some g' \<and> gr_inv g' \<and> gr_directed g' = gr_directed g
    \<and> gr_Nodes g' = filter (\<lambda>n. n \<noteq> u) (gr_Nodes g)"
proof -
  note m = gr_inv_mirror [OF assms(1)]
  have "distinct (gr_Nodes g)" and "\<And>p. p \<in> set (gr_Nodes g) \<Longrightarrow> gr_ch (gr_heap g) p \<noteq> None"
    using assms m by (auto simp: gr_inv_def)
  from gr_strip_ch [OF this, of "Some u"]
  obtain h where h: "gr_strip (Some u) (gr_Nodes g) (gr_heap g) = Some h"
    "\<forall>p. gr_ch h p = (if p \<in> set (gr_Nodes g) \<and> Some p \<noteq> Some u
      then map_option (filter (\<lambda>c. c \<noteq> Some u)) (gr_ch (gr_heap g) p) else gr_ch (gr_heap g) p)"
    by blast
  have "gr_inv (g\<lparr>gr_Edges := filter (\<lambda>e. ed_From e \<noteq> Some u \<and> ed_To e \<noteq> Some u) (gr_Edges g),
                  gr_heap := h, gr_Nodes := filter (\<lambda>n. Some n \<noteq> Some u) (gr_Nodes g)\<rparr>)"
    using assms by (auto simp: gr_inv_def gr_mirror_def gr_adj_remove_node h(2))
  with h(1) show ?thesis by (simp add: gr_RemoveNode_alt)
qed

lemma gr_inv_RemoveEdge_directed:
  assumes "gr_inv g" and d: "gr_directed g" and u: "u \<in> set (gr_Nodes g)"
  shows "\<exists>g'. dg_RemoveEdge g (Some u) v = Some g' \<and> gr_inv g' \<and> gr_directed g' = gr_directed g
    \<and> gr_Nodes g' = gr_Nodes g"
proof -
  let ?es = "filter (\<lambda>e. \<not> (ed_From e = Some u \<and> ed_To e = v)) (gr_Edges g)"
  have m: "gr_ch (gr_heap g) p = Some (dg_adj (gr_Edges g) (Some p))" if "p \<in> set (gr_Nodes g)" for p
    using gr_inv_mirror [OF assms(1) that] d by (simp add: gr_adj_def)
  from gr_children_update_ch [OF m [OF u], of "filter (\<lambda>c. c \<noteq> v)"] obtain h where
    h: "gr_children_update (filter (\<lambda>c. c \<noteq> v)) (Some u) (gr_heap g) = Some h"
       "gr_ch h = (gr_ch (gr_heap g))(u \<mapsto> filter (\<lambda>c. c \<noteq> v) (dg_adj (gr_Edges g) (Some u)))"
    by blast
  have "gr_ch h p = Some (dg_adj ?es (Some p))" if "p \<in> set (gr_Nodes g)" for p
    using m [OF that] unfolding h(2) dg_adj_remove_edge by simp
  then have "gr_inv (g\<lparr>gr_Edges := ?es, gr_heap := h\<rparr>)"
    using d by (intro gr_inv_edges [OF assms(1)]) (auto simp: gr_adj_def)
  with h(1) show ?thesis by (simp add: dg_RemoveEdge_def Let_def)
qed

lemma gr_inv_RemoveEdge_undirected:
  assumes "gr_inv g" and d: "\<not> gr_directed g" and u: "u \<in> set (gr_Nodes g)" and v: "v \<in> set (gr_Nodes g)"
  shows "\<exists>g'. ug_RemoveEdge g (Some u) (Some v) = Some g' \<and> gr_inv g' \<and> gr_directed g' = gr_directed g
    \<and> gr_Nodes g' = gr_Nodes g"
proof -
  let ?es = "filter (\<lambda>e. \<not> ((ed_From e = Some u \<and> ed_To e = Some v)
      \<or> (ed_From e = Some v \<and> ed_To e = Some u))) (gr_Edges g)"
  have m: "gr_ch (gr_heap g) p = Some (ug_adj (gr_Edges g) (Some p))" if "p \<in> set (gr_Nodes g)" for p
    using gr_inv_mirror [OF assms(1) that] d by (simp add: gr_adj_def)
  from gr_children_update_ch [OF m [OF u], of "filter (\<lambda>c. c \<noteq> Some v)"] obtain h where
    h: "gr_children_update (filter (\<lambda>c. c \<noteq> Some v)) (Some u) (gr_heap g) = Some h"
       "gr_ch h = (gr_ch (gr_heap g))(u \<mapsto> filter (\<lambda>c. c \<noteq> Some v) (ug_adj (gr_Edges g) (Some u)))"
    by blast
  obtain cs where cs: "gr_ch h v = Some cs" using h(2) m [OF v] by (cases "v = u") auto
  from gr_children_update_ch [OF cs, of "filter (\<lambda>c. c \<noteq> Some u)"] obtain k where
    k: "gr_children_update (filter (\<lambda>c. c \<noteq> Some u)) (Some v) h = Some k"
       "gr_ch k = (gr_ch h)(v \<mapsto> filter (\<lambda>c. c \<noteq> Some u) cs)" by blast
  have "gr_ch k p = Some (ug_adj ?es (Some p))" if "p \<in> set (gr_Nodes g)" for p
    using m [OF that] cs unfolding h(2) k(2) ug_adj_remove_edge
    by (cases "p = u"; cases "p = v") (auto simp: conj_commute)
  then have "gr_inv (g\<lparr>gr_Edges := ?es, gr_heap := k\<rparr>)"
    using d by (intro gr_inv_edges [OF assms(1)]) (auto simp: gr_adj_def)
  with h(1) k(1) show ?thesis by (simp add: ug_RemoveEdge_def Let_def)
qed

lemma gr_inv_RemoveEdge:
  assumes "gr_inv g" and "u \<in> set (gr_Nodes g)" and "v \<in> set (gr_Nodes g)"
  shows "\<exists>g'. gr_RemoveEdge g (Some u) (Some v) = Some g' \<and> gr_inv g'
    \<and> gr_directed g' = gr_directed g \<and> gr_Nodes g' = gr_Nodes g"
  using assms gr_inv_RemoveEdge_directed [of g u "Some v"] gr_inv_RemoveEdge_undirected [of g u v]
  by (simp add: gr_RemoveEdge_def)

lemma gr_reach_inv: "gr_reach d g \<Longrightarrow> gr_inv g \<and> gr_directed g = d"
proof (induction rule: gr_reach.induct)
  case new
  show ?case by (simp add: gr_inv_new) (simp add: NewGraph_def NewDirectedGraph_def NewUndirectedGraph_def)
next
  case (add_node g x p g')
  have "gr_inv g'" using add_node.IH gr_inv_AddNode [OF _ add_node.hyps(2)] by simp
  moreover have "gr_directed g' = gr_directed g" using add_node.hyps(2) by (auto simp: gr_AddNode_def Let_def)
  ultimately show ?case using add_node.IH by simp
next
  case (add_edge g u v weight e g')
  then show ?case using gr_inv_AddEdge [of g u v weight] by (metis option.inject prod.inject)
next
  case (remove_node g u g')
  then show ?case using gr_inv_RemoveNode [of g u] by (metis option.inject)
next
  case (remove_edge g u v g')
  then show ?case using gr_inv_RemoveEdge [of g u v] by (metis option.inject)
qed

section \<open>Searches visit what can be reached\<close>

definition gr_arcs :: "'a gheap \<Rightarrow> (ptr option \<times> ptr option) set" where
  "gr_arcs h = {(u, c). \<exists>n. gr_load h u = Some n \<and> c \<in> set (gn_Children n)}"

definition gr_closed :: "'a gheap \<Rightarrow> ptr option set \<Rightarrow> bool" where
  "gr_closed h W \<longleftrightarrow> finite W \<and> (\<forall>u \<in> W. \<exists>n. gr_load h u = Some n \<and> set (gn_Children n) \<subseteq> W)"

lemma gr_arcs_load: "gr_load h u = Some n \<Longrightarrow> gr_arcs h `` {u} = set (gn_Children n)"
  by (auto simp: gr_arcs_def)

lemma gr_closedE:
  assumes "gr_closed h W" and "u \<in> W"
  obtains n where "gr_load h u = Some n" and "set (gn_Children n) \<subseteq> W"
  using assms by (auto simp: gr_closed_def)

lemma gr_closed_reach:
  assumes "gr_closed h W" and "u \<in> W" and "(u, v) \<in> (gr_arcs h)\<^sup>*"
  shows "v \<in> W"
  using assms(3,2)
proof (induction rule: rtrancl_induct)
  case base
  then show ?case by simp
next
  case (step y z)
  then have "y \<in> W" by simp
  obtain n where "gr_load h y = Some n" "set (gn_Children n) \<subseteq> W"
    using gr_closedE [OF assms(1) \<open>y \<in> W\<close>] .
  with step.hyps(2) show ?case by (auto simp: gr_arcs_def)
qed

lemma card_Diff_mono: "finite W \<Longrightarrow> A \<subseteq> B \<Longrightarrow> card (W - B) \<le> card (W - A)"
  by (intro card_mono) auto

lemma card_Diff_insert_less: "finite W \<Longrightarrow> u \<in> W \<Longrightarrow> u \<notin> A \<Longrightarrow> card (W - insert u A) < card (W - A)"
  by (intro psubset_card_mono) auto

definition dfs_post :: "'a gheap \<Rightarrow> ptr option set \<Rightarrow> dfs_state \<Rightarrow> dfs_state \<Rightarrow> bool" where
  "dfs_post h R s s' \<longleftrightarrow> fst s \<subseteq> fst s' \<and> R \<subseteq> fst s' \<and> fst s' \<subseteq> fst s \<union> (gr_arcs h)\<^sup>* `` R
     \<and> (\<forall>u \<in> fst s' - fst s. gr_arcs h `` {u} \<subseteq> fst s')
     \<and> (\<exists>out. snd s' = snd s @ out \<and> distinct out \<and> set out = fst s' - fst s)"

lemma dfs_post_refl: "R \<subseteq> fst s \<Longrightarrow> dfs_post h R s s"
  by (auto simp: dfs_post_def)

lemma dfs_post_trans:
  assumes a: "dfs_post h R s s1" and b: "dfs_post h Q s1 s2"
  shows "dfs_post h (R \<union> Q) s s2"
proof -
  from a b obtain o1 o2 where o: "snd s1 = snd s @ o1" "distinct o1" "set o1 = fst s1 - fst s"
    "snd s2 = snd s1 @ o2" "distinct o2" "set o2 = fst s2 - fst s1"
    by (auto simp: dfs_post_def)
  have sub: "fst s \<subseteq> fst s1" "fst s1 \<subseteq> fst s2" using a b by (auto simp: dfs_post_def)
  have "\<exists>out. snd s2 = snd s @ out \<and> distinct out \<and> set out = fst s2 - fst s"
    using o sub by (intro exI [of _ "o1 @ o2"]) auto
  moreover have "gr_arcs h `` {u} \<subseteq> fst s2" if "u \<in> fst s2 - fst s" for u
  proof (cases "u \<in> fst s1")
    case True
    with that a have "gr_arcs h `` {u} \<subseteq> fst s1" by (auto simp: dfs_post_def)
    with sub show ?thesis by blast
  next
    case False
    with that b show ?thesis by (auto simp: dfs_post_def)
  qed
  moreover have "R \<union> Q \<subseteq> fst s2" "fst s2 \<subseteq> fst s \<union> (gr_arcs h)\<^sup>* `` (R \<union> Q)"
    using a b sub unfolding dfs_post_def by blast+
  ultimately show ?thesis using sub by (simp add: dfs_post_def)
qed

lemma dfs_post_enter:
  assumes n: "gr_load h u = Some n" and u: "u \<notin> fst s"
    and b: "dfs_post h (set (gn_Children n)) (insert u (fst s), snd s @ [u]) s'"
  shows "dfs_post h {u} s s'"
proof -
  have "(gr_arcs h)\<^sup>* `` set (gn_Children n) \<subseteq> (gr_arcs h)\<^sup>* `` {u}"
    using n by (auto simp: gr_arcs_def intro: converse_rtrancl_into_rtrancl)
  moreover have "fst s' \<subseteq> insert u (fst s) \<union> (gr_arcs h)\<^sup>* `` set (gn_Children n)"
    using b by (simp add: dfs_post_def)
  moreover have "u \<in> (gr_arcs h)\<^sup>* `` {u}" by simp
  ultimately have "fst s' \<subseteq> fst s \<union> (gr_arcs h)\<^sup>* `` {u}" by blast
  moreover from b obtain out where o: "snd s' = (snd s @ [u]) @ out" "distinct out"
      "set out = fst s' - insert u (fst s)" and "u \<in> fst s'"
    by (auto simp: dfs_post_def)
  then have "snd s' = snd s @ (u # out)" "distinct (u # out)" "set (u # out) = fst s' - fst s"
    using u by auto
  then have "\<exists>out. snd s' = snd s @ out \<and> distinct out \<and> set out = fst s' - fst s" by blast
  moreover have "gr_arcs h `` {v} \<subseteq> fst s'" if "v \<in> fst s' - fst s" for v
    using b that gr_arcs_load [OF n] by (cases "v = u") (auto simp: dfs_post_def)
  moreover have "fst s \<subseteq> fst s'" "{u} \<subseteq> fst s'" using b by (auto simp: dfs_post_def)
  ultimately show ?thesis unfolding dfs_post_def by blast
qed

lemma dfs_correct:
  fixes h :: "'a gheap"
  shows "gr_closed h W \<Longrightarrow> u \<in> W \<Longrightarrow> card (W - fst s) < fuel
      \<Longrightarrow> \<exists>s'. gr_dfsHelper fuel h u s = Some s' \<and> dfs_post h {u} s s'"
    and "gr_closed h W \<Longrightarrow> set cs \<subseteq> W \<Longrightarrow> card (W - fst s) < fuel
      \<Longrightarrow> \<exists>s'. gr_dfs_children fuel h cs s = Some s' \<and> dfs_post h (set cs) s s'"
proof (induction fuel h u s and fuel h cs s rule: gr_dfsHelper_gr_dfs_children.induct)
  case (1 h node s)
  then show ?case by simp
next
  case (2 fuel h node s)
  show ?case
  proof (cases "node \<in> fst s")
    case True
    then show ?thesis by (simp add: dfs_post_refl)
  next
    case False
    obtain n where n: "gr_load h node = Some n" "set (gn_Children n) \<subseteq> W"
      using gr_closedE [OF "2.prems"(1,2)] .
    have "card (W - insert node (fst s)) < fuel"
      using card_Diff_insert_less [OF _ "2.prems"(2) False] "2.prems"(1,3) by (simp add: gr_closed_def)
    with "2.IH" [OF False refl n(1)] n(2) "2.prems"(1) obtain s' where
      "gr_dfs_children fuel h (gn_Children n) (insert node (fst s), snd s @ [node]) = Some s'"
      "dfs_post h (set (gn_Children n)) (insert node (fst s), snd s @ [node]) s'"
      by auto
    with False n(1) dfs_post_enter [OF n(1) False] show ?thesis by auto
  qed
next
  case (3 fuel h s)
  then show ?case by (simp add: dfs_post_refl)
next
  case (4 fuel h c cs s)
  have "\<exists>s1. (if c \<notin> fst s then gr_dfsHelper fuel h c s else Some s) = Some s1
      \<and> dfs_post h {c} s s1"
    using "4.IH"(1) "4.prems" dfs_post_refl [of "{c}" s h] by (cases "c \<in> fst s") auto
  then obtain s1 where s1: "(if c \<notin> fst s then gr_dfsHelper fuel h c s else Some s) = Some s1"
    "dfs_post h {c} s s1" by blast
  have "card (W - fst s1) < fuel"
    using s1(2) "4.prems"(1,3) card_Diff_mono [of W "fst s" "fst s1"]
    by (auto simp: dfs_post_def gr_closed_def)
  with "4.IH"(2) [OF s1(1)] "4.prems" obtain s2 where
    "gr_dfs_children fuel h cs s1 = Some s2" "dfs_post h (set cs) s1 s2" by auto
  with s1 dfs_post_trans [OF s1(2), of "set cs" s2] show ?case by auto
qed

text \<open>Breadth first: the queue carries distances that grow by at most one.\<close>

definition gr_dist :: "'a gheap \<Rightarrow> ptr option \<Rightarrow> ptr option \<Rightarrow> nat" where
  "gr_dist h s u = (LEAST k. (s, u) \<in> gr_arcs h ^^ k)"

lemma gr_dist_path: "(s, u) \<in> (gr_arcs h)\<^sup>* \<Longrightarrow> (s, u) \<in> gr_arcs h ^^ gr_dist h s u"
  unfolding gr_dist_def by (meson LeastI rtrancl_power)

lemma gr_dist_le: "(s, u) \<in> gr_arcs h ^^ k \<Longrightarrow> gr_dist h s u \<le> k"
  by (simp add: gr_dist_def Least_le)

lemma gr_dist_self [simp]: "gr_dist h s s = 0"
  using gr_dist_le [of s s 0 h] by simp

definition bfs_inv :: "'a gheap \<Rightarrow> ptr option \<Rightarrow> (ptr option \<times> nat) list \<Rightarrow> ptr option list \<Rightarrow> bool" where
  "bfs_inv h s q out \<longleftrightarrow> sorted (map snd q) \<and> (\<forall>e \<in> set q. snd e \<le> Suc (snd (hd q)))
     \<and> (\<forall>(u, l) \<in> set q. (s, u) \<in> gr_arcs h ^^ l)
     \<and> distinct out \<and> sorted (map (gr_dist h s) out) \<and> (\<forall>u \<in> set out. (s, u) \<in> (gr_arcs h)\<^sup>*)
     \<and> (\<forall>(u, l) \<in> set q. \<forall>v \<in> set out. gr_dist h s v \<le> l)
     \<and> (\<forall>(u, c) \<in> gr_arcs h. u \<in> set out \<longrightarrow> c \<notin> set out \<longrightarrow> (c, Suc (gr_dist h s u)) \<in> set q)
     \<and> (s \<in> set out \<or> (s, 0) \<in> set q)"

lemma bfs_frontier:
  assumes inv: "bfs_inv h s q out"
  shows "(s, u) \<in> gr_arcs h ^^ k \<Longrightarrow> k = gr_dist h s u \<Longrightarrow> u \<notin> set out
    \<Longrightarrow> \<exists>y j. (y, j) \<in> set q \<and> j \<le> k"
proof (induction k arbitrary: u)
  case 0
  then have "u = s" by simp
  with 0 inv show ?case unfolding bfs_inv_def by blast
next
  case (Suc k)
  from Suc.prems(1) obtain z where z: "(s, z) \<in> gr_arcs h ^^ k" "(z, u) \<in> gr_arcs h" by auto
  have "(s, z) \<in> (gr_arcs h)\<^sup>*" using z(1) by (meson rtrancl_power)
  from gr_dist_path [OF this] z(2) have "(s, u) \<in> gr_arcs h ^^ Suc (gr_dist h s z)" by auto
  with gr_dist_le [OF z(1)] Suc.prems(2) gr_dist_le [of s u "Suc (gr_dist h s z)" h]
  have k: "k = gr_dist h s z" by linarith
  show ?case
  proof (cases "z \<in> set out")
    case True
    with inv z(2) Suc.prems(3) k have "(u, Suc k) \<in> set q" unfolding bfs_inv_def by blast
    then show ?thesis by blast
  next
    case False
    from Suc.IH [OF z(1) k this] show ?thesis by (auto intro: le_SucI)
  qed
qed

lemma bfs_head_dist:
  assumes inv: "bfs_inv h s ((u, l) # q) out" and "u \<notin> set out"
  shows "gr_dist h s u = l"
proof -
  have p: "(s, u) \<in> gr_arcs h ^^ l" using inv by (simp add: bfs_inv_def)
  then have r: "(s, u) \<in> (gr_arcs h)\<^sup>*" by (meson rtrancl_power)
  from bfs_frontier [OF inv gr_dist_path [OF r] refl assms(2)]
  obtain y j where "(y, j) \<in> set ((u, l) # q)" "j \<le> gr_dist h s u" by blast
  moreover have "l \<le> j" if "(y, j) \<in> set ((u, l) # q)" for y j
    using inv that by (force simp: bfs_inv_def)
  ultimately show ?thesis using gr_dist_le [OF p] by (metis le_antisym le_trans)
qed

lemma bfs_inv_skip:
  assumes inv: "bfs_inv h s ((u, l) # q) out" and "u \<in> set out"
  shows "bfs_inv h s q out"
proof -
  have "\<forall>e \<in> set q. snd e \<le> Suc (snd (hd q))"
    using inv by (cases q) (force simp: bfs_inv_def)+
  moreover have "\<forall>(a, c) \<in> gr_arcs h. a \<in> set out \<longrightarrow> c \<notin> set out \<longrightarrow> (c, Suc (gr_dist h s a)) \<in> set q"
    using inv assms(2) unfolding bfs_inv_def by fastforce
  ultimately show ?thesis using inv assms(2) unfolding bfs_inv_def by auto
qed

lemma window_hd:
  assumes "\<And>e. e \<in> set q \<Longrightarrow> l \<le> snd e \<and> snd e \<le> Suc l"
  shows "\<forall>e \<in> set q. snd e \<le> Suc (snd (hd q))"
proof
  fix e assume e: "e \<in> set q"
  then have "hd q \<in> set q" by (cases q) auto
  with assms [of "hd q"] assms [OF e] show "snd e \<le> Suc (snd (hd q))" by linarith
qed

lemma bfs_inv_visit:
  assumes inv: "bfs_inv h s ((u, l) # q) out" and u: "u \<notin> set out" and n: "gr_load h u = Some n"
  shows "bfs_inv h s (q @ map (\<lambda>c. (c, Suc l)) (filter (\<lambda>c. c \<notin> insert u (set out)) (gn_Children n)))
    (out @ [u])" (is "bfs_inv h s (q @ ?new) _")
proof -
  have l: "gr_dist h s u = l" by (rule bfs_head_dist [OF inv u])
  have ge: "l \<le> snd e \<and> snd e \<le> Suc l" if "e \<in> set q" for e
    using inv that by (auto simp: bfs_inv_def)
  have p: "(s, u) \<in> gr_arcs h ^^ l" using inv by (simp add: bfs_inv_def)
  have new: "(s, c) \<in> gr_arcs h ^^ Suc l" if "c \<in> set (gn_Children n)" for c
    using p n that by (auto simp: gr_arcs_def intro!: relcompI)
  have "sorted (map snd (q @ ?new))"
    using inv ge by (auto simp: bfs_inv_def sorted_append comp_def map_replicate_const)
  moreover have "l \<le> snd e \<and> snd e \<le> Suc l" if "e \<in> set (q @ ?new)" for e
    using ge [of e] that by auto
  then have "\<forall>e \<in> set (q @ ?new). snd e \<le> Suc (snd (hd (q @ ?new)))"
    by (rule window_hd)
  moreover have "(c, Suc (gr_dist h s a)) \<in> set (q @ ?new)"
    if a: "(a, c) \<in> gr_arcs h" "a \<in> set (out @ [u])" "c \<notin> set (out @ [u])" for a c
  proof (cases "a = u")
    case True
    with a n l show ?thesis by (auto simp: gr_arcs_def)
  next
    case False
    with a have "a \<in> set out" "c \<notin> set out" "c \<noteq> u" by auto
    with inv a(1) have "(c, Suc (gr_dist h s a)) \<in> set ((u, l) # q)" unfolding bfs_inv_def by blast
    with \<open>c \<noteq> u\<close> show ?thesis by simp
  qed
  then have "\<forall>(a, c) \<in> gr_arcs h. a \<in> set (out @ [u]) \<longrightarrow> c \<notin> set (out @ [u])
      \<longrightarrow> (c, Suc (gr_dist h s a)) \<in> set (q @ ?new)" by blast
  moreover have "\<forall>(a, k) \<in> set (q @ ?new). \<forall>v \<in> set (out @ [u]). gr_dist h s v \<le> k"
    using inv ge l by (fastforce simp: bfs_inv_def)
  moreover have "sorted (map (gr_dist h s) (out @ [u]))"
    using inv l by (auto simp: bfs_inv_def sorted_append)
  moreover have "(s, u) \<in> (gr_arcs h)\<^sup>*" using p by (meson rtrancl_power)
  ultimately show ?thesis using inv u new unfolding bfs_inv_def by auto
qed

lemma bfs_correct:
  assumes W: "gr_closed h W" and s: "s \<in> W"
  shows "bfs_inv h s q out \<Longrightarrow> fst ` set q \<subseteq> W
    \<Longrightarrow> length q + (\<Sum>u \<in> W - set out. length (gn_Children (the (gr_load h u)))) \<le> fuel
    \<Longrightarrow> \<exists>out'. gr_bfs_loop fuel h (map fst q) (set out) out = Some out' \<and> bfs_inv h s [] out'"
proof (induction "length q + (\<Sum>u \<in> W - set out. length (gn_Children (the (gr_load h u))))"
    arbitrary: q out fuel rule: less_induct)
  case less
  show ?case
  proof (cases q)
    case Nil
    with less.prems show ?thesis by simp
  next
    case (Cons e q')
    obtain u l where e: "e = (u, l)" by fastforce
    with Cons less.prems obtain f where f: "fuel = Suc f" by (cases fuel) auto
    show ?thesis
    proof (cases "u \<in> set out")
      case True
      have inv: "bfs_inv h s q' out" using bfs_inv_skip less.prems(1) True Cons e by metis
      from less.hyps [OF _ inv, of f] less.prems Cons e f True show ?thesis by auto
    next
      case False
      from less.prems(2) Cons e have "u \<in> W" by auto
      from gr_closedE [OF W this] obtain n where n: "gr_load h u = Some n" "set (gn_Children n) \<subseteq> W" .
      let ?cs = "filter (\<lambda>c. c \<notin> insert u (set out)) (gn_Children n)"
      let ?q = "q' @ map (\<lambda>c. (c, Suc l)) ?cs"
      have inv: "bfs_inv h s ?q (out @ [u])"
        using bfs_inv_visit [OF _ False n(1), of s l q'] less.prems(1) Cons e by simp
      have "W - set out - {u} = W - set (out @ [u])" by auto
      then have sum: "(\<Sum>u \<in> W - set out. length (gn_Children (the (gr_load h u))))
        = length (gn_Children n) + (\<Sum>u \<in> W - set (out @ [u]). length (gn_Children (the (gr_load h u))))"
        using W n(1) False \<open>u \<in> W\<close> sum.remove [of "W - set out" u "\<lambda>u. length (gn_Children (the (gr_load h u)))"]
        by (auto simp: gr_closed_def)
      have len: "length ?cs \<le> length (gn_Children n)" by simp
      have "length ?q + (\<Sum>u \<in> W - set (out @ [u]). length (gn_Children (the (gr_load h u)))) \<le> f"
        and "length ?q + (\<Sum>u \<in> W - set (out @ [u]). length (gn_Children (the (gr_load h u))))
          < length q + (\<Sum>u \<in> W - set out. length (gn_Children (the (gr_load h u))))"
        using less.prems(3) len sum Cons f by (auto simp del: length_filter_le)
      moreover have "fst ` set ?q \<subseteq> W" using less.prems(2) n(2) Cons by auto
      ultimately have "\<exists>out'. gr_bfs_loop f h (map fst ?q) (set (out @ [u])) (out @ [u]) = Some out'
          \<and> bfs_inv h s [] out'"
        by (intro less.hyps [OF _ inv])
      with False n(1) Cons e f show ?thesis by (simp add: comp_def Let_def)
    qed
  qed
qed

section \<open>Edges as the program reports them\<close>

abbreviation gr_links :: "'a graph \<Rightarrow> (ptr option \<times> ptr option) set" where
  "gr_links g \<equiv> {(u, v). gr_HasEdge g u v}"

lemma in_dg_adj: "c \<in> set (dg_adj es u) \<longleftrightarrow> (\<exists>e \<in> set es. ed_From e = u \<and> ed_To e = c)"
  by (induction es) auto

lemma in_ug_adj: "c \<in> set (ug_adj es u) \<longleftrightarrow>
    (\<exists>e \<in> set es. (ed_From e = u \<and> ed_To e = c) \<or> (ed_From e = c \<and> ed_To e = u))"
  by (induction es) auto

lemma in_gr_adj: "c \<in> set (gr_adj (gr_directed g) (gr_Edges g) u) \<longleftrightarrow> gr_HasEdge g u c"
  by (auto simp: gr_adj_def in_dg_adj in_ug_adj gr_HasEdge_def bg_HasEdge_def list_ex_iff
      gr_edge_between_def)

lemma gr_HasEdge_nodes:
  assumes "gr_inv g" and "gr_HasEdge g u v"
  shows "u \<in> Some ` set (gr_Nodes g)" and "v \<in> Some ` set (gr_Nodes g)"
  using assms by (auto simp: gr_HasEdge_def bg_HasEdge_def list_ex_iff gr_edge_between_def gr_inv_def
      split: if_splits)

lemma gr_load_children:
  assumes "gr_inv g" and "p \<in> set (gr_Nodes g)"
  shows "\<exists>n. gr_load (gr_heap g) (Some p) = Some n
    \<and> gn_Children n = gr_adj (gr_directed g) (gr_Edges g) (Some p)"
  using gr_inv_mirror [OF assms] by (auto simp: gr_load_def gr_ch_def)

lemma gr_arcs_HasEdge:
  assumes "gr_inv g" and "u \<in> Some ` set (gr_Nodes g)"
  shows "(u, v) \<in> gr_arcs (gr_heap g) \<longleftrightarrow> gr_HasEdge g u v"
proof -
  obtain p where u: "u = Some p" "p \<in> set (gr_Nodes g)" using assms(2) by blast
  obtain n where "gr_load (gr_heap g) u = Some n"
    "gn_Children n = gr_adj (gr_directed g) (gr_Edges g) u"
    using gr_load_children [OF assms(1) u(2)] u(1) by blast
  then show ?thesis by (simp add: gr_arcs_def in_gr_adj)
qed

lemma gr_inv_closed:
  assumes "gr_inv g"
  shows "gr_closed (gr_heap g) (Some ` set (gr_Nodes g))"
proof -
  have "\<exists>n. gr_load (gr_heap g) u = Some n \<and> set (gn_Children n) \<subseteq> Some ` set (gr_Nodes g)"
    if u: "u \<in> Some ` set (gr_Nodes g)" for u
  proof -
    obtain p where p: "u = Some p" "p \<in> set (gr_Nodes g)" using u by blast
    obtain n where n: "gr_load (gr_heap g) u = Some n"
      "gn_Children n = gr_adj (gr_directed g) (gr_Edges g) u"
      using gr_load_children [OF assms(1) p(2)] p(1) by blast
    then have "set (gn_Children n) \<subseteq> Some ` set (gr_Nodes g)"
      using gr_HasEdge_nodes(2) [OF assms] by (auto simp: in_gr_adj)
    with n show ?thesis by blast
  qed
  then show ?thesis by (simp add: gr_closed_def)
qed

lemma gr_links_relpow:
  assumes "gr_inv g" and "u \<in> Some ` set (gr_Nodes g)"
  shows "(u, v) \<in> gr_arcs (gr_heap g) ^^ k \<longleftrightarrow> (u, v) \<in> gr_links g ^^ k"
proof (induction k arbitrary: v)
  case 0
  then show ?case by simp
next
  case (Suc k)
  have "w \<in> Some ` set (gr_Nodes g)" if "(u, w) \<in> gr_arcs (gr_heap g) ^^ k" for w
    using gr_closed_reach [OF gr_inv_closed [OF assms(1)] assms(2)] that by (meson rtrancl_power)
  with Suc gr_arcs_HasEdge [OF assms(1)] show ?case by (auto simp: relcomp.simps)
qed

lemma gr_links_rtrancl:
  assumes "gr_inv g" and "u \<in> Some ` set (gr_Nodes g)"
  shows "(u, v) \<in> (gr_arcs (gr_heap g))\<^sup>* \<longleftrightarrow> (u, v) \<in> (gr_links g)\<^sup>*"
  using gr_links_relpow [OF assms] by (simp add: rtrancl_power)

lemma gr_links_trancl:
  assumes "gr_inv g" and "u \<in> Some ` set (gr_Nodes g)"
  shows "(u, v) \<in> (gr_arcs (gr_heap g))\<^sup>+ \<longleftrightarrow> (u, v) \<in> (gr_links g)\<^sup>+"
  using gr_links_relpow [OF assms] by (simp add: trancl_power)

lemma gr_nodes_fuel:
  assumes "gr_inv g"
  shows "card (Some ` set (gr_Nodes g)) < Suc (gr_fresh g)"
proof -
  have "set (gr_Nodes g) \<subseteq> {..<gr_fresh g}" using assms by (auto simp: gr_inv_def)
  then have "card (set (gr_Nodes g)) \<le> gr_fresh g" using card_mono [of "{..<gr_fresh g}"] by simp
  then show ?thesis by (simp add: card_image)
qed

section \<open>What the searches and the checks compute\<close>

abbreviation gr_distance :: "'a graph \<Rightarrow> ptr option \<Rightarrow> ptr option \<Rightarrow> nat" where
  "gr_distance g s u \<equiv> (LEAST k. (s, u) \<in> gr_links g ^^ k)"

lemma gr_DFS_visits:
  assumes inv: "gr_inv g" and s: "s \<in> set (gr_Nodes g)"
  shows "\<exists>out. gr_DFS g (Some s) = Some out \<and> distinct out
    \<and> set out = {u. (Some s, u) \<in> (gr_links g)\<^sup>*}"
proof -
  have sW: "Some s \<in> Some ` set (gr_Nodes g)" using s by simp
  have "card (Some ` set (gr_Nodes g) - fst ({}, [])) < Suc (gr_fresh g)" using gr_nodes_fuel [OF inv] by simp
  from dfs_correct(1) [OF gr_inv_closed [OF inv] sW this] obtain s' where
    s': "gr_dfsHelper (Suc (gr_fresh g)) (gr_heap g) (Some s) ({}, []) = Some s'"
    "dfs_post (gr_heap g) {Some s} ({}, []) s'" by blast
  from s'(2) have v: "Some s \<in> fst s'" "fst s' \<subseteq> {u. (Some s, u) \<in> (gr_arcs (gr_heap g))\<^sup>*}"
    "\<And>u. u \<in> fst s' \<Longrightarrow> gr_arcs (gr_heap g) `` {u} \<subseteq> fst s'" "distinct (snd s')" "set (snd s') = fst s'"
    by (auto simp: dfs_post_def)
  have "u \<in> fst s'" if "(Some s, u) \<in> (gr_arcs (gr_heap g))\<^sup>*" for u
    using that by (induction rule: rtrancl_induct) (use v in auto)
  with v(2) have "fst s' = {u. (Some s, u) \<in> (gr_arcs (gr_heap g))\<^sup>*}" by blast
  with s'(1) v(4,5) gr_links_rtrancl [OF inv sW] show ?thesis by (simp add: gr_DFS_def)
qed

lemma gr_BFS_fuel:
  assumes inv: "gr_inv g"
  shows "(\<Sum>u \<in> Some ` set (gr_Nodes g). length (gn_Children (the (gr_load (gr_heap g) u))))
    \<le> sum_list (map (gr_degree (gr_heap g)) [0..<gr_fresh g])"
proof -
  have "(\<Sum>u \<in> Some ` set (gr_Nodes g). length (gn_Children (the (gr_load (gr_heap g) u))))
    = (\<Sum>p \<in> set (gr_Nodes g). length (gn_Children (the (gr_load (gr_heap g) (Some p)))))"
    by (simp add: sum.reindex)
  also have "\<dots> = (\<Sum>p \<in> set (gr_Nodes g). gr_degree (gr_heap g) p)"
  proof (rule sum.cong [OF refl])
    fix p assume "p \<in> set (gr_Nodes g)"
    from gr_inv_mirror [OF inv this]
    show "length (gn_Children (the (gr_load (gr_heap g) (Some p)))) = gr_degree (gr_heap g) p"
      by (auto simp: gr_ch_def gr_load_def gr_degree_def)
  qed
  also have "\<dots> \<le> (\<Sum>p \<in> {0..<gr_fresh g}. gr_degree (gr_heap g) p)"
    using inv by (intro sum_mono2) (auto simp: gr_inv_def)
  also have "\<dots> = sum_list (map (gr_degree (gr_heap g)) [0..<gr_fresh g])"
    by (simp add: interv_sum_list_conv_sum_set_nat)
  finally show ?thesis .
qed

lemma gr_BFS_visits:
  assumes inv: "gr_inv g" and s: "s \<in> set (gr_Nodes g)"
  shows "\<exists>out. gr_BFS g (Some s) = Some out \<and> distinct out
    \<and> set out = {u. (Some s, u) \<in> (gr_links g)\<^sup>*} \<and> sorted (map (gr_distance g (Some s)) out)"
proof -
  let ?h = "gr_heap g"
  have sW: "Some s \<in> Some ` set (gr_Nodes g)" using s by simp
  have "bfs_inv ?h (Some s) [(Some s, 0)] []" by (simp add: bfs_inv_def)
  from bfs_correct [OF gr_inv_closed [OF inv] sW this] gr_BFS_fuel [OF inv] s obtain out where
    out: "gr_BFS g (Some s) = Some out" "bfs_inv ?h (Some s) [] out" by (fastforce simp: gr_BFS_def)
  from out(2) have v: "Some s \<in> set out" "set out \<subseteq> {u. (Some s, u) \<in> (gr_arcs ?h)\<^sup>*}"
    "\<And>u c. (u, c) \<in> gr_arcs ?h \<Longrightarrow> u \<in> set out \<Longrightarrow> c \<in> set out" "distinct out"
    "sorted (map (gr_dist ?h (Some s)) out)"
    by (auto simp: bfs_inv_def)
  have "u \<in> set out" if "(Some s, u) \<in> (gr_arcs ?h)\<^sup>*" for u
    using that by (induction rule: rtrancl_induct) (use v in auto)
  with v(2) have "set out = {u. (Some s, u) \<in> (gr_arcs ?h)\<^sup>*}" by blast
  moreover have "gr_dist ?h (Some s) = gr_distance g (Some s)"
    by (rule ext) (simp add: gr_dist_def gr_links_relpow [OF inv sW])
  then have "sorted (map (gr_distance g (Some s)) out)" using v(5) by simp
  ultimately show ?thesis using out(1) v(4) gr_links_rtrancl [OF inv sW] by simp
qed

text \<open>Two nodes and an edge between them.\<close>

definition gr_example :: "bool \<Rightarrow> nat graph" where
  "gr_example d =
     (let g = snd (gr_AddNode (snd (gr_AddNode (NewGraph d) 10)) 20)
      in snd (the (gr_AddEdge g (Some 0) (Some 1) 7)))"

lemmas gr_example_eval = gr_example_def gr_AddNode_def NewGraph_def NewDirectedGraph_def
  NewUndirectedGraph_def gr_AddEdge_def dg_AddEdge_def ug_AddEdge_def gr_children_update_def Let_def

lemma gr_example_nodes: "gr_Nodes (gr_example d) = [0, 1]"
  by (cases d) (simp_all add: gr_example_eval)

lemma gr_example_reach: "gr_reach d (gr_example d)"
proof -
  let ?g = "snd (gr_AddNode (snd (gr_AddNode (NewGraph d) 10)) 20) :: nat graph"
  have "gr_reach d ?g"
    by (rule gr_reach.add_node [OF gr_reach.add_node [OF gr_reach.new]]) (rule surjective_pairing)+
  then show ?thesis
    by (rule gr_reach.add_edge [where u = 0 and v = 1 and weight = 7])
      (cases d; simp add: gr_example_eval)+
qed

text \<open>C24: in any graph built by the operations, directed or not, a depth-first and a breadth-first
  search from a node of the graph return and call the callback exactly once on every node that can
  be reached over edges \<open>HasEdge\<close> reports, and on nothing else; the breadth-first search calls it in
  order of distance from the start.\<close>

theorem Graph_searches_visit_reachable:
  assumes "gr_reach d g" and "s \<in> set (gr_Nodes g)"
  shows "\<exists>ds bs. gr_DFS g (Some s) = Some ds \<and> gr_BFS g (Some s) = Some bs
    \<and> distinct ds \<and> distinct bs
    \<and> set ds = {u. (Some s, u) \<in> {(x, y). gr_HasEdge g x y}\<^sup>*} \<and> set bs = set ds
    \<and> sorted (map (\<lambda>u. LEAST k. (Some s, u) \<in> {(x, y). gr_HasEdge g x y} ^^ k) bs)"
proof -
  from gr_reach_inv [OF assms(1)] have inv: "gr_inv g" by simp
  from gr_DFS_visits [OF inv assms(2)] gr_BFS_visits [OF inv assms(2)] show ?thesis by fastforce
qed

theorem Graph_searches_visit_reachable_witness:
  "\<exists>ds bs. gr_DFS (gr_example False) (Some 1) = Some ds \<and> gr_BFS (gr_example False) (Some 1) = Some bs
    \<and> set bs = set ds \<and> distinct ds"
  using Graph_searches_visit_reachable [OF gr_example_reach [of False], of 1] gr_example_nodes [of False]
  by fastforce

text \<open>Through any operations on nodes of the graph, the child lists and the edge list tell the same
  story: the neighbours of a node are nodes of the graph, they are the nodes \<open>HasEdge\<close> and \<open>GetEdge\<close>
  report an edge to, and no operation meets a nil pointer.\<close>

theorem Graph_neighbours_are_edges:
  assumes "gr_reach d g" and "u \<in> set (gr_Nodes g)"
  shows "\<exists>cs. gr_GetNeighbors g (Some u) = Some cs \<and> set cs \<subseteq> Some ` set (gr_Nodes g)
    \<and> (\<forall>v. (v \<in> set cs) = gr_HasEdge g (Some u) v \<and> gr_HasEdge g (Some u) v = (gr_GetEdge g (Some u) v \<noteq> None))"
proof -
  from gr_reach_inv [OF assms(1)] have inv: "gr_inv g" by simp
  obtain n where n: "gr_load (gr_heap g) (Some u) = Some n"
    "gn_Children n = gr_adj (gr_directed g) (gr_Edges g) (Some u)"
    using gr_load_children [OF inv assms(2)] by blast
  have "(v \<in> set (gn_Children n)) = gr_HasEdge g (Some u) v" for v by (simp add: n(2) in_gr_adj)
  moreover have "bg_HasEdge g a b = (bg_GetEdge g a b \<noteq> None)" for a b
    by (auto simp: bg_HasEdge_def bg_GetEdge_def list_ex_iff find_None_iff simp del: not_None_eq)
  then have "gr_HasEdge g (Some u) v = (gr_GetEdge g (Some u) v \<noteq> None)" for v
    by (simp add: gr_HasEdge_def gr_GetEdge_def split: option.splits)
  moreover have "set (gn_Children n) \<subseteq> Some ` set (gr_Nodes g)"
    using gr_HasEdge_nodes(2) [OF inv] by (auto simp: n(2) in_gr_adj)
  ultimately show ?thesis using n(1) by (simp add: gr_GetNeighbors_def)
qed

theorem Graph_neighbours_are_edges_witness:
  "\<exists>cs. gr_GetNeighbors (gr_example True) (Some 0) = Some cs \<and> (Some 1 \<in> set cs)
    = gr_HasEdge (gr_example True) (Some 0) (Some 1)"
  using Graph_neighbours_are_edges [OF gr_example_reach [of True], of 0] gr_example_nodes [of True]
  by fastforce

end
