(* ===== verification/GraphCycles.thy ===== *)
theory GraphCycles
  imports Graphs "HOL-Library.Multiset"
begin

text \<open>
  The cycle checks of \<open>algo/graph.go\<close>. Both recurse over the child lists; the directed one keeps
  the recursion stack, the undirected one the parent it came from. Both are shown exact: the
  directed one for paths of the edge relation, the undirected one for the multigraph.
\<close>

section \<open>Cycle checks\<close>

type_synonym cyc_state = "ptr option set \<times> ptr option set"

fun dg_isCyclicDFS :: "nat \<Rightarrow> 'a gheap \<Rightarrow> ptr option \<Rightarrow> cyc_state \<Rightarrow> (bool \<times> cyc_state) option"
  and dg_cyc_children ::
    "nat \<Rightarrow> 'a gheap \<Rightarrow> ptr option list \<Rightarrow> cyc_state \<Rightarrow> (bool \<times> cyc_state) option" where
  "dg_isCyclicDFS 0 h node s = None"
| "dg_isCyclicDFS (Suc fuel) h node s =
     do { let s = (insert node (fst s), insert node (snd s));
          n \<leftarrow> gr_load h node;
          (r, s) \<leftarrow> dg_cyc_children fuel h (gn_Children n) s;
          if r then Some (True, s) else Some (False, (fst s, snd s - {node})) }"
| "dg_cyc_children fuel h [] s = Some (False, s)"
| "dg_cyc_children fuel h (c # cs) s =
     (if c \<notin> fst s
      then do { (r, s) \<leftarrow> dg_isCyclicDFS fuel h c s;
                if r then Some (True, s) else dg_cyc_children fuel h cs s }
      else if c \<in> snd s then Some (True, s) else dg_cyc_children fuel h cs s)"

fun dg_cyc_nodes :: "nat \<Rightarrow> 'a gheap \<Rightarrow> ptr list \<Rightarrow> cyc_state \<Rightarrow> bool option" where
  "dg_cyc_nodes fuel h [] s = Some False"
| "dg_cyc_nodes fuel h (n # ns) s =
     (if Some n \<notin> fst s
      then do { (r, s) \<leftarrow> dg_isCyclicDFS fuel h (Some n) s;
                if r then Some True else dg_cyc_nodes fuel h ns s }
      else dg_cyc_nodes fuel h ns s)"

definition dg_IsCyclic :: "'a graph \<Rightarrow> bool option" where
  "dg_IsCyclic g = dg_cyc_nodes (Suc (gr_fresh g)) (gr_heap g) (gr_Nodes g) ({}, {})"

fun ug_isCyclicDFS ::
  "nat \<Rightarrow> 'a gheap \<Rightarrow> ptr option \<Rightarrow> ptr option set \<Rightarrow> ptr option \<Rightarrow> (bool \<times> ptr option set) option"
  and ug_cyc_children ::
  "nat \<Rightarrow> 'a gheap \<Rightarrow> ptr option \<Rightarrow> ptr option list \<Rightarrow> ptr option set \<Rightarrow> ptr option
    \<Rightarrow> (bool \<times> ptr option set) option" where
  "ug_isCyclicDFS 0 h node visited parent = None"
| "ug_isCyclicDFS (Suc fuel) h node visited parent =
     do { let visited = insert node visited;
          n \<leftarrow> gr_load h node;
          ug_cyc_children fuel h node (gn_Children n) visited parent }"
| "ug_cyc_children fuel h node [] visited parent = Some (False, visited)"
| "ug_cyc_children fuel h node (c # cs) visited parent =
     (if c = parent then ug_cyc_children fuel h node cs visited parent
      else if c \<in> visited then Some (True, visited)
      else do { (r, visited) \<leftarrow> ug_isCyclicDFS fuel h c visited node;
                if r then Some (True, visited) else ug_cyc_children fuel h node cs visited parent })"

fun ug_cyc_nodes :: "nat \<Rightarrow> 'a gheap \<Rightarrow> ptr list \<Rightarrow> ptr option set \<Rightarrow> bool option" where
  "ug_cyc_nodes fuel h [] visited = Some False"
| "ug_cyc_nodes fuel h (n # ns) visited =
     (if Some n \<notin> visited
      then do { (r, visited) \<leftarrow> ug_isCyclicDFS fuel h (Some n) visited None;
                if r then Some True else ug_cyc_nodes fuel h ns visited }
      else ug_cyc_nodes fuel h ns visited)"

definition ug_IsCyclic :: "'a graph \<Rightarrow> bool option" where
  "ug_IsCyclic g = ug_cyc_nodes (Suc (gr_fresh g)) (gr_heap g) (gr_Nodes g) {}"

definition gr_IsCyclic :: "'a graph \<Rightarrow> bool option" where
  "gr_IsCyclic g = (if gr_directed g then dg_IsCyclic g else ug_IsCyclic g)"

section \<open>The directed cycle check\<close>

text \<open>A node is finished when it is visited and no longer on the recursion stack: finished nodes lead
  to finished nodes only and lie on no cycle.\<close>

definition cyc_inv :: "'a gheap \<Rightarrow> cyc_state \<Rightarrow> bool" where
  "cyc_inv h s \<longleftrightarrow> snd s \<subseteq> fst s
     \<and> (\<forall>u \<in> fst s - snd s. gr_arcs h `` {u} \<subseteq> fst s - snd s \<and> (u, u) \<notin> (gr_arcs h)\<^sup>+)"

lemma finished_closed:
  assumes "cyc_inv h s" and "u \<in> fst s - snd s" and "(u, v) \<in> (gr_arcs h)\<^sup>*"
  shows "v \<in> fst s - snd s"
  using assms(3,2)
proof (induction rule: rtrancl_induct)
  case base
  then show ?case .
next
  case (step y z)
  then have "y \<in> fst s - snd s" by simp
  with assms(1) step.hyps(2) show ?case unfolding cyc_inv_def by blast
qed

lemma cyc_inv_finish:
  assumes inv: "cyc_inv h s" and u: "u \<in> snd s" and c: "gr_arcs h `` {u} \<subseteq> fst s - snd s"
  shows "cyc_inv h (fst s, snd s - {u})"
proof -
  have "(u, u) \<notin> (gr_arcs h)\<^sup>+"
  proof
    assume "(u, u) \<in> (gr_arcs h)\<^sup>+"
    then obtain w where "(u, w) \<in> gr_arcs h" "(w, u) \<in> (gr_arcs h)\<^sup>*" by (metis tranclD)
    with c finished_closed [OF inv, of w u] u show False by blast
  qed
  with inv c u show ?thesis unfolding cyc_inv_def by auto
qed

definition cyc_post :: "'a gheap \<Rightarrow> ptr option set \<Rightarrow> ptr option set \<Rightarrow> cyc_state \<Rightarrow> bool \<Rightarrow> cyc_state \<Rightarrow> bool" where
  "cyc_post h W R s r s' \<longleftrightarrow>
     (if r then \<exists>x \<in> W. (x, x) \<in> (gr_arcs h)\<^sup>+
      else cyc_inv h s' \<and> snd s' = snd s \<and> fst s \<subseteq> fst s' \<and> R \<subseteq> fst s' - snd s')"

lemma cyc_post_extend:
  assumes "cyc_post h W R s1 r s2" and "snd s1 = snd s" and "fst s \<subseteq> fst s1" and "c \<in> fst s1 - snd s1"
  shows "cyc_post h W (insert c R) s r s2"
  using assms by (cases r) (auto simp: cyc_post_def subset_iff)

lemma dg_cyc_correct:
  fixes h :: "'a gheap"
  shows "gr_closed h W \<Longrightarrow> cyc_inv h s \<Longrightarrow> u \<in> W \<Longrightarrow> u \<notin> fst s
      \<Longrightarrow> \<forall>x \<in> snd s. (x, u) \<in> (gr_arcs h)\<^sup>* \<Longrightarrow> card (W - fst s) < fuel
      \<Longrightarrow> \<exists>r s'. dg_isCyclicDFS fuel h u s = Some (r, s') \<and> cyc_post h W {u} s r s'"
    and "gr_closed h W \<Longrightarrow> cyc_inv h s \<Longrightarrow> set cs \<subseteq> W
      \<Longrightarrow> \<exists>u \<in> snd s. set cs \<subseteq> gr_arcs h `` {u} \<and> (\<forall>x \<in> snd s. (x, u) \<in> (gr_arcs h)\<^sup>*)
      \<Longrightarrow> card (W - fst s) < fuel
      \<Longrightarrow> \<exists>r s'. dg_cyc_children fuel h cs s = Some (r, s') \<and> cyc_post h W (set cs) s r s'"
proof (induction fuel h u s and fuel h cs s rule: dg_isCyclicDFS_dg_cyc_children.induct)
  case (1 h node s)
  then show ?case by simp
next
  case (2 fuel h node s)
  obtain n where n: "gr_load h node = Some n" "set (gn_Children n) \<subseteq> W"
    using gr_closedE [OF "2.prems"(1,3)] .
  let ?s = "(insert node (fst s), insert node (snd s))"
  have "node \<notin> snd s" using "2.prems"(2,4) by (auto simp: cyc_inv_def)
  then have "fst ?s - snd ?s = fst s - snd s" using "2.prems"(4) by auto
  with "2.prems"(2) have inv: "cyc_inv h ?s" unfolding cyc_inv_def by auto
  have "card (W - fst ?s) < fuel"
    using card_Diff_insert_less [OF _ "2.prems"(3,4)] "2.prems"(1,6) by (simp add: gr_closed_def)
  moreover have "\<exists>u \<in> snd ?s. set (gn_Children n) \<subseteq> gr_arcs h `` {u}
      \<and> (\<forall>x \<in> snd ?s. (x, u) \<in> (gr_arcs h)\<^sup>*)"
    using "2.prems"(5) gr_arcs_load [OF n(1)] by auto
  ultimately obtain r s' where rs: "dg_cyc_children fuel h (gn_Children n) ?s = Some (r, s')"
    "cyc_post h W (set (gn_Children n)) ?s r s'"
    using "2.IH" [OF refl n(1) "2.prems"(1) inv n(2)] by blast
  show ?case
  proof (cases r)
    case True
    with rs n(1) show ?thesis by (auto simp: cyc_post_def)
  next
    case False
    with rs(2) have p: "cyc_inv h s'" "snd s' = insert node (snd s)" "insert node (fst s) \<subseteq> fst s'"
      "gr_arcs h `` {node} \<subseteq> fst s' - snd s'"
      by (auto simp: cyc_post_def gr_arcs_load [OF n(1)])
    have "cyc_inv h (fst s', snd s' - {node})" by (rule cyc_inv_finish) (use p in auto)
    with False rs(1) n(1) p \<open>node \<notin> snd s\<close> show ?thesis by (auto simp: cyc_post_def)
  qed
next
  case (3 fuel h s)
  then show ?case by (simp add: cyc_post_def ex_bool_eq)
next
  case (4 fuel h c cs s)
  obtain u where u: "u \<in> snd s" "(u, c) \<in> gr_arcs h" "set cs \<subseteq> gr_arcs h `` {u}"
    "\<forall>x \<in> snd s. (x, u) \<in> (gr_arcs h)\<^sup>*" using "4.prems"(4) by auto
  have W: "c \<in> W" "set cs \<subseteq> W" using "4.prems"(3) by auto
  show ?case
  proof (cases "c \<in> fst s")
    case True
    show ?thesis
    proof (cases "c \<in> snd s")
      case rec: True
      then have "(c, u) \<in> (gr_arcs h)\<^sup>*" using u(4) by blast
      from this u(2) have "(c, c) \<in> (gr_arcs h)\<^sup>+" by (rule rtrancl_into_trancl1)
      with W True rec show ?thesis by (auto simp: cyc_post_def)
    next
      case False
      have "\<exists>u \<in> snd s. set cs \<subseteq> gr_arcs h `` {u} \<and> (\<forall>x \<in> snd s. (x, u) \<in> (gr_arcs h)\<^sup>*)"
        using u by blast
      with "4.IH"(3) [OF _ False "4.prems"(1,2) W(2)] True "4.prems"(5) obtain r s' where
        "dg_cyc_children fuel h cs s = Some (r, s')" "cyc_post h W (set cs) s r s'" by blast
      with True False cyc_post_extend [of h W "set cs" s r s' s c] show ?thesis by auto
    qed
  next
    case False
    have "\<forall>x \<in> snd s. (x, c) \<in> (gr_arcs h)\<^sup>*" using u(2,4) by (auto intro: rtrancl_into_rtrancl)
    with "4.IH"(1) [OF False "4.prems"(1,2) W(1) False] "4.prems"(5) obtain r s1 where
      s1: "dg_isCyclicDFS fuel h c s = Some (r, s1)" "cyc_post h W {c} s r s1" by blast
    show ?thesis
    proof (cases r)
      case True
      with s1 False show ?thesis by (auto simp: cyc_post_def)
    next
      case nr: False
      with s1(2) have p: "cyc_inv h s1" "snd s1 = snd s" "fst s \<subseteq> fst s1" "c \<in> fst s1 - snd s1"
        by (auto simp: cyc_post_def)
      have "card (W - fst s1) < fuel"
        using card_Diff_mono [OF _ p(3), of W] "4.prems"(1,5) by (auto simp: gr_closed_def)
      moreover have "\<exists>u \<in> snd s1. set cs \<subseteq> gr_arcs h `` {u} \<and> (\<forall>x \<in> snd s1. (x, u) \<in> (gr_arcs h)\<^sup>*)"
        using u p(2) by auto
      ultimately obtain r' s2 where s2: "dg_cyc_children fuel h cs s1 = Some (r', s2)"
        "cyc_post h W (set cs) s1 r' s2"
        using "4.IH"(2) [OF False s1(1) refl nr "4.prems"(1) p(1) W(2)] by blast
      with s1(1) nr False cyc_post_extend [OF s2(2) p(2,3,4)] show ?thesis by auto
    qed
  qed
qed

lemma dg_cyc_nodes_correct:
  assumes W: "gr_closed h W" and fuel: "card W < fuel"
  shows "cyc_inv h s \<Longrightarrow> snd s = {} \<Longrightarrow> Some ` set ns \<subseteq> W
    \<Longrightarrow> \<exists>r. dg_cyc_nodes fuel h ns s = Some r
      \<and> (r \<longrightarrow> (\<exists>x \<in> W. (x, x) \<in> (gr_arcs h)\<^sup>+))
      \<and> (\<not> r \<longrightarrow> (\<forall>n \<in> set ns. (Some n, Some n) \<notin> (gr_arcs h)\<^sup>+))"
proof (induction ns arbitrary: s)
  case Nil
  then show ?case by (simp add: ex_bool_eq)
next
  case (Cons n ns)
  show ?case
  proof (cases "Some n \<in> fst s")
    case True
    with Cons.prems have "(Some n, Some n) \<notin> (gr_arcs h)\<^sup>+" by (auto simp: cyc_inv_def)
    with True Cons.IH [OF Cons.prems(1,2)] Cons.prems(3) show ?thesis by auto
  next
    case False
    have "card (W - fst s) \<le> card W" using W by (intro card_mono) (auto simp: gr_closed_def)
    with fuel have "card (W - fst s) < fuel" by simp
    from dg_cyc_correct(1) [OF W Cons.prems(1) _ False _ this] Cons.prems(2,3) obtain r s' where
      r: "dg_isCyclicDFS fuel h (Some n) s = Some (r, s')" "cyc_post h W {Some n} s r s'" by auto
    show ?thesis
    proof (cases r)
      case True
      with r False show ?thesis by (auto simp: cyc_post_def)
    next
      case nr: False
      with r(2) Cons.prems(2) have p: "cyc_inv h s'" "snd s' = {}" "Some n \<in> fst s' - snd s'"
        by (auto simp: cyc_post_def)
      then have "(Some n, Some n) \<notin> (gr_arcs h)\<^sup>+" by (simp add: cyc_inv_def)
      with Cons.IH [OF p(1,2)] Cons.prems(3) r(1) nr False show ?thesis by auto
    qed
  qed
qed

lemma dg_IsCyclic_iff:
  assumes inv: "gr_inv g"
  shows "dg_IsCyclic g = Some (\<exists>x. (x, x) \<in> (gr_links g)\<^sup>+)"
proof -
  let ?W = "Some ` set (gr_Nodes g)"
  have "cyc_inv (gr_heap g) ({}, {})" by (simp add: cyc_inv_def)
  with dg_cyc_nodes_correct [OF gr_inv_closed [OF inv] gr_nodes_fuel [OF inv], of "({}, {})" "gr_Nodes g"]
  obtain r where r: "dg_IsCyclic g = Some r"
    "r \<longrightarrow> (\<exists>x \<in> ?W. (x, x) \<in> (gr_arcs (gr_heap g))\<^sup>+)"
    "\<not> r \<longrightarrow> (\<forall>x \<in> ?W. (x, x) \<notin> (gr_arcs (gr_heap g))\<^sup>+)"
    by (auto simp: dg_IsCyclic_def)
  have "x \<in> ?W" if "(x, x) \<in> (gr_links g)\<^sup>+" for x
    using tranclD [OF that] gr_HasEdge_nodes(1) [OF inv] by auto
  moreover from r(2,3) have "r \<longleftrightarrow> (\<exists>x \<in> ?W. (x, x) \<in> (gr_arcs (gr_heap g))\<^sup>+)" by blast
  then have "r \<longleftrightarrow> (\<exists>x \<in> ?W. (x, x) \<in> (gr_links g)\<^sup>+)" using gr_links_trancl [OF inv] by simp
  ultimately have "r \<longleftrightarrow> (\<exists>x. (x, x) \<in> (gr_links g)\<^sup>+)" by blast
  with r(1) show ?thesis by simp
qed

section \<open>The undirected cycle check\<close>

text \<open>An undirected multigraph has a cycle when the ends of some edge are still connected once that
  edge is taken away; a loop and a second edge between two nodes count.\<close>

definition ug_between :: "ptr option \<Rightarrow> ptr option \<Rightarrow> gedge \<Rightarrow> bool" where
  "ug_between u v e \<longleftrightarrow> (ed_From e = u \<and> ed_To e = v) \<or> (ed_From e = v \<and> ed_To e = u)"

definition ug_join :: "gedge multiset \<Rightarrow> (ptr option \<times> ptr option) set" where
  "ug_join M = {(u, v). \<exists>e \<in># M. ug_between u v e}"

definition ug_cyclic :: "gedge multiset \<Rightarrow> bool" where
  "ug_cyclic M \<longleftrightarrow> (\<exists>e \<in># M. (ed_From e, ed_To e) \<in> (ug_join (M - {#e#}))\<^sup>*)"

lemma ug_between_sym: "ug_between u v e = ug_between v u e"
  by (auto simp: ug_between_def)

lemma ug_join_sym: "(u, v) \<in> (ug_join M)\<^sup>* \<Longrightarrow> (v, u) \<in> (ug_join M)\<^sup>*"
  by (rule symD [OF sym_rtrancl]) (auto simp: sym_def ug_join_def ug_between_sym)

lemma ug_join_mono: "M \<subseteq># N \<Longrightarrow> (ug_join M)\<^sup>* \<subseteq> (ug_join N)\<^sup>*"
  by (rule rtrancl_mono) (auto simp: ug_join_def dest: mset_subset_eqD)

lemma ug_cyclicI:
  assumes "e \<in># M" and "ug_between u v e" and "(u, v) \<in> (ug_join (M - {#e#}))\<^sup>*"
  shows "ug_cyclic M"
  using assms ug_join_sym [OF assms(3)] by (auto simp: ug_cyclic_def ug_between_def)

subsection \<open>No cycle: an order in which each node has at most one earlier neighbour\<close>

fun ug_order ::
  "(ptr option \<Rightarrow> ptr option list) \<Rightarrow> ptr option set \<Rightarrow> (ptr option \<times> ptr option) list \<Rightarrow> bool" where
  "ug_order ch A [] = True"
| "ug_order ch A ((c, p) # os) =
     (c \<notin> A \<and> c \<noteq> None \<and> (p = None \<or> p \<in> A) \<and> set (ch c) \<inter> insert c A \<subseteq> {p}
      \<and> distinct (filter (\<lambda>x. x \<noteq> p) (ch c)) \<and> ug_order ch (insert c A) os)"

lemma ug_order_append [simp]:
  "ug_order ch A (xs @ ys) \<longleftrightarrow> ug_order ch A xs \<and> ug_order ch (A \<union> fst ` set xs) ys"
  by (induction xs arbitrary: A) auto

lemma ug_order_filter:
  assumes "ug_order ch A os" and "\<And>u. u \<in> fst ` set os \<Longrightarrow> ch' u = filter P (ch u)"
  shows "ug_order ch' A os"
  using assms
proof (induction os arbitrary: A)
  case Nil
  then show ?case by simp
next
  case (Cons o1 os)
  obtain c p where o1: "o1 = (c, p)" by fastforce
  have "ch' c = filter P (ch c)" using Cons.prems(2) o1 by simp
  moreover have "ug_order ch' (insert c A) os" using Cons o1 by auto
  moreover have "distinct (filter (\<lambda>x. x \<noteq> p) (filter P xs))"
    if "distinct (filter (\<lambda>x. x \<noteq> p) xs)" for xs
    using distinct_filter [OF that, of P] by (simp add: conj_commute)
  ultimately show ?case using Cons.prems(1) o1 by auto
qed

lemma ug_order_member:
  assumes "ug_order ch A os" and "(c, p) \<in> set os"
  shows "c \<noteq> None \<and> distinct (filter (\<lambda>x. x \<noteq> p) (ch c)) \<and> (p = None \<or> p \<in> A \<union> fst ` set os)"
  using assms by (induction os arbitrary: A) fastforce+

lemma ug_pendant:
  assumes e: "ug_between c p e" and cp: "c \<noteq> p"
    and c: "\<forall>f \<in># M. ed_From f \<noteq> c \<and> ed_To f \<noteq> c" and ac: "\<not> ug_cyclic M"
  shows "\<not> ug_cyclic (add_mset e M)"
proof
  assume "ug_cyclic (add_mset e M)"
  then obtain f where f: "f \<in># add_mset e M"
    "(ed_From f, ed_To f) \<in> (ug_join (add_mset e M - {#f#}))\<^sup>*"
    unfolding ug_cyclic_def by blast
  show False
  proof (cases "f = e")
    case True
    with f(2) have "(ed_From e, ed_To e) \<in> (ug_join M)\<^sup>*" by simp
    then have "(c, p) \<in> (ug_join M)\<^sup>*" using e ug_join_sym by (auto simp: ug_between_def)
    then obtain q where "(c, q) \<in> ug_join M" using cp by (meson converse_rtranclE)
    with c show False by (auto simp: ug_join_def ug_between_def)
  next
    case False
    with f(1) have fM: "f \<in># M" by simp
    with False have d: "add_mset e M - {#f#} = add_mset e (M - {#f#})" by simp
    let ?m = "\<lambda>x. if x = c then p else x"
    have "(?m x, ?m y) \<in> (ug_join (M - {#f#}))\<^sup>*"
      if "(x, y) \<in> (ug_join (add_mset e (M - {#f#})))\<^sup>*" for x y
      using that
    proof (induction rule: rtrancl_induct)
      case base
      then show ?case by simp
    next
      case (step y z)
      then obtain g where g: "g \<in># add_mset e (M - {#f#})" "ug_between y z g"
        by (auto simp: ug_join_def)
      have "?m y = ?m z \<or> (?m y, ?m z) \<in> ug_join (M - {#f#})"
      proof (cases "g = e")
        case True
        with g(2) e show ?thesis by (auto simp: ug_between_def)
      next
        case False
        with g(1) have gm: "g \<in># M - {#f#}" by simp
        then have "g \<in># M" by (rule in_diffD)
        with c g(2) have "y \<noteq> c" "z \<noteq> c" by (auto simp: ug_between_def)
        with gm g(2) show ?thesis by (auto simp: ug_join_def)
      qed
      with step.IH show ?case by (auto intro: rtrancl_into_rtrancl)
    qed
    from this [OF f(2) [unfolded d]] c fM
    have "(ed_From f, ed_To f) \<in> (ug_join (M - {#f#}))\<^sup>*" by simp
    with fM ac show False unfolding ug_cyclic_def by blast
  qed
qed

lemma ug_adj_incident1:
  assumes "ed_From e = c \<or> ed_To e = c \<Longrightarrow> ug_between c p e" and "c \<noteq> p"
  shows "count (mset (ug_adj [e] p)) c = (if ed_From e = c \<or> ed_To e = c then 1 else 0)"
  using assms by (auto simp: ug_between_def)

lemma ug_adj_incident:
  assumes "\<And>e. e \<in> set es \<Longrightarrow> ed_From e = c \<or> ed_To e = c \<Longrightarrow> ug_between c p e" and "c \<noteq> p"
  shows "count (mset (ug_adj es p)) c = length (filter (\<lambda>e. ed_From e = c \<or> ed_To e = c) es)"
  using assms(1)
proof (induction es)
  case Nil
  then show ?case by simp
next
  case (Cons e es)
  have "count (mset (ug_adj (e # es) p)) c = count (mset (ug_adj [e] p)) c + count (mset (ug_adj es p)) c"
    by simp
  then show ?case using ug_adj_incident1 [OF Cons.prems [of e] assms(2)] Cons by simp
qed

lemma ug_order_acyclic:
  assumes "ug_order (ug_adj es) {} os"
    and "\<forall>e \<in> set es. ed_From e \<in> fst ` set os \<and> ed_To e \<in> fst ` set os"
  shows "\<not> ug_cyclic (mset es)"
  using assms
proof (induction os arbitrary: es rule: rev_induct)
  case Nil
  then show ?case by (auto simp: ug_cyclic_def)
next
  case (snoc cp os)
  obtain c p where cp: "cp = (c, p)" by fastforce
  define inc where "inc = (\<lambda>e :: gedge. ed_From e = c \<or> ed_To e = c)"
  let ?A = "fst ` set os" and ?es = "filter (\<lambda>e. ed_From e \<noteq> c \<and> ed_To e \<noteq> c) es"
  have ord: "ug_order (ug_adj es) {} os" and c: "c \<notin> ?A" "c \<noteq> None" "p = None \<or> p \<in> ?A"
    "set (ug_adj es c) \<inter> insert c ?A \<subseteq> {p}" using snoc.prems(1) cp by auto
  have adj: "ug_adj ?es q = filter (\<lambda>x. x \<noteq> c) (ug_adj es q)" if "q \<noteq> c" for q
    using gr_adj_remove_node [OF that, of False] by (simp add: gr_adj_def)
  have "ug_order (ug_adj ?es) {} os"
    using c(1) by (intro ug_order_filter [OF ord, where P = "\<lambda>x. x \<noteq> c"] adj) auto
  moreover have ends: "\<forall>e \<in> set es. ed_From e \<in> insert c ?A \<and> ed_To e \<in> insert c ?A"
    using snoc.prems(2) cp by auto
  then have "\<forall>e \<in> set ?es. ed_From e \<in> ?A \<and> ed_To e \<in> ?A" by auto
  ultimately have ac: "\<not> ug_cyclic (mset ?es)" by (rule snoc.IH)
  have other: "x = p" if "x \<in> set (ug_adj es c)" for x
    using that ends c(4) by (fastforce simp: in_ug_adj)
  have "p \<noteq> c" using c(1-3) by auto
  have inc_p: "ug_between c p e \<and> (ed_From e = c) \<noteq> (ed_To e = c)" if "e \<in> set es" "inc e" for e
    using that other \<open>p \<noteq> c\<close> by (fastforce simp: in_ug_adj inc_def ug_between_def)
  have "length (filter inc es) \<le> 1"
  proof (cases "p \<in> ?A")
    case True
    then obtain q where q: "(p, q) \<in> set os" by auto
    from ug_order_member [OF ord q] c(1,2) have "distinct (filter (\<lambda>x. x \<noteq> q) (ug_adj es p))" "c \<noteq> q"
      by auto
    then have "count (mset (ug_adj es p)) c \<le> 1"
      by (metis (mono_tags, lifting) count_filter_mset distinct_count_atmost_1 le_refl mset_filter zero_le)
    with inc_p \<open>p \<noteq> c\<close> show ?thesis
      by (subst ug_adj_incident [symmetric, of _ c p, folded inc_def]) (auto simp: inc_def)
  next
    case False
    then have "p \<notin> insert c ?A" using \<open>p \<noteq> c\<close> by simp
    then have "\<not> inc e" if "e \<in> set es" for e
      using that inc_p [OF that] ends by (auto simp: ug_between_def)
    then show ?thesis by (simp add: filter_empty_conv [THEN iffD2])
  qed
  then have "filter inc es = [] \<or> (\<exists>e. filter inc es = [e])"
    by (cases "filter inc es" rule: list.exhaust) auto
  moreover have part: "mset es = mset ?es + mset (filter inc es)"
    unfolding inc_def by (induction es) auto
  ultimately show ?case
  proof (elim disjE exE)
    assume none: "filter inc es = []"
    have eq: "mset es = mset ?es" using part by (simp only: none mset.simps add.right_neutral)
    show ?thesis by (subst eq) (rule ac)
  next
    fix e assume e: "filter inc es = [e]"
    then have "e \<in> set (filter inc es)" by simp
    then have "e \<in> set es" "inc e" by auto
    with inc_p \<open>p \<noteq> c\<close> have "\<not> ug_cyclic (add_mset e (mset ?es))"
      by (intro ug_pendant [OF _ _ _ ac, of c p]) auto
    moreover have eq: "mset es = add_mset e (mset ?es)"
      using part by (simp only: e mset.simps union_mset_add_mset_right add.right_neutral)
    ultimately show ?thesis by (subst eq)
  qed
qed

subsection \<open>What a search without a hit leaves behind\<close>

abbreviation gr_kids :: "'a gheap \<Rightarrow> ptr option \<Rightarrow> ptr option list" where
  "gr_kids h u \<equiv> gn_Children (the (gr_load h u))"

lemma ug_dfs_order:
  fixes h :: "'a gheap"
  shows "gr_closed h W \<Longrightarrow> None \<notin> W \<Longrightarrow> u \<in> W \<Longrightarrow> u \<notin> A \<Longrightarrow> parent = None \<or> parent \<in> A
      \<Longrightarrow> card (W - A) < fuel
      \<Longrightarrow> \<exists>r A'. ug_isCyclicDFS fuel h u A parent = Some (r, A') \<and> A \<subseteq> A'
        \<and> (\<not> r \<longrightarrow> (\<exists>os. ug_order (gr_kids h) A ((u, parent) # os) \<and> A' = insert u A \<union> fst ` set os
            \<and> (\<forall>v \<in> A' - A. set (gr_kids h v) \<subseteq> A')))"
    and "gr_closed h W \<Longrightarrow> None \<notin> W \<Longrightarrow> set cs \<subseteq> W \<Longrightarrow> u \<in> A \<Longrightarrow> parent = None \<or> parent \<in> A
      \<Longrightarrow> card (W - A) < fuel
      \<Longrightarrow> \<exists>r A'. ug_cyc_children fuel h u cs A parent = Some (r, A') \<and> A \<subseteq> A'
        \<and> (\<not> r \<longrightarrow> (\<exists>os. ug_order (gr_kids h) A os \<and> A' = A \<union> fst ` set os
            \<and> (\<forall>v \<in> A' - A. set (gr_kids h v) \<subseteq> A') \<and> distinct (filter (\<lambda>x. x \<noteq> parent) cs)
            \<and> set (filter (\<lambda>x. x \<noteq> parent) cs) \<inter> A = {} \<and> set cs \<subseteq> insert parent A'))"
proof (induction fuel h u A parent and fuel h u cs A parent
    rule: ug_isCyclicDFS_ug_cyc_children.induct)
  case (1 h node visited parent)
  then show ?case by simp
next
  case (2 fuel h u A parent)
  obtain n where n: "gr_load h u = Some n" "set (gn_Children n) \<subseteq> W"
    using gr_closedE [OF "2.prems"(1,3)] .
  have "card (W - insert u A) < fuel"
    using card_Diff_insert_less [OF _ "2.prems"(3,4)] "2.prems"(1,6) by (simp add: gr_closed_def)
  moreover have "parent = None \<or> parent \<in> insert u A" using "2.prems"(5) by blast
  ultimately obtain r A' where
    r: "ug_cyc_children fuel h u (gn_Children n) (insert u A) parent = Some (r, A')" "insert u A \<subseteq> A'"
    and nr: "\<not> r \<longrightarrow> (\<exists>os. ug_order (gr_kids h) (insert u A) os \<and> A' = insert u A \<union> fst ` set os
      \<and> (\<forall>v \<in> A' - insert u A. set (gr_kids h v) \<subseteq> A') \<and> distinct (filter (\<lambda>x. x \<noteq> parent) (gn_Children n))
      \<and> set (filter (\<lambda>x. x \<noteq> parent) (gn_Children n)) \<inter> insert u A = {}
      \<and> set (gn_Children n) \<subseteq> insert parent A')"
    using "2.IH" [OF refl n(1) "2.prems"(1,2) n(2) insertI1] by blast
  have "\<exists>os. ug_order (gr_kids h) A ((u, parent) # os) \<and> A' = insert u A \<union> fst ` set os
      \<and> (\<forall>v \<in> A' - A. set (gr_kids h v) \<subseteq> A')" if hit: "\<not> r"
  proof -
    obtain os where os: "ug_order (gr_kids h) (insert u A) os" "A' = insert u A \<union> fst ` set os"
      "\<forall>v \<in> A' - insert u A. set (gr_kids h v) \<subseteq> A'" "distinct (filter (\<lambda>x. x \<noteq> parent) (gn_Children n))"
      "set (filter (\<lambda>x. x \<noteq> parent) (gn_Children n)) \<inter> insert u A = {}"
      "set (gn_Children n) \<subseteq> insert parent A'" using nr hit by blast
    have "u \<noteq> None" using "2.prems"(2,3) by metis
    moreover have "set (gn_Children n) \<inter> insert u A \<subseteq> {parent}" using os(5) by auto
    ultimately have "ug_order (gr_kids h) A ((u, parent) # os)" using os(1,4) n(1) "2.prems"(4,5) by simp
    moreover have "set (gn_Children n) \<subseteq> A'"
      using os(6) r(2) "2.prems"(2,5) n(2) by auto
    then have "set (gr_kids h v) \<subseteq> A'" if "v \<in> A' - A" for v
      using os(3) n(1) that by (cases "v = u") auto
    ultimately show ?thesis using os(2) by blast
  qed
  with r n(1) show ?case by auto
next
  case (3 fuel h u A parent)
  show ?case by (auto simp: ex_bool_eq intro: exI [of _ "[]"])
next
  case (4 fuel h u c cs A parent)
  have W: "c \<in> W" "set cs \<subseteq> W" using "4.prems"(3) by auto
  show ?case
  proof (cases "c = parent")
    case True
    with "4.IH"(1) [OF True "4.prems"(1,2) W(2) "4.prems"(4,5,6)] show ?thesis by auto
  next
    case np: False
    show ?thesis
    proof (cases "c \<in> A")
      case True
      with np show ?thesis by auto
    next
      case False
      have "u = None \<or> u \<in> A" using "4.prems"(4) by simp
      from "4.IH"(2) [OF np False "4.prems"(1,2) W(1) False this "4.prems"(6)] obtain r1 A1 where
        r1: "ug_isCyclicDFS fuel h c A u = Some (r1, A1)" "A \<subseteq> A1"
        and n1: "\<not> r1 \<longrightarrow> (\<exists>os. ug_order (gr_kids h) A ((c, u) # os) \<and> A1 = insert c A \<union> fst ` set os
            \<and> (\<forall>v \<in> A1 - A. set (gr_kids h v) \<subseteq> A1))" by blast
      show ?thesis
      proof (cases r1)
        case True
        with r1 np False show ?thesis by auto
      next
        case nr1: False
        have "card (W - A1) < fuel"
          using card_Diff_mono [OF _ r1(2), of W] "4.prems"(1,6) by (auto simp: gr_closed_def)
        moreover have "u \<in> A1" "parent = None \<or> parent \<in> A1" using "4.prems"(4,5) r1(2) by auto
        ultimately obtain r2 A2 where
          r2: "ug_cyc_children fuel h u cs A1 parent = Some (r2, A2)" "A1 \<subseteq> A2"
          and n2: "\<not> r2 \<longrightarrow> (\<exists>os. ug_order (gr_kids h) A1 os \<and> A2 = A1 \<union> fst ` set os
            \<and> (\<forall>v \<in> A2 - A1. set (gr_kids h v) \<subseteq> A2) \<and> distinct (filter (\<lambda>x. x \<noteq> parent) cs)
            \<and> set (filter (\<lambda>x. x \<noteq> parent) cs) \<inter> A1 = {} \<and> set cs \<subseteq> insert parent A2)"
          using "4.IH"(3) [OF np False r1(1) refl nr1 "4.prems"(1,2) W(2)] by blast
        have "\<exists>os. ug_order (gr_kids h) A os \<and> A2 = A \<union> fst ` set os
            \<and> (\<forall>v \<in> A2 - A. set (gr_kids h v) \<subseteq> A2) \<and> distinct (filter (\<lambda>x. x \<noteq> parent) (c # cs))
            \<and> set (filter (\<lambda>x. x \<noteq> parent) (c # cs)) \<inter> A = {} \<and> set (c # cs) \<subseteq> insert parent A2"
          if hit: "\<not> r2"
        proof -
          obtain os1 where o1: "ug_order (gr_kids h) A ((c, u) # os1)" "A1 = insert c A \<union> fst ` set os1"
            "\<forall>v \<in> A1 - A. set (gr_kids h v) \<subseteq> A1" using n1 nr1 by blast
          obtain os2 where o2: "ug_order (gr_kids h) A1 os2" "A2 = A1 \<union> fst ` set os2"
            "\<forall>v \<in> A2 - A1. set (gr_kids h v) \<subseteq> A2" "distinct (filter (\<lambda>x. x \<noteq> parent) cs)"
            "set (filter (\<lambda>x. x \<noteq> parent) cs) \<inter> A1 = {}" "set cs \<subseteq> insert parent A2"
            using n2 hit by blast
          have "insert c A \<union> fst ` set os1 = A \<union> fst ` set ((c, u) # os1)" by auto
          with o1(1,2) o2(1) have "ug_order (gr_kids h) A (((c, u) # os1) @ os2)"
            unfolding ug_order_append by simp
          moreover have "A2 = A \<union> fst ` set (((c, u) # os1) @ os2)" using o1(2) o2(2) by auto
          moreover have "set (gr_kids h v) \<subseteq> A2" if "v \<in> A2 - A" for v
            using o1(3) o2(3) r2(2) that by (cases "v \<in> A1") blast+
          moreover have "c \<in> A1" using o1(2) by blast
          then have "distinct (filter (\<lambda>x. x \<noteq> parent) (c # cs))"
            "set (filter (\<lambda>x. x \<noteq> parent) (c # cs)) \<inter> A = {}" "set (c # cs) \<subseteq> insert parent A2"
            using o2(4,5,6) False np r1(2) r2(2) by auto
          ultimately show ?thesis by blast
        qed
        with r1 r2 nr1 np False show ?thesis by auto
      qed
    qed
  qed
qed

subsection \<open>A hit closes a cycle\<close>

text \<open>The tree of the current search: its nodes \<open>C\<close>, its edges \<open>T\<close>; the other visited nodes are left
  by no edge.\<close>

definition ug_tree :: "gedge multiset \<Rightarrow> ptr option set \<Rightarrow> ptr option set \<Rightarrow> gedge multiset \<Rightarrow> ptr option \<Rightarrow> bool" where
  "ug_tree M A C T u \<longleftrightarrow> u \<in> C \<and> C \<subseteq> A \<and> T \<subseteq># M \<and> (\<forall>e \<in># T. ed_From e \<in> C \<and> ed_To e \<in> C)
     \<and> (\<forall>x \<in> C. (u, x) \<in> (ug_join T)\<^sup>*)
     \<and> (\<forall>x y. (x, y) \<in> ug_join M \<longrightarrow> x \<in> A - C \<longrightarrow> y \<in> A - C)"

definition ug_deg :: "gedge multiset \<Rightarrow> ptr option \<Rightarrow> ptr option \<Rightarrow> nat" where
  "ug_deg T u x = size (filter_mset (ug_between u x) T)"

lemma ug_deg_adj:
  assumes "u \<noteq> x"
  shows "ug_deg (mset es) u x = count_list (ug_adj es u) x"
  using assms by (induction es) (auto simp: ug_deg_def ug_between_def)

lemma ug_deg_add: "ug_deg (add_mset e T) u x = ug_deg T u x + (if ug_between u x e then 1 else 0)"
  by (simp add: ug_deg_def)

lemma ug_join_adj: "(u, c) \<in> ug_join (mset es) \<longleftrightarrow> c \<in> set (ug_adj es u)"
  by (auto simp: ug_join_def ug_between_def in_ug_adj)

lemma ug_tree_extend:
  assumes t: "ug_tree M A C T u" and c: "c \<notin> A" and e: "e \<in># M" "ug_between u c e"
  shows "ug_tree M (insert c A) (insert c C) (add_mset e T) c"
proof -
  have C: "C \<subseteq> A" "u \<in> C" using t by (auto simp: ug_tree_def)
  have ends: "\<forall>e \<in># T. ed_From e \<in> C \<and> ed_To e \<in> C" using t by (simp add: ug_tree_def)
  have "e \<notin># T" using ends e(2) c C by (auto simp: ug_between_def)
  then have "add_mset e T \<subseteq># M"
    using e(1) t by (auto simp: ug_tree_def insert_subset_eq_iff subset_mset_def subseteq_mset_def
        not_in_iff Suc_le_eq split: if_splits)
  moreover have "(c, x) \<in> (ug_join (add_mset e T))\<^sup>*" if "x \<in> insert c C" for x
  proof (cases "x = c")
    case False
    with that t have "(u, x) \<in> (ug_join T)\<^sup>*" by (auto simp: ug_tree_def)
    then have "(u, x) \<in> (ug_join (add_mset e T))\<^sup>*" using ug_join_mono [of T "add_mset e T"] by auto
    moreover have "(c, u) \<in> ug_join (add_mset e T)" using e(2) by (auto simp: ug_join_def ug_between_sym)
    ultimately show ?thesis by (rule converse_rtrancl_into_rtrancl [rotated])
  qed simp
  moreover have "insert c A - insert c C = A - C" using c C by auto
  moreover have "\<forall>f \<in># add_mset e T. ed_From f \<in> insert c C \<and> ed_To f \<in> insert c C"
    using ends e(2) C by (auto simp: ug_between_def)
  ultimately show ?thesis using t C unfolding ug_tree_def by auto
qed

lemma ug_tree_move:
  assumes "ug_tree M A C T c" and "u \<in> C"
  shows "ug_tree M A C T u"
proof -
  have "(c, u) \<in> (ug_join T)\<^sup>*" using assms by (simp add: ug_tree_def)
  then have "(u, c) \<in> (ug_join T)\<^sup>*" by (rule ug_join_sym)
  then have "\<forall>x \<in> C. (u, x) \<in> (ug_join T)\<^sup>*"
    using assms(1) unfolding ug_tree_def by (blast intro: rtrancl_trans)
  with assms show ?thesis by (simp add: ug_tree_def)
qed

lemma ug_hit:
  assumes t: "ug_tree (mset es) A C T u" and c: "c \<in> A" "c \<in> set (ug_adj es u)"
    and deg: "u \<noteq> c \<Longrightarrow> ug_deg T u c < count_list (ug_adj es u) c"
  shows "ug_cyclic (mset es)"
proof -
  have uc: "(u, c) \<in> ug_join (mset es)" using c(2) by (simp add: ug_join_adj)
  show ?thesis
  proof (cases "u = c")
    case True
    with uc obtain e where "e \<in># mset es" "ug_between u u e" by (auto simp: ug_join_def)
    then show ?thesis by (rule ug_cyclicI) simp
  next
    case False
    have "(c, u) \<in> ug_join (mset es)" using uc by (auto simp: ug_join_def ug_between_sym)
    with t c(1) have "c \<in> C" unfolding ug_tree_def by blast
    with t have conn: "(u, c) \<in> (ug_join T)\<^sup>*" and T: "T \<subseteq># mset es" by (auto simp: ug_tree_def)
    have "ug_deg T u c < ug_deg (mset es) u c" using deg [OF False] ug_deg_adj [OF False] by simp
    moreover have "size (filter_mset (ug_between u c) (mset es - T))
        = ug_deg (mset es) u c - ug_deg T u c"
      unfolding ug_deg_def filter_diff_mset using multiset_filter_mono [OF T] by (rule size_Diff_submset)
    ultimately have "filter_mset (ug_between u c) (mset es - T) \<noteq> {#}"
      unfolding size_eq_0_iff_empty [symmetric] by linarith
    then obtain e where "e \<in># filter_mset (ug_between u c) (mset es - T)" by (rule multiset_nonemptyE)
    then have e: "e \<in># mset es - T" "ug_between u c e"
      unfolding set_mset_filter by blast+
    have "T \<subseteq># mset es - {#e#}"
    proof (rule mset_subset_eqI)
      fix x
      have "count T e < count (mset es) e" using e(1) by (simp only: in_diff_count)
      with mset_subset_eq_count [OF T, of x] show "count T x \<le> count (mset es - {#e#}) x"
        by (cases "x = e") simp_all
    qed
    with conn ug_join_mono have "(u, c) \<in> (ug_join (mset es - {#e#}))\<^sup>*" by blast
    with e in_diffD [OF e(1)] show ?thesis by (intro ug_cyclicI [of e])
  qed
qed

definition ug_keep :: "ptr option set \<Rightarrow> gedge multiset \<Rightarrow> gedge multiset \<Rightarrow> bool" where
  "ug_keep A T T' \<longleftrightarrow> (\<forall>v \<in> A. \<forall>x. ug_deg T' v x = ug_deg T v x)"

definition ug_sound :: "gedge list \<Rightarrow> ptr option \<Rightarrow> ptr option set \<Rightarrow> ptr option set \<Rightarrow> gedge multiset
    \<Rightarrow> bool \<Rightarrow> ptr option set \<Rightarrow> bool" where
  "ug_sound es u K C T r A' \<longleftrightarrow>
     (if r then ug_cyclic (mset es)
      else \<exists>C' T'. ug_tree (mset es) A' C' T' u \<and> C \<subseteq> C' \<and> ug_keep K T T')"

definition ug_mirrors :: "'a gheap \<Rightarrow> ptr option set \<Rightarrow> gedge list \<Rightarrow> bool" where
  "ug_mirrors h W es \<longleftrightarrow> (\<forall>u \<in> W. \<forall>n. gr_load h u = Some n
     \<longrightarrow> gn_Children n = ug_adj es u \<and> set (gn_Children n) \<subseteq> W)"

lemma ug_deg_fresh:
  assumes "ug_tree M A C T u" and "c \<notin> A"
  shows "ug_deg T c x = 0"
  using assms by (fastforce simp: ug_tree_def ug_deg_def ug_between_def filter_mset_eq_mempty_iff)

lemma ug_cyc_visited_mono:
  fixes h :: "'a gheap"
  shows "ug_isCyclicDFS fuel h u A parent = Some (r, A') \<Longrightarrow> A \<subseteq> A'"
    and "ug_cyc_children fuel h u cs A parent = Some (r, A') \<Longrightarrow> A \<subseteq> A'"
proof (induction fuel h u A parent and fuel h u cs A parent arbitrary: r A' and r A'
    rule: ug_isCyclicDFS_ug_cyc_children.induct)
  case (4 fuel h u c cs A parent)
  then show ?case by (auto split: if_splits bind_splits) blast+
qed (auto split: bind_splits)

lemma ug_dfs_sound:
  fixes h :: "'a gheap"
  shows "ug_mirrors h W es \<Longrightarrow> u \<in> W \<Longrightarrow> ug_tree (mset es) (insert u A) C T u
      \<Longrightarrow> \<forall>x. x \<noteq> parent \<longrightarrow> ug_deg T u x = 0 \<Longrightarrow> u \<notin> A
      \<Longrightarrow> ug_isCyclicDFS fuel h u A parent = Some (r, A') \<Longrightarrow> ug_sound es u A C T r A'"
    and "ug_mirrors h W es \<Longrightarrow> u \<in> W \<Longrightarrow> ug_tree (mset es) A C T u
      \<Longrightarrow> \<exists>ds. ug_adj es u = ds @ cs \<and> (\<forall>x. x \<noteq> parent \<longrightarrow> ug_deg T u x \<le> count_list ds x)
      \<Longrightarrow> ug_cyc_children fuel h u cs A parent = Some (r, A') \<Longrightarrow> set cs \<subseteq> W
      \<Longrightarrow> ug_sound es u (A - {u}) C T r A'"
proof (induction fuel h u A parent and fuel h u cs A parent arbitrary: C T r A' and C T r A'
    rule: ug_isCyclicDFS_ug_cyc_children.induct)
  case (1 h node visited parent)
  then show ?case by simp
next
  case (2 fuel h u A parent)
  obtain n where n: "gr_load h u = Some n"
    and run: "ug_cyc_children fuel h u (gn_Children n) (insert u A) parent = Some (r, A')"
    using "2.prems"(6) by (auto split: bind_splits)
  have ch: "gn_Children n = ug_adj es u" "set (gn_Children n) \<subseteq> W"
    using "2.prems"(1,2) n unfolding ug_mirrors_def by blast+
  have "insert u A - {u} = A" using "2.prems"(5) by auto
  moreover have "\<exists>ds. ug_adj es u = ds @ gn_Children n
      \<and> (\<forall>x. x \<noteq> parent \<longrightarrow> ug_deg T u x \<le> count_list ds x)"
    using "2.prems"(4) ch(1) by (intro exI [of _ "[]"]) simp
  ultimately show ?case
    using "2.IH" [OF refl n "2.prems"(1,2,3) _ run ch(2)] by simp
next
  case (3 fuel h u A parent)
  then show ?case by (auto simp: ug_sound_def ug_keep_def)
next
  case (4 fuel h u c cs A parent)
  have W: "c \<in> W" "set cs \<subseteq> W" using "4.prems"(6) by auto
  obtain ds where ds: "ug_adj es u = ds @ c # cs"
    "\<And>x. x \<noteq> parent \<Longrightarrow> ug_deg T u x \<le> count_list ds x" using "4.prems"(4) by blast
  have adj: "ug_adj es u = (ds @ [c]) @ cs" using ds(1) by simp
  have step: "count_list ds x \<le> count_list (ds @ [c]) x" for x by simp
  show ?case
  proof (cases "c = parent")
    case True
    have "\<exists>ds. ug_adj es u = ds @ cs \<and> (\<forall>x. x \<noteq> parent \<longrightarrow> ug_deg T u x \<le> count_list ds x)"
      using adj ds(2) step by (meson le_trans)
    with "4.IH"(1) [OF True "4.prems"(1,2,3) _ _ W(2)] "4.prems"(5) True show ?thesis by simp
  next
    case np: False
    have cu: "c \<in> set (ug_adj es u)" using ds(1) by simp
    show ?thesis
    proof (cases "c \<in> A")
      case True
      have "ug_deg T u c < count_list (ug_adj es u) c"
        unfolding ds(1) using ds(2) [OF np] by simp
      from ug_hit [OF "4.prems"(3) True cu this] True np "4.prems"(5) show ?thesis
        by (simp add: ug_sound_def)
    next
      case False
      obtain e where e: "e \<in># mset es" "ug_between u c e"
        using cu ug_join_adj [of u c es] by (auto simp: ug_join_def)
      let ?T = "add_mset e T"
      have t1: "ug_tree (mset es) (insert c A) (insert c C) ?T c"
        by (rule ug_tree_extend [OF "4.prems"(3) False e])
      have uA: "u \<in> C" "C \<subseteq> A" using "4.prems"(3) by (auto simp: ug_tree_def)
      have d1: "\<forall>x. x \<noteq> u \<longrightarrow> ug_deg ?T c x = 0"
        using ug_deg_fresh [OF "4.prems"(3) False] e(2) uA False
        by (auto simp: ug_deg_add ug_between_def)
      obtain r1 A1 where r1: "ug_isCyclicDFS fuel h c A u = Some (r1, A1)"
        and rest: "(if r1 then Some (True, A1) else ug_cyc_children fuel h u cs A1 parent) = Some (r, A')"
        using "4.prems"(5) np False by (auto split: bind_splits)
      have s1: "ug_sound es c A (insert c C) ?T r1 A1"
        by (rule "4.IH"(2) [OF np False "4.prems"(1) W(1) t1 d1 False r1])
      show ?thesis
      proof (cases r1)
        case True
        with s1 rest show ?thesis by (simp add: ug_sound_def)
      next
        case nr1: False
        with s1 obtain C1 T1 where t2: "ug_tree (mset es) A1 C1 T1 c" "insert c C \<subseteq> C1" "ug_keep A ?T T1"
          by (auto simp: ug_sound_def)
        have t3: "ug_tree (mset es) A1 C1 T1 u" using ug_tree_move [OF t2(1)] t2(2) uA by blast
        have "ug_deg T1 u x \<le> count_list (ds @ [c]) x" if "x \<noteq> parent" for x
        proof -
          have "ug_deg T1 u x = ug_deg ?T u x" using t2(3) uA by (auto simp: ug_keep_def)
          moreover have "ug_between u x e \<Longrightarrow> x = c" using e(2) uA False by (auto simp: ug_between_def)
          ultimately show ?thesis using ds(2) [OF that] by (auto simp: ug_deg_add)
        qed
        then have d2: "\<exists>ds. ug_adj es u = ds @ cs \<and> (\<forall>x. x \<noteq> parent \<longrightarrow> ug_deg T1 u x \<le> count_list ds x)"
          using adj by blast
        have run: "ug_cyc_children fuel h u cs A1 parent = Some (r, A')" using rest nr1 by simp
        have s2: "ug_sound es u (A1 - {u}) C1 T1 r A'"
          using "4.IH"(3) [OF np False r1 refl nr1 "4.prems"(1,2) t3 d2 run W(2)] .
        have "ug_deg T1 v x = ug_deg T v x" if "v \<in> A - {u}" for v x
          using t2(3) that e(2) False by (auto simp: ug_keep_def ug_deg_add ug_between_def)
        moreover have "A \<subseteq> A1" using ug_cyc_visited_mono(1) [OF r1] .
        ultimately have "ug_keep (A - {u}) T T'" if "ug_keep (A1 - {u}) T1 T'" for T'
          using that by (auto simp: ug_keep_def subset_iff)
        with s2 t2(2) show ?thesis unfolding ug_sound_def by (meson insert_subset subset_trans)
      qed
    qed
  qed
qed

lemma gr_kids_adj:
  assumes "gr_inv g" and "\<not> gr_directed g" and "u \<in> Some ` set (gr_Nodes g)"
  shows "gr_kids (gr_heap g) u = ug_adj (gr_Edges g) u"
  using assms gr_load_children [OF assms(1)] by (fastforce simp: gr_adj_def)

lemma gr_mirrors:
  assumes "gr_inv g" and "\<not> gr_directed g"
  shows "ug_mirrors (gr_heap g) (Some ` set (gr_Nodes g)) (gr_Edges g)"
proof -
  have "gn_Children n = ug_adj (gr_Edges g) u \<and> set (gn_Children n) \<subseteq> Some ` set (gr_Nodes g)"
    if "u \<in> Some ` set (gr_Nodes g)" "gr_load (gr_heap g) u = Some n" for u n
  proof
    show "gn_Children n = ug_adj (gr_Edges g) u" using gr_kids_adj [OF assms that(1)] that(2) by simp
    show "set (gn_Children n) \<subseteq> Some ` set (gr_Nodes g)"
      by (rule gr_closedE [OF gr_inv_closed [OF assms(1)] that(1)]) (use that(2) in simp)
  qed
  then show ?thesis unfolding ug_mirrors_def by blast
qed

lemma ug_dfs_within:
  fixes h :: "'a gheap"
  shows "gr_closed h W \<Longrightarrow> u \<in> W \<Longrightarrow> A \<subseteq> W \<Longrightarrow> ug_isCyclicDFS fuel h u A parent = Some (r, A')
      \<Longrightarrow> A' \<subseteq> W"
    and "gr_closed h W \<Longrightarrow> set cs \<subseteq> W \<Longrightarrow> A \<subseteq> W \<Longrightarrow> ug_cyc_children fuel h u cs A parent = Some (r, A')
      \<Longrightarrow> A' \<subseteq> W"
proof (induction fuel h u A parent and fuel h u cs A parent arbitrary: r A' and r A'
    rule: ug_isCyclicDFS_ug_cyc_children.induct)
  case (2 fuel h u A parent)
  obtain n where n: "gr_load h u = Some n" "set (gn_Children n) \<subseteq> W"
    using gr_closedE [OF "2.prems"(1,2)] .
  then have "ug_cyc_children fuel h u (gn_Children n) (insert u A) parent = Some (r, A')"
    using "2.prems"(4) by simp
  with "2.IH" [OF refl n(1) "2.prems"(1) n(2)] "2.prems"(2,3) show ?case by simp
next
  case (4 fuel h u c cs A parent)
  have W: "c \<in> W" "set cs \<subseteq> W" using "4.prems"(2) by auto
  show ?case
  proof (cases "c = parent")
    case True
    with "4.IH"(1) [OF True "4.prems"(1) W(2) "4.prems"(3)] "4.prems"(4) show ?thesis by simp
  next
    case np: False
    show ?thesis
    proof (cases "c \<in> A")
      case True
      with np "4.prems"(3,4) show ?thesis by simp
    next
      case False
      obtain r1 A1 where r1: "ug_isCyclicDFS fuel h c A u = Some (r1, A1)"
        and rest: "(if r1 then Some (True, A1) else ug_cyc_children fuel h u cs A1 parent) = Some (r, A')"
        using "4.prems"(4) np False by (auto split: bind_splits)
      have "A1 \<subseteq> W" by (rule "4.IH"(2) [OF np False "4.prems"(1) W(1) "4.prems"(3) r1])
      with rest "4.IH"(3) [OF np False r1 refl _ "4.prems"(1) W(2)] show ?thesis by (cases r1) simp_all
    qed
  qed
qed auto

lemma ug_cyc_nodes_correct:
  fixes h :: "'a gheap"
  assumes W: "gr_closed h W" "None \<notin> W" and fuel: "card W < fuel" and m: "ug_mirrors h W es"
    and sym: "\<And>u v. (u, v) \<in> ug_join (mset es) \<Longrightarrow> u \<in> W \<and> v \<in> set (gr_kids h u)"
  shows "ug_order (gr_kids h) {} os \<Longrightarrow> A = fst ` set os \<Longrightarrow> A \<subseteq> W
    \<Longrightarrow> \<forall>v \<in> A. set (gr_kids h v) \<subseteq> A \<Longrightarrow> Some ` set ns \<subseteq> W
    \<Longrightarrow> \<exists>r. ug_cyc_nodes fuel h ns A = Some r \<and> (r \<longrightarrow> ug_cyclic (mset es))
      \<and> (\<not> r \<longrightarrow> (\<exists>os. ug_order (gr_kids h) {} os \<and> Some ` set ns \<union> A \<subseteq> fst ` set os \<and> fst ` set os \<subseteq> W))"
proof (induction ns arbitrary: A os)
  case Nil
  then show ?case by (auto simp: ex_bool_eq)
next
  case (Cons n ns)
  show ?case
  proof (cases "Some n \<in> A")
    case True
    have "Some ` set ns \<subseteq> W" using Cons.prems(5) by simp
    moreover have "Some ` set (n # ns) \<union> A = Some ` set ns \<union> A" using True by auto
    ultimately show ?thesis using Cons.IH [OF Cons.prems(1-4)] True
      by (simp only: ug_cyc_nodes.simps not_True_eq_False if_False)
  next
    case False
    have nW: "Some n \<in> W" using Cons.prems(5) by simp
    have "card (W - A) \<le> card W" using W(1) by (intro card_mono) (auto simp: gr_closed_def)
    with fuel have "card (W - A) < fuel" by simp
    from ug_dfs_order(1) [OF W nW False _ this, of None] obtain r A' where
      r: "ug_isCyclicDFS fuel h (Some n) A None = Some (r, A')" "A \<subseteq> A'"
      and nr: "\<not> r \<longrightarrow> (\<exists>os. ug_order (gr_kids h) A ((Some n, None) # os)
        \<and> A' = insert (Some n) A \<union> fst ` set os \<and> (\<forall>v \<in> A' - A. set (gr_kids h v) \<subseteq> A'))" by blast
    have "ug_tree (mset es) (insert (Some n) A) {Some n} {#} (Some n)"
      using sym Cons.prems(4) False by (fastforce simp: ug_tree_def)
    from ug_dfs_sound(1) [OF m nW this _ False r(1)]
    have hit: "r \<longrightarrow> ug_cyclic (mset es)" by (auto simp: ug_deg_def ug_sound_def)
    show ?thesis
    proof (cases r)
      case True
      with r False hit show ?thesis by auto
    next
      case nohit: False
      with nr obtain os' where os': "ug_order (gr_kids h) A ((Some n, None) # os')"
        "A' = insert (Some n) A \<union> fst ` set os'" "\<forall>v \<in> A' - A. set (gr_kids h v) \<subseteq> A'" by blast
      have ord: "ug_order (gr_kids h) {} (os @ (Some n, None) # os')"
        using os'(1) Cons.prems(1,2) by simp
      have A': "A' = fst ` set (os @ (Some n, None) # os')" using os'(2) Cons.prems(2) by auto
      have "A' \<subseteq> W" using ug_dfs_within(1) [OF W(1) nW Cons.prems(3) r(1)] .
      moreover have "\<forall>v \<in> A'. set (gr_kids h v) \<subseteq> A'" using os'(3) Cons.prems(4) r(2) by blast
      moreover have "Some ` set ns \<subseteq> W" using Cons.prems(5) by simp
      ultimately obtain r' where r': "ug_cyc_nodes fuel h ns A' = Some r'" "r' \<longrightarrow> ug_cyclic (mset es)"
        "\<not> r' \<longrightarrow> (\<exists>os. ug_order (gr_kids h) {} os \<and> Some ` set ns \<union> A' \<subseteq> fst ` set os
          \<and> fst ` set os \<subseteq> W)"
        using Cons.IH [OF ord A'] by blast
      have "Some n \<in> A'" using os'(2) by blast
      then have "Some ` set (n # ns) \<union> A \<subseteq> Some ` set ns \<union> A'" using r(2) by auto
      then have "\<not> r' \<longrightarrow> (\<exists>os. ug_order (gr_kids h) {} os \<and> Some ` set (n # ns) \<union> A \<subseteq> fst ` set os
          \<and> fst ` set os \<subseteq> W)" using r'(3) by (meson subset_trans)
      moreover have "ug_cyc_nodes fuel h (n # ns) A = Some r'" using r(1) nohit False r'(1) by simp
      ultimately show ?thesis using r'(2) by blast
    qed
  qed
qed

lemma ug_IsCyclic_iff:
  assumes inv: "gr_inv g" and d: "\<not> gr_directed g"
  shows "ug_IsCyclic g = Some (ug_cyclic (mset (gr_Edges g)))"
proof -
  let ?W = "Some ` set (gr_Nodes g)"
  have "u \<in> ?W \<and> v \<in> set (gr_kids (gr_heap g) u)" if uv: "(u, v) \<in> ug_join (mset (gr_Edges g))" for u v
  proof -
    have "u \<in> ?W" using uv inv by (auto simp: ug_join_def ug_between_def gr_inv_def)
    with uv gr_kids_adj [OF inv d this] show ?thesis by (simp add: ug_join_adj)
  qed
  from ug_cyc_nodes_correct [OF gr_inv_closed [OF inv] _ gr_nodes_fuel [OF inv] gr_mirrors [OF inv d] this,
      of "[]" "{}" "gr_Nodes g"]
  obtain r where r: "ug_IsCyclic g = Some r" "r \<longrightarrow> ug_cyclic (mset (gr_Edges g))"
    and nr: "\<not> r \<longrightarrow> (\<exists>os. ug_order (gr_kids (gr_heap g)) {} os \<and> ?W \<subseteq> fst ` set os \<and> fst ` set os \<subseteq> ?W)"
    by (auto simp: ug_IsCyclic_def)
  have "\<not> ug_cyclic (mset (gr_Edges g))" if nohit: "\<not> r"
  proof -
    obtain os where os: "ug_order (gr_kids (gr_heap g)) {} os" "fst ` set os = ?W" using nr nohit by blast
    have "ug_order (ug_adj (gr_Edges g)) {} os"
      by (rule ug_order_filter [OF os(1), where P = "\<lambda>_. True"]) (simp add: os(2) gr_kids_adj [OF inv d])
    then show ?thesis by (rule ug_order_acyclic) (use inv os(2) in \<open>simp add: gr_inv_def\<close>)
  qed
  with r have "ug_cyclic (mset (gr_Edges g)) = r" by blast
  with r(1) show ?thesis by simp
qed

section \<open>Both checks are exact\<close>

lemma gr_example_acyclic: "gr_IsCyclic (gr_example False) = Some False"
  by (simp add: gr_example_eval gr_IsCyclic_def ug_IsCyclic_def gr_load_def numeral_2_eq_2)

text \<open>C13: \<open>IsCyclic\<close> is exact and always returns: for a directed graph it says whether some node
  reaches itself over one or more edges; for an undirected graph whether the ends of some edge stay
  connected when that edge is taken away, so that a loop and a second edge between two nodes count
  as cycles and going back over one edge does not.\<close>

theorem Graph_IsCyclic_exact:
  assumes "gr_reach d g"
  shows "gr_IsCyclic g = Some (if d then \<exists>x. (x, x) \<in> {(u, v). gr_HasEdge g u v}\<^sup>+
     else ug_cyclic (mset (gr_Edges g)))"
  using gr_reach_inv [OF assms] dg_IsCyclic_iff [of g] ug_IsCyclic_iff [of g]
  by (simp add: gr_IsCyclic_def)

theorem Graph_IsCyclic_exact_witness:
  "gr_IsCyclic (gr_example False) = Some (ug_cyclic (mset (gr_Edges (gr_example False))))
   \<and> gr_IsCyclic (gr_example False) = Some False"
  using Graph_IsCyclic_exact [OF gr_example_reach [of False]] gr_example_acyclic by simp

end
