(* ===== verification/Iterators.thy ===== *)
theory Iterators
  imports Prelude
begin

text \<open>
  \<open>collections/iterator.go\<close>: the iterator over the batches of a slice, with its optional mapper,
  filter and limit.

  A batch is the list of its elements: a mapper that writes into the batch it is given changes
  elements the iterator has already passed. \<open>Next\<close> calls itself when the filter rejects a batch and
  the loops of \<open>Collect\<close>, \<open>Reduce\<close> and \<open>Execute\<close> run until \<open>Next\<close> reports no more; each step
  consumes elements, so the length of the slice bounds the fuel. \<open>None\<close> is a panic. A nil slice and
  an empty one behave alike. The field \<open>reducer\<close> is copied and never read.
\<close>

section \<open>The iterator\<close>

record 'a batch_iterator =
  bi_slice :: "'a list"
  bi_batchSize :: int
  bi_position :: int
  bi_mapper :: "('a list \<Rightarrow> 'a list) option"
  bi_filter :: "('a list \<Rightarrow> bool) option"
  bi_taker :: int

definition NewBatchIterator :: "'a list \<Rightarrow> int \<Rightarrow> 'a batch_iterator" where
  "NewBatchIterator xs batchSize =
     (if batchSize \<le> 0
      then \<lparr>bi_slice = [], bi_batchSize = 0, bi_position = 0, bi_mapper = None, bi_filter = None,
            bi_taker = 0\<rparr>
      else \<lparr>bi_slice = xs, bi_batchSize = batchSize, bi_position = 0, bi_mapper = None,
            bi_filter = None, bi_taker = -1\<rparr>)"

definition bi_Map :: "'a batch_iterator \<Rightarrow> ('a list \<Rightarrow> 'a list) \<Rightarrow> 'a batch_iterator" where
  "bi_Map it fn = it\<lparr>bi_mapper := Some fn\<rparr>"

definition bi_Filter :: "'a batch_iterator \<Rightarrow> ('a list \<Rightarrow> bool) \<Rightarrow> 'a batch_iterator" where
  "bi_Filter it fn = it\<lparr>bi_filter := Some fn\<rparr>"

definition bi_Take :: "'a batch_iterator \<Rightarrow> int \<Rightarrow> 'a batch_iterator" where
  "bi_Take it n = it\<lparr>bi_taker := n\<rparr>"

text \<open>The expression \<open>slice[from:to]\<close>.\<close>

definition go_slice :: "'a list \<Rightarrow> int \<Rightarrow> int \<Rightarrow> 'a list option" where
  "go_slice xs i j =
     (if 0 \<le> i \<and> i \<le> j \<and> j \<le> int (length xs) then Some (take (nat (j - i)) (drop (nat i) xs)) else None)"

definition getNextBatch :: "'a batch_iterator \<Rightarrow> (('a list \<times> bool) \<times> 'a batch_iterator) option" where
  "getNextBatch it =
     (if bi_position it \<ge> int (length (bi_slice it)) then Some (([], False), it)
      else let e = wrap64 (bi_position it + bi_batchSize it);
               e = (if e > int (length (bi_slice it)) then int (length (bi_slice it)) else e)
           in do { batch \<leftarrow> go_slice (bi_slice it) (bi_position it) e;
                   Some ((batch, e < int (length (bi_slice it))), it\<lparr>bi_position := e\<rparr>) })"

fun bi_Next :: "nat \<Rightarrow> 'a batch_iterator \<Rightarrow> (('a list \<times> bool) \<times> 'a batch_iterator) option" where
  "bi_Next 0 it = None"
| "bi_Next (Suc fuel) it =
     (if bi_taker it = 0 then Some (([], False), it)
      else do {
        ((batch, hasMore), it) \<leftarrow> getNextBatch it;
        if batch \<noteq> [] \<or> hasMore then do {
          let batch = (case bi_mapper it of None \<Rightarrow> batch | Some f \<Rightarrow> f batch);
          if (case bi_filter it of None \<Rightarrow> False | Some p \<Rightarrow> \<not> p batch) then bi_Next fuel it
          else if bi_taker it > 0
          then let it = it\<lparr>bi_taker := bi_taker it - 1\<rparr>
               in Some ((batch, if bi_taker it = 0 then False else hasMore), it)
          else Some ((batch, hasMore), it) }
        else Some ((batch, hasMore), it) })"

abbreviation bi_fuel :: "'a batch_iterator \<Rightarrow> nat" where
  "bi_fuel it \<equiv> Suc (length (bi_slice it))"

section \<open>Consumers\<close>

fun bi_collect_loop :: "nat \<Rightarrow> 'a batch_iterator \<Rightarrow> 'a list list \<Rightarrow> ('a list list \<times> 'a batch_iterator) option" where
  "bi_collect_loop 0 it results = None"
| "bi_collect_loop (Suc fuel) it results =
     do { ((batch, hasMore), it) \<leftarrow> bi_Next (bi_fuel it) it;
          let results = (if length batch > 0 then results @ [batch] else results);
          if \<not> hasMore then Some (results, it) else bi_collect_loop fuel it results }"

definition bi_Collect :: "'a batch_iterator \<Rightarrow> ('a list list \<times> 'a batch_iterator) option" where
  "bi_Collect it = bi_collect_loop (bi_fuel it) it []"

text \<open>The accumulator is \<open>None\<close> until the first batch.\<close>

fun bi_reduce_loop ::
  "nat \<Rightarrow> ('a list \<Rightarrow> 'a list \<Rightarrow> 'a list) \<Rightarrow> 'a batch_iterator \<Rightarrow> 'a list option
    \<Rightarrow> ('a list option \<times> 'a batch_iterator) option" where
  "bi_reduce_loop 0 fn it acc = None"
| "bi_reduce_loop (Suc fuel) fn it acc =
     do { ((batch, hasMore), it) \<leftarrow> bi_Next (bi_fuel it) it;
          if length batch = 0 \<and> \<not> hasMore then Some (acc, it)
          else do {
            let acc = (case acc of None \<Rightarrow> Some batch | Some r \<Rightarrow> Some (fn r batch));
            if \<not> hasMore then Some (acc, it) else bi_reduce_loop fuel fn it acc } }"

definition bi_Reduce ::
  "'a batch_iterator \<Rightarrow> ('a list \<Rightarrow> 'a list \<Rightarrow> 'a list) \<Rightarrow> ('a list option \<times> 'a batch_iterator) option" where
  "bi_Reduce it fn = bi_reduce_loop (bi_fuel it) fn it None"

text \<open>The callback may fail; the calls made are part of the result.\<close>

fun bi_execute_loop ::
  "nat \<Rightarrow> ('a list \<Rightarrow> 'e option) \<Rightarrow> 'a batch_iterator \<Rightarrow> 'a list list
    \<Rightarrow> ('a list list \<times> 'e option) option" where
  "bi_execute_loop 0 f it calls = None"
| "bi_execute_loop (Suc fuel) f it calls =
     do { ((batch, hasMore), it) \<leftarrow> bi_Next (bi_fuel it) it;
          let calls = calls @ [batch];
          case f batch of
            Some err \<Rightarrow> Some (calls, Some err)
          | None \<Rightarrow> if \<not> hasMore then Some (calls, None) else bi_execute_loop fuel f it calls }"

definition bi_Execute :: "'a batch_iterator \<Rightarrow> ('a list \<Rightarrow> 'e option) \<Rightarrow> ('a list list \<times> 'e option) option" where
  "bi_Execute it f = bi_execute_loop (bi_fuel it) f it []"

definition Batch :: "'a list \<Rightarrow> int \<Rightarrow> ('a list \<Rightarrow> 'e option) \<Rightarrow> ('a list list \<times> 'e option) option" where
  "Batch xs batchSize f = bi_Execute (NewBatchIterator xs batchSize) f"

fun bi_execute_return_loop ::
  "nat \<Rightarrow> ('a list \<Rightarrow> 'e + 'r) \<Rightarrow> 'a batch_iterator \<Rightarrow> 'r list \<Rightarrow> ('e + 'r list) option" where
  "bi_execute_return_loop 0 f it results = None"
| "bi_execute_return_loop (Suc fuel) f it results =
     do { ((batch, hasMore), it) \<leftarrow> bi_Next (bi_fuel it) it;
          case f batch of
            Inl err \<Rightarrow> Some (Inl err)
          | Inr r \<Rightarrow>
              let results = results @ [r]
              in if \<not> hasMore then Some (Inr results) else bi_execute_return_loop fuel f it results }"

definition ExecuteWithReturn :: "'a batch_iterator \<Rightarrow> ('a list \<Rightarrow> 'e + 'r) \<Rightarrow> ('e + 'r list) option" where
  "ExecuteWithReturn it f = bi_execute_return_loop (bi_fuel it) f it []"

section \<open>What the iterator yields\<close>

text \<open>The batches of a list; all have \<open>n\<close> elements but the last, which has at most as many.\<close>

fun batches :: "nat \<Rightarrow> 'a list \<Rightarrow> 'a list list" where
  "batches n [] = []"
| "batches n (x # xs) = take (Suc n) (x # xs) # batches n (drop n xs)"

lemma concat_batches: "concat (batches n xs) = xs"
  by (induction n xs rule: batches.induct) auto

lemma batches_lengths: "b \<in> set (batches n xs) \<Longrightarrow> b \<noteq> [] \<and> length b \<le> Suc n"
  by (induction n xs rule: batches.induct) auto

lemma batches_unfold:
  "xs \<noteq> [] \<Longrightarrow> batches n xs = take (Suc n) xs # batches n (drop (Suc n) xs)"
  by (cases xs) auto

text \<open>The batches an iterator still has to offer, mapped, filtered and limited.\<close>

definition bi_mapped :: "'a batch_iterator \<Rightarrow> 'a list list" where
  "bi_mapped it = map (case bi_mapper it of None \<Rightarrow> (\<lambda>b. b) | Some f \<Rightarrow> f)
     (batches (nat (bi_batchSize it) - 1) (drop (nat (bi_position it)) (bi_slice it)))"

definition bi_accepts :: "'a batch_iterator \<Rightarrow> 'a list \<Rightarrow> bool" where
  "bi_accepts it b = (case bi_filter it of None \<Rightarrow> True | Some p \<Rightarrow> p b)"

definition bi_limit :: "'a batch_iterator \<Rightarrow> 'b list \<Rightarrow> 'b list" where
  "bi_limit it bs = (if bi_taker it < 0 then bs else take (nat (bi_taker it)) bs)"

definition bi_yield :: "'a batch_iterator \<Rightarrow> 'a list list" where
  "bi_yield it = bi_limit it (filter (bi_accepts it) (bi_mapped it))"

text \<open>After the last accepted batch there may be rejected ones: then \<open>Next\<close> has promised more and
  answers with an empty batch.\<close>

definition bi_trailing :: "'a batch_iterator \<Rightarrow> bool" where
  "bi_trailing it \<longleftrightarrow> bi_taker it = 0 \<or> bi_mapped it = [] \<or>
     (\<not> bi_accepts it (last (bi_mapped it))
      \<and> (bi_taker it < 0 \<or> length (filter (bi_accepts it) (bi_mapped it)) < nat (bi_taker it)))"

definition bi_ok :: "'a batch_iterator \<Rightarrow> bool" where
  "bi_ok it \<longleftrightarrow> 0 \<le> bi_position it \<and> bi_position it \<le> int (length (bi_slice it))
     \<and> length (bi_slice it) < 2 ^ 62 \<and> bi_batchSize it < 2 ^ 62
     \<and> (0 < bi_batchSize it \<or> bi_slice it = [] \<and> bi_taker it = 0)"

lemma bi_ok_simps:
  assumes "bi_ok it" and "bi_position it < int (length (bi_slice it))"
  shows "0 < bi_batchSize it" and "bi_slice it \<noteq> []"
  using assms by (auto simp: bi_ok_def)

lemma getNextBatch_more:
  assumes ok: "bi_ok it" and more: "bi_position it < int (length (bi_slice it))"
  defines "n \<equiv> nat (bi_batchSize it) - 1" and "ys \<equiv> drop (nat (bi_position it)) (bi_slice it)"
  shows "\<exists>e. getNextBatch it = Some ((take (Suc n) ys, drop (Suc n) ys \<noteq> []), it\<lparr>bi_position := e\<rparr>)
    \<and> bi_ok (it\<lparr>bi_position := e\<rparr>) \<and> drop (nat e) (bi_slice it) = drop (Suc n) ys \<and> ys \<noteq> []"
proof -
  let ?l = "int (length (bi_slice it))" and ?p = "bi_position it" and ?b = "bi_batchSize it"
  let ?e = "min ?l (?p + ?b)"
  have pos: "0 < ?b" "0 \<le> ?p" "?l < 2 ^ 62" "?b < 2 ^ 62"
    using bi_ok_simps [OF ok more] ok by (auto simp: bi_ok_def)
  then have "wrap64 (?p + ?b) = ?p + ?b" using more by simp
  moreover have n: "int (Suc n) = ?b" using pos(1) by (simp add: n_def)
  have "go_slice (bi_slice it) ?p ?e = Some (take (Suc n) ys)"
  proof -
    have "nat (?e - ?p) = min (length ys) (Suc n)"
      using more pos(2) n by (auto simp: ys_def min_def nat_diff_distrib)
    then show ?thesis using more pos by (simp add: go_slice_def ys_def min_def)
  qed
  moreover have "nat (?p + ?b) = Suc n + nat ?p" using pos(1,2) n by linarith
  then have "drop (nat ?e) (bi_slice it) = drop (Suc n) ys"
    by (auto simp: ys_def min_def)
  moreover have "?e < ?l \<longleftrightarrow> drop (Suc n) ys \<noteq> []"
    using pos(2) n more by (auto simp: ys_def min_def)
  moreover have "bi_ok (it\<lparr>bi_position := ?e\<rparr>)" using ok pos more by (auto simp: bi_ok_def)
  moreover have "ys \<noteq> []" using more pos(2) by (simp add: ys_def)
  ultimately show ?thesis using more
    by (intro exI [of _ ?e]) (auto simp: getNextBatch_def Let_def min_def split: if_splits)
qed

lemma getNextBatch_end:
  "bi_position it \<ge> int (length (bi_slice it)) \<Longrightarrow> getNextBatch it = Some (([], False), it)"
  by (simp add: getNextBatch_def)

lemma bi_mapped_end: "bi_ok it \<Longrightarrow> bi_mapped it = [] \<longleftrightarrow> bi_position it \<ge> int (length (bi_slice it))"
proof -
  have "batches n xs = [] \<longleftrightarrow> xs = []" for n and xs :: "'a list" by (cases xs) auto
  then show "bi_ok it \<Longrightarrow> ?thesis" by (auto simp: bi_mapped_def bi_ok_def)
qed

text \<open>The next accepted batch and what follows it.\<close>

definition bi_rest :: "'a batch_iterator \<Rightarrow> 'a list list" where
  "bi_rest it = dropWhile (\<lambda>b. \<not> bi_accepts it b) (bi_mapped it)"

text \<open>What one call of \<open>Next\<close> does, in terms of the batches still to come.\<close>

definition bi_next_post :: "'a batch_iterator \<Rightarrow> 'a list \<Rightarrow> bool \<Rightarrow> 'a batch_iterator \<Rightarrow> bool" where
  "bi_next_post it batch hasMore it' \<longleftrightarrow> bi_ok it' \<and> bi_slice it' = bi_slice it
     \<and> bi_mapper it' = bi_mapper it \<and> bi_filter it' = bi_filter it
     \<and> (if bi_taker it = 0 then batch = [] \<and> \<not> hasMore
        else case bi_rest it of
            [] \<Rightarrow> batch = [] \<and> \<not> hasMore
          | b # bs \<Rightarrow> batch = b \<and> (hasMore \<longleftrightarrow> bs \<noteq> [] \<and> bi_taker it \<noteq> 1) \<and> bi_mapped it' = bs
              \<and> bi_taker it' = (if bi_taker it > 0 then bi_taker it - 1 else bi_taker it))"

lemma bi_Next_post:
  "bi_ok it \<Longrightarrow> length (bi_mapped it) < fuel
    \<Longrightarrow> \<exists>batch hasMore it'. bi_Next fuel it = Some ((batch, hasMore), it') \<and> bi_next_post it batch hasMore it'"
proof (induction fuel arbitrary: it)
  case 0
  then show ?case by simp
next
  case (Suc fuel)
  show ?case
  proof (cases "bi_taker it = 0 \<or> bi_position it \<ge> int (length (bi_slice it))")
    case True
    with Suc.prems(1) bi_mapped_end [OF Suc.prems(1)] show ?thesis
      by (auto simp: bi_next_post_def bi_rest_def getNextBatch_end)
  next
    case False
    let ?n = "nat (bi_batchSize it) - 1" and ?ys = "drop (nat (bi_position it)) (bi_slice it)"
    obtain e where e: "getNextBatch it = Some ((take (Suc ?n) ?ys, drop (Suc ?n) ?ys \<noteq> []), it\<lparr>bi_position := e\<rparr>)"
      "bi_ok (it\<lparr>bi_position := e\<rparr>)" "drop (nat e) (bi_slice it) = drop (Suc ?n) ?ys" "?ys \<noteq> []"
      using getNextBatch_more [OF Suc.prems(1)] False by auto
    let ?it = "it\<lparr>bi_position := e\<rparr>"
    let ?b = "(case bi_mapper it of None \<Rightarrow> \<lambda>b. b | Some f \<Rightarrow> f) (take (Suc ?n) ?ys)"
    have ms: "bi_mapped it = ?b # bi_mapped ?it"
      using e(3,4) by (simp add: bi_mapped_def batches_unfold)
    have more: "bi_mapped ?it \<noteq> [] \<longleftrightarrow> drop (Suc ?n) ?ys \<noteq> []"
      using e(3) by (cases "drop (Suc ?n) ?ys") (auto simp: bi_mapped_def)
    have acc: "bi_accepts ?it = bi_accepts it" by (simp add: bi_accepts_def fun_eq_iff)
    have ne: "take (Suc ?n) ?ys \<noteq> []" using e(4) by simp
    show ?thesis
    proof (cases "bi_accepts it ?b")
      case True
      then show ?thesis
        using False e(1,2) ne more ms
        by (auto simp: bi_next_post_def bi_rest_def bi_accepts_def bi_ok_def bi_mapped_def Let_def
            split: option.splits)
    next
      case rej: False
      from Suc.prems(2) ms have "length (bi_mapped ?it) < fuel" by simp
      have rest: "bi_rest it = bi_rest ?it" using rej by (simp add: bi_rest_def ms acc)
      from Suc.IH [OF e(2) \<open>length (bi_mapped ?it) < fuel\<close>] obtain batch hasMore it' where
        n: "bi_Next fuel ?it = Some ((batch, hasMore), it')" "bi_next_post ?it batch hasMore it'" by blast
      have "bi_Next (Suc fuel) it = bi_Next fuel ?it"
        using False e(1) ne rej by (auto simp: bi_accepts_def Let_def split: option.splits)
      moreover have "bi_next_post it batch hasMore it'"
        using n(2) unfolding bi_next_post_def rest by (cases "bi_rest ?it") (simp_all split: if_splits)
      ultimately show ?thesis using n(1) by auto
    qed
  qed
qed

lemma dropWhile_filter:
  "filter P xs = (case dropWhile (\<lambda>x. \<not> P x) xs of [] \<Rightarrow> [] | y # ys \<Rightarrow> y # filter P ys)"
  by (induction xs) auto

lemma dropWhile_last:
  "dropWhile (\<lambda>x. \<not> P x) xs = y # ys \<Longrightarrow> P y \<and> last xs = last (y # ys) \<and> length ys < length xs"
  by (induction xs) (auto split: if_splits)

text \<open>One step of a consumer: the batch handed out is the first the iterator yields, and what is left
  yields the rest.\<close>

lemma bi_yield_step:
  assumes "bi_next_post it batch hasMore it'"
  shows "bi_yield it = [] \<and> batch = [] \<and> \<not> hasMore \<and> bi_trailing it
    \<or> (\<exists>bs. bi_yield it = batch # bs \<and> (hasMore \<longrightarrow> bs = bi_yield it' \<and> bi_trailing it' = bi_trailing it
          \<and> length (bi_mapped it') < length (bi_mapped it))
        \<and> (\<not> hasMore \<longrightarrow> bs = [] \<and> \<not> bi_trailing it))"
proof -
  let ?P = "bi_accepts it" and ?ms = "bi_mapped it"
  note post = assms [unfolded bi_next_post_def]
  have acc: "bi_accepts it' = ?P" using post by (auto simp: bi_accepts_def fun_eq_iff)
  show ?thesis
  proof (cases "bi_taker it = 0")
    case True
    with post show ?thesis by (simp add: bi_yield_def bi_limit_def bi_trailing_def)
  next
    case t0: False
    show ?thesis
    proof (cases "bi_rest it")
      case Nil
      then have "\<forall>b \<in> set ?ms. \<not> ?P b" by (simp add: bi_rest_def dropWhile_eq_Nil_conv)
      moreover from this have f: "filter ?P ?ms = []" by simp
      ultimately have "bi_trailing it" using t0 by (auto simp: bi_trailing_def)
      with Nil f t0 post show ?thesis by (auto simp: bi_yield_def bi_limit_def)
    next
      case (Cons b bs)
      have f: "filter ?P ?ms = b # filter ?P bs" using dropWhile_filter [of ?P ?ms] Cons by (simp add: bi_rest_def)
      from dropWhile_last [OF Cons [unfolded bi_rest_def]] have l: "?P b" "last ?ms = last (b # bs)" "length bs < length ?ms"
        "?ms \<noteq> []" by auto
      from post Cons t0 have p: "batch = b" "hasMore \<longleftrightarrow> bs \<noteq> [] \<and> bi_taker it \<noteq> 1" "bi_mapped it' = bs"
        "bi_taker it' = (if bi_taker it > 0 then bi_taker it - 1 else bi_taker it)" by auto
      have y: "bi_yield it = b # bi_limit it' (filter ?P bs)"
        using t0 p(4) by (cases "nat (bi_taker it)")
          (auto simp: bi_yield_def bi_limit_def f nat_diff_distrib' split: if_splits)
      show ?thesis
      proof (cases hasMore)
        case True
        then have "bi_trailing it' = bi_trailing it"
          using p t0 l f by (auto simp: bi_trailing_def acc)
        with True y p l(3) acc show ?thesis by (simp add: bi_yield_def)
      next
        case False
        then have "bi_limit it' (filter ?P bs) = []" "\<not> bi_trailing it"
          using p t0 l f by (auto simp: bi_limit_def bi_trailing_def)
        with False y p(1) show ?thesis by simp
      qed
    qed
  qed
qed

lemma bi_mapped_length:
  assumes "bi_ok it"
  shows "length (bi_mapped it) < bi_fuel it"
proof -
  have "length (batches n xs) \<le> length xs" for n and xs :: "'a list"
    by (induction n xs rule: batches.induct) auto
  from this [of "nat (bi_batchSize it) - 1" "drop (nat (bi_position it)) (bi_slice it)"]
  show ?thesis by (simp add: bi_mapped_def)
qed

lemma bi_step:
  assumes "bi_ok it"
  obtains batch hasMore it' where "bi_Next (bi_fuel it) it = Some ((batch, hasMore), it')" and "bi_ok it'"
    and "bi_yield it = [] \<and> batch = [] \<and> \<not> hasMore \<and> bi_trailing it
    \<or> (\<exists>bs. bi_yield it = batch # bs \<and> (hasMore \<longrightarrow> bs = bi_yield it' \<and> bi_trailing it' = bi_trailing it
          \<and> length (bi_mapped it') < length (bi_mapped it))
        \<and> (\<not> hasMore \<longrightarrow> bs = [] \<and> \<not> bi_trailing it))"
proof -
  from bi_Next_post [OF assms bi_mapped_length [OF assms]] obtain batch hasMore it' where
    n: "bi_Next (bi_fuel it) it = Some ((batch, hasMore), it')" "bi_next_post it batch hasMore it'" by blast
  from n(2) have "bi_ok it'" by (simp add: bi_next_post_def)
  with n that bi_yield_step [OF n(2)] show thesis by blast
qed

lemma bi_collect_exact:
  "bi_ok it \<Longrightarrow> length (bi_mapped it) < fuel
    \<Longrightarrow> \<exists>it'. bi_collect_loop fuel it res = Some (res @ filter (\<lambda>b. b \<noteq> []) (bi_yield it), it')"
proof (induction fuel arbitrary: it res)
  case 0
  then show ?case by simp
next
  case (Suc fuel)
  obtain batch hasMore it' where s: "bi_Next (bi_fuel it) it = Some ((batch, hasMore), it')" "bi_ok it'"
    and y: "bi_yield it = [] \<and> batch = [] \<and> \<not> hasMore \<and> bi_trailing it
    \<or> (\<exists>bs. bi_yield it = batch # bs \<and> (hasMore \<longrightarrow> bs = bi_yield it' \<and> bi_trailing it' = bi_trailing it
          \<and> length (bi_mapped it') < length (bi_mapped it))
        \<and> (\<not> hasMore \<longrightarrow> bs = [] \<and> \<not> bi_trailing it))"
    using bi_step [OF Suc.prems(1)] by blast
  show ?case
  proof (cases hasMore)
    case True
    with y Suc.prems(2) have "length (bi_mapped it') < fuel" "bi_yield it = batch # bi_yield it'" by auto
    with Suc.IH [OF s(2), of "if batch \<noteq> [] then res @ [batch] else res"] True s(1)
    show ?thesis by (auto simp: Let_def)
  next
    case False
    with y s(1) show ?thesis by (auto simp: Let_def)
  qed
qed

text \<open>Calls made one after the other until one fails.\<close>

fun until_error :: "('a \<Rightarrow> 'e option) \<Rightarrow> 'a list \<Rightarrow> 'a list \<times> 'e option" where
  "until_error f [] = ([], None)"
| "until_error f (x # xs) =
     (case f x of Some e \<Rightarrow> ([x], Some e)
      | None \<Rightarrow> (let (cs, r) = until_error f xs in (x # cs, r)))"

definition bi_calls :: "'a batch_iterator \<Rightarrow> 'a list list" where
  "bi_calls it = bi_yield it @ (if bi_trailing it then [[]] else [])"

lemma bi_execute_exact:
  "bi_ok it \<Longrightarrow> length (bi_mapped it) < fuel
    \<Longrightarrow> bi_execute_loop fuel f it calls =
      Some (calls @ fst (until_error f (bi_calls it)), snd (until_error f (bi_calls it)))"
proof (induction fuel arbitrary: it calls)
  case 0
  then show ?case by simp
next
  case (Suc fuel)
  obtain batch hasMore it' where s: "bi_Next (bi_fuel it) it = Some ((batch, hasMore), it')" "bi_ok it'"
    and y: "bi_yield it = [] \<and> batch = [] \<and> \<not> hasMore \<and> bi_trailing it
    \<or> (\<exists>bs. bi_yield it = batch # bs \<and> (hasMore \<longrightarrow> bs = bi_yield it' \<and> bi_trailing it' = bi_trailing it
          \<and> length (bi_mapped it') < length (bi_mapped it))
        \<and> (\<not> hasMore \<longrightarrow> bs = [] \<and> \<not> bi_trailing it))"
    using bi_step [OF Suc.prems(1)] by blast
  show ?case
  proof (cases hasMore)
    case True
    with y Suc.prems(2) have l: "length (bi_mapped it') < fuel" and c: "bi_calls it = batch # bi_calls it'"
      by (auto simp: bi_calls_def)
    from Suc.IH [OF s(2) l] True s(1) show ?thesis
      by (auto simp: c Let_def split: option.splits prod.splits)
  next
    case False
    with y have "bi_calls it = [batch]" by (auto simp: bi_calls_def)
    with False s(1) show ?thesis by (auto simp: Let_def split: option.splits)
  qed
qed

lemma bi_execute_return_exact:
  "bi_ok it \<Longrightarrow> length (bi_mapped it) < fuel \<Longrightarrow> (\<And>b. isl (f b) \<longleftrightarrow> g b \<noteq> None)
    \<Longrightarrow> bi_execute_return_loop fuel f it results =
      Some (case snd (until_error g (bi_calls it)) of
          Some _ \<Rightarrow> Inl (projl (f (last (fst (until_error g (bi_calls it))))))
        | None \<Rightarrow> Inr (results @ map (\<lambda>b. projr (f b)) (bi_calls it)))"
proof (induction fuel arbitrary: it results)
  case 0
  then show ?case by simp
next
  case (Suc fuel)
  obtain batch hasMore it' where s: "bi_Next (bi_fuel it) it = Some ((batch, hasMore), it')" "bi_ok it'"
    and y: "bi_yield it = [] \<and> batch = [] \<and> \<not> hasMore \<and> bi_trailing it
    \<or> (\<exists>bs. bi_yield it = batch # bs \<and> (hasMore \<longrightarrow> bs = bi_yield it' \<and> bi_trailing it' = bi_trailing it
          \<and> length (bi_mapped it') < length (bi_mapped it))
        \<and> (\<not> hasMore \<longrightarrow> bs = [] \<and> \<not> bi_trailing it))"
    using bi_step [OF Suc.prems(1)] by blast
  have fst_ne: "snd (until_error g bs) \<noteq> None \<Longrightarrow> fst (until_error g bs) \<noteq> []" for bs
    by (cases bs) (auto split: option.splits prod.splits)
  have fg: "(\<exists>e. f batch = Inl e) \<longleftrightarrow> g batch \<noteq> None" using Suc.prems(3) [of batch] by (cases "f batch") auto
  show ?case
  proof (cases hasMore)
    case True
    with y Suc.prems(2) have l: "length (bi_mapped it') < fuel" and c: "bi_calls it = batch # bi_calls it'"
      by (auto simp: bi_calls_def)
    from Suc.IH [OF s(2) l Suc.prems(3)] True s(1) fg fst_ne [of "bi_calls it'"] show ?thesis
      by (cases "f batch") (auto simp: c Let_def split: option.splits prod.splits)
  next
    case False
    with y have "bi_calls it = [batch]" by (auto simp: bi_calls_def)
    with False s(1) fg show ?thesis by (cases "f batch") (auto simp: Let_def split: option.splits)
  qed
qed

lemma bi_ok_new: "length xs < 2 ^ 62 \<Longrightarrow> n < 2 ^ 62 \<Longrightarrow> bi_ok (NewBatchIterator xs n)"
  by (simp add: NewBatchIterator_def bi_ok_def)

section \<open>Properties\<close>



text \<open>\<open>Batch\<close> calls the function on the batches of the slice in order, stops at the first error and
  returns it; but on an empty slice, or with a batch size that is not positive, it calls the function
  once, on an empty batch.\<close>

theorem Batch_calls_in_order:
  assumes "length xs < 2 ^ 62" and "n < 2 ^ 62"
  shows "Batch xs n f = Some (until_error f
    (if xs = [] \<or> n \<le> 0 then [[]] else batches (nat n - 1) xs))"
proof -
  let ?it = "NewBatchIterator xs n"
  have ok: "bi_ok ?it" using assms by (rule bi_ok_new)
  have "bi_calls ?it = (if xs = [] \<or> n \<le> 0 then [[]] else batches (nat n - 1) xs)"
    by (cases xs) (auto simp: bi_calls_def bi_yield_def bi_limit_def bi_mapped_def bi_accepts_def
        bi_trailing_def NewBatchIterator_def)
  with bi_execute_exact [OF ok bi_mapped_length [OF ok], of f "[]"] show ?thesis
    by (simp add: Batch_def bi_Execute_def)
qed

theorem Batch_calls_in_order_witness:
  "Batch [1, 2, 3 :: nat] 2 (\<lambda>b. if 3 \<in> set b then Some ''bad'' else None) = Some ([[1, 2], [3]], Some ''bad'')"
  using Batch_calls_in_order [of "[1, 2, 3 :: nat]" 2 "\<lambda>b. if 3 \<in> set b then Some ''bad'' else None"] by simp

end
