(* ===== verification/Retriers.thy ===== *)
theory Retriers
  imports Prelude
begin

text \<open>
  \<open>collections/retrier.go\<close>: retrying a failing action with a back-off between the attempts.

  The action is a function from the number of the retry to its error, \<open>None\<close> being nil; what wakes each
  sleep, the timer or the context with its error, is an argument too. The loop of \<open>RunFn\<close> ends only
  when an attempt succeeds, the back-off is zero or the context ends, so it has fuel.
\<close>

record 'e retrier =
  re_CurrentRetryCount :: int
  re_TotalRetryCount :: int
  re_TotalSleepDuration :: duration
  re_backoffFunc :: "int \<Rightarrow> duration"
  re_surfaceWorkErrors :: bool
  re_isSuccessful :: "'e option \<Rightarrow> bool"

definition NewRetrier :: "(int \<Rightarrow> duration) \<Rightarrow> ('e option \<Rightarrow> bool) option \<Rightarrow> 'e retrier" where
  "NewRetrier backoffFunc isSuccessful =
     \<lparr>re_CurrentRetryCount = 0, re_TotalRetryCount = 0, re_TotalSleepDuration = 0,
      re_backoffFunc = backoffFunc, re_surfaceWorkErrors = False,
      re_isSuccessful = (case isSuccessful of None \<Rightarrow> (\<lambda>err. err = None) | Some f \<Rightarrow> f)\<rparr>"

definition re_WithSurfaceWorkErrors :: "'e retrier \<Rightarrow> 'e retrier" where
  "re_WithSurfaceWorkErrors r = r\<lparr>re_surfaceWorkErrors := True\<rparr>"

text \<open>What the \<open>select\<close> of a sleep receives: the timer's tick, or the end of the context, whose error is
  read then.\<close>

datatype 'e wakeup = TimerFired | CtxDone 'e

fun re_sleep :: "'e wakeup \<Rightarrow> 'e option" where
  "re_sleep TimerFired = None"
| "re_sleep (CtxDone err) = Some err"

fun re_loop :: "nat \<Rightarrow> 'e retrier \<Rightarrow> (int \<Rightarrow> 'e wakeup) \<Rightarrow> (int \<Rightarrow> 'e option)
    \<Rightarrow> ('e option \<times> 'e retrier) option" where
  "re_loop 0 r wake work = None"
| "re_loop (Suc fuel) r wake work =
     (let ret = work (re_CurrentRetryCount r);
          r = r\<lparr>re_TotalRetryCount := wrap64 (re_TotalRetryCount r + 1)\<rparr>
      in if re_isSuccessful r ret then Some (ret, r)
         else let sleepDuration = re_backoffFunc r (re_CurrentRetryCount r)
              in if sleepDuration = 0 then Some (ret, r)
                 else case re_sleep (wake (re_CurrentRetryCount r)) of
                     Some err \<Rightarrow> if re_surfaceWorkErrors r then Some (ret, r) else Some (Some err, r)
                   | None \<Rightarrow>
                       re_loop fuel
                         (r\<lparr>re_TotalSleepDuration := wrap64 (re_TotalSleepDuration r + sleepDuration),
                            re_CurrentRetryCount := wrap64 (re_CurrentRetryCount r + 1)\<rparr>)
                         wake work)"

definition re_RunFn :: "nat \<Rightarrow> 'e retrier \<Rightarrow> (int \<Rightarrow> 'e wakeup) \<Rightarrow> (int \<Rightarrow> 'e option)
    \<Rightarrow> ('e option \<times> 'e retrier) option" where
  "re_RunFn fuel r wake work =
     re_loop fuel (r\<lparr>re_CurrentRetryCount := 0, re_TotalRetryCount := 0, re_TotalSleepDuration := 0\<rparr>)
       wake work"

text \<open>\<open>Run\<close> does not pass the number of the retry on; \<open>work i\<close> is the outcome of the call number \<open>i\<close>
  of the action.\<close>

definition re_Run :: "nat \<Rightarrow> 'e retrier \<Rightarrow> (int \<Rightarrow> 'e wakeup) \<Rightarrow> (int \<Rightarrow> 'e option)
    \<Rightarrow> ('e option \<times> 'e retrier) option" where
  "re_Run fuel r wake work = re_RunFn fuel r wake (\<lambda>retries. work retries)"

section \<open>Which attempt is the last\<close>

text \<open>Attempt \<open>i\<close> ends the run.\<close>

definition re_ends :: "'e retrier \<Rightarrow> (int \<Rightarrow> 'e wakeup) \<Rightarrow> (int \<Rightarrow> 'e option) \<Rightarrow> nat \<Rightarrow> bool" where
  "re_ends r wake work i \<longleftrightarrow> re_isSuccessful r (work (int i)) \<or> re_backoffFunc r (int i) = 0
     \<or> re_sleep (wake (int i)) \<noteq> None"

definition re_answer :: "'e retrier \<Rightarrow> (int \<Rightarrow> 'e wakeup) \<Rightarrow> (int \<Rightarrow> 'e option) \<Rightarrow> nat \<Rightarrow> 'e option" where
  "re_answer r wake work i =
     (if re_isSuccessful r (work (int i)) \<or> re_backoffFunc r (int i) = 0 \<or> re_surfaceWorkErrors r
      then work (int i) else re_sleep (wake (int i)))"

lemma wrap64_add: "wrap64 (wrap64 x + y) = wrap64 (x + y)"
proof -
  have "wrap64 x + y + 2 ^ 63 = (x + 2 ^ 63) mod 2 ^ 64 + y" by (simp add: wrap64_def)
  moreover have "x + 2 ^ 63 + y = x + y + 2 ^ 63" by simp
  ultimately have "(wrap64 x + y + 2 ^ 63) mod 2 ^ 64 = (x + y + 2 ^ 63) mod 2 ^ 64"
    by (simp only: mod_add_left_eq)
  then show ?thesis by (simp only: wrap64_def [of "wrap64 x + y"] wrap64_def [of "x + y"])
qed

lemma re_counters [simp]:
  "re_ends (r\<lparr>re_CurrentRetryCount := a, re_TotalRetryCount := b, re_TotalSleepDuration := c\<rparr>) = re_ends r"
  "re_answer (r\<lparr>re_CurrentRetryCount := a, re_TotalRetryCount := b, re_TotalSleepDuration := c\<rparr>) = re_answer r"
  by (simp_all add: re_ends_def re_answer_def fun_eq_iff)

lemma re_loop_continue:
  assumes "\<not> re_ends r wake work i" and "re_CurrentRetryCount r = int i" and "i < 2 ^ 62"
  shows "re_loop (Suc fuel) r wake work = re_loop fuel
    (r\<lparr>re_CurrentRetryCount := int (Suc i), re_TotalRetryCount := wrap64 (re_TotalRetryCount r + 1),
      re_TotalSleepDuration := wrap64 (re_TotalSleepDuration r + re_backoffFunc r (int i))\<rparr>) wake work"
  using assms by (cases r) (auto simp: re_ends_def Let_def add.commute)

lemma re_loop_runs:
  assumes "re_ends r wake work (i + k)" and "\<And>j. j < k \<Longrightarrow> \<not> re_ends r wake work (i + j)"
    and "re_CurrentRetryCount r = int i" and "i + k < 2 ^ 62"
  shows "re_loop (Suc (k + fuel)) r wake work = Some (re_answer r wake work (i + k),
    r\<lparr>re_CurrentRetryCount := int (i + k), re_TotalRetryCount := wrap64 (re_TotalRetryCount r + int (Suc k)),
      re_TotalSleepDuration := (if k = 0 then re_TotalSleepDuration r
        else wrap64 (re_TotalSleepDuration r + (\<Sum>j<k. re_backoffFunc r (int (i + j)))))\<rparr>)"
  using assms
proof (induction k arbitrary: i r)
  case 0
  then show ?case
    by (cases "wake (int i)") (auto simp: re_ends_def re_answer_def Let_def)
next
  case (Suc k)
  have stop: "\<not> re_ends r wake work i" using Suc.prems(2) [of 0] by simp
  let ?r = "r\<lparr>re_CurrentRetryCount := int (Suc i), re_TotalRetryCount := wrap64 (re_TotalRetryCount r + 1),
      re_TotalSleepDuration := wrap64 (re_TotalSleepDuration r + re_backoffFunc r (int i))\<rparr>"
  have step: "re_loop (Suc (Suc k + fuel)) r wake work = re_loop (Suc k + fuel) ?r wake work"
    using Suc.prems(4) by (intro re_loop_continue [OF stop Suc.prems(3)]) simp
  have ends: "re_ends ?r wake work (Suc i + k)" "\<And>j. j < k \<Longrightarrow> \<not> re_ends ?r wake work (Suc i + j)"
    using Suc.prems(1) Suc.prems(2) [of "Suc _"] by (simp_all only: re_counters add_Suc add_Suc_right Suc_less_eq not_False_eq_True)
  have ih: "re_loop (Suc k + fuel) ?r wake work = Some (re_answer ?r wake work (Suc i + k),
    ?r\<lparr>re_CurrentRetryCount := int (Suc i + k), re_TotalRetryCount := wrap64 (re_TotalRetryCount ?r + int (Suc k)),
      re_TotalSleepDuration := (if k = 0 then re_TotalSleepDuration ?r
        else wrap64 (re_TotalSleepDuration ?r + (\<Sum>j<k. re_backoffFunc ?r (int (Suc i + j)))))\<rparr>)"
    unfolding add_Suc [of k fuel] using Suc.prems(4) by (intro Suc.IH [OF ends]) simp_all
  have shift: "(\<Sum>j<Suc k. re_backoffFunc r (int (i + j)))
      = re_backoffFunc r (int i) + (\<Sum>j<k. re_backoffFunc r (int (Suc i + j)))"
    by (simp only: sum.lessThan_Suc_shift) simp
  have total: "wrap64 (wrap64 (re_TotalRetryCount r + 1) + int (Suc k)) = wrap64 (re_TotalRetryCount r + int (Suc (Suc k)))"
    by (simp add: wrap64_add add.assoc)
  show ?case
    unfolding step ih shift re_counters
    by (cases r) (simp add: wrap64_add add.assoc total [simplified])
qed

text \<open>C39: the run ends, at the first attempt that succeeds, has a zero back-off or loses its context,
  as soon as there is one, and not before: it has made that many attempts, waited for the back-offs
  before them, and returns the error of that attempt, or the context's error when the context ended
  during the wait and work errors are not to be surfaced.\<close>

theorem Retrier_stops_at_first_end:
  assumes "re_ends r wake work k" and "\<And>j. j < k \<Longrightarrow> \<not> re_ends r wake work j" and "k < 2 ^ 62"
    and "k < fuel"
  shows "re_RunFn fuel r wake work = Some (re_answer r wake work k,
    r\<lparr>re_CurrentRetryCount := int k, re_TotalRetryCount := int k + 1,
      re_TotalSleepDuration := wrap64 (\<Sum>j<k. re_backoffFunc r (int j))\<rparr>)"
proof -
  let ?r = "r\<lparr>re_CurrentRetryCount := 0, re_TotalRetryCount := 0, re_TotalSleepDuration := 0\<rparr>"
  obtain f where f: "fuel = Suc (k + f)" using assms(4) by (metis less_iff_Suc_add)
  from re_loop_runs [of ?r wake work 0 k f] assms(1-3) show ?thesis
    by (simp add: re_RunFn_def f)
qed

theorem Retrier_stops_at_first_end_witness:
  "re_RunFn 9 (NewRetrier (\<lambda>i. 10 * (i + 1)) None) (\<lambda>_. TimerFired) (\<lambda>i. if i < 2 then Some ''down'' else None)
   = Some (None, \<lparr>re_CurrentRetryCount = 2, re_TotalRetryCount = 3, re_TotalSleepDuration = 30,
       re_backoffFunc = \<lambda>i. 10 * (i + 1), re_surfaceWorkErrors = False, re_isSuccessful = \<lambda>err. err = None\<rparr>)"
proof -
  let ?r = "NewRetrier (\<lambda>i. 10 * (i + 1)) None :: string retrier"
  let ?w = "\<lambda>i :: int. if i < 2 then Some ''down'' else None"
  have "re_ends ?r (\<lambda>_. TimerFired) ?w 2" by (simp add: re_ends_def NewRetrier_def)
  moreover have "\<not> re_ends ?r (\<lambda>_. TimerFired) ?w j" if "j < 2" for j
    using that by (auto simp: re_ends_def NewRetrier_def)
  moreover have "(\<Sum>j<2. re_backoffFunc ?r (int j)) = 30" by (simp add: NewRetrier_def numeral_2_eq_2)
  moreover have "re_answer ?r (\<lambda>_. TimerFired) ?w 2 = None" by (simp add: re_answer_def NewRetrier_def)
  ultimately show ?thesis
    using Retrier_stops_at_first_end [of ?r "\<lambda>_. TimerFired" ?w 2 9] by (simp add: NewRetrier_def)
qed

end
