(* ===== verification/Errors.thy ===== *)
theory Errors
  imports Prelude
begin

text \<open>
  Package errors: structured error codes (\<open>error_code.go\<close>), the error type with its chain
  (\<open>error.go\<close>) and the errors declared with it (\<open>common_code.go\<close>, \<open>common_errors.go\<close>).

  An error value is an \<open>AppError\<close>, this package's \<open>*Error\<close>, or a \<open>Foreign\<close> one, known by its
  identity and its text, which may wrap another error and has no \<open>Is\<close> method of its own; nil is
  \<open>None\<close>. \<open>errors_Is\<close> is the standard library's walk along \<open>Unwrap\<close>. Formatted messages are
  arguments.
\<close>

section \<open>Error codes\<close>

record error_code =
  ec_status :: int
  ec_module :: int
  ec_detailCode :: int

definition ec_Code :: "error_code \<Rightarrow> int" where
  "ec_Code errCode = wrap64 (ec_status errCode * 10000 + ec_module errCode * 100 + ec_detailCode errCode)"

definition ec_Status :: "error_code \<Rightarrow> int" where
  "ec_Status errCode = ec_status errCode"

definition ec_Module :: "error_code \<Rightarrow> int" where
  "ec_Module errCode = ec_module errCode"

definition ec_DetailCode :: "error_code \<Rightarrow> int" where
  "ec_DetailCode errCode = ec_detailCode errCode"

definition NewErrorCode :: "int \<Rightarrow> error_code" where
  "NewErrorCode code =
     (if code < 1000 then \<lparr>ec_status = code, ec_module = 0, ec_detailCode = 0\<rparr>
      else \<lparr>ec_status = go_div code 10000, ec_module = go_mod (go_div code 100) 100,
            ec_detailCode = go_mod code 100\<rparr>)"

definition GetCode :: "int \<Rightarrow> int \<Rightarrow> int \<Rightarrow> int" where
  "GetCode status modul detailCode = wrap64 (status * 10000 + modul * 100 + detailCode)"

section \<open>Errors\<close>

datatype ('x, 'm) err =
    AppError (err_Message: string) (err_OriginalError: "('x, 'm) err option") (err_Code: error_code)
      (err_Metadata: "string \<rightharpoonup> 'm")
  | Foreign 'x string "('x, 'm) err option"

text \<open>The table of \<open>http.StatusText\<close>; a code it does not know has the empty text.\<close>

definition status_texts :: "(int \<times> string) list" where
  "status_texts =
    [(100, ''Continue''), (101, ''Switching Protocols''), (102, ''Processing''), (103, ''Early Hints''),
     (200, ''OK''), (201, ''Created''), (202, ''Accepted''), (203, ''Non-Authoritative Information''),
     (204, ''No Content''), (205, ''Reset Content''), (206, ''Partial Content''), (207, ''Multi-Status''),
     (208, ''Already Reported''), (226, ''IM Used''), (300, ''Multiple Choices''),
     (301, ''Moved Permanently''), (302, ''Found''), (303, ''See Other''), (304, ''Not Modified''),
     (305, ''Use Proxy''), (307, ''Temporary Redirect''), (308, ''Permanent Redirect''),
     (400, ''Bad Request''), (401, ''Unauthorized''), (402, ''Payment Required''), (403, ''Forbidden''),
     (404, ''Not Found''), (405, ''Method Not Allowed''), (406, ''Not Acceptable''),
     (407, ''Proxy Authentication Required''), (408, ''Request Timeout''), (409, ''Conflict''),
     (410, ''Gone''), (411, ''Length Required''), (412, ''Precondition Failed''),
     (413, ''Request Entity Too Large''), (414, ''Request URI Too Long''),
     (415, ''Unsupported Media Type''), (416, ''Requested Range Not Satisfiable''),
     (417, ''Expectation Failed''), (418, ''I'' @ [CHR 0x27] @ ''m a teapot''),
     (421, ''Misdirected Request''), (422, ''Unprocessable Entity''), (423, ''Locked''),
     (424, ''Failed Dependency''), (425, ''Too Early''), (426, ''Upgrade Required''),
     (428, ''Precondition Required''), (429, ''Too Many Requests''),
     (431, ''Request Header Fields Too Large''), (451, ''Unavailable For Legal Reasons''),
     (500, ''Internal Server Error''), (501, ''Not Implemented''), (502, ''Bad Gateway''),
     (503, ''Service Unavailable''), (504, ''Gateway Timeout''), (505, ''HTTP Version Not Supported''),
     (506, ''Variant Also Negotiates''), (507, ''Insufficient Storage''), (508, ''Loop Detected''),
     (510, ''Not Extended''), (511, ''Network Authentication Required'')]"

definition StatusText :: "int \<Rightarrow> string" where
  "StatusText code = (case map_of status_texts code of None \<Rightarrow> [] | Some s \<Rightarrow> s)"

fun err_Error :: "('x, 'm) err \<Rightarrow> string" where
  "err_Error (AppError message original code metadata) =
     (case original of Some e \<Rightarrow> err_Error e | None \<Rightarrow> message)"
| "err_Error (Foreign x descr wrapped) = descr"

text \<open>The method \<open>Wrap\<close>; it is only called on this package's errors.\<close>

definition err_WrapMethod :: "('x, 'm) err \<Rightarrow> ('x, 'm) err option \<Rightarrow> ('x, 'm) err" where
  "err_WrapMethod e err =
     (case err of None \<Rightarrow> e
      | Some _ \<Rightarrow> AppError (err_Message e) err (err_Code e) (err_Metadata e))"

fun err_Unwrap :: "('x, 'm) err \<Rightarrow> ('x, 'm) err option" where
  "err_Unwrap (AppError message original code metadata) = original"
| "err_Unwrap (Foreign x descr wrapped) = wrapped"

definition err_Is :: "error_code \<Rightarrow> ('x, 'm) err \<Rightarrow> bool" where
  "err_Is code target =
     (case target of AppError _ _ c _ \<Rightarrow> ec_Code code = ec_Code c | Foreign _ _ _ \<Rightarrow> False)"

definition err_New :: "error_code \<Rightarrow> string \<Rightarrow> ('x, 'm) err" where
  "err_New errCode msg =
     AppError (if msg = [] then StatusText (ec_Status errCode) else msg) None errCode Map.empty"

text \<open>\<open>Newf\<close> and \<open>Wrapf\<close> get the message already formatted.\<close>

definition err_Newf :: "error_code \<Rightarrow> string \<Rightarrow> ('x, 'm) err" where
  "err_Newf errCode formatted = AppError formatted None errCode Map.empty"

definition err_Wrap ::
  "('x, 'm) err option \<Rightarrow> error_code \<Rightarrow> string \<Rightarrow> ('x, 'm) err option" where
  "err_Wrap err errCode msg =
     (case err of None \<Rightarrow> None | Some _ \<Rightarrow> Some (AppError msg err errCode Map.empty))"

definition err_Wrapf ::
  "('x, 'm) err option \<Rightarrow> error_code \<Rightarrow> string \<Rightarrow> ('x, 'm) err option" where
  "err_Wrapf err errCode formatted =
     (case err of None \<Rightarrow> None | Some _ \<Rightarrow> Some (AppError formatted err errCode Map.empty))"

text \<open>The standard library's \<open>errors.Is\<close> on two errors that are not nil: identity, the method \<open>Is\<close>,
  then the wrapped error. Two equal \<open>*Error\<close> pointers have the same code, so the method covers
  identity.\<close>

fun errors_Is :: "('x, 'm) err \<Rightarrow> ('x, 'm) err \<Rightarrow> bool" where
  "errors_Is (AppError message original code metadata) target =
     (err_Is code target \<or> (case original of None \<Rightarrow> False | Some e \<Rightarrow> errors_Is e target))"
| "errors_Is (Foreign x descr wrapped) target =
     ((case target of Foreign y _ _ \<Rightarrow> x = y | AppError _ _ _ _ \<Rightarrow> False)
      \<or> (case wrapped of None \<Rightarrow> False | Some e \<Rightarrow> errors_Is e target))"

section \<open>The declared codes and errors\<close>

definition common_codes :: "(string \<times> error_code) list" where
  "common_codes =
    [(''InvalidRequest'', NewErrorCode (GetCode 400 0 1)),
     (''Unauthorized'', NewErrorCode (GetCode 401 0 1)),
     (''InternalServer'', NewErrorCode (GetCode 500 0 1)),
     (''NoResponse'', NewErrorCode (GetCode 500 0 2)),
     (''NotFound'', NewErrorCode (GetCode 404 0 1)),
     (''MissingAuthHeader'', NewErrorCode (GetCode 401 1 1)),
     (''InvalidAuthFormat'', NewErrorCode (GetCode 401 1 2)),
     (''InvalidToken'', NewErrorCode (GetCode 401 1 3)),
     (''TokenExpired'', NewErrorCode (GetCode 401 1 4)),
     (''InsufficientPermissions'', NewErrorCode (GetCode 403 1 5)),
     (''AuthUnauthorized'', NewErrorCode (GetCode 401 1 6))]"

definition common_code :: "string \<Rightarrow> error_code" where
  "common_code name = the (map_of common_codes name)"

definition common_errors :: "('x, 'm) err list" where
  "common_errors =
    [err_New (common_code ''MissingAuthHeader'') ''missing authorization header'',
     err_New (common_code ''InvalidAuthFormat'') ''invalid authorization format'',
     err_New (common_code ''InvalidToken'') ''invalid token'',
     err_New (common_code ''TokenExpired'') ''token expired'',
     err_New (common_code ''InsufficientPermissions'') ''insufficient permissions'',
     err_New (common_code ''AuthUnauthorized'') ''unauthorized'',
     err_New (common_code ''InvalidRequest'') ''invalid request'',
     err_New (common_code ''InternalServer'') ''internal server error'',
     err_New (common_code ''NoResponse'') ''no response'',
     err_New (common_code ''NotFound'') ''not found'']"

section \<open>Codes round trip\<close>

lemma decimal_split:
  "code div 10000 * 10000 + code div 100 mod 100 * 100 + code mod 100 = (code :: int)"
proof -
  have "code div 10000 = code div 100 div 100" by (simp add: zdiv_zmult2_eq [symmetric])
  with div_mult_mod_eq [of code 100] div_mult_mod_eq [of "code div 100" 100] show ?thesis by linarith
qed

text \<open>C40: a code of at least four digits survives being split into its parts and put together again, a
  shorter one is taken for a bare status; and parts in range survive being put together and split
  again, the status being at least one: with status 0 the code is taken for a status.\<close>

theorem Error_code_round_trip:
  shows "(1000 \<le> code \<longrightarrow> code < 2 ^ 63 \<longrightarrow> ec_Code (NewErrorCode code) = code)
    \<and> (0 \<le> code \<longrightarrow> code < 1000 \<longrightarrow> ec_Code (NewErrorCode code) = code * 10000
        \<and> ec_Status (NewErrorCode code) = code)
    \<and> (1 \<le> status \<longrightarrow> status < 10 ^ 12 \<longrightarrow> 0 \<le> modul \<longrightarrow> modul < 100 \<longrightarrow> 0 \<le> detail \<longrightarrow> detail < 100
      \<longrightarrow> ec_Status (NewErrorCode (GetCode status modul detail)) = status
        \<and> ec_Module (NewErrorCode (GetCode status modul detail)) = modul
        \<and> ec_DetailCode (NewErrorCode (GetCode status modul detail)) = detail)"
proof (intro conjI impI)
  assume "1000 \<le> code" "code < 2 ^ 63"
  then show "ec_Code (NewErrorCode code) = code" by (simp add: ec_Code_def NewErrorCode_def decimal_split)
next
  assume "0 \<le> code" "code < 1000"
  then show "ec_Code (NewErrorCode code) = code * 10000" "ec_Status (NewErrorCode code) = code"
    by (simp_all add: ec_Code_def ec_Status_def NewErrorCode_def)
next
  assume a: "1 \<le> status" "status < 10 ^ 12" "0 \<le> modul" "modul < 100" "0 \<le> detail" "detail < 100"
  let ?c = "status * 10000 + modul * 100 + detail"
  have c: "GetCode status modul detail = ?c" using a by (simp add: GetCode_def)
  have e: "?c = detail + (status * 100 + modul) * 100" by simp
  have d: "?c div 100 = status * 100 + modul" "?c mod 100 = detail"
    unfolding e div_mult_self1 mod_mult_self1 using a by simp_all
  have "?c div 10000 = ?c div 100 div 100" by (simp only: zdiv_zmult2_eq [symmetric]) simp
  then have d': "?c div 10000 = status" unfolding d(1) using a by simp
  have "1000 \<le> ?c" using a by linarith
  then have n: "NewErrorCode ?c = \<lparr>ec_status = status, ec_module = modul, ec_detailCode = detail\<rparr>"
    using a d d' by (simp add: NewErrorCode_def)
  show "ec_Status (NewErrorCode (GetCode status modul detail)) = status"
    "ec_Module (NewErrorCode (GetCode status modul detail)) = modul"
    "ec_DetailCode (NewErrorCode (GetCode status modul detail)) = detail"
    by (simp_all add: c n ec_Status_def ec_Module_def ec_DetailCode_def)
qed

theorem Error_code_round_trip_witness:
  "ec_Code (NewErrorCode 4040205) = 4040205 \<and> ec_Module (NewErrorCode (GetCode 404 2 5)) = 2"
  using Error_code_round_trip [of 4040205 404 2 5] by simp

section \<open>Chains\<close>

text \<open>The errors \<open>Unwrap\<close> leads to.\<close>

fun err_chain :: "('x, 'm) err \<Rightarrow> ('x, 'm) err list" where
  "err_chain (AppError message original code metadata) =
     AppError message original code metadata # (case original of None \<Rightarrow> [] | Some e \<Rightarrow> err_chain e)"
| "err_chain (Foreign x descr wrapped) =
     Foreign x descr wrapped # (case wrapped of None \<Rightarrow> [] | Some e \<Rightarrow> err_chain e)"

definition err_same :: "('x, 'm) err \<Rightarrow> ('x, 'm) err \<Rightarrow> bool" where
  "err_same e t = (case (e, t) of
      (AppError _ _ c _, AppError _ _ d _) \<Rightarrow> ec_Code c = ec_Code d
    | (Foreign x _ _, Foreign y _ _) \<Rightarrow> x = y
    | _ \<Rightarrow> False)"

lemma errors_Is_chain: "errors_Is e t \<longleftrightarrow> (\<exists>x \<in> set (err_chain e). err_same x t)"
proof (induction e t rule: errors_Is.induct)
  case (1 message original code metadata target)
  then show ?case by (cases original, auto split: err.splits simp: err_same_def err_Is_def)
next
  case (2 x descr wrapped target)
  then show ?case by (cases wrapped, auto split: err.splits simp: err_same_def)
qed

text \<open>\<open>errors.Is\<close> finds a target through any number of wrappings: it holds exactly when some error
  of the chain of \<open>Unwrap\<close> is the same foreign error or has the same code; so wrapping, by the
  function or the method, keeps what was found before and adds the new code, nil stays nil, and the
  message of a wrapped error is that of the error inside.\<close>

theorem Errors_Is_through_wrapping:
  fixes e t :: "('x, 'm) err"
  shows "(errors_Is e t = (\<exists>x \<in> set (err_chain e). err_same x t))
    \<and> (\<exists>w. err_Wrap (Some e) code msg = Some w \<and> err_Unwrap w = Some e \<and> err_Error w = err_Error e
        \<and> (errors_Is w t = (err_Is code t \<or> errors_Is e t)))
    \<and> err_Wrap (None :: ('x, 'm) err option) code msg = None
    \<and> (errors_Is (err_WrapMethod (err_New code msg) (Some e)) t = (err_Is code t \<or> errors_Is e t))"
proof (intro conjI)
  show "errors_Is e t = (\<exists>x \<in> set (err_chain e). err_same x t)" by (rule errors_Is_chain)
  show "\<exists>w. err_Wrap (Some e) code msg = Some w \<and> err_Unwrap w = Some e \<and> err_Error w = err_Error e
      \<and> (errors_Is w t = (err_Is code t \<or> errors_Is e t))"
    by (simp add: err_Wrap_def)
  show "err_Wrap (None :: ('x, 'm) err option) code msg = None" by (simp add: err_Wrap_def)
  show "errors_Is (err_WrapMethod (err_New code msg) (Some e)) t = (err_Is code t \<or> errors_Is e t)"
    by (simp add: err_WrapMethod_def err_New_def)
qed

text \<open>The declared errors are pairwise different: none of them is taken for another by
  \<open>errors.Is\<close>.\<close>

theorem Common_errors_distinct:
  "length (common_errors :: ('x, 'm) err list) = 10
   \<and> (\<forall>i < 10. \<forall>j < 10. errors_Is ((common_errors :: ('x, 'm) err list) ! i) (common_errors ! j) = (i = j))"
proof -
  have codes: "map (\<lambda>e :: ('x, 'm) err. ec_Code (err_Code e)) common_errors =
      [4010101, 4010102, 4010103, 4010104, 4030105, 4010106, 4000001, 5000001, 5000002, 4040001]"
    by (simp add: common_errors_def err_New_def common_code_def common_codes_def GetCode_def
        NewErrorCode_def ec_Code_def)
  have app: "\<forall>e \<in> set (common_errors :: ('x, 'm) err list). \<exists>m c. e = AppError m None c Map.empty"
    by (simp add: common_errors_def err_New_def)
  have len: "length (common_errors :: ('x, 'm) err list) = 10" by (simp add: common_errors_def)
  have "errors_Is ((common_errors :: ('x, 'm) err list) ! i) (common_errors ! j) = (i = j)"
    if i: "i < 10" and j: "j < 10" for i j
  proof -
    let ?es = "common_errors :: ('x, 'm) err list"
    obtain m c where c: "?es ! i = AppError m None c Map.empty" using app i len by (metis nth_mem)
    obtain m' d where d: "?es ! j = AppError m' None d Map.empty" using app j len by (metis nth_mem)
    have "ec_Code c = map (\<lambda>e. ec_Code (err_Code e)) ?es ! i" using c i len by simp
    moreover have "ec_Code d = map (\<lambda>e. ec_Code (err_Code e)) ?es ! j" using d j len by simp
    moreover have "distinct (map (\<lambda>e. ec_Code (err_Code e)) ?es)" by (simp add: codes)
    from nth_eq_iff_index_eq [OF this, of i j]
    have "(map (\<lambda>e. ec_Code (err_Code e)) ?es ! i = map (\<lambda>e. ec_Code (err_Code e)) ?es ! j) = (i = j)"
      using i j len by simp
    ultimately have "(ec_Code c = ec_Code d) = (i = j)" by (simp only:)
    then show ?thesis by (simp add: c d err_Is_def)
  qed
  with len show ?thesis by blast
qed

theorem Common_errors_distinct_witness:
  "\<not> errors_Is ((common_errors :: (nat, nat) err list) ! 2) (common_errors ! 9)"
  using Common_errors_distinct [where 'x = nat and 'm = nat] by simp

end
