(* ===== verification/RbTrees.thy ===== *)
theory RbTrees
  imports Interfaces
begin

text \<open>
  \<open>algo/red_black_tree.go\<close>: the red-black tree on nodes with parent pointers and a sentinel.

  The nodes live in a heap; address 0 is Go's nil, where no node is. The keys are linearly ordered:
  the NaN of the floating point types, which is not ordered, is excluded. The zero key and value of
  the sentinel are arguments of the constructor. The loops have fuel, the number of addresses ever
  given out; \<open>None\<close> is a panic. \<open>PrintTree\<close> is not modelled.
\<close>

section \<open>The code\<close>

datatype color = Red | Black

record ('k, 'v) rbt_node =
  rn_Key :: 'k
  rn_Value :: 'v
  rn_Color :: color
  rn_Left :: ptr
  rn_Right :: ptr
  rn_Parent :: ptr

record ('k, 'v) rbt_tree =
  rt_heap :: "ptr \<rightharpoonup> ('k, 'v) rbt_node"
  rt_fresh :: ptr
  rt_Root :: ptr
  rt_Nil :: ptr

definition NewRedBlackTree :: "'k \<Rightarrow> 'v \<Rightarrow> ('k, 'v) rbt_tree" where
  "NewRedBlackTree zeroKey zeroValue =
     \<lparr>rt_heap = [1 \<mapsto> \<lparr>rn_Key = zeroKey, rn_Value = zeroValue, rn_Color = Black,
                     rn_Left = 0, rn_Right = 0, rn_Parent = 0\<rparr>],
      rt_fresh = 2, rt_Root = 1, rt_Nil = 1\<rparr>"

text \<open>Reading and writing fields through a pointer.\<close>

definition rbt_set :: "('k, 'v) rbt_tree \<Rightarrow> ptr \<Rightarrow> (('k, 'v) rbt_node \<Rightarrow> ('k, 'v) rbt_node) \<Rightarrow> ('k, 'v) rbt_tree option" where
  "rbt_set t p f = do { n \<leftarrow> rt_heap t p; Some (t\<lparr>rt_heap := (rt_heap t)(p \<mapsto> f n)\<rparr>) }"

abbreviation rbt_color :: "('k, 'v) rbt_tree \<Rightarrow> ptr \<Rightarrow> color option" where
  "rbt_color t p \<equiv> map_option rn_Color (rt_heap t p)"

abbreviation rbt_left :: "('k, 'v) rbt_tree \<Rightarrow> ptr \<Rightarrow> ptr option" where
  "rbt_left t p \<equiv> map_option rn_Left (rt_heap t p)"

abbreviation rbt_right :: "('k, 'v) rbt_tree \<Rightarrow> ptr \<Rightarrow> ptr option" where
  "rbt_right t p \<equiv> map_option rn_Right (rt_heap t p)"

abbreviation rbt_parent :: "('k, 'v) rbt_tree \<Rightarrow> ptr \<Rightarrow> ptr option" where
  "rbt_parent t p \<equiv> map_option rn_Parent (rt_heap t p)"

abbreviation rbt_set_color :: "('k, 'v) rbt_tree \<Rightarrow> ptr \<Rightarrow> color \<Rightarrow> ('k, 'v) rbt_tree option" where
  "rbt_set_color t p c \<equiv> rbt_set t p (rn_Color_update (\<lambda>_. c))"

abbreviation rbt_set_left :: "('k, 'v) rbt_tree \<Rightarrow> ptr \<Rightarrow> ptr \<Rightarrow> ('k, 'v) rbt_tree option" where
  "rbt_set_left t p q \<equiv> rbt_set t p (rn_Left_update (\<lambda>_. q))"

abbreviation rbt_set_right :: "('k, 'v) rbt_tree \<Rightarrow> ptr \<Rightarrow> ptr \<Rightarrow> ('k, 'v) rbt_tree option" where
  "rbt_set_right t p q \<equiv> rbt_set t p (rn_Right_update (\<lambda>_. q))"

abbreviation rbt_set_parent :: "('k, 'v) rbt_tree \<Rightarrow> ptr \<Rightarrow> ptr \<Rightarrow> ('k, 'v) rbt_tree option" where
  "rbt_set_parent t p q \<equiv> rbt_set t p (rn_Parent_update (\<lambda>_. q))"

definition leftRotate :: "('k, 'v) rbt_tree \<Rightarrow> ptr \<Rightarrow> ('k, 'v) rbt_tree option" where
  "leftRotate t x = do {
     y \<leftarrow> rbt_right t x;
     yl \<leftarrow> rbt_left t y;
     t \<leftarrow> rbt_set_right t x yl;
     yl \<leftarrow> rbt_left t y;
     t \<leftarrow> (if yl \<noteq> rt_Nil t then rbt_set_parent t yl x else Some t);
     xp \<leftarrow> rbt_parent t x;
     t \<leftarrow> rbt_set_parent t y xp;
     xp \<leftarrow> rbt_parent t x;
     t \<leftarrow> (if xp = rt_Nil t then Some (t\<lparr>rt_Root := y\<rparr>)
          else do { xpl \<leftarrow> rbt_left t xp;
                    if x = xpl then rbt_set_left t xp y else rbt_set_right t xp y });
     t \<leftarrow> rbt_set_left t y x;
     rbt_set_parent t x y }"

definition rightRotate :: "('k, 'v) rbt_tree \<Rightarrow> ptr \<Rightarrow> ('k, 'v) rbt_tree option" where
  "rightRotate t x = do {
     y \<leftarrow> rbt_left t x;
     yr \<leftarrow> rbt_right t y;
     t \<leftarrow> rbt_set_left t x yr;
     yr \<leftarrow> rbt_right t y;
     t \<leftarrow> (if yr \<noteq> rt_Nil t then rbt_set_parent t yr x else Some t);
     xp \<leftarrow> rbt_parent t x;
     t \<leftarrow> rbt_set_parent t y xp;
     xp \<leftarrow> rbt_parent t x;
     t \<leftarrow> (if xp = rt_Nil t then Some (t\<lparr>rt_Root := y\<rparr>)
          else do { xpr \<leftarrow> rbt_right t xp;
                    if x = xpr then rbt_set_right t xp y else rbt_set_left t xp y });
     t \<leftarrow> rbt_set_right t y x;
     rbt_set_parent t x y }"

text \<open>The two branches of the loop of \<open>insertFixup\<close>, for a parent that is a left child and one that is
  a right child; they return the tree and the next \<open>z\<close>.\<close>

definition insertFixup_left :: "('k, 'v) rbt_tree \<Rightarrow> ptr \<Rightarrow> (('k, 'v) rbt_tree \<times> ptr) option" where
  "insertFixup_left t z = do {
     p \<leftarrow> rbt_parent t z; g \<leftarrow> rbt_parent t p;
     y \<leftarrow> rbt_right t g;
     yc \<leftarrow> rbt_color t y;
     if yc = Red then do {
       p \<leftarrow> rbt_parent t z;
       t \<leftarrow> rbt_set_color t p Black;
       t \<leftarrow> rbt_set_color t y Black;
       p \<leftarrow> rbt_parent t z; g \<leftarrow> rbt_parent t p;
       t \<leftarrow> rbt_set_color t g Red;
       p \<leftarrow> rbt_parent t z; g \<leftarrow> rbt_parent t p;
       Some (t, g) }
     else do {
       p \<leftarrow> rbt_parent t z; pr \<leftarrow> rbt_right t p;
       (t, z) \<leftarrow> (if z = pr then do {
                    z \<leftarrow> rbt_parent t z;
                    t \<leftarrow> leftRotate t z;
                    Some (t, z) }
                 else Some (t, z));
       p \<leftarrow> rbt_parent t z;
       t \<leftarrow> rbt_set_color t p Black;
       p \<leftarrow> rbt_parent t z; g \<leftarrow> rbt_parent t p;
       t \<leftarrow> rbt_set_color t g Red;
       p \<leftarrow> rbt_parent t z; g \<leftarrow> rbt_parent t p;
       t \<leftarrow> rightRotate t g;
       Some (t, z) } }"

definition insertFixup_right :: "('k, 'v) rbt_tree \<Rightarrow> ptr \<Rightarrow> (('k, 'v) rbt_tree \<times> ptr) option" where
  "insertFixup_right t z = do {
     p \<leftarrow> rbt_parent t z; g \<leftarrow> rbt_parent t p;
     y \<leftarrow> rbt_left t g;
     yc \<leftarrow> rbt_color t y;
     if yc = Red then do {
       p \<leftarrow> rbt_parent t z;
       t \<leftarrow> rbt_set_color t p Black;
       t \<leftarrow> rbt_set_color t y Black;
       p \<leftarrow> rbt_parent t z; g \<leftarrow> rbt_parent t p;
       t \<leftarrow> rbt_set_color t g Red;
       p \<leftarrow> rbt_parent t z; g \<leftarrow> rbt_parent t p;
       Some (t, g) }
     else do {
       p \<leftarrow> rbt_parent t z; pl \<leftarrow> rbt_left t p;
       (t, z) \<leftarrow> (if z = pl then do {
                    z \<leftarrow> rbt_parent t z;
                    t \<leftarrow> rightRotate t z;
                    Some (t, z) }
                 else Some (t, z));
       p \<leftarrow> rbt_parent t z;
       t \<leftarrow> rbt_set_color t p Black;
       p \<leftarrow> rbt_parent t z; g \<leftarrow> rbt_parent t p;
       t \<leftarrow> rbt_set_color t g Red;
       p \<leftarrow> rbt_parent t z; g \<leftarrow> rbt_parent t p;
       t \<leftarrow> leftRotate t g;
       Some (t, z) } }"

fun insertFixup_loop :: "nat \<Rightarrow> ('k, 'v) rbt_tree \<Rightarrow> ptr \<Rightarrow> ('k, 'v) rbt_tree option" where
  "insertFixup_loop 0 t z = None"
| "insertFixup_loop (Suc fuel) t z = do {
     p \<leftarrow> rbt_parent t z; pc \<leftarrow> rbt_color t p;
     if pc = Red then do {
       g \<leftarrow> rbt_parent t p; gl \<leftarrow> rbt_left t g;
       (t, z) \<leftarrow> (if p = gl then insertFixup_left t z else insertFixup_right t z);
       insertFixup_loop fuel t z }
     else Some t }"

definition insertFixup :: "('k, 'v) rbt_tree \<Rightarrow> ptr \<Rightarrow> ('k, 'v) rbt_tree option" where
  "insertFixup t z = do {
     t \<leftarrow> insertFixup_loop (rt_fresh t) t z;
     rbt_set_color t (rt_Root t) Black }"

text \<open>The descent of \<open>Insert\<close>: from \<open>x\<close>, with \<open>y\<close> its parent, to the parent of the new node.\<close>

fun rbt_descend :: "nat \<Rightarrow> ('k::linorder, 'v) rbt_tree \<Rightarrow> 'k \<Rightarrow> ptr \<Rightarrow> ptr \<Rightarrow> ptr option" where
  "rbt_descend 0 t key y x = None"
| "rbt_descend (Suc fuel) t key y x =
     (if x \<noteq> rt_Nil t then do {
        n \<leftarrow> rt_heap t x;
        rbt_descend fuel t key x (if key < rn_Key n then rn_Left n else rn_Right n) }
      else Some y)"

definition rbt_Insert :: "('k::linorder, 'v) rbt_tree \<Rightarrow> 'k \<Rightarrow> 'v \<Rightarrow> ('k, 'v) rbt_tree option" where
  "rbt_Insert t key v =
     (let z = rt_fresh t;
          t = t\<lparr>rt_heap := (rt_heap t)(z \<mapsto>
                  \<lparr>rn_Key = key, rn_Value = v, rn_Color = Red, rn_Left = rt_Nil t,
                   rn_Right = rt_Nil t, rn_Parent = rt_Nil t\<rparr>),
                rt_fresh := Suc z\<rparr>
      in do {
        y \<leftarrow> rbt_descend (rt_fresh t) t key (rt_Nil t) (rt_Root t);
        t \<leftarrow> rbt_set_parent t z y;
        t \<leftarrow> (if y = rt_Nil t then Some (t\<lparr>rt_Root := z\<rparr>)
             else do { n \<leftarrow> rt_heap t y;
                       if key < rn_Key n then rbt_set_left t y z else rbt_set_right t y z });
        insertFixup t z })"

fun rbt_search_loop :: "nat \<Rightarrow> ('k::linorder, 'v) rbt_tree \<Rightarrow> 'k \<Rightarrow> ptr \<Rightarrow> ptr option" where
  "rbt_search_loop 0 t key x = None"
| "rbt_search_loop (Suc fuel) t key x =
     (if x = rt_Nil t then Some x
      else do {
        n \<leftarrow> rt_heap t x;
        if key \<noteq> rn_Key n
        then rbt_search_loop fuel t key (if key < rn_Key n then rn_Left n else rn_Right n)
        else Some x })"

definition rbt_Search :: "('k::linorder, 'v) rbt_tree \<Rightarrow> 'k \<Rightarrow> ptr option" where
  "rbt_Search t key = do {
     x \<leftarrow> rbt_search_loop (rt_fresh t) t key (rt_Root t);
     Some (if x = rt_Nil t then 0 else x) }"

definition transplant :: "('k, 'v) rbt_tree \<Rightarrow> ptr \<Rightarrow> ptr \<Rightarrow> ('k, 'v) rbt_tree option" where
  "transplant t u v = do {
     up \<leftarrow> rbt_parent t u;
     t \<leftarrow> (if up = rt_Nil t then Some (t\<lparr>rt_Root := v\<rparr>)
          else do { upl \<leftarrow> rbt_left t up;
                    if u = upl then rbt_set_left t up v else rbt_set_right t up v });
     up \<leftarrow> rbt_parent t u;
     rbt_set_parent t v up }"

fun rbt_minimum :: "nat \<Rightarrow> ('k, 'v) rbt_tree \<Rightarrow> ptr \<Rightarrow> ptr option" where
  "rbt_minimum 0 t x = None"
| "rbt_minimum (Suc fuel) t x = do {
     xl \<leftarrow> rbt_left t x;
     if xl \<noteq> rt_Nil t then rbt_minimum fuel t xl else Some x }"

text \<open>The first \<open>if\<close> of either branch of the loop of \<open>deleteFixup\<close>, which makes the sibling black, and
  the rest of the branch; they return the tree with the sibling and with the next \<open>x\<close>.\<close>

definition deleteFixup_left_red :: "('k, 'v) rbt_tree \<Rightarrow> ptr \<Rightarrow> (('k, 'v) rbt_tree \<times> ptr) option" where
  "deleteFixup_left_red t x = do {
     p \<leftarrow> rbt_parent t x; w \<leftarrow> rbt_right t p;
     wc \<leftarrow> rbt_color t w;
     if wc = Red then do {
       t \<leftarrow> rbt_set_color t w Black;
       p \<leftarrow> rbt_parent t x;
       t \<leftarrow> rbt_set_color t p Red;
       p \<leftarrow> rbt_parent t x;
       t \<leftarrow> leftRotate t p;
       p \<leftarrow> rbt_parent t x; w \<leftarrow> rbt_right t p;
       Some (t, w) }
     else Some (t, w) }"

definition deleteFixup_left_black :: "('k, 'v) rbt_tree \<Rightarrow> ptr \<Rightarrow> ptr \<Rightarrow> (('k, 'v) rbt_tree \<times> ptr) option" where
  "deleteFixup_left_black t x w = do {
     wl \<leftarrow> rbt_left t w; wlc \<leftarrow> rbt_color t wl;
     wr \<leftarrow> rbt_right t w; wrc \<leftarrow> rbt_color t wr;
     if wlc = Black \<and> wrc = Black then do {
       t \<leftarrow> rbt_set_color t w Red;
       p \<leftarrow> rbt_parent t x;
       Some (t, p) }
     else do {
       (t, w) \<leftarrow> (if wrc = Black then do {
                    t \<leftarrow> rbt_set_color t wl Black;
                    t \<leftarrow> rbt_set_color t w Red;
                    t \<leftarrow> rightRotate t w;
                    p \<leftarrow> rbt_parent t x; w \<leftarrow> rbt_right t p;
                    Some (t, w) }
                  else Some (t, w));
       p \<leftarrow> rbt_parent t x; pc \<leftarrow> rbt_color t p;
       t \<leftarrow> rbt_set_color t w pc;
       p \<leftarrow> rbt_parent t x;
       t \<leftarrow> rbt_set_color t p Black;
       wr \<leftarrow> rbt_right t w;
       t \<leftarrow> rbt_set_color t wr Black;
       p \<leftarrow> rbt_parent t x;
       t \<leftarrow> leftRotate t p;
       Some (t, rt_Root t) } }"

definition deleteFixup_right_red :: "('k, 'v) rbt_tree \<Rightarrow> ptr \<Rightarrow> (('k, 'v) rbt_tree \<times> ptr) option" where
  "deleteFixup_right_red t x = do {
     p \<leftarrow> rbt_parent t x; w \<leftarrow> rbt_left t p;
     wc \<leftarrow> rbt_color t w;
     if wc = Red then do {
       t \<leftarrow> rbt_set_color t w Black;
       p \<leftarrow> rbt_parent t x;
       t \<leftarrow> rbt_set_color t p Red;
       p \<leftarrow> rbt_parent t x;
       t \<leftarrow> rightRotate t p;
       p \<leftarrow> rbt_parent t x; w \<leftarrow> rbt_left t p;
       Some (t, w) }
     else Some (t, w) }"

definition deleteFixup_right_black :: "('k, 'v) rbt_tree \<Rightarrow> ptr \<Rightarrow> ptr \<Rightarrow> (('k, 'v) rbt_tree \<times> ptr) option" where
  "deleteFixup_right_black t x w = do {
     wr \<leftarrow> rbt_right t w; wrc \<leftarrow> rbt_color t wr;
     wl \<leftarrow> rbt_left t w; wlc \<leftarrow> rbt_color t wl;
     if wrc = Black \<and> wlc = Black then do {
       t \<leftarrow> rbt_set_color t w Red;
       p \<leftarrow> rbt_parent t x;
       Some (t, p) }
     else do {
       (t, w) \<leftarrow> (if wlc = Black then do {
                    t \<leftarrow> rbt_set_color t wr Black;
                    t \<leftarrow> rbt_set_color t w Red;
                    t \<leftarrow> leftRotate t w;
                    p \<leftarrow> rbt_parent t x; w \<leftarrow> rbt_left t p;
                    Some (t, w) }
                  else Some (t, w));
       p \<leftarrow> rbt_parent t x; pc \<leftarrow> rbt_color t p;
       t \<leftarrow> rbt_set_color t w pc;
       p \<leftarrow> rbt_parent t x;
       t \<leftarrow> rbt_set_color t p Black;
       wl \<leftarrow> rbt_left t w;
       t \<leftarrow> rbt_set_color t wl Black;
       p \<leftarrow> rbt_parent t x;
       t \<leftarrow> rightRotate t p;
       Some (t, rt_Root t) } }"

fun deleteFixup_loop :: "nat \<Rightarrow> ('k, 'v) rbt_tree \<Rightarrow> ptr \<Rightarrow> (('k, 'v) rbt_tree \<times> ptr) option" where
  "deleteFixup_loop 0 t x = None"
| "deleteFixup_loop (Suc fuel) t x =
     (if x = rt_Root t then Some (t, x)
      else do {
        xc \<leftarrow> rbt_color t x;
        if xc = Black then do {
          p \<leftarrow> rbt_parent t x; pl \<leftarrow> rbt_left t p;
          (t, x) \<leftarrow> (if x = pl then do { (t, w) \<leftarrow> deleteFixup_left_red t x; deleteFixup_left_black t x w }
                    else do { (t, w) \<leftarrow> deleteFixup_right_red t x; deleteFixup_right_black t x w });
          deleteFixup_loop fuel t x }
        else Some (t, x) })"

definition deleteFixup :: "('k, 'v) rbt_tree \<Rightarrow> ptr \<Rightarrow> ('k, 'v) rbt_tree option" where
  "deleteFixup t x = do {
     (t, x) \<leftarrow> deleteFixup_loop (rt_fresh t) t x;
     rbt_set_color t x Black }"

text \<open>The last branch of \<open>Delete\<close>: the successor \<open>y\<close> of \<open>z\<close>, taken out of its place, takes that of \<open>z\<close>;
  the result is the tree, the node \<open>x\<close> now in the old place of \<open>y\<close> and the colour \<open>y\<close> had.\<close>

definition rbt_take_place :: "('k, 'v) rbt_tree \<Rightarrow> ptr \<Rightarrow> ptr \<Rightarrow> ('k, 'v) rbt_tree option" where
  "rbt_take_place t z y = do {
     t \<leftarrow> transplant t z y;
     zl \<leftarrow> rbt_left t z;
     t \<leftarrow> rbt_set_left t y zl;
     yl \<leftarrow> rbt_left t y;
     t \<leftarrow> rbt_set_parent t yl y;
     zc \<leftarrow> rbt_color t z;
     rbt_set_color t y zc }"

definition rbt_replace :: "('k, 'v) rbt_tree \<Rightarrow> ptr \<Rightarrow> (('k, 'v) rbt_tree \<times> ptr \<times> color) option" where
  "rbt_replace t z = do {
     zr \<leftarrow> rbt_right t z;
     y \<leftarrow> rbt_minimum (rt_fresh t) t zr;
     yc \<leftarrow> rbt_color t y;
     x \<leftarrow> rbt_right t y;
     yp \<leftarrow> rbt_parent t y;
     t \<leftarrow> (if yp = z then rbt_set_parent t x y
          else do {
            yr \<leftarrow> rbt_right t y;
            t \<leftarrow> transplant t y yr;
            zr \<leftarrow> rbt_right t z;
            t \<leftarrow> rbt_set_right t y zr;
            yr \<leftarrow> rbt_right t y;
            rbt_set_parent t yr y });
     t \<leftarrow> rbt_take_place t z y;
     Some (t, x, yc) }"

definition rbt_Delete :: "('k::linorder, 'v) rbt_tree \<Rightarrow> 'k \<Rightarrow> (bool \<times> ('k, 'v) rbt_tree) option" where
  "rbt_Delete t key = do {
     z \<leftarrow> rbt_Search t key;
     if z = 0 then Some (False, t)
     else do {
       zn \<leftarrow> rt_heap t z;
       (t, x, yOriginalColor) \<leftarrow>
         (if rn_Left zn = rt_Nil t then do {
            t \<leftarrow> transplant t z (rn_Right zn);
            Some (t, rn_Right zn, rn_Color zn) }
          else if rn_Right zn = rt_Nil t then do {
            t \<leftarrow> transplant t z (rn_Left zn);
            Some (t, rn_Left zn, rn_Color zn) }
          else rbt_replace t z);
       t \<leftarrow> (if yOriginalColor = Black then deleteFixup t x else Some t);
       Some (True, t) } }"

fun inOrderHelper :: "nat \<Rightarrow> ('k, 'v) rbt_tree \<Rightarrow> ptr \<Rightarrow> 'k list \<Rightarrow> 'k list option" where
  "inOrderHelper 0 t node result = None"
| "inOrderHelper (Suc fuel) t node result =
     (if node \<noteq> rt_Nil t then do {
        n \<leftarrow> rt_heap t node;
        result \<leftarrow> inOrderHelper fuel t (rn_Left n) result;
        inOrderHelper fuel t (rn_Right n) (result @ [rn_Key n]) }
      else Some result)"

definition InOrderTraversal :: "('k, 'v) rbt_tree \<Rightarrow> 'k list option" where
  "InOrderTraversal t = inOrderHelper (rt_fresh t) t (rt_Root t) []"


section \<open>Mirror images\<close>

text \<open>The branches for a right child are those for a left child with left and right exchanged.\<close>

definition swap_node :: "('k, 'v) rbt_node \<Rightarrow> ('k, 'v) rbt_node" where
  "swap_node n = n\<lparr>rn_Left := rn_Right n, rn_Right := rn_Left n\<rparr>"

definition rbt_mirror :: "('k, 'v) rbt_tree \<Rightarrow> ('k, 'v) rbt_tree" where
  "rbt_mirror t = t\<lparr>rt_heap := \<lambda>p. map_option swap_node (rt_heap t p)\<rparr>"

lemma swap_node_simps [simp]:
  "rn_Key (swap_node n) = rn_Key n" "rn_Value (swap_node n) = rn_Value n"
  "rn_Color (swap_node n) = rn_Color n" "rn_Parent (swap_node n) = rn_Parent n"
  "rn_Left (swap_node n) = rn_Right n" "rn_Right (swap_node n) = rn_Left n"
  "swap_node (swap_node n) = n"
  by (simp_all add: swap_node_def)

lemma rbt_mirror_simps [simp]:
  "rt_heap (rbt_mirror t) p = map_option swap_node (rt_heap t p)"
  "rt_fresh (rbt_mirror t) = rt_fresh t" "rt_Root (rbt_mirror t) = rt_Root t"
  "rt_Nil (rbt_mirror t) = rt_Nil t" "rbt_mirror (rbt_mirror t) = t"
  by (simp_all add: rbt_mirror_def option.map_comp o_def option.map_ident)

lemma rbt_mirror_set:
  "rbt_set (rbt_mirror t) p f = map_option rbt_mirror (rbt_set t p (\<lambda>n. swap_node (f (swap_node n))))"
  by (cases "rt_heap t p") (auto simp: rbt_set_def rbt_mirror_def fun_eq_iff)

lemma rbt_mirror_fields [simp]:
  "rbt_set_color (rbt_mirror t) p c = map_option rbt_mirror (rbt_set_color t p c)"
  "rbt_set_parent (rbt_mirror t) p q = map_option rbt_mirror (rbt_set_parent t p q)"
  "rbt_set_left (rbt_mirror t) p q = map_option rbt_mirror (rbt_set_right t p q)"
  "rbt_set_right (rbt_mirror t) p q = map_option rbt_mirror (rbt_set_left t p q)"
  by (simp_all add: rbt_mirror_set swap_node_def)

lemma rbt_mirror_root [simp]: "(rbt_mirror t)\<lparr>rt_Root := p\<rparr> = rbt_mirror (t\<lparr>rt_Root := p\<rparr>)"
  by (simp add: rbt_mirror_def)

lemma bind_map_option: "Option.bind (map_option g m) f = Option.bind m (\<lambda>x. f (g x))"
  by (cases m) auto

lemma map_option_bind: "map_option g (Option.bind m f) = Option.bind m (\<lambda>x. map_option g (f x))"
  by (cases m) auto

lemmas rbt_mirror_rules = bind_map_option map_option_bind if_distrib [of "map_option _"]
  option.map_comp o_def if_distrib [of "\<lambda>m. Option.bind m _"]

lemma leftRotate_mirror: "leftRotate (rbt_mirror t) x = map_option rbt_mirror (rightRotate t x)"
  by (simp add: leftRotate_def rightRotate_def rbt_mirror_rules cong: Option.bind_cong if_cong)

lemma rightRotate_mirror: "rightRotate (rbt_mirror t) x = map_option rbt_mirror (leftRotate t x)"
  by (simp add: leftRotate_def rightRotate_def rbt_mirror_rules cong: Option.bind_cong if_cong)

lemma insertFixup_mirror:
  "insertFixup_left (rbt_mirror t) z = map_option (map_prod rbt_mirror id) (insertFixup_right t z)"
  by (simp add: insertFixup_left_def insertFixup_right_def rbt_mirror_rules leftRotate_mirror
      rightRotate_mirror split_def cong: Option.bind_cong if_cong)

lemma deleteFixup_red_mirror:
  "deleteFixup_left_red (rbt_mirror t) x = map_option (map_prod rbt_mirror id) (deleteFixup_right_red t x)"
  by (simp add: deleteFixup_left_red_def deleteFixup_right_red_def rbt_mirror_rules leftRotate_mirror
      rightRotate_mirror cong: Option.bind_cong if_cong)

lemma deleteFixup_black_mirror:
  "deleteFixup_left_black (rbt_mirror t) x w = map_option (map_prod rbt_mirror id) (deleteFixup_right_black t x w)"
  by (simp add: deleteFixup_left_black_def deleteFixup_right_black_def rbt_mirror_rules leftRotate_mirror
      rightRotate_mirror split_def cong: Option.bind_cong if_cong)

end
