(* ===== verification/RbReps.thy ===== *)
theory RbReps
  imports RbTrees "HOL-Library.Multiset"
begin

text \<open>
  The tree a heap of red-black nodes represents, with the operations at a position of it.

  A position is a zipper: a subtree and the frames above it. \<open>rbt_rep\<close> relates a tree to the code's
  state; reading, colouring and rotating at a position are proved once, for any frames.
\<close>

section \<open>Trees and frames\<close>

datatype ('k, 'v) ptree = PLeaf | PNode "('k, 'v) ptree" ptr color 'k 'v "('k, 'v) ptree"

datatype ('k, 'v) frame =
    InLeft ptr color 'k 'v "('k, 'v) ptree"
  | InRight "('k, 'v) ptree" ptr color 'k 'v

fun root_ptr :: "ptr \<Rightarrow> ('k, 'v) ptree \<Rightarrow> ptr" where
  "root_ptr n PLeaf = n"
| "root_ptr n (PNode l p c k v r) = p"

fun addrs :: "('k, 'v) ptree \<Rightarrow> ptr list" where
  "addrs PLeaf = []"
| "addrs (PNode l p c k v r) = addrs l @ p # addrs r"

fun inorder :: "('k, 'v) ptree \<Rightarrow> ('k \<times> 'v) list" where
  "inorder PLeaf = []"
| "inorder (PNode l p c k v r) = inorder l @ (k, v) # inorder r"

fun plug :: "('k, 'v) frame list \<Rightarrow> ('k, 'v) ptree \<Rightarrow> ('k, 'v) ptree" where
  "plug [] t = t"
| "plug (InLeft p c k v r # fs) t = plug fs (PNode t p c k v r)"
| "plug (InRight l p c k v # fs) t = plug fs (PNode l p c k v t)"

fun above :: "ptr \<Rightarrow> ('k, 'v) frame list \<Rightarrow> ptr" where
  "above n [] = n"
| "above n (InLeft p c k v r # fs) = p"
| "above n (InRight l p c k v # fs) = p"

fun frame_addrs :: "('k, 'v) frame list \<Rightarrow> ptr list" where
  "frame_addrs [] = []"
| "frame_addrs (InLeft p c k v r # fs) = p # addrs r @ frame_addrs fs"
| "frame_addrs (InRight l p c k v # fs) = addrs l @ p # frame_addrs fs"

fun left_of :: "('k, 'v) frame list \<Rightarrow> ('k \<times> 'v) list" where
  "left_of [] = []"
| "left_of (InLeft p c k v r # fs) = left_of fs"
| "left_of (InRight l p c k v # fs) = left_of fs @ inorder l @ [(k, v)]"

fun right_of :: "('k, 'v) frame list \<Rightarrow> ('k \<times> 'v) list" where
  "right_of [] = []"
| "right_of (InLeft p c k v r # fs) = (k, v) # inorder r @ right_of fs"
| "right_of (InRight l p c k v # fs) = right_of fs"

lemma inorder_plug [simp]: "inorder (plug fs t) = left_of fs @ inorder t @ right_of fs"
  by (induction fs t rule: plug.induct) auto

lemma plug_append: "plug (fs @ gs) t = plug gs (plug fs t)"
  by (induction fs t rule: plug.induct) auto

lemma frame_addrs_append [simp]: "frame_addrs (fs @ gs) = frame_addrs fs @ frame_addrs gs"
  by (induction fs rule: frame_addrs.induct) auto

lemma above_append [simp]: "fs \<noteq> [] \<Longrightarrow> above n (fs @ gs) = above n fs"
  by (cases fs rule: frame_addrs.cases) auto

lemma left_of_append [simp]: "left_of (fs @ gs) = left_of gs @ left_of fs"
  by (induction fs rule: left_of.induct) auto

lemma right_of_append [simp]: "right_of (fs @ gs) = right_of fs @ right_of gs"
  by (induction fs rule: right_of.induct) auto

lemma mset_addrs_plug: "mset (addrs (plug fs t)) = mset (frame_addrs fs) + mset (addrs t)"
  by (induction fs t rule: plug.induct) auto

lemma set_addrs_plug [simp]: "set (addrs (plug fs t)) = set (frame_addrs fs) \<union> set (addrs t)"
  using arg_cong [OF mset_addrs_plug [of fs t], of set_mset] by simp

lemma distinct_addrs_plug [simp]:
  "distinct (addrs (plug fs t)) \<longleftrightarrow> distinct (frame_addrs fs @ addrs t)"
  by (rule mset_eq_imp_distinct_iff) (simp add: mset_addrs_plug)

lemma plug_not_leaf [simp]: "plug fs (PNode l p c k v r) \<noteq> PLeaf" "PLeaf \<noteq> plug fs (PNode l p c k v r)"
proof -
  have "inorder (plug fs (PNode l p c k v r)) \<noteq> inorder PLeaf" by simp
  then show "plug fs (PNode l p c k v r) \<noteq> PLeaf" "PLeaf \<noteq> plug fs (PNode l p c k v r)" by metis+
qed

lemma root_ptr_in: "root_ptr n t = n \<or> root_ptr n t \<in> set (addrs t)"
  by (cases t) auto

lemma root_ptr_nil [simp]: "n \<notin> set (addrs t) \<Longrightarrow> root_ptr n t = n \<longleftrightarrow> t = PLeaf"
  by (cases t) auto

lemma root_ptr_Nil' [simp]: "n \<notin> set (addrs t) \<Longrightarrow> n = root_ptr n t \<longleftrightarrow> t = PLeaf"
  by (cases t) auto

lemma above_in: "above n fs = n \<and> fs = [] \<or> above n fs \<in> set (frame_addrs fs)"
  by (cases "(n, fs)" rule: above.cases) auto

section \<open>What the heap holds\<close>

fun in_heap :: "(ptr \<rightharpoonup> ('k, 'v) rbt_node) \<Rightarrow> ptr \<Rightarrow> ptr \<Rightarrow> ('k, 'v) ptree \<Rightarrow> bool" where
  "in_heap h n par PLeaf = True"
| "in_heap h n par (PNode l p c k v r) \<longleftrightarrow>
     h p = Some \<lparr>rn_Key = k, rn_Value = v, rn_Color = c, rn_Left = root_ptr n l,
                 rn_Right = root_ptr n r, rn_Parent = par\<rparr>
     \<and> in_heap h n p l \<and> in_heap h n p r"

text \<open>The frames are in the heap, with \<open>q\<close> in the hole.\<close>

fun frames_in_heap :: "(ptr \<rightharpoonup> ('k, 'v) rbt_node) \<Rightarrow> ptr \<Rightarrow> ptr \<Rightarrow> ('k, 'v) frame list \<Rightarrow> bool" where
  "frames_in_heap h n q [] = True"
| "frames_in_heap h n q (InLeft p c k v r # fs) \<longleftrightarrow>
     h p = Some \<lparr>rn_Key = k, rn_Value = v, rn_Color = c, rn_Left = q,
                 rn_Right = root_ptr n r, rn_Parent = above n fs\<rparr>
     \<and> in_heap h n p r \<and> frames_in_heap h n p fs"
| "frames_in_heap h n q (InRight l p c k v # fs) \<longleftrightarrow>
     h p = Some \<lparr>rn_Key = k, rn_Value = v, rn_Color = c, rn_Left = root_ptr n l,
                 rn_Right = q, rn_Parent = above n fs\<rparr>
     \<and> in_heap h n p l \<and> frames_in_heap h n p fs"

fun frames_root :: "ptr \<Rightarrow> ('k, 'v) frame list \<Rightarrow> ptr" where
  "frames_root q [] = q"
| "frames_root q (InLeft p c k v r # fs) = frames_root p fs"
| "frames_root q (InRight l p c k v # fs) = frames_root p fs"

lemma in_heap_plug:
  "in_heap h n n (plug fs t) \<longleftrightarrow> frames_in_heap h n (root_ptr n t) fs \<and> in_heap h n (above n fs) t"
  by (induction fs t rule: plug.induct) auto

lemma root_ptr_plug: "root_ptr n (plug fs t) = frames_root (root_ptr n t) fs"
  by (induction fs t rule: plug.induct) auto

lemma in_heap_upd [simp]: "p \<notin> set (addrs t) \<Longrightarrow> in_heap (h(p := x)) n par t = in_heap h n par t"
  by (induction h n par t rule: in_heap.induct) auto

lemma frames_in_heap_upd [simp]:
  "p \<notin> set (frame_addrs fs) \<Longrightarrow> frames_in_heap (h(p := x)) n q fs = frames_in_heap h n q fs"
  by (induction h n q fs rule: frames_in_heap.induct) auto

text \<open>\<open>n\<close> is the sentinel's address, \<open>s\<close> its node, and addresses from \<open>f\<close> on are free.\<close>

definition rbt_rep :: "ptr \<Rightarrow> ('k, 'v) rbt_node \<Rightarrow> ptr \<Rightarrow> ('k, 'v) ptree \<Rightarrow> ('k, 'v) rbt_tree \<Rightarrow> bool" where
  "rbt_rep n s f T t \<longleftrightarrow> rt_Nil t = n \<and> rt_fresh t = f \<and> rt_Root t = root_ptr n T \<and> rt_heap t n = Some s
     \<and> in_heap (rt_heap t) n n T \<and> distinct (addrs T) \<and> n \<notin> set (addrs T) \<and> 0 \<notin> set (addrs T)
     \<and> (\<forall>p \<in> set (addrs T). p < f) \<and> 0 < n \<and> n < f"

lemma rbt_rep_fields:
  "rbt_rep n s f T t \<Longrightarrow> rt_Nil t = n" "rbt_rep n s f T t \<Longrightarrow> rt_fresh t = f"
  "rbt_rep n s f T t \<Longrightarrow> rt_heap t n = Some s" "rbt_rep n s f T t \<Longrightarrow> rt_Root t = root_ptr n T"
  by (simp_all add: rbt_rep_def)

lemma rbt_rep_distinct:
  "rbt_rep n s f (plug fs t) h \<Longrightarrow> distinct (n # 0 # frame_addrs fs @ addrs t)"
  by (auto simp: rbt_rep_def)

lemma rbt_rep_read:
  "rbt_rep n s f (plug fs (PNode l p c k v r)) t \<Longrightarrow>
    rt_heap t p = Some \<lparr>rn_Key = k, rn_Value = v, rn_Color = c, rn_Left = root_ptr n l,
      rn_Right = root_ptr n r, rn_Parent = above n fs\<rparr>"
  by (simp add: rbt_rep_def in_heap_plug)

lemma rbt_rep_color:
  assumes "rbt_rep n s f (plug fs (PNode l p c k v r)) t"
  shows "\<exists>t'. rbt_set_color t p c' = Some t' \<and> rbt_rep n s f (plug fs (PNode l p c' k v r)) t'"
  using assms rbt_rep_distinct [OF assms] rbt_rep_read [OF assms]
  by (auto simp: rbt_rep_def rbt_set_def in_heap_plug root_ptr_plug)

text \<open>Reading a node and every update are local.\<close>

lemma in_heap_cong:
  "(\<And>p. p \<in> set (addrs t) \<Longrightarrow> h' p = h p) \<Longrightarrow> in_heap h' n par t = in_heap h n par t"
  by (induction h n par t rule: in_heap.induct) auto

lemma frames_in_heap_cong:
  "(\<And>p. p \<in> set (frame_addrs fs) \<Longrightarrow> h' p = h p) \<Longrightarrow> frames_in_heap h' n q fs = frames_in_heap h n q fs"
proof (induction h n q fs rule: frames_in_heap.induct)
  case (2 h n q p c k v r fs)
  then show ?case using in_heap_cong [of r h' h n p] by auto
next
  case (3 h n q l p c k v fs)
  then show ?case using in_heap_cong [of l h' h n p] by auto
qed simp

lemma in_heap_agree:
  "in_heap h n par t \<Longrightarrow> (\<And>p. p \<in> set (addrs t) \<Longrightarrow> h' p = h p) \<Longrightarrow> in_heap h' n par t"
  using in_heap_cong by blast

lemma frames_root_above: "fs \<noteq> [] \<Longrightarrow> frames_root q fs = frames_root q' fs"
  by (cases "(q, fs)" rule: frames_root.cases) auto

text \<open>The code's idiom for putting \<open>y\<close> in the place of the child \<open>x\<close> of \<open>xp\<close>.\<close>

definition rbt_relink :: "('k, 'v) rbt_tree \<Rightarrow> ptr \<Rightarrow> ptr \<Rightarrow> ptr \<Rightarrow> ('k, 'v) rbt_tree option" where
  "rbt_relink t xp x y =
     (if xp = rt_Nil t then Some (t\<lparr>rt_Root := y\<rparr>)
      else do { xpl \<leftarrow> rbt_left t xp; if x = xpl then rbt_set_left t xp y else rbt_set_right t xp y })"

lemma rbt_relink:
  assumes "frames_in_heap (rt_heap t) n x fs" and "distinct (n # frame_addrs fs)"
    and "x \<notin> set (n # frame_addrs fs)" and "rt_Nil t = n" and "rt_Root t = frames_root x fs"
  shows "\<exists>t'. rbt_relink t (above n fs) x y = Some t' \<and> frames_in_heap (rt_heap t') n y fs
    \<and> (\<forall>p. p \<notin> set (frame_addrs fs) \<longrightarrow> rt_heap t' p = rt_heap t p)
    \<and> rt_Root t' = frames_root y fs \<and> rt_Nil t' = n \<and> rt_fresh t' = rt_fresh t"
proof (cases "(n, fs)" rule: above.cases)
  case (1 n')
  with assms show ?thesis by (simp add: rbt_relink_def)
next
  case (2 n' p c k v r gs)
  with assms show ?thesis by (auto simp: rbt_relink_def rbt_set_def)
next
  case (3 n' l p c k v gs)
  moreover have "x \<noteq> root_ptr n l" using assms(2,3) 3 root_ptr_in [of n l] by auto
  ultimately show ?thesis using assms by (auto simp: rbt_relink_def rbt_set_def)
qed

lemma leftRotate_relink:
  "leftRotate t x = do {
     y \<leftarrow> rbt_right t x;
     yl \<leftarrow> rbt_left t y;
     t \<leftarrow> rbt_set_right t x yl;
     yl \<leftarrow> rbt_left t y;
     t \<leftarrow> (if yl \<noteq> rt_Nil t then rbt_set_parent t yl x else Some t);
     xp \<leftarrow> rbt_parent t x;
     t \<leftarrow> rbt_set_parent t y xp;
     xp \<leftarrow> rbt_parent t x;
     t \<leftarrow> rbt_relink t xp x y;
     t \<leftarrow> rbt_set_left t y x;
     rbt_set_parent t x y }"
  by (simp add: leftRotate_def rbt_relink_def)

lemma transplant_relink:
  "transplant t u v = do {
     up \<leftarrow> rbt_parent t u;
     t \<leftarrow> rbt_relink t up u v;
     up \<leftarrow> rbt_parent t u;
     rbt_set_parent t v up }"
  by (simp add: transplant_def rbt_relink_def)

lemma rbt_rep_rotate:
  assumes "rbt_rep n s f (plug fs (PNode a x cx kx vx (PNode b y cy ky vy c))) t"
  shows "\<exists>t'. leftRotate t x = Some t'
    \<and> rbt_rep n s f (plug fs (PNode (PNode a x cx kx vx b) y cy ky vy c)) t'"
proof -
  note d = rbt_rep_distinct [OF assms]
  have reads: "rt_heap t x = Some \<lparr>rn_Key = kx, rn_Value = vx, rn_Color = cx, rn_Left = root_ptr n a, rn_Right = y, rn_Parent = above n fs\<rparr>"
    "rt_heap t y = Some \<lparr>rn_Key = ky, rn_Value = vy, rn_Color = cy, rn_Left = root_ptr n b, rn_Right = root_ptr n c, rn_Parent = x\<rparr>"
    and subs: "in_heap (rt_heap t) n x a" "in_heap (rt_heap t) n y b" "in_heap (rt_heap t) n y c"
    and frames: "frames_in_heap (rt_heap t) n x fs" and root: "rt_Root t = frames_root x fs"
    using assms by (auto simp: rbt_rep_def in_heap_plug root_ptr_plug)
  let ?x = "\<lparr>rn_Key = kx, rn_Value = vx, rn_Color = cx, rn_Left = root_ptr n a, rn_Right = root_ptr n b, rn_Parent = above n fs\<rparr>"
  let ?y = "\<lparr>rn_Key = ky, rn_Value = vy, rn_Color = cy, rn_Left = root_ptr n b, rn_Right = root_ptr n c, rn_Parent = above n fs\<rparr>"
  define t1 where "t1 = t\<lparr>rt_heap := (rt_heap t)(x \<mapsto> ?x)\<rparr>"
  have "\<exists>t2. (if root_ptr n b \<noteq> n then rbt_set_parent t1 (root_ptr n b) x else Some t1) = Some t2
    \<and> in_heap (rt_heap t2) n x b \<and> (\<forall>p. p \<notin> set (addrs b) \<longrightarrow> rt_heap t2 p = rt_heap t1 p)
    \<and> rt_Root t2 = rt_Root t \<and> rt_Nil t2 = n \<and> rt_fresh t2 = rt_fresh t"
    using d subs(2) rbt_rep_fields [OF assms] by (cases b) (auto simp: t1_def rbt_set_def)
  then obtain t2 where t2: "(if root_ptr n b \<noteq> n then rbt_set_parent t1 (root_ptr n b) x else Some t1) = Some t2"
    "in_heap (rt_heap t2) n x b" "\<And>p. p \<notin> set (addrs b) \<Longrightarrow> rt_heap t2 p = rt_heap t1 p"
    "rt_Root t2 = rt_Root t" "rt_Nil t2 = n" "rt_fresh t2 = rt_fresh t" by blast
  define t3 where "t3 = t2\<lparr>rt_heap := (rt_heap t2)(y \<mapsto> ?y)\<rparr>"
  have t3: "rt_heap t3 p = rt_heap t p" if "p \<notin> {x, y} \<union> set (addrs b)" for p
    using that t2(3) by (auto simp: t3_def t1_def)
  have "frames_in_heap (rt_heap t3) n x fs"
    using frames d by (subst frames_in_heap_cong [OF t3]) auto
  with rbt_relink [of t3 n x fs y] d root t2 obtain t4 where t4: "rbt_relink t3 (above n fs) x y = Some t4"
    "frames_in_heap (rt_heap t4) n y fs" "\<And>p. p \<notin> set (frame_addrs fs) \<Longrightarrow> rt_heap t4 p = rt_heap t3 p"
    "rt_Root t4 = frames_root y fs" "rt_Nil t4 = n" "rt_fresh t4 = rt_fresh t"
    by (auto simp: t3_def)
  have t4': "rt_heap t4 p = rt_heap t p" if "p \<notin> {x, y} \<union> set (addrs b) \<union> set (frame_addrs fs)" for p
    using that t3 t4(3) by auto
  have at: "rt_heap t4 x = Some ?x" "rt_heap t4 y = Some ?y" "rt_heap t4 n = Some s"
    using d t2(3) t4(3) t4' [of n] rbt_rep_fields(3) [OF assms] by (auto simp: t3_def t1_def)
  have in_a: "p \<notin> {x, y} \<union> set (addrs b) \<union> set (frame_addrs fs)" if "p \<in> set (addrs a)" for p
    using that d by auto
  have in_c: "p \<notin> {x, y} \<union> set (addrs b) \<union> set (frame_addrs fs)" if "p \<in> set (addrs c)" for p
    using that d by auto
  have sub_a: "in_heap (rt_heap t4) n x a" by (rule in_heap_agree [OF subs(1) t4']) (rule in_a)
  have sub_c: "in_heap (rt_heap t4) n y c" by (rule in_heap_agree [OF subs(3) t4']) (rule in_c)
  have sub_b: "in_heap (rt_heap t4) n x b"
  proof (rule in_heap_agree [OF t2(2)])
    fix p assume "p \<in> set (addrs b)"
    then have "p \<notin> set (frame_addrs fs)" "p \<noteq> y" using d by auto
    then show "rt_heap t4 p = rt_heap t2 p" using t4(3) [of p] by (simp add: t3_def)
  qed
  let ?t = "t4\<lparr>rt_heap := (rt_heap t4)(y \<mapsto> ?y\<lparr>rn_Left := x\<rparr>, x \<mapsto> ?x\<lparr>rn_Parent := y\<rparr>)\<rparr>"
  have ne: "x \<noteq> y" "x \<noteq> n" "y \<noteq> n" "x \<notin> set (frame_addrs fs)" "y \<notin> set (frame_addrs fs)"
    "x \<notin> set (addrs b)" "y \<notin> set (addrs b)" using d by auto
  have sx: "rbt_set_right t x (root_ptr n b) = Some t1" using reads(1) by (simp add: rbt_set_def t1_def)
  have t2x: "rt_heap t2 x = Some ?x" and t2y: "rt_heap t2 y = rt_heap t y"
    using t2(3) ne by (simp_all add: t1_def)
  have sy: "rbt_set_parent t2 y (above n fs) = Some t3" using reads(2) t2y by (simp add: rbt_set_def t3_def)
  have t3x: "rt_heap t3 x = Some ?x" using t2x ne by (simp add: t3_def)
  have t1y: "rt_heap t1 y = rt_heap t y" "rt_Nil t1 = n" using ne rbt_rep_fields(1) [OF assms] by (simp_all add: t1_def)
  have run: "leftRotate t x = Some ?t"
    unfolding leftRotate_relink using ne reads at(1,2)
    by (simp add: sx t1y t2(1) t2x sy t3x t4(1)) (simp add: rbt_set_def)
  have "frames_in_heap (rt_heap ?t) n y fs \<and> in_heap (rt_heap ?t) n (above n fs) (PNode (PNode a x cx kx vx b) y cy ky vy c)"
    using d t4(2) sub_a sub_b sub_c at by simp
  then have "in_heap (rt_heap ?t) n n (plug fs (PNode (PNode a x cx kx vx b) y cy ky vy c))"
    by (simp add: in_heap_plug)
  moreover have "distinct (addrs (plug fs (PNode (PNode a x cx kx vx b) y cy ky vy c)))"
    "set (addrs (plug fs (PNode (PNode a x cx kx vx b) y cy ky vy c))) = set (addrs (plug fs (PNode a x cx kx vx (PNode b y cy ky vy c))))"
    using d by auto
  ultimately have "rbt_rep n s f (plug fs (PNode (PNode a x cx kx vx b) y cy ky vy c)) ?t"
    using assms ne at(3) t4(4-6) unfolding rbt_rep_def by (simp add: root_ptr_plug)
  with run show ?thesis by blast
qed

section \<open>Mirror images of trees\<close>

fun pmirror :: "('k, 'v) ptree \<Rightarrow> ('k, 'v) ptree" where
  "pmirror PLeaf = PLeaf"
| "pmirror (PNode l p c k v r) = PNode (pmirror r) p c k v (pmirror l)"

fun fmirror :: "('k, 'v) frame \<Rightarrow> ('k, 'v) frame" where
  "fmirror (InLeft p c k v r) = InRight (pmirror r) p c k v"
| "fmirror (InRight l p c k v) = InLeft p c k v (pmirror l)"

lemma pmirror_pmirror [simp]: "pmirror (pmirror t) = t"
  by (induction t) auto

lemma fmirror_fmirror [simp]: "fmirror (fmirror f) = f"
  by (cases f) auto

lemma pmirror_plug: "pmirror (plug fs t) = plug (map fmirror fs) (pmirror t)"
  by (induction fs t rule: plug.induct) auto

lemma set_addrs_pmirror [simp]: "set (addrs (pmirror t)) = set (addrs t)"
  by (induction t) auto

lemma distinct_addrs_pmirror [simp]: "distinct (addrs (pmirror t)) = distinct (addrs t)"
  by (induction t) auto

lemma root_ptr_pmirror [simp]: "root_ptr n (pmirror t) = root_ptr n t"
  by (cases t) auto

lemma in_heap_pmirror:
  "in_heap h n par t \<Longrightarrow> in_heap (\<lambda>p. map_option swap_node (h p)) n par (pmirror t)"
  by (induction h n par t rule: in_heap.induct) (auto simp: swap_node_def)

lemma rbt_rep_mirror: "rbt_rep n s f T t \<Longrightarrow> rbt_rep n (swap_node s) f (pmirror T) (rbt_mirror t)"
  by (auto simp: rbt_rep_def rbt_mirror_def in_heap_pmirror)

lemma rbt_rep_of_mirror: "rbt_rep n (swap_node s) f (pmirror T) t \<Longrightarrow> rbt_rep n s f T (rbt_mirror t)"
  using rbt_rep_mirror by fastforce

text \<open>A step proved for the left is a step for the right.\<close>

lemma rbt_step_mirror:
  assumes "\<exists>t'. F (rbt_mirror t) = Some (t', x) \<and> rbt_rep n (swap_node s) f (pmirror T') t'"
    and "F (rbt_mirror t) = map_option (map_prod rbt_mirror id) (G t)"
  shows "\<exists>t'. G t = Some (t', x) \<and> rbt_rep n s f T' t'"
proof -
  from assms obtain t'' where g: "G t = Some (t'', x)" and r: "rbt_rep n (swap_node s) f (pmirror T') (rbt_mirror t'')"
    by (cases "G t") auto
  from rbt_rep_of_mirror [OF r] have "rbt_rep n s f T' t''" by simp
  with g show ?thesis by blast
qed

lemma rbt_rep_rotate_right:
  assumes "rbt_rep n s f (plug fs (PNode (PNode a y cy ky vy b) x cx kx vx c)) t"
  shows "\<exists>t'. rightRotate t x = Some t'
    \<and> rbt_rep n s f (plug fs (PNode a y cy ky vy (PNode b x cx kx vx c))) t'"
proof -
  from rbt_rep_mirror [OF assms] have "\<exists>t'. leftRotate (rbt_mirror t) x = Some t'
    \<and> rbt_rep n (swap_node s) f (pmirror (plug fs (PNode a y cy ky vy (PNode b x cx kx vx c)))) t'"
    by (simp add: pmirror_plug rbt_rep_rotate)
  then obtain t' where "rightRotate t x = Some t'"
    "rbt_rep n (swap_node s) f (pmirror (plug fs (PNode a y cy ky vy (PNode b x cx kx vx c)))) (rbt_mirror t')"
    by (auto simp: leftRotate_mirror)
  with rbt_rep_of_mirror show ?thesis by fastforce
qed

section \<open>Reading, colouring and rotating near a position\<close>

lemmas rbt_read_l = rbt_rep_read [where fs = "InLeft p c k v r # fs" for p c k v r fs, unfolded plug.simps above.simps]
lemmas rbt_read_r = rbt_rep_read [where fs = "InRight l p c k v # fs" for l p c k v fs, unfolded plug.simps above.simps]
lemmas rbt_read_ll = rbt_read_l [where fs = "InLeft p c k v r # fs" for p c k v r fs, unfolded plug.simps]
lemmas rbt_read_lr = rbt_read_r [where fs = "InLeft p c k v r # fs" for p c k v r fs, unfolded plug.simps]
lemmas rbt_read_rl = rbt_read_l [where fs = "InRight l p c k v # fs" for l p c k v fs, unfolded plug.simps]
lemmas rbt_read_rr = rbt_read_r [where fs = "InRight l p c k v # fs" for l p c k v fs, unfolded plug.simps]

lemmas rbt_color_l = rbt_rep_color [where fs = "InLeft p c k v r # fs" for p c k v r fs, unfolded plug.simps]
lemmas rbt_color_r = rbt_rep_color [where fs = "InRight l p c k v # fs" for l p c k v fs, unfolded plug.simps]
lemmas rbt_color_rl = rbt_color_l [where fs = "InRight l p c k v # fs" for l p c k v fs, unfolded plug.simps]
lemmas rbt_color_rr = rbt_color_r [where fs = "InRight l p c k v # fs" for l p c k v fs, unfolded plug.simps]

lemmas rbt_rotate_l = rbt_rep_rotate [where fs = "InLeft p c k v r # fs" for p c k v r fs, unfolded plug.simps]
lemmas rbt_rotate_r = rbt_rep_rotate_right [where fs = "InRight l p c k v # fs" for l p c k v fs, unfolded plug.simps]

lemma color_neq [simp]: "c \<noteq> Black \<longleftrightarrow> c = Red" "c \<noteq> Red \<longleftrightarrow> c = Black"
  by (cases c; simp)+

text \<open>The parent of a subtree's root, which for an empty subtree is the one noted in the sentinel.\<close>

lemma rbt_rep_parent:
  "rbt_rep n s f (plug fs t) h \<Longrightarrow> t = PLeaf \<longrightarrow> rn_Parent s = above n fs \<Longrightarrow>
    rbt_parent h (root_ptr n t) = Some (above n fs)"
  by (cases t) (auto simp: rbt_rep_read rbt_rep_fields)

lemmas rbt_parent_l = rbt_rep_parent [where fs = "InLeft p c k v r # fs" for p c k v r fs, unfolded plug.simps above.simps]
lemmas rbt_parent_ll = rbt_parent_l [where fs = "InLeft p c k v r # fs" for p c k v r fs, unfolded plug.simps]

fun pcolor :: "('k, 'v) ptree \<Rightarrow> color" where
  "pcolor PLeaf = Black"
| "pcolor (PNode l p c k v r) = c"

lemma rbt_rep_pcolor:
  "rbt_rep n s f (plug fs t) h \<Longrightarrow> rn_Color s = Black \<Longrightarrow>
    \<exists>m. rt_heap h (root_ptr n t) = Some m \<and> rn_Color m = pcolor t"
  by (cases t) (auto simp: rbt_rep_read rbt_rep_fields)

lemmas rbt_pcolor_l = rbt_rep_pcolor [where fs = "InLeft p c k v r # fs" for p c k v r fs, unfolded plug.simps]
lemmas rbt_pcolor_r = rbt_rep_pcolor [where fs = "InRight l p c k v # fs" for l p c k v fs, unfolded plug.simps]
lemmas rbt_pcolor_rl = rbt_pcolor_l [where fs = "InRight l p c k v # fs" for l p c k v fs, unfolded plug.simps]
lemmas rbt_pcolor_rr = rbt_pcolor_r [where fs = "InRight l p c k v # fs" for l p c k v fs, unfolded plug.simps]

section \<open>Red-black invariants\<close>

fun invc :: "('k, 'v) ptree \<Rightarrow> bool" where
  "invc PLeaf = True"
| "invc (PNode l p c k v r) \<longleftrightarrow> (c = Red \<longrightarrow> pcolor l = Black \<and> pcolor r = Black) \<and> invc l \<and> invc r"

fun bheight :: "('k, 'v) ptree \<Rightarrow> nat" where
  "bheight PLeaf = 0"
| "bheight (PNode l p c k v r) = bheight l + (if c = Black then 1 else 0)"

fun invh :: "('k, 'v) ptree \<Rightarrow> bool" where
  "invh PLeaf = True"
| "invh (PNode l p c k v r) \<longleftrightarrow> bheight l = bheight r \<and> invh l \<and> invh r"

definition red_black :: "('k, 'v) ptree \<Rightarrow> bool" where
  "red_black t \<longleftrightarrow> invc t \<and> invh t \<and> pcolor t = Black"

text \<open>The frames above a position, on their own; the root may not be red, so there is a red parent
  above it.\<close>

fun fcolor :: "('k, 'v) frame list \<Rightarrow> color" where
  "fcolor [] = Red"
| "fcolor (InLeft p c k v r # fs) = c"
| "fcolor (InRight l p c k v # fs) = c"

fun fsibling :: "('k, 'v) frame \<Rightarrow> ('k, 'v) ptree" where
  "fsibling (InLeft p c k v r) = r"
| "fsibling (InRight l p c k v) = l"

fun frames_c :: "('k, 'v) frame list \<Rightarrow> bool" where
  "frames_c [] = True"
| "frames_c (f # fs) \<longleftrightarrow> invc (fsibling f) \<and> frames_c fs
     \<and> (fcolor [f] = Red \<longrightarrow> pcolor (fsibling f) = Black \<and> fcolor fs = Black)"

fun frames_h :: "('k, 'v) frame list \<Rightarrow> nat \<Rightarrow> bool" where
  "frames_h [] h = True"
| "frames_h (f # fs) h \<longleftrightarrow> invh (fsibling f) \<and> bheight (fsibling f) = h
     \<and> frames_h fs (if fcolor [f] = Black then Suc h else h)"

lemma plug_Cons: "plug (f # fs) t = plug fs (plug [f] t)"
  using plug_append [of "[f]" fs t] by simp

text \<open>The parent of a position.\<close>

lemma rbt_read_above:
  assumes "rbt_rep n s f (plug (g # fs) t) h"
  shows "rbt_color h (above n (g # fs)) = Some (fcolor (g # fs))"
    and "rbt_parent h (above n (g # fs)) = Some (above n fs)"
    and "rbt_left h (above n (g # fs)) = Some (root_ptr n t) \<longleftrightarrow> (\<exists>p c k v r. g = InLeft p c k v r) \<or> t = PLeaf \<and> fsibling g = PLeaf"
    and "rbt_left h (above n (g # fs)) = Some (root_ptr n t) \<or> rbt_right h (above n (g # fs)) = Some (root_ptr n t)"
  subgoal using assms by (cases g) (auto simp: rbt_rep_read)
  subgoal using assms by (cases g) (auto simp: rbt_rep_read)
  subgoal using assms rbt_rep_distinct [OF assms] root_ptr_in [of n t] root_ptr_in [of n "fsibling g"]
    by (cases g) (auto simp: rbt_rep_read)
  subgoal using assms by (cases g) (auto simp: rbt_rep_read)
  done

lemmas rbt_read_above2 = rbt_read_above [where t = "plug [g'] t" for g' t, folded plug_Cons]

lemma invc_plug:
  "invc (plug fs t) \<and> pcolor (plug fs t) = Black \<longleftrightarrow> frames_c fs \<and> invc t \<and> (fcolor fs = Red \<longrightarrow> pcolor t = Black)"
  by (induction fs t rule: plug.induct) auto

lemma invh_plug: "invh (plug fs t) \<longleftrightarrow> invh t \<and> frames_h fs (bheight t)"
  by (induction fs t rule: plug.induct) auto

lemma red_black_plug:
  "red_black (plug fs t) \<longleftrightarrow> frames_c fs \<and> invc t \<and> (fcolor fs = Red \<longrightarrow> pcolor t = Black)
     \<and> invh t \<and> frames_h fs (bheight t)"
  using invc_plug [of fs t] by (auto simp: red_black_def invh_plug)

lemma pcolor_pmirror [simp]: "pcolor (pmirror t) = pcolor t"
  by (cases t) auto

lemma invc_pmirror [simp]: "invc (pmirror t) = invc t"
  by (induction t) auto

lemma invh_pmirror: "invh t \<Longrightarrow> invh (pmirror t) \<and> bheight (pmirror t) = bheight t"
  by (induction t) auto

lemma red_black_pmirror: "red_black t \<Longrightarrow> red_black (pmirror t)"
  by (simp add: red_black_def invh_pmirror)

lemma inorder_pmirror: "inorder (pmirror t) = rev (inorder t)"
  by (induction t) auto

end
