(* ===== verification/RbInserts.thy ===== *)
theory RbInserts
  imports RbReps
begin

section \<open>One step of insertFixup\<close>

lemma insertFixup_left_recolor_outer:
  assumes a: "rbt_rep n s f (plug fs (PNode (PNode (PNode a z cz kz vz b) p Red kp vp c) g Black kg vg (PNode d u Red ku vu e))) t"
  shows "\<exists>t'. insertFixup_left t z = Some (t', g) \<and>
    rbt_rep n s f (plug fs (PNode (PNode (PNode a z cz kz vz b) p Black kp vp c) g Red kg vg (PNode d u Black ku vu e))) t'"
proof -
  note r0 = rbt_read_ll [OF a] rbt_read_l [OF a] rbt_rep_read [OF a] rbt_read_r [OF a]
  obtain t1 where t1: "rbt_set_color t p Black = Some t1"
    and 1: "rbt_rep n s f (plug fs (PNode (PNode (PNode a z cz kz vz b) p Black kp vp c) g Black kg vg (PNode d u Red ku vu e))) t1"
    using rbt_color_l [OF a] by blast
  obtain t2 where t2: "rbt_set_color t1 u Black = Some t2"
    and 2: "rbt_rep n s f (plug fs (PNode (PNode (PNode a z cz kz vz b) p Black kp vp c) g Black kg vg (PNode d u Black ku vu e))) t2"
    using rbt_color_r [OF 1] by blast
  note r2 = rbt_read_ll [OF 2] rbt_read_l [OF 2]
  obtain t3 where t3: "rbt_set_color t2 g Red = Some t3"
    and 3: "rbt_rep n s f (plug fs (PNode (PNode (PNode a z cz kz vz b) p Black kp vp c) g Red kg vg (PNode d u Black ku vu e))) t3"
    using rbt_rep_color [OF 2] by blast
  note r3 = rbt_read_ll [OF 3] rbt_read_l [OF 3]
  show ?thesis using 3  by (simp add: insertFixup_left_def r0 t1 t2 r2 t3 r3 )
qed

lemma insertFixup_left_recolor_inner:
  assumes a: "rbt_rep n s f (plug fs (PNode (PNode c p Red kp vp (PNode a z cz kz vz b)) g Black kg vg (PNode d u Red ku vu e))) t"
  shows "\<exists>t'. insertFixup_left t z = Some (t', g) \<and>
    rbt_rep n s f (plug fs (PNode (PNode c p Black kp vp (PNode a z cz kz vz b)) g Red kg vg (PNode d u Black ku vu e))) t'"
proof -
  note r0 = rbt_read_lr [OF a] rbt_read_l [OF a] rbt_rep_read [OF a] rbt_read_r [OF a]
  obtain t1 where t1: "rbt_set_color t p Black = Some t1"
    and 1: "rbt_rep n s f (plug fs (PNode (PNode c p Black kp vp (PNode a z cz kz vz b)) g Black kg vg (PNode d u Red ku vu e))) t1"
    using rbt_color_l [OF a] by blast
  obtain t2 where t2: "rbt_set_color t1 u Black = Some t2"
    and 2: "rbt_rep n s f (plug fs (PNode (PNode c p Black kp vp (PNode a z cz kz vz b)) g Black kg vg (PNode d u Black ku vu e))) t2"
    using rbt_color_r [OF 1] by blast
  note r2 = rbt_read_lr [OF 2] rbt_read_l [OF 2]
  obtain t3 where t3: "rbt_set_color t2 g Red = Some t3"
    and 3: "rbt_rep n s f (plug fs (PNode (PNode c p Black kp vp (PNode a z cz kz vz b)) g Red kg vg (PNode d u Black ku vu e))) t3"
    using rbt_rep_color [OF 2] by blast
  note r3 = rbt_read_lr [OF 3] rbt_read_l [OF 3]
  show ?thesis using 3  by (simp add: insertFixup_left_def r0 t1 t2 r2 t3 r3 )
qed

lemma insertFixup_left_rotate_outer:
  assumes a: "rbt_rep n s f (plug fs (PNode (PNode (PNode a z cz kz vz b) p Red kp vp c) g Black kg vg e)) t" and "rn_Color s = Black" and "pcolor e = Black"
  shows "\<exists>t'. insertFixup_left t z = Some (t', z) \<and>
    rbt_rep n s f (plug fs (PNode (PNode a z cz kz vz b) p Black kp vp (PNode c g Red kg vg e))) t'"
proof -
  have ne: "z \<noteq> root_ptr n c" using rbt_rep_distinct [OF a] root_ptr_in [of n c] by auto
  note r0 = rbt_read_ll [OF a] rbt_read_l [OF a] rbt_rep_read [OF a]
  obtain me where me: "rt_heap t (root_ptr n e) = Some me" "rn_Color me = pcolor e"
    using rbt_pcolor_r [OF a] assms(2) by blast
  obtain t1 where t1: "rbt_set_color t p Black = Some t1"
    and 1: "rbt_rep n s f (plug fs (PNode (PNode (PNode a z cz kz vz b) p Black kp vp c) g Black kg vg e)) t1"
    using rbt_color_l [OF a] by blast
  note r1 = rbt_read_ll [OF 1] rbt_read_l [OF 1]
  obtain t2 where t2: "rbt_set_color t1 g Red = Some t2"
    and 2: "rbt_rep n s f (plug fs (PNode (PNode (PNode a z cz kz vz b) p Black kp vp c) g Red kg vg e)) t2"
    using rbt_rep_color [OF 1] by blast
  note r2 = rbt_read_ll [OF 2] rbt_read_l [OF 2]
  obtain t3 where t3: "rightRotate t2 g = Some t3"
    and 3: "rbt_rep n s f (plug fs (PNode (PNode a z cz kz vz b) p Black kp vp (PNode c g Red kg vg e))) t3"
    using rbt_rep_rotate_right [OF 2] by blast
  show ?thesis using 3 ne assms(3) by (simp add: insertFixup_left_def r0 t1 r1 t2 r2 t3 me)
qed

lemma insertFixup_left_rotate_inner:
  assumes a: "rbt_rep n s f (plug fs (PNode (PNode c p Red kp vp (PNode a z cz kz vz b)) g Black kg vg e)) t" and "rn_Color s = Black" and "pcolor e = Black"
  shows "\<exists>t'. insertFixup_left t z = Some (t', p) \<and>
    rbt_rep n s f (plug fs (PNode (PNode c p Red kp vp a) z Black kz vz (PNode b g Red kg vg e))) t'"
proof -
  note r0 = rbt_read_lr [OF a] rbt_read_l [OF a] rbt_rep_read [OF a]
  obtain me where me: "rt_heap t (root_ptr n e) = Some me" "rn_Color me = pcolor e"
    using rbt_pcolor_r [OF a] assms(2) by blast
  obtain t1 where t1: "leftRotate t p = Some t1"
    and 1: "rbt_rep n s f (plug fs (PNode (PNode (PNode c p Red kp vp a) z cz kz vz b) g Black kg vg e)) t1"
    using rbt_rotate_l [OF a] by blast
  note r1 = rbt_read_ll [OF 1] rbt_read_l [OF 1]
  obtain t2 where t2: "rbt_set_color t1 z Black = Some t2"
    and 2: "rbt_rep n s f (plug fs (PNode (PNode (PNode c p Red kp vp a) z Black kz vz b) g Black kg vg e)) t2"
    using rbt_color_l [OF 1] by blast
  note r2 = rbt_read_ll [OF 2] rbt_read_l [OF 2]
  obtain t3 where t3: "rbt_set_color t2 g Red = Some t3"
    and 3: "rbt_rep n s f (plug fs (PNode (PNode (PNode c p Red kp vp a) z Black kz vz b) g Red kg vg e)) t3"
    using rbt_rep_color [OF 2] by blast
  note r3 = rbt_read_ll [OF 3] rbt_read_l [OF 3]
  obtain t4 where t4: "rightRotate t3 g = Some t4"
    and 4: "rbt_rep n s f (plug fs (PNode (PNode c p Red kp vp a) z Black kz vz (PNode b g Red kg vg e))) t4"
    using rbt_rep_rotate_right [OF 3] by blast
  show ?thesis using 4 assms(3) by (simp add: insertFixup_left_def r0 t1 r1 t2 r2 t3 r3 t4 me)
qed

section \<open>The loop of insertFixup\<close>

text \<open>The node \<open>z\<close> is red at depth \<open>m\<close> and all is well but for its parent, which may be red, or the
  root, if it is \<open>z\<close>.\<close>

definition ins_inv ::
  "ptr \<Rightarrow> ('k, 'v) rbt_node \<Rightarrow> ptr \<Rightarrow> ('k \<times> 'v) list \<Rightarrow> nat \<Rightarrow> ptr \<Rightarrow> ('k, 'v) rbt_tree \<Rightarrow> bool" where
  "ins_inv n s f E m z t \<longleftrightarrow> rn_Color s = Black \<and> (\<exists>fs l k v r. rbt_rep n s f (plug fs (PNode l z Red k v r)) t
     \<and> left_of fs @ inorder l @ (k, v) # inorder r @ right_of fs = E \<and> frames_c fs \<and> invc (PNode l z Red k v r)
     \<and> invh (PNode l z Red k v r) \<and> frames_h fs (bheight l) \<and> length fs = m)"

lemma ins_invI:
  "rn_Color s = Black \<Longrightarrow> rbt_rep n s f T t \<Longrightarrow> T = plug fs (PNode l z Red k v r) \<Longrightarrow> inorder T = E
    \<Longrightarrow> frames_c fs \<Longrightarrow> invc (PNode l z Red k v r) \<Longrightarrow> invh (PNode l z Red k v r) \<Longrightarrow> frames_h fs (bheight l)
    \<Longrightarrow> ins_inv n s f E (length fs) z t"
  unfolding ins_inv_def by (intro conjI exI [of _ fs] exI [of _ l] exI [of _ k] exI [of _ v] exI [of _ r]) simp_all

lemma insertFixup_left_step:
  assumes "ins_inv n s f E m z t"
    and reads: "rbt_parent t z = Some p" "rbt_color t p = Some Red" "rbt_parent t p = Some g" "rbt_left t g = Some p"
  shows "\<exists>t' z' m'. insertFixup_left t z = Some (t', z') \<and> ins_inv n s f E m' z' t' \<and> m' < m"
proof -
  obtain fs l k v r where s: "rn_Color s = Black" and rep: "rbt_rep n s f (plug fs (PNode l z Red k v r)) t"
    and E: "left_of fs @ inorder l @ (k, v) # inorder r @ right_of fs = E"
    and inv: "frames_c fs" "invc (PNode l z Red k v r)" "invh (PNode l z Red k v r)" "frames_h fs (bheight l)"
    and m: "length fs = m"
    using assms(1) unfolding ins_inv_def by blast
  have p: "p = above n fs" using rbt_rep_read [OF rep] reads(1) by simp
  have "fs \<noteq> []" using p reads(2) s rbt_rep_fields(3) [OF rep] by auto
  then obtain f1 fs1 where fs1: "fs = f1 # fs1" by (cases fs) auto
  note a1 = rbt_read_above [OF rep [unfolded fs1]]
  have c1: "fcolor [f1] = Red" using a1(1) p reads(2) fs1 by (cases f1) auto
  then have "fs1 \<noteq> []" using inv(1) fs1 by auto
  then obtain f2 gs where fs2: "fs1 = f2 # gs" by (cases fs1) auto
  note a2 = rbt_read_above2 [OF rep [unfolded fs1 fs2]]
  have g: "g = above n (f2 # gs)" using a1(2) p reads(3) fs1 fs2 by auto
  have ptr: "root_ptr n (plug [f1] (PNode l z Red k v r)) = p" using p fs1 by (cases f1) auto
  obtain kg vg u where f2: "f2 = InLeft g Black kg vg u"
  proof -
    have "rbt_left t (above n (f2 # gs)) = Some (root_ptr n (plug [f1] (PNode l z Red k v r)))"
      using reads(4) g ptr by simp
    then have "\<exists>p c k v r. f2 = InLeft p c k v r" using a2(3) by (cases f1) auto
    then show thesis using that g inv(1) c1 fs1 fs2 by auto
  qed
  obtain kp vp c where f1: "f1 = InLeft p Red kp vp c \<or> f1 = InRight c p Red kp vp"
    using p c1 fs1 by (cases f1) auto
  note fs = fs1 fs2 f2
  let ?z = "PNode l z Red k v r"
  have m': "length gs < m" "Suc (length gs) < m" using m fs by auto
  show ?thesis
  proof (cases "pcolor u")
    case Red
    then obtain d u' ku vu e where u: "u = PNode d u' Red ku vu e" by (cases u) auto
    have "\<exists>t'. insertFixup_left t z = Some (t', g) \<and> ins_inv n s f E (length gs) g t'" using f1
    proof
      assume f1: "f1 = InLeft p Red kp vp c"
      with rep fs u have "rbt_rep n s f (plug gs (PNode (PNode ?z p Red kp vp c) g Black kg vg (PNode d u' Red ku vu e))) t" by simp
      from insertFixup_left_recolor_outer [OF this] f1 fs u s E inv show ?thesis
        by (fastforce intro: ins_invI [where fs = gs])
    next
      assume f1: "f1 = InRight c p Red kp vp"
      with rep fs u have "rbt_rep n s f (plug gs (PNode (PNode c p Red kp vp ?z) g Black kg vg (PNode d u' Red ku vu e))) t" by simp
      from insertFixup_left_recolor_inner [OF this] f1 fs u s E inv show ?thesis
        by (fastforce intro: ins_invI [where fs = gs])
    qed
    with m' show ?thesis by blast
  next
    case Black
    have "\<exists>t' z'. insertFixup_left t z = Some (t', z') \<and> ins_inv n s f E (Suc (length gs)) z' t'" using f1
    proof
      assume f1: "f1 = InLeft p Red kp vp c"
      with rep fs have "rbt_rep n s f (plug gs (PNode (PNode ?z p Red kp vp c) g Black kg vg u)) t" by simp
      from insertFixup_left_rotate_outer [OF this s Black] f1 fs Black s E inv show ?thesis
        by (fastforce intro: ins_invI [where fs = "InLeft p Black kp vp (PNode c g Red kg vg u) # gs", simplified])
    next
      assume f1: "f1 = InRight c p Red kp vp"
      with rep fs have "rbt_rep n s f (plug gs (PNode (PNode c p Red kp vp ?z) g Black kg vg u)) t" by simp
      from insertFixup_left_rotate_inner [OF this s Black] f1 fs Black s E inv show ?thesis
        by (fastforce intro: ins_invI [where fs = "InLeft z Black k v (PNode r g Red kg vg u) # gs", simplified])
    qed
    with m' show ?thesis by blast
  qed
qed

lemma frames_c_mirror [simp]: "frames_c (map fmirror fs) = frames_c fs"
proof (induction fs)
  case (Cons g fs)
  have "fcolor (map fmirror fs) = fcolor fs" by (cases "(0::nat, fs)" rule: above.cases) auto
  with Cons show ?case by (cases g) auto
qed simp

lemma frames_h_mirror: "frames_h fs h \<Longrightarrow> frames_h (map fmirror fs) h"
proof (induction fs arbitrary: h)
  case (Cons g fs)
  then show ?case using invh_pmirror by (cases g) auto
qed simp

lemma left_of_mirror: "left_of (map fmirror fs) = rev (right_of fs) \<and> right_of (map fmirror fs) = rev (left_of fs)"
proof (induction fs)
  case (Cons g fs)
  then show ?case by (cases g) (auto simp: inorder_pmirror)
qed simp

lemma ins_inv_mirror: "ins_inv n s f E m z t \<Longrightarrow> ins_inv n (swap_node s) f (rev E) m z (rbt_mirror t)"
proof -
  assume "ins_inv n s f E m z t"
  then obtain fs l k v r where s: "rn_Color s = Black" and rep: "rbt_rep n s f (plug fs (PNode l z Red k v r)) t"
    and E: "left_of fs @ inorder l @ (k, v) # inorder r @ right_of fs = E"
    and inv: "frames_c fs" "invc (PNode l z Red k v r)" "invh (PNode l z Red k v r)" "frames_h fs (bheight l)"
    and m: "length fs = m"
    unfolding ins_inv_def by blast
  from rbt_rep_mirror [OF rep] have "rbt_rep n (swap_node s) f (plug (map fmirror fs) (PNode (pmirror r) z Red k v (pmirror l))) (rbt_mirror t)"
    by (simp add: pmirror_plug)
  from ins_invI [OF _ this refl, of "rev E"] s inv E m invh_pmirror [of l] invh_pmirror [of r]
    frames_h_mirror [OF inv(4)] left_of_mirror [of fs]
  show ?thesis by (auto simp: inorder_pmirror)
qed

lemma insertFixup_right_step:
  assumes "ins_inv n s f E m z t"
    and "rbt_parent t z = Some p" "rbt_color t p = Some Red" "rbt_parent t p = Some g" "rbt_right t g = Some p"
  shows "\<exists>t' z' m'. insertFixup_right t z = Some (t', z') \<and> ins_inv n s f E m' z' t' \<and> m' < m"
proof -
  have "\<exists>t' z' m'. insertFixup_left (rbt_mirror t) z = Some (t', z')
    \<and> ins_inv n (swap_node s) f (rev E) m' z' t' \<and> m' < m"
    by (rule insertFixup_left_step [OF ins_inv_mirror [OF assms(1)], where p = p and g = g]) (use assms(2-5) in auto)
  then obtain t' z' m' where g: "insertFixup_right t z = Some (t', z')"
    and "ins_inv n (swap_node s) f (rev E) m' z' (rbt_mirror t')" "m' < m"
    unfolding insertFixup_mirror by auto
  with ins_inv_mirror [OF this(2)] show ?thesis by auto
qed

lemma insertFixup_loop_exact:
  "ins_inv n s f E m z t \<Longrightarrow> m < fuel \<Longrightarrow>
    \<exists>t' z' m'. insertFixup_loop fuel t z = Some t' \<and> ins_inv n s f E m' z' t'
      \<and> (\<exists>p. rbt_parent t' z' = Some p \<and> rbt_color t' p = Some Black)"
proof (induction fuel arbitrary: m z t)
  case (Suc fuel)
  from Suc.prems(1) obtain fs l k v r where s: "rn_Color s = Black"
    and rep: "rbt_rep n s f (plug fs (PNode l z Red k v r)) t" and c: "frames_c fs"
    unfolding ins_inv_def by blast
  have zp: "rbt_parent t z = Some (above n fs)" using rbt_rep_read [OF rep] by simp
  show ?case
  proof (cases "rbt_color t (above n fs) = Some Red")
    case False
    obtain c where "rbt_color t (above n fs) = Some c"
      using rbt_rep_fields(3) [OF rep] rep by (cases fs) (auto dest: rbt_read_above(1))
    with False have black: "rbt_color t (above n fs) = Some Black" by (cases c) auto
    with zp have "insertFixup_loop (Suc fuel) t z = Some t" by auto
    with black zp Suc.prems(1) show ?thesis by blast
  next
    case True
    then obtain g gs where fs: "fs = g # gs" using s rbt_rep_fields(3) [OF rep] by (cases fs) auto
    have red: "fcolor fs = Red" using True fs rbt_read_above(1) [OF rep [unfolded fs]] by simp
    then have "gs \<noteq> []" using c fs by (cases g) auto
    then obtain g2 hs where gs: "gs = g2 # hs" by (cases gs) auto
    note a1 = rbt_read_above [OF rep [unfolded fs]] and a2 = rbt_read_above2 [OF rep [unfolded fs gs]]
    let ?p = "above n fs" and ?g = "above n gs"
    have "root_ptr n (plug [g] (PNode l z Red k v r)) = ?p" using fs by (cases g) auto
    then have side: "rbt_left t ?g = Some ?p \<or> rbt_right t ?g = Some ?p" using a2(4) gs by simp
    obtain q where q: "rbt_left t ?g = Some q" using a2(2) gs by auto
    have pg: "rbt_parent t ?p = Some ?g" using a1(2) fs by simp
    have "\<exists>t' z' m'. (if ?p = q then insertFixup_left t z else insertFixup_right t z) = Some (t', z')
      \<and> ins_inv n s f E m' z' t' \<and> m' < m"
    proof (cases "?p = q")
      case left: True
      show ?thesis using insertFixup_left_step [OF Suc.prems(1) zp True pg] q left by simp
    next
      case right: False
      then show ?thesis using insertFixup_right_step [OF Suc.prems(1) zp True pg] q side by auto
    qed
    then obtain t' z' m' where step: "(if ?p = q then insertFixup_left t z else insertFixup_right t z) = Some (t', z')"
      and inv: "ins_inv n s f E m' z' t'" and less: "m' < fuel" using Suc.prems(2) by fastforce
    have "insertFixup_loop (Suc fuel) t z = insertFixup_loop fuel t' z'" using step zp pg q True by auto
    with Suc.IH [OF inv less] show ?thesis by simp
  qed
qed simp

lemma insertFixup_exact:
  assumes "ins_inv n s f E m z t" and "m < f"
  shows "\<exists>t' T. insertFixup t z = Some t' \<and> rbt_rep n s f T t' \<and> inorder T = E \<and> red_black T"
proof -
  have "rt_fresh t = f" using assms(1) by (auto simp: ins_inv_def rbt_rep_def)
  with insertFixup_loop_exact [OF assms] obtain t1 z1 m1 p where run: "insertFixup_loop (rt_fresh t) t z = Some t1"
    and inv: "ins_inv n s f E m1 z1 t1" and p: "rbt_parent t1 z1 = Some p" "rbt_color t1 p = Some Black" by blast
  from inv obtain fs l k v r where rep: "rbt_rep n s f (plug fs (PNode l z1 Red k v r)) t1"
    and E: "left_of fs @ inorder l @ (k, v) # inorder r @ right_of fs = E"
    and c: "frames_c fs" "invc (PNode l z1 Red k v r)" "invh (PNode l z1 Red k v r)" "frames_h fs (bheight l)"
    unfolding ins_inv_def by blast
  have pa: "p = above n fs" using p(1) rbt_rep_read [OF rep] by simp
  obtain l' p' c' k' v' r' where T: "plug fs (PNode l z1 Red k v r) = PNode l' p' c' k' v' r'"
    and rb: "red_black (PNode l' p' Black k' v' r')"
  proof (cases fs)
    case Nil
    with c that [of l z1 Red k v r] show thesis by (auto simp: red_black_def)
  next
    case (Cons g gs)
    have "fcolor fs = Black" using rbt_read_above(1) [OF rep [unfolded Cons]] p(2) pa Cons by auto
    with c have rb: "red_black (plug fs (PNode l z1 Red k v r))" by (simp add: red_black_plug)
    obtain l' p' c' k' v' r' where T: "plug fs (PNode l z1 Red k v r) = PNode l' p' c' k' v' r'"
      by (metis ptree.exhaust plug_not_leaf(1))
    with rb that [OF T] show thesis by (simp add: red_black_def)
  qed
  from rep T have rep': "rbt_rep n s f (plug [] (PNode l' p' c' k' v' r')) t1" by simp
  obtain t2 where "rbt_set_color t1 p' Black = Some t2" "rbt_rep n s f (plug [] (PNode l' p' Black k' v' r')) t2"
    using rbt_rep_color [OF rep'] by blast
  moreover have "inorder (PNode l' p' Black k' v' r') = E"
    using arg_cong [OF T, of inorder] E by simp
  ultimately show ?thesis using run rb rbt_rep_fields(4) [OF rep'] by (auto simp: insertFixup_def)
qed

section \<open>Insert\<close>

lemma length_addrs_rep: "rbt_rep n s f T t \<Longrightarrow> length (addrs T) + 2 \<le> f"
proof -
  assume r: "rbt_rep n s f T t"
  then have "set (n # 0 # addrs T) \<subseteq> {..<f}" "distinct (n # 0 # addrs T)" by (auto simp: rbt_rep_def)
  then have "length (n # 0 # addrs T) \<le> card {..<f}" by (metis card_mono distinct_card finite_lessThan)
  then show ?thesis by simp
qed

lemma length_frames_le: "length fs + length (addrs t) \<le> length (addrs (plug fs t))"
proof (induction fs t rule: plug.induct)
  case (2 p c k v r fs t)
  then show ?case by simp
qed simp_all

fun pheight :: "('k, 'v) ptree \<Rightarrow> nat" where
  "pheight PLeaf = 0"
| "pheight (PNode l p c k v r) = Suc (max (pheight l) (pheight r))"

lemma pheight_le: "pheight t \<le> length (addrs t)"
  by (induction t) auto

abbreviation keys_sorted :: "('k::linorder \<times> 'v) list \<Rightarrow> bool" where
  "keys_sorted E \<equiv> sorted (map fst E)"

lemma keys_sorted_node:
  assumes "keys_sorted (inorder (plug fs (PNode l p c k v r)))"
  shows "\<forall>e \<in> set (inorder l). fst e \<le> k" and "\<forall>e \<in> set (inorder r). k \<le> fst e"
  using assms by (auto simp: sorted_append)

text \<open>The descent ends in the leaf behind all keys at most the new one.\<close>

lemma rbt_descend_exact:
  assumes "in_heap (rt_heap t) n (above n fs) T" and "n \<notin> set (addrs T)" and "rt_Nil t = n"
    and "keys_sorted (inorder (plug fs T))" and "\<forall>e \<in> set (left_of fs). fst e \<le> key"
    and "\<forall>e \<in> set (right_of fs). key < fst e" and "pheight T < fuel"
  shows "\<exists>gs. rbt_descend fuel t key (above n fs) (root_ptr n T) = Some (above n gs) \<and> plug gs PLeaf = plug fs T
    \<and> (\<forall>e \<in> set (left_of gs). fst e \<le> key) \<and> (\<forall>e \<in> set (right_of gs). key < fst e)"
  using assms
proof (induction T arbitrary: fs fuel)
  case PLeaf
  then show ?case by (cases fuel) auto
next
  case (PNode l p c k v r)
  then obtain fuel' where fuel: "fuel = Suc fuel'" by (cases fuel) auto
  show ?case
  proof (cases "key < k")
    case True
    have "\<forall>e \<in> set (inorder r). key < fst e"
      using keys_sorted_node(2) [OF PNode.prems(4)] True by (blast intro: less_le_trans)
    then have "\<exists>gs. rbt_descend fuel' t key (above n (InLeft p c k v r # fs)) (root_ptr n l) = Some (above n gs)
      \<and> plug gs PLeaf = plug (InLeft p c k v r # fs) l
      \<and> (\<forall>e \<in> set (left_of gs). fst e \<le> key) \<and> (\<forall>e \<in> set (right_of gs). key < fst e)"
      using PNode.prems True fuel by (intro PNode.IH(1)) (auto simp: sorted_append)
    with PNode.prems True fuel show ?thesis by auto
  next
    case False
    have "\<forall>e \<in> set (inorder l). fst e \<le> key"
      using keys_sorted_node(1) [OF PNode.prems(4)] False by (blast intro: order_trans leI)
    then have "\<exists>gs. rbt_descend fuel' t key (above n (InRight l p c k v # fs)) (root_ptr n r) = Some (above n gs)
      \<and> plug gs PLeaf = plug (InRight l p c k v # fs) r
      \<and> (\<forall>e \<in> set (left_of gs). fst e \<le> key) \<and> (\<forall>e \<in> set (right_of gs). key < fst e)"
      using PNode.prems False fuel by (intro PNode.IH(2)) (auto simp: sorted_append)
    with PNode.prems False fuel show ?thesis by auto
  qed
qed

lemma rbt_rep_new:
  "zeroes = (zk, zv) \<Longrightarrow> rbt_rep 1 \<lparr>rn_Key = zk, rn_Value = zv, rn_Color = Black, rn_Left = 0, rn_Right = 0, rn_Parent = 0\<rparr> 2
    PLeaf (NewRedBlackTree zk zv)"
  by (simp add: rbt_rep_def NewRedBlackTree_def)

text \<open>Linking a fresh node below a leaf.\<close>

lemma rbt_link_leaf:
  fixes t :: "('k::linorder, 'v) rbt_tree"
  assumes "rbt_rep n s f (plug fs PLeaf) t"
    and t1: "t1 = t\<lparr>rt_heap := (rt_heap t)(f \<mapsto> \<lparr>rn_Key = k, rn_Value = v, rn_Color = Red, rn_Left = n,
      rn_Right = n, rn_Parent = above n fs\<rparr>), rt_fresh := Suc f\<rparr>"
    and side: "\<And>p c k' v' r. fs = InLeft p c k' v' r # tl fs \<Longrightarrow> k < k'"
      "\<And>l p c k' v'. fs = InRight l p c k' v' # tl fs \<Longrightarrow> k' \<le> k"
  shows "\<exists>t2. (if above n fs = n then Some (t1\<lparr>rt_Root := f\<rparr>)
      else do { m \<leftarrow> rt_heap t1 (above n fs);
                if k < rn_Key m then rbt_set_left t1 (above n fs) f else rbt_set_right t1 (above n fs) f }) = Some t2
    \<and> rbt_rep n s (Suc f) (plug fs (PNode PLeaf f Red k v PLeaf)) t2"
proof -
  have fresh: "f \<notin> set (frame_addrs fs)" "f \<noteq> n" "0 < f" using assms(1) by (auto simp: rbt_rep_def)
  note d = rbt_rep_distinct [OF assms(1)]
  show ?thesis
  proof (cases fs)
    case Nil
    with assms(1) fresh show ?thesis by (auto simp: rbt_rep_def t1)
  next
    case (Cons g gs)
    show ?thesis
    proof (cases g)
      case (InLeft p c k' v' r)
      with side(1) Cons have "k < k'" by simp
      with assms(1) d fresh Cons InLeft show ?thesis
        by (auto simp: rbt_rep_def t1 in_heap_plug root_ptr_plug rbt_set_def intro: less_SucI)
    next
      case (InRight l p c k' v')
      with side(2) [of l p c k' v'] Cons have "\<not> k < k'" by simp
      with assms(1) d fresh Cons InRight show ?thesis
        by (auto simp: rbt_rep_def t1 in_heap_plug root_ptr_plug rbt_set_def intro: less_SucI)
    qed
  qed
qed

definition insert_sorted :: "'k::linorder \<Rightarrow> 'v \<Rightarrow> ('k \<times> 'v) list \<Rightarrow> ('k \<times> 'v) list" where
  "insert_sorted k v E = takeWhile (\<lambda>e. fst e \<le> k) E @ (k, v) # dropWhile (\<lambda>e. fst e \<le> k) E"

lemma keys_sorted_insert:
  assumes "keys_sorted E"
  shows "keys_sorted (takeWhile (\<lambda>e. fst e \<le> k) E @ (k, v) # dropWhile (\<lambda>e. fst e \<le> k) E)"
  using assms
proof (induction E)
  case (Cons e E)
  then show ?case by (auto dest: set_takeWhileD set_dropWhileD)
qed simp

lemma insert_sorted_split:
  assumes "\<forall>e \<in> set xs. fst e \<le> k" and "\<forall>e \<in> set ys. k < fst e"
  shows "insert_sorted k v (xs @ ys) = xs @ (k, v) # ys"
proof -
  have "takeWhile (\<lambda>e. fst e \<le> k) ys = [] \<and> dropWhile (\<lambda>e. fst e \<le> k) ys = ys"
    using assms(2) by (cases ys) auto
  with assms(1) show ?thesis by (simp add: insert_sorted_def)
qed

text \<open>The relation between the code's state and the sorted list of its entries.\<close>

definition rbt_entries :: "('k::linorder, 'v) rbt_tree \<Rightarrow> ('k \<times> 'v) list \<Rightarrow> bool" where
  "rbt_entries t E \<longleftrightarrow> (\<exists>n s f T. rbt_rep n s f T t \<and> rn_Color s = Black \<and> red_black T \<and> inorder T = E \<and> keys_sorted E)"

lemma rbt_entries_new: "rbt_entries (NewRedBlackTree zk zv) []"
  unfolding rbt_entries_def using rbt_rep_new [OF refl, of zk zv]
  by (metis (no_types, lifting) inorder.simps(1) red_black_def invc.simps(1) invh.simps(1) pcolor.simps(1)
      rbt_node.select_convs(3) list.simps(8) sorted_simps(1))

lemma rbt_Insert_entries:
  assumes "rbt_entries t E"
  shows "\<exists>t'. rbt_Insert t key v = Some t' \<and> rbt_entries t' (insert_sorted key v E) \<and> rt_fresh t' = Suc (rt_fresh t)"
proof -
  from assms obtain n s f T where rep: "rbt_rep n s f T t" and s: "rn_Color s = Black" and rb: "red_black T"
    and E: "inorder T = E" and sorted: "keys_sorted E" unfolding rbt_entries_def by blast
  have fields: "rt_Nil t = n" "rt_fresh t = f" "rt_Root t = root_ptr n T" "n \<notin> set (addrs T)" "f \<notin> set (addrs T)"
    using rep by (auto simp: rbt_rep_def)
  let ?z = "\<lparr>rn_Key = key, rn_Value = v, rn_Color = Red, rn_Left = n, rn_Right = n, rn_Parent = n\<rparr>"
  define t0 where "t0 = t\<lparr>rt_heap := (rt_heap t)(f \<mapsto> ?z), rt_fresh := Suc f\<rparr>"
  have t0: "rt_Nil t0 = n" "rt_fresh t0 = Suc f" "rt_Root t0 = root_ptr n T"
    using fields by (simp_all add: t0_def)
  have "in_heap (rt_heap t0) n (above n []) T" using rep fields(5) by (simp add: rbt_rep_def t0_def)
  moreover have "pheight T < Suc f" using pheight_le [of T] length_addrs_rep [OF rep] by linarith
  ultimately obtain gs where run: "rbt_descend (Suc f) t0 key n (root_ptr n T) = Some (above n gs)"
    and gs: "plug gs PLeaf = T" "\<forall>e \<in> set (left_of gs). fst e \<le> key" "\<forall>e \<in> set (right_of gs). key < fst e"
    using rbt_descend_exact [of t0 n "[]" T key "Suc f"] fields t0 E sorted by (auto simp: rbt_rep_def)
  define t1 where "t1 = t\<lparr>rt_heap := (rt_heap t)(f \<mapsto> ?z\<lparr>rn_Parent := above n gs\<rparr>), rt_fresh := Suc f\<rparr>"
  have set: "rbt_set_parent t0 f (above n gs) = Some t1" by (simp add: rbt_set_def t0_def t1_def)
  have "\<exists>t2. (if above n gs = n then Some (t1\<lparr>rt_Root := f\<rparr>)
      else do { m \<leftarrow> rt_heap t1 (above n gs);
                if key < rn_Key m then rbt_set_left t1 (above n gs) f else rbt_set_right t1 (above n gs) f }) = Some t2
    \<and> rbt_rep n s (Suc f) (plug gs (PNode PLeaf f Red key v PLeaf)) t2"
  proof (rule rbt_link_leaf)
    show "rbt_rep n s f (plug gs PLeaf) t" using rep gs(1) by simp
    show "key < k'" if "gs = InLeft p c k' v' r # tl gs" for p c k' v' r
      using gs(3) that by (metis fst_conv list.set_intros(1) right_of.simps(2))
    show "k' \<le> key" if "gs = InRight l p c k' v' # tl gs" for l p c k' v'
      using gs(2) that by (metis fst_conv in_set_conv_decomp left_of.simps(3) append_assoc)
  qed (simp add: t1_def)
  then obtain t2 where link: "(if above n gs = n then Some (t1\<lparr>rt_Root := f\<rparr>)
      else do { m \<leftarrow> rt_heap t1 (above n gs);
                if key < rn_Key m then rbt_set_left t1 (above n gs) f else rbt_set_right t1 (above n gs) f }) = Some t2"
    and rep2: "rbt_rep n s (Suc f) (plug gs (PNode PLeaf f Red key v PLeaf)) t2" by blast
  have E': "inorder (plug gs (PNode PLeaf f Red key v PLeaf)) = insert_sorted key v E"
    using insert_sorted_split [OF gs(2,3), of v] gs(1) E by auto
  have "ins_inv n s (Suc f) (insert_sorted key v E) (length gs) f t2"
    using rb gs(1) s E' by (intro ins_invI [OF _ rep2 refl]) (auto simp: red_black_plug [of gs PLeaf, simplified])
  moreover have "length gs < Suc f"
    using length_frames_le [of gs PLeaf] length_addrs_rep [OF rep] gs(1) by simp
  ultimately obtain t' T' where fix_: "insertFixup t2 f = Some t'" and rep': "rbt_rep n s (Suc f) T' t'"
    and T': "inorder T' = insert_sorted key v E" "red_black T'" using insertFixup_exact by blast
  have "rbt_Insert t key v = do {
      y \<leftarrow> rbt_descend (Suc f) t0 key n (root_ptr n T);
      t \<leftarrow> rbt_set_parent t0 f y;
      t \<leftarrow> (if y = rt_Nil t then Some (t\<lparr>rt_Root := f\<rparr>)
           else do { m \<leftarrow> rt_heap t y; if key < rn_Key m then rbt_set_left t y f else rbt_set_right t y f });
      insertFixup t f }"
    unfolding rbt_Insert_def Let_def fields(1,2) t0_def [symmetric] t0 by (rule refl)
  moreover have "rt_Nil t1 = n" by (simp add: t1_def fields)
  ultimately have "rbt_Insert t key v = Some t'" using link fix_ by (simp add: run set del: rbt_descend.simps)
  moreover have "keys_sorted (insert_sorted key v E)"
    unfolding insert_sorted_def using sorted by (rule keys_sorted_insert)
  ultimately show ?thesis using rep' T' s fields rbt_rep_fields(2) [OF rep'] unfolding rbt_entries_def by auto
qed

end
