(* ===== verification/RbDeletes.thy ===== *)
theory RbDeletes
  imports RbInserts
begin

section \<open>One step of deleteFixup\<close>

lemma deleteFixup_left_red_red:
  assumes a: "rbt_rep n s f (plug fs (PNode T p Black kp vp (PNode (PNode a q Black kq vq b) w Red kw vw d))) t" and x: "T = PLeaf \<longrightarrow> rn_Parent s = p"
  shows "\<exists>t'. deleteFixup_left_red t (root_ptr n T) = Some (t', q) \<and>
    rbt_rep n s f (plug fs (PNode (PNode T p Red kp vp (PNode a q Black kq vq b)) w Black kw vw d)) t'"
proof -
  note r0 = rbt_parent_l [OF a x] rbt_rep_read [OF a] rbt_read_r [OF a]
  obtain t1 where t1: "rbt_set_color t w Black = Some t1"
    and 1: "rbt_rep n s f (plug fs (PNode T p Black kp vp (PNode (PNode a q Black kq vq b) w Black kw vw d))) t1"
    using rbt_color_r [OF a] by blast
  note r1 = rbt_parent_l [OF 1 x] rbt_rep_read [OF 1] rbt_read_r [OF 1]
  obtain t2 where t2: "rbt_set_color t1 p Red = Some t2"
    and 2: "rbt_rep n s f (plug fs (PNode T p Red kp vp (PNode (PNode a q Black kq vq b) w Black kw vw d))) t2"
    using rbt_rep_color [OF 1] by blast
  note r2 = rbt_parent_l [OF 2 x] rbt_rep_read [OF 2] rbt_read_r [OF 2]
  obtain t3 where t3: "leftRotate t2 p = Some t3"
    and 3: "rbt_rep n s f (plug fs (PNode (PNode T p Red kp vp (PNode a q Black kq vq b)) w Black kw vw d)) t3"
    using rbt_rep_rotate [OF 2] by blast
  note r3 = rbt_parent_ll [OF 3 x] rbt_read_l [OF 3] rbt_rep_read [OF 3]
  show ?thesis using 3  by (simp add: deleteFixup_left_red_def r0 t1 r1 t2 r2 t3 r3 )
qed

lemma deleteFixup_left_red_black:
  assumes a: "rbt_rep n s f (plug fs (PNode T p cp kp vp (PNode a w Black kw vw d))) t" and x: "T = PLeaf \<longrightarrow> rn_Parent s = p"
  shows "\<exists>t'. deleteFixup_left_red t (root_ptr n T) = Some (t', w) \<and>
    rbt_rep n s f (plug fs (PNode T p cp kp vp (PNode a w Black kw vw d))) t'"
proof -
  note r0 = rbt_parent_l [OF a x] rbt_rep_read [OF a] rbt_read_r [OF a]
  show ?thesis using a  by (simp add: deleteFixup_left_red_def r0 )
qed

lemma deleteFixup_left_black_up:
  assumes a: "rbt_rep n s f (plug fs (PNode T p cp kp vp (PNode a w Black kw vw d))) t" and "rn_Color s = Black" and x: "T = PLeaf \<longrightarrow> rn_Parent s = p" and "pcolor a = Black" and "pcolor d = Black"
  shows "\<exists>t'. deleteFixup_left_black t (root_ptr n T) w = Some (t', p) \<and>
    rbt_rep n s f (plug fs (PNode T p cp kp vp (PNode a w Red kw vw d))) t'"
proof -
  note r0 = rbt_read_r [OF a]
  obtain ma where ma: "rt_heap t (root_ptr n a) = Some ma" "rn_Color ma = pcolor a"
    using rbt_pcolor_rl [OF a] assms(2) by blast
  obtain md where md: "rt_heap t (root_ptr n d) = Some md" "rn_Color md = pcolor d"
    using rbt_pcolor_rr [OF a] assms(2) by blast
  obtain t1 where t1: "rbt_set_color t w Red = Some t1"
    and 1: "rbt_rep n s f (plug fs (PNode T p cp kp vp (PNode a w Red kw vw d))) t1"
    using rbt_color_r [OF a] by blast
  note r1 = rbt_parent_l [OF 1 x] rbt_rep_read [OF 1]
  show ?thesis using 1 assms(4,5) by (simp add: deleteFixup_left_black_def r0 t1 r1 ma md)
qed

lemma deleteFixup_left_black_outer:
  assumes a: "rbt_rep n s f (plug fs (PNode T p cp kp vp (PNode a w Black kw vw (PNode d q Red kq vq e)))) t" and "rn_Color s = Black" and x: "T = PLeaf \<longrightarrow> rn_Parent s = p"
  shows "\<exists>t'. deleteFixup_left_black t (root_ptr n T) w = Some (t', rt_Root t') \<and>
    rbt_rep n s f (plug fs (PNode (PNode T p Black kp vp a) w cp kw vw (PNode d q Black kq vq e))) t'"
proof -
  note r0 = rbt_parent_l [OF a x] rbt_rep_read [OF a] rbt_read_r [OF a] rbt_read_rr [OF a]
  obtain ma where ma: "rt_heap t (root_ptr n a) = Some ma" "rn_Color ma = pcolor a"
    using rbt_pcolor_rl [OF a] assms(2) by blast
  obtain t1 where t1: "rbt_set_color t w cp = Some t1"
    and 1: "rbt_rep n s f (plug fs (PNode T p cp kp vp (PNode a w cp kw vw (PNode d q Red kq vq e)))) t1"
    using rbt_color_r [OF a] by blast
  note r1 = rbt_parent_l [OF 1 x] rbt_rep_read [OF 1] rbt_read_r [OF 1] rbt_read_rr [OF 1]
  obtain t2 where t2: "rbt_set_color t1 p Black = Some t2"
    and 2: "rbt_rep n s f (plug fs (PNode T p Black kp vp (PNode a w cp kw vw (PNode d q Red kq vq e)))) t2"
    using rbt_rep_color [OF 1] by blast
  note r2 = rbt_parent_l [OF 2 x] rbt_rep_read [OF 2] rbt_read_r [OF 2] rbt_read_rr [OF 2]
  obtain t3 where t3: "rbt_set_color t2 q Black = Some t3"
    and 3: "rbt_rep n s f (plug fs (PNode T p Black kp vp (PNode a w cp kw vw (PNode d q Black kq vq e)))) t3"
    using rbt_color_rr [OF 2] by blast
  note r3 = rbt_parent_l [OF 3 x] rbt_rep_read [OF 3] rbt_read_r [OF 3] rbt_read_rr [OF 3]
  obtain t4 where t4: "leftRotate t3 p = Some t4"
    and 4: "rbt_rep n s f (plug fs (PNode (PNode T p Black kp vp a) w cp kw vw (PNode d q Black kq vq e))) t4"
    using rbt_rep_rotate [OF 3] by blast
  show ?thesis using 4  by (simp add: deleteFixup_left_black_def r0 t1 r1 t2 r2 t3 r3 t4 ma)
qed

lemma deleteFixup_left_black_inner:
  assumes a: "rbt_rep n s f (plug fs (PNode T p cp kp vp (PNode (PNode a q Red kq vq b) w Black kw vw d))) t" and "rn_Color s = Black" and x: "T = PLeaf \<longrightarrow> rn_Parent s = p" and "pcolor d = Black"
  shows "\<exists>t'. deleteFixup_left_black t (root_ptr n T) w = Some (t', rt_Root t') \<and>
    rbt_rep n s f (plug fs (PNode (PNode T p Black kp vp a) q cp kq vq (PNode b w Black kw vw d))) t'"
proof -
  note r0 = rbt_parent_l [OF a x] rbt_rep_read [OF a] rbt_read_r [OF a] rbt_read_rl [OF a]
  obtain md where md: "rt_heap t (root_ptr n d) = Some md" "rn_Color md = pcolor d"
    using rbt_pcolor_rr [OF a] assms(2) by blast
  obtain t1 where t1: "rbt_set_color t q Black = Some t1"
    and 1: "rbt_rep n s f (plug fs (PNode T p cp kp vp (PNode (PNode a q Black kq vq b) w Black kw vw d))) t1"
    using rbt_color_rl [OF a] by blast
  note r1 = rbt_parent_l [OF 1 x] rbt_rep_read [OF 1] rbt_read_r [OF 1] rbt_read_rl [OF 1]
  obtain t2 where t2: "rbt_set_color t1 w Red = Some t2"
    and 2: "rbt_rep n s f (plug fs (PNode T p cp kp vp (PNode (PNode a q Black kq vq b) w Red kw vw d))) t2"
    using rbt_color_r [OF 1] by blast
  note r2 = rbt_parent_l [OF 2 x] rbt_rep_read [OF 2] rbt_read_r [OF 2] rbt_read_rl [OF 2]
  obtain t3 where t3: "rightRotate t2 w = Some t3"
    and 3: "rbt_rep n s f (plug fs (PNode T p cp kp vp (PNode a q Black kq vq (PNode b w Red kw vw d)))) t3"
    using rbt_rotate_r [OF 2] by blast
  note r3 = rbt_parent_l [OF 3 x] rbt_rep_read [OF 3] rbt_read_rr [OF 3] rbt_read_r [OF 3]
  obtain t4 where t4: "rbt_set_color t3 q cp = Some t4"
    and 4: "rbt_rep n s f (plug fs (PNode T p cp kp vp (PNode a q cp kq vq (PNode b w Red kw vw d)))) t4"
    using rbt_color_r [OF 3] by blast
  note r4 = rbt_parent_l [OF 4 x] rbt_rep_read [OF 4] rbt_read_rr [OF 4] rbt_read_r [OF 4]
  obtain t5 where t5: "rbt_set_color t4 p Black = Some t5"
    and 5: "rbt_rep n s f (plug fs (PNode T p Black kp vp (PNode a q cp kq vq (PNode b w Red kw vw d)))) t5"
    using rbt_rep_color [OF 4] by blast
  note r5 = rbt_parent_l [OF 5 x] rbt_rep_read [OF 5] rbt_read_rr [OF 5] rbt_read_r [OF 5]
  obtain t6 where t6: "rbt_set_color t5 w Black = Some t6"
    and 6: "rbt_rep n s f (plug fs (PNode T p Black kp vp (PNode a q cp kq vq (PNode b w Black kw vw d)))) t6"
    using rbt_color_rr [OF 5] by blast
  note r6 = rbt_parent_l [OF 6 x] rbt_rep_read [OF 6] rbt_read_rr [OF 6] rbt_read_r [OF 6]
  obtain t7 where t7: "leftRotate t6 p = Some t7"
    and 7: "rbt_rep n s f (plug fs (PNode (PNode T p Black kp vp a) q cp kq vq (PNode b w Black kw vw d))) t7"
    using rbt_rep_rotate [OF 6] by blast
  show ?thesis using 7 assms(4) by (simp add: deleteFixup_left_black_def r0 t1 r1 t2 r2 t3 r3 t4 r4 t5 r5 t6 r6 t7 md)
qed

section \<open>The loop of deleteFixup\<close>

fun blacken :: "('k, 'v) ptree \<Rightarrow> ('k, 'v) ptree" where
  "blacken PLeaf = PLeaf"
| "blacken (PNode l p c k v r) = PNode l p Black k v r"

text \<open>The subtree at \<open>x\<close> lacks one black node; \<open>m\<close> bounds the steps left: none when \<open>x\<close> is red or the
  root.\<close>

definition del_inv ::
  "ptr \<Rightarrow> ptr \<Rightarrow> ('k \<times> 'v) list \<Rightarrow> nat \<Rightarrow> ptr \<Rightarrow> ('k, 'v) rbt_tree \<Rightarrow> bool" where
  "del_inv n f E m x t \<longleftrightarrow> (\<exists>s fs T. rn_Color s = Black \<and> rbt_rep n s f (plug fs T) t \<and> x = root_ptr n T
     \<and> (T = PLeaf \<longrightarrow> rn_Parent s = above n fs) \<and> left_of fs @ inorder T @ right_of fs = E \<and> frames_c fs
     \<and> invc (blacken T) \<and> invh T \<and> frames_h fs (Suc (bheight T))
     \<and> m = (if pcolor T = Red then 0 else length fs))"

lemma del_invI:
  "rbt_rep n s f U t \<Longrightarrow> rn_Color s = Black \<Longrightarrow> U = plug fs T \<Longrightarrow> x = root_ptr n T \<Longrightarrow>
    T = PLeaf \<longrightarrow> rn_Parent s = above n fs \<Longrightarrow> inorder U = E \<Longrightarrow> frames_c fs \<Longrightarrow>
    invc (blacken T) \<Longrightarrow> invh T \<Longrightarrow> frames_h fs (Suc (bheight T)) \<Longrightarrow>
    del_inv n f E (if pcolor T = Red then 0 else length fs) x t"
  unfolding del_inv_def by (intro exI [of _ s] exI [of _ fs] exI [of _ T]) simp

lemma del_inv_root:
  assumes "rbt_rep n s f U t" and "rn_Color s = Black" and "red_black U" and "inorder U = E"
    and "U \<noteq> PLeaf"
  shows "del_inv n f E 0 (rt_Root t) t"
proof -
  have "invc (blacken U)" using assms(3) by (cases U) (auto simp: red_black_def)
  with del_invI [OF assms(1,2), of "[]" U "rt_Root t" E] assms rbt_rep_fields(4) [OF assms(1)] show ?thesis
    by (simp add: red_black_def)
qed

lemma deleteFixup_left_black_step:
  assumes rep: "rbt_rep n s f (plug gs (PNode T p cp kp vp (PNode a w Black kw vw d))) t"
    and s: "rn_Color s = Black" "T = PLeaf \<longrightarrow> rn_Parent s = p"
    and fc: "frames_c (InLeft p cp kp vp (PNode a w Black kw vw d) # gs)"
    and fh: "frames_h (InLeft p cp kp vp (PNode a w Black kw vw d) # gs) (Suc (bheight T))"
    and T: "invc T" "invh T" "pcolor T = Black"
    and E: "inorder (plug gs (PNode T p cp kp vp (PNode a w Black kw vw d))) = E"
  shows "\<exists>t' x' m'. deleteFixup_left_black t (root_ptr n T) w = Some (t', x') \<and> del_inv n f E m' x' t'
    \<and> m' \<le> length gs \<and> (cp = Red \<longrightarrow> m' = 0)"
proof -
  consider (up) "pcolor a = Black" "pcolor d = Black"
    | (outer) d1 q kq vq d2 where "d = PNode d1 q Red kq vq d2"
    | (inner) a1 q kq vq a2 where "a = PNode a1 q Red kq vq a2" "pcolor d = Black"
    by (cases a; cases d) (auto, (metis color.exhaust)+)
  then show ?thesis
  proof cases
    case up
    let ?T = "PNode T p cp kp vp (PNode a w Red kw vw d)"
    from deleteFixup_left_black_up [OF rep s up] obtain t'
      where run: "deleteFixup_left_black t (root_ptr n T) w = Some (t', p)" and rep': "rbt_rep n s f (plug gs ?T) t'" by blast
    have "del_inv n f E (if pcolor ?T = Red then 0 else length gs) p t'"
      by (rule del_invI [OF rep' s(1) refl]) (use fc fh T E up in auto)
    with run show ?thesis by (cases cp) auto
  next
    case outer
    let ?U = "PNode (PNode T p Black kp vp a) w cp kw vw (PNode d1 q Black kq vq d2)"
    from deleteFixup_left_black_outer [OF rep [unfolded outer] s] obtain t'
      where run: "deleteFixup_left_black t (root_ptr n T) w = Some (t', rt_Root t')" and rep': "rbt_rep n s f (plug gs ?U) t'" by blast
    have "red_black (plug gs ?U)" using fc fh T outer by (auto simp: red_black_plug)
    from del_inv_root [OF rep' s(1) this, of E] run E outer show ?thesis by auto
  next
    case inner
    let ?U = "PNode (PNode T p Black kp vp a1) q cp kq vq (PNode a2 w Black kw vw d)"
    from deleteFixup_left_black_inner [OF rep [unfolded inner] s inner(2)] obtain t'
      where run: "deleteFixup_left_black t (root_ptr n T) w = Some (t', rt_Root t')" and rep': "rbt_rep n s f (plug gs ?U) t'" by blast
    have "red_black (plug gs ?U)" using fc fh T inner by (auto simp: red_black_plug)
    from del_inv_root [OF rep' s(1) this, of E] run E inner show ?thesis by auto
  qed
qed

lemma deleteFixup_left_step:
  assumes inv: "del_inv n f E m x t" and "0 < m" and reads: "rbt_parent t x = Some p" "rbt_left t p = Some x"
  shows "\<exists>t1 w t' x' m'. deleteFixup_left_red t x = Some (t1, w) \<and> deleteFixup_left_black t1 x w = Some (t', x')
    \<and> del_inv n f E m' x' t' \<and> m' < m"
proof -
  obtain s fs T where s: "rn_Color s = Black" and rep: "rbt_rep n s f (plug fs T) t" and x: "x = root_ptr n T"
    and sp: "T = PLeaf \<longrightarrow> rn_Parent s = above n fs" and E: "left_of fs @ inorder T @ right_of fs = E"
    and fc: "frames_c fs" and T: "invc (blacken T)" "invh T" and fh: "frames_h fs (Suc (bheight T))"
    and m: "m = (if pcolor T = Red then 0 else length fs)"
    using inv unfolding del_inv_def by blast
  have black: "pcolor T = Black" "invc T" "fs \<noteq> []" using T(1) m assms(2) by (cases T; auto split: if_splits)+
  then obtain g gs where fs: "fs = g # gs" by (cases fs) auto
  have p: "p = above n (g # gs)" using rbt_rep_parent [OF rep sp] reads(1) x fs by auto
  have "fsibling g \<noteq> PLeaf" using fh fs by auto
  with rbt_read_above(3) [OF rep [unfolded fs]] reads(2) p x obtain c k v r where g: "g = InLeft p c k v r"
    by (cases g) auto
  have "bheight r = Suc (bheight T)" using fh fs g by simp
  then obtain a w cw kw vw d where r: "r = PNode a w cw kw vw d" by (cases r) auto
  from rep have rep': "rbt_rep n s f (plug gs (PNode T p c k v (PNode a w cw kw vw d))) t" using fs g r by simp
  have sp': "T = PLeaf \<longrightarrow> rn_Parent s = p" using sp fs g by simp
  have E': "inorder (plug gs (PNode T p c k v (PNode a w cw kw vw d))) = E" using E fs g r by simp
  show ?thesis
  proof (cases cw)
    case Black
    have "\<exists>t'. deleteFixup_left_red t x = Some (t', w) \<and> rbt_rep n s f (plug gs (PNode T p c k v (PNode a w Black kw vw d))) t'"
      using deleteFixup_left_red_black [OF rep' [unfolded Black] sp'] x by simp
    then obtain t1 where 1: "deleteFixup_left_red t x = Some (t1, w)"
      and rep1: "rbt_rep n s f (plug gs (PNode T p c k v (PNode a w Black kw vw d))) t1" by blast
    have "\<exists>t' x' m'. deleteFixup_left_black t1 (root_ptr n T) w = Some (t', x') \<and> del_inv n f E m' x' t'
        \<and> m' \<le> length gs \<and> (c = Red \<longrightarrow> m' = 0)"
      by (rule deleteFixup_left_black_step [OF rep1 s sp']) (use fc fh fs g r Black T black E' in auto)
    with 1 m black(1) fs x show ?thesis by fastforce
  next
    case Red
    then have c: "c = Black" and pa: "pcolor a = Black" "pcolor d = Black" using fc fs g r by auto
    have "bheight a = Suc (bheight T)" using fh fs g r Red by simp
    with pa(1) obtain a1 q kq vq a2 where a: "a = PNode a1 q Black kq vq a2" by (cases a) auto
    let ?g = "InLeft w Black kw vw d"
    have "\<exists>t'. deleteFixup_left_red t x = Some (t', q)
      \<and> rbt_rep n s f (plug gs (PNode (PNode T p Red k v (PNode a1 q Black kq vq a2)) w Black kw vw d)) t'"
      using deleteFixup_left_red_red [OF rep' [unfolded Red a c] sp'] x by simp
    then obtain t1 where 1: "deleteFixup_left_red t x = Some (t1, q)"
      and "rbt_rep n s f (plug gs (PNode (PNode T p Red k v (PNode a1 q Black kq vq a2)) w Black kw vw d)) t1" by blast
    then have rep1: "rbt_rep n s f (plug (?g # gs) (PNode T p Red k v (PNode a1 q Black kq vq a2))) t1" by simp
    have "\<exists>t' x' m'. deleteFixup_left_black t1 (root_ptr n T) q = Some (t', x') \<and> del_inv n f E m' x' t'
        \<and> m' \<le> length (?g # gs) \<and> (Red = Red \<longrightarrow> m' = 0)"
      by (rule deleteFixup_left_black_step [OF rep1 s sp']) (use fc fh fs g r c Red a T black E' in auto)
    with 1 assms(2) x show ?thesis by auto
  qed
qed

lemma del_inv_mirror: "del_inv n f E m x t \<Longrightarrow> del_inv n f (rev E) m x (rbt_mirror t)"
proof -
  assume "del_inv n f E m x t"
  then obtain s fs T where s: "rn_Color s = Black" and rep: "rbt_rep n s f (plug fs T) t" and x: "x = root_ptr n T"
    and sp: "T = PLeaf \<longrightarrow> rn_Parent s = above n fs" and E: "left_of fs @ inorder T @ right_of fs = E"
    and fc: "frames_c fs" and T: "invc (blacken T)" "invh T" and fh: "frames_h fs (Suc (bheight T))"
    and m: "m = (if pcolor T = Red then 0 else length fs)"
    unfolding del_inv_def by blast
  from rbt_rep_mirror [OF rep] have r: "rbt_rep n (swap_node s) f (plug (map fmirror fs) (pmirror T)) (rbt_mirror t)"
    by (simp add: pmirror_plug)
  have "above n (map fmirror fs) = above n fs" by (cases "(n, fs)" rule: above.cases) auto
  moreover have "blacken (pmirror T) = pmirror (blacken T)" by (cases T) auto
  moreover have "pmirror T = PLeaf \<longleftrightarrow> T = PLeaf" by (cases T) auto
  ultimately show ?thesis
    using del_invI [OF r _ refl, of x "rev E"] s x sp E fc T m invh_pmirror [OF T(2)] frames_h_mirror [OF fh]
      left_of_mirror [of fs] by (auto simp: inorder_pmirror)
qed

lemma deleteFixup_right_step:
  assumes inv: "del_inv n f E m x t" and "0 < m" and reads: "rbt_parent t x = Some p" "rbt_right t p = Some x"
  shows "\<exists>t1 w t' x' m'. deleteFixup_right_red t x = Some (t1, w) \<and> deleteFixup_right_black t1 x w = Some (t', x')
    \<and> del_inv n f E m' x' t' \<and> m' < m"
proof -
  have "\<exists>t1 w t' x' m'. deleteFixup_left_red (rbt_mirror t) x = Some (t1, w)
    \<and> deleteFixup_left_black t1 x w = Some (t', x') \<and> del_inv n f (rev E) m' x' t' \<and> m' < m"
    by (rule deleteFixup_left_step [OF del_inv_mirror [OF inv] assms(2), where p = p]) (use reads in auto)
  then obtain t1 w t' x' m' where "deleteFixup_right_red t x = Some (t1, w)" "deleteFixup_right_black t1 x w = Some (t', x')"
    and "del_inv n f (rev E) m' x' (rbt_mirror t')" "m' < m"
    unfolding deleteFixup_red_mirror by (auto simp: deleteFixup_black_mirror)
  with del_inv_mirror [OF this(3)] show ?thesis by auto
qed

lemma frames_root_in: "frames_root q (g # gs) \<in> set (frame_addrs (g # gs))"
proof (induction gs arbitrary: g q)
  case (Cons g' gs)
  show ?case using Cons.IH [of _ g'] by (cases g) simp_all
next
  case Nil
  then show ?case by (cases g) simp_all
qed

lemma deleteFixup_loop_exact:
  "del_inv n f E m x t \<Longrightarrow> m < fuel \<Longrightarrow>
    \<exists>t' x'. deleteFixup_loop fuel t x = Some (t', x') \<and> del_inv n f E 0 x' t'"
proof (induction fuel arbitrary: m x t)
  case (Suc fuel)
  obtain s fs T where s: "rn_Color s = Black" and rep: "rbt_rep n s f (plug fs T) t" and x: "x = root_ptr n T"
    and sp: "T = PLeaf \<longrightarrow> rn_Parent s = above n fs" and fh: "frames_h fs (Suc (bheight T))"
    and m: "m = (if pcolor T = Red then 0 else length fs)"
    using Suc.prems(1) unfolding del_inv_def by blast
  obtain xc where xc: "rbt_color t x = Some xc" "xc = pcolor T" using rbt_rep_pcolor [OF rep s] x by auto
  show ?case
  proof (cases "m = 0")
    case True
    then have "x = rt_Root t \<or> xc = Red"
      using m x xc(2) rbt_rep_fields(4) [OF rep] by (auto split: if_splits)
    then have "deleteFixup_loop (Suc fuel) t x = Some (t, x)" using xc(1) by auto
    with Suc.prems(1) True show ?thesis by blast
  next
    case False
    then have black: "xc = Black" "fs \<noteq> []" using m xc(2) by (auto split: if_splits)
    then obtain g gs where fs: "fs = g # gs" by (cases fs) auto
    have nroot: "x \<noteq> rt_Root t"
      using frames_root_in [of x g gs] rbt_rep_distinct [OF rep] root_ptr_in [of n T] x fs
        rbt_rep_fields(4) [OF rep] by (auto simp: root_ptr_plug)
    let ?p = "above n fs"
    have xp: "rbt_parent t x = Some ?p" using rbt_rep_parent [OF rep sp] x by simp
    have side: "rbt_left t ?p = Some x \<or> rbt_right t ?p = Some x"
      using rbt_read_above(4) [OF rep [unfolded fs]] fs x by simp
    obtain q where q: "rbt_left t ?p = Some q" using rbt_read_above(2) [OF rep [unfolded fs]] fs by auto
    have "\<exists>t' x' m'. (if x = q then do { (t, w) \<leftarrow> deleteFixup_left_red t x; deleteFixup_left_black t x w }
        else do { (t, w) \<leftarrow> deleteFixup_right_red t x; deleteFixup_right_black t x w }) = Some (t', x')
      \<and> del_inv n f E m' x' t' \<and> m' < m"
    proof (cases "x = q")
      case True
      with deleteFixup_left_step [OF Suc.prems(1) _ xp] q False show ?thesis by fastforce
    next
      case right: False
      with side q have "rbt_right t ?p = Some x" by auto
      with deleteFixup_right_step [OF Suc.prems(1) _ xp this] right False show ?thesis by fastforce
    qed
    then obtain t' x' m' where step: "(if x = q then do { (t, w) \<leftarrow> deleteFixup_left_red t x; deleteFixup_left_black t x w }
        else do { (t, w) \<leftarrow> deleteFixup_right_red t x; deleteFixup_right_black t x w }) = Some (t', x')"
      and inv: "del_inv n f E m' x' t'" and less: "m' < fuel" using Suc.prems(2) by fastforce
    have "deleteFixup_loop (Suc fuel) t x = deleteFixup_loop fuel t' x'"
      using nroot xc(1) black(1) xp q step by auto
    with Suc.IH [OF inv less] show ?thesis by simp
  qed
qed simp

lemma deleteFixup_exact:
  assumes "del_inv n f E m x t" and "m < f"
  shows "\<exists>t' s T. deleteFixup t x = Some t' \<and> rn_Color s = Black \<and> rbt_rep n s f T t' \<and> inorder T = E \<and> red_black T"
proof -
  have "rt_fresh t = f" using assms(1) by (auto simp: del_inv_def rbt_rep_def)
  with deleteFixup_loop_exact [OF assms] obtain t1 x1
    where run: "deleteFixup_loop (rt_fresh t) t x = Some (t1, x1)" and inv: "del_inv n f E 0 x1 t1" by auto
  from inv obtain s fs T where s: "rn_Color s = Black" and rep: "rbt_rep n s f (plug fs T) t1" and x: "x1 = root_ptr n T"
    and E: "left_of fs @ inorder T @ right_of fs = E" and fc: "frames_c fs"
    and T: "invc (blacken T)" "invh T" and fh: "frames_h fs (Suc (bheight T))"
    and m: "pcolor T = Red \<or> fs = []"
    unfolding del_inv_def by (auto split: if_splits)
  have "\<exists>t2. rbt_set_color t1 x1 Black = Some t2 \<and> rbt_rep n s f (plug fs (blacken T)) t2"
  proof (cases T)
    case PLeaf
    have "t1\<lparr>rt_heap := (rt_heap t1)(n \<mapsto> s\<lparr>rn_Color := Black\<rparr>)\<rparr> = t1"
      using s rbt_rep_fields(3) [OF rep] by (cases t1; cases s) (auto simp: fun_eq_iff)
    then have "rbt_set_color t1 n Black = Some t1" using rbt_rep_fields(3) [OF rep] by (simp add: rbt_set_def)
    with rep PLeaf x show ?thesis by simp
  next
    case (PNode l p c k v r)
    with rbt_rep_color [of n s f fs l p c k v r t1 Black] rep x show ?thesis by simp
  qed
  moreover have "red_black (plug fs (blacken T))"
  proof (cases T)
    case PLeaf
    with m show ?thesis by (auto simp: red_black_def)
  next
    case (PNode l p c k v r)
    with fc T fh m show ?thesis by (cases c) (simp add: red_black_plug, auto simp: red_black_def)
  qed
  moreover have "inorder (blacken T) = inorder T" by (cases T) auto
  ultimately show ?thesis using run s E by (fastforce simp: deleteFixup_def)
qed

section \<open>Search\<close>

lemma rbt_search_loop_exact:
  assumes "in_heap (rt_heap t) n par T" and "n \<notin> set (addrs T)" and "rt_Nil t = n"
    and "keys_sorted (inorder T)" and "pheight T < fuel"
  shows "rbt_search_loop fuel t key (root_ptr n T) = Some n \<and> key \<notin> fst ` set (inorder T)
    \<or> (\<exists>gs l p c v r. rbt_search_loop fuel t key (root_ptr n T) = Some p \<and> T = plug gs (PNode l p c key v r))"
  using assms
proof (induction T arbitrary: par fuel)
  case PLeaf
  then show ?case by (cases fuel) auto
next
  case (PNode l p c k v r)
  then obtain fuel' where fuel: "fuel = Suc fuel'" by (cases fuel) auto
  have node: "rbt_search_loop fuel t key p = (if key \<noteq> k
      then rbt_search_loop fuel' t key (if key < k then root_ptr n l else root_ptr n r) else Some p)"
    using PNode.prems fuel by auto
  note ord = keys_sorted_node [of "[]", unfolded plug.simps, OF PNode.prems(4)]
  consider "key = k" | "key < k" | "k < key" by (metis linorder_less_linear)
  then show ?case
  proof cases
    case 1
    with node show ?thesis by (intro disjI2) (metis plug.simps(1) root_ptr.simps(2))
  next
    case 2
    have "rbt_search_loop fuel' t key (root_ptr n l) = Some n \<and> key \<notin> fst ` set (inorder l)
      \<or> (\<exists>gs l' q c v r. rbt_search_loop fuel' t key (root_ptr n l) = Some q \<and> l = plug gs (PNode l' q c key v r))"
      using PNode.prems fuel by (intro PNode.IH(1)) (auto simp: sorted_append)
    then show ?thesis
    proof (elim disjE exE conjE)
      assume "rbt_search_loop fuel' t key (root_ptr n l) = Some n" "key \<notin> fst ` set (inorder l)"
      moreover have "key \<notin> fst ` set (inorder r)" using ord(2) 2 by fastforce
      ultimately show ?thesis using node 2 by auto
    next
      fix gs l' q c' v' r'
      assume "rbt_search_loop fuel' t key (root_ptr n l) = Some q" "l = plug gs (PNode l' q c' key v' r')"
      then have "rbt_search_loop fuel t key (root_ptr n (PNode l p c k v r)) = Some q"
        "PNode l p c k v r = plug (gs @ [InLeft p c k v r]) (PNode l' q c' key v' r')"
        using node 2 by (auto simp: plug_append)
      then show ?thesis by blast
    qed
  next
    case 3
    have "rbt_search_loop fuel' t key (root_ptr n r) = Some n \<and> key \<notin> fst ` set (inorder r)
      \<or> (\<exists>gs l' q c v r'. rbt_search_loop fuel' t key (root_ptr n r) = Some q \<and> r = plug gs (PNode l' q c key v r'))"
      using PNode.prems fuel by (intro PNode.IH(2)) (auto simp: sorted_append)
    then show ?thesis
    proof (elim disjE exE conjE)
      assume "rbt_search_loop fuel' t key (root_ptr n r) = Some n" "key \<notin> fst ` set (inorder r)"
      moreover have "key \<notin> fst ` set (inorder l)" using ord(1) 3 by fastforce
      ultimately show ?thesis using node 3 by auto
    next
      fix gs l' q c' v' r'
      assume "rbt_search_loop fuel' t key (root_ptr n r) = Some q" "r = plug gs (PNode l' q c' key v' r')"
      then have "rbt_search_loop fuel t key (root_ptr n (PNode l p c k v r)) = Some q"
        "PNode l p c k v r = plug (gs @ [InRight l p c k v]) (PNode l' q c' key v' r')"
        using node 3 by (auto simp: plug_append)
      then show ?thesis by blast
    qed
  qed
qed

lemma rbt_Search_exact:
  assumes rep: "rbt_rep n s f T t" and "keys_sorted (inorder T)"
  shows "rbt_Search t key = Some 0 \<and> key \<notin> fst ` set (inorder T)
    \<or> (\<exists>gs l p c v r. rbt_Search t key = Some p \<and> p \<noteq> 0 \<and> T = plug gs (PNode l p c key v r))"
proof -
  have "in_heap (rt_heap t) n n T" "n \<notin> set (addrs T)" "rt_Nil t = n" "rt_fresh t = f" "rt_Root t = root_ptr n T"
    "0 \<notin> set (addrs T)" using rep by (auto simp: rbt_rep_def)
  moreover have "pheight T < f" using pheight_le [of T] length_addrs_rep [OF rep] by linarith
  ultimately have "rbt_search_loop (rt_fresh t) t key (rt_Root t) = Some n \<and> key \<notin> fst ` set (inorder T)
    \<or> (\<exists>gs l p c v r. rbt_search_loop (rt_fresh t) t key (rt_Root t) = Some p \<and> T = plug gs (PNode l p c key v r))"
    using rbt_search_loop_exact [of t n n T f key] assms(2) by simp
  then show ?thesis
  proof (elim disjE exE conjE)
    assume "rbt_search_loop (rt_fresh t) t key (rt_Root t) = Some n" "key \<notin> fst ` set (inorder T)"
    then show ?thesis using rep by (simp add: rbt_Search_def rbt_rep_def)
  next
    fix gs l p c v r
    assume run: "rbt_search_loop (rt_fresh t) t key (rt_Root t) = Some p" and T: "T = plug gs (PNode l p c key v r)"
    have "p \<noteq> n" "p \<noteq> 0" using rbt_rep_distinct [OF rep [unfolded T]] by auto
    then have "rbt_Search t key = Some p" using run rep by (simp add: rbt_Search_def rbt_rep_def)
    with T \<open>p \<noteq> 0\<close> show ?thesis by blast
  qed
qed

section \<open>Taking a node out\<close>

lemma transplant_child:
  assumes rep: "rbt_rep n s f (plug fs (PNode l u c k v r)) t" and W: "W = l \<or> W = r"
  shows "\<exists>t' s'. transplant t u (root_ptr n W) = Some t' \<and> rbt_rep n s' f (plug fs W) t' \<and> rt_heap t' u = rt_heap t u
    \<and> rn_Color s' = rn_Color s \<and> (W = PLeaf \<longrightarrow> rn_Parent s' = above n fs) \<and> (W \<noteq> PLeaf \<longrightarrow> s' = s)"
proof -
  note d = rbt_rep_distinct [OF rep]
  have up: "rbt_parent t u = Some (above n fs)" using rbt_rep_read [OF rep] by simp
  have frames: "frames_in_heap (rt_heap t) n u fs" "rt_Root t = frames_root u fs" "rt_Nil t = n" "rt_fresh t = f"
    "rt_heap t n = Some s" and sub: "in_heap (rt_heap t) n u W"
    using rep W by (auto simp: rbt_rep_def in_heap_plug root_ptr_plug)
  have dW: "distinct (n # 0 # u # frame_addrs fs @ addrs W)" using d W by auto
  obtain t1 where t1: "rbt_relink t (above n fs) u (root_ptr n W) = Some t1" "frames_in_heap (rt_heap t1) n (root_ptr n W) fs"
    "\<And>p. p \<notin> set (frame_addrs fs) \<Longrightarrow> rt_heap t1 p = rt_heap t p"
    "rt_Root t1 = frames_root (root_ptr n W) fs" "rt_Nil t1 = n" "rt_fresh t1 = f"
    using rbt_relink [OF frames(1) _ _ frames(3,2), of "root_ptr n W"] d frames(4) by auto
  have sub1: "in_heap (rt_heap t1) n u W"
    by (rule in_heap_agree [OF sub]) (use dW t1(3) in auto)
  have at: "rt_heap t1 u = rt_heap t u" "rt_heap t1 n = Some s" using dW t1(3) frames(5) by auto
  have less: "\<forall>p \<in> set (frame_addrs fs) \<union> set (addrs W). p < f" "0 < n" "n < f" using rep W by (auto simp: rbt_rep_def)
  have run: "transplant t u (root_ptr n W) = rbt_set_parent t1 (root_ptr n W) (above n fs)"
    unfolding transplant_relink using up t1(1) at(1) by auto
  show ?thesis
  proof (cases W)
    case PLeaf
    let ?s = "s\<lparr>rn_Parent := above n fs\<rparr>"
    let ?t = "t1\<lparr>rt_heap := (rt_heap t1)(n \<mapsto> ?s)\<rparr>"
    have "transplant t u (root_ptr n W) = Some ?t" using run PLeaf at(2) by (simp add: rbt_set_def)
    moreover have "rbt_rep n ?s f (plug fs W) ?t"
      using t1 dW less PLeaf by (simp add: rbt_rep_def in_heap_plug root_ptr_plug)
    moreover have "rt_heap ?t u = rt_heap t u" using at(1) dW by simp
    ultimately show ?thesis using PLeaf by (intro exI [of _ ?t] exI [of _ ?s]) simp
  next
    case (PNode a w cw kw vw b)
    let ?w = "\<lparr>rn_Key = kw, rn_Value = vw, rn_Color = cw, rn_Left = root_ptr n a, rn_Right = root_ptr n b, rn_Parent = above n fs\<rparr>"
    let ?t = "t1\<lparr>rt_heap := (rt_heap t1)(w \<mapsto> ?w)\<rparr>"
    have "transplant t u (root_ptr n W) = Some ?t" using run PNode sub1 by (simp add: rbt_set_def)
    moreover have "rbt_rep n s f (plug fs W) ?t"
      using t1 dW less PNode sub1 at(2) by (simp add: rbt_rep_def in_heap_plug root_ptr_plug)
    moreover have "rt_heap ?t u = rt_heap t u" using at(1) dW PNode by simp
    ultimately show ?thesis using PNode by (intro exI [of _ ?t] exI [of _ s]) simp
  qed
qed

lemma rbt_minimum_exact:
  assumes "in_heap (rt_heap t) n par (PNode l p c k v r)" and "n \<notin> set (addrs (PNode l p c k v r))" and "rt_Nil t = n"
    and "pheight (PNode l p c k v r) \<le> fuel"
  shows "\<exists>gs y cy ky vy b. rbt_minimum fuel t p = Some y \<and> PNode l p c k v r = plug gs (PNode PLeaf y cy ky vy b)
    \<and> left_of gs = [] \<and> (gs = [] \<longrightarrow> l = PLeaf)"
  using assms
proof (induction l arbitrary: p c k v r par fuel)
  case PLeaf
  then obtain fuel' where fuel: "fuel = Suc fuel'" by (cases fuel) auto
  have "rbt_minimum fuel t p = Some p" using PLeaf.prems fuel by auto
  then show ?case by (intro exI [of _ "[]"]) auto
next
  case (PNode ll lp lc lk lv lr)
  then obtain fuel' where fuel: "fuel = Suc fuel'" by (cases fuel) auto
  have "\<exists>gs y cy ky vy b. rbt_minimum fuel' t lp = Some y \<and> PNode ll lp lc lk lv lr = plug gs (PNode PLeaf y cy ky vy b)
    \<and> left_of gs = [] \<and> (gs = [] \<longrightarrow> ll = PLeaf)"
    using PNode.prems fuel by (intro PNode.IH(1)) auto
  then obtain gs y cy ky vy b where ih: "rbt_minimum fuel' t lp = Some y"
    "PNode ll lp lc lk lv lr = plug gs (PNode PLeaf y cy ky vy b)" "left_of gs = []" by blast
  moreover have "rbt_minimum fuel t p = Some y" using PNode.prems fuel ih(1) by auto
  ultimately show ?case using ih(2,3)
    by (intro exI [of _ "gs @ [InLeft p c k v r]"] exI [of _ y] exI [of _ cy] exI [of _ ky] exI [of _ vy] exI [of _ b])
      (simp add: plug_append)
qed

lemma rbt_take_place_exact:
  assumes fields: "rt_Nil t = n" "rt_fresh t = f" "rt_Root t = frames_root z fs" "rt_heap t n = Some s" "0 < n" "n < f"
    and frames: "frames_in_heap (rt_heap t) n z fs" and l: "in_heap (rt_heap t) n z l" "l \<noteq> PLeaf"
    and z: "rt_heap t z = Some \<lparr>rn_Key = k, rn_Value = v, rn_Color = c, rn_Left = root_ptr n l, rn_Right = zr, rn_Parent = above n fs\<rparr>"
    and y: "rt_heap t y = Some \<lparr>rn_Key = ky, rn_Value = vy, rn_Color = cy, rn_Left = yl, rn_Right = root_ptr n R, rn_Parent = yp\<rparr>"
    and R: "in_heap (rt_heap t) n y R" and d: "distinct (n # 0 # z # y # frame_addrs fs @ addrs l @ addrs R)"
    and less: "\<forall>p \<in> set (y # frame_addrs fs @ addrs l @ addrs R). p < f"
  shows "\<exists>t'. rbt_take_place t z y = Some t' \<and> rbt_rep n s f (plug fs (PNode l y c ky vy R)) t'"
proof -
  obtain l1 lp lc lk lv l2 where lnode: "l = PNode l1 lp lc lk lv l2" using l(2) by (cases l) auto
  obtain t1 where t1: "rbt_relink t (above n fs) z y = Some t1" "frames_in_heap (rt_heap t1) n y fs"
    "\<And>p. p \<notin> set (frame_addrs fs) \<Longrightarrow> rt_heap t1 p = rt_heap t p"
    "rt_Root t1 = frames_root y fs" "rt_Nil t1 = n" "rt_fresh t1 = f"
    using rbt_relink [OF frames _ _ fields(1,3), of y] d fields(2) by auto
  have l1: "in_heap (rt_heap t1) n z l" by (rule in_heap_agree [OF l(1)]) (use d t1(3) in auto)
  have R1: "in_heap (rt_heap t1) n y R" by (rule in_heap_agree [OF R]) (use d t1(3) in auto)
  have at: "rt_heap t1 z = rt_heap t z" "rt_heap t1 y = rt_heap t y" "rt_heap t1 n = Some s"
    using d t1(3) fields(4) by auto
  let ?l = "\<lparr>rn_Key = lk, rn_Value = lv, rn_Color = lc, rn_Left = root_ptr n l1, rn_Right = root_ptr n l2, rn_Parent = y\<rparr>"
  let ?y = "\<lparr>rn_Key = ky, rn_Value = vy, rn_Color = c, rn_Left = lp, rn_Right = root_ptr n R, rn_Parent = above n fs\<rparr>"
  let ?t = "t1\<lparr>rt_heap := (rt_heap t1)(lp \<mapsto> ?l, y \<mapsto> ?y)\<rparr>"
  have "rbt_take_place t z y = Some ?t"
    unfolding rbt_take_place_def transplant_relink using z y at t1(1) l1 lnode d
    by (simp add: rbt_set_def fun_upd_twist)
  moreover have "rbt_rep n s f (plug fs (PNode l y c ky vy R)) ?t"
    using t1 l1 R1 lnode at d less fields(5,6) by (simp add: rbt_rep_def in_heap_plug root_ptr_plug)
  ultimately show ?thesis by blast
qed

lemma frames_rename:
  "frames_c (gs @ InRight l z c k v # fs) = frames_c (gs @ InRight l y c k' v' # fs)"
  "fcolor (gs @ InRight l z c k v # fs) = fcolor (gs @ InRight l y c k' v' # fs)"
  "frames_h (gs @ InRight l z c k v # fs) h = frames_h (gs @ InRight l y c k' v' # fs) h"
proof -
  have *: "fcolor (gs @ InRight l z c k v # fs) = fcolor (gs @ InRight l y c k' v' # fs)" for gs
    by (cases gs rule: fcolor.cases) auto
  show "fcolor (gs @ InRight l z c k v # fs) = fcolor (gs @ InRight l y c k' v' # fs)" by (rule *)
  show "frames_c (gs @ InRight l z c k v # fs) = frames_c (gs @ InRight l y c k' v' # fs)"
    by (induction gs) (auto simp: *)
  show "frames_h (gs @ InRight l z c k v # fs) h = frames_h (gs @ InRight l y c k' v' # fs) h"
    by (induction gs arbitrary: h) auto
qed

text \<open>The successor is the right child of \<open>z\<close>.\<close>

lemma rbt_replace_near:
  assumes rep: "rbt_rep n s f (plug fs (PNode l z c k v (PNode PLeaf y cy ky vy b))) t" and l: "l \<noteq> PLeaf"
    and mn: "rbt_minimum f t y = Some y"
  shows "\<exists>t' s'. rbt_replace t z = Some (t', root_ptr n b, cy) \<and> rbt_rep n s' f (plug fs (PNode l y c ky vy b)) t'
    \<and> rn_Color s' = rn_Color s \<and> (b = PLeaf \<longrightarrow> rn_Parent s' = y)"
proof -
  note d = rbt_rep_distinct [OF rep]
  have "\<exists>t1 s1. rbt_set_parent t (root_ptr n b) y = Some t1
    \<and> rbt_rep n s1 f (plug fs (PNode l z c k v (PNode PLeaf y cy ky vy b))) t1
    \<and> rn_Color s1 = rn_Color s \<and> (b = PLeaf \<longrightarrow> rn_Parent s1 = y)"
  proof (cases b)
    case PLeaf
    with rep d show ?thesis
      by (intro exI [of _ "t\<lparr>rt_heap := (rt_heap t)(n \<mapsto> s\<lparr>rn_Parent := y\<rparr>)\<rparr>"] exI [of _ "s\<lparr>rn_Parent := y\<rparr>"])
        (auto simp: rbt_set_def rbt_rep_def in_heap_plug)
  next
    case (PNode b1 bp bc bk bv b2)
    have "rt_heap t bp = Some \<lparr>rn_Key = bk, rn_Value = bv, rn_Color = bc, rn_Left = root_ptr n b1, rn_Right = root_ptr n b2, rn_Parent = y\<rparr>"
      using rep PNode by (simp add: rbt_rep_def in_heap_plug)
    then have "rbt_set_parent t bp y = Some t" by (simp add: rbt_set_def fun_upd_idem)
    with rep PNode show ?thesis by auto
  qed
  then obtain t1 s1 where t1: "rbt_set_parent t (root_ptr n b) y = Some t1"
    and rep1: "rbt_rep n s1 f (plug fs (PNode l z c k v (PNode PLeaf y cy ky vy b))) t1"
    and s1: "rn_Color s1 = rn_Color s" "b = PLeaf \<longrightarrow> rn_Parent s1 = y" by blast
  have "\<exists>t'. rbt_take_place t1 z y = Some t' \<and> rbt_rep n s1 f (plug fs (PNode l y c ky vy b)) t'"
    using rep1 l rbt_rep_distinct [OF rep1]
    by (intro rbt_take_place_exact [where k = k and v = v and zr = y and cy = cy and yl = n and yp = z])
      (auto simp: rbt_rep_def in_heap_plug root_ptr_plug)
  then obtain t' where t': "rbt_take_place t1 z y = Some t'" and rep': "rbt_rep n s1 f (plug fs (PNode l y c ky vy b)) t'" by blast
  have "rbt_replace t z = Some (t', root_ptr n b, cy)"
    unfolding rbt_replace_def using rbt_rep_read [OF rep] rbt_read_r [OF rep] rbt_rep_fields(2) [OF rep] mn t1 t' by simp
  with rep' s1 show ?thesis by blast
qed

text \<open>The successor is deeper in the right subtree.\<close>

lemma rbt_replace_far:
  assumes rep: "rbt_rep n s f (plug (gs @ InRight l z c k v # fs) (PNode PLeaf y cy ky vy b)) t" and l: "l \<noteq> PLeaf"
    and gs: "gs \<noteq> []" and mn: "rbt_minimum f t (root_ptr n (plug gs (PNode PLeaf y cy ky vy b))) = Some y"
  shows "\<exists>t' s'. rbt_replace t z = Some (t', root_ptr n b, cy) \<and> rbt_rep n s' f (plug (gs @ InRight l y c ky vy # fs) b) t'
    \<and> rn_Color s' = rn_Color s \<and> (b = PLeaf \<longrightarrow> rn_Parent s' = above n (gs @ InRight l y c ky vy # fs))"
proof -
  let ?fs = "gs @ InRight l z c k v # fs"
  note ynode = rbt_rep_read [OF rep] and dy = rbt_rep_distinct [OF rep]
  have rep0: "rbt_rep n s f (plug fs (PNode l z c k v (plug gs (PNode PLeaf y cy ky vy b)))) t"
    using rep by (simp add: plug_append)
  obtain R1 Rp Rc Rk Rv R2 where R: "plug gs b = PNode R1 Rp Rc Rk Rv R2"
    using gs by (cases "plug gs b"; cases gs rule: fcolor.cases) auto
  obtain t1 s1 where t1: "transplant t y (root_ptr n b) = Some t1"
    and rep1: "rbt_rep n s1 f (plug ?fs b) t1" and y1: "rt_heap t1 y = rt_heap t y"
    and s1: "rn_Color s1 = rn_Color s" "b = PLeaf \<longrightarrow> rn_Parent s1 = above n ?fs"
    using transplant_child [OF rep, of b] by auto
  have rep1': "rbt_rep n s1 f (plug fs (PNode l z c k v (PNode R1 Rp Rc Rk Rv R2))) t1"
    using rep1 R by (simp add: plug_append)
  note z1 = rbt_rep_read [OF rep1'] and Rp = rbt_read_r [OF rep1'] and d1 = rbt_rep_distinct [OF rep1']
  have "set (addrs (plug fs (PNode l z c k v (PNode R1 Rp Rc Rk Rv R2)))) = set (addrs (plug ?fs b))"
    using R by (simp add: plug_append)
  then have dy1: "y \<noteq> n" "y \<noteq> 0" "y \<notin> set (frame_addrs fs @ addrs (PNode l z c k v (PNode R1 Rp Rc Rk Rv R2)))" "y < f"
    using dy rep by (auto simp: rbt_rep_def)
  let ?y = "\<lparr>rn_Key = ky, rn_Value = vy, rn_Color = cy, rn_Left = n, rn_Right = Rp, rn_Parent = above n ?fs\<rparr>"
  let ?R = "\<lparr>rn_Key = Rk, rn_Value = Rv, rn_Color = Rc, rn_Left = root_ptr n R1, rn_Right = root_ptr n R2, rn_Parent = y\<rparr>"
  define t2 where "t2 = t1\<lparr>rt_heap := (rt_heap t1)(y \<mapsto> ?y, Rp \<mapsto> ?R)\<rparr>"
  let ?t2 = "t1\<lparr>rt_heap := (rt_heap t1)(y \<mapsto> ?y)\<rparr>"
  have t2: "rbt_set_right t1 y Rp = Some ?t2" "rbt_set_parent ?t2 Rp y = Some t2" "rbt_right ?t2 y = Some Rp"
    using ynode y1 Rp dy1 by (auto simp: rbt_set_def t2_def)
  have "\<exists>t'. rbt_take_place t2 z y = Some t' \<and> rbt_rep n s1 f (plug fs (PNode l y c ky vy (PNode R1 Rp Rc Rk Rv R2))) t'"
    using rep1' l d1 dy1
    by (intro rbt_take_place_exact [where k = k and v = v and zr = Rp and cy = cy and yl = n and yp = "above n ?fs"])
      (auto simp: rbt_rep_def in_heap_plug root_ptr_plug t2_def)
  then obtain t' where t': "rbt_take_place t2 z y = Some t'"
    and rep': "rbt_rep n s1 f (plug fs (PNode l y c ky vy (PNode R1 Rp Rc Rk Rv R2))) t'" by blast
  have far: "above n ?fs \<noteq> z" using gs dy above_in [of n gs] by auto
  have "rbt_replace t z = Some (t', root_ptr n b, cy)"
    unfolding rbt_replace_def using rbt_rep_read [OF rep0] rbt_rep_fields(2) [OF rep] mn ynode far
    by (simp add: t1 z1 t2 t')
  moreover have "above n ?fs = above n (gs @ InRight l y c ky vy # fs)"
    using gs by simp
  ultimately show ?thesis using rep' s1 R by (auto simp: plug_append)
qed

lemma rbt_replace_exact:
  assumes rep: "rbt_rep n s f (plug fs (PNode l z c k v r)) t" and lr: "l \<noteq> PLeaf" "r \<noteq> PLeaf"
  shows "\<exists>t' s' gs y cy ky vy b. rbt_replace t z = Some (t', root_ptr n b, cy)
    \<and> r = plug gs (PNode PLeaf y cy ky vy b) \<and> left_of gs = []
    \<and> rbt_rep n s' f (plug (gs @ InRight l y c ky vy # fs) b) t' \<and> rn_Color s' = rn_Color s
    \<and> (b = PLeaf \<longrightarrow> rn_Parent s' = above n (gs @ InRight l y c ky vy # fs))"
proof -
  obtain r1 rp rc rk rv r2 where rnode: "r = PNode r1 rp rc rk rv r2" using lr(2) by (cases r) auto
  have "pheight r \<le> f"
    using pheight_le [of r] length_addrs_rep [OF rep] length_frames_le [of fs "PNode l z c k v r"] by simp
  moreover have "in_heap (rt_heap t) n z r" "n \<notin> set (addrs r)" "rt_Nil t = n"
    using rep by (auto simp: rbt_rep_def in_heap_plug)
  ultimately obtain gs y cy ky vy b where mn: "rbt_minimum f t rp = Some y" and r: "r = plug gs (PNode PLeaf y cy ky vy b)"
    and gs: "left_of gs = []" using rbt_minimum_exact [of t n z r1 rp rc rk rv r2 f] rnode by auto
  show ?thesis
  proof (cases "gs = []")
    case True
    then have y: "rp = y" using r rnode by simp
    from True rep r have "rbt_rep n s f (plug fs (PNode l z c k v (PNode PLeaf y cy ky vy b))) t" by simp
    from rbt_replace_near [OF this lr(1)] mn y obtain t' s' where "rbt_replace t z = Some (t', root_ptr n b, cy)"
      "rbt_rep n s' f (plug fs (PNode l y c ky vy b)) t'" "rn_Color s' = rn_Color s" "b = PLeaf \<longrightarrow> rn_Parent s' = y" by blast
    with r True show ?thesis
      by (intro exI [of _ t'] exI [of _ s'] exI [of _ "[]"] exI [of _ y] exI [of _ cy] exI [of _ ky] exI [of _ vy] exI [of _ b]) auto
  next
    case False
    from rep r have "rbt_rep n s f (plug (gs @ InRight l z c k v # fs) (PNode PLeaf y cy ky vy b)) t" by (simp add: plug_append)
    from rbt_replace_far [OF this lr(1) False] mn r rnode gs show ?thesis by (metis root_ptr.simps(2))
  qed
qed

section \<open>Delete\<close>

text \<open>Rebalancing when a node of colour \<open>c\<close> was taken out above \<open>W\<close>.\<close>

lemma rbt_finish_delete:
  assumes rep: "rbt_rep n s f (plug fs W) t" and s: "rn_Color s = Black" "W = PLeaf \<longrightarrow> rn_Parent s = above n fs"
    and inv: "frames_c fs" "invc W" "invh W" "frames_h fs (if c = Black then Suc (bheight W) else bheight W)"
      "c = Red \<longrightarrow> pcolor W = Black"
  shows "\<exists>t' s' T. (if c = Black then deleteFixup t (root_ptr n W) else Some t) = Some t' \<and> rn_Color s' = Black
    \<and> rbt_rep n s' f T t' \<and> inorder T = left_of fs @ inorder W @ right_of fs \<and> red_black T"
proof (cases c)
  case Black
  have "invc (blacken W)" using inv(2) by (cases W) auto
  then have "del_inv n f (inorder (plug fs W)) (if pcolor W = Red then 0 else length fs) (root_ptr n W) t"
    using inv Black by (intro del_invI [OF rep s(1) refl refl s(2) refl]) auto
  moreover have "(if pcolor W = Red then 0 else length fs) < f"
    using length_frames_le [of fs W] length_addrs_rep [OF rep] by auto
  ultimately show ?thesis using deleteFixup_exact Black by fastforce
next
  case Red
  with rep s inv show ?thesis by (intro exI [of _ t] exI [of _ s] exI [of _ "plug fs W"]) (auto simp: red_black_plug)
qed

lemma rbt_remove_node:
  assumes rep: "rbt_rep n s f (plug fs (PNode l z c k v r)) t" and s: "rn_Color s = Black"
    and rb: "red_black (plug fs (PNode l z c k v r))"
  shows "\<exists>t1 t' s' T' x c'. (if root_ptr n l = n then do { t \<leftarrow> transplant t z (root_ptr n r); Some (t, root_ptr n r, c) }
      else if root_ptr n r = n then do { t \<leftarrow> transplant t z (root_ptr n l); Some (t, root_ptr n l, c) }
      else rbt_replace t z) = Some (t1, x, c') \<and> (if c' = Black then deleteFixup t1 x else Some t1) = Some t'
    \<and> rn_Color s' = Black \<and> rbt_rep n s' f T' t' \<and> inorder T' = left_of fs @ inorder l @ inorder r @ right_of fs
    \<and> red_black T'"
proof -
  have nil: "root_ptr n l = n \<longleftrightarrow> l = PLeaf" "root_ptr n r = n \<longleftrightarrow> r = PLeaf"
    using rbt_rep_distinct [OF rep] by auto
  have inv: "frames_c fs" "invc l" "invc r" "invh l" "invh r" "bheight l = bheight r"
    "c = Red \<longrightarrow> pcolor l = Black \<and> pcolor r = Black"
    "frames_h fs (if c = Black then Suc (bheight l) else bheight l)"
    using rb by (auto simp: red_black_plug)
  have child: ?thesis if W: "W = l \<and> r = PLeaf \<or> W = r \<and> l = PLeaf" and
    run: "(if root_ptr n l = n then do { t \<leftarrow> transplant t z (root_ptr n r); Some (t, root_ptr n r, c) }
      else if root_ptr n r = n then do { t \<leftarrow> transplant t z (root_ptr n l); Some (t, root_ptr n l, c) }
      else rbt_replace t z) = do { t \<leftarrow> transplant t z (root_ptr n W); Some (t, root_ptr n W, c) }" for W
  proof -
    obtain t1 s1 where t1: "transplant t z (root_ptr n W) = Some t1" and rep1: "rbt_rep n s1 f (plug fs W) t1"
      and s1: "rn_Color s1 = Black" "W = PLeaf \<longrightarrow> rn_Parent s1 = above n fs"
      using transplant_child [OF rep, of W] W s by auto
    have "frames_h fs (if c = Black then Suc (bheight W) else bheight W)" "invc W" "invh W" "c = Red \<longrightarrow> pcolor W = Black"
      "inorder W = inorder l @ inorder r" using inv W by auto
    with rbt_finish_delete [OF rep1 s1 inv(1), of c] run t1 show ?thesis by fastforce
  qed
  consider "l = PLeaf" | "l \<noteq> PLeaf" "r = PLeaf" | "l \<noteq> PLeaf" "r \<noteq> PLeaf" by blast
  then show ?thesis
  proof cases
    case 1
    then show ?thesis by (intro child [of r]) simp_all
  next
    case 2
    with nil show ?thesis by (intro child [of l]) simp_all
  next
    case 3
    from rbt_replace_exact [OF rep 3] obtain t1 s1 gs y cy ky vy b where run: "rbt_replace t z = Some (t1, root_ptr n b, cy)"
      and r: "r = plug gs (PNode PLeaf y cy ky vy b)" "left_of gs = []"
      and rep1: "rbt_rep n s1 f (plug (gs @ InRight l y c ky vy # fs) b) t1" and s1: "rn_Color s1 = rn_Color s"
        "b = PLeaf \<longrightarrow> rn_Parent s1 = above n (gs @ InRight l y c ky vy # fs)" by blast
    let ?fs = "gs @ InRight l y c ky vy # fs"
    have "red_black (plug (gs @ InRight l z c k v # fs) (PNode PLeaf y cy ky vy b))"
      using rb r(1) by (simp add: plug_append)
    then have inv': "frames_c ?fs" "invc b" "invh b" "frames_h ?fs (if cy = Black then Suc (bheight b) else bheight b)"
      "cy = Red \<longrightarrow> pcolor b = Black"
      by (auto simp: red_black_plug frames_rename(1,2) [of gs l z c k v fs y ky vy]
          frames_rename(3) [of gs l z c k v fs _ y ky vy])
    obtain t' s' T'
      where "(if cy = Black then deleteFixup t1 (root_ptr n b) else Some t1) = Some t'" "rn_Color s' = Black"
        "rbt_rep n s' f T' t'" "inorder T' = left_of ?fs @ inorder b @ right_of ?fs" "red_black T'" using rbt_finish_delete [OF rep1 _ s1(2) inv'] s s1(1) by auto
    with run r 3 nil show ?thesis by (intro exI [of _ t1] exI [of _ t'] exI [of _ s'] exI [of _ T']) auto
  qed
qed

lemma rbt_Delete_entries:
  assumes "rbt_entries t E"
  shows "\<exists>b t' xs v ys. rbt_Delete t key = Some (b, t') \<and> rt_fresh t' = rt_fresh t
    \<and> (if key \<in> fst ` set E then b \<and> E = xs @ (key, v) # ys \<and> rbt_entries t' (xs @ ys) else \<not> b \<and> t' = t)"
proof -
  from assms obtain n s f T where rep: "rbt_rep n s f T t" and s: "rn_Color s = Black" and rb: "red_black T"
    and E: "inorder T = E" and sorted: "keys_sorted E" unfolding rbt_entries_def by blast
  have fields: "rt_Nil t = n" "rt_fresh t = f" using rep by (auto simp: rbt_rep_def)
  from rbt_Search_exact [OF rep, of key] sorted E consider
    (absent) "rbt_Search t key = Some 0" "key \<notin> fst ` set E"
    | (found) fs l z c v r where "rbt_Search t key = Some z" "z \<noteq> 0" "T = plug fs (PNode l z c key v r)" by auto
  then show ?thesis
  proof cases
    case absent
    then have "rbt_Delete t key = Some (False, t)" by (simp add: rbt_Delete_def)
    with absent(2) show ?thesis by auto
  next
    case found
    note rep' = rep [unfolded found(3)] and z = rbt_rep_read [OF rep [unfolded found(3)]]
    have E': "E = (left_of fs @ inorder l) @ (key, v) # inorder r @ right_of fs" using E found(3) by simp
    have "\<exists>t1 t' s' T' x c'. (if root_ptr n l = n then do { t \<leftarrow> transplant t z (root_ptr n r); Some (t, root_ptr n r, c) }
        else if root_ptr n r = n then do { t \<leftarrow> transplant t z (root_ptr n l); Some (t, root_ptr n l, c) }
        else rbt_replace t z) = Some (t1, x, c') \<and> (if c' = Black then deleteFixup t1 x else Some t1) = Some t'
      \<and> rn_Color s' = Black \<and> rbt_rep n s' f T' t' \<and> inorder T' = (left_of fs @ inorder l) @ inorder r @ right_of fs \<and> red_black T'"
      using rbt_remove_node [OF rep' s rb [unfolded found(3)]] by simp
    then obtain t1 t' s' T' x c' where run: "(if root_ptr n l = n then do { t \<leftarrow> transplant t z (root_ptr n r); Some (t, root_ptr n r, c) }
        else if root_ptr n r = n then do { t \<leftarrow> transplant t z (root_ptr n l); Some (t, root_ptr n l, c) }
        else rbt_replace t z) = Some (t1, x, c')" "(if c' = Black then deleteFixup t1 x else Some t1) = Some t'"
      and T': "rn_Color s' = Black" "rbt_rep n s' f T' t'" "inorder T' = (left_of fs @ inorder l) @ inorder r @ right_of fs" "red_black T'"
      by blast
    have "rbt_Delete t key = do {
        (t, x, yOriginalColor) \<leftarrow> (if root_ptr n l = n then do { t \<leftarrow> transplant t z (root_ptr n r); Some (t, root_ptr n r, c) }
          else if root_ptr n r = n then do { t \<leftarrow> transplant t z (root_ptr n l); Some (t, root_ptr n l, c) }
          else rbt_replace t z);
        t \<leftarrow> (if yOriginalColor = Black then deleteFixup t x else Some t);
        Some (True, t) }"
      unfolding rbt_Delete_def using found(1,2) z fields by simp
    then have "rbt_Delete t key = Some (True, t')" unfolding run(1) using run(2) by simp
    moreover have "keys_sorted ((left_of fs @ inorder l) @ inorder r @ right_of fs)"
      using sorted E' by (auto simp: sorted_append)
    then have "rbt_entries t' ((left_of fs @ inorder l) @ inorder r @ right_of fs)"
      using T' unfolding rbt_entries_def by blast
    moreover have "key \<in> fst ` set E" using E' by force
    moreover have "rt_fresh t' = rt_fresh t" using fields rbt_rep_fields(2) [OF T'(2)] by simp
    ultimately show ?thesis using E' by metis
  qed
qed

end
