(* ===== verification/RbSpecs.thy ===== *)
theory RbSpecs
  imports RbDeletes
begin

text \<open>
  What the red-black tree of \<open>algo/red_black_tree.go\<close> promises: any sequence of its operations behaves
  as on the sorted list of the keys, duplicates kept, and its depth stays logarithmic.
\<close>

section \<open>Traversal\<close>

lemma inOrderHelper_exact:
  "in_heap (rt_heap t) n par T \<Longrightarrow> n \<notin> set (addrs T) \<Longrightarrow> rt_Nil t = n \<Longrightarrow> pheight T < fuel
    \<Longrightarrow> inOrderHelper fuel t (root_ptr n T) result = Some (result @ map fst (inorder T))"
proof (induction T arbitrary: par fuel result)
  case PLeaf
  then show ?case by (cases fuel) auto
next
  case (PNode l p c k v r)
  then obtain fuel' where fuel: "fuel = Suc fuel'" by (cases fuel) auto
  with PNode.prems have "inOrderHelper fuel' t (root_ptr n l) result = Some (result @ map fst (inorder l))"
    by (intro PNode.IH(1)) auto
  moreover from PNode.prems fuel have "inOrderHelper fuel' t (root_ptr n r) ((result @ map fst (inorder l)) @ [k])
      = Some (((result @ map fst (inorder l)) @ [k]) @ map fst (inorder r))"
    by (intro PNode.IH(2)) auto
  ultimately show ?case using PNode.prems fuel by auto
qed

lemma InOrderTraversal_entries:
  assumes "rbt_entries t E"
  shows "InOrderTraversal t = Some (map fst E)"
proof -
  from assms obtain n s f T where rep: "rbt_rep n s f T t" and E: "inorder T = E" unfolding rbt_entries_def by blast
  have "pheight T < f" using pheight_le [of T] length_addrs_rep [OF rep] by linarith
  with rep E inOrderHelper_exact [of t n n T f "[]"] show ?thesis
    by (simp add: InOrderTraversal_def rbt_rep_def)
qed

section \<open>Search\<close>

lemma rbt_Search_entries:
  assumes "rbt_entries t E"
  shows "rbt_Search t key = Some 0 \<and> key \<notin> fst ` set E
    \<or> (\<exists>p node. rbt_Search t key = Some p \<and> p \<noteq> 0 \<and> rt_heap t p = Some node \<and> rn_Key node = key
        \<and> (key, rn_Value node) \<in> set E)"
proof -
  from assms obtain n s f T where rep: "rbt_rep n s f T t" and E: "inorder T = E" and sorted: "keys_sorted E"
    unfolding rbt_entries_def by blast
  from rbt_Search_exact [OF rep, of key] sorted E consider
    (absent) "rbt_Search t key = Some 0" "key \<notin> fst ` set E"
    | (found) fs l p c v r where "rbt_Search t key = Some p" "p \<noteq> 0" "T = plug fs (PNode l p c key v r)" by auto
  then show ?thesis
  proof cases
    case found
    from rbt_rep_read [OF rep [unfolded found(3)]] found E show ?thesis by auto
  qed simp
qed

section \<open>The operations as steps\<close>

datatype ('k, 'v) rbt_op = RInsert 'k 'v | RDelete 'k | RSearch 'k | RInOrder

fun rbt_step :: "('k::linorder, 'v) rbt_tree \<Rightarrow> ('k, 'v) rbt_op \<Rightarrow> ('k out \<times> ('k, 'v) rbt_tree) option" where
  "rbt_step t (RInsert key v) = do { t \<leftarrow> rbt_Insert t key v; Some (Unit, t) }"
| "rbt_step t (RDelete key) = do { (b, t) \<leftarrow> rbt_Delete t key; Some (Flag b, t) }"
| "rbt_step t (RSearch key) = do { p \<leftarrow> rbt_Search t key; Some (Flag (p \<noteq> 0), t) }"
| "rbt_step t RInOrder = do { ks \<leftarrow> InOrderTraversal t; Some (Items ks, t) }"

fun rbt_spec :: "'k::linorder list \<Rightarrow> ('k, 'v) rbt_op \<Rightarrow> 'k out \<times> 'k list" where
  "rbt_spec ks (RInsert key v) = (Unit, insort key ks)"
| "rbt_spec ks (RDelete key) = (Flag (key \<in> set ks), remove1 key ks)"
| "rbt_spec ks (RSearch key) = (Flag (key \<in> set ks), ks)"
| "rbt_spec ks RInOrder = (Items ks, ks)"

definition rbt_keys :: "('k::linorder, 'v) rbt_tree \<Rightarrow> 'k list \<Rightarrow> bool" where
  "rbt_keys t ks \<longleftrightarrow> (\<exists>E. rbt_entries t E \<and> map fst E = ks)"

lemma sorted_mset_unique: "sorted xs \<Longrightarrow> sorted ys \<Longrightarrow> mset xs = mset ys \<Longrightarrow> xs = (ys :: 'a::linorder list)"
  by (metis properties_for_sort)

lemma keys_insert_sorted:
  assumes "keys_sorted E"
  shows "map fst (insert_sorted k v E) = insort k (map fst E)"
proof (rule sorted_mset_unique)
  show "sorted (map fst (insert_sorted k v E))" unfolding insert_sorted_def by (rule keys_sorted_insert [OF assms])
  show "sorted (insort k (map fst E))" using assms by (simp add: sorted_insort)
  have "mset (insert_sorted k v E) = add_mset (k, v) (mset E)"
    unfolding insert_sorted_def using takeWhile_dropWhile_id [of "\<lambda>e. fst e \<le> k" E]
    by (metis mset.simps(2) mset_append union_mset_add_mset_right)
  then have "image_mset fst (mset (insert_sorted k v E)) = image_mset fst (add_mset (k, v) (mset E))" by (rule arg_cong)
  then show "mset (map fst (insert_sorted k v E)) = mset (insort k (map fst E))" by simp
qed

lemma remove1_sorted:
  assumes "sorted (xs @ k # ys)"
  shows "remove1 k (xs @ k # ys) = xs @ (ys :: 'a::linorder list)"
proof (rule sorted_mset_unique)
  show "sorted (remove1 k (xs @ k # ys))" using assms by (rule sorted_remove1)
  show "sorted (xs @ ys)" using assms by (simp add: sorted_append)
qed simp

lemma rbt_step_keys:
  assumes "rbt_keys t ks"
  shows "\<exists>t'. rbt_step t x = Some (fst (rbt_spec ks x), t') \<and> rbt_keys t' (snd (rbt_spec ks x))"
proof -
  from assms obtain E where E: "rbt_entries t E" and ks: "ks = map fst E" unfolding rbt_keys_def by blast
  have sorted: "keys_sorted E" using E unfolding rbt_entries_def by blast
  show ?thesis
  proof (cases x)
    case (RInsert key v)
    with rbt_Insert_entries [OF E, of key v] keys_insert_sorted [OF sorted, of key v] ks show ?thesis
      unfolding rbt_keys_def by auto
  next
    case (RDelete key)
    obtain b t' xs v ys where d: "rbt_Delete t key = Some (b, t')"
      "if key \<in> fst ` set E then b \<and> E = xs @ (key, v) # ys \<and> rbt_entries t' (xs @ ys) else \<not> b \<and> t' = t"
      using rbt_Delete_entries [OF E, of key] by blast
    show ?thesis
    proof (cases "key \<in> fst ` set E")
      case True
      with d have E': "E = xs @ (key, v) # ys" "rbt_entries t' (xs @ ys)" "b" by auto
      have "remove1 key ks = map fst (xs @ ys)"
        using remove1_sorted [of "map fst xs" key "map fst ys"] sorted ks E'(1) by simp
      with True d(1) E' ks RDelete show ?thesis unfolding rbt_keys_def by auto
    next
      case False
      with d E ks RDelete show ?thesis unfolding rbt_keys_def by (auto simp: remove1_idem)
    qed
  next
    case (RSearch key)
    with rbt_Search_entries [OF E, of key] assms ks show ?thesis by (force simp: image_iff)
  next
    case RInOrder
    with InOrderTraversal_entries [OF E] assms ks show ?thesis by simp
  qed
qed

interpretation rbtree: refinement rbt_step rbt_spec rbt_keys
  by unfold_locales (rule rbt_step_keys)

lemma rbt_keys_new: "rbt_keys (NewRedBlackTree zk zv) []"
  using rbt_entries_new [of zk zv] unfolding rbt_keys_def by auto

section \<open>Depth\<close>

lemma pheight_bheight: "invc t \<Longrightarrow> invh t \<Longrightarrow> pheight t \<le> 2 * bheight t + (if pcolor t = Red then 1 else 0)"
  by (induction t) (auto split: if_splits)

lemma bheight_size: "invh t \<Longrightarrow> 2 ^ bheight t \<le> Suc (length (inorder t))"
  by (induction t) (auto simp: algebra_simps)

lemma red_black_depth:
  assumes "red_black t" and "Suc (length (inorder t)) < 2 ^ m"
  shows "pheight t < 2 * m - 1"
proof -
  have "pheight t \<le> 2 * bheight t" using pheight_bheight [of t] assms(1) by (auto simp: red_black_def)
  moreover have "(2 :: nat) ^ bheight t < 2 ^ m"
    by (rule le_less_trans [OF bheight_size assms(2)]) (use assms(1) in \<open>simp add: red_black_def\<close>)
  then have "bheight t < m" by simp
  ultimately show ?thesis by linarith
qed

lemma rbt_keys_traversal: "rbt_keys t ks \<Longrightarrow> InOrderTraversal t = Some ks"
  using InOrderTraversal_entries unfolding rbt_keys_def by blast

section \<open>Properties\<close>

text \<open>C4: any sequence of insertions, deletions, searches and traversals of a new red-black tree returns,
  never panics, and answers as on the sorted list of the keys, duplicates kept: an insertion puts the
  key in its place, a deletion removes one occurrence and says whether there was one.\<close>

theorem RedBlackTree_refines_sorted_list:
  "\<exists>t rs ks. run_steps rbt_step (NewRedBlackTree zeroKey zeroValue) ops = Some (rs, t)
    \<and> run_steps (total_step rbt_spec) [] ops = Some (rs, ks) \<and> InOrderTraversal t = Some ks"
proof -
  obtain t rs ks where "run_steps rbt_step (NewRedBlackTree zeroKey zeroValue) ops = Some (rs, t)"
    "run_steps (total_step rbt_spec) [] ops = Some (rs, ks)" and "rbt_keys t ks"
    using rbtree.run_refines [OF rbt_keys_new, of zeroKey zeroValue ops] by blast
  with rbt_keys_traversal show ?thesis by blast
qed

text \<open>C11: after any sequence of operations the tree is a red-black tree, so a search and the descent of an
  insertion pass at most \<open>2 m - 2\<close> nodes when there are fewer than \<open>2 ^ m - 1\<close> keys.\<close>

theorem RedBlackTree_logarithmic_depth:
  assumes "run_steps rbt_step (NewRedBlackTree zeroKey zeroValue) ops = Some (rs, t)"
    and "InOrderTraversal t = Some ks" and "Suc (length ks) < 2 ^ m"
  shows "rbt_search_loop (2 * m - 1) t key (rt_Root t) \<noteq> None
    \<and> rbt_descend (2 * m - 1) t key (rt_Nil t) (rt_Root t) \<noteq> None
    \<and> (\<exists>n s f T. rbt_rep n s f T t \<and> red_black T)"
proof -
  obtain ks' where "rbt_keys t ks'" using rbtree.run_outputs [OF rbt_keys_new assms(1)] by blast
  then obtain E where ent: "rbt_entries t E" unfolding rbt_keys_def by blast
  then obtain n s f T where rep: "rbt_rep n s f T t" and rb: "red_black T" and E: "inorder T = E" "keys_sorted E"
    unfolding rbt_entries_def by blast
  have fields: "in_heap (rt_heap t) n n T" "n \<notin> set (addrs T)" "rt_Nil t = n" "rt_Root t = root_ptr n T"
    using rep by (auto simp: rbt_rep_def)
  have "length ks = length (inorder T)" using InOrderTraversal_entries [OF ent] assms(2) E(1) by auto
  then have deep: "pheight T < 2 * m - 1" using red_black_depth [OF rb] assms(3) by simp
  have "rbt_search_loop (2 * m - 1) t key (rt_Root t) \<noteq> None"
    using rbt_search_loop_exact [OF fields(1,2,3) _ deep, of key] E fields(4) by auto
  moreover have "rbt_descend (2 * m - 1) t key (rt_Nil t) (rt_Root t) \<noteq> None"
    using rbt_descend_exact [of t n "[]" T key "2 * m - 1"] fields E deep by auto
  ultimately show ?thesis using rep rb by blast
qed

theorem RedBlackTree_logarithmic_depth_witness:
  "\<exists>rs t. run_steps rbt_step (NewRedBlackTree 0 ()) (map (\<lambda>k. RInsert k ()) [1 :: int, 2, 3, 4, 5, 6, 7, 8]) = Some (rs, t)
    \<and> InOrderTraversal t = Some [1, 2, 3, 4, 5, 6, 7, 8] \<and> rbt_search_loop 7 t 8 (rt_Root t) \<noteq> None"
proof -
  let ?ops = "map (\<lambda>k. RInsert k ()) [1 :: int, 2, 3, 4, 5, 6, 7, 8]"
  have "run_steps (total_step rbt_spec) [] ?ops = Some (replicate 8 Unit, [1, 2, 3, 4, 5, 6, 7, 8])"
    by (simp add: numeral_eq_Suc)
  with rbtree.run_refines [OF rbt_keys_new, of 0 "()" ?ops] obtain t rs
    where run: "run_steps rbt_step (NewRedBlackTree 0 ()) ?ops = Some (rs, t)" and "rbt_keys t [1, 2, 3, 4, 5, 6, 7, 8]"
    by (metis Pair_inject option.inject)
  then have ks: "InOrderTraversal t = Some [1, 2, 3, 4, 5, 6, 7, 8]" by (blast intro: rbt_keys_traversal)
  from RedBlackTree_logarithmic_depth [OF run ks, of 4 8] run ks show ?thesis by auto
qed

text \<open>With values: a search returns nil exactly for the keys that are absent, and otherwise a node with
  the key and a value stored under it; an insertion adds its entry behind those with keys at most its
  own; a deletion removes one entry with the key.\<close>

theorem RedBlackTree_keeps_entries:
  assumes "rbt_entries t E"
  shows "(rbt_Search t key = Some 0 \<and> key \<notin> fst ` set E
      \<or> (\<exists>p node. rbt_Search t key = Some p \<and> p \<noteq> 0 \<and> rt_heap t p = Some node \<and> rn_Key node = key
          \<and> (key, rn_Value node) \<in> set E))
    \<and> (\<exists>t'. rbt_Insert t key v = Some t' \<and> rbt_entries t'
          (takeWhile (\<lambda>e. fst e \<le> key) E @ (key, v) # dropWhile (\<lambda>e. fst e \<le> key) E))
    \<and> (\<exists>b t' xs w ys. rbt_Delete t key = Some (b, t')
        \<and> (if key \<in> fst ` set E then b \<and> E = xs @ (key, w) # ys \<and> rbt_entries t' (xs @ ys) else \<not> b \<and> t' = t))"
  using rbt_Search_entries [OF assms, of key] rbt_Insert_entries [OF assms, of key v]
    rbt_Delete_entries [OF assms, of key] unfolding insert_sorted_def by metis

theorem RedBlackTree_keeps_entries_witness:
  "\<exists>t. rbt_Insert (NewRedBlackTree 0 ''zero'') (3 :: int) ''three'' = Some t \<and> rbt_entries t [(3, ''three'')]"
  using RedBlackTree_keeps_entries [OF rbt_entries_new [of "0 :: int" "''zero''"], of 3 "''three''"] by simp

end
