(* ===== verification/OrderedSets.thy ===== *)
theory OrderedSets
  imports RbSpecs
begin

text \<open>
  \<open>algo/ordered_set.go\<close>: the ordered set over the red-black tree of \<open>RbTrees\<close>.

  The zero value of the element type, which the constructor stores in the tree's sentinel, and the
  formatting of an element are arguments; \<open>ForEach\<close> returns the calls it makes. Every operation on a
  set of the tree's keys returns and never panics.
\<close>

section \<open>The code\<close>

record 'a ordered_set =
  os_tree :: "('a, unit) rbt_tree"
  os_size :: int

definition NewOrderedSet :: "'a \<Rightarrow> 'a ordered_set" where
  "NewOrderedSet zero = \<lparr>os_tree = NewRedBlackTree zero (), os_size = 0\<rparr>"

definition os_Contains :: "'a::linorder ordered_set \<Rightarrow> 'a \<Rightarrow> bool option" where
  "os_Contains s element = do { p \<leftarrow> rbt_Search (os_tree s) element; Some (p \<noteq> 0) }"

definition os_Add :: "'a::linorder ordered_set \<Rightarrow> 'a \<Rightarrow> (bool \<times> 'a ordered_set) option" where
  "os_Add s element = do {
     present \<leftarrow> os_Contains s element;
     if present then Some (False, s)
     else do {
       t \<leftarrow> rbt_Insert (os_tree s) element ();
       Some (True, s\<lparr>os_tree := t, os_size := os_size s + 1\<rparr>) } }"

definition os_Remove :: "'a::linorder ordered_set \<Rightarrow> 'a \<Rightarrow> (bool \<times> 'a ordered_set) option" where
  "os_Remove s element = do {
     (deleted, t) \<leftarrow> rbt_Delete (os_tree s) element;
     if deleted then Some (True, s\<lparr>os_tree := t, os_size := os_size s - 1\<rparr>)
     else Some (False, s\<lparr>os_tree := t\<rparr>) }"

definition os_Size :: "'a ordered_set \<Rightarrow> int" where
  "os_Size s = os_size s"

definition os_IsEmpty :: "'a ordered_set \<Rightarrow> bool" where
  "os_IsEmpty s \<longleftrightarrow> os_size s = 0"

definition os_Clear :: "'a \<Rightarrow> 'a ordered_set \<Rightarrow> 'a ordered_set" where
  "os_Clear zero s = s\<lparr>os_tree := NewRedBlackTree zero (), os_size := 0\<rparr>"

definition os_ToSlice :: "'a ordered_set \<Rightarrow> 'a list option" where
  "os_ToSlice s = InOrderTraversal (os_tree s)"

fun os_leftmost :: "nat \<Rightarrow> ('a, unit) rbt_tree \<Rightarrow> ptr \<Rightarrow> ptr option" where
  "os_leftmost 0 t current = None"
| "os_leftmost (Suc fuel) t current = do {
     l \<leftarrow> rbt_left t current;
     if l \<noteq> rt_Nil t then os_leftmost fuel t l else Some current }"

fun os_rightmost :: "nat \<Rightarrow> ('a, unit) rbt_tree \<Rightarrow> ptr \<Rightarrow> ptr option" where
  "os_rightmost 0 t current = None"
| "os_rightmost (Suc fuel) t current = do {
     r \<leftarrow> rbt_right t current;
     if r \<noteq> rt_Nil t then os_rightmost fuel t r else Some current }"

definition os_Min :: "'a ordered_set \<Rightarrow> 'a option option" where
  "os_Min s =
     (if os_IsEmpty s then Some None
      else do {
        current \<leftarrow> os_leftmost (rt_fresh (os_tree s)) (os_tree s) (rt_Root (os_tree s));
        n \<leftarrow> rt_heap (os_tree s) current;
        Some (Some (rn_Key n)) })"

definition os_Max :: "'a ordered_set \<Rightarrow> 'a option option" where
  "os_Max s =
     (if os_IsEmpty s then Some None
      else do {
        current \<leftarrow> os_rightmost (rt_fresh (os_tree s)) (os_tree s) (rt_Root (os_tree s));
        n \<leftarrow> rt_heap (os_tree s) current;
        Some (Some (rn_Key n)) })"

text \<open>The loops that add, remove or look up every element of a slice.\<close>

fun os_AddAll :: "'a::linorder ordered_set \<Rightarrow> 'a list \<Rightarrow> (int \<times> 'a ordered_set) option" where
  "os_AddAll s [] = Some (0, s)"
| "os_AddAll s (element # elements) = do {
     (b, s) \<leftarrow> os_Add s element;
     (added, s) \<leftarrow> os_AddAll s elements;
     Some (if b then 1 + added else added, s) }"

fun os_RemoveAll :: "'a::linorder ordered_set \<Rightarrow> 'a list \<Rightarrow> (int \<times> 'a ordered_set) option" where
  "os_RemoveAll s [] = Some (0, s)"
| "os_RemoveAll s (element # elements) = do {
     (b, s) \<leftarrow> os_Remove s element;
     (removed, s) \<leftarrow> os_RemoveAll s elements;
     Some (if b then 1 + removed else removed, s) }"

fun os_ContainsAll :: "'a::linorder ordered_set \<Rightarrow> 'a list \<Rightarrow> bool option" where
  "os_ContainsAll s [] = Some True"
| "os_ContainsAll s (element # elements) = do {
     b \<leftarrow> os_Contains s element;
     if \<not> b then Some False else os_ContainsAll s elements }"

fun os_ContainsAny :: "'a::linorder ordered_set \<Rightarrow> 'a list \<Rightarrow> bool option" where
  "os_ContainsAny s [] = Some False"
| "os_ContainsAny s (element # elements) = do {
     b \<leftarrow> os_Contains s element;
     if b then Some True else os_ContainsAny s elements }"

text \<open>The loop of the operations that copy to \<open>result\<close> the elements \<open>other\<close> has, or has not.\<close>

fun os_add_where :: "('a \<Rightarrow> bool option) \<Rightarrow> 'a::linorder ordered_set \<Rightarrow> 'a list \<Rightarrow> 'a ordered_set option" where
  "os_add_where p res [] = Some res"
| "os_add_where p res (element # elements) = do {
     b \<leftarrow> p element;
     res \<leftarrow> (if b then do { (_, r) \<leftarrow> os_Add res element; Some r } else Some res);
     os_add_where p res elements }"

abbreviation os_lacks :: "'a::linorder ordered_set \<Rightarrow> 'a \<Rightarrow> bool option" where
  "os_lacks s element \<equiv> map_option Not (os_Contains s element)"

definition os_Union :: "'a::linorder \<Rightarrow> 'a ordered_set \<Rightarrow> 'a ordered_set \<Rightarrow> 'a ordered_set option" where
  "os_Union zero s other = do {
     xs \<leftarrow> os_ToSlice s;
     res \<leftarrow> os_add_where (\<lambda>_. Some True) (NewOrderedSet zero) xs;
     ys \<leftarrow> os_ToSlice other;
     os_add_where (\<lambda>_. Some True) res ys }"

definition os_Intersection :: "'a::linorder \<Rightarrow> 'a ordered_set \<Rightarrow> 'a ordered_set \<Rightarrow> 'a ordered_set option" where
  "os_Intersection zero s other =
     (let (smaller, larger) = (if os_Size other < os_Size s then (other, s) else (s, other))
      in do { xs \<leftarrow> os_ToSlice smaller; os_add_where (os_Contains larger) (NewOrderedSet zero) xs })"

definition os_Difference :: "'a::linorder \<Rightarrow> 'a ordered_set \<Rightarrow> 'a ordered_set \<Rightarrow> 'a ordered_set option" where
  "os_Difference zero s other = do {
     xs \<leftarrow> os_ToSlice s; os_add_where (os_lacks other) (NewOrderedSet zero) xs }"

definition os_SymmetricDifference ::
  "'a::linorder \<Rightarrow> 'a ordered_set \<Rightarrow> 'a ordered_set \<Rightarrow> 'a ordered_set option" where
  "os_SymmetricDifference zero s other = do {
     xs \<leftarrow> os_ToSlice s;
     res \<leftarrow> os_add_where (os_lacks other) (NewOrderedSet zero) xs;
     ys \<leftarrow> os_ToSlice other;
     os_add_where (os_lacks s) res ys }"

definition os_IsSubset :: "'a::linorder ordered_set \<Rightarrow> 'a ordered_set \<Rightarrow> bool option" where
  "os_IsSubset s other =
     (if os_Size s > os_Size other then Some False
      else do { xs \<leftarrow> os_ToSlice s; os_ContainsAll other xs })"

definition os_IsSuperset :: "'a::linorder ordered_set \<Rightarrow> 'a ordered_set \<Rightarrow> bool option" where
  "os_IsSuperset s other = os_IsSubset other s"

definition os_Equals :: "'a::linorder ordered_set \<Rightarrow> 'a ordered_set \<Rightarrow> bool option" where
  "os_Equals s other = (if os_Size s \<noteq> os_Size other then Some False else os_IsSubset s other)"

definition os_Filter :: "'a::linorder \<Rightarrow> 'a ordered_set \<Rightarrow> ('a \<Rightarrow> bool) \<Rightarrow> 'a ordered_set option" where
  "os_Filter zero s predicate = do {
     xs \<leftarrow> os_ToSlice s; os_add_where (\<lambda>x. Some (predicate x)) (NewOrderedSet zero) xs }"

definition os_ForEach :: "'a ordered_set \<Rightarrow> ('a \<Rightarrow> 'b) \<Rightarrow> 'b list option" where
  "os_ForEach s fn = do { xs \<leftarrow> os_ToSlice s; Some (map fn xs) }"

fun str_join :: "string list \<Rightarrow> string \<Rightarrow> string" where
  "str_join [] sep = []"
| "str_join [s] sep = s"
| "str_join (s # ss) sep = s @ sep @ str_join ss sep"

definition os_String :: "('a \<Rightarrow> string) \<Rightarrow> 'a ordered_set \<Rightarrow> string option" where
  "os_String fmt s =
     (if os_IsEmpty s then Some ''{}''
      else do { elements \<leftarrow> os_ToSlice s; Some (''{'' @ str_join (map fmt elements) '', '' @ ''}'') })"

definition os_Clone :: "'a::linorder \<Rightarrow> 'a ordered_set \<Rightarrow> 'a ordered_set option" where
  "os_Clone zero s = do {
     xs \<leftarrow> os_ToSlice s; os_add_where (\<lambda>_. Some True) (NewOrderedSet zero) xs }"

section \<open>The set represented\<close>

definition os_rel :: "'a::linorder ordered_set \<Rightarrow> 'a set \<Rightarrow> bool" where
  "os_rel s A \<longleftrightarrow> finite A \<and> rbt_keys (os_tree s) (sorted_list_of_set A) \<and> os_size s = int (card A)"

lemma os_rel_new: "os_rel (NewOrderedSet zero) {}"
  by (simp add: os_rel_def NewOrderedSet_def rbt_keys_new)

lemma os_rel_clear: "os_rel (os_Clear zero s) {}"
  by (simp add: os_rel_def os_Clear_def rbt_keys_new)

lemma os_rel_ToSlice: "os_rel s A \<Longrightarrow> os_ToSlice s = Some (sorted_list_of_set A)"
  by (simp add: os_rel_def os_ToSlice_def rbt_keys_traversal)

lemma os_rel_Contains: "os_rel s A \<Longrightarrow> os_Contains s x = Some (x \<in> A)"
  using rbtree.step_refines [of "os_tree s" "sorted_list_of_set A" "RSearch x"]
  by (auto simp: os_rel_def os_Contains_def bind_eq_Some_conv)

lemma os_rel_Size: "os_rel s A \<Longrightarrow> os_Size s = int (card A)"
  by (simp add: os_rel_def os_Size_def)

lemma os_rel_IsEmpty: "os_rel s A \<Longrightarrow> os_IsEmpty s \<longleftrightarrow> A = {}"
  by (auto simp: os_rel_def os_IsEmpty_def)

lemma os_rel_Add:
  assumes "os_rel s A"
  shows "\<exists>s'. os_Add s x = Some (x \<notin> A, s') \<and> os_rel s' (insert x A)"
proof (cases "x \<in> A")
  case True
  with assms show ?thesis by (auto simp: os_Add_def os_rel_Contains insert_absorb)
next
  case False
  obtain t where "rbt_Insert (os_tree s) x () = Some t" "rbt_keys t (insort x (sorted_list_of_set A))"
    using rbtree.step_refines [of "os_tree s" "sorted_list_of_set A" "RInsert x ()"] assms
    by (auto simp: os_rel_def bind_eq_Some_conv)
  with assms False show ?thesis
    by (auto simp: os_Add_def os_rel_Contains [OF assms] os_rel_def sorted_list_of_set_insert_remove)
qed

lemma os_rel_Remove:
  assumes "os_rel s A"
  shows "\<exists>s'. os_Remove s x = Some (x \<in> A, s') \<and> os_rel s' (A - {x})"
proof -
  obtain t where t: "rbt_Delete (os_tree s) x = Some (x \<in> A, t)" "rbt_keys t (remove1 x (sorted_list_of_set A))"
    using rbtree.step_refines [of "os_tree s" "sorted_list_of_set A" "RDelete x"] assms
    by (auto simp: os_rel_def bind_eq_Some_conv)
  have fin: "finite A" using assms by (simp add: os_rel_def)
  have "card (A - {x}) = card A - 1 \<and> 0 < card A" if "x \<in> A" using fin that by (auto simp: card_gt_0_iff)
  with t fin assms show ?thesis
    by (auto simp: os_Remove_def os_rel_def sorted_list_of_set_remove remove1_idem)
qed

section \<open>Smallest and greatest element\<close>

lemma os_leftmost_minimum: "os_leftmost fuel t x = rbt_minimum fuel t x"
  by (induction fuel arbitrary: x) (simp_all cong: Option.bind_cong if_cong)

lemma os_rightmost_minimum: "os_rightmost fuel t x = rbt_minimum fuel (rbt_mirror t) x"
  by (induction fuel arbitrary: x) (simp_all add: option.map_comp o_def cong: Option.bind_cong if_cong)

lemma rbt_minimum_hd:
  assumes rep: "rbt_rep n s f T t" and T: "T \<noteq> PLeaf"
  shows "\<exists>p node. rbt_minimum f t (rt_Root t) = Some p \<and> rt_heap t p = Some node \<and> rn_Key node = fst (hd (inorder T))"
proof -
  obtain l p c k v r where node: "T = PNode l p c k v r" using T by (cases T) auto
  have "pheight T \<le> f" using pheight_le [of T] length_addrs_rep [OF rep] by linarith
  with rep node rbt_minimum_exact [of t n n l p c k v r f] obtain gs y cy ky vy b
    where m: "rbt_minimum f t p = Some y" and T': "T = plug gs (PNode PLeaf y cy ky vy b)" "left_of gs = []"
    by (auto simp: rbt_rep_def)
  have "hd (inorder T) = (ky, vy)" using T' by simp
  with m rbt_rep_read [OF rep [unfolded T'(1)]] rbt_rep_fields(4) [OF rep] node show ?thesis by simp
qed

lemma last_sorted_Max: "xs \<noteq> [] \<Longrightarrow> sorted xs \<Longrightarrow> last xs = Max (set xs)"
proof (rule sym, rule Max_eqI)
  fix y assume xs: "xs \<noteq> []" "sorted xs" and y: "y \<in> set xs"
  have "xs = butlast xs @ [last xs]" using xs(1) by simp
  with xs(2) have "\<forall>x \<in> set (butlast xs). x \<le> last xs" by (metis sorted_append list.set_intros(1))
  with y show "y \<le> last xs" by (metis in_set_butlastD append_butlast_last_id xs(1) in_set_conv_decomp
      order_refl rotate1.simps(2) set_ConsD set_rotate1)
qed simp_all

lemma os_extremes:
  assumes "os_rel s A" and "A \<noteq> {}"
  shows "os_Min s = Some (Some (Min A)) \<and> os_Max s = Some (Some (Max A))"
proof -
  let ?t = "os_tree s" and ?xs = "sorted_list_of_set A"
  have fin: "finite A" and "rbt_keys ?t ?xs" using assms(1) by (auto simp: os_rel_def)
  then obtain n sn f T where rep: "rbt_rep n sn f T ?t" and xs: "map fst (inorder T) = ?xs"
    unfolding rbt_keys_def rbt_entries_def by blast
  have nempty: "?xs \<noteq> []" using fin assms(2) by simp
  then have ne: "?xs \<noteq> []" "T \<noteq> PLeaf" "inorder T \<noteq> []" using xs by auto
  have "hd ?xs = Min A" using fin assms(2) by (simp add: sorted_list_of_set_nonempty)
  moreover have "last ?xs = Max A" using last_sorted_Max [OF nempty] fin by simp
  moreover have "hd (map fst (inorder T)) = fst (hd (inorder T))" "last (map fst (inorder T)) = fst (last (inorder T))"
    using ne(3) by (simp_all add: hd_map last_map)
  ultimately have ends: "fst (hd (inorder T)) = Min A" "fst (last (inorder T)) = Max A" using xs by simp_all
  note repm = rbt_rep_mirror [OF rep]
  have "pmirror T \<noteq> PLeaf" using ne(2) by (cases T) auto
  from rbt_minimum_hd [OF rep ne(2)] rbt_minimum_hd [OF repm this] ends ne(3) assms rbt_rep_fields(2) [OF rep]
  show ?thesis
    by (auto simp: os_Min_def os_Max_def os_rel_IsEmpty os_leftmost_minimum os_rightmost_minimum
        inorder_pmirror hd_rev)
qed

section \<open>Loops over a slice\<close>

lemma os_rel_AddAll:
  "os_rel s A \<Longrightarrow> \<exists>s'. os_AddAll s xs = Some (int (card (A \<union> set xs)) - int (card A), s') \<and> os_rel s' (A \<union> set xs)"
proof (induction xs arbitrary: s A)
  case (Cons x xs)
  obtain s1 where s1: "os_Add s x = Some (x \<notin> A, s1)" "os_rel s1 (insert x A)"
    using os_rel_Add [OF Cons.prems] by blast
  obtain s2 where "os_AddAll s1 xs = Some (int (card (insert x A \<union> set xs)) - int (card (insert x A)), s2)"
    "os_rel s2 (insert x A \<union> set xs)" using Cons.IH [OF s1(2)] by blast
  moreover have "finite A" using Cons.prems by (simp add: os_rel_def)
  ultimately show ?case using s1(1) by (auto simp: insert_absorb)
qed simp

lemma os_rel_RemoveAll:
  "os_rel s A \<Longrightarrow> \<exists>s'. os_RemoveAll s xs = Some (int (card A) - int (card (A - set xs)), s') \<and> os_rel s' (A - set xs)"
proof (induction xs arbitrary: s A)
  case (Cons x xs)
  obtain s1 where s1: "os_Remove s x = Some (x \<in> A, s1)" "os_rel s1 (A - {x})"
    using os_rel_Remove [OF Cons.prems] by blast
  have split: "A - {x} - set xs = A - set (x # xs)" by auto
  obtain s2 where s2: "os_RemoveAll s1 xs = Some (int (card (A - {x})) - int (card (A - set (x # xs))), s2)"
    and rel: "os_rel s2 (A - set (x # xs))" using Cons.IH [OF s1(2)] unfolding split by blast
  have "finite A" using Cons.prems by (simp add: os_rel_def)
  then have "x \<in> A \<Longrightarrow> 1 + int (card (A - {x})) = int (card A)"
    using card_Suc_Diff1 [of A x] by linarith
  then have count: "(if x \<in> A then 1 + (int (card (A - {x})) - r) else int (card (A - {x})) - r) = int (card A) - r" for r
    by auto
  have "os_RemoveAll s (x # xs) = Some (if x \<in> A then 1 + r else r, s2)" if "os_RemoveAll s1 xs = Some (r, s2)" for r
    using s1(1) that by simp
  from this [OF s2] rel show ?case unfolding count by blast
qed simp

lemma os_rel_ContainsAll: "os_rel s A \<Longrightarrow> os_ContainsAll s xs = Some (set xs \<subseteq> A)"
  by (induction xs) (auto simp: os_rel_Contains)

lemma os_rel_ContainsAny: "os_rel s A \<Longrightarrow> os_ContainsAny s xs = Some (set xs \<inter> A \<noteq> {})"
  by (induction xs) (auto simp: os_rel_Contains)

lemma os_rel_add_where:
  "os_rel s A \<Longrightarrow> \<exists>s'. os_add_where (\<lambda>x. Some (P x)) s xs = Some s' \<and> os_rel s' (A \<union> {x \<in> set xs. P x})"
proof (induction xs arbitrary: s A)
  case (Cons x xs)
  show ?case
  proof (cases "P x")
    case True
    obtain s1 where s1: "os_Add s x = Some (x \<notin> A, s1)" "os_rel s1 (insert x A)"
      using os_rel_Add [OF Cons.prems(1)] by blast
    have "insert x A \<union> {x \<in> set xs. P x} = A \<union> {y \<in> set (x # xs). P y}" using True by auto
    with Cons.IH [OF s1(2)] s1(1) True show ?thesis by simp
  next
    case False
    have "{x \<in> set xs. P x} = {y \<in> set (x # xs). P y}" using False by auto
    with Cons.IH [OF Cons.prems] False show ?thesis by simp
  qed
qed simp

section \<open>Operations on two sets\<close>

lemma os_membership:
  assumes "os_rel s A"
  shows "os_Contains s = (\<lambda>x. Some (x \<in> A))" and "os_lacks s = (\<lambda>x. Some (x \<notin> A))"
  using os_rel_Contains [OF assms] by (auto simp: fun_eq_iff)

lemma os_rel_finite: "os_rel s A \<Longrightarrow> set (sorted_list_of_set A) = A"
  by (simp add: os_rel_def)

text \<open>Copying the elements of \<open>s\<close> with \<open>P\<close> into \<open>r\<close>.\<close>

lemma os_copy:
  assumes "os_rel s A" and "os_rel r C"
  shows "\<exists>r'. os_add_where (\<lambda>x. Some (P x)) r (sorted_list_of_set A) = Some r' \<and> os_rel r' (C \<union> {x \<in> A. P x})"
  using os_rel_add_where [OF assms(2), of P "sorted_list_of_set A"] os_rel_finite [OF assms(1)] by simp

lemma os_binary:
  assumes A: "os_rel s A" and B: "os_rel other B"
  shows "\<exists>r. os_Union zero s other = Some r \<and> os_rel r (A \<union> B)"
    and "\<exists>r. os_Intersection zero s other = Some r \<and> os_rel r (A \<inter> B)"
    and "\<exists>r. os_Difference zero s other = Some r \<and> os_rel r (A - B)"
    and "\<exists>r. os_SymmetricDifference zero s other = Some r \<and> os_rel r ((A - B) \<union> (B - A))"
proof -
  note slices = os_rel_ToSlice [OF A] os_rel_ToSlice [OF B] and new = os_rel_new [of zero]
  obtain r where r: "os_add_where (\<lambda>x. Some True) (NewOrderedSet zero) (sorted_list_of_set A) = Some r" "os_rel r A"
    using os_copy [OF A new, of "\<lambda>_. True"] by auto
  with os_copy [OF B r(2), of "\<lambda>_. True"] show "\<exists>r. os_Union zero s other = Some r \<and> os_rel r (A \<union> B)"
    by (simp add: os_Union_def slices)
  have "{x \<in> A. x \<in> B} = A \<inter> B" "{x \<in> B. x \<in> A} = A \<inter> B" by auto
  with os_copy [OF A new, of "\<lambda>x. x \<in> B"] os_copy [OF B new, of "\<lambda>x. x \<in> A"]
  show "\<exists>r. os_Intersection zero s other = Some r \<and> os_rel r (A \<inter> B)"
    by (simp add: os_Intersection_def slices os_membership [OF A] os_membership [OF B])
  obtain d where d: "os_add_where (\<lambda>x. Some (x \<notin> B)) (NewOrderedSet zero) (sorted_list_of_set A) = Some d" "os_rel d (A - B)"
    using os_copy [OF A new, of "\<lambda>x. x \<notin> B"] by (auto simp: set_diff_eq)
  then show "\<exists>r. os_Difference zero s other = Some r \<and> os_rel r (A - B)"
    by (simp add: os_Difference_def slices os_membership [OF B])
  from d os_copy [OF B d(2), of "\<lambda>x. x \<notin> A"]
  show "\<exists>r. os_SymmetricDifference zero s other = Some r \<and> os_rel r ((A - B) \<union> (B - A))"
    by (simp add: os_SymmetricDifference_def slices os_membership [OF A] os_membership [OF B] set_diff_eq)
qed

lemma os_comparison:
  assumes A: "os_rel s A" and B: "os_rel other B"
  shows "os_IsSubset s other = Some (A \<subseteq> B)" and "os_Equals s other = Some (A = B)"
proof -
  have fin: "finite A" "finite B" using A B by (simp_all add: os_rel_def)
  show sub: "os_IsSubset s other = Some (A \<subseteq> B)"
    using fin card_mono [of B A] os_rel_ContainsAll [OF B, of "sorted_list_of_set A"]
    by (auto simp: os_IsSubset_def os_rel_Size [OF A] os_rel_Size [OF B] os_rel_ToSlice [OF A])
  show "os_Equals s other = Some (A = B)"
    using fin card_seteq [of B A]
    by (auto simp: os_Equals_def sub os_rel_Size [OF A] os_rel_Size [OF B])
qed

section \<open>The operations as steps\<close>

text \<open>An operation on two sets takes the set of the elements of a slice, built with \<open>AddAll\<close>, as the
  other one; those that return a set go on with it.\<close>

datatype 'a os_op =
    SAdd 'a | SRemove 'a | SContains 'a | SSize | SIsEmpty | SClear | SToSlice | SMin | SMax
  | SAddAll "'a list" | SRemoveAll "'a list" | SContainsAll "'a list" | SContainsAny "'a list"
  | SUnion "'a list" | SIntersection "'a list" | SDifference "'a list" | SSymmetricDifference "'a list"
  | SIsSubset "'a list" | SIsSuperset "'a list" | SEquals "'a list" | SFilter "'a \<Rightarrow> bool" | SClone

definition os_of :: "'a::linorder \<Rightarrow> 'a list \<Rightarrow> 'a ordered_set option" where
  "os_of zero xs = map_option snd (os_AddAll (NewOrderedSet zero) xs)"

fun os_step :: "'a::linorder \<Rightarrow> 'a ordered_set \<Rightarrow> 'a os_op \<Rightarrow> ('a out \<times> 'a ordered_set) option" where
  "os_step zero s (SAdd x) = do { (b, s) \<leftarrow> os_Add s x; Some (Flag b, s) }"
| "os_step zero s (SRemove x) = do { (b, s) \<leftarrow> os_Remove s x; Some (Flag b, s) }"
| "os_step zero s (SContains x) = do { b \<leftarrow> os_Contains s x; Some (Flag b, s) }"
| "os_step zero s SSize = Some (Count (os_Size s), s)"
| "os_step zero s SIsEmpty = Some (Flag (os_IsEmpty s), s)"
| "os_step zero s SClear = Some (Unit, os_Clear zero s)"
| "os_step zero s SToSlice = do { xs \<leftarrow> os_ToSlice s; Some (Items xs, s) }"
| "os_step zero s SMin = do { x \<leftarrow> os_Min s; Some (Item x, s) }"
| "os_step zero s SMax = do { x \<leftarrow> os_Max s; Some (Item x, s) }"
| "os_step zero s (SAddAll xs) = do { (n, s) \<leftarrow> os_AddAll s xs; Some (Count n, s) }"
| "os_step zero s (SRemoveAll xs) = do { (n, s) \<leftarrow> os_RemoveAll s xs; Some (Count n, s) }"
| "os_step zero s (SContainsAll xs) = do { b \<leftarrow> os_ContainsAll s xs; Some (Flag b, s) }"
| "os_step zero s (SContainsAny xs) = do { b \<leftarrow> os_ContainsAny s xs; Some (Flag b, s) }"
| "os_step zero s (SUnion xs) = do { r \<leftarrow> os_of zero xs; s \<leftarrow> os_Union zero s r; Some (Unit, s) }"
| "os_step zero s (SIntersection xs) = do { r \<leftarrow> os_of zero xs; s \<leftarrow> os_Intersection zero s r; Some (Unit, s) }"
| "os_step zero s (SDifference xs) = do { r \<leftarrow> os_of zero xs; s \<leftarrow> os_Difference zero s r; Some (Unit, s) }"
| "os_step zero s (SSymmetricDifference xs) =
     do { r \<leftarrow> os_of zero xs; s \<leftarrow> os_SymmetricDifference zero s r; Some (Unit, s) }"
| "os_step zero s (SIsSubset xs) = do { r \<leftarrow> os_of zero xs; b \<leftarrow> os_IsSubset s r; Some (Flag b, s) }"
| "os_step zero s (SIsSuperset xs) = do { r \<leftarrow> os_of zero xs; b \<leftarrow> os_IsSuperset s r; Some (Flag b, s) }"
| "os_step zero s (SEquals xs) = do { r \<leftarrow> os_of zero xs; b \<leftarrow> os_Equals s r; Some (Flag b, s) }"
| "os_step zero s (SFilter p) = do { s \<leftarrow> os_Filter zero s p; Some (Unit, s) }"
| "os_step zero s SClone = do { s \<leftarrow> os_Clone zero s; Some (Unit, s) }"

fun os_spec :: "'a::linorder set \<Rightarrow> 'a os_op \<Rightarrow> 'a out \<times> 'a set" where
  "os_spec A (SAdd x) = (Flag (x \<notin> A), insert x A)"
| "os_spec A (SRemove x) = (Flag (x \<in> A), A - {x})"
| "os_spec A (SContains x) = (Flag (x \<in> A), A)"
| "os_spec A SSize = (Count (int (card A)), A)"
| "os_spec A SIsEmpty = (Flag (A = {}), A)"
| "os_spec A SClear = (Unit, {})"
| "os_spec A SToSlice = (Items (sorted_list_of_set A), A)"
| "os_spec A SMin = (Item (if A = {} then None else Some (Min A)), A)"
| "os_spec A SMax = (Item (if A = {} then None else Some (Max A)), A)"
| "os_spec A (SAddAll xs) = (Count (int (card (A \<union> set xs)) - int (card A)), A \<union> set xs)"
| "os_spec A (SRemoveAll xs) = (Count (int (card A) - int (card (A - set xs))), A - set xs)"
| "os_spec A (SContainsAll xs) = (Flag (set xs \<subseteq> A), A)"
| "os_spec A (SContainsAny xs) = (Flag (set xs \<inter> A \<noteq> {}), A)"
| "os_spec A (SUnion xs) = (Unit, A \<union> set xs)"
| "os_spec A (SIntersection xs) = (Unit, A \<inter> set xs)"
| "os_spec A (SDifference xs) = (Unit, A - set xs)"
| "os_spec A (SSymmetricDifference xs) = (Unit, (A - set xs) \<union> (set xs - A))"
| "os_spec A (SIsSubset xs) = (Flag (A \<subseteq> set xs), A)"
| "os_spec A (SIsSuperset xs) = (Flag (set xs \<subseteq> A), A)"
| "os_spec A (SEquals xs) = (Flag (A = set xs), A)"
| "os_spec A (SFilter p) = (Unit, {x \<in> A. p x})"
| "os_spec A SClone = (Unit, A)"

lemma os_of_rel:
  obtains r where "os_of zero xs = Some r" and "os_rel r (set xs)"
  using os_rel_AddAll [OF os_rel_new, of zero xs] by (auto simp: os_of_def)

lemma os_extremes_step:
  assumes "os_rel s A"
  shows "os_Min s = Some (if A = {} then None else Some (Min A))" and "os_Max s = Some (if A = {} then None else Some (Max A))"
  using os_extremes [OF assms] os_rel_IsEmpty [OF assms] by (auto simp: os_Min_def os_Max_def)

lemma os_step_refines:
  assumes "os_rel s A"
  shows "\<exists>s'. os_step zero s x = Some (fst (os_spec A x), s') \<and> os_rel s' (snd (os_spec A x))"
proof -
  note simple = os_rel_Contains [OF assms] os_rel_Size [OF assms] os_rel_IsEmpty [OF assms] os_rel_clear
    os_rel_ToSlice [OF assms] os_rel_ContainsAll [OF assms] os_rel_ContainsAny [OF assms] assms
    os_extremes_step [OF assms]
  obtain e where e: "os_Add s a = Some (a \<notin> A, e a) \<and> os_rel (e a) (insert a A)" for a
    using os_rel_Add [OF assms] by metis
  obtain d where d: "os_Remove s a = Some (a \<in> A, d a) \<and> os_rel (d a) (A - {a})" for a
    using os_rel_Remove [OF assms] by metis
  show ?thesis
  proof (cases x)
    case (SAddAll xs)
    with os_rel_AddAll [OF assms, of xs] show ?thesis by auto
  next
    case (SRemoveAll xs)
    with os_rel_RemoveAll [OF assms, of xs] show ?thesis by auto
  next
    case (SUnion xs)
    obtain r where "os_of zero xs = Some r" "os_rel r (set xs)" by (rule os_of_rel)
    with os_binary(1) [OF assms, of r "set xs" zero] SUnion show ?thesis by auto
  next
    case (SIntersection xs)
    obtain r where "os_of zero xs = Some r" "os_rel r (set xs)" by (rule os_of_rel)
    with os_binary(2) [OF assms, of r "set xs" zero] SIntersection show ?thesis by auto
  next
    case (SDifference xs)
    obtain r where "os_of zero xs = Some r" "os_rel r (set xs)" by (rule os_of_rel)
    with os_binary(3) [OF assms, of r "set xs" zero] SDifference show ?thesis by auto
  next
    case (SSymmetricDifference xs)
    obtain r where "os_of zero xs = Some r" "os_rel r (set xs)" by (rule os_of_rel)
    with os_binary(4) [OF assms, of r "set xs" zero] SSymmetricDifference show ?thesis by auto
  next
    case (SIsSubset xs)
    obtain r where "os_of zero xs = Some r" "os_rel r (set xs)" by (rule os_of_rel)
    with os_comparison(1) [OF assms, of r "set xs"] SIsSubset assms show ?thesis by simp
  next
    case (SIsSuperset xs)
    obtain r where "os_of zero xs = Some r" "os_rel r (set xs)" by (rule os_of_rel)
    with os_comparison(1) [OF _ assms, of r "set xs"] SIsSuperset assms show ?thesis by (simp add: os_IsSuperset_def)
  next
    case (SEquals xs)
    obtain r where "os_of zero xs = Some r" "os_rel r (set xs)" by (rule os_of_rel)
    with os_comparison(2) [OF assms, of r "set xs"] SEquals assms show ?thesis by simp
  next
    case (SFilter p)
    with os_copy [OF assms os_rel_new, of p zero] simple show ?thesis by (auto simp: os_Filter_def)
  next
    case SClone
    with os_copy [OF assms os_rel_new, of "\<lambda>_. True" zero] simple show ?thesis by (auto simp: os_Clone_def)
  qed (use simple e d in auto)
qed

interpretation oset: refinement "os_step zero" os_spec os_rel for zero :: "'a::linorder"
  by unfold_locales (rule os_step_refines)

section \<open>Properties\<close>

text \<open>C5: the ordered set is a finite set: any sequence of its operations on a new one returns, never
  panics, and answers as on the set; \<open>ToSlice\<close> is the sorted list of its elements and \<open>Size\<close> their
  number.\<close>

theorem OrderedSet_refines_set:
  "\<exists>s rs A. run_steps (os_step zero) (NewOrderedSet zero) ops = Some (rs, s)
    \<and> run_steps (total_step os_spec) {} ops = Some (rs, A)
    \<and> os_ToSlice s = Some (sorted_list_of_set A) \<and> os_Size s = int (card A)"
proof -
  obtain s rs A where "run_steps (os_step zero) (NewOrderedSet zero) ops = Some (rs, s)"
    "run_steps (total_step os_spec) {} ops = Some (rs, A)" and rel: "os_rel s A"
    using oset.run_refines [OF os_rel_new, of zero zero ops] by blast
  with os_rel_ToSlice [OF rel] os_rel_Size [OF rel] show ?thesis by blast
qed

end
