(* ===== verification/Doubles.thy ===== *)
theory Doubles
  imports Complex_Main "HOL-Library.Log_Nat"
begin

text \<open>
  Floating-point numbers of 64 bits, as Go's \<open>float64\<close> and the numbers of Redis' Lua have them: a
  value is a rational number, and an operation is the exact operation followed by \<open>rnd\<close>, rounding to
  53 significant bits, to nearest with ties to even. Overflow to infinity and subnormal numbers do
  not occur at the magnitudes of the code and are left out.
\<close>

definition half_even :: "rat \<Rightarrow> int" where
  "half_even x =
     (let f = \<lfloor>x\<rfloor>; d = x - of_int f
      in if d < 1 / 2 then f else if d > 1 / 2 then f + 1 else if even f then f else f + 1)"

text \<open>The power of two at or below a positive number, and the weight of its last bit.\<close>

definition pow2 :: "int \<Rightarrow> rat" where
  "pow2 k = (if 0 \<le> k then 2 ^ nat k else 1 / 2 ^ nat (- k))"

definition binade :: "rat \<Rightarrow> int" where
  "binade x =
     (let (p, q) = quotient_of x; k = bitlen p - bitlen q
      in if x \<ge> pow2 k then k else k - 1)"

definition rnd_pos :: "rat \<Rightarrow> rat" where
  "rnd_pos x = (let u = pow2 (binade x - 52) in of_int (half_even (x / u)) * u)"

definition rnd :: "rat \<Rightarrow> rat" where
  "rnd x = (if x = 0 then 0 else if x > 0 then rnd_pos x else - rnd_pos (- x))"

section \<open>Rounding to an integer\<close>

lemma half_even_int [simp]: "half_even (of_int k) = k"
  by (simp add: half_even_def)

lemma half_even_near: "of_int (half_even x) - x \<le> 1 / 2" "x - of_int (half_even x) \<le> 1 / 2"
  unfolding half_even_def Let_def by (auto split: if_splits) linarith+

lemma half_even_floor: "half_even x = \<lfloor>x\<rfloor> \<or> half_even x = \<lfloor>x\<rfloor> + 1"
  by (simp add: half_even_def Let_def)

lemma half_even_mono:
  assumes "x \<le> y" shows "half_even x \<le> half_even y"
proof (cases "\<lfloor>x\<rfloor> = \<lfloor>y\<rfloor>")
  case True
  then show ?thesis using assms by (auto simp: half_even_def Let_def)
next
  case False
  then have "\<lfloor>x\<rfloor> + 1 \<le> \<lfloor>y\<rfloor>" using floor_mono[OF assms] by linarith
  then show ?thesis using half_even_floor[of x] half_even_floor[of y] by linarith
qed

lemma half_even_between:
  assumes "of_int a \<le> x" and "x \<le> of_int b" shows "a \<le> half_even x" "half_even x \<le> b"
  using half_even_mono[OF assms(1)] half_even_mono[OF assms(2)] by simp_all

section \<open>Powers of two\<close>

lemma pow2_pos [simp]: "0 < pow2 k"
  by (simp add: pow2_def)

lemma pow2_nonneg [simp]: "0 \<le> pow2 k"
  using pow2_pos[of k] by linarith

lemma pow2_neq [simp]: "pow2 k \<noteq> 0"
  using pow2_pos[of k] by linarith

lemma pow2_powi: "pow2 k = 2 powi k"
  by (simp add: pow2_def power_int_def inverse_eq_divide power_one_over)

lemma pow2_add: "pow2 (a + b) = pow2 a * pow2 b"
  by (simp add: pow2_powi power_int_add)

lemma pow2_0 [simp]: "pow2 0 = 1"
  by (simp add: pow2_def)

lemma pow2_nat: "0 \<le> k \<Longrightarrow> pow2 k = 2 ^ nat k"
  by (simp add: pow2_def)

lemma pow2_mono: "a \<le> b \<Longrightarrow> pow2 a \<le> pow2 b"
  by (simp add: pow2_powi power_int_increasing)

lemma pow2_less: "a < b \<Longrightarrow> pow2 a < pow2 b"
  by (simp add: pow2_powi power_int_strict_increasing)

lemma pow2_less_iff: "pow2 a < pow2 b \<longleftrightarrow> a < b"
  using pow2_less[of a b] pow2_mono[of b a] by (cases "a < b") auto

lemma pow2_int: "0 \<le> k \<Longrightarrow> pow2 k = of_int (2 ^ nat k)"
  by (simp add: pow2_def)

lemma pow2_diff: "pow2 (a - b) = pow2 a / pow2 b"
  using pow2_add[of "a - b" b] by (simp add: field_simps)

section \<open>The binade of a positive number\<close>

lemma binade_bounds:
  assumes "x > 0" shows "pow2 (binade x) \<le> x" "x < pow2 (binade x + 1)"
proof -
  obtain p q where pq: "quotient_of x = (p, q)" by fastforce
  have q: "q > 0" using quotient_of_denom_pos[OF pq] .
  have x: "x = of_int p / of_int q" using quotient_of_div[OF pq] .
  have p: "p > 0" using assms q by (auto simp: x field_simps)
  define a b where "a = bitlen p - 1" and "b = bitlen q - 1"
  have a: "pow2 a \<le> of_int p" "of_int p < pow2 (a + 1)" and a0: "0 \<le> a"
    and b: "pow2 b \<le> of_int q" "of_int q < pow2 (b + 1)" and b0: "0 \<le> b"
  proof -
    have *: "0 \<le> bitlen z - 1 \<and> pow2 (bitlen z - 1) \<le> of_int z \<and> of_int z < pow2 (bitlen z - 1 + 1)"
      if "z > 0" for z :: int
    proof -
      have 1: "1 \<le> bitlen z" using that by (simp add: bitlen_alt_def)
      have "(of_int (2 ^ nat (bitlen z - 1)) :: rat) \<le> of_int z \<and> (of_int z :: rat) < of_int (2 ^ nat (bitlen z))"
        using bitlen_bounds[OF that] by (metis of_int_le_iff of_int_less_iff)
      then show ?thesis using 1 by (simp add: pow2_nat)
    qed
    show "pow2 a \<le> of_int p" "of_int p < pow2 (a + 1)" "0 \<le> a" using *[OF p] by (auto simp: a_def)
    show "pow2 b \<le> of_int q" "of_int q < pow2 (b + 1)" "0 \<le> b" using *[OF q] by (auto simp: b_def)
  qed
  have q': "(of_int q :: rat) > 0" using q by simp
  have up: "x < pow2 (a - b + 1)"
  proof -
    have "of_int p < pow2 (a - b + 1) * pow2 b"
      using a(2) by (simp add: pow2_add[symmetric])
    also have "\<dots> \<le> pow2 (a - b + 1) * of_int q" using b(1) by simp
    finally show ?thesis using q' by (simp add: x pos_divide_less_eq)
  qed
  have low: "pow2 (a - b - 1) \<le> x"
  proof -
    have "pow2 (a - b - 1) * of_int q \<le> pow2 (a - b - 1) * pow2 (b + 1)" using b(2) by simp
    also have "\<dots> = pow2 a" by (simp add: pow2_add[symmetric])
    also have "\<dots> \<le> of_int p" by (rule a(1))
    finally show ?thesis using q' by (simp add: x pos_le_divide_eq)
  qed
  have k: "bitlen p - bitlen q = a - b" by (simp add: a_def b_def)
  show "pow2 (binade x) \<le> x" "x < pow2 (binade x + 1)"
    using up low by (auto simp: binade_def pq k Let_def)
qed

lemma binade_less:
  assumes "x > 0" "x < pow2 k" shows "binade x < k"
  using binade_bounds(1)[OF assms(1)] assms(2) pow2_less_iff[of "binade x" k] by linarith

lemma binade_ge:
  assumes "pow2 k \<le> x" shows "k \<le> binade x"
proof -
  have "x > 0" using assms pow2_pos[of k] by linarith
  then have "pow2 k < pow2 (binade x + 1)" using binade_bounds(2)[of x] assms by linarith
  then show ?thesis by (simp add: pow2_less_iff)
qed

lemma binade_mono: "0 < x \<Longrightarrow> x \<le> y \<Longrightarrow> binade x \<le> binade y"
  by (rule binade_ge) (use binade_bounds(1)[of x] in linarith)

section \<open>Laws of rounding\<close>

lemma rnd_pos_bounds:
  assumes "x > 0" shows "pow2 (binade x) \<le> rnd_pos x" "rnd_pos x \<le> pow2 (binade x + 1)"
proof -
  define u where "u = pow2 (binade x - 52)"
  have u: "u > 0" by (simp add: u_def)
  have "pow2 (binade x) = pow2 52 * u" "pow2 (binade x + 1) = pow2 53 * u"
    by (simp_all add: u_def pow2_add[symmetric] add.commute)
  then have s: "pow2 (binade x) = of_int (2 ^ 52) * u" "pow2 (binade x + 1) = of_int (2 ^ 53) * u"
    by (simp_all add: pow2_def)
  have "of_int (2 ^ 52) \<le> x / u" "x / u \<le> of_int (2 ^ 53)"
    using binade_bounds[OF assms] u unfolding s by (simp_all add: field_simps)
  from half_even_between[OF this] have "2 ^ 52 \<le> half_even (x / u)" "half_even (x / u) \<le> 2 ^ 53" .
  then have "(of_int (2 ^ 52) :: rat) \<le> of_int (half_even (x / u))"
    "(of_int (half_even (x / u)) :: rat) \<le> of_int (2 ^ 53)" by (simp_all only: of_int_le_iff)
  then show "pow2 (binade x) \<le> rnd_pos x" "rnd_pos x \<le> pow2 (binade x + 1)"
    unfolding s rnd_pos_def Let_def u_def[symmetric] using u by (simp_all only: mult_right_mono less_imp_le)
qed

lemma rnd_pos_pos: "x > 0 \<Longrightarrow> rnd_pos x > 0"
  using rnd_pos_bounds(1)[of x] pow2_pos[of "binade x"] by linarith

lemma rnd_pos_mono:
  assumes "0 < x" "x \<le> y" shows "rnd_pos x \<le> rnd_pos y"
proof (cases "binade x = binade y")
  case True
  define u where "u = pow2 (binade x - 52)"
  have u: "u > 0" by (simp add: u_def)
  have "x / u \<le> y / u" using assms(2) u by (simp add: divide_right_mono)
  then have "half_even (x / u) \<le> half_even (y / u)" by (rule half_even_mono)
  moreover have "pow2 (binade y - 52) = u" using True by (simp add: u_def)
  ultimately show ?thesis using u by (simp add: rnd_pos_def Let_def u_def[symmetric])
next
  case False
  then have "binade x + 1 \<le> binade y" using binade_mono[OF assms] by linarith
  then have "pow2 (binade x + 1) \<le> pow2 (binade y)" by (rule pow2_mono)
  then show ?thesis using rnd_pos_bounds[of x] rnd_pos_bounds[of y] assms by linarith
qed

lemma rnd_pos_error:
  assumes "x > 0" shows "\<bar>rnd_pos x - x\<bar> \<le> x / 2 ^ 53"
proof -
  define u where "u = pow2 (binade x - 52)"
  have u: "u > 0" by (simp add: u_def)
  have ux: "u * 2 ^ 52 \<le> x"
  proof -
    have "u * 2 ^ 52 = pow2 (binade x - 52) * pow2 52" by (simp add: u_def pow2_def[of 52])
    also have "\<dots> = pow2 (binade x)" by (simp add: pow2_add[symmetric])
    finally show ?thesis using binade_bounds(1)[OF assms] by simp
  qed
  define m where "m = (of_int (half_even (x / u)) :: rat)"
  have "m - x / u \<le> 1 / 2" "x / u - m \<le> 1 / 2" unfolding m_def by (rule half_even_near)+
  then have "(m - x / u) * u \<le> 1 / 2 * u" "(x / u - m) * u \<le> 1 / 2 * u"
    using u by (simp_all only: mult_right_mono less_imp_le)
  then have "m * u - x \<le> u / 2" "x - m * u \<le> u / 2" using u by (simp_all add: left_diff_distrib)
  moreover have "u / 2 \<le> x / 2 ^ 53" using ux by simp
  moreover have "rnd_pos x = m * u" by (simp add: rnd_pos_def Let_def u_def m_def)
  ultimately show ?thesis by linarith
qed

lemma rnd_pos_exact:
  assumes "x = of_int m * pow2 k" "0 < m" "m < 2 ^ 53" shows "rnd_pos x = x"
proof -
  have x: "x > 0" using assms by simp
  have "(of_int m :: rat) < of_int (2 ^ 53)" using assms(3) by (simp only: of_int_less_iff)
  then have "(of_int m :: rat) < pow2 53" by (simp add: pow2_def)
  then have "x < pow2 (53 + k)" using assms(1) by (simp add: pow2_add)
  then have e: "binade x - 52 \<le> k" using binade_less[OF x] by force
  define u where "u = pow2 (binade x - 52)"
  have "pow2 k = pow2 (k - (binade x - 52)) * u" by (simp add: u_def pow2_add[symmetric])
  then have "x = of_int (m * 2 ^ nat (k - (binade x - 52))) * u"
    using assms(1) e by (simp add: pow2_int)
  moreover have "u \<noteq> 0" by (simp add: u_def)
  ultimately have "x / u = of_int (m * 2 ^ nat (k - (binade x - 52)))" by (metis nonzero_mult_div_cancel_right)
  then have "half_even (x / u) = m * 2 ^ nat (k - (binade x - 52))" by (simp only: half_even_int)
  then show ?thesis using \<open>x = of_int (m * 2 ^ nat (k - (binade x - 52))) * u\<close>
    by (simp add: rnd_pos_def Let_def u_def[symmetric])
qed

lemma rnd_0 [simp]: "rnd 0 = 0"
  by (simp add: rnd_def)

lemma rnd_minus: "rnd (- x) = - rnd x"
  by (simp add: rnd_def)

lemma rnd_sign: "0 \<le> x \<Longrightarrow> 0 \<le> rnd x" "x \<le> 0 \<Longrightarrow> rnd x \<le> 0"
  using rnd_pos_pos[of x] rnd_pos_pos[of "- x"] by (auto simp: rnd_def)

lemma rnd_mono:
  assumes "x \<le> y" shows "rnd x \<le> rnd y"
proof -
  consider "0 < x" | "x \<le> 0" "0 \<le> y" | "y < 0" by linarith
  then show ?thesis
  proof cases
    case 1
    then show ?thesis using assms rnd_pos_mono[of x y] by (simp add: rnd_def)
  next
    case 2
    then show ?thesis using rnd_sign[of x] rnd_sign[of y] by linarith
  next
    case 3
    then show ?thesis using assms rnd_pos_mono[of "- y" "- x"] by (simp add: rnd_def)
  qed
qed

lemma rnd_error: "\<bar>rnd x - x\<bar> \<le> \<bar>x\<bar> / 2 ^ 53"
proof -
  consider "x = 0" | "0 < x" | "x < 0" by linarith
  then show ?thesis
  proof cases
    case 3
    then have "\<bar>rnd_pos (- x) + x\<bar> \<le> - x / 2 ^ 53" using rnd_pos_error[of "- x"] by simp
    moreover have "\<bar>- rnd_pos (- x) - x\<bar> = \<bar>rnd_pos (- x) + x\<bar>" by linarith
    ultimately show ?thesis using 3 by (simp add: rnd_def)
  qed (use rnd_pos_error[of x] in \<open>simp_all add: rnd_def\<close>)
qed

lemma rnd_scaled:
  assumes "\<bar>m\<bar> \<le> 2 ^ 53" shows "rnd (of_int m * pow2 k) = of_int m * pow2 k"
proof -
  have pos: "rnd (of_int m * pow2 k) = of_int m * pow2 k" if "0 < m" "m \<le> 2 ^ 53" for m
  proof (cases "m = 2 ^ 53")
    case True
    then have "of_int m * pow2 k = of_int 1 * pow2 (53 + k)" by (simp add: pow2_add pow2_def[of 53])
    from rnd_pos_exact[OF this] show ?thesis using that by (simp add: rnd_def)
  next
    case False
    then show ?thesis using that rnd_pos_exact[OF refl, of m k] by (simp add: rnd_def)
  qed
  consider "m = 0" | "0 < m" | "m < 0" by linarith
  then show ?thesis
    using pos[of m] pos[of "- m"] assms rnd_minus[of "of_int m * pow2 k"] by cases simp_all
qed

lemma rnd_int:
  assumes "\<bar>m\<bar> \<le> 2 ^ 53" shows "rnd (of_int m) = of_int m"
  using rnd_scaled[OF assms, of 0] by simp

lemma rnd_is_scaled:
  "\<exists>m k. rnd x = of_int m * pow2 k \<and> \<bar>m\<bar> \<le> 2 ^ 53"
proof -
  have pos: "\<exists>m k. rnd_pos x = of_int m * pow2 k \<and> 0 < m \<and> m \<le> 2 ^ 53" if "x > 0" for x
  proof -
    define u where "u = pow2 (binade x - 52)"
    have u: "u > 0" by (simp add: u_def)
    have "pow2 (binade x + 1) = of_int (2 ^ 53) * u"
      using pow2_add[of 53 "binade x - 52"] by (simp add: u_def pow2_def[of 53] add.commute)
    then have "rnd_pos x \<le> of_int (2 ^ 53) * u" "0 < rnd_pos x"
      using rnd_pos_bounds(2)[OF that] rnd_pos_pos[OF that] by simp_all
    moreover have r: "rnd_pos x = of_int (half_even (x / u)) * u"
      by (simp add: rnd_pos_def Let_def u_def)
    ultimately have "of_int (half_even (x / u)) * u \<le> of_int (2 ^ 53) * u" "0 < of_int (half_even (x / u)) * u"
      by simp_all
    then have "(of_int (half_even (x / u)) :: rat) \<le> of_int (2 ^ 53)" "(0 :: rat) < of_int (half_even (x / u))"
      using u by (blast dest: mult_right_le_imp_le, blast dest: zero_less_mult_pos2)
    then have "half_even (x / u) \<le> 2 ^ 53" "0 < half_even (x / u)"
      by (simp_all only: of_int_le_iff of_int_0_less_iff)
    then show ?thesis using r unfolding u_def by blast
  qed
  consider "x = 0" | "0 < x" | "x < 0" by linarith
  then show ?thesis
  proof cases
    case 1
    then show ?thesis by (intro exI[of _ 0]) simp
  next
    case 2
    then show ?thesis using pos[of x] by (auto simp: rnd_def)
  next
    case 3
    then obtain m k where "rnd_pos (- x) = of_int m * pow2 k" "0 < m" "m \<le> 2 ^ 53" using pos[of "- x"] by auto
    then have "rnd x = of_int (- m) * pow2 k" "\<bar>- m\<bar> \<le> 2 ^ 53" using 3 by (simp_all add: rnd_def)
    then show ?thesis by blast
  qed
qed

lemma rnd_idem [simp]: "rnd (rnd x) = rnd x"
  using rnd_is_scaled[of x] rnd_scaled by force

lemma rnd_Ints:
  assumes "x \<in> \<int>" shows "rnd x \<in> \<int>"
proof -
  obtain i where i: "x = of_int i" using assms by (auto elim: Ints_cases)
  show ?thesis
  proof (cases "\<bar>i\<bar> \<le> 2 ^ 53")
    case True
    then show ?thesis by (simp add: i rnd_int)
  next
    case False
    have big: "rnd_pos (of_int j) \<in> \<int>" if "j > 2 ^ 53" for j
    proof -
      have "(of_int (2 ^ 53) :: rat) \<le> of_int j" using that by (simp only: of_int_le_iff)
      then have "pow2 53 \<le> of_int j" by (simp add: pow2_def)
      then have "0 \<le> binade (of_int j) - 52" using binade_ge by force
      then show ?thesis by (simp add: rnd_pos_def Let_def pow2_int)
    qed
    then show ?thesis using False big[of i] big[of "- i"] by (auto simp: rnd_def i)
  qed
qed

lemma rnd_le: "x \<le> rnd y \<Longrightarrow> rnd x \<le> rnd y"
  using rnd_mono[of x "rnd y"] by simp

lemma rnd_floor_div:
  assumes "0 \<le> a" "a < 2 ^ 53" "0 < b"
  shows "\<lfloor>rnd (of_int a / of_int b)\<rfloor> = a div b"
proof -
  define q where "q = (of_int a :: rat) / of_int b"
  have q0: "0 \<le> q" using assms by (simp add: q_def)
  have floor: "\<lfloor>q\<rfloor> = a div b" by (simp add: q_def floor_divide_of_int_eq)
  have d: "0 \<le> a div b" "a div b \<le> a"
    using assms int_div_less_self[of a b] by (auto simp: pos_imp_zdiv_nonneg_iff) (metis div_by_1 le_less nonneg1_imp_zdiv_pos_iff zdiv_mono2 zless_add1_eq int_one_le_iff_zero_less zero_less_one)
  have "rnd (of_int (a div b)) = of_int (a div b)" by (rule rnd_int) (use d assms(2) in linarith)
  then have lower: "of_int (a div b) \<le> rnd q" using rnd_mono[of "of_int (a div b)" q] floor by linarith
  have "rnd q < of_int (a div b + 1)"
  proof (rule ccontr)
    assume "\<not> ?thesis"
    then have "of_int (a div b + 1) \<le> rnd q" by simp
    also have "rnd q \<le> q + q / 2 ^ 53"
    proof -
      have "\<bar>q\<bar> = q" using q0 by simp
      then show ?thesis using rnd_error[of q] by linarith
    qed
    finally have "of_int (a div b + 1) * of_int b \<le> (q + q / 2 ^ 53) * of_int b"
      using assms(3) by (simp only: mult_right_mono of_int_0_le_iff less_imp_le)
    also have "\<dots> = of_int a + of_int a / 2 ^ 53" using assms(3) by (simp add: q_def distrib_right)
    finally have "of_int ((a div b + 1) * b) \<le> (of_int a + of_int a / 2 ^ 53 :: rat)" by simp
    moreover have "(a div b + 1) * b \<ge> a + 1"
      using assms(3) by (simp add: distrib_right) (metis add.commute mult.commute zle_add1_eq_le pos_mod_bound add_less_cancel_left mult_div_mod_eq)
    then have "of_int (a + 1) \<le> (of_int ((a div b + 1) * b) :: rat)" by (simp only: of_int_le_iff)
    ultimately have "(1 :: rat) \<le> of_int a / 2 ^ 53" by simp
    then have "a \<ge> 2 ^ 53" by (simp add: field_simps)
    then show False using assms(2) by simp
  qed
  then have "\<lfloor>rnd q\<rfloor> = a div b" using lower by linarith
  then show ?thesis by (simp add: q_def)
qed

section \<open>Evaluation\<close>

function shift_one :: "int \<Rightarrow> int" where
  "shift_one k = (if k \<le> 0 then 1 else 2 * shift_one (k - 1))"
  by auto
termination by (relation "measure nat") auto

declare shift_one.simps [simp del]

lemma shift_one_power: "shift_one k = 2 ^ nat k"
proof (induction k rule: shift_one.induct)
  case (1 k)
  show ?case
  proof (cases "k \<le> 0")
    case False
    then have "nat k = Suc (nat (k - 1))" by simp
    then show ?thesis using False 1 by (simp add: shift_one.simps[of k])
  qed (simp add: shift_one.simps)
qed

lemma pow2_code [code]:
  "pow2 k = (if 0 \<le> k then of_int (shift_one k) else 1 / of_int (shift_one (- k)))"
  by (simp add: pow2_def shift_one_power)

lemma bitlen_code [code]: "bitlen k = (if k \<le> 0 then 0 else 1 + bitlen (k div 2))"
proof (cases "k \<le> 0")
  case False
  then have "floorlog 2 (nat k) = floorlog 2 (nat k div 2) + 1" by (subst compute_floorlog) simp
  moreover have "nat k div 2 = nat (k div 2)" by (simp add: nat_div_distrib)
  ultimately show ?thesis using False by (simp add: bitlen_def)
qed (simp add: bitlen_alt_def)

end
