(* ===== verification/RedisStores.thy ===== *)
theory RedisStores
  imports Prelude Doubles
begin

text \<open>
  What the Redis rate limiters share: decimal texts and \<open>strconv.ParseInt\<close>, the values a reply may
  hold with the \<open>toInt64\<close> of \<open>stability/redis_ratelimit.go\<close>, and the store. Redis is not part of the
  repository: a store is a parameter, the record \<open>redis\<close> of the commands the limiters send, and
  \<open>redis_lawful\<close> names what Redis documents of them. \<open>map_redis\<close> is a store of that kind, on which
  the witnesses run.
\<close>

section \<open>Decimal texts\<close>

definition digit :: "int \<Rightarrow> char" where
  "digit d = char_of (of_char (CHR ''0'') + d mod 10)"

function dec_nat :: "int \<Rightarrow> string" where
  "dec_nat n = (if n < 10 then [digit n] else dec_nat (n div 10) @ [digit (n mod 10)])"
  by auto
termination by (relation "measure nat") auto

declare dec_nat.simps [simp del]

definition dec :: "int \<Rightarrow> string" where
  "dec k = (if k < 0 then CHR ''-'' # dec_nat (- k) else dec_nat k)"

definition digit_value :: "char \<Rightarrow> int option" where
  "digit_value c =
     (let v = of_char c - of_char (CHR ''0'') in if 0 \<le> v \<and> v < 10 then Some v else None)"

fun parse_digits :: "int \<Rightarrow> string \<Rightarrow> int option" where
  "parse_digits acc [] = Some acc"
| "parse_digits acc (c # cs) =
     (case digit_value c of None \<Rightarrow> None | Some d \<Rightarrow> parse_digits (10 * acc + d) cs)"

definition parse_nat :: "string \<Rightarrow> int option" where
  "parse_nat s = (if s = [] then None else parse_digits 0 s)"

text \<open>\<open>strconv.ParseInt(s, 10, 64)\<close>.\<close>

definition parse_int64 :: "string \<Rightarrow> int option" where
  "parse_int64 s =
     (let (neg, ds) = (case s of
            [] \<Rightarrow> (False, [])
          | c # cs \<Rightarrow> if c = CHR ''-'' then (True, cs) else if c = CHR ''+'' then (False, cs) else (False, s))
      in case parse_nat ds of
           None \<Rightarrow> None
         | Some n \<Rightarrow>
             let v = (if neg then - n else n)
             in if - (2 ^ 63) \<le> v \<and> v < 2 ^ 63 then Some v else None)"

lemma of_char_digit: "of_char (digit d) = 48 + d mod (10 :: int)"
proof -
  have "(48 + d mod 10) mod 256 = 48 + d mod 10" by (rule mod_pos_pos_trivial) (smt (verit) pos_mod_sign pos_mod_bound)+
  then show ?thesis by (simp add: digit_def)
qed

lemma digit_value_digit: "0 \<le> d \<Longrightarrow> d < 10 \<Longrightarrow> digit_value (digit d) = Some d"
  by (simp add: digit_value_def of_char_digit)

lemma digit_no_sign: "digit d \<noteq> CHR ''-'' \<and> digit d \<noteq> CHR ''+'' \<and> digit d \<noteq> CHR ''/''"
proof -
  have "of_char (digit d) \<ge> (48 :: int)" by (simp add: of_char_digit)
  then show ?thesis by auto
qed

lemma parse_digits_append:
  "parse_digits acc (xs @ ys) = do { a \<leftarrow> parse_digits acc xs; parse_digits a ys }"
  by (induction xs arbitrary: acc) (auto split: option.splits)

lemma parse_digits_dec_nat:
  "0 \<le> n \<Longrightarrow> parse_digits acc (dec_nat n) = Some (acc * 10 ^ length (dec_nat n) + n)"
proof (induction n arbitrary: acc rule: dec_nat.induct)
  case (1 n)
  show ?case
  proof (cases "n < 10")
    case True
    then show ?thesis using 1(2) by (simp add: dec_nat.simps[of n] digit_value_digit)
  next
    case False
    have "0 \<le> n div 10" using 1(2) by simp
    then show ?thesis using 1(1)[OF False, of acc] False
      by (subst (1 2) dec_nat.simps) (simp add: parse_digits_append digit_value_digit algebra_simps)
  qed
qed

lemma dec_nat_nonempty: "dec_nat n \<noteq> []"
  by (subst dec_nat.simps) simp

lemma parse_nat_dec_nat: "0 \<le> n \<Longrightarrow> parse_nat (dec_nat n) = Some n"
  using parse_digits_dec_nat[of n 0] by (simp add: parse_nat_def dec_nat_nonempty)

lemma dec_nat_digits: "c \<in> set (dec_nat n) \<Longrightarrow> \<exists>d. c = digit d"
proof (induction n rule: dec_nat.induct)
  case (1 n)
  then show ?case by (cases "n < 10") (auto simp: dec_nat.simps[of n])
qed

lemma dec_nat_signs: "CHR ''-'' \<notin> set (dec_nat n)" "CHR ''+'' \<notin> set (dec_nat n)" "CHR ''/'' \<notin> set (dec_nat n)"
  using dec_nat_digits digit_no_sign by fastforce+

lemma parse_int64_dec:
  assumes "- (2 ^ 63) \<le> k" "k < 2 ^ 63" shows "parse_int64 (dec k) = Some k"
proof (cases "k < 0")
  case True
  then show ?thesis using assms by (simp add: parse_int64_def dec_def parse_nat_dec_nat)
next
  case False
  obtain c cs where c: "dec_nat k = c # cs" using dec_nat_nonempty by (meson list.exhaust)
  then have "c \<noteq> CHR ''-''" "c \<noteq> CHR ''+''" using dec_nat_signs[of k] by auto
  then show ?thesis using False assms parse_nat_dec_nat[of k] c by (simp add: parse_int64_def dec_def)
qed

section \<open>Values of replies\<close>

text \<open>An \<open>interface{}\<close> that a reply holds: nil, one of the number types, a string, a list, or a
  value of another type. A float is a rational number; its conversion truncates, and a result out of
  range is the smallest integer, as on amd64.\<close>

datatype go_value =
    GNil | GInt64 int | GInt int | GUint64 int | GFloat64 rat | GString string | GList "go_value list" | GOther string

definition trunc :: "rat \<Rightarrow> int" where
  "trunc x = (if 0 \<le> x then \<lfloor>x\<rfloor> else \<lceil>x\<rceil>)"

definition float_to_int64 :: "rat \<Rightarrow> int" where
  "float_to_int64 x = (if - (2 ^ 63) \<le> trunc x \<and> trunc x < 2 ^ 63 then trunc x else - (2 ^ 63))"

datatype rl_error =
    RedisError string
  | UnexpectedResponse
  | ValueOverflows
  | ParseError
  | UnsupportedNumber
  | PipelineClosed
  | PipelineQueueFull
  | ContextDone
  | RetriesExceeded
  | ResultMissing
  | CorrelationMismatch
  | NoTarget

definition toInt64 :: "go_value \<Rightarrow> rl_error + int" where
  "toInt64 v =
     (case v of
        GInt64 val \<Rightarrow> Inr val
      | GInt val \<Rightarrow> Inr val
      | GUint64 val \<Rightarrow> if val > 2 ^ 63 - 1 then Inl ValueOverflows else Inr val
      | GFloat64 val \<Rightarrow> Inr (float_to_int64 val)
      | GString val \<Rightarrow> (case parse_int64 val of None \<Rightarrow> Inl ParseError | Some parsed \<Rightarrow> Inr parsed)
      | _ \<Rightarrow> Inl UnsupportedNumber)"

definition of_hget :: "string option \<Rightarrow> go_value" where
  "of_hget v = (case v of None \<Rightarrow> GNil | Some s \<Rightarrow> GString s)"

section \<open>The store\<close>

text \<open>The commands: \<open>TIME\<close> in seconds and microseconds, \<open>HGET\<close>, \<open>HSET\<close> of a field, \<open>HINCRBY\<close>
  (\<open>None\<close> is an error reply), \<open>PEXPIRE\<close> in milliseconds; and Lua's conversions between numbers and
  texts, \<open>tonumber\<close>, the conversion of a number that is an argument of \<open>redis.call\<close>, and \<open>tostring\<close>.\<close>

record 'db redis =
  rd_TIME :: "'db \<Rightarrow> int \<times> int"
  rd_HGET :: "'db \<Rightarrow> string \<Rightarrow> string \<Rightarrow> string option"
  rd_HSET :: "string \<Rightarrow> string \<Rightarrow> string \<Rightarrow> 'db \<Rightarrow> 'db"
  rd_HINCRBY :: "string \<Rightarrow> string \<Rightarrow> int \<Rightarrow> 'db \<Rightarrow> (int \<times> 'db) option"
  rd_PEXPIRE :: "string \<Rightarrow> int \<Rightarrow> 'db \<Rightarrow> 'db"
  rd_tonumber :: "string \<Rightarrow> rat option"
  rd_argument :: "rat \<Rightarrow> string"
  rd_tostring :: "rat \<Rightarrow> string"

definition hincrby_value :: "string option \<Rightarrow> int \<Rightarrow> int option" where
  "hincrby_value v d =
     (case v of None \<Rightarrow> Some d | Some s \<Rightarrow> map_option (\<lambda>x. x + d) (parse_int64 s))"

definition redis_lawful :: "'db redis \<Rightarrow> bool" where
  "redis_lawful rd \<longleftrightarrow>
     (\<forall>db k f v. rd_HGET rd (rd_HSET rd k f v db) k f = Some v) \<and>
     (\<forall>db k f v k' f'. (k', f') \<noteq> (k, f) \<longrightarrow>
        rd_HGET rd (rd_HSET rd k f v db) k' f' = rd_HGET rd db k' f') \<and>
     (\<forall>db k ms k' f'. 0 < ms \<longrightarrow> rd_HGET rd (rd_PEXPIRE rd k ms db) k' f' = rd_HGET rd db k' f') \<and>
     (\<forall>db k f d w. hincrby_value (rd_HGET rd db k f) d = Some w \<and> - (2 ^ 63) \<le> w \<and> w < 2 ^ 63 \<longrightarrow>
        rd_HINCRBY rd k f d db = Some (w, rd_HSET rd k f (dec w) db)) \<and>
     (\<forall>db k f d w db' k' f'. rd_HINCRBY rd k f d db = Some (w, db') \<and> (k', f') \<noteq> (k, f) \<longrightarrow>
        rd_HGET rd db' k' f' = rd_HGET rd db k' f') \<and>
     (\<forall>x. rnd x = x \<longrightarrow> rd_tonumber rd (rd_argument rd x) = Some x) \<and>
     (\<forall>x. x \<in> \<int> \<and> 0 \<le> x \<longrightarrow>
        (\<exists>y \<in> \<int>. rd_tonumber rd (rd_tostring rd x) = Some y \<and> rnd y = y \<and> 0 \<le> y \<and> \<bar>y - x\<bar> \<le> x / 10 ^ 13))"

lemma redis_laws:
  assumes "redis_lawful rd"
  shows "rd_HGET rd (rd_HSET rd k f v db) k f = Some v"
    and "(k', f') \<noteq> (k, f) \<Longrightarrow> rd_HGET rd (rd_HSET rd k f v db) k' f' = rd_HGET rd db k' f'"
    and "0 < ms \<Longrightarrow> rd_HGET rd (rd_PEXPIRE rd k ms db) k' f' = rd_HGET rd db k' f'"
    and "rnd x = x \<Longrightarrow> rd_tonumber rd (rd_argument rd x) = Some x"
  using assms by (simp_all add: redis_lawful_def)

lemma tostring_near:
  assumes "redis_lawful rd" "x \<in> \<int>" "0 \<le> x"
  shows "\<exists>y \<in> \<int>. rd_tonumber rd (rd_tostring rd x) = Some y \<and> rnd y = y \<and> 0 \<le> y \<and> \<bar>y - x\<bar> \<le> x / 10 ^ 13"
  using assms by (simp add: redis_lawful_def)

lemma HINCRBY_sets:
  assumes "redis_lawful rd" "hincrby_value (rd_HGET rd db k f) d = Some w" "- (2 ^ 63) \<le> w" "w < 2 ^ 63"
  shows "rd_HINCRBY rd k f d db = Some (w, rd_HSET rd k f (dec w) db)"
  using assms by (simp add: redis_lawful_def)

lemma HINCRBY_other:
  assumes "redis_lawful rd" "rd_HINCRBY rd k f d db = Some (w, db')" "(k', f') \<noteq> (k, f)"
  shows "rd_HGET rd db' k' f' = rd_HGET rd db k' f'"
  using assms unfolding redis_lawful_def by metis

section \<open>A store in memory\<close>

record map_store =
  ms_clock :: "int \<times> int"
  ms_fields :: "string \<times> string \<Rightarrow> string option"

definition parse_int :: "string \<Rightarrow> int option" where
  "parse_int s =
     (case s of
        [] \<Rightarrow> None
      | c # cs \<Rightarrow> if c = CHR ''-'' then map_option uminus (parse_nat cs)
                  else parse_nat s)"

definition number_text :: "rat \<Rightarrow> string" where
  "number_text x =
     (let (p, q) = quotient_of x in if q = 1 then dec p else dec p @ CHR ''/'' # dec q)"

definition text_number :: "string \<Rightarrow> rat option" where
  "text_number s =
     (case dropWhile (\<lambda>c. c \<noteq> CHR ''/'') s of
        [] \<Rightarrow> map_option of_int (parse_int s)
      | _ # t \<Rightarrow> do { p \<leftarrow> parse_int (takeWhile (\<lambda>c. c \<noteq> CHR ''/'') s);
                      q \<leftarrow> parse_int t;
                      Some (of_int p / of_int q) })"

definition map_redis :: "map_store redis" where
  "map_redis =
     \<lparr>rd_TIME = ms_clock,
      rd_HGET = (\<lambda>db k f. ms_fields db (k, f)),
      rd_HSET = (\<lambda>k f v db. db\<lparr>ms_fields := (ms_fields db)((k, f) \<mapsto> v)\<rparr>),
      rd_HINCRBY = (\<lambda>k f d db.
        do { w \<leftarrow> hincrby_value (ms_fields db (k, f)) d;
             if - (2 ^ 63) \<le> w \<and> w < 2 ^ 63
             then Some (w, db\<lparr>ms_fields := (ms_fields db)((k, f) \<mapsto> dec w)\<rparr>)
             else None }),
      rd_PEXPIRE = (\<lambda>k ms db. db),
      rd_tonumber = text_number,
      rd_argument = number_text,
      rd_tostring = (\<lambda>x. number_text (rnd x))\<rparr>"

lemma parse_int_dec: "parse_int (dec k) = Some k"
proof (cases "k < 0")
  case True
  then show ?thesis by (simp add: parse_int_def dec_def parse_nat_dec_nat)
next
  case False
  obtain c cs where c: "dec_nat k = c # cs" using dec_nat_nonempty by (meson list.exhaust)
  then have "c \<noteq> CHR ''-''" using dec_nat_signs[of k] by auto
  then show ?thesis using False parse_nat_dec_nat[of k] c by (simp add: parse_int_def dec_def)
qed

lemma dec_no_slash: "CHR ''/'' \<notin> set (dec k)"
  using dec_nat_signs by (simp add: dec_def)

lemma text_number_text: "text_number (number_text x) = Some x"
proof -
  obtain p q where pq: "quotient_of x = (p, q)" by fastforce
  have x: "x = of_int p / of_int q" using quotient_of_div[OF pq] .
  have no: "c \<noteq> CHR ''/''" if "c \<in> set (dec k)" for c k using dec_no_slash that by metis
  show ?thesis
  proof (cases "q = 1")
    case True
    moreover have "dropWhile (\<lambda>c. c \<noteq> CHR ''/'') (dec p) = []"
      unfolding dropWhile_eq_Nil_conv using no by blast
    ultimately show ?thesis
      by (simp add: text_number_def number_text_def pq parse_int_dec x del: dropWhile_eq_Nil_conv)
  next
    case False
    have "dropWhile (\<lambda>c. c \<noteq> CHR ''/'') (dec p @ CHR ''/'' # dec q) = CHR ''/'' # dec q"
      "takeWhile (\<lambda>c. c \<noteq> CHR ''/'') (dec p @ CHR ''/'' # dec q) = dec p"
      using no by (simp_all add: dropWhile_append2 takeWhile_append2)
    then show ?thesis using False by (simp add: text_number_def number_text_def pq parse_int_dec x[symmetric])
  qed
qed

lemma map_redis_lawful: "redis_lawful map_redis"
proof -
  have texts: "\<exists>y \<in> \<int>. text_number (number_text (rnd x)) = Some y \<and> rnd y = y \<and> 0 \<le> y \<and> \<bar>y - x\<bar> \<le> x / 10 ^ 13"
    if "x \<in> \<int>" "0 \<le> x" for x
  proof (rule bexI[of _ "rnd x"])
    have "\<bar>rnd x - x\<bar> \<le> x / 2 ^ 53" using rnd_error[of x] that(2) by simp
    also have "\<dots> \<le> x / 10 ^ 13" using that(2) by (intro divide_left_mono) simp_all
    finally show "text_number (number_text (rnd x)) = Some (rnd x) \<and> rnd (rnd x) = rnd x \<and> 0 \<le> rnd x \<and>
        \<bar>rnd x - x\<bar> \<le> x / 10 ^ 13"
      using rnd_sign(1)[OF that(2)] by (simp add: text_number_text)
  qed (rule rnd_Ints[OF that(1)])
  show ?thesis
    unfolding redis_lawful_def using texts
    by (auto simp: map_redis_def text_number_text split: bind_splits if_splits)
qed

end
