(* ===== verification/RedisLimiters.thy ===== *)
theory RedisLimiters
  imports RedisStores
begin

text \<open>
  \<open>stability/redis_ratelimit.go\<close>: the leaky bucket whose state is in Redis. The scripts are Lua
  text in the Go file; they are translated statement by statement, with every operation on numbers
  rounded as Lua's are, and Redis runs each of them without interruption. A call of the client may
  fail before Redis saw it, or after: that is an argument of the operation. Instants are those of the
  \<open>TIME\<close> that a script reads.
\<close>

section \<open>The scripts\<close>

definition lua_arg :: "int \<Rightarrow> rat" where
  "lua_arg k = rnd (of_int k)"

definition lua_now :: "'db redis \<Rightarrow> 'db \<Rightarrow> rat" where
  "lua_now rd db =
     (let (sec, usec) = rd_TIME rd db
      in rnd (rnd (lua_arg sec * 1000000000) + rnd (lua_arg usec * 1000)))"

text \<open>The two fields, with the values they stand for when they are missing; \<open>None\<close> is an error of
  the script, on a field that holds no number.\<close>

definition lua_bucket :: "'db redis \<Rightarrow> string \<Rightarrow> rat \<Rightarrow> 'db \<Rightarrow> (rat \<times> rat) option" where
  "lua_bucket rd key now_ns db =
     do { current \<leftarrow> (case rd_HGET rd db key ''current'' of
                          None \<Rightarrow> Some 0
                        | Some s \<Rightarrow> rd_tonumber rd s);
          last_ns \<leftarrow> rd_tonumber rd (case rd_HGET rd db key ''last_ns'' of
                          None \<Rightarrow> rd_tostring rd now_ns
                        | Some s \<Rightarrow> s);
          Some (current, if last_ns > now_ns then now_ns else last_ns) }"

definition lua_leak :: "rat \<Rightarrow> rat \<Rightarrow> rat \<times> rat \<Rightarrow> rat \<times> rat" where
  "lua_leak leak_ns now_ns = (\<lambda>(current, last_ns).
     if leak_ns > 0
     then let elapsed = rnd (now_ns - last_ns)
          in if elapsed \<ge> leak_ns
             then let leaked = of_int \<lfloor>rnd (elapsed / leak_ns)\<rfloor>
                  in (max 0 (rnd (current - leaked)), rnd (last_ns + rnd (leaked * leak_ns)))
             else (current, last_ns)
     else (current, last_ns))"

definition lua_store :: "'db redis \<Rightarrow> string \<Rightarrow> rat \<times> rat \<Rightarrow> rat \<Rightarrow> 'db \<Rightarrow> 'db" where
  "lua_store rd key = (\<lambda>(current, last_ns) ttl_ms db.
     let db = rd_HSET rd key ''last_ns'' (rd_argument rd last_ns)
                (rd_HSET rd key ''current'' (rd_argument rd current) db)
     in if ttl_ms > 0 then rd_PEXPIRE rd key (trunc ttl_ms) db else db)"

definition lua_admit :: "rat \<Rightarrow> rat \<Rightarrow> rat \<Rightarrow> rat \<Rightarrow> bool \<times> rat \<times> rat" where
  "lua_admit capacity leak_ns n current =
     (if n \<le> rnd (capacity - current) then (True, 0, rnd (current + n))
      else let needed = rnd (n - rnd (capacity - current))
           in (False, rnd (needed * leak_ns), current))"

definition redisAllowScript ::
    "'db redis \<Rightarrow> string \<Rightarrow> int \<Rightarrow> int \<Rightarrow> int \<Rightarrow> int \<Rightarrow> 'db \<Rightarrow> (go_value \<times> 'db) option" where
  "redisAllowScript rd key arg1 arg2 arg3 arg4 db =
     (let capacity = lua_arg arg1; leak_ns = lua_arg arg2; n = lua_arg arg3; ttl_ms = lua_arg arg4;
          now_ns = lua_now rd db
      in do { bucket \<leftarrow> lua_bucket rd key now_ns db;
              let (current, last_ns) = lua_leak leak_ns now_ns bucket;
              let (allowed, delay_ns, current) = lua_admit capacity leak_ns n current;
              Some (GList [GInt64 (if allowed then 1 else 0), GInt64 (trunc delay_ns), GInt64 (trunc current)],
                    lua_store rd key (current, last_ns) ttl_ms db) })"

definition redisReserveScript ::
    "'db redis \<Rightarrow> string \<Rightarrow> int \<Rightarrow> int \<Rightarrow> int \<Rightarrow> int \<Rightarrow> 'db \<Rightarrow> (go_value \<times> 'db) option" where
  "redisReserveScript rd key arg1 arg2 arg3 arg4 db =
     (let capacity = lua_arg arg1; leak_ns = lua_arg arg2; n = lua_arg arg3; ttl_ms = lua_arg arg4;
          now_ns = lua_now rd db
      in do { bucket \<leftarrow> lua_bucket rd key now_ns db;
              let (current, last_ns) = lua_leak leak_ns now_ns bucket;
              let delay_ns = (if n > rnd (capacity - current)
                              then rnd (rnd (n - rnd (capacity - current)) * leak_ns) else 0);
              Some (GList [GInt64 1, GInt64 (trunc delay_ns)], lua_store rd key (current, last_ns) ttl_ms db) })"

definition redisTokensScript ::
    "'db redis \<Rightarrow> string \<Rightarrow> int \<Rightarrow> int \<Rightarrow> int \<Rightarrow> 'db \<Rightarrow> (go_value \<times> 'db) option" where
  "redisTokensScript rd key arg1 arg2 arg3 db =
     (let capacity = lua_arg arg1; leak_ns = lua_arg arg2; ttl_ms = lua_arg arg3;
          now_ns = lua_now rd db
      in do { bucket \<leftarrow> lua_bucket rd key now_ns db;
              let (current, last_ns) = lua_leak leak_ns now_ns bucket;
              let available = rnd (capacity - current);
              let available = (if available < 0 then 0 else available);
              Some (GList [GInt64 (trunc available)], lua_store rd key (current, last_ns) ttl_ms db) })"

section \<open>The limiter\<close>

record redis_config =
  rc_Limit :: rat
  rc_Burst :: int
  rc_KeyPrefix :: string
  rc_Name :: string
  rc_FailureMode :: string
  rc_OperationTimeout :: duration
  rc_StateTTL :: duration

record redis_limiter =
  rl_baseKey :: string
  rl_limit :: rat
  rl_burst :: int
  rl_failureMode :: string
  rl_operationTimeout :: duration
  rl_stateTTL :: duration
  rl_totalRequests :: int
  rl_allowedRequests :: int

definition RedisRateLimiterFailClosed :: string where
  "RedisRateLimiterFailClosed = ''fail_closed''"

definition RedisRateLimiterFailOpen :: string where
  "RedisRateLimiterFailOpen = ''fail_open''"

definition NewRedisRateLimiter :: "bool \<Rightarrow> redis_config \<Rightarrow> string + redis_limiter" where
  "NewRedisRateLimiter client config =
     (if \<not> client then Inl ''redis client is nil''
      else if rc_Limit config \<le> 0 then Inl ''limit must be greater than zero''
      else if rc_Burst config \<le> 0 then Inl ''burst must be greater than zero''
      else let prefx = (if rc_KeyPrefix config = [] then ''stability:ratelimit'' else rc_KeyPrefix config);
               name = (if rc_Name config = [] then ''global'' else rc_Name config);
               failureMode = (if rc_FailureMode config = [] then RedisRateLimiterFailClosed
                              else rc_FailureMode config)
           in if failureMode \<noteq> RedisRateLimiterFailClosed \<and> failureMode \<noteq> RedisRateLimiterFailOpen
              then Inl (''unsupported failure mode: '' @ failureMode)
              else Inr \<lparr>rl_baseKey = prefx @ '':'' @ name, rl_limit = rc_Limit config,
                        rl_burst = rc_Burst config, rl_failureMode = failureMode,
                        rl_operationTimeout = (if rc_OperationTimeout config \<le> 0 then 200 * 1000000
                                               else rc_OperationTimeout config),
                        rl_stateTTL = (if rc_StateTTL config \<le> 0 then 300 * 1000000000
                                       else rc_StateTTL config),
                        rl_totalRequests = 0, rl_allowedRequests = 0\<rparr>)"

definition rl_redisKey :: "string \<Rightarrow> ('a redis_limiter_scheme) \<Rightarrow> string" where
  "rl_redisKey key r = (if key = [] then rl_baseKey r else rl_baseKey r @ '':'' @ key)"

definition rl_leakDuration :: "('a redis_limiter_scheme) \<Rightarrow> duration" where
  "rl_leakDuration r =
     (if rl_limit r \<le> 0 then 1000000000
      else let leak = float_to_int64 (rnd (1000000000 / rl_limit r))
           in if leak \<le> 0 then 1 else leak)"

definition parseAllowScriptResult :: "go_value \<Rightarrow> rl_error + (bool \<times> duration)" where
  "parseAllowScriptResult res =
     (case res of
        GList (x # y # _) \<Rightarrow>
          (case toInt64 x of
             Inl e \<Rightarrow> Inl e
           | Inr allowed \<Rightarrow>
               (case toInt64 y of
                  Inl e \<Rightarrow> Inl e
                | Inr delayNs \<Rightarrow> Inr (allowed = 1, if delayNs < 0 then 0 else delayNs)))
      | _ \<Rightarrow> Inl UnexpectedResponse)"

text \<open>What may become of a call: nothing in its way, an error before Redis ran it, or an error (a
  timeout, a lost connection) after.\<close>

datatype rd_fault = Answered | Refused string | Unanswered string

definition rl_Eval :: "'db redis \<Rightarrow> rd_fault \<Rightarrow> ('db \<Rightarrow> (go_value \<times> 'db) option) \<Rightarrow> 'db \<Rightarrow> (rl_error + go_value) \<times> 'db" where
  "rl_Eval rd fault script db =
     (case fault of
        Refused e \<Rightarrow> (Inl (RedisError e), db)
      | Unanswered e \<Rightarrow> (Inl (RedisError e), case script db of None \<Rightarrow> db | Some (_, db') \<Rightarrow> db')
      | Answered \<Rightarrow> (case script db of
                       None \<Rightarrow> (Inl (RedisError ''user_script''), db)
                     | Some (res, db') \<Rightarrow> (Inr res, db')))"

definition rl_allowWithDelayDirect ::
    "'db redis \<Rightarrow> rd_fault \<Rightarrow> string \<Rightarrow> int \<Rightarrow> ('a redis_limiter_scheme) \<Rightarrow> 'db
       \<Rightarrow> (rl_error + (bool \<times> duration)) \<times> 'db" where
  "rl_allowWithDelayDirect rd fault redisKey n r db =
     (if n > rl_burst r then (Inr (False, 0), db)
      else let (res, db) = rl_Eval rd fault
                 (redisAllowScript rd redisKey (rl_burst r) (rl_leakDuration r) n (go_div (rl_stateTTL r) 1000000)) db
           in (case res of Inl err \<Rightarrow> (Inl err, db) | Inr res \<Rightarrow> (parseAllowScriptResult res, db)))"

definition rl_allowWithDelay where
  "rl_allowWithDelay rd fault key n r db = rl_allowWithDelayDirect rd fault (rl_redisKey key r) n r db"

definition rl_failureModeAllowsOnError :: "('a redis_limiter_scheme) \<Rightarrow> bool" where
  "rl_failureModeAllowsOnError r = (rl_failureMode r = RedisRateLimiterFailOpen)"

definition rl_AllowN ::
    "'db redis \<Rightarrow> rd_fault \<Rightarrow> string \<Rightarrow> int \<Rightarrow> redis_limiter \<Rightarrow> 'db \<Rightarrow> bool \<times> redis_limiter \<times> 'db" where
  "rl_AllowN rd fault key n r db =
     (if n \<le> 0 then (True, r, db)
      else let r = r\<lparr>rl_totalRequests := wrap64 (rl_totalRequests r + n)\<rparr>;
               (res, db) = rl_allowWithDelay rd fault key n r db;
               admit = (case res of Inl err \<Rightarrow> rl_failureModeAllowsOnError r | Inr (allowed, _) \<Rightarrow> allowed)
           in (admit, if admit then r\<lparr>rl_allowedRequests := wrap64 (rl_allowedRequests r + n)\<rparr> else r, db))"

definition rl_Allow where
  "rl_Allow rd fault key r db = rl_AllowN rd fault key 1 r db"

definition rl_Limit :: "redis_limiter \<Rightarrow> rat" where
  "rl_Limit r = rl_limit r"

definition rl_Burst :: "redis_limiter \<Rightarrow> int" where
  "rl_Burst r = rl_burst r"

definition rl_Stats :: "redis_limiter \<Rightarrow> int \<times> int" where
  "rl_Stats r = (rl_totalRequests r, rl_allowedRequests r)"

section \<open>The fields of a bucket\<close>

definition is_double :: "rat \<Rightarrow> bool" where
  "is_double x \<longleftrightarrow> x \<in> \<int> \<and> rnd x = x"

text \<open>The bucket of a key holds a level and an instant, or is missing.\<close>

definition rl_holds :: "'db redis \<Rightarrow> string \<Rightarrow> (rat \<times> rat) option \<Rightarrow> 'db \<Rightarrow> bool" where
  "rl_holds rd key b db \<longleftrightarrow>
     (case b of
        None \<Rightarrow> rd_HGET rd db key ''current'' = None \<and> rd_HGET rd db key ''last_ns'' = None
      | Some (c, l) \<Rightarrow>
          (\<exists>s t. rd_HGET rd db key ''current'' = Some s \<and> rd_tonumber rd s = Some c \<and>
                 rd_HGET rd db key ''last_ns'' = Some t \<and> rd_tonumber rd t = Some l))"

lemma rl_holds_store:
  assumes "redis_lawful rd" "rnd c = c" "rnd l = l" "0 < trunc ttl \<or> ttl \<le> 0"
  shows "rl_holds rd key (Some (c, l)) (lua_store rd key (c, l) ttl db)"
  using assms by (auto simp: rl_holds_def lua_store_def redis_laws Let_def)

lemma rnd_of_nat_arg [simp]: "rnd (lua_arg k) = lua_arg k"
  by (simp add: lua_arg_def)

lemma lua_arg_small: "\<bar>k\<bar> \<le> 2 ^ 53 \<Longrightarrow> lua_arg k = of_int k"
  by (simp add: lua_arg_def rnd_int)

lemma lua_now_double: "is_double (lua_now rd db)"
  unfolding lua_now_def is_double_def lua_arg_def
  by (auto split: prod.splits intro!: rnd_Ints Ints_add Ints_mult)

lemma is_double_diff:
  assumes "is_double x" "is_double y" "\<bar>x - y\<bar> \<le> 2 ^ 53" shows "rnd (x - y) = x - y" "is_double (x - y)"
proof -
  have "x - y \<in> \<int>" using assms by (simp add: is_double_def Ints_diff)
  then obtain k where k: "x - y = of_int k" by (auto elim: Ints_cases)
  then have "\<bar>of_int k :: rat\<bar> \<le> of_int (2 ^ 53)" using assms(3) by simp
  then have "\<bar>k\<bar> \<le> 2 ^ 53" by (simp only: of_int_abs[symmetric] of_int_le_iff)
  then show "rnd (x - y) = x - y" using rnd_int k by simp
  then show "is_double (x - y)" by (simp add: is_double_def k)
qed

lemma is_double_of_int: "\<bar>k\<bar> \<le> 2 ^ 53 \<Longrightarrow> is_double (of_int k)"
  by (simp add: is_double_def rnd_int)

lemma whole_leaks:
  fixes a L :: int
  assumes "0 \<le> a" "a < 2 ^ 53" "0 < L"
  shows "0 \<le> a div L" "a div L \<le> a" "a div L * L \<le> a"
    "rnd (of_int (a div L) * of_int L) = of_int (a div L * L)"
proof -
  show k: "0 \<le> a div L" using assms by (simp add: pos_imp_zdiv_nonneg_iff)
  show kl: "a div L * L \<le> a" using assms by (simp add: minus_mod_eq_div_mult[symmetric])
  have "a div L * 1 \<le> a div L * L" using k assms(3) by (intro mult_left_mono) simp_all
  then show "a div L \<le> a" using kl by simp
  have "0 \<le> a div L * L" using k assms(3) by simp
  then show "rnd (of_int (a div L) * of_int L) = of_int (a div L * L)"
    using rnd_int[of "a div L * L"] kl assms(2) by simp
qed

text \<open>The leak takes from the level what it adds to the instant, up to one rounding.\<close>

lemma lua_leak_bounds:
  assumes d: "is_double c" "is_double l" "is_double now"
    and c: "0 \<le> c" "c \<le> 2 ^ 53" and l: "0 \<le> l" "l \<le> now" "now - l < 2 ^ 53" "now \<le> 2 ^ 61"
    and L: "0 < L" "L \<le> 2 ^ 53"
    and r: "lua_leak (of_int L) now (c, l) = (c', l')"
  shows "is_double c'" "is_double l'" "0 \<le> c'" "c' \<le> c" "l \<le> l'" "l' \<le> now"
    "of_int L * c + l \<le> of_int L * c' + l' + 256"
proof -
  have "now - l \<in> \<int>" using d by (simp add: is_double_def Ints_diff)
  then obtain a where a: "now - l = of_int a" by (auto elim: Ints_cases)
  have a0: "0 \<le> a" "a < 2 ^ 53"
  proof -
    show "0 \<le> a" using a l by (metis diff_ge_0_iff_ge of_int_0_le_iff)
    have "(of_int a :: rat) < of_int (2 ^ 53)" using a l by simp
    then show "a < 2 ^ 53" by (simp only: of_int_less_iff)
  qed
  have e: "rnd (now - l) = of_int a" using a a0 rnd_int[of a] by simp
  have "is_double c' \<and> is_double l' \<and> 0 \<le> c' \<and> c' \<le> c \<and> l \<le> l' \<and> l' \<le> now \<and>
    of_int L * c + l \<le> of_int L * c' + l' + 256"
  proof (cases "L \<le> a")
    case False
    then have "c' = c" "l' = l" using r L by (auto simp: lua_leak_def e)
    then show ?thesis using assms by simp
  next
    case True
    define k where "k = a div L"
    have k: "0 \<le> k" "k \<le> a" "k * L \<le> a" and kL: "rnd (of_int k * of_int L) = of_int (k * L)"
      unfolding k_def using whole_leaks[OF a0 L(1)] by simp_all
    have c': "c' = max 0 (rnd (c - of_int k))" and l': "l' = rnd (l + of_int (k * L))"
      using r True L rnd_floor_div[of a L] a0 kL by (simp_all add: lua_leak_def e k_def[symmetric] Let_def)
    have ck: "rnd (c - of_int k) = c - of_int k" "is_double (c - of_int k)"
    proof -
      have "(of_int k :: rat) \<le> 2 ^ 53" "(0 :: rat) \<le> of_int k"
      proof -
        have "(of_int k :: rat) \<le> of_int (2 ^ 53)" using k a0 by (simp only: of_int_le_iff)
        then show "(of_int k :: rat) \<le> 2 ^ 53" by simp
      qed (use k in simp)
      then have "\<bar>c - of_int k\<bar> \<le> 2 ^ 53" using c by linarith
      moreover have "is_double (of_int k)" using k a0 by (intro is_double_of_int) simp
      ultimately show "rnd (c - of_int k) = c - of_int k" "is_double (c - of_int k)"
        using is_double_diff[OF d(1)] by blast+
    qed
    have low: "l \<le> l'"
    proof -
      have "rnd l \<le> rnd (l + of_int (k * L))" using k L by (intro rnd_mono) simp
      then show ?thesis using d(2) l' by (simp add: is_double_def)
    qed
    have "(of_int (k * L) :: rat) \<le> of_int a" using k(3) by (simp only: of_int_le_iff)
    then have up: "l + of_int (k * L) \<le> now" using a by linarith
    then have high: "l' \<le> now" using rnd_mono[OF up] d(3) l' by (simp add: is_double_def)
    have err: "l + of_int (k * L) - 256 \<le> l'"
    proof -
      have "0 \<le> l + of_int (k * L)" using l k L by simp
      then have "\<bar>l' - (l + of_int (k * L))\<bar> \<le> (l + of_int (k * L)) / 2 ^ 53" using rnd_error[of "l + of_int (k * L)"] l' by simp
      also have "\<dots> \<le> 2 ^ 61 / 2 ^ 53" using up l by (intro divide_right_mono) simp_all
      finally show ?thesis by (simp add: abs_le_iff)
    qed
    have level: "of_int L * c \<le> of_int L * c' + of_int (k * L)"
    proof -
      have "c \<le> c' + of_int k" using c' ck by simp
      then have "of_int L * c \<le> of_int L * (c' + of_int k)" using L by (intro mult_left_mono) simp_all
      then show ?thesis by (simp add: distrib_left mult.commute)
    qed
    have "is_double c'" "0 \<le> c'" "c' \<le> c"
      using c' ck c k by (auto simp: max_def is_double_def)
    moreover have "is_double l'" using l' d(2) by (auto simp: is_double_def intro!: rnd_Ints)
    ultimately show ?thesis using low high err level by linarith
  qed
  then show "is_double c'" "is_double l'" "0 \<le> c'" "c' \<le> c" "l \<le> l'" "l' \<le> now"
    "of_int L * c + l \<le> of_int L * c' + l' + 256" by simp_all
qed

section \<open>The rate of admissions\<close>

text \<open>What happens to the bucket of a key: calls of \<open>AllowN\<close> of any process whose limiter has this
  configuration (the counters differ), that succeed or fail; the expiry of the bucket, which Redis may
  bring about when the time to live has passed since the last script for the key; and whatever else
  happens to the store, time passing included, that leaves the two fields as they are. The history lists
  the instant and the admitted number of each call, as its caller hears it, and the instants of the expiries;
  the third index is the instant of the last script that ran.\<close>

definition rl_ttl :: "('a redis_limiter_scheme) \<Rightarrow> duration" where
  "rl_ttl r = go_div (rl_stateTTL r) 1000000 * 1000000"

definition rl_ran :: "redis_limiter \<Rightarrow> rd_fault \<Rightarrow> int \<Rightarrow> bool" where
  "rl_ran r fault n \<longleftrightarrow> n \<le> rl_burst r \<and> (\<forall>e. fault \<noteq> Refused e)"

inductive rl_history ::
    "'db redis \<Rightarrow> redis_limiter \<Rightarrow> string \<Rightarrow> 'db \<Rightarrow> (rat \<times> int) list \<Rightarrow> rat option \<Rightarrow> 'db \<Rightarrow> bool"
  for rd r ident db0 where
  history_start: "rl_history rd r ident db0 [] None db0"
| history_request:
    "rl_history rd r ident db0 h lst db \<Longrightarrow> 0 < n \<Longrightarrow>
     rl_AllowN rd fault ident n (r\<lparr>rl_totalRequests := reqs, rl_allowedRequests := adms\<rparr>) db = (admit, r', db') \<Longrightarrow>
     rl_history rd r ident db0 (h @ [(lua_now rd db, if admit then n else 0)])
       (if rl_ran r fault n then Some (lua_now rd db) else lst) db'"
| history_expire:
    "rl_history rd r ident db0 h (Some u) db \<Longrightarrow> u + of_int (rl_ttl r) \<le> lua_now rd db' \<Longrightarrow>
     rl_holds rd (rl_redisKey ident r) None db' \<Longrightarrow>
     rl_history rd r ident db0 (h @ [(lua_now rd db', 0)]) (Some u) db'"
| history_other:
    "rl_history rd r ident db0 h lst db \<Longrightarrow>
     rd_HGET rd db' (rl_redisKey ident r) ''current'' = rd_HGET rd db (rl_redisKey ident r) ''current'' \<Longrightarrow>
     rd_HGET rd db' (rl_redisKey ident r) ''last_ns'' = rd_HGET rd db (rl_redisKey ident r) ''last_ns'' \<Longrightarrow>
     rl_history rd r ident db0 h lst db'"

text \<open>A configuration in the range where Lua counts exactly, that keeps a bucket until a full one has
  leaked, and that does not admit on an error.\<close>

definition rl_config_ok :: "('a redis_limiter_scheme) \<Rightarrow> bool" where
  "rl_config_ok r \<longleftrightarrow> 0 < rl_burst r \<and> rl_burst r < 2 ^ 53 \<and> 0 < rl_stateTTL r \<and> rl_stateTTL r < 2 ^ 63 \<and>
     rl_leakDuration r \<le> 2 ^ 53 \<and> rl_leakDuration r * rl_burst r + 230585 \<le> rl_ttl r \<and>
     rl_failureMode r = RedisRateLimiterFailClosed"

text \<open>The clock of a history does not go back, is after 1970 and before 2043, and the history spans
  at most 52 days.\<close>

definition rl_clock_ok :: "rat list \<Rightarrow> bool" where
  "rl_clock_ok ts \<longleftrightarrow> sorted ts \<and> (\<forall>t \<in> set ts. 0 \<le> t \<and> t \<le> 2 ^ 61 \<and> last ts - hd ts \<le> 2 ^ 52)"

lemma leakDuration_pos: "0 < rl_leakDuration r"
  by (simp add: rl_leakDuration_def Let_def)

lemma lua_arg_ttl:
  assumes "0 \<le> k" "k < 2 ^ 53" shows "0 < trunc (lua_arg k) \<or> lua_arg k \<le> 0"
  using assms lua_arg_small[of k] by (cases "k = 0") (simp_all add: trunc_def)

lemma redisAllowScript_step:
  assumes rd: "redis_lawful rd"
    and bucket: "lua_bucket rd key now db = Some (c, l)" and now: "lua_now rd db = now"
    and d: "is_double c" "is_double l" and c: "0 \<le> c" "c \<le> of_int B"
    and l: "0 \<le> l" "l \<le> now" "now - l < 2 ^ 53" "now \<le> 2 ^ 61"
    and B: "B < 2 ^ 53" "0 < n" "n \<le> B" and L: "0 < L" "L \<le> 2 ^ 53" and ttl: "0 \<le> ttl" "ttl < 2 ^ 53"
    and script: "redisAllowScript rd key B L n ttl db = Some (reply, db')"
  shows "\<exists>c' l' ok delay. reply = GList [GInt64 (if ok then 1 else 0), GInt64 delay, GInt64 (trunc c')] \<and>
    rl_holds rd key (Some (c', l')) db' \<and> is_double c' \<and> is_double l' \<and> 0 \<le> c' \<and> c' \<le> of_int B \<and>
    l \<le> l' \<and> l' \<le> now \<and> of_int L * (c + of_int (if ok then n else 0)) + l \<le> of_int L * c' + l' + 256"
proof -
  obtain c1 l1 where leak: "lua_leak (of_int L) now (c, l) = (c1, l1)" by fastforce
  have nowd: "is_double now" using lua_now_double[of rd db] now by simp
  have B53: "(of_int B :: rat) \<le> 2 ^ 53"
  proof -
    have "(of_int B :: rat) \<le> of_int (2 ^ 53)" using B(1) by (simp only: of_int_le_iff)
    then show ?thesis by simp
  qed
  note leaked = lua_leak_bounds[OF d nowd c(1) order_trans[OF c(2) B53] l L leak]
  define ok where "ok = (of_int n \<le> of_int B - c1)"
  have args: "lua_arg B = of_int B" "lua_arg L = of_int L" "lua_arg n = of_int n" "lua_arg ttl = of_int ttl"
    using B L ttl by (simp_all add: lua_arg_small)
  have room: "rnd (of_int B - c1) = of_int B - c1"
    using is_double_diff(1)[of "of_int B" c1] is_double_of_int[of B] leaked c B B53 by (auto simp: abs_le_iff)
  define c2 where "c2 = (if ok then c1 + of_int n else c1)"
  have c2: "is_double c2" "0 \<le> c2" "c2 \<le> of_int B"
  proof -
    show "0 \<le> c2" "c2 \<le> of_int B" using leaked c B by (auto simp: c2_def ok_def)
    then have "\<bar>c1 - of_int (- n)\<bar> \<le> 2 ^ 53 \<or> \<not> ok" using B53 by (auto simp: c2_def)
    moreover have "is_double (of_int (- n))" using B by (intro is_double_of_int) simp
    ultimately show "is_double c2"
      using is_double_diff(2)[OF leaked(1), of "of_int (- n)"] leaked(1) by (auto simp: c2_def)
  qed
  then have sum: "ok \<Longrightarrow> rnd (c1 + of_int n) = c2" by (simp add: c2_def is_double_def)
  define delay where
    "delay = (if ok then 0 else rnd (rnd (of_int n - rnd (of_int B - c1)) * of_int L))"
  have admit: "lua_admit (of_int B) (of_int L) (of_int n) c1 = (ok, delay, c2)"
  proof (cases ok)
    case True
    then show ?thesis using sum by (simp add: lua_admit_def room delay_def flip: ok_def)
  next
    case False
    then show ?thesis by (simp add: lua_admit_def room delay_def c2_def flip: ok_def)
  qed
  have r: "reply = GList [GInt64 (if ok then 1 else 0), GInt64 (trunc delay), GInt64 (trunc c2)]"
    and db': "db' = lua_store rd key (c2, l1) (of_int ttl) db"
    using script by (simp_all add: redisAllowScript_def args now bucket leak admit)
  have "rl_holds rd key (Some (c2, l1)) db'"
    unfolding db' using rl_holds_store[OF rd, of c2 l1] c2 leaked lua_arg_ttl[OF ttl] args(4)
    by (simp add: is_double_def)
  moreover have "of_int L * (c + of_int (if ok then n else 0)) + l \<le> of_int L * c2 + l1 + 256"
    using leaked(7) by (simp add: c2_def distrib_left)
  ultimately show ?thesis using r c2 leaked by blast
qed

text \<open>What a history keeps: the level of the bucket accounts for the admissions, less what leaked
  in the time between the first request and \<open>last_ns\<close>.\<close>

definition rl_inv ::
    "'db redis \<Rightarrow> ('a redis_limiter_scheme) \<Rightarrow> string \<Rightarrow> (rat \<times> int) list \<Rightarrow> rat option \<Rightarrow> 'db \<Rightarrow> bool" where
  "rl_inv rd r key h lst db \<longleftrightarrow>
     (rl_holds rd key None db \<and>
        (sum_list (map snd h) = 0 \<or>
         h \<noteq> [] \<and> of_int (rl_leakDuration r * sum_list (map snd h))
           \<le> fst (last h) - fst (hd h) + 256 * of_nat (length h))) \<or>
     (h \<noteq> [] \<and> (\<exists>c l u. lst = Some u \<and> rl_holds rd key (Some (c, l)) db \<and> is_double c \<and> is_double l \<and>
        0 \<le> c \<and> c \<le> of_int (rl_burst r) \<and> 0 \<le> l \<and> fst (hd h) - 230585 \<le> l \<and> l \<le> u \<and> u \<le> fst (last h) \<and>
        of_int (rl_leakDuration r * sum_list (map snd h))
          \<le> of_int (rl_leakDuration r) * c + (l - (fst (hd h) - 230585)) + 256 * of_nat (length h)))"

lemma rl_clock_snoc:
  assumes "rl_clock_ok (ts @ [t])"
  shows "rl_clock_ok ts" "0 \<le> t" "t \<le> 2 ^ 61" "ts \<noteq> [] \<Longrightarrow> last ts \<le> t \<and> t - hd ts \<le> 2 ^ 52"
proof -
  show "0 \<le> t" "t \<le> 2 ^ 61" using assms by (simp_all add: rl_clock_ok_def)
  show step: "last ts \<le> t \<and> t - hd ts \<le> 2 ^ 52" if "ts \<noteq> []"
    using assms that by (simp add: rl_clock_ok_def sorted_append)
  show "rl_clock_ok ts"
  proof (cases "ts = []")
    case False
    then have "last ts - hd ts \<le> 2 ^ 52" using step by linarith
    then show ?thesis using assms by (simp add: rl_clock_ok_def sorted_append)
  qed (simp add: rl_clock_ok_def)
qed

text \<open>The bucket that the script starts from.\<close>

lemma lua_bucket_inv:
  assumes rd: "redis_lawful rd" and inv: "rl_inv rd r key h lst db"
    and clock: "rl_clock_ok (map fst h @ [now])" and now: "is_double now" and first: "t0 = fst (hd (h @ [(now, a)]))"
  obtains c l where "lua_bucket rd key now db = Some (c, l)" "is_double c" "is_double l"
    "0 \<le> c" "c \<le> of_int (rl_burst r) \<or> c = 0" "0 \<le> l" "l \<le> now" "t0 - 230585 \<le> l"
    "of_int (rl_leakDuration r * sum_list (map snd h))
       \<le> of_int (rl_leakDuration r) * c + (l - (t0 - 230585)) + 256 * of_nat (length h)"
proof (cases "rl_holds rd key None db \<and> (sum_list (map snd h) = 0 \<or> h \<noteq> [] \<and>
    of_int (rl_leakDuration r * sum_list (map snd h)) \<le> fst (last h) - fst (hd h) + 256 * of_nat (length h))")
  case True
  note t = rl_clock_snoc[OF clock]
  have "now \<in> \<int>" using now by (simp add: is_double_def)
  then obtain y where y: "y \<in> \<int>" "rd_tonumber rd (rd_tostring rd now) = Some y" "rnd y = y" "0 \<le> y"
      "\<bar>y - now\<bar> \<le> now / 10 ^ 13"
    using tostring_near[OF rd _ t(2)] by blast
  have t0: "t0 \<le> now" using first t(4) clock by (cases h) (auto simp: rl_clock_ok_def)
  have "now / 10 ^ 13 \<le> 230585" using t(3) by simp
  then have "now - 230585 \<le> y" using y(5) by linarith
  then have low: "t0 - 230585 \<le> (if y > now then now else y)" using t0 by simp
  have spent: "of_int (rl_leakDuration r * sum_list (map snd h))
      \<le> ((if y > now then now else y) - (t0 - 230585)) + 256 * of_nat (length h)"
  proof (cases "sum_list (map snd h) = 0")
    case True
    then show ?thesis using low by simp
  next
    case False
    then have "h \<noteq> []" "of_int (rl_leakDuration r * sum_list (map snd h))
        \<le> fst (last h) - fst (hd h) + 256 * of_nat (length h)" using True by auto
    moreover from this have "fst (last h) \<le> now" "fst (hd h) = t0"
      using t(4) first by (simp_all add: last_map hd_append)
    ultimately show ?thesis using \<open>now - 230585 \<le> y\<close> by auto
  qed
  show thesis
  proof (rule that[of 0 "if y > now then now else y"])
    show "lua_bucket rd key now db = Some (0, if y > now then now else y)"
      using True y(2) by (simp add: lua_bucket_def rl_holds_def)
    show "is_double (if y > now then now else y)" using now y by (simp add: is_double_def)
    show "of_int (rl_leakDuration r * sum_list (map snd h))
      \<le> of_int (rl_leakDuration r) * 0 + ((if y > now then now else y) - (t0 - 230585)) + 256 * of_nat (length h)"
      using spent by simp
  qed (use y t low in \<open>simp_all add: is_double_def\<close>)
next
  case False
  then obtain c l u where i: "h \<noteq> []" "rl_holds rd key (Some (c, l)) db" "is_double c" "is_double l" "0 \<le> c"
      "c \<le> of_int (rl_burst r)" "0 \<le> l" "fst (hd h) - 230585 \<le> l" "l \<le> u" "u \<le> fst (last h)"
      "of_int (rl_leakDuration r * sum_list (map snd h))
        \<le> of_int (rl_leakDuration r) * c + (l - (fst (hd h) - 230585)) + 256 * of_nat (length h)"
    using inv unfolding rl_inv_def by blast
  have "last (map fst h) \<le> now" using rl_clock_snoc(4)[OF clock] i(1) by simp
  then have "l \<le> now" using i by (simp add: last_map)
  moreover have "lua_bucket rd key now db = Some (c, l)"
    using i(2) \<open>l \<le> now\<close> by (auto simp: rl_holds_def lua_bucket_def)
  moreover have "t0 = fst (hd h)" using first i(1) by (simp add: hd_append)
  ultimately show thesis using that i by simp
qed

lemma rl_inv_skip:
  assumes "rl_inv rd r key h lst db" "rl_clock_ok (map fst h @ [now])"
  shows "rl_inv rd r key (h @ [(now, 0)]) lst db"
proof -
  have "fst (last h) \<le> now" if "h \<noteq> []" using rl_clock_snoc(4)[OF assms(2)] that by (simp add: last_map)
  then show ?thesis using assms(1) unfolding rl_inv_def by (fastforce simp: hd_append)
qed

text \<open>A bucket that expired has had the time to leak all it held.\<close>

lemma rl_inv_expire:
  assumes "rl_config_ok r" and inv: "rl_inv rd r key h (Some u) db"
    and due: "u + of_int (rl_ttl r) \<le> now" and none: "rl_holds rd key None db'"
    and clock: "rl_clock_ok (map fst h @ [now])"
  shows "rl_inv rd r key (h @ [(now, 0)]) (Some u) db'"
proof -
  define L B where "L = rl_leakDuration r" and "B = rl_burst r"
  have ttl: "(of_int (L * B + 230585) :: rat) \<le> of_int (rl_ttl r)"
    using assms(1) by (simp only: of_int_le_iff rl_config_ok_def L_def B_def)
  have last: "fst (last h) \<le> now" if "h \<noteq> []" using rl_clock_snoc(4)[OF clock] that by (simp add: last_map)
  have "sum_list (map snd h) = 0 \<or> h \<noteq> [] \<and>
    of_int (L * sum_list (map snd h)) \<le> now - fst (hd h) + 256 * of_nat (length h)"
    using inv unfolding rl_inv_def L_def[symmetric] B_def[symmetric]
  proof (elim disjE conjE exE)
    fix c l u'
    assume i: "h \<noteq> []" "Some u = Some u'" "0 \<le> c" "c \<le> of_int B" "l \<le> u'"
      "of_int (L * sum_list (map snd h)) \<le> of_int L * c + (l - (fst (hd h) - 230585)) + 256 * of_nat (length h)"
    have "of_int L * c \<le> of_int L * of_int B"
      using i(4) leakDuration_pos[of r] by (intro mult_left_mono) (simp_all add: L_def)
    then show ?thesis using i ttl due by simp
  qed (use last in auto)
  then show ?thesis using none unfolding rl_inv_def L_def[symmetric] by (auto simp: hd_append)
qed

lemma parse_allow_reply:
  "parseAllowScriptResult (GList [GInt64 (if ok then 1 else 0), GInt64 d, GInt64 c]) = Inr (ok, if d < 0 then 0 else d)"
  by (simp add: parseAllowScriptResult_def toInt64_def)

text \<open>A run of the script, whatever the caller hears of it.\<close>

lemma rl_inv_script:
  assumes rd: "redis_lawful rd" and ok: "rl_config_ok r" and n: "0 < n" "n \<le> rl_burst r"
    and inv: "rl_inv rd r key h lst db" and clock: "rl_clock_ok (map fst h @ [lua_now rd db])"
  obtains reply db' admitted d where
    "redisAllowScript rd key (rl_burst r) (rl_leakDuration r) n (go_div (rl_stateTTL r) 1000000) db = Some (reply, db')"
    "parseAllowScriptResult reply = Inr (admitted, d)"
    "\<And>m. 0 \<le> m \<Longrightarrow> m \<le> (if admitted then n else 0)
      \<Longrightarrow> rl_inv rd r key (h @ [(lua_now rd db, m)]) (Some (lua_now rd db)) db'"
proof -
  define now where "now = lua_now rd db"
  define t0 where "t0 = fst (hd (h @ [(now, 0 :: int)]))"
  define B L where "B = rl_burst r" and "L = rl_leakDuration r"
  have clock: "rl_clock_ok (map fst h @ [now])" using clock by (simp add: now_def)
  note t = rl_clock_snoc[OF clock]
  have conf: "0 < B" "B < 2 ^ 53" "0 < L" "L \<le> 2 ^ 53" "n \<le> B"
    using ok n leakDuration_pos[of r] by (simp_all add: rl_config_ok_def B_def L_def)
  have ttl: "0 \<le> go_div (rl_stateTTL r) 1000000" "go_div (rl_stateTTL r) 1000000 < 2 ^ 53"
    using ok pos_imp_zdiv_nonneg_iff[of 1000000 "rl_stateTTL r"] zdiv_mono1[of "rl_stateTTL r" "2 ^ 63" 1000000]
    by (simp_all add: rl_config_ok_def go_div_nonneg)
  have nowd: "is_double now" by (simp add: now_def lua_now_double)
  obtain c l where b: "lua_bucket rd key now db = Some (c, l)" "is_double c" "is_double l"
      "0 \<le> c" "c \<le> of_int B \<or> c = 0" "0 \<le> l" "l \<le> now" "t0 - 230585 \<le> l"
      "of_int (L * sum_list (map snd h)) \<le> of_int L * c + (l - (t0 - 230585)) + 256 * of_nat (length h)"
    unfolding B_def L_def using lua_bucket_inv[OF rd inv clock nowd, of t0 0] by (metis t0_def)
  have cB: "c \<le> of_int B" using b(5) conf by auto
  have "now - t0 \<le> 2 ^ 52" using t(4) by (cases h) (simp_all add: t0_def)
  then have recent: "now - l < 2 ^ 53" using b(8) by simp
  obtain reply db' where script: "redisAllowScript rd key B L n (go_div (rl_stateTTL r) 1000000) db = Some (reply, db')"
  proof (cases "redisAllowScript rd key B L n (go_div (rl_stateTTL r) 1000000) db")
    case None
    then show ?thesis using b(1) by (simp add: redisAllowScript_def now_def[symmetric] Let_def split: prod.splits)
  next
    case (Some res)
    then show ?thesis using that by (cases res) blast
  qed
  obtain c' l' admitted delay where post:
      "reply = GList [GInt64 (if admitted then 1 else 0), GInt64 delay, GInt64 (trunc c')]"
      "rl_holds rd key (Some (c', l')) db'" "is_double c'" "is_double l'" "0 \<le> c'" "c' \<le> of_int B"
      "l \<le> l'" "l' \<le> now" "of_int L * (c + of_int (if admitted then n else 0)) + l \<le> of_int L * c' + l' + 256"
    using redisAllowScript_step[OF rd b(1) now_def[symmetric] b(2,3,4) cB b(6,7) recent t(3) conf(2) n(1) conf(5)
        conf(3,4) ttl script] by blast
  show thesis
  proof (rule that)
    show "redisAllowScript rd key (rl_burst r) (rl_leakDuration r) n (go_div (rl_stateTTL r) 1000000) db = Some (reply, db')"
      using script by (simp add: B_def L_def)
    show "parseAllowScriptResult reply = Inr (admitted, if delay < 0 then 0 else delay)"
      unfolding post(1) by (rule parse_allow_reply)
    fix m :: int assume m: "0 \<le> m" "m \<le> (if admitted then n else 0)"
    have "of_int L * of_int m \<le> of_int L * (of_int (if admitted then n else 0) :: rat)"
      using m(2) conf(3) by (intro mult_left_mono) (simp_all only: of_int_le_iff of_int_0_le_iff less_imp_le)
    then have "of_int (L * (sum_list (map snd h) + m)) \<le> of_int L * c' + (l' - (t0 - 230585)) + 256 * of_nat (length h + 1)"
      using b(9) post(9) by (simp add: distrib_left)
    moreover have "fst (hd (h @ [(now, m)])) = t0" by (cases h) (simp_all add: t0_def)
    moreover have "0 \<le> l'" "t0 - 230585 \<le> l'" using b(6,8) post(7) by linarith+
    ultimately show "rl_inv rd r key (h @ [(lua_now rd db, m)]) (Some (lua_now rd db)) db'"
      using post unfolding rl_inv_def now_def[symmetric] B_def L_def by (intro disjI2 conjI) auto
  qed
qed

text \<open>What a call does, in either of its two ways.\<close>

lemma rl_AllowN_cases:
  assumes "rl_config_ok r" "0 < n"
    and call: "rl_AllowN rd fault ident n (r\<lparr>rl_totalRequests := a, rl_allowedRequests := b\<rparr>) db = (admit, r', db')"
    and script: "rl_ran r fault n \<Longrightarrow> redisAllowScript rd (rl_redisKey ident r) (rl_burst r) (rl_leakDuration r) n
      (go_div (rl_stateTTL r) 1000000) db = Some (reply, db2) \<and> parseAllowScriptResult reply = Inr (ok, d)"
  shows "if rl_ran r fault n then db' = db2 \<and> (admit \<longrightarrow> ok) else \<not> admit \<and> db' = db"
proof -
  define R0 where "R0 = r\<lparr>rl_totalRequests := a, rl_allowedRequests := b\<rparr>"
  define R where "R = R0\<lparr>rl_totalRequests := wrap64 (rl_totalRequests R0 + n)\<rparr>"
  have same: "rl_burst R = rl_burst r" "rl_stateTTL R = rl_stateTTL r" "rl_leakDuration R = rl_leakDuration r"
    "rl_redisKey ident R = rl_redisKey ident r" "\<not> rl_failureModeAllowsOnError R"
    using assms(1) by (simp_all add: R_def R0_def rl_leakDuration_def rl_redisKey_def rl_config_ok_def
      rl_failureModeAllowsOnError_def RedisRateLimiterFailClosed_def RedisRateLimiterFailOpen_def)
  obtain res db1 where res: "rl_allowWithDelay rd fault ident n R db = (res, db1)" by fastforce
  have result: "admit = (case res of Inl _ \<Rightarrow> False | Inr (allowed, _) \<Rightarrow> allowed)" "db' = db1"
    using call assms(2) same(5) res unfolding rl_AllowN_def Let_def R0_def[symmetric] R_def[symmetric]
    by (auto split: sum.splits)
  show ?thesis
  proof (cases "rl_ran r fault n")
    case True
    then have n: "n \<le> rl_burst r" and f: "\<forall>e. fault \<noteq> Refused e" by (simp_all add: rl_ran_def)
    note s = script[OF True]
    have "db1 = db2 \<and> (res = Inr (ok, d) \<or> (\<exists>e. res = Inl e))"
      using res n f s by (cases fault) (auto simp: rl_allowWithDelay_def rl_allowWithDelayDirect_def rl_Eval_def same)
    then show ?thesis using result True by auto
  next
    case False
    then have "n > rl_burst r \<or> (\<exists>e. fault = Refused e)" by (auto simp: rl_ran_def)
    then have "db1 = db \<and> (res = Inr (False, 0) \<or> (\<exists>e. res = Inl e))"
      using res by (auto simp: rl_allowWithDelay_def rl_allowWithDelayDirect_def rl_Eval_def same split: if_splits)
    then show ?thesis using result False by auto
  qed
qed

lemma rl_history_inv:
  assumes "redis_lawful rd" "rl_config_ok r" "rl_holds rd (rl_redisKey ident r) None db0"
  shows "rl_history rd r ident db0 h lst db \<Longrightarrow> rl_clock_ok (map fst h) \<Longrightarrow>
    rl_inv rd r (rl_redisKey ident r) h lst db"
proof (induction rule: rl_history.induct)
  case history_start
  then show ?case using assms(3) by (simp add: rl_inv_def)
next
  case (history_request h lst db n fault reqs adms admit r' db')
  let ?key = "rl_redisKey ident r"
  have clock: "rl_clock_ok (map fst h @ [lua_now rd db])" using history_request.prems by simp
  have inv: "rl_inv rd r ?key h lst db" using history_request.IH rl_clock_snoc(1)[OF clock] by blast
  show ?case
  proof (cases "rl_ran r fault n")
    case False
    then have "\<not> admit" "db' = db"
      using rl_AllowN_cases[OF assms(2) history_request(2,3)] by auto
    then show ?thesis using rl_inv_skip[OF inv clock] False by simp
  next
    case True
    then have "n \<le> rl_burst r" by (simp add: rl_ran_def)
    obtain reply db2 ok d where s:
        "redisAllowScript rd ?key (rl_burst r) (rl_leakDuration r) n (go_div (rl_stateTTL r) 1000000) db = Some (reply, db2)"
        "parseAllowScriptResult reply = Inr (ok, d)"
        "\<And>m. 0 \<le> m \<Longrightarrow> m \<le> (if ok then n else 0)
          \<Longrightarrow> rl_inv rd r ?key (h @ [(lua_now rd db, m)]) (Some (lua_now rd db)) db2"
      using rl_inv_script[OF assms(1,2) history_request(2) \<open>n \<le> rl_burst r\<close> inv clock] by blast
    have "db' = db2 \<and> (admit \<longrightarrow> ok)"
      using rl_AllowN_cases[OF assms(2) history_request(2,3), of reply db2 ok d] s(1,2) True by auto
    then show ?thesis using s(3)[of "if admit then n else 0"] history_request(2) True by auto
  qed
next
  case (history_expire h u db db')
  have clock: "rl_clock_ok (map fst h @ [lua_now rd db'])" using history_expire.prems by simp
  then have "rl_inv rd r (rl_redisKey ident r) h (Some u) db"
    using history_expire.IH rl_clock_snoc(1)[OF clock] by blast
  from rl_inv_expire[OF assms(2) this history_expire(2,3) clock] show ?case .
next
  case (history_other h lst db db')
  then show ?case by (simp add: rl_inv_def rl_holds_def split: option.splits)
qed


definition rl_demo :: redis_limiter where
  "rl_demo = \<lparr>rl_baseKey = ''stability:ratelimit:global'', rl_limit = 10, rl_burst = 2,
     rl_failureMode = RedisRateLimiterFailClosed, rl_operationTimeout = 200000000,
     rl_stateTTL = 300000000000, rl_totalRequests = 0, rl_allowedRequests = 0\<rparr>"

definition rl_demo_store :: map_store where
  "rl_demo_store = \<lparr>ms_clock = (1700000000, 123456), ms_fields = Map.empty\<rparr>"

text \<open>A request, a pause of six minutes in which the bucket expires, and two requests.\<close>

definition rl_demo_run :: "(rat \<times> int) list \<times> map_store" where
  "rl_demo_run =
     (let db0 = rl_demo_store;
          (admit1, _, db1) = rl_AllowN map_redis Answered ''k'' 1 rl_demo db0;
          db2 = db1\<lparr>ms_clock := (1700000360, 0), ms_fields := Map.empty\<rparr>;
          (admit2, _, db3) = rl_AllowN map_redis Answered ''k'' 2 rl_demo db2;
          (admit3, _, db4) = rl_AllowN map_redis Answered ''k'' 1 rl_demo db3
      in ([(lua_now map_redis db0, if admit1 then 1 else 0), (lua_now map_redis db2, 0),
           (lua_now map_redis db2, if admit2 then 2 else 0), (lua_now map_redis db3, if admit3 then 1 else 0)], db4))"

lemma rl_demo_history: "\<exists>lst. rl_history map_redis rl_demo ''k'' rl_demo_store (fst rl_demo_run) lst (snd rl_demo_run)"
proof -
  let ?H = "rl_history map_redis rl_demo ''k'' rl_demo_store"
  have self: "rl_demo\<lparr>rl_totalRequests := 0, rl_allowedRequests := 0\<rparr> = rl_demo" by (simp add: rl_demo_def)
  note request = history_request[where r = rl_demo and reqs = 0 and adms = 0, unfolded self]
  have lst: "rl_ran rl_demo Answered 1" "rl_ran rl_demo Answered 2" by (simp_all add: rl_ran_def rl_demo_def)
  obtain a1 r1 db1 where 1: "rl_AllowN map_redis Answered ''k'' 1 rl_demo rl_demo_store = (a1, r1, db1)"
    by (metis prod_cases3)
  define db2 where "db2 = db1\<lparr>ms_clock := (1700000360, 0), ms_fields := Map.empty\<rparr>"
  obtain a2 r2 db3 where 2: "rl_AllowN map_redis Answered ''k'' 2 rl_demo db2 = (a2, r2, db3)"
    by (metis prod_cases3)
  obtain a3 r3 db4 where 3: "rl_AllowN map_redis Answered ''k'' 1 rl_demo db3 = (a3, r3, db4)"
    by (metis prod_cases3)
  have "?H [(lua_now map_redis rl_demo_store, if a1 then 1 else 0)] (Some (lua_now map_redis rl_demo_store)) db1"
    using request[OF history_start _ 1] lst by simp
  moreover have "lua_now map_redis rl_demo_store + of_int (rl_ttl rl_demo) \<le> lua_now map_redis db2"
  proof -
    have "lua_now map_redis db2 = lua_now map_redis (rl_demo_store\<lparr>ms_clock := (1700000360, 0)\<rparr>)"
      by (simp add: lua_now_def map_redis_def db2_def)
    moreover have "lua_now map_redis rl_demo_store + of_int (rl_ttl rl_demo)
        \<le> lua_now map_redis (rl_demo_store\<lparr>ms_clock := (1700000360, 0)\<rparr>)"
      by code_simp
    ultimately show ?thesis by simp
  qed
  moreover have "rl_holds map_redis (rl_redisKey ''k'' rl_demo) None db2"
    by (simp add: rl_holds_def map_redis_def db2_def)
  ultimately have "?H ([(lua_now map_redis rl_demo_store, if a1 then 1 else 0)] @ [(lua_now map_redis db2, 0)])
      (Some (lua_now map_redis rl_demo_store)) db2"
    by (rule history_expire)
  from request[OF request[OF this _ 2] _ 3] lst
  show ?thesis using 1 2 3 by (auto simp: rl_demo_run_def Let_def db2_def)
qed


end
