(* ===== verification/TokenBuckets.thy ===== *)
theory TokenBuckets
  imports RedisLimiters
begin

text \<open>
  \<open>stability/redis_ratelimit_v3.go\<close>: the token bucket that a process changes in optimistic
  transactions. An attempt reads the fields under \<open>WATCH\<close>, decides, and sends its commands between
  \<open>MULTI\<close> and \<open>EXEC\<close>; it is repeated, at most eight times, while others touch the key. What others do
  between the reading and the \<open>EXEC\<close>, the clock of the process and the failures of calls are given
  with each attempt. The limit is a float, so a rational number, and the refill is computed with
  rounded operations.
\<close>

section \<open>Commands\<close>

datatype rd_cmd = HIncrBy string int | HSet string string | PExpire duration

text \<open>The client sends at least one millisecond for a positive duration.\<close>

definition formatMs :: "duration \<Rightarrow> int" where
  "formatMs d = (if d > 0 \<and> d < 1000000 then 1 else go_div d 1000000)"

text \<open>The commands of a pipeline, in their order; one that fails does not stop the others, and the
  flag says whether all succeeded.\<close>

fun exec_cmds :: "'db redis \<Rightarrow> string \<Rightarrow> rd_cmd list \<Rightarrow> 'db \<Rightarrow> bool \<times> 'db" where
  "exec_cmds rd key [] db = (True, db)"
| "exec_cmds rd key (HIncrBy f d # cs) db =
     (case rd_HINCRBY rd key f d db of
        None \<Rightarrow> (False, snd (exec_cmds rd key cs db))
      | Some (_, db) \<Rightarrow> exec_cmds rd key cs db)"
| "exec_cmds rd key (HSet f v # cs) db = exec_cmds rd key cs (rd_HSET rd key f v db)"
| "exec_cmds rd key (PExpire d # cs) db = exec_cmds rd key cs (rd_PEXPIRE rd key (formatMs d) db)"

section \<open>The limiter\<close>

definition NewRedisRateLimiterV3 :: "bool \<Rightarrow> redis_config \<Rightarrow> string + redis_limiter" where
  "NewRedisRateLimiterV3 client config =
     (if \<not> client then Inl ''redis client is nil''
      else if rc_Limit config \<le> 0 then Inl ''limit must be greater than zero''
      else if rc_Burst config \<le> 0 then Inl ''burst must be greater than zero''
      else let prefx = (if rc_KeyPrefix config = [] then ''stability:ratelimit'' else rc_KeyPrefix config);
               name = (if rc_Name config = [] then ''global'' else rc_Name config);
               failureMode = (if rc_FailureMode config = [] then RedisRateLimiterFailClosed
                              else rc_FailureMode config)
           in if failureMode \<noteq> RedisRateLimiterFailClosed \<and> failureMode \<noteq> RedisRateLimiterFailOpen
              then Inl (''unsupported failure mode: '' @ failureMode)
              else Inr \<lparr>rl_baseKey = prefx @ '':'' @ name, rl_limit = rc_Limit config,
                        rl_burst = rc_Burst config, rl_failureMode = failureMode,
                        rl_operationTimeout = (if rc_OperationTimeout config \<le> 0 then 200 * 1000000
                                               else rc_OperationTimeout config),
                        rl_stateTTL = (if rc_StateTTL config \<le> 0 then 300 * 1000000000
                                       else rc_StateTTL config),
                        rl_totalRequests = 0, rl_allowedRequests = 0\<rparr>)"

definition calculateRefillTokens :: "time \<Rightarrow> time \<Rightarrow> rat \<Rightarrow> int" where
  "calculateRefillTokens nowNS lastNS limit =
     (if limit \<le> 0 then 0
      else if nowNS \<le> lastNS then 0
      else let elapsed = wrap64 (nowNS - lastNS);
               refillFloat = rnd (rnd (rnd (of_int elapsed) * limit) / 1000000000)
           in if refillFloat \<le> 0 then 0
              else let refill = float_to_int64 (of_int \<lfloor>refillFloat\<rfloor>)
                   in if refill < 0 then 0 else refill)"

text \<open>What \<open>HMGET\<close> found in the two fields: the tokens, the instant, and whether there were tokens.\<close>

definition tb_read :: "int \<Rightarrow> time \<Rightarrow> go_value \<Rightarrow> go_value \<Rightarrow> rl_error + (int \<times> time \<times> bool)" where
  "tb_read burst now v0 v1 =
     (case (if v0 = GNil then Inr (burst, False)
            else (case toInt64 v0 of Inl e \<Rightarrow> Inl e | Inr parsed \<Rightarrow> Inr (parsed, True))) of
        Inl e \<Rightarrow> Inl e
      | Inr (tokens, initialized) \<Rightarrow>
          (case (if v1 = GNil then Inr now else toInt64 v1) of
             Inl e \<Rightarrow> Inl e
           | Inr lastNS \<Rightarrow> Inr (tokens, if lastNS > now then now else lastNS, initialized)))"

text \<open>The decision of one attempt, with the commands it sends.\<close>

definition tb_attempt :: "rat \<Rightarrow> int \<Rightarrow> int \<Rightarrow> duration \<Rightarrow> time \<Rightarrow> go_value \<Rightarrow> go_value \<Rightarrow> rl_error + (bool \<times> rd_cmd list)" where
  "tb_attempt limit burst n stateTTL now v0 v1 =
     (case tb_read burst now v0 v1 of
        Inl e \<Rightarrow> Inl e
      | Inr (tokens, lastNS, initialized) \<Rightarrow>
          let refill = calculateRefillTokens now lastNS limit;
              (tokens, lastNS) =
                (if refill > 0 then (let tokens = wrap64 (tokens + refill)
                                     in (if tokens > burst then burst else tokens, now))
                 else (tokens, lastNS));
              lastNS = (if \<not> initialized then now else lastNS);
              expire = (if stateTTL > 0 then [PExpire stateTTL] else [])
          in if tokens < n
             then Inr (False, (if \<not> initialized \<or> refill > 0
                               then [HSet ''tokens'' (dec tokens), HSet ''last_ns'' (dec lastNS)] else []) @ expire)
             else Inr (True, (if refill > 0 then [HIncrBy ''tokens'' refill] else []) @
                             [HIncrBy ''tokens'' (- n), HSet ''last_ns'' (dec lastNS)] @ expire))"

text \<open>An attempt in its surroundings: the clock of the process; whether the read fails; what others do to
  the store before the \<open>EXEC\<close> and whether they touched the key; what becomes of the \<open>EXEC\<close>.\<close>

record 'db tx_try =
  tx_now :: time
  tx_readError :: "string option"
  tx_others :: "'db \<Rightarrow> 'db"
  tx_touched :: bool
  tx_fault :: rd_fault

fun tb_consume ::
    "'db redis \<Rightarrow> string \<Rightarrow> rat \<Rightarrow> int \<Rightarrow> int \<Rightarrow> duration \<Rightarrow> 'db tx_try list \<Rightarrow> 'db \<Rightarrow> (rl_error + bool) \<times> 'db" where
  "tb_consume rd redisKey limit burst n stateTTL [] db = (Inl RetriesExceeded, db)"
| "tb_consume rd redisKey limit burst n stateTTL (attempt # tries) db =
     (case tx_readError attempt of
        Some e \<Rightarrow> (Inl (RedisError e), db)
      | None \<Rightarrow>
          (case tb_attempt limit burst n stateTTL (tx_now attempt)
                  (of_hget (rd_HGET rd db redisKey ''tokens'')) (of_hget (rd_HGET rd db redisKey ''last_ns'')) of
             Inl e \<Rightarrow> (Inl e, db)
           | Inr (allowed, cmds) \<Rightarrow>
               let db = tx_others attempt db
               in (case tx_fault attempt of
                     Refused e \<Rightarrow> (Inl (RedisError e), db)
                   | fault \<Rightarrow>
                       if cmds \<noteq> [] \<and> tx_touched attempt then
                         (case fault of
                            Unanswered e \<Rightarrow> (Inl (RedisError e), db)
                          | _ \<Rightarrow> tb_consume rd redisKey limit burst n stateTTL tries db)
                       else let (ok, db) = exec_cmds rd redisKey cmds db
                            in (case fault of
                                  Unanswered e \<Rightarrow> (Inl (RedisError e), db)
                                | _ \<Rightarrow> (if ok then Inr allowed else Inl (RedisError ''command''), db)))))"

text \<open>The list holds the attempts that may happen; the code makes eight of them.\<close>

definition consumeTokenBucketDirect ::
    "'db redis \<Rightarrow> string \<Rightarrow> rat \<Rightarrow> int \<Rightarrow> int \<Rightarrow> duration \<Rightarrow> 'db tx_try list \<Rightarrow> 'db \<Rightarrow> (rl_error + bool) \<times> 'db" where
  "consumeTokenBucketDirect rd redisKey limit burst n stateTTL tries db =
     (if n > burst then (Inr False, db)
      else tb_consume rd redisKey limit burst n stateTTL (take 8 tries) db)"

definition v3_AllowN ::
    "'db redis \<Rightarrow> 'db tx_try list \<Rightarrow> string \<Rightarrow> int \<Rightarrow> redis_limiter \<Rightarrow> 'db \<Rightarrow> bool \<times> redis_limiter \<times> 'db" where
  "v3_AllowN rd tries key n r db =
     (if n \<le> 0 then (True, r, db)
      else let r = r\<lparr>rl_totalRequests := wrap64 (rl_totalRequests r + n)\<rparr>;
               (res, db) = consumeTokenBucketDirect rd (rl_redisKey key r) (rl_limit r) (rl_burst r) n
                             (rl_stateTTL r) tries db;
               admit = (case res of Inl err \<Rightarrow> rl_failureMode r = RedisRateLimiterFailOpen | Inr allowed \<Rightarrow> allowed)
           in (admit, if admit then r\<lparr>rl_allowedRequests := wrap64 (rl_allowedRequests r + n)\<rparr> else r, db))"

definition v3_Allow where
  "v3_Allow rd tries key r db = v3_AllowN rd tries key 1 r db"

section \<open>Refills\<close>

lemma rnd_up: "0 \<le> x \<Longrightarrow> rnd x \<le> x * (1 + 1 / 2 ^ 53)"
proof -
  assume "0 \<le> x"
  then have "rnd x - x \<le> x / 2 ^ 53" using rnd_error[of x] by linarith
  then show ?thesis by (simp add: distrib_left)
qed

lemma calculateRefillTokens_now [simp]: "calculateRefillTokens now now limit = 0"
  by (simp add: calculateRefillTokens_def)

lemma calculateRefillTokens_nonneg: "0 \<le> calculateRefillTokens now old limit"
  by (simp add: calculateRefillTokens_def Let_def)

text \<open>A refill is at most what the limit allows for the time that passed, up to three roundings.\<close>

lemma calculateRefillTokens_bound:
  assumes "0 < limit" "old \<le> now" "0 \<le> old" "now < 2 ^ 63"
  shows "of_int (calculateRefillTokens now old limit) \<le> of_int (now - old) * limit / 10 ^ 9 * (1 + 1 / 2 ^ 50)"
proof (cases "now = old")
  case True
  then show ?thesis by (simp add: calculateRefillTokens_def)
next
  case False
  define e where "e = (of_int (now - old) :: rat)"
  define u where "u = (1 + 1 / 2 ^ 53 :: rat)"
  have e: "0 < e" using assms False by (simp add: e_def)
  have w: "wrap64 (now - old) = now - old" using assms by (simp add: wrap64_id)
  define q where "q = rnd (rnd (rnd e * limit) / 1000000000)"
  have "0 \<le> rnd e" using e by (simp add: rnd_sign(1))
  moreover have "0 \<le> rnd (rnd e * limit)" using calculation assms(1) by (simp add: rnd_sign(1))
  ultimately have nn: "0 \<le> rnd e" "0 \<le> rnd (rnd e * limit)" .
  have "rnd e * limit \<le> e * u * limit"
    using rnd_up[of e] e assms(1) by (intro mult_right_mono) (simp_all add: u_def)
  then have 1: "rnd (rnd e * limit) \<le> e * u * limit * u"
  proof -
    have "rnd (rnd e * limit) \<le> rnd e * limit * u" using rnd_up[of "rnd e * limit"] nn assms(1) by (simp add: u_def)
    also have "\<dots> \<le> e * u * limit * u"
      by (rule mult_right_mono[OF \<open>rnd e * limit \<le> e * u * limit\<close>]) (simp add: u_def)
    finally show ?thesis .
  qed
  have "q \<le> rnd (rnd e * limit) / 1000000000 * u" unfolding q_def u_def using nn by (intro rnd_up) simp
  also have "\<dots> \<le> e * u * limit * u / 1000000000 * u"
    using 1 by (intro mult_right_mono divide_right_mono) (simp_all add: u_def)
  also have "\<dots> = e * limit / 10 ^ 9 * (u * u * u)" by simp
  also have "\<dots> \<le> e * limit / 10 ^ 9 * (1 + 1 / 2 ^ 50)"
    using e assms(1) by (intro mult_left_mono) (simp_all add: u_def)
  finally have q: "q \<le> e * limit / 10 ^ 9 * (1 + 1 / 2 ^ 50)" .
  have refill: "of_int (calculateRefillTokens now old limit) \<le> max 0 q"
  proof -
    have "trunc (of_int \<lfloor>q\<rfloor>) = \<lfloor>q\<rfloor>" by (simp add: trunc_def)
    moreover have "calculateRefillTokens now old limit =
        (if q \<le> 0 then 0 else if float_to_int64 (of_int \<lfloor>q\<rfloor>) < 0 then 0 else float_to_int64 (of_int \<lfloor>q\<rfloor>))"
      unfolding calculateRefillTokens_def Let_def w q_def e_def using assms False by simp
    ultimately have "calculateRefillTokens now old limit \<le> max 0 \<lfloor>q\<rfloor>" by (simp add: float_to_int64_def)
    then have "of_int (calculateRefillTokens now old limit) \<le> (of_int (max 0 \<lfloor>q\<rfloor>) :: rat)" by (simp only: of_int_le_iff)
    also have "\<dots> \<le> max 0 q" by (simp add: max_def)
    finally show ?thesis .
  qed
  have "0 \<le> e * limit / 10 ^ 9 * (1 + 1 / 2 ^ 50)" using e assms(1) by simp
  then show ?thesis using refill q by (simp add: e_def max_def split: if_splits)
qed

section \<open>What a bucket holds\<close>

definition tb_holds :: "'db redis \<Rightarrow> string \<Rightarrow> (int \<times> time) option \<Rightarrow> 'db \<Rightarrow> bool" where
  "tb_holds rd key b db \<longleftrightarrow>
     (case b of
        None \<Rightarrow> rd_HGET rd db key ''tokens'' = None \<and> rd_HGET rd db key ''last_ns'' = None
      | Some (tok, old) \<Rightarrow>
          (\<exists>s t. rd_HGET rd db key ''tokens'' = Some s \<and> parse_int64 s = Some tok \<and>
                 rd_HGET rd db key ''last_ns'' = Some t \<and> parse_int64 t = Some old))"

definition in_int64 :: "int \<Rightarrow> bool" where
  "in_int64 k \<longleftrightarrow> - (2 ^ 63) \<le> k \<and> k < 2 ^ 63"

lemma parse_dec: "in_int64 k \<Longrightarrow> parse_int64 (dec k) = Some k"
  by (simp add: in_int64_def parse_int64_dec)

lemma parse_range:
  assumes "parse_int64 s = Some k" shows "in_int64 k"
proof -
  obtain neg ds where split: "(case s of [] \<Rightarrow> (False, [])
      | c # cs \<Rightarrow> if c = CHR ''-'' then (True, cs) else if c = CHR ''+'' then (False, cs) else (False, s)) = (neg, ds)"
    by fastforce
  show ?thesis
    using assms unfolding parse_int64_def split
    by (cases "parse_nat ds") (auto simp: in_int64_def Let_def split: if_splits)
qed

lemma tb_holds_read:
  "tb_holds rd key (Some (tok, old)) db \<Longrightarrow> old \<le> now \<Longrightarrow>
   tb_read burst now (of_hget (rd_HGET rd db key ''tokens'')) (of_hget (rd_HGET rd db key ''last_ns'')) = Inr (tok, old, True)"
  "tb_holds rd key None db \<Longrightarrow>
   tb_read burst now (of_hget (rd_HGET rd db key ''tokens'')) (of_hget (rd_HGET rd db key ''last_ns'')) = Inr (burst, now, False)"
  by (auto simp: tb_holds_def tb_read_def of_hget_def toInt64_def)

lemma formatMs_pos: "0 < d \<Longrightarrow> 0 < formatMs d"
  by (auto simp: formatMs_def go_div_nonneg pos_imp_zdiv_pos_iff)

lemma tb_holds_expire:
  assumes "redis_lawful rd" "0 < d"
  shows "tb_holds rd key b (rd_PEXPIRE rd key (formatMs d) db) = tb_holds rd key b db"
  using assms by (simp add: tb_holds_def redis_laws formatMs_pos split: option.splits)

lemma tb_holds_set:
  assumes "redis_lawful rd" "in_int64 tok" "in_int64 old"
  shows "tb_holds rd key (Some (tok, old)) (rd_HSET rd key ''last_ns'' (dec old) (rd_HSET rd key ''tokens'' (dec tok) db))"
  using assms by (simp add: tb_holds_def redis_laws parse_dec)

lemma hincrby_tokens:
  assumes "redis_lawful rd" "rd_HGET rd db key ''tokens'' = Some s" "parse_int64 s = Some tok" "in_int64 (tok + d)"
  shows "rd_HINCRBY rd key ''tokens'' d db = Some (tok + d, rd_HSET rd key ''tokens'' (dec (tok + d)) db)"
  using HINCRBY_sets[OF assms(1), of db key "''tokens''" d "tok + d"] assms
  by (simp add: hincrby_value_def in_int64_def)

lemma hincrby_missing:
  assumes "redis_lawful rd" "rd_HGET rd db key ''tokens'' = None" "in_int64 d"
  shows "rd_HINCRBY rd key ''tokens'' d db = Some (d, rd_HSET rd key ''tokens'' (dec d) db)"
  using HINCRBY_sets[OF assms(1), of db key "''tokens''" d d] assms
  by (simp add: hincrby_value_def in_int64_def)

text \<open>The transaction on an empty key: the tokens of the request are taken from nothing.\<close>

lemma tb_commit_fresh:
  assumes rd: "redis_lawful rd" and b: "tb_holds rd key None db" and n: "0 < n" "n \<le> burst" "burst < 2 ^ 53"
    and now: "in_int64 now" and ttl: "0 < ttl"
    and dec: "tb_attempt limit burst n ttl now (of_hget (rd_HGET rd db key ''tokens'')) (of_hget (rd_HGET rd db key ''last_ns'')) = Inr (allowed, cmds)"
  shows "allowed \<and> (\<exists>db'. exec_cmds rd key cmds db = (True, db') \<and> tb_holds rd key (Some (- n, now)) db')"
proof -
  have cmds: "allowed" "cmds = [HIncrBy ''tokens'' (- n), HSet ''last_ns'' (dec now), PExpire ttl]"
    using dec n ttl by (auto simp: tb_attempt_def tb_holds_read(2)[OF b] Let_def)
  have m: "in_int64 (- n)" using n by (simp add: in_int64_def)
  have none: "rd_HGET rd db key ''tokens'' = None" using b by (simp add: tb_holds_def)
  show ?thesis
    using tb_holds_set[OF rd m now, of key db] hincrby_missing[OF rd none m] cmds(1)
    by (simp add: cmds(2) tb_holds_expire[OF rd ttl])
qed

text \<open>On a key with tokens.\<close>

lemma tb_commit:
  assumes rd: "redis_lawful rd" and b: "tb_holds rd key (Some (tok, old)) db" and n: "0 < n" "n \<le> burst" "burst < 2 ^ 53"
    and now: "in_int64 now" "old \<le> now" and ttl: "0 < ttl"
    and tok: "- burst \<le> tok" "tok < 2 ^ 62" and refill: "calculateRefillTokens now old limit = refill" "refill < 2 ^ 62"
    and dec: "tb_attempt limit burst n ttl now (of_hget (rd_HGET rd db key ''tokens'')) (of_hget (rd_HGET rd db key ''last_ns'')) = Inr (allowed, cmds)"
  shows "\<exists>db' tok' old'. exec_cmds rd key cmds db = (True, db') \<and> tb_holds rd key (Some (tok', old')) db' \<and>
    - burst \<le> tok' \<and> tok' + (if allowed then n else 0) \<le> tok + refill \<and>
    (old' = now \<or> old' = old \<and> refill = 0)"
proof -
  have r0: "0 \<le> refill" using refill(1) calculateRefillTokens_nonneg by blast
  have oldw: "in_int64 old"
    using b parse_range by (auto simp: tb_holds_def)
  obtain s where s: "rd_HGET rd db key ''tokens'' = Some s" "parse_int64 s = Some tok"
    using b by (auto simp: tb_holds_def)
  have sums: "in_int64 (tok + refill)" "in_int64 (tok + refill - n)" "in_int64 (tok - n)" "wrap64 (tok + refill) = tok + refill"
    using tok refill(2) n r0 by (simp_all add: in_int64_def wrap64_id)
  define lvl where "lvl = (if refill > 0 then if tok + refill > burst then burst else tok + refill else tok)"
  have lvlw: "in_int64 lvl" using sums tok n by (auto simp: lvl_def in_int64_def)
  have "tb_attempt limit burst n ttl now (of_hget (rd_HGET rd db key ''tokens'')) (of_hget (rd_HGET rd db key ''last_ns'')) = Inr
      (if lvl < n then (False, (if refill > 0 then [HSet ''tokens'' (dec lvl), HSet ''last_ns'' (dec now)] else []) @ [PExpire ttl])
       else (True, (if refill > 0 then [HIncrBy ''tokens'' refill] else []) @
         [HIncrBy ''tokens'' (- n), HSet ''last_ns'' (dec (if refill > 0 then now else old))] @ [PExpire ttl]))"
    using ttl by (cases "refill > 0") (simp_all add: tb_attempt_def tb_holds_read(1)[OF b now(2)] refill(1) Let_def sums(4) lvl_def)
  then have dec': "(allowed, cmds) =
      (if lvl < n then (False, (if refill > 0 then [HSet ''tokens'' (dec lvl), HSet ''last_ns'' (dec now)] else []) @ [PExpire ttl])
       else (True, (if refill > 0 then [HIncrBy ''tokens'' refill] else []) @
         [HIncrBy ''tokens'' (- n), HSet ''last_ns'' (dec (if refill > 0 then now else old))] @ [PExpire ttl]))"
    using dec by simp
  consider "lvl < n" "refill > 0" | "lvl < n" "refill = 0" | "n \<le> lvl" "refill > 0" | "n \<le> lvl" "refill = 0"
    using r0 by linarith
  then show ?thesis
  proof cases
    case 1
    then show ?thesis using dec' tb_holds_set[OF rd lvlw now(1), of key db] tok n
      by (auto simp: tb_holds_expire[OF rd ttl] lvl_def)
  next
    case 2
    then show ?thesis using dec' b tok n by (auto simp: tb_holds_expire[OF rd ttl])
  next
    case 3
    define db1 where "db1 = rd_HSET rd key ''tokens'' (dec (tok + refill)) db"
    have 1: "rd_HINCRBY rd key ''tokens'' refill db = Some (tok + refill, db1)"
      using hincrby_tokens[OF rd s sums(1)] by (simp add: db1_def)
    have "rd_HGET rd db1 key ''tokens'' = Some (dec (tok + refill))" "parse_int64 (dec (tok + refill)) = Some (tok + refill)"
      using sums(1) by (simp_all add: db1_def redis_laws[OF rd] parse_dec)
    from hincrby_tokens[OF rd this, of "- n"] sums(2)
    have 2: "rd_HINCRBY rd key ''tokens'' (- n) db1 = Some (tok + refill - n, rd_HSET rd key ''tokens'' (dec (tok + refill - n)) db1)"
      by simp
    have "- burst \<le> tok + refill - n" using 3 n by (auto simp: lvl_def split: if_splits)
    then show ?thesis using 3 dec' 1 2 tb_holds_set[OF rd sums(2) now(1), of key db1]
      by (auto simp: tb_holds_expire[OF rd ttl])
  next
    case 4
    have "rd_HINCRBY rd key ''tokens'' (- n) db = Some (tok - n, rd_HSET rd key ''tokens'' (dec (tok - n)) db)"
      using hincrby_tokens[OF rd s, of "- n"] sums(3) by simp
    moreover have "cmds = [HIncrBy ''tokens'' (- n), HSet ''last_ns'' (dec old), PExpire ttl]" "allowed"
      using 4 dec' by simp_all
    moreover have "- burst \<le> tok - n" using 4 n by (simp add: lvl_def)
    ultimately show ?thesis using 4(2) tb_holds_set[OF rd sums(3) oldw, of key db]
      by (intro exI[of _ "snd (exec_cmds rd key cmds db)"] exI[of _ "tok - n"] exI[of _ old]) (simp add: tb_holds_expire[OF rd ttl])
  qed
qed

section \<open>Calls\<close>

definition keeps_bucket :: "'db redis \<Rightarrow> string \<Rightarrow> 'db \<Rightarrow> 'db \<Rightarrow> bool" where
  "keeps_bucket rd key db db' \<longleftrightarrow> rd_HGET rd db' key ''tokens'' = rd_HGET rd db key ''tokens'' \<and>
     rd_HGET rd db' key ''last_ns'' = rd_HGET rd db key ''last_ns''"

lemma tb_holds_keeps: "keeps_bucket rd key db db' \<Longrightarrow> tb_holds rd key b db' = tb_holds rd key b db"
  by (simp add: tb_holds_def keeps_bucket_def split: option.splits)

text \<open>A call is a number of attempts that others spoil, which do nothing to the store, and a last one.\<close>

lemma tb_consume_last:
  "tb_consume rd key limit burst n ttl tries db = (res, db') \<Longrightarrow> 0 < ttl \<Longrightarrow>
   res = Inl RetriesExceeded \<or>
   (\<exists>attempt \<in> set tries. \<exists>db1. tb_consume rd key limit burst n ttl [attempt] db1 = (res, db'))"
proof (induction tries arbitrary: db)
  case Nil
  then show ?case by simp
next
  case (Cons attempt tries)
  show ?case
  proof (cases "tb_consume rd key limit burst n ttl [attempt] db = (res, db')")
    case True
    then show ?thesis by auto
  next
    case False
    then have "tb_consume rd key limit burst n ttl tries (tx_others attempt db) = (res, db')"
      using Cons.prems(1)
      by (auto simp: Let_def split: option.splits sum.splits prod.splits rd_fault.splits if_splits)
    from Cons.IH[OF this Cons.prems(2)] show ?thesis by auto
  qed
qed

text \<open>Whether the commands of such an attempt are executed.\<close>

definition tb_executes :: "'db redis \<Rightarrow> rat \<Rightarrow> int \<Rightarrow> int \<Rightarrow> duration \<Rightarrow> string \<Rightarrow> 'db tx_try \<Rightarrow> 'db \<Rightarrow> bool" where
  "tb_executes rd limit burst n ttl key attempt db \<longleftrightarrow>
     tx_readError attempt = None \<and> (\<forall>e. tx_fault attempt \<noteq> Refused e) \<and>
     (\<exists>p. tb_attempt limit burst n ttl (tx_now attempt)
        (of_hget (rd_HGET rd db key ''tokens'')) (of_hget (rd_HGET rd db key ''last_ns'')) = Inr p)"

text \<open>The last attempts of all calls on a key, of any process, in the order in which they end, with what
  else happens to the store: the expiry of the key, which Redis may bring about when the time to live has
  passed since the last execution, and what leaves the two fields as they are. Others did not change the
  fields within such an attempt, or it would have been repeated. The third index is the instant of the last
  execution.\<close>

inductive tb_history ::
    "'db redis \<Rightarrow> rat \<Rightarrow> int \<Rightarrow> duration \<Rightarrow> string \<Rightarrow> 'db \<Rightarrow> (time \<times> int) list \<Rightarrow> time option \<Rightarrow> 'db \<Rightarrow> bool"
  for rd limit burst ttl key db0 where
  tb_start: "tb_history rd limit burst ttl key db0 [] None db0"
| tb_call:
    "tb_history rd limit burst ttl key db0 h lst db \<Longrightarrow> 0 < n \<Longrightarrow> n \<le> burst \<Longrightarrow>
     \<not> tx_touched attempt \<Longrightarrow> keeps_bucket rd key db (tx_others attempt db) \<Longrightarrow>
     tb_consume rd key limit burst n ttl [attempt] db = (res, db') \<Longrightarrow>
     tb_history rd limit burst ttl key db0 (h @ [(tx_now attempt, if res = Inr True then n else 0)])
       (if tb_executes rd limit burst n ttl key attempt db then Some (tx_now attempt) else lst) db'"
| tb_expire:
    "tb_history rd limit burst ttl key db0 h (Some u) db \<Longrightarrow> u + formatMs ttl * 1000000 \<le> now \<Longrightarrow>
     tb_holds rd key None db' \<Longrightarrow> tb_history rd limit burst ttl key db0 (h @ [(now, 0)]) (Some u) db'"
| tb_other:
    "tb_history rd limit burst ttl key db0 h lst db \<Longrightarrow> keeps_bucket rd key db db' \<Longrightarrow>
     tb_history rd limit burst ttl key db0 h lst db'"

text \<open>What such an attempt may do: nothing, or all its commands.\<close>

lemma tb_consume_cases:
  assumes "tb_consume rd key limit burst n ttl [attempt] db = (res, db')" "\<not> tx_touched attempt"
  shows "if tb_executes rd limit burst n ttl key attempt db
    then \<exists>allowed cmds ok. tb_attempt limit burst n ttl (tx_now attempt)
        (of_hget (rd_HGET rd db key ''tokens'')) (of_hget (rd_HGET rd db key ''last_ns'')) = Inr (allowed, cmds) \<and>
      exec_cmds rd key cmds (tx_others attempt db) = (ok, db') \<and> (res = Inr True \<longrightarrow> allowed)
    else res \<noteq> Inr True \<and> (db' = db \<or> db' = tx_others attempt db)"
proof (cases "tx_readError attempt")
  case (Some e)
  then show ?thesis using assms by (auto simp: tb_executes_def)
next
  case None
  show ?thesis
  proof (cases "tb_attempt limit burst n ttl (tx_now attempt)
      (of_hget (rd_HGET rd db key ''tokens'')) (of_hget (rd_HGET rd db key ''last_ns''))")
    case (Inl e)
    then show ?thesis using assms None by (auto simp: tb_executes_def)
  next
    case (Inr p)
    obtain allowed cmds where p: "p = (allowed, cmds)" by fastforce
    obtain ok db2 where e: "exec_cmds rd key cmds (tx_others attempt db) = (ok, db2)" by fastforce
    show ?thesis
      using assms None Inr p e by (cases "tx_fault attempt"; cases ok) (auto simp: tb_executes_def)
  qed
qed

section \<open>The rate of admissions\<close>

definition tb_clock_ok :: "time list \<Rightarrow> bool" where
  "tb_clock_ok ts \<longleftrightarrow> sorted ts \<and> (\<forall>t \<in> set ts. 0 \<le> t \<and> t \<le> 2 ^ 61)"

definition tb_config_ok :: "rat \<Rightarrow> int \<Rightarrow> duration \<Rightarrow> bool" where
  "tb_config_ok limit burst ttl \<longleftrightarrow> 0 < limit \<and> limit \<le> 10 ^ 9 \<and> 0 < burst \<and> burst < 2 ^ 53 \<and> 0 < ttl"

text \<open>A key is kept at least for the time in which the limit earns the burst.\<close>

definition tb_ttl_ok :: "rat \<Rightarrow> int \<Rightarrow> duration \<Rightarrow> bool" where
  "tb_ttl_ok limit burst ttl \<longleftrightarrow> of_int burst \<le> of_int (formatMs ttl * 1000000) * limit / 10 ^ 9"

definition tb_earned :: "rat \<Rightarrow> time \<Rightarrow> time \<Rightarrow> rat" where
  "tb_earned limit t0 t = of_int (t - t0) * limit / 10 ^ 9 * (1 + 1 / 2 ^ 50)"

definition tb_inv :: "'db redis \<Rightarrow> rat \<Rightarrow> int \<Rightarrow> string \<Rightarrow> (time \<times> int) list \<Rightarrow> time option \<Rightarrow> 'db \<Rightarrow> bool" where
  "tb_inv rd limit burst key h lst db \<longleftrightarrow>
     (tb_holds rd key None db \<and>
        (sum_list (map snd h) = 0 \<or> h \<noteq> [] \<and> 0 \<le> sum_list (map snd h) \<and>
           of_int (sum_list (map snd h)) \<le> tb_earned limit (fst (hd h)) (fst (last h)))) \<or>
     (h \<noteq> [] \<and> (\<exists>tok old u. lst = Some u \<and> tb_holds rd key (Some (tok, old)) db \<and> - burst \<le> tok \<and>
        fst (hd h) \<le> old \<and> old \<le> u \<and> u \<le> fst (last h) \<and> 0 \<le> sum_list (map snd h) \<and>
        of_int (tok + sum_list (map snd h)) \<le> tb_earned limit (fst (hd h)) old))"

lemma tb_clock_snoc:
  assumes "tb_clock_ok (ts @ [t])"
  shows "tb_clock_ok ts" "0 \<le> t" "t \<le> 2 ^ 61" "ts \<noteq> [] \<Longrightarrow> last ts \<le> t" "ts \<noteq> [] \<Longrightarrow> 0 \<le> hd ts \<and> hd ts \<le> t"
  using assms by (auto simp: tb_clock_ok_def sorted_append)

lemma tb_earned_small:
  assumes "0 < limit" "limit \<le> 10 ^ 9" "0 \<le> t0" "t0 \<le> t" "t \<le> 2 ^ 61"
  shows "0 \<le> tb_earned limit t0 t" "tb_earned limit t0 t < 2 ^ 61 + 2 ^ 12"
proof -
  have d: "(0 :: rat) \<le> of_int (t - t0)" "of_int (t - t0) \<le> (2 ^ 61 :: rat)"
  proof -
    have "(of_int (t - t0) :: rat) \<le> of_int (2 ^ 61)" using assms by (simp only: of_int_le_iff)
    then show "of_int (t - t0) \<le> (2 ^ 61 :: rat)" by simp
  qed (use assms in simp)
  show "0 \<le> tb_earned limit t0 t" using assms d by (simp add: tb_earned_def)
  have "of_int (t - t0) * limit \<le> 2 ^ 61 * 10 ^ 9" using assms d by (intro mult_mono) simp_all
  then have "of_int (t - t0) * limit / 10 ^ 9 \<le> 2 ^ 61" by simp
  then have "tb_earned limit t0 t \<le> 2 ^ 61 * (1 + 1 / 2 ^ 50)"
    unfolding tb_earned_def by (rule mult_right_mono) simp
  then show "tb_earned limit t0 t < 2 ^ 61 + 2 ^ 12" by simp
qed

lemma tb_earned_add: "tb_earned limit t0 t + tb_earned limit t t' = tb_earned limit t0 t'"
  by (simp add: tb_earned_def left_diff_distrib diff_divide_distrib)

lemma tb_earned_mono:
  assumes "0 < limit" "t \<le> t'" shows "tb_earned limit t0 t \<le> tb_earned limit t0 t'"
proof -
  have "0 \<le> tb_earned limit t t'" using assms by (simp add: tb_earned_def)
  then show ?thesis using tb_earned_add[of limit t0 t t'] by linarith
qed

lemma tb_inv_skip:
  assumes "0 < limit" "tb_inv rd limit burst key h lst db" "tb_clock_ok (map fst h @ [now])"
  shows "tb_inv rd limit burst key (h @ [(now, 0)]) lst db"
proof -
  have "fst (last h) \<le> now" if "h \<noteq> []" using tb_clock_snoc(4)[OF assms(3)] that by (simp add: last_map)
  then have "h \<noteq> [] \<Longrightarrow> tb_earned limit (fst (hd h)) (fst (last h)) \<le> tb_earned limit (fst (hd h)) now"
    using assms(1) by (intro tb_earned_mono)
  then show ?thesis using assms(2) \<open>h \<noteq> [] \<Longrightarrow> fst (last h) \<le> now\<close> unfolding tb_inv_def
    by (cases "h = []") (auto simp: hd_append intro: order_trans)
qed

lemma tb_inv_keeps:
  "keeps_bucket rd key db db' \<Longrightarrow> tb_inv rd limit burst key h lst db \<Longrightarrow> tb_inv rd limit burst key h lst db'"
  by (simp add: tb_inv_def tb_holds_keeps)

text \<open>In the time to live the limit has earned the burst, all that a bucket can give.\<close>

lemma tb_ttl_earned:
  assumes "0 < limit" "0 < ttl" "tb_ttl_ok limit burst ttl" "old + formatMs ttl * 1000000 \<le> now"
  shows "of_int burst \<le> tb_earned limit old now"
proof -
  have "(of_int (formatMs ttl * 1000000) :: rat) \<le> of_int (now - old)" using assms(4) by (simp only: of_int_le_iff)
  then have "of_int (formatMs ttl * 1000000) * limit / 10 ^ 9 \<le> of_int (now - old) * limit / 10 ^ 9"
    using assms(1) by (intro divide_right_mono mult_right_mono) simp_all
  then have e: "of_int burst \<le> of_int (now - old) * limit / 10 ^ 9" using assms(3) by (simp add: tb_ttl_ok_def)
  have "0 \<le> now - old" using formatMs_pos[OF assms(2)] assms(4) by linarith
  then have "0 \<le> of_int (now - old) * limit / 10 ^ 9" using assms(1) by simp
  then have "of_int (now - old) * limit / 10 ^ 9 * 1 \<le> tb_earned limit old now"
    unfolding tb_earned_def by (intro mult_left_mono) simp_all
  then show ?thesis using e by simp
qed

lemma tb_inv_expire:
  assumes c: "0 < limit" "0 < ttl" and ttl: "tb_ttl_ok limit burst ttl" and inv: "tb_inv rd limit burst key h (Some u) db"
    and due: "u + formatMs ttl * 1000000 \<le> now" and none: "tb_holds rd key None db'"
    and clock: "tb_clock_ok (map fst h @ [now])"
  shows "tb_inv rd limit burst key (h @ [(now, 0)]) (Some u) db'"
proof -
  have last: "fst (last h) \<le> now" if "h \<noteq> []" using tb_clock_snoc(4)[OF clock] that by (simp add: last_map)
  have "sum_list (map snd h) = 0 \<or> h \<noteq> [] \<and> 0 \<le> sum_list (map snd h) \<and>
      of_int (sum_list (map snd h)) \<le> tb_earned limit (fst (hd h)) now"
    using inv unfolding tb_inv_def
  proof (elim disjE conjE exE)
    fix tok old u'
    assume i: "h \<noteq> []" "Some u = Some u'" "- burst \<le> tok" "old \<le> u'" "0 \<le> sum_list (map snd h)"
      "of_int (tok + sum_list (map snd h)) \<le> tb_earned limit (fst (hd h)) old"
    have "(of_int (- burst) :: rat) \<le> of_int tok" using i(3) by (simp only: of_int_le_iff)
    moreover have "of_int burst \<le> tb_earned limit old now" using tb_ttl_earned[OF c ttl, of old now] i due by simp
    ultimately show ?thesis using i tb_earned_add[of limit "fst (hd h)" old now] by simp
  next
    assume "h \<noteq> []" "0 \<le> sum_list (map snd h)"
      "of_int (sum_list (map snd h)) \<le> tb_earned limit (fst (hd h)) (fst (last h))"
    then show ?thesis using tb_earned_mono[OF c(1) last, of "fst (hd h)"] by auto
  qed simp
  then show ?thesis using none unfolding tb_inv_def by (auto simp: hd_append)
qed

lemma tb_inv_commit:
  assumes rd: "redis_lawful rd" and conf: "tb_config_ok limit burst ttl"
    and inv: "tb_inv rd limit burst key h lst db" and clock: "tb_clock_ok (map fst h @ [now])"
    and n: "0 < n" "n \<le> burst"
    and dec: "tb_attempt limit burst n ttl now (of_hget (rd_HGET rd db key ''tokens'')) (of_hget (rd_HGET rd db key ''last_ns'')) = Inr (allowed, cmds)"
    and exec: "exec_cmds rd key cmds db = (ok, db')" and m: "0 \<le> m" "m \<le> (if allowed then n else 0)"
  shows "tb_inv rd limit burst key (h @ [(now, m)]) (Some now) db'"
proof (cases "tb_holds rd key None db \<and> (sum_list (map snd h) = 0 \<or> h \<noteq> [] \<and> 0 \<le> sum_list (map snd h) \<and>
    of_int (sum_list (map snd h)) \<le> tb_earned limit (fst (hd h)) (fst (last h)))")
  case True
  note t = tb_clock_snoc[OF clock]
  have c: "burst < 2 ^ 53" "0 < ttl" "0 < limit" "limit \<le> 10 ^ 9" using conf by (simp_all add: tb_config_ok_def)
  have w: "in_int64 now" using t by (simp add: in_int64_def)
  have post: "tb_holds rd key (Some (- n, now)) db'"
    using tb_commit_fresh[OF rd _ n c(1) w c(2) dec] True exec by auto
  define t0 where "t0 = fst (hd (h @ [(now, m)]))"
  have t0: "0 \<le> t0" "t0 \<le> now" using t by (cases h; auto simp: t0_def)+
  have spent: "of_int (sum_list (map snd h)) \<le> tb_earned limit t0 now" "0 \<le> sum_list (map snd h)"
  proof -
    have "0 \<le> tb_earned limit t0 now" using tb_earned_small(1) c t0 t by blast
    moreover have "h \<noteq> [] \<Longrightarrow> tb_earned limit t0 (fst (last h)) \<le> tb_earned limit t0 now \<and> fst (hd h) = t0"
      using t(4) c(3) by (auto simp: last_map t0_def intro: tb_earned_mono)
    ultimately show "of_int (sum_list (map snd h)) \<le> tb_earned limit t0 now" using True by auto
    show "0 \<le> sum_list (map snd h)" using True by auto
  qed
  have "(of_int (- n + (sum_list (map snd h) + m)) :: rat) \<le> of_int (sum_list (map snd h))"
    using m n by (simp only: of_int_le_iff split: if_splits)
  then have "of_int (- n + (sum_list (map snd h) + m)) \<le> tb_earned limit t0 now" using spent by linarith
  then show ?thesis using post n m t0 spent
    unfolding tb_inv_def t0_def[symmetric]
    by (intro disjI2 conjI exI[of _ "- n"] exI[of _ now]) auto
next
  case False
  note t = tb_clock_snoc[OF clock]
  have c: "burst < 2 ^ 53" "0 < ttl" "0 < limit" "limit \<le> 10 ^ 9" using conf by (simp_all add: tb_config_ok_def)
  obtain tok old u where i: "h \<noteq> []" "tb_holds rd key (Some (tok, old)) db" "- burst \<le> tok" "fst (hd h) \<le> old"
      "old \<le> u \<and> u \<le> fst (last h)" "0 \<le> sum_list (map snd h)"
      "of_int (tok + sum_list (map snd h)) \<le> tb_earned limit (fst (hd h)) old"
    using inv False unfolding tb_inv_def by blast
  define t0 where "t0 = fst (hd h)"
  have old: "old \<le> now" "0 \<le> old" "0 \<le> t0" "t0 \<le> old" "old \<le> 2 ^ 61"
    using t(3,4,5) i(1,4,5) by (auto simp: last_map hd_map t0_def)
  have w: "in_int64 now" using t by (simp add: in_int64_def)
  define refill where "refill = calculateRefillTokens now old limit"
  have earn: "of_int refill \<le> tb_earned limit old now"
    using calculateRefillTokens_bound[OF c(3) old(1,2)] t(3) by (simp add: refill_def tb_earned_def)
  have "(of_int refill :: rat) < of_int (2 ^ 62)"
    using earn tb_earned_small(2)[OF c(3,4) old(2,1) t(3)] by simp
  then have r62: "refill < 2 ^ 62" by (simp only: of_int_less_iff)
  have "(of_int (tok + sum_list (map snd h)) :: rat) < of_int (2 ^ 62)"
  proof -
    show ?thesis using i(7) tb_earned_small(2)[OF c(3,4) old(3,4,5)] by (simp add: t0_def[symmetric])
  qed
  then have "tok + sum_list (map snd h) < 2 ^ 62" by (simp only: of_int_less_iff)
  then have tok62: "tok < 2 ^ 62" using i(6) by simp
  obtain tok' old' where post: "tb_holds rd key (Some (tok', old')) db'" "- burst \<le> tok'"
      "tok' + (if allowed then n else 0) \<le> tok + refill" "old' = now \<or> old' = old \<and> refill = 0"
    using tb_commit[OF rd i(2) n c(1) w old(1) c(2) i(3) tok62 refill_def[symmetric] r62 dec] exec by auto
  have "tok' + (sum_list (map snd h) + m) \<le> tok + sum_list (map snd h) + refill" using post(3) m by (simp split: if_splits)
  then have "(of_int (tok' + (sum_list (map snd h) + m)) :: rat) \<le> of_int (tok + sum_list (map snd h) + refill)"
    by (simp only: of_int_le_iff)
  also have "\<dots> \<le> tb_earned limit t0 old + of_int refill" using i(7) by (simp add: t0_def)
  also have "\<dots> \<le> tb_earned limit t0 old'"
    using post(4) earn tb_earned_add[of limit t0 old now] by auto
  finally have sum: "of_int (tok' + (sum_list (map snd h) + m)) \<le> tb_earned limit t0 old'" .
  have "hd (h @ [(now, m)]) = hd h" "t0 \<le> old'" "old' \<le> now" using i(1) old post(4) by auto
  then show ?thesis
    using post(1,2) i(6) m sum unfolding tb_inv_def by (auto simp: t0_def)
qed

lemma tb_history_inv:
  assumes "redis_lawful rd" "tb_config_ok limit burst ttl" "tb_ttl_ok limit burst ttl" "tb_holds rd key None db0"
  shows "tb_history rd limit burst ttl key db0 h lst db \<Longrightarrow> tb_clock_ok (map fst h) \<Longrightarrow>
    tb_inv rd limit burst key h lst db"
proof (induction rule: tb_history.induct)
  case tb_start
  then show ?case using assms(4) by (simp add: tb_inv_def)
next
  case (tb_call h lst db n attempt res db')
  have c: "0 < limit" using assms(2) by (simp add: tb_config_ok_def)
  have clock: "tb_clock_ok (map fst h @ [tx_now attempt])" using tb_call.prems by simp
  have inv: "tb_inv rd limit burst key h lst db" using tb_call.IH tb_clock_snoc(1)[OF clock] by blast
  have inv': "tb_inv rd limit burst key h lst (tx_others attempt db)" by (rule tb_inv_keeps[OF tb_call(5) inv])
  note cases = tb_consume_cases[OF tb_call(6,4)]
  show ?case
  proof (cases "tb_executes rd limit burst n ttl key attempt db")
    case False
    then have "res \<noteq> Inr True" "db' = db \<or> db' = tx_others attempt db" using cases by simp_all
    then show ?thesis using tb_inv_skip[OF c inv clock] tb_inv_skip[OF c inv' clock] False by auto
  next
    case True
    then obtain allowed cmds ok where d: "tb_attempt limit burst n ttl (tx_now attempt) (of_hget (rd_HGET rd db key ''tokens''))
        (of_hget (rd_HGET rd db key ''last_ns'')) = Inr (allowed, cmds)"
      and e: "exec_cmds rd key cmds (tx_others attempt db) = (ok, db')" and a: "res = Inr True \<longrightarrow> allowed"
      using cases by auto
    have "of_hget (rd_HGET rd db key ''tokens'') = of_hget (rd_HGET rd (tx_others attempt db) key ''tokens'')"
      "of_hget (rd_HGET rd db key ''last_ns'') = of_hget (rd_HGET rd (tx_others attempt db) key ''last_ns'')"
      using tb_call(5) by (simp_all add: keeps_bucket_def)
    from tb_inv_commit[OF assms(1,2) inv' clock tb_call(2,3) d[unfolded this] e]
    show ?thesis using a tb_call(2) True by simp
  qed
next
  case (tb_expire h u db now db')
  have c: "0 < limit" "0 < ttl" using assms(2) by (simp_all add: tb_config_ok_def)
  have clock: "tb_clock_ok (map fst h @ [now])" using tb_expire.prems by simp
  have "tb_inv rd limit burst key h (Some u) db" using tb_expire.IH tb_clock_snoc(1)[OF clock] by blast
  from tb_inv_expire[OF c assms(3) this tb_expire(2,3) clock] show ?case .
next
  case (tb_other h lst db db')
  then show ?case by (simp add: tb_inv_keeps)
qed


section \<open>Concrete runs\<close>

definition tb_try :: "time \<Rightarrow> 'db tx_try" where
  "tb_try now = \<lparr>tx_now = now, tx_readError = None, tx_others = id, tx_touched = False, tx_fault = Answered\<rparr>"

text \<open>The calls \<open>(now, n)\<close> one after another, with nothing in their way.\<close>

fun tb_calls :: "'db redis \<Rightarrow> string \<Rightarrow> rat \<Rightarrow> int \<Rightarrow> duration \<Rightarrow> (time \<times> int) list \<Rightarrow> 'db \<Rightarrow> (rl_error + bool) list \<times> 'db" where
  "tb_calls rd key limit burst ttl [] db = ([], db)"
| "tb_calls rd key limit burst ttl ((now, n) # calls) db =
     (let (res, db) = consumeTokenBucketDirect rd key limit burst n ttl [tb_try now] db;
          (rest, db) = tb_calls rd key limit burst ttl calls db
      in (res # rest, db))"

lemma tb_calls_history:
  "tb_calls rd key limit burst ttl calls db = (rs, db') \<Longrightarrow> tb_history rd limit burst ttl key db0 h lst db \<Longrightarrow>
   (\<forall>(now, n) \<in> set calls. 0 < n \<and> n \<le> burst) \<Longrightarrow>
   \<exists>lst'. tb_history rd limit burst ttl key db0
     (h @ map (\<lambda>((now, n), res). (now, if res = Inr True then n else 0)) (zip calls rs)) lst' db'"
proof (induction calls arbitrary: db h rs lst)
  case (Cons call calls)
  obtain now n where call: "call = (now, n)" by fastforce
  obtain res db1 where 1: "consumeTokenBucketDirect rd key limit burst n ttl [tb_try now] db = (res, db1)" by fastforce
  obtain rest where 2: "tb_calls rd key limit burst ttl calls db1 = (rest, db')" "rs = res # rest"
    using Cons.prems(1) 1 by (auto simp: call split: prod.splits)
  have n: "0 < n" "n \<le> burst" using Cons.prems(3) by (simp_all add: call)
  then have "tb_consume rd key limit burst n ttl [tb_try now] db = (res, db1)"
    using 1 by (simp add: consumeTokenBucketDirect_def del: tb_consume.simps)
  from tb_call[OF Cons.prems(2) n _ _ this]
  obtain lst' where "tb_history rd limit burst ttl key db0 (h @ [(now, if res = Inr True then n else 0)]) lst' db1"
    by (auto simp: tb_try_def keeps_bucket_def)
  from Cons.IH[OF 2(1) this] Cons.prems(3) show ?case by (auto simp: call 2(2))
qed auto

text \<open>A first request on an empty key takes its tokens from nothing: with a burst of ten, the second
  request is denied.\<close>

lemma tb_fresh_bucket_is_empty:
  "fst (tb_calls map_redis ''k'' 10 10 300000000000
     [(1700000000000000000, 1), (1700000000000000000, 1)] rl_demo_store) = [Inr True, Inr False]"
  by code_simp

text \<open>The burst does not bound what is admitted at one instant: with ten requests per second and a
  burst of ten, a key that rested for six seconds admits fifty requests at once, because the refill is added
  to the stored tokens without the cap that the decision applies to it.\<close>

theorem RedisRateLimiterV3_exceeds_burst:
  "fst (tb_calls map_redis ''k'' 10 10 300000000000
     ((1700000000000000000, 10) # replicate 6 (1700000006000000000, 10)) rl_demo_store)
   = Inr True # replicate 5 (Inr True) @ [Inr False]"
  by code_simp

text \<open>Twelve requests in two seconds, of which the limit of ten per second and the burst of ten admit some.\<close>

definition tb_demo_calls :: "(time \<times> int) list" where
  "tb_demo_calls = [(1700000000000000000, 5), (1700000001000000000, 5), (1700000002000000000, 2)]"

definition tb_demo_run :: "(time \<times> int) list" where
  "tb_demo_run = map (\<lambda>((now, n), res). (now, if res = Inr True then n else 0))
     (zip tb_demo_calls (fst (tb_calls map_redis ''k'' 10 10 300000000000 tb_demo_calls rl_demo_store)))"


end
