(* ===== verification/Shardings.thy ===== *)
theory Shardings
  imports Prelude
begin

text \<open>
  \<open>algo/consistent_hash.go\<close>, the FNV-1a hash with its buckets, and \<open>efflux/sharding_worker_pool.go\<close>,
  the pool that sends the tasks with one identifier to one worker. A string is the list of its
  bytes. A worker is the function of its \<open>Process\<close>, with the state it changes.
\<close>

definition fnv_step :: "32 word \<Rightarrow> char \<Rightarrow> 32 word" where
  "fnv_step hash c = (xor hash (of_char c)) * 16777619"

definition Hash :: "string \<Rightarrow> 32 word" where
  "Hash key = foldl fnv_step 2166136261 key"

definition GetBucket :: "int \<Rightarrow> string \<Rightarrow> int option" where
  "GetBucket Buckets key =
     (if Buckets \<le> 0 then Some 0
      else if (word_of_int Buckets :: 32 word) = 0 then None
      else Some (uint (Hash key mod word_of_int Buckets)))"

record 'w sharding_pool =
  sp_Buckets :: int
  sp_workers :: "'w list"

definition NewShardingWorkerPool :: "'w list \<Rightarrow> 'w sharding_pool" where
  "NewShardingWorkerPool workers = \<lparr>sp_Buckets = int (length workers), sp_workers = workers\<rparr>"

definition sp_GetWorker :: "string \<Rightarrow> 'w sharding_pool \<Rightarrow> 'w option" where
  "sp_GetWorker taskID pool =
     (if taskID = [] then (case sp_workers pool of [] \<Rightarrow> None | w # _ \<Rightarrow> Some w)
      else do { index \<leftarrow> GetBucket (sp_Buckets pool) taskID;
                if index < int (length (sp_workers pool)) then Some (sp_workers pool ! nat index) else None })"

text \<open>\<open>Submit\<close> drops the error of the worker; that of the pool with results returns it.\<close>

definition sp_Submit ::
    "('t \<Rightarrow> string) \<Rightarrow> 't \<Rightarrow> ('t \<Rightarrow> 's \<Rightarrow> 'e option \<times> 's) sharding_pool \<Rightarrow> 's \<Rightarrow> ('e option \<times> 's) option" where
  "sp_Submit GetID task pool s =
     do { worker \<leftarrow> sp_GetWorker (GetID task) pool;
          let (_, s) = worker task s;
          Some (None, s) }"

definition NewShardingWorkerPoolWR :: "'w list \<Rightarrow> 'w sharding_pool" where
  "NewShardingWorkerPoolWR workers = \<lparr>sp_Buckets = int (length workers), sp_workers = workers\<rparr>"

definition spr_GetWorker :: "string \<Rightarrow> 'w sharding_pool \<Rightarrow> 'w option" where
  "spr_GetWorker taskID pool =
     (if taskID = [] then (case sp_workers pool of [] \<Rightarrow> None | w # _ \<Rightarrow> Some w)
      else do { index \<leftarrow> GetBucket (sp_Buckets pool) taskID;
                if index < int (length (sp_workers pool)) then Some (sp_workers pool ! nat index) else None })"

definition spr_Submit ::
    "('t \<Rightarrow> string) \<Rightarrow> 't \<Rightarrow> ('t \<Rightarrow> 's \<Rightarrow> ('e + 'r) \<times> 's) sharding_pool \<Rightarrow> 's \<Rightarrow> (('e + 'r) \<times> 's) option" where
  "spr_Submit GetID task pool s =
     do { worker \<leftarrow> spr_GetWorker (GetID task) pool;
          Some (worker task s) }"

section \<open>Laws\<close>

lemma GetBucket_range:
  assumes "0 < B" "B < 2 ^ 32"
  shows "GetBucket B key = Some (uint (Hash key) mod B)" "0 \<le> uint (Hash key) mod B" "uint (Hash key) mod B < B"
proof -
  have u: "uint (word_of_int B :: 32 word) = B" using assms by (simp add: uint_word_of_int)
  then have "(word_of_int B :: 32 word) \<noteq> 0" using assms(1) by (metis unsigned_0 less_irrefl)
  then show "GetBucket B key = Some (uint (Hash key) mod B)"
    using assms u by (simp add: GetBucket_def uint_mod)
  show "0 \<le> uint (Hash key) mod B" "uint (Hash key) mod B < B" using assms by simp_all
qed

lemma shard_index:
  assumes "0 < n" "n < 2 ^ 32" shows "nat (uint (Hash key) mod int n) < n"
  using assms by (simp add: nat_less_iff)

lemma GetWorker_some:
  assumes "workers \<noteq> []" "length workers < 2 ^ 32"
  shows "sp_GetWorker taskID (NewShardingWorkerPool workers) =
    Some (workers ! (if taskID = [] then 0 else nat (uint (Hash taskID) mod int (length workers))))"
  using assms GetBucket_range[of "int (length workers)" taskID]
  by (auto simp: sp_GetWorker_def NewShardingWorkerPool_def neq_Nil_conv)

lemma GetWorkerWR_some:
  assumes "workers \<noteq> []" "length workers < 2 ^ 32"
  shows "spr_GetWorker taskID (NewShardingWorkerPoolWR workers) =
    Some (workers ! (if taskID = [] then 0 else nat (uint (Hash taskID) mod int (length workers))))"
  using assms GetBucket_range[of "int (length workers)" taskID]
  by (auto simp: spr_GetWorker_def NewShardingWorkerPoolWR_def neq_Nil_conv)

lemma GetBucket_panics: "GetBucket (2 ^ 32) key = None"
  by (simp add: GetBucket_def word_of_int_2p)

section \<open>Tasks of one identifier stay together and in order\<close>

definition shard_of :: "nat \<Rightarrow> string \<Rightarrow> nat" where
  "shard_of n taskID = (if taskID = [] then 0 else nat (uint (Hash taskID) mod int n))"

text \<open>Workers that each own a part of the state.\<close>

definition own_worker ::
    "(nat \<Rightarrow> 't \<Rightarrow> 'a \<Rightarrow> ('e + 'r) \<times> 'a) \<Rightarrow> nat \<Rightarrow> 't \<Rightarrow> (nat \<Rightarrow> 'a) \<Rightarrow> ('e + 'r) \<times> (nat \<Rightarrow> 'a)" where
  "own_worker process k task s = (let (res, x) = process k task (s k) in (res, s(k := x)))"

lemma shard_of_less: "0 < n \<Longrightarrow> n < 2 ^ 32 \<Longrightarrow> shard_of n taskID < n"
  by (simp add: shard_of_def shard_index)

lemma spr_Submit_own:
  assumes "0 < n" "n < 2 ^ 32"
  shows "spr_Submit GetID task (NewShardingWorkerPoolWR (map (own_worker process) [0..<n])) s =
    Some (own_worker process (shard_of n (GetID task)) task s)"
proof -
  have "spr_GetWorker (GetID task) (NewShardingWorkerPoolWR (map (own_worker process) [0..<n])) =
      Some (own_worker process (shard_of n (GetID task)))"
    using assms GetWorkerWR_some[of "map (own_worker process) [0..<n]" "GetID task"] shard_of_less[OF assms, of "GetID task"]
    by (auto simp: shard_of_def split: if_splits)
  then show ?thesis by (simp add: spr_Submit_def)
qed

text \<open>C35: a sharded pool never fails to find a worker, and each worker gets the tasks whose identifiers
  hash to it, in the order in which they were submitted, whatever goes to the other workers between them.\<close>

theorem ShardingWorkerPool_partitions_in_order:
  assumes "0 < n" "n < 2 ^ 32"
  shows "\<exists>rs s'. run_steps (\<lambda>s task. spr_Submit GetID task
           (NewShardingWorkerPoolWR (map (own_worker process) [0..<n])) s) s0 tasks = Some (rs, s') \<and>
         (\<forall>k. s' k = fold (\<lambda>task x. snd (process k task x))
                        (filter (\<lambda>task. shard_of n (GetID task) = k) tasks) (s0 k))"
proof (induction tasks arbitrary: s0)
  case Nil
  then show ?case by simp
next
  case (Cons task tasks)
  define k0 where "k0 = shard_of n (GetID task)"
  obtain res x where step: "process k0 task (s0 k0) = (res, x)" by fastforce
  have first: "spr_Submit GetID task (NewShardingWorkerPoolWR (map (own_worker process) [0..<n])) s0 = Some (res, s0(k0 := x))"
    unfolding spr_Submit_own[OF assms] by (simp add: own_worker_def step flip: k0_def)
  obtain rs s' where "run_steps (\<lambda>s task. spr_Submit GetID task
        (NewShardingWorkerPoolWR (map (own_worker process) [0..<n])) s) (s0(k0 := x)) tasks = Some (rs, s')"
      "\<And>k. s' k = fold (\<lambda>task x. snd (process k task x))
        (filter (\<lambda>task. shard_of n (GetID task) = k) tasks) ((s0(k0 := x)) k)"
    using Cons by blast
  then show ?case using step by (auto simp: first k0_def[symmetric])
qed

lemma ShardingWorkerPool_partitions_in_order_witness:
  "\<exists>rs s'. run_steps (\<lambda>s task. spr_Submit fst task
       (NewShardingWorkerPoolWR (map (own_worker (\<lambda>k task x. (Inr () :: unit + unit, x @ [snd task]))) [0..<4])) s)
       (\<lambda>k. []) [(''a'', 1 :: nat), (''b'', 2), (''a'', 3)] = Some (rs, s') \<and>
     (\<forall>k. s' k = fold (\<lambda>task x. snd (Inr () :: unit + unit, x @ [snd task]))
                    (filter (\<lambda>task. shard_of 4 (fst task) = k) [(''a'', 1), (''b'', 2), (''a'', 3)]) [])"
  by (rule ShardingWorkerPool_partitions_in_order) simp_all

end
