(* ===== verification/RedisPipelines.thy ===== *)
theory RedisPipelines
  imports RedisLimiters Shardings
begin

text \<open>
  \<open>stability/redis_ratelimit_v2.go\<close>: the leaky bucket whose requests wait in the queues of sharded
  pipelines; a goroutine per shard collects a batch and sends its scripts together. A request is
  known by a number, and so is the channel its caller waits on, which holds one result. The system
  moves in steps: a caller submits, receives or gives up; a shard begins a batch, takes one more
  request, looks at the context of one request, has one script executed, gives one answer; \<open>Close\<close>. Which
  ready case a \<open>select\<close> takes, whose context has ended, and how the client's calls fail are given with
  each step.
\<close>

section \<open>Configuration\<close>

record redis_config_v2 = redis_config +
  rc_PipelineEnabled :: bool
  rc_PipelineMaxWait :: duration
  rc_PipelineMaxBatch :: int
  rc_PipelineShards :: int
  rc_PipelineQueueSize :: int

record redis_limiter_v2 = redis_limiter +
  v2_pipelineEnabled :: bool
  v2_pipelineMaxWait :: duration
  v2_pipelineMaxBatch :: int
  v2_pipelineShards :: int
  v2_pipelineQueueSize :: int
  v2_closed :: bool
  v2_pipelineBatches :: int
  v2_pipelineRequests :: int
  v2_queueFullDenies :: int

definition positive_or :: "int \<Rightarrow> int \<Rightarrow> int" where
  "positive_or x y = (if x \<le> 0 then y else x)"

definition NewRedisRateLimiterV2 :: "bool \<Rightarrow> redis_config_v2 \<Rightarrow> string + redis_limiter_v2" where
  "NewRedisRateLimiterV2 client config =
     (if \<not> client then Inl ''redis client is nil''
      else if rc_Limit config \<le> 0 then Inl ''limit must be greater than zero''
      else if rc_Burst config \<le> 0 then Inl ''burst must be greater than zero''
      else let prefx = (if rc_KeyPrefix config = [] then ''stability:ratelimit'' else rc_KeyPrefix config);
               name = (if rc_Name config = [] then ''global'' else rc_Name config);
               failureMode = (if rc_FailureMode config = [] then RedisRateLimiterFailClosed
                              else rc_FailureMode config);
               pipelineMaxBatch = positive_or (rc_PipelineMaxBatch config) 100
           in if failureMode \<noteq> RedisRateLimiterFailClosed \<and> failureMode \<noteq> RedisRateLimiterFailOpen
              then Inl (''unsupported failure mode: '' @ failureMode)
              else Inr \<lparr>rl_baseKey = prefx @ '':'' @ name, rl_limit = rc_Limit config,
                        rl_burst = rc_Burst config, rl_failureMode = failureMode,
                        rl_operationTimeout = positive_or (rc_OperationTimeout config) (200 * 1000000),
                        rl_stateTTL = positive_or (rc_StateTTL config) (300 * 1000000000),
                        rl_totalRequests = 0, rl_allowedRequests = 0,
                        v2_pipelineEnabled = rc_PipelineEnabled config,
                        v2_pipelineMaxWait = positive_or (rc_PipelineMaxWait config) (100 * 1000000),
                        v2_pipelineMaxBatch = pipelineMaxBatch,
                        v2_pipelineShards = positive_or (rc_PipelineShards config) 64,
                        v2_pipelineQueueSize =
                          positive_or (positive_or (rc_PipelineQueueSize config) (wrap64 (pipelineMaxBatch * 2))) 1,
                        v2_closed = False, v2_pipelineBatches = 0, v2_pipelineRequests = 0,
                        v2_queueFullDenies = 0\<rparr>)"

section \<open>Requests and pipelines\<close>

record pl_request =
  rq_id :: nat
  rq_shardKey :: string
  rq_redisKey :: string
  rq_n :: int

type_synonym pl_result = "rl_error + (bool \<times> duration)"

definition rq_GetID :: "pl_request \<Rightarrow> string" where
  "rq_GetID r =
     (if rq_shardKey r \<noteq> [] then rq_shardKey r
      else if rq_redisKey r \<noteq> [] then rq_redisKey r else ''default'')"

text \<open>Where the goroutine of a shard is: in its \<open>select\<close>; collecting a batch; in \<open>executePipeline\<close>,
  building the pipeline (with the requests to look at yet, and those whose scripts it holds), in \<open>Exec\<close>
  (with these, the scripts to come and the replies so far), or giving the answers that are left (and whether
  \<open>Exec\<close> failed); failing what is left after the pipeline was closed; or finished.\<close>

datatype pl_pc =
    Selecting
  | Collecting "pl_request list"
  | Building "pl_request list" "pl_request list" "pl_request list"
  | Running "pl_request list" "pl_request list" "pl_request list" "(pl_request \<times> go_value option) list"
  | Answering "pl_request list" bool "(pl_request \<times> pl_result) list"
  | FailingPending
  | Returned

record pl_shard =
  pp_queue :: "pl_request list"
  pp_stopped :: bool
  pp_pc :: pl_pc

type_synonym responses = "nat \<Rightarrow> pl_result option"

definition sendPipelineResult :: "pl_request \<Rightarrow> pl_result \<Rightarrow> responses \<Rightarrow> responses" where
  "sendPipelineResult req result resp =
     (if resp (rq_id req) = None then resp(rq_id req \<mapsto> result) else resp)"

definition send_all :: "(pl_request \<times> pl_result) list \<Rightarrow> responses \<Rightarrow> responses" where
  "send_all ps resp = fold (\<lambda>(req, result). sendPipelineResult req result) ps resp"

text \<open>The cases of the \<open>select\<close> in \<open>handle\<close>; \<open>None\<close> if the chosen case is not ready.\<close>

datatype handle_case = Enqueue | CtxDone | StopCh | Otherwise

definition pl_handle ::
    "handle_case \<Rightarrow> bool \<Rightarrow> int \<Rightarrow> pl_request \<Rightarrow> pl_shard \<Rightarrow> (rl_error option \<times> pl_shard) option" where
  "pl_handle choice ended pipelineQueueSize req p =
     (let room = int (length (pp_queue p)) < pipelineQueueSize
      in case choice of
           Enqueue \<Rightarrow> if room then Some (None, p\<lparr>pp_queue := pp_queue p @ [req]\<rparr>) else None
         | CtxDone \<Rightarrow> if ended then Some (Some ContextDone, p) else None
         | StopCh \<Rightarrow> if pp_stopped p then Some (Some PipelineClosed, p) else None
         | Otherwise \<Rightarrow> if \<not> room \<and> \<not> ended \<and> \<not> pp_stopped p then Some (Some PipelineQueueFull, p) else None)"

text \<open>The parts of \<open>executePipeline\<close>: the counters; a request of the batch, whose script is put into the
  pipeline unless its context has ended; a script, \<open>None\<close> if it ended in an error; what \<open>Exec\<close> comes to, which
  reports the first error of a command as its own error and without commands does nothing; an answer.\<close>

definition pl_count :: "pl_request list \<Rightarrow> redis_limiter_v2 \<Rightarrow> redis_limiter_v2" where
  "pl_count batch r = r\<lparr>v2_pipelineBatches := wrap64 (v2_pipelineBatches r + 1),
     v2_pipelineRequests := wrap64 (v2_pipelineRequests r + int (length batch))\<rparr>"

definition pl_build :: "bool \<Rightarrow> pl_request \<Rightarrow> pl_request list \<times> responses \<Rightarrow> pl_request list \<times> responses" where
  "pl_build ended req = (\<lambda>(cmds, resp).
     if ended then (cmds, sendPipelineResult req (Inl ContextDone) resp) else (cmds @ [req], resp))"

definition pl_eval :: "'db redis \<Rightarrow> redis_limiter_v2 \<Rightarrow> pl_request \<Rightarrow> 'db \<Rightarrow> go_value option \<times> 'db" where
  "pl_eval rd r req db =
     (case redisAllowScript rd (rq_redisKey req) (rl_burst r) (rl_leakDuration r) (rq_n req)
             (go_div (rl_stateTTL r) 1000000) db of
        None \<Rightarrow> (None, db)
      | Some (res, db) \<Rightarrow> (Some res, db))"

fun eval_batch ::
    "'db redis \<Rightarrow> redis_limiter_v2 \<Rightarrow> pl_request list \<Rightarrow> 'db \<Rightarrow> (pl_request \<times> go_value option) list \<times> 'db" where
  "eval_batch rd r [] db = ([], db)"
| "eval_batch rd r (req # reqs) db =
     (let (res, db) = pl_eval rd r req db; (rs, db) = eval_batch rd r reqs db in ((req, res) # rs, db))"

definition pl_outcome ::
    "rd_fault \<Rightarrow> pl_request list \<Rightarrow> pl_request list \<Rightarrow> (pl_request \<times> go_value option) list
       \<Rightarrow> bool \<times> (pl_request \<times> pl_result) list" where
  "pl_outcome fault batch cmds replies =
     (case (if cmds = [] then None
            else case fault of
                   Refused e \<Rightarrow> Some e
                 | Unanswered e \<Rightarrow> Some e
                 | Answered \<Rightarrow> if None \<in> set (map snd replies) then Some ''user_script'' else None) of
        Some e \<Rightarrow> (True, map (\<lambda>req. (req, Inl (RedisError e))) batch)
      | None \<Rightarrow> (False, map (\<lambda>(req, res). (req, parseAllowScriptResult (the res))) replies))"

definition pl_answer :: "bool \<Rightarrow> bool \<Rightarrow> pl_request \<times> pl_result \<Rightarrow> responses \<Rightarrow> responses" where
  "pl_answer ended failed = (\<lambda>(req, res).
     sendPipelineResult req (if failed \<and> ended then Inl ContextDone else res))"

text \<open>All of it without a pause; \<open>ended\<close> says whose context has ended when the pipeline is built, \<open>ended'\<close>
  when the answers are given.\<close>

definition pl_executePipeline ::
    "'db redis \<Rightarrow> rd_fault \<Rightarrow> (nat \<Rightarrow> bool) \<Rightarrow> (nat \<Rightarrow> bool) \<Rightarrow> pl_request list
       \<Rightarrow> redis_limiter_v2 \<times> responses \<times> 'db \<Rightarrow> redis_limiter_v2 \<times> responses \<times> 'db" where
  "pl_executePipeline rd fault ended ended' batch = (\<lambda>(r, resp, db).
     if batch = [] then (r, resp, db)
     else let r = pl_count batch r;
              (cmds, resp) = fold (\<lambda>req. pl_build (ended (rq_id req)) req) batch ([], resp);
              (replies, db') = eval_batch rd r cmds db;
              (failed, answers) = pl_outcome fault batch cmds replies;
              resp = fold (\<lambda>a. pl_answer (ended' (rq_id (fst a))) failed a) answers resp
          in (r, resp, (case fault of Refused _ \<Rightarrow> db | _ \<Rightarrow> db')))"

section \<open>The system\<close>

record 'db v2_system =
  vs_limiter :: redis_limiter_v2
  vs_shards :: "pl_shard list"
  vs_responses :: responses
  vs_results :: responses
  vs_calls :: "pl_request list"
  vs_accepted :: "pl_request list"
  vs_next :: nat
  vs_db :: 'db

definition NewSystemV2 :: "redis_limiter_v2 \<Rightarrow> 'db \<Rightarrow> 'db v2_system" where
  "NewSystemV2 r db =
     \<lparr>vs_limiter = r,
      vs_shards = (if v2_pipelineEnabled r
                   then replicate (nat (v2_pipelineShards r)) \<lparr>pp_queue = [], pp_stopped = False, pp_pc = Selecting\<rparr>
                   else []),
      vs_responses = Map.empty, vs_results = Map.empty, vs_calls = [], vs_accepted = [], vs_next = 0, vs_db = db\<rparr>"

text \<open>The beginning of \<open>allowWithDelayPipeline\<close>, with its checks, and its call of the worker pool. A
  request that is not accepted has its result at once. \<open>Close\<close> may come between the two.\<close>

definition v2_submit :: "string \<Rightarrow> int \<Rightarrow> 'db v2_system \<Rightarrow> 'db v2_system" where
  "v2_submit key n s =
     (let r = vs_limiter s; i = vs_next s; s = s\<lparr>vs_next := i + 1\<rparr>
      in if n > rl_burst r then s\<lparr>vs_results := (vs_results s)(i \<mapsto> Inr (False, 0))\<rparr>
         else if v2_closed r then s\<lparr>vs_results := (vs_results s)(i \<mapsto> Inl PipelineClosed)\<rparr>
         else s\<lparr>vs_calls := vs_calls s @
                  [\<lparr>rq_id = i, rq_shardKey = key, rq_redisKey = rl_redisKey key r, rq_n = n\<rparr>]\<rparr>)"

definition v2_enqueue :: "handle_case \<Rightarrow> bool \<Rightarrow> nat \<Rightarrow> 'db v2_system \<Rightarrow> 'db v2_system option" where
  "v2_enqueue choice ended i s =
     (case find (\<lambda>req. rq_id req = i) (vs_calls s) of
        None \<Rightarrow> None
      | Some req \<Rightarrow>
          do { k \<leftarrow> spr_GetWorker (rq_GetID req) (NewShardingWorkerPoolWR [0..<length (vs_shards s)]);
               (err, p) \<leftarrow> pl_handle choice ended (v2_pipelineQueueSize (vs_limiter s)) req (vs_shards s ! k);
               let s = s\<lparr>vs_calls := remove1 req (vs_calls s)\<rparr>;
               case err of
                 None \<Rightarrow> Some (s\<lparr>vs_shards := (vs_shards s)[k := p], vs_accepted := vs_accepted s @ [req]\<rparr>)
               | Some PipelineQueueFull \<Rightarrow>
                   Some (s\<lparr>vs_limiter := (vs_limiter s)\<lparr>v2_queueFullDenies := wrap64 (v2_queueFullDenies (vs_limiter s) + 1)\<rparr>,
                           vs_results := (vs_results s)(i \<mapsto> Inr (False, 0))\<rparr>)
               | Some e \<Rightarrow> Some (s\<lparr>vs_results := (vs_results s)(i \<mapsto> Inl e)\<rparr>) })"

text \<open>Its end: the caller takes the result, or its context ends first.\<close>

definition v2_await :: "bool \<Rightarrow> nat \<Rightarrow> 'db v2_system \<Rightarrow> 'db v2_system option" where
  "v2_await ended i s =
     (if i \<notin> rq_id ` set (vs_accepted s) \<or> vs_results s i \<noteq> None then None
      else if ended then Some (s\<lparr>vs_results := (vs_results s)(i \<mapsto> Inl ContextDone)\<rparr>)
      else case vs_responses s i of
             None \<Rightarrow> None
           | Some res \<Rightarrow> Some (s\<lparr>vs_results := (vs_results s)(i \<mapsto> res)\<rparr>))"

datatype start_case = OnStop | OnFirst | OnTick

definition v2_select :: "start_case \<Rightarrow> pl_shard \<Rightarrow> pl_shard option" where
  "v2_select choice p =
     (if pp_pc p \<noteq> Selecting then None
      else case choice of
             OnStop \<Rightarrow> if pp_stopped p then Some (p\<lparr>pp_pc := FailingPending\<rparr>) else None
           | OnFirst \<Rightarrow> (case pp_queue p of
                          [] \<Rightarrow> None
                        | req # queue \<Rightarrow> Some (p\<lparr>pp_queue := queue, pp_pc := Collecting [req]\<rparr>))
           | OnTick \<Rightarrow> Some (p\<lparr>pp_pc := Collecting []\<rparr>))"

text \<open>One turn of the loop of \<open>collectBatch\<close>; \<open>Inr\<close> is the finished batch.\<close>

definition v2_collect :: "int \<Rightarrow> pl_shard \<Rightarrow> (pl_shard + pl_request list) option" where
  "v2_collect pipelineMaxBatch p =
     (case pp_pc p of
        Collecting batch \<Rightarrow>
          (case pp_queue p of
             req # queue \<Rightarrow>
               if int (length batch) < pipelineMaxBatch
               then Some (Inl (p\<lparr>pp_queue := queue, pp_pc := Collecting (batch @ [req])\<rparr>))
               else Some (Inr batch)
           | [] \<Rightarrow> Some (Inr batch))
      | _ \<Rightarrow> None)"

definition v2_failPending :: "pl_shard \<Rightarrow> responses \<Rightarrow> (pl_shard \<times> responses) option" where
  "v2_failPending p resp =
     (case pp_pc p of
        FailingPending \<Rightarrow>
          (case pp_queue p of
             req # queue \<Rightarrow> Some (p\<lparr>pp_queue := queue\<rparr>, sendPipelineResult req (Inl PipelineClosed) resp)
           | [] \<Rightarrow> Some (p\<lparr>pp_pc := Returned\<rparr>, resp))
      | _ \<Rightarrow> None)"

text \<open>The steps of \<open>executePipeline\<close>. \<open>Exec\<close> may fail before anything is executed or with any part of it
  executed; it succeeds after all.\<close>

definition v2_build :: "bool \<Rightarrow> pl_shard \<Rightarrow> responses \<Rightarrow> (pl_shard \<times> responses) option" where
  "v2_build ended p resp =
     (case pp_pc p of
        Building batch (req # rest) cmds \<Rightarrow>
          (let (cmds, resp) = pl_build ended req (cmds, resp)
           in Some (p\<lparr>pp_pc := Building batch rest cmds\<rparr>, resp))
      | Building batch [] cmds \<Rightarrow> Some (p\<lparr>pp_pc := Running batch cmds cmds []\<rparr>, resp)
      | _ \<Rightarrow> None)"

definition v2_eval :: "'db redis \<Rightarrow> redis_limiter_v2 \<Rightarrow> pl_shard \<Rightarrow> 'db \<Rightarrow> (pl_shard \<times> 'db) option" where
  "v2_eval rd r p db =
     (case pp_pc p of
        Running batch cmds (req # rest) replies \<Rightarrow>
          (let (res, db) = pl_eval rd r req db
           in Some (p\<lparr>pp_pc := Running batch cmds rest (replies @ [(req, res)])\<rparr>, db))
      | _ \<Rightarrow> None)"

definition v2_exec :: "rd_fault \<Rightarrow> pl_shard \<Rightarrow> pl_shard option" where
  "v2_exec fault p =
     (case pp_pc p of
        Running batch cmds rest replies \<Rightarrow>
          if (case fault of Refused e \<Rightarrow> replies = [] | Unanswered e \<Rightarrow> True | Answered \<Rightarrow> rest = []) \<and>
             (cmds = [] \<longrightarrow> fault = Answered)
          then (let (failed, answers) = pl_outcome fault batch cmds replies
                in Some (p\<lparr>pp_pc := Answering batch failed answers\<rparr>))
          else None
      | _ \<Rightarrow> None)"

definition v2_answer :: "bool \<Rightarrow> pl_shard \<Rightarrow> responses \<Rightarrow> (pl_shard \<times> responses) option" where
  "v2_answer ended p resp =
     (case pp_pc p of
        Answering batch failed (a # as) \<Rightarrow>
          Some (p\<lparr>pp_pc := Answering batch failed as\<rparr>, pl_answer ended failed a resp)
      | Answering batch failed [] \<Rightarrow> Some (p\<lparr>pp_pc := Selecting\<rparr>, resp)
      | _ \<Rightarrow> None)"

text \<open>\<open>Close\<close> marks the limiter, then closes the channels one by one.\<close>

definition v2_Close :: "'db v2_system \<Rightarrow> 'db v2_system" where
  "v2_Close s = s\<lparr>vs_limiter := (vs_limiter s)\<lparr>v2_closed := True\<rparr>\<rparr>"

definition v2_stop :: "nat \<Rightarrow> 'db v2_system \<Rightarrow> 'db v2_system option" where
  "v2_stop k s =
     (if v2_closed (vs_limiter s) \<and> k < length (vs_shards s)
      then Some (s\<lparr>vs_shards := (vs_shards s)[k := (vs_shards s ! k)\<lparr>pp_stopped := True\<rparr>]\<rparr>)
      else None)"

datatype 'db v2_event =
    Submit string int
  | Handle handle_case bool nat
  | Await bool nat
  | Select nat start_case
  | Collect nat
  | Build nat bool
  | Eval nat
  | Exec nat rd_fault
  | Answer nat bool
  | FailNext nat
  | CloseAll
  | StopShard nat
  | Elsewhere "'db \<Rightarrow> 'db"

text \<open>A step of a shard on its own state and the responses.\<close>

definition v2_shard ::
    "nat \<Rightarrow> (pl_shard \<Rightarrow> (pl_shard \<times> responses) option) \<Rightarrow> 'db v2_system \<Rightarrow> 'db v2_system option" where
  "v2_shard k f s =
     (if k < length (vs_shards s)
      then map_option (\<lambda>(p, resp). s\<lparr>vs_shards := (vs_shards s)[k := p], vs_responses := resp\<rparr>) (f (vs_shards s ! k))
      else None)"

definition v2_step :: "'db redis \<Rightarrow> 'db v2_event \<Rightarrow> 'db v2_system \<Rightarrow> 'db v2_system option" where
  "v2_step rd ev s =
     (case ev of
        Submit key n \<Rightarrow> Some (v2_submit key n s)
      | Handle choice ended i \<Rightarrow> v2_enqueue choice ended i s
      | Await ended i \<Rightarrow> v2_await ended i s
      | Select k choice \<Rightarrow> v2_shard k (\<lambda>p. map_option (\<lambda>p. (p, vs_responses s)) (v2_select choice p)) s
      | Collect k \<Rightarrow>
          if k < length (vs_shards s)
          then do { res \<leftarrow> v2_collect (v2_pipelineMaxBatch (vs_limiter s)) (vs_shards s ! k);
                    case res of
                      Inl p \<Rightarrow> Some (s\<lparr>vs_shards := (vs_shards s)[k := p]\<rparr>)
                    | Inr batch \<Rightarrow>
                        if batch = []
                        then Some (s\<lparr>vs_shards := (vs_shards s)[k := (vs_shards s ! k)\<lparr>pp_pc := Selecting\<rparr>]\<rparr>)
                        else Some (s\<lparr>vs_limiter := pl_count batch (vs_limiter s),
                                     vs_shards := (vs_shards s)[k := (vs_shards s ! k)\<lparr>pp_pc := Building batch batch []\<rparr>]\<rparr>) }
          else None
      | Build k ended \<Rightarrow> v2_shard k (\<lambda>p. v2_build ended p (vs_responses s)) s
      | Eval k \<Rightarrow>
          if k < length (vs_shards s)
          then map_option (\<lambda>(p, db). s\<lparr>vs_shards := (vs_shards s)[k := p], vs_db := db\<rparr>)
                 (v2_eval rd (vs_limiter s) (vs_shards s ! k) (vs_db s))
          else None
      | Exec k fault \<Rightarrow> v2_shard k (\<lambda>p. map_option (\<lambda>p. (p, vs_responses s)) (v2_exec fault p)) s
      | Answer k ended \<Rightarrow> v2_shard k (\<lambda>p. v2_answer ended p (vs_responses s)) s
      | FailNext k \<Rightarrow> v2_shard k (\<lambda>p. v2_failPending p (vs_responses s)) s
      | CloseAll \<Rightarrow> Some (v2_Close s)
      | StopShard k \<Rightarrow> v2_stop k s
      | Elsewhere f \<Rightarrow> Some (s\<lparr>vs_db := f (vs_db s)\<rparr>))"

section \<open>Calls without a pipeline, and the counters\<close>

definition v2_allowWithDelayDirect ::
    "'db redis \<Rightarrow> rd_fault \<Rightarrow> string \<Rightarrow> int \<Rightarrow> redis_limiter_v2 \<Rightarrow> 'db \<Rightarrow> pl_result \<times> 'db" where
  "v2_allowWithDelayDirect rd fault redisKey n r db =
     (if n > rl_burst r then (Inr (False, 0), db)
      else let (res, db) = rl_Eval rd fault
                 (redisAllowScript rd redisKey (rl_burst r) (rl_leakDuration r) n (go_div (rl_stateTTL r) 1000000)) db
           in (case res of Inl err \<Rightarrow> (Inl err, db) | Inr res \<Rightarrow> (parseAllowScriptResult res, db)))"

text \<open>\<open>AllowN\<close> around a call of \<open>AllowWithDelayN\<close> that returned \<open>res\<close>.\<close>

definition v2_AllowN :: "int \<Rightarrow> pl_result \<Rightarrow> redis_limiter_v2 \<Rightarrow> bool \<times> redis_limiter_v2" where
  "v2_AllowN n res r =
     (if n \<le> 0 then (True, r)
      else let r = r\<lparr>rl_totalRequests := wrap64 (rl_totalRequests r + n)\<rparr>;
               admit = (case res of Inl err \<Rightarrow> rl_failureModeAllowsOnError r | Inr (allowed, _) \<Rightarrow> allowed)
           in (admit, if admit then r\<lparr>rl_allowedRequests := wrap64 (rl_allowedRequests r + n)\<rparr> else r))"

definition v2_Stats :: "redis_limiter_v2 \<Rightarrow> int list" where
  "v2_Stats r = [v2_pipelineBatches r, v2_pipelineRequests r, v2_queueFullDenies r, rl_allowedRequests r,
     rl_totalRequests r]"

section \<open>A batch is its calls one after another\<close>

lemma send_all_simps [simp]:
  "send_all [] resp = resp"
  "send_all ((req, res) # ps) resp = send_all ps (sendPipelineResult req res resp)"
  by (simp_all add: send_all_def)

lemma send_all_other: "i \<notin> rq_id ` fst ` set ps \<Longrightarrow> send_all ps resp i = resp i"
  by (induction ps arbitrary: resp) (auto simp: sendPipelineResult_def)

lemma send_all_keeps: "resp i = Some x \<Longrightarrow> send_all ps resp i = Some x"
proof (induction ps arbitrary: resp)
  case (Cons p ps)
  then have "sendPipelineResult (fst p) (snd p) resp i = Some x" by (auto simp: sendPipelineResult_def)
  then show ?case using Cons.IH by (cases p) simp
qed simp

lemma send_all_answers: "i \<in> rq_id ` fst ` set ps \<Longrightarrow> send_all ps resp i \<noteq> None"
proof (induction ps arbitrary: resp)
  case (Cons p ps)
  then show ?case
  proof (cases "i = rq_id (fst p)")
    case True
    then have "\<exists>x. sendPipelineResult (fst p) (snd p) resp i = Some x" by (auto simp: sendPipelineResult_def)
    then show ?thesis using send_all_keeps by (cases p) fastforce
  next
    case False
    then show ?thesis using Cons by (cases p) auto
  qed
qed simp

lemma send_all_result:
  "(req, res) \<in> set ps \<Longrightarrow> distinct (map (rq_id \<circ> fst) ps) \<Longrightarrow> resp (rq_id req) = None \<Longrightarrow>
   send_all ps resp (rq_id req) = Some res"
proof (induction ps arbitrary: resp)
  case (Cons p ps)
  show ?case
  proof (cases "p = (req, res)")
    case True
    then show ?thesis using Cons.prems by (simp add: sendPipelineResult_def send_all_keeps)
  next
    case False
    then have "rq_id (fst p) \<noteq> rq_id req" using Cons.prems by (force simp: image_iff)
    then show ?thesis using Cons False by (cases p) (auto simp: sendPipelineResult_def)
  qed
qed simp

lemma fold_build:
  "fold (\<lambda>req. pl_build (ended (rq_id req)) req) batch (cmds, resp) =
     (cmds @ filter (\<lambda>req. \<not> ended (rq_id req)) batch, send_all [(req, Inl ContextDone). req \<leftarrow> batch, ended (rq_id req)] resp)"
  by (induction batch arbitrary: cmds resp) (simp_all add: pl_build_def)

lemma fold_answer:
  "fold (\<lambda>a. pl_answer (ended (rq_id (fst a))) False a) answers resp = send_all answers resp"
  by (simp add: send_all_def pl_answer_def case_prod_unfold)

definition direct_step :: "'db redis \<Rightarrow> redis_limiter_v2 \<Rightarrow> 'db \<Rightarrow> pl_request \<Rightarrow> (pl_result \<times> 'db) option" where
  "direct_step rd r db req = Some (v2_allowWithDelayDirect rd Answered (rq_redisKey req) (rq_n req) r db)"

lemma direct_reply:
  assumes "v2_allowWithDelayDirect rd Answered key n r db = (Inr y, db')" "n \<le> rl_burst r"
  obtains reply where "redisAllowScript rd key (rl_burst r) (rl_leakDuration r) n
    (go_div (rl_stateTTL r) 1000000) db = Some (reply, db')" "parseAllowScriptResult reply = Inr y"
proof (cases "redisAllowScript rd key (rl_burst r) (rl_leakDuration r) n (go_div (rl_stateTTL r) 1000000) db")
  case None
  then show thesis using assms by (simp add: v2_allowWithDelayDirect_def rl_Eval_def)
next
  case (Some res)
  then show thesis using assms that by (cases res) (simp add: v2_allowWithDelayDirect_def rl_Eval_def)
qed

lemma eval_batch_direct:
  assumes "run_steps (direct_step rd r) db batch = Some (rs, db')" and "\<forall>x \<in> set rs. \<exists>y. x = Inr y"
    and "\<forall>req \<in> set batch. rq_n req \<le> rl_burst r"
  shows "\<exists>replies. eval_batch rd r batch db = (zip batch (map Some replies), db') \<and>
    length replies = length batch \<and> rs = map parseAllowScriptResult replies"
  using assms
proof (induction batch arbitrary: db rs)
  case Nil
  then show ?case by simp
next
  case (Cons req batch)
  obtain res where direct: "v2_allowWithDelayDirect rd Answered (rq_redisKey req) (rq_n req) r db = res"
      "rs = fst res # tl rs" "run_steps (direct_step rd r) (snd res) batch = Some (tl rs, db')"
    using Cons.prems(1) by (auto simp: direct_step_def[of rd r db req] split: bind_splits prod.splits)
  have "\<exists>y. fst res = Inr y" "\<forall>x \<in> set (tl rs). \<exists>y. x = Inr y"
    using Cons.prems(2) direct(2) by (metis list.set_intros)+
  then obtain y where y: "fst res = Inr y" by blast
  obtain reply where reply: "redisAllowScript rd (rq_redisKey req) (rl_burst r) (rl_leakDuration r) (rq_n req)
        (go_div (rl_stateTTL r) 1000000) db = Some (reply, snd res)" "fst res = parseAllowScriptResult reply"
    using direct_reply[of rd "rq_redisKey req" "rq_n req" r db y "snd res"] direct(1) y Cons.prems(3)
    by (metis list.set_intros(1) prod.collapse)
  obtain replies where "eval_batch rd r batch (snd res) = (zip batch (map Some replies), db')"
      "length replies = length batch" "tl rs = map parseAllowScriptResult replies"
    using Cons.IH[OF direct(3)] \<open>\<forall>x \<in> set (tl rs). \<exists>y. x = Inr y\<close> Cons.prems(3) by (meson list.set_intros(2))
  then have "eval_batch rd r (req # batch) db = (zip (req # batch) (map Some (reply # replies)), db')"
    "length (reply # replies) = length (req # batch)" "rs = map parseAllowScriptResult (reply # replies)"
    using reply direct(2) by (simp_all add: pl_eval_def)
  then show ?case by blast
qed

text \<open>C1: a batch whose callers still wait and whose commands are answered gives each request what a call
  of its own would have got, the calls being made in the order of the batch, and leaves Redis as those
  calls leave it.\<close>

theorem RedisPipeline_batch_is_sequential:
  assumes "run_steps (direct_step rd r) db batch = Some (rs, db')" and "\<forall>x \<in> set rs. \<exists>y. x = Inr y"
    and "\<forall>req \<in> set batch. rq_n req \<le> rl_burst r \<and> \<not> ended (rq_id req) \<and> resp (rq_id req) = None"
    and "distinct (map rq_id batch)"
  shows "\<exists>r' resp'. pl_executePipeline rd Answered ended ended' batch (r, resp, db) = (r', resp', db') \<and>
    (\<forall>i < length batch. resp' (rq_id (batch ! i)) = Some (rs ! i)) \<and>
    (\<forall>i. i \<notin> rq_id ` set batch \<longrightarrow> resp' i = resp i)"
proof (cases "batch = []")
  case True
  then show ?thesis using assms(1) by (simp add: pl_executePipeline_def)
next
  case False
  define r' where "r' = pl_count batch r"
  have same: "eval_batch rd r' reqs d = eval_batch rd r reqs d" for reqs d
    by (induction reqs arbitrary: d) (simp_all add: r'_def pl_count_def pl_eval_def rl_leakDuration_def)
  obtain replies where e: "eval_batch rd r batch db = (zip batch (map Some replies), db')"
      "length replies = length batch" "rs = map parseAllowScriptResult replies"
    using eval_batch_direct[OF assms(1,2)] assms(3) by blast
  have live: "filter (\<lambda>req. \<not> ended (rq_id req)) batch = batch" "[(req, Inl ContextDone). req \<leftarrow> batch, ended (rq_id req)] = []"
    using assms(3) by (auto simp: filter_id_conv)
  define ps where "ps = map (\<lambda>(req, res). (req, parseAllowScriptResult (the res))) (zip batch (map Some replies))"
  have ps: "ps = zip batch rs" unfolding ps_def e(3) using e(2) by (intro nth_equalityI) simp_all
  have fst_ps: "map fst ps = batch" using e(2,3) by (simp add: ps)
  have "None \<notin> set (map snd (zip batch (map Some replies)))" using e(2) by (auto dest: set_zip_rightD)
  then have exec: "pl_executePipeline rd Answered ended ended' batch (r, resp, db) = (r', send_all ps resp, db')"
    using False same by (simp add: pl_executePipeline_def fold_build fold_answer pl_outcome_def live e(1) flip: r'_def ps_def)
  have "send_all ps resp (rq_id (batch ! i)) = Some (rs ! i)" if "i < length batch" for i
  proof (rule send_all_result)
    show "(batch ! i, rs ! i) \<in> set ps" using that e(2,3) unfolding ps by (force simp: set_zip)
    show "distinct (map (rq_id \<circ> fst) ps)" using assms(4) fst_ps by (metis map_map)
  qed (use assms(3) that in simp)
  moreover have "send_all ps resp i = resp i" if "i \<notin> rq_id ` set batch" for i
    by (rule send_all_other) (use that fst_ps in \<open>metis set_map\<close>)
  ultimately show ?thesis using exec by blast
qed

section \<open>Where a request waits, and in which order answers are given\<close>

definition batch_of :: "pl_shard \<Rightarrow> pl_request list" where
  "batch_of p = (case pp_pc p of
     Collecting batch \<Rightarrow> batch | Building batch _ _ \<Rightarrow> batch | Running batch _ _ _ \<Rightarrow> batch
   | Answering batch _ _ \<Rightarrow> batch | _ \<Rightarrow> [])"

definition shard_requests :: "nat \<Rightarrow> nat \<Rightarrow> pl_request list \<Rightarrow> pl_request list" where
  "shard_requests n k = filter (\<lambda>req. shard_of n (rq_GetID req) = k)"

definition answered :: "responses \<Rightarrow> pl_request \<Rightarrow> bool" where
  "answered resp req \<longleftrightarrow> resp (rq_id req) \<noteq> None"

text \<open>An answer that does not only say that the context of the caller has ended.\<close>

definition served :: "responses \<Rightarrow> pl_request \<Rightarrow> bool" where
  "served resp req \<longleftrightarrow> (\<exists>res. resp (rq_id req) = Some res \<and> res \<noteq> Inl ContextDone)"

text \<open>Which requests of the batch in hand have answers.\<close>

definition pc_ok :: "responses \<Rightarrow> pl_pc \<Rightarrow> bool" where
  "pc_ok resp pc = (case pc of
     Collecting batch \<Rightarrow> \<forall>req \<in> set batch. \<not> answered resp req
   | Building batch rest cmds \<Rightarrow>
       \<exists>seen. batch = seen @ rest \<and> cmds = filter (\<lambda>req. \<not> answered resp req) seen \<and> (\<forall>req \<in> set rest. \<not> answered resp req)
   | Running batch cmds rest replies \<Rightarrow>
       cmds = filter (\<lambda>req. \<not> answered resp req) batch \<and> map fst replies @ rest = cmds
   | Answering batch failed as \<Rightarrow>
       \<exists>pre suf P. batch = pre @ suf \<and> (\<forall>req \<in> set pre. answered resp req) \<and>
         map fst as = filter P suf \<and> (\<forall>req \<in> set suf. \<not> P req \<longrightarrow> answered resp req)
   | _ \<Rightarrow> True)"

lemma pc_ok_Answering:
  "batch = pre @ suf \<Longrightarrow> \<forall>req \<in> set pre. answered resp req \<Longrightarrow> map fst as = filter P suf \<Longrightarrow>
   \<forall>req \<in> set suf. \<not> P req \<longrightarrow> answered resp req \<Longrightarrow> pc_ok resp (Answering batch failed as)"
  unfolding pc_ok_def by auto

text \<open>The requests \<open>accepted\<close> of a shard, in the order of their acceptance.\<close>

definition shard_ok :: "pl_request list \<Rightarrow> responses \<Rightarrow> pl_shard \<Rightarrow> bool" where
  "shard_ok accepted resp p \<longleftrightarrow>
     (\<exists>gone. accepted = gone @ batch_of p @ pp_queue p \<and>
        (\<forall>req \<in> set gone. answered resp req) \<and> (\<forall>req \<in> set (pp_queue p). \<not> answered resp req)) \<and>
     pc_ok resp (pp_pc p) \<and> sorted_wrt (\<lambda>x y. served resp y \<longrightarrow> answered resp x) accepted"

definition v2_inv :: "'db v2_system \<Rightarrow> bool" where
  "v2_inv s \<longleftrightarrow> vs_shards s \<noteq> [] \<and> length (vs_shards s) < 2 ^ 32 \<and>
     distinct (map rq_id (vs_calls s @ vs_accepted s)) \<and>
     (\<forall>req \<in> set (vs_calls s @ vs_accepted s). rq_id req < vs_next s) \<and>
     dom (vs_responses s) \<subseteq> rq_id ` set (vs_accepted s) \<and>
     (\<forall>k < length (vs_shards s).
        shard_ok (shard_requests (length (vs_shards s)) k (vs_accepted s)) (vs_responses s) (vs_shards s ! k))"

lemma shard_requests_snoc:
  "shard_requests n k (xs @ [req]) = shard_requests n k xs @ (if shard_of n (rq_GetID req) = k then [req] else [])"
  by (simp add: shard_requests_def)

lemma rq_id_inject: "distinct (map rq_id xs) \<Longrightarrow> x \<in> set xs \<Longrightarrow> y \<in> set xs \<Longrightarrow> rq_id x = rq_id y \<Longrightarrow> x = y"
  by (metis distinct_map inj_on_def)

lemma in_shard_requests: "req \<in> set (shard_requests n k xs) \<longleftrightarrow> req \<in> set xs \<and> shard_of n (rq_GetID req) = k"
  by (auto simp: shard_requests_def)

lemma shard_ok_cong:
  assumes ok: "shard_ok accepted resp p" and same: "\<forall>req \<in> set accepted. resp' (rq_id req) = resp (rq_id req)"
  shows "shard_ok accepted resp' p"
proof -
  have a: "answered resp' req = answered resp req" "served resp' req = served resp req" if "req \<in> set accepted" for req
    using same that by (simp_all add: answered_def served_def)
  obtain gone where g: "accepted = gone @ batch_of p @ pp_queue p"
      "\<forall>req \<in> set gone. answered resp req" "\<forall>req \<in> set (pp_queue p). \<not> answered resp req"
    using ok by (auto simp: shard_ok_def)
  have "set (batch_of p) \<subseteq> set accepted" by (auto simp: g(1))
  then have b: "answered resp' req = answered resp req" if "req \<in> set (batch_of p)" for req using a that by blast
  have pc: "pc_ok resp (pp_pc p)" using ok by (simp add: shard_ok_def)
  have "pc_ok resp' (pp_pc p)"
  proof (cases "pp_pc p")
    case (Collecting batch)
    then show ?thesis using pc b by (simp add: pc_ok_def batch_of_def)
  next
    case (Building batch rest cmds)
    then obtain seen where s: "batch = seen @ rest" "cmds = filter (\<lambda>req. \<not> answered resp req) seen"
        "\<forall>req \<in> set rest. \<not> answered resp req"
      using pc by (auto simp: pc_ok_def)
    have "cmds = filter (\<lambda>req. \<not> answered resp' req) seen"
      unfolding s(2) using b Building s(1) by (intro filter_cong) (simp_all add: batch_of_def)
    then show ?thesis using s b Building by (auto simp: pc_ok_def batch_of_def)
  next
    case (Running batch cmds rest replies)
    have "filter (\<lambda>req. \<not> answered resp' req) batch = filter (\<lambda>req. \<not> answered resp req) batch"
      using b Running by (intro filter_cong) (simp_all add: batch_of_def)
    then show ?thesis using pc Running by (simp add: pc_ok_def)
  next
    case (Answering batch failed as)
    then obtain pre suf P where s: "batch = pre @ suf" "\<forall>req \<in> set pre. answered resp req"
        "map fst as = filter P suf" "\<forall>req \<in> set suf. \<not> P req \<longrightarrow> answered resp req"
      using pc by (auto simp: pc_ok_def)
    have "\<forall>req \<in> set pre. answered resp' req" "\<forall>req \<in> set suf. \<not> P req \<longrightarrow> answered resp' req"
      using s b Answering by (auto simp: batch_of_def)
    then show ?thesis using s Answering unfolding pc_ok_def by auto
  qed (simp_all add: pc_ok_def)
  moreover have "sorted_wrt (\<lambda>x y. served resp' y \<longrightarrow> answered resp' x) accepted"
    using ok a unfolding shard_ok_def by (auto elim!: sorted_wrt_mono_rel[rotated])
  moreover have "(\<forall>req \<in> set gone. answered resp' req) \<and> (\<forall>req \<in> set (pp_queue p). \<not> answered resp' req)"
    using g a by auto
  ultimately show ?thesis using g(1) unfolding shard_ok_def by blast
qed

text \<open>A step of one shard, which gives answers to requests of its own only.\<close>

lemma v2_inv_advance:
  assumes inv: "v2_inv s" and k: "k < length (vs_shards s)"
    and ok: "shard_ok (shard_requests (length (vs_shards s)) k (vs_accepted s)) resp' p'"
    and keep: "\<forall>i. i \<notin> rq_id ` set (shard_requests (length (vs_shards s)) k (vs_accepted s)) \<longrightarrow> resp' i = vs_responses s i"
    and t: "vs_shards t = (vs_shards s)[k := p']" "vs_responses t = resp'" "vs_calls t = vs_calls s"
      "vs_accepted t = vs_accepted s" "vs_next t = vs_next s"
  shows "v2_inv t"
proof -
  define n where "n = length (vs_shards s)"
  have ids: "distinct (map rq_id (vs_accepted s))" using inv by (simp add: v2_inv_def)
  have "shard_ok (shard_requests n j (vs_accepted s)) resp' ((vs_shards s)[k := p'] ! j)" if j: "j < n" for j
  proof (cases "j = k")
    case True
    then show ?thesis using k ok by (simp add: n_def)
  next
    case False
    have "rq_id x \<noteq> rq_id y" if "x \<in> set (shard_requests n j (vs_accepted s))" "y \<in> set (shard_requests n k (vs_accepted s))" for x y
    proof -
      have m: "x \<in> set (vs_accepted s)" "y \<in> set (vs_accepted s)" and "x \<noteq> y"
        using that False by (auto simp: in_shard_requests)
      then show ?thesis using rq_id_inject[OF ids m] by blast
    qed
    then have "\<forall>req \<in> set (shard_requests n j (vs_accepted s)). resp' (rq_id req) = vs_responses s (rq_id req)"
      using keep by (metis image_iff n_def)
    moreover have "shard_ok (shard_requests n j (vs_accepted s)) (vs_responses s) (vs_shards s ! j)"
      using inv j by (simp add: v2_inv_def n_def)
    ultimately show ?thesis using False shard_ok_cong by simp
  qed
  moreover have "dom resp' \<subseteq> rq_id ` set (vs_accepted s)"
  proof
    fix i assume "i \<in> dom resp'"
    then have "i \<in> rq_id ` set (shard_requests n k (vs_accepted s)) \<or> i \<in> dom (vs_responses s)"
      using keep by (auto simp: domIff n_def)
    then show "i \<in> rq_id ` set (vs_accepted s)" using inv by (auto simp: v2_inv_def in_shard_requests)
  qed
  ultimately show ?thesis using inv by (simp add: v2_inv_def t n_def)
qed

text \<open>An answer to one request: what it does to the order of answers.\<close>

lemma sendPipelineResult_simps:
  assumes "distinct (map rq_id accepted)" "req \<in> set accepted" "x \<in> set accepted"
  shows "answered (sendPipelineResult req res resp) x \<longleftrightarrow> x = req \<or> answered resp x"
    "served (sendPipelineResult req res resp) x \<longleftrightarrow>
       served resp x \<or> x = req \<and> \<not> answered resp req \<and> res \<noteq> Inl ContextDone"
proof -
  have "rq_id x = rq_id req \<longleftrightarrow> x = req" using rq_id_inject[OF assms(1,3,2)] by blast
  then show "answered (sendPipelineResult req res resp) x \<longleftrightarrow> x = req \<or> answered resp x"
    "served (sendPipelineResult req res resp) x \<longleftrightarrow> served resp x \<or> x = req \<and> \<not> answered resp req \<and> res \<noteq> Inl ContextDone"
    by (auto simp: answered_def served_def sendPipelineResult_def)
qed

lemma sorted_wrt_answer:
  assumes ids: "distinct (map rq_id accepted)" and acc: "accepted = before @ req # after"
    and sorted: "sorted_wrt (\<lambda>x y. served resp y \<longrightarrow> answered resp x) accepted"
    and turn: "res \<noteq> Inl ContextDone \<Longrightarrow> \<forall>x \<in> set before. answered resp x"
  shows "sorted_wrt (\<lambda>x y. served (sendPipelineResult req res resp) y \<longrightarrow> answered (sendPipelineResult req res resp) x) accepted"
proof -
  have req: "req \<in> set accepted" by (simp add: acc)
  note s = sendPipelineResult_simps[OF ids req]
  have d: "distinct accepted" using ids by (metis distinct_map)
  have "answered (sendPipelineResult req res resp) (accepted ! i)"
    if ij: "i < j" "j < length accepted" "served (sendPipelineResult req res resp) (accepted ! j)" for i j
  proof (cases "served resp (accepted ! j)")
    case True
    then have "answered resp (accepted ! i)" using sorted ij by (simp add: sorted_wrt_iff_nth_less)
    then show ?thesis using s(1)[of "accepted ! i"] ij by simp
  next
    case False
    then have j: "accepted ! j = req" "res \<noteq> Inl ContextDone" using s(2)[of "accepted ! j"] ij by simp_all
    have "accepted ! length before = req" "length before < length accepted" by (simp_all add: acc)
    then have "j = length before" using d j(1) ij(2) by (metis nth_eq_iff_index_eq)
    then have "accepted ! i \<in> set before" using ij(1) by (simp add: acc nth_append)
    then show ?thesis using turn[OF j(2)] s(1)[of "accepted ! i"] ij by simp
  qed
  then show ?thesis by (simp add: sorted_wrt_iff_nth_less)
qed

lemma sendPipelineResult_keeps:
  "req \<in> set accepted \<Longrightarrow> \<forall>i. i \<notin> rq_id ` set accepted \<longrightarrow> sendPipelineResult req res resp i = resp i"
  by (auto simp: sendPipelineResult_def)

text \<open>The steps of \<open>executePipeline\<close>.\<close>

lemma shard_ok_build:
  assumes ids: "distinct (map rq_id accepted)" and ok: "shard_ok accepted resp p" and run: "v2_build ended p resp = Some (p', resp')"
  shows "shard_ok accepted resp' p' \<and> (\<forall>i. i \<notin> rq_id ` set accepted \<longrightarrow> resp' i = resp i)"
proof -
  obtain batch rest cmds where pc: "pp_pc p = Building batch rest cmds"
    using run by (auto simp: v2_build_def split: pl_pc.splits)
  obtain gone where g: "accepted = gone @ batch @ pp_queue p"
      "\<forall>req \<in> set gone. answered resp req" "\<forall>req \<in> set (pp_queue p). \<not> answered resp req"
    using ok by (auto simp: shard_ok_def pc batch_of_def)
  obtain seen where s: "batch = seen @ rest" "cmds = filter (\<lambda>req. \<not> answered resp req) seen"
      "\<forall>req \<in> set rest. \<not> answered resp req"
    using ok by (auto simp: shard_ok_def pc pc_ok_def)
  have sorted: "sorted_wrt (\<lambda>x y. served resp y \<longrightarrow> answered resp x) accepted" using ok by (simp add: shard_ok_def)
  show ?thesis
  proof (cases rest)
    case Nil
    then have "p' = p\<lparr>pp_pc := Running batch cmds cmds []\<rparr>" "resp' = resp" using run by (simp_all add: v2_build_def pc)
    then show ?thesis using g s sorted Nil by (auto simp: shard_ok_def batch_of_def pc_ok_def)
  next
    case (Cons req rest')
    have req: "req \<in> set accepted" by (simp add: g s Cons)
    note a = sendPipelineResult_simps[OF ids req]
    have d: "distinct accepted" using ids by (metis distinct_map)
    show ?thesis
    proof (cases ended)
      case False
      then have r: "p' = p\<lparr>pp_pc := Building batch rest' (cmds @ [req])\<rparr>" "resp' = resp"
        using run by (simp_all add: v2_build_def pc Cons pl_build_def)
      have "pc_ok resp (Building batch rest' (cmds @ [req]))"
        using s by (auto simp: pc_ok_def Cons intro!: exI[of _ "seen @ [req]"])
      then show ?thesis using g sorted by (auto simp: shard_ok_def batch_of_def r)
    next
      case True
      then have r: "p' = p\<lparr>pp_pc := Building batch rest' cmds\<rparr>" "resp' = sendPipelineResult req (Inl ContextDone) resp"
        using run by (simp_all add: v2_build_def pc Cons pl_build_def)
      have acc: "accepted = (gone @ seen) @ req # (rest' @ pp_queue p)" by (simp add: g s Cons)
      have new: "answered resp' x \<longleftrightarrow> x = req \<or> answered resp x" if "x \<in> set accepted" for x
        using a(1)[OF that] by (simp add: r)
      have n: "req \<notin> set seen" "req \<notin> set rest'" "req \<notin> set (pp_queue p)" using d by (auto simp: acc)
      have "filter (\<lambda>x. \<not> answered resp' x) seen = filter (\<lambda>x. \<not> answered resp x) seen"
        using new n by (intro filter_cong refl) (auto simp: acc)
      then have "cmds = filter (\<lambda>x. \<not> answered resp' x) (seen @ [req])" using new[OF req] s(2) by simp
      moreover have "\<forall>x \<in> set rest'. \<not> answered resp' x" using new n s(3) by (auto simp: acc Cons)
      ultimately have "pc_ok resp' (Building batch rest' cmds)"
        using s(1) Cons unfolding pc_ok_def by (auto intro!: exI[of _ "seen @ [req]"])
      moreover have "sorted_wrt (\<lambda>x y. served resp' y \<longrightarrow> answered resp' x) accepted"
        unfolding r(2) by (rule sorted_wrt_answer[OF ids acc sorted]) simp
      moreover have "\<forall>x \<in> set gone. answered resp' x" "\<forall>x \<in> set (pp_queue p). \<not> answered resp' x"
        using new g n by (auto simp: acc)
      ultimately have "shard_ok accepted resp' p'" using g(1) by (simp add: shard_ok_def batch_of_def r(1))
      then show ?thesis using sendPipelineResult_keeps[OF req] by (simp add: r(2))
    qed
  qed
qed

lemma shard_ok_eval:
  "shard_ok accepted resp p \<Longrightarrow> v2_eval rd r p db = Some (p', db') \<Longrightarrow> shard_ok accepted resp p'"
  by (auto simp: v2_eval_def shard_ok_def batch_of_def pc_ok_def split: pl_pc.splits list.splits prod.splits)

lemma shard_ok_exec:
  assumes ok: "shard_ok accepted resp p" and run: "v2_exec fault p = Some p'"
  shows "shard_ok accepted resp p'"
proof -
  obtain batch cmds rest replies where pc: "pp_pc p = Running batch cmds rest replies"
    using run by (auto simp: v2_exec_def split: pl_pc.splits)
  obtain failed as where out: "pl_outcome fault batch cmds replies = (failed, as)" by fastforce
  have p': "p' = p\<lparr>pp_pc := Answering batch failed as\<rparr>" and ready: "fault = Answered \<Longrightarrow> rest = []" "cmds = [] \<Longrightarrow> fault = Answered"
    using run by (auto simp: v2_exec_def pc out split: if_splits)
  have c: "cmds = filter (\<lambda>req. \<not> answered resp req) batch" "map fst replies @ rest = cmds"
    using ok by (simp_all add: shard_ok_def pc pc_ok_def)
  have "map fst as = batch \<or> map fst as = filter (\<lambda>req. \<not> answered resp req) batch"
    using out c ready by (auto simp: pl_outcome_def comp_def case_prod_unfold split: if_splits rd_fault.splits)
  then have "pc_ok resp (Answering batch failed as)"
  proof
    assume "map fst as = batch"
    then show ?thesis by (intro pc_ok_Answering[of batch "[]" batch _ _ "\<lambda>_. True"]) simp_all
  next
    assume "map fst as = filter (\<lambda>req. \<not> answered resp req) batch"
    then show ?thesis by (intro pc_ok_Answering[of batch "[]" batch _ _ "\<lambda>req. \<not> answered resp req"]) simp_all
  qed
  then show ?thesis using ok by (auto simp: shard_ok_def batch_of_def pc p')
qed

lemma shard_ok_answer:
  assumes ids: "distinct (map rq_id accepted)" and ok: "shard_ok accepted resp p" and run: "v2_answer ended p resp = Some (p', resp')"
  shows "shard_ok accepted resp' p' \<and> (\<forall>i. i \<notin> rq_id ` set accepted \<longrightarrow> resp' i = resp i)"
proof -
  obtain batch failed as where pc: "pp_pc p = Answering batch failed as"
    using run by (auto simp: v2_answer_def split: pl_pc.splits)
  obtain gone where g: "accepted = gone @ batch @ pp_queue p"
      "\<forall>req \<in> set gone. answered resp req" "\<forall>req \<in> set (pp_queue p). \<not> answered resp req"
    using ok by (auto simp: shard_ok_def pc batch_of_def)
  obtain pre suf P where s: "batch = pre @ suf" "\<forall>req \<in> set pre. answered resp req"
      "map fst as = filter P suf" "\<forall>req \<in> set suf. \<not> P req \<longrightarrow> answered resp req"
    using ok by (auto simp: shard_ok_def pc pc_ok_def)
  have sorted: "sorted_wrt (\<lambda>x y. served resp y \<longrightarrow> answered resp x) accepted" using ok by (simp add: shard_ok_def)
  show ?thesis
  proof (cases as)
    case Nil
    then have r: "p' = p\<lparr>pp_pc := Selecting\<rparr>" "resp' = resp" using run by (simp_all add: v2_answer_def pc)
    have "filter P suf = []" using s(3) Nil by simp
    then have "\<forall>req \<in> set suf. answered resp req" using s(4) by (auto simp: filter_empty_conv)
    then have "\<forall>req \<in> set (gone @ batch). answered resp req" using g(2) s(1,2) by auto
    then show ?thesis using g(1,3) sorted by (auto simp: shard_ok_def batch_of_def pc_ok_def r)
  next
    case (Cons a as')
    obtain req res where a: "a = (req, res)" by fastforce
    define res' where "res' = (if failed \<and> ended then Inl ContextDone else res)"
    have r: "p' = p\<lparr>pp_pc := Answering batch failed as'\<rparr>" "resp' = sendPipelineResult req res' resp"
      using run by (simp_all add: v2_answer_def pc Cons a pl_answer_def res'_def)
    obtain us vs where u: "suf = us @ req # vs" "\<forall>x \<in> set us. \<not> P x" "map fst as' = filter P vs"
      using s(3) by (auto simp: Cons a Cons_eq_filter_iff)
    have acc: "accepted = (gone @ pre @ us) @ req # (vs @ pp_queue p)" by (simp add: g s u)
    have before: "\<forall>x \<in> set (gone @ pre @ us). answered resp x" using g(2) s u by auto
    have req: "req \<in> set accepted" by (simp add: acc)
    have new: "answered resp' x \<longleftrightarrow> x = req \<or> answered resp x" if "x \<in> set accepted" for x
      using sendPipelineResult_simps(1)[OF ids req that] by (simp add: r)
    have d: "distinct accepted" using ids by (metis distinct_map)
    have "pc_ok resp' (Answering batch failed as')"
    proof (rule pc_ok_Answering)
      show "batch = (pre @ us @ [req]) @ vs" by (simp add: s(1) u(1))
      show "\<forall>x \<in> set (pre @ us @ [req]). answered resp' x" using before new by (auto simp: acc)
      show "\<forall>x \<in> set vs. \<not> P x \<longrightarrow> answered resp' x" using s(4) new by (auto simp: u(1) acc)
    qed (rule u(3))
    moreover have "sorted_wrt (\<lambda>x y. served resp' y \<longrightarrow> answered resp' x) accepted"
      unfolding r(2) by (rule sorted_wrt_answer[OF ids acc sorted]) (rule before)
    moreover have "\<forall>x \<in> set gone. answered resp' x" "\<forall>x \<in> set (pp_queue p). \<not> answered resp' x"
      using new g d by (auto simp: acc)
    ultimately have "shard_ok accepted resp' p'" using g(1) by (simp add: shard_ok_def batch_of_def r(1))
    then show ?thesis using sendPipelineResult_keeps[OF req] by (simp add: r(2))
  qed
qed

lemma shard_ok_failPending:
  assumes ids: "distinct (map rq_id accepted)" and ok: "shard_ok accepted resp p" and run: "v2_failPending p resp = Some (p', resp')"
  shows "shard_ok accepted resp' p' \<and> (\<forall>i. i \<notin> rq_id ` set accepted \<longrightarrow> resp' i = resp i)"
proof -
  have pc: "pp_pc p = FailingPending" using run by (auto simp: v2_failPending_def split: pl_pc.splits)
  obtain gone where g: "accepted = gone @ pp_queue p"
      "\<forall>req \<in> set gone. answered resp req" "\<forall>req \<in> set (pp_queue p). \<not> answered resp req"
    using ok by (auto simp: shard_ok_def pc batch_of_def)
  have sorted: "sorted_wrt (\<lambda>x y. served resp y \<longrightarrow> answered resp x) accepted" using ok by (simp add: shard_ok_def)
  show ?thesis
  proof (cases "pp_queue p")
    case Nil
    then have r: "p' = p\<lparr>pp_pc := Returned\<rparr>" "resp' = resp" using run by (simp_all add: v2_failPending_def pc)
    then show ?thesis using g sorted by (auto simp: shard_ok_def batch_of_def pc_ok_def)
  next
    case (Cons req queue)
    have r: "p' = p\<lparr>pp_queue := queue\<rparr>" "resp' = sendPipelineResult req (Inl PipelineClosed) resp"
      using run by (simp_all add: v2_failPending_def pc Cons)
    have acc: "accepted = gone @ req # queue" by (simp add: g Cons)
    have req: "req \<in> set accepted" by (simp add: acc)
    have new: "answered resp' x \<longleftrightarrow> x = req \<or> answered resp x" if "x \<in> set accepted" for x
      using sendPipelineResult_simps(1)[OF ids req that] by (simp add: r)
    have d: "distinct accepted" using ids by (metis distinct_map)
    have "sorted_wrt (\<lambda>x y. served resp' y \<longrightarrow> answered resp' x) accepted"
      unfolding r(2) by (rule sorted_wrt_answer[OF ids acc sorted]) (rule g(2))
    moreover have "(\<forall>x \<in> set (gone @ [req]). answered resp' x) \<and> (\<forall>x \<in> set queue. \<not> answered resp' x)"
      using new g d by (auto simp: acc Cons)
    ultimately have "shard_ok accepted resp' p'" using acc
      by (auto simp: shard_ok_def batch_of_def pc_ok_def r(1) pc intro!: exI[of _ "gone @ [req]"])
    then show ?thesis using sendPipelineResult_keeps[OF req] by (simp add: r(2))
  qed
qed

lemma shard_ok_select:
  "shard_ok accepted resp p \<Longrightarrow> v2_select choice p = Some p' \<Longrightarrow> shard_ok accepted resp p'"
  by (auto simp: v2_select_def shard_ok_def batch_of_def pc_ok_def split: if_splits start_case.splits list.splits)

lemma shard_ok_collect:
  "shard_ok accepted resp p \<Longrightarrow> v2_collect m p = Some (Inl p') \<Longrightarrow> shard_ok accepted resp p'"
  "shard_ok accepted resp p \<Longrightarrow> v2_collect m p = Some (Inr []) \<Longrightarrow> shard_ok accepted resp (p\<lparr>pp_pc := Selecting\<rparr>)"
  "shard_ok accepted resp p \<Longrightarrow> v2_collect m p = Some (Inr batch) \<Longrightarrow> shard_ok accepted resp (p\<lparr>pp_pc := Building batch batch []\<rparr>)"
  by (auto simp: v2_collect_def shard_ok_def batch_of_def pc_ok_def split: if_splits pl_pc.splits list.splits)

lemma handle_calls:
  assumes "find (\<lambda>req. rq_id req = i) calls = Some req"
  shows "req \<in> set calls" "rq_id req = i" "set (remove1 req calls) \<subseteq> set calls"
  using assms set_remove1_subset[of req calls] by (auto simp: find_Some_iff)

lemma distinct_handled:
  assumes "distinct (map rq_id (calls @ accepted))" "req \<in> set calls"
  shows "distinct (map rq_id (remove1 req calls @ accepted))"
    "distinct (map rq_id (remove1 req calls @ accepted @ [req]))"
proof -
  obtain xs ys where c: "calls = xs @ req # ys" "req \<notin> set xs" using assms(2) by (meson split_list_first)
  then have "remove1 req calls = xs @ ys" by (simp add: remove1_append)
  then show "distinct (map rq_id (remove1 req calls @ accepted))"
    "distinct (map rq_id (remove1 req calls @ accepted @ [req]))" using assms(1) c(1) by auto
qed

lemma v2_inv_enqueue:
  assumes inv: "v2_inv s" and step: "v2_enqueue choice ended i s = Some t" shows "v2_inv t"
proof -
  define n where "n = length (vs_shards s)"
  have n: "0 < n" "n < 2 ^ 32" using inv by (simp_all add: v2_inv_def n_def)
  obtain req where req: "find (\<lambda>req. rq_id req = i) (vs_calls s) = Some req"
    using step by (auto simp: v2_enqueue_def split: option.splits)
  note r = handle_calls[OF req]
  define k where "k = shard_of n (rq_GetID req)"
  have k: "k < n" using shard_of_less[OF n] by (simp add: k_def)
  have get: "spr_GetWorker (rq_GetID req) (NewShardingWorkerPoolWR [0..<length (vs_shards s)]) = Some k"
    using GetWorkerWR_some[of "[0..<n]" "rq_GetID req"] n k
    by (auto simp: n_def k_def shard_of_def nat_less_iff)
  obtain err p where h: "pl_handle choice ended (v2_pipelineQueueSize (vs_limiter s)) req (vs_shards s ! k) = Some (err, p)"
    using step by (auto simp: v2_enqueue_def req get split: bind_splits)
  have ids: "distinct (map rq_id (remove1 req (vs_calls s) @ vs_accepted s))"
    "distinct (map rq_id (remove1 req (vs_calls s) @ vs_accepted s @ [req]))"
    using distinct_handled[of "vs_calls s" "vs_accepted s", OF _ r(1)] inv unfolding v2_inv_def by blast+
  have fresh: "vs_responses s (rq_id req) = None"
    using inv r(1) by (fastforce simp: v2_inv_def)
  show ?thesis
  proof (cases err)
    case (Some e)
    have t: "vs_shards t = vs_shards s" "vs_responses t = vs_responses s" "vs_calls t = remove1 req (vs_calls s)"
      "vs_accepted t = vs_accepted s" "vs_next t = vs_next s"
      using step Some by (auto simp: v2_enqueue_def req get h Let_def split: rl_error.splits)
    show ?thesis using inv ids(1) r(3) by (auto simp: v2_inv_def t)
  next
    case None
    then have p: "p = (vs_shards s ! k)\<lparr>pp_queue := pp_queue (vs_shards s ! k) @ [req]\<rparr>"
      using h by (auto simp: pl_handle_def Let_def split: handle_case.splits if_splits)
    have t: "vs_shards t = (vs_shards s)[k := p]" "vs_responses t = vs_responses s"
      "vs_calls t = remove1 req (vs_calls s)" "vs_accepted t = vs_accepted s @ [req]" "vs_next t = vs_next s"
      using step None by (auto simp: v2_enqueue_def req get h Let_def)
    have "shard_ok (shard_requests n j (vs_accepted s @ [req])) (vs_responses s) ((vs_shards s)[k := p] ! j)" if j: "j < n" for j
    proof -
      have ok: "shard_ok (shard_requests n j (vs_accepted s)) (vs_responses s) (vs_shards s ! j)"
        using inv j by (simp add: v2_inv_def n_def)
      show ?thesis
      proof (cases "j = k")
        case True
        have "\<not> answered (vs_responses s) req" "\<not> served (vs_responses s) req"
          using fresh by (simp_all add: answered_def served_def)
        then show ?thesis using ok k True
          by (auto simp: shard_requests_snoc n_def k_def p shard_ok_def batch_of_def sorted_wrt_append split: pl_pc.splits)
      next
        case False
        then show ?thesis using ok by (simp add: shard_requests_snoc k_def)
      qed
    qed
    then show ?thesis using inv ids(2) r t by (auto simp: v2_inv_def n_def)
  qed
qed

lemma v2_inv_frame:
  assumes "v2_inv s" "length (vs_shards t) = length (vs_shards s)" "vs_responses t = vs_responses s"
    "vs_calls t = vs_calls s" "vs_accepted t = vs_accepted s" "vs_next t = vs_next s"
    "\<forall>k < length (vs_shards s). pp_pc (vs_shards t ! k) = pp_pc (vs_shards s ! k) \<and>
       pp_queue (vs_shards t ! k) = pp_queue (vs_shards s ! k)"
  shows "v2_inv t"
proof -
  have "vs_shards t \<noteq> []" using assms(1,2) by (auto simp: v2_inv_def)
  then show ?thesis using assms by (simp add: v2_inv_def shard_ok_def batch_of_def)
qed

lemma v2_inv_shard:
  assumes inv: "v2_inv s" and run: "v2_shard k f s = Some t"
    and ok: "\<And>accepted p resp. distinct (map rq_id accepted) \<Longrightarrow> shard_ok accepted (vs_responses s) (vs_shards s ! k) \<Longrightarrow>
      f (vs_shards s ! k) = Some (p, resp) \<Longrightarrow>
      shard_ok accepted resp p \<and> (\<forall>i. i \<notin> rq_id ` set accepted \<longrightarrow> resp i = vs_responses s i)"
  shows "v2_inv t"
proof -
  obtain p resp where k: "k < length (vs_shards s)" and f: "f (vs_shards s ! k) = Some (p, resp)"
    and t: "t = s\<lparr>vs_shards := (vs_shards s)[k := p], vs_responses := resp\<rparr>"
    using run by (auto simp: v2_shard_def split: if_splits)
  define mine where "mine = shard_requests (length (vs_shards s)) k (vs_accepted s)"
  have ids: "distinct (map rq_id mine)" using inv by (simp add: mine_def v2_inv_def shard_requests_def distinct_map_filter)
  have "shard_ok mine (vs_responses s) (vs_shards s ! k)" using inv k by (simp add: mine_def v2_inv_def)
  note post = ok[OF ids this f]
  show ?thesis
    by (rule v2_inv_advance[OF inv k conjunct1[OF post, unfolded mine_def] conjunct2[OF post, unfolded mine_def]])
      (simp_all add: t)
qed

lemma v2_inv_pc:
  assumes inv: "v2_inv s" and k: "k < length (vs_shards s)"
    and ok: "\<And>accepted. shard_ok accepted (vs_responses s) (vs_shards s ! k) \<Longrightarrow> shard_ok accepted (vs_responses s) p"
    and t: "vs_shards t = (vs_shards s)[k := p]" "vs_responses t = vs_responses s" "vs_calls t = vs_calls s"
      "vs_accepted t = vs_accepted s" "vs_next t = vs_next s"
  shows "v2_inv t"
  by (rule v2_inv_advance[OF inv k ok _ t]) (use inv k in \<open>simp_all add: v2_inv_def\<close>)

lemma v2_inv_submit:
  assumes "v2_inv s" shows "v2_inv (v2_submit key n s)"
proof -
  have "\<forall>req \<in> set (vs_calls s @ vs_accepted s). rq_id req < vs_next s" using assms unfolding v2_inv_def by blast
  then have "vs_next s \<notin> rq_id ` set (vs_calls s @ vs_accepted s)" by force
  then show ?thesis using assms by (auto simp: v2_inv_def v2_submit_def Let_def less_Suc_eq)
qed

lemma v2_inv_step:
  assumes inv: "v2_inv s" and step: "v2_step rd ev s = Some t" shows "v2_inv t"
proof (cases ev)
  case (Submit key n)
  then show ?thesis using step v2_inv_submit[OF inv] by (auto simp: v2_step_def)
next
  case (Handle choice ended i)
  then show ?thesis using step v2_inv_enqueue[OF inv] by (simp add: v2_step_def)
next
  case (Await ended i)
  then show ?thesis using step
    by (intro v2_inv_frame[OF inv]) (auto simp: v2_step_def v2_await_def split: if_splits option.splits)
next
  case (Select k choice)
  then show ?thesis using step
    by (intro v2_inv_shard[OF inv]) (auto simp: v2_step_def intro: shard_ok_select)
next
  case (Collect k)
  then have k: "k < length (vs_shards s)" using step by (simp add: v2_step_def split: if_splits)
  obtain res where res: "v2_collect (v2_pipelineMaxBatch (vs_limiter s)) (vs_shards s ! k) = Some res"
    using step Collect k by (auto simp: v2_step_def split: bind_splits)
  show ?thesis
  proof (cases res)
    case (Inl p)
    show ?thesis
      by (rule v2_inv_pc[OF inv k shard_ok_collect(1)]) (use step Collect k res Inl in \<open>auto simp: v2_step_def\<close>)
  next
    case (Inr batch)
    show ?thesis
    proof (cases "batch = []")
      case True
      show ?thesis
        by (rule v2_inv_pc[OF inv k shard_ok_collect(2)]) (use step Collect k res Inr True in \<open>auto simp: v2_step_def\<close>)
    next
      case False
      show ?thesis
        by (rule v2_inv_pc[OF inv k shard_ok_collect(3)]) (use step Collect k res Inr False in \<open>auto simp: v2_step_def\<close>)
    qed
  qed
next
  case (Build k ended)
  then show ?thesis using step
    by (intro v2_inv_shard[OF inv]) (auto simp: v2_step_def dest: shard_ok_build)
next
  case (Eval k)
  then obtain p db where e: "k < length (vs_shards s)" "v2_eval rd (vs_limiter s) (vs_shards s ! k) (vs_db s) = Some (p, db)"
    using step by (auto simp: v2_step_def split: if_splits)
  show ?thesis
    by (rule v2_inv_pc[OF inv e(1) shard_ok_eval[OF _ e(2)]]) (use step Eval e in \<open>auto simp: v2_step_def\<close>)
next
  case (Exec k fault)
  then show ?thesis using step
    by (intro v2_inv_shard[OF inv]) (auto simp: v2_step_def intro: shard_ok_exec)
next
  case (Answer k ended)
  then show ?thesis using step
    by (intro v2_inv_shard[OF inv]) (auto simp: v2_step_def dest: shard_ok_answer)
next
  case (FailNext k)
  then show ?thesis using step
    by (intro v2_inv_shard[OF inv]) (auto simp: v2_step_def dest: shard_ok_failPending)
next
  case CloseAll
  then show ?thesis using step by (intro v2_inv_frame[OF inv]) (auto simp: v2_step_def v2_Close_def)
next
  case (StopShard k)
  then show ?thesis using step
    by (intro v2_inv_frame[OF inv]) (auto simp: v2_step_def v2_stop_def nth_list_update split: if_splits)
next
  case (Elsewhere f)
  then show ?thesis using step by (intro v2_inv_frame[OF inv]) (auto simp: v2_step_def)
qed

fun v2_run :: "'db redis \<Rightarrow> 'db v2_event list \<Rightarrow> 'db v2_system \<Rightarrow> 'db v2_system option" where
  "v2_run rd [] s = Some s"
| "v2_run rd (ev # evs) s = do { s \<leftarrow> v2_step rd ev s; v2_run rd evs s }"

lemma v2_inv_run: "v2_inv s \<Longrightarrow> v2_run rd evs s = Some t \<Longrightarrow> v2_inv t"
  by (induction evs arbitrary: s) (auto split: bind_splits dest: v2_inv_step)

lemma v2_inv_new:
  assumes "v2_pipelineEnabled r" "0 < v2_pipelineShards r" "v2_pipelineShards r < 2 ^ 32"
  shows "v2_inv (NewSystemV2 r db)"
  using assms by (auto simp: v2_inv_def NewSystemV2_def shard_ok_def shard_requests_def pc_ok_def batch_of_def nat_less_iff)

lemma v2_step_shards: "v2_step rd ev s = Some t \<Longrightarrow> length (vs_shards t) = length (vs_shards s)"
  by (auto simp: v2_step_def v2_submit_def v2_enqueue_def v2_await_def v2_Close_def v2_stop_def v2_shard_def Let_def
      split: v2_event.splits bind_splits if_splits option.splits rl_error.splits sum.splits prod.splits)

lemma v2_run_shards: "v2_run rd evs s = Some t \<Longrightarrow> length (vs_shards t) = length (vs_shards s)"
  by (induction evs arbitrary: s) (auto split: bind_splits dest: v2_step_shards)


text \<open>A shard that has returned leaves what is in its queue without answers.\<close>

definition stays :: "pl_shard \<Rightarrow> pl_shard \<Rightarrow> bool" where
  "stays p p' \<longleftrightarrow> (pp_pc p = Returned \<longrightarrow> pp_pc p' = Returned \<and> set (pp_queue p) \<subseteq> set (pp_queue p'))"

lemma stays_refl [simp]: "stays p p"
  by (simp add: stays_def)

lemma shard_stays:
  assumes "v2_shard j f s = Some t" "\<And>p resp. f (vs_shards s ! j) = Some (p, resp) \<Longrightarrow> stays (vs_shards s ! j) p"
  shows "stays (vs_shards s ! k) (vs_shards t ! k)"
  using assms by (cases "j = k") (auto simp: v2_shard_def split: if_splits)

lemma enqueue_stays:
  assumes "v2_enqueue choice ended i s = Some t" shows "stays (vs_shards s ! k) (vs_shards t ! k)"
proof -
  have "stays p p'" if "pl_handle choice ended m req p = Some (None, p')" for m req p p'
    using that by (auto simp: pl_handle_def stays_def Let_def split: handle_case.splits if_splits)
  then show ?thesis using assms
    by (auto simp: v2_enqueue_def nth_list_update Let_def split: bind_splits option.splits rl_error.splits)
      (metis nth_list_update_eq nth_list_update_neq list_update_beyond not_le stays_refl)+
qed

lemma v2_step_returned:
  assumes "v2_step rd ev s = Some t" shows "stays (vs_shards s ! k) (vs_shards t ! k)"
proof (cases ev)
  case (Submit key n)
  then show ?thesis using assms by (auto simp: v2_step_def v2_submit_def Let_def)
next
  case (Handle choice ended i)
  then show ?thesis using assms enqueue_stays by (simp add: v2_step_def)
next
  case (Await ended i)
  then show ?thesis using assms by (auto simp: v2_step_def v2_await_def split: if_splits option.splits)
next
  case (Select j choice)
  then show ?thesis using assms
    by (intro shard_stays[of j "\<lambda>p. map_option (\<lambda>p. (p, vs_responses s)) (v2_select choice p)"])
      (auto simp: v2_step_def v2_select_def stays_def split: if_splits)
next
  case (Collect j)
  then show ?thesis using assms
    by (cases "j = k")
      (auto simp: v2_step_def v2_collect_def stays_def split: if_splits bind_splits sum.splits pl_pc.splits list.splits)
next
  case (Build j ended)
  then show ?thesis using assms
    by (intro shard_stays[of j "\<lambda>p. v2_build ended p (vs_responses s)"])
      (auto simp: v2_step_def v2_build_def stays_def)
next
  case (Eval j)
  then show ?thesis using assms
    by (cases "j = k") (auto simp: v2_step_def v2_eval_def stays_def split: if_splits)
next
  case (Exec j fault)
  then show ?thesis using assms
    by (intro shard_stays[of j "\<lambda>p. map_option (\<lambda>p. (p, vs_responses s)) (v2_exec fault p)"])
      (auto simp: v2_step_def v2_exec_def stays_def)
next
  case (Answer j ended)
  then show ?thesis using assms
    by (intro shard_stays[of j "\<lambda>p. v2_answer ended p (vs_responses s)"])
      (auto simp: v2_step_def v2_answer_def stays_def)
next
  case (FailNext j)
  then show ?thesis using assms
    by (intro shard_stays[of j "\<lambda>p. v2_failPending p (vs_responses s)"])
      (auto simp: v2_step_def v2_failPending_def stays_def)
next
  case CloseAll
  then show ?thesis using assms by (auto simp: v2_step_def v2_Close_def)
next
  case (StopShard j)
  then show ?thesis using assms
    by (cases "j = k") (auto simp: v2_step_def v2_stop_def stays_def split: if_splits)
next
  case (Elsewhere f)
  then show ?thesis using assms by (auto simp: v2_step_def)
qed

lemma v2_run_returned:
  "v2_run rd evs s = Some t \<Longrightarrow> pp_pc (vs_shards s ! k) = Returned \<Longrightarrow>
   pp_pc (vs_shards t ! k) = Returned \<and> set (pp_queue (vs_shards s ! k)) \<subseteq> set (pp_queue (vs_shards t ! k))"
proof (induction evs arbitrary: s)
  case (Cons ev evs)
  then obtain s1 where 1: "v2_step rd ev s = Some s1" "v2_run rd evs s1 = Some t" by (auto split: bind_splits)
  from v2_step_returned[OF 1(1), of k] Cons.IH[OF 1(2)] Cons.prems(2) show ?case by (auto simp: stays_def)
qed simp

lemma RedisPipeline_returned_never_answers:
  assumes "v2_pipelineEnabled r" "0 < v2_pipelineShards r" "v2_pipelineShards r < 2 ^ 32"
    and "v2_run rd evs (NewSystemV2 r db) = Some s" and "k < nat (v2_pipelineShards r)"
    and "pp_pc (vs_shards s ! k) = Returned" "req \<in> set (pp_queue (vs_shards s ! k))" and "v2_run rd evs' s = Some t"
  shows "vs_responses t (rq_id req) = None"
proof -
  have "length (vs_shards s) = nat (v2_pipelineShards r)" "length (vs_shards t) = nat (v2_pipelineShards r)"
    using v2_run_shards[OF assms(4)] v2_run_shards[OF assms(8)] assms(1) by (simp_all add: NewSystemV2_def)
  note len = this
  have "req \<in> set (pp_queue (vs_shards t ! k))" using v2_run_returned[OF assms(8,6)] assms(5,7) len by auto
  moreover have "v2_inv t" using v2_inv_run[OF v2_inv_run[OF v2_inv_new[OF assms(1,2,3)] assms(4)] assms(8)] .
  ultimately show ?thesis using assms(5) len by (fastforce simp: v2_inv_def shard_ok_def answered_def)
qed

section \<open>Concrete runs\<close>

definition v2_demo :: redis_limiter_v2 where
  "v2_demo = \<lparr>rl_baseKey = ''b'', rl_limit = 10, rl_burst = 2,
     rl_failureMode = RedisRateLimiterFailClosed, rl_operationTimeout = 200000000,
     rl_stateTTL = 300000000000, rl_totalRequests = 0, rl_allowedRequests = 0,
     v2_pipelineEnabled = True, v2_pipelineMaxWait = 100000000, v2_pipelineMaxBatch = 100,
     v2_pipelineShards = 1, v2_pipelineQueueSize = 200, v2_closed = False, v2_pipelineBatches = 0,
     v2_pipelineRequests = 0, v2_queueFullDenies = 0\<rparr>"

definition v2_demo_batch :: "pl_request list" where
  "v2_demo_batch = [\<lparr>rq_id = 0, rq_shardKey = ''k'', rq_redisKey = ''b:k'', rq_n = 1\<rparr>,
     \<lparr>rq_id = 1, rq_shardKey = ''k'', rq_redisKey = ''b:k'', rq_n = 2\<rparr>]"

text \<open>\<open>Close\<close> comes between the checks of a submission and its place in the queue: the shard finishes
  first, and the request stays in its queue without a result.\<close>

definition v2_late_run :: "map_store v2_event list" where
  "v2_late_run = [Submit ''k'' 1, CloseAll, StopShard 0, Select 0 OnStop, FailNext 0, Handle Enqueue False 0]"

lemma v2_demo_direct:
  "\<exists>rs db'. run_steps (direct_step map_redis v2_demo) rl_demo_store v2_demo_batch = Some (rs, db') \<and>
     (\<forall>x \<in> set rs. \<exists>y. x = Inr y) \<and> rs = [Inr (True, 0), Inr (False, 100000000)]"
proof -
  define res where "res = run_steps (direct_step map_redis v2_demo) rl_demo_store v2_demo_batch"
  have "map_option fst res = Some [Inr (True, 0), Inr (False, 100000000)]"
    unfolding res_def direct_step_def v2_demo_batch_def by code_simp
  then show ?thesis by (cases res) (auto simp flip: res_def)
qed

lemma RedisPipeline_batch_is_sequential_witness:
  "\<exists>rs db' r' resp'. run_steps (direct_step map_redis v2_demo) rl_demo_store v2_demo_batch = Some (rs, db') \<and>
     rs = [Inr (True, 0), Inr (False, 100000000)] \<and>
     pl_executePipeline map_redis Answered (\<lambda>_. False) (\<lambda>_. False) v2_demo_batch (v2_demo, Map.empty, rl_demo_store)
       = (r', resp', db') \<and>
     (\<forall>i < length v2_demo_batch. resp' (rq_id (v2_demo_batch ! i)) = Some (rs ! i))"
proof -
  obtain rs db' where d: "run_steps (direct_step map_redis v2_demo) rl_demo_store v2_demo_batch = Some (rs, db')"
      "\<forall>x \<in> set rs. \<exists>y. x = Inr y" "rs = [Inr (True, 0), Inr (False, 100000000)]"
    using v2_demo_direct by blast
  have "\<forall>req \<in> set v2_demo_batch. rq_n req \<le> rl_burst v2_demo \<and> \<not> False \<and> Map.empty (rq_id req) = None"
    "distinct (map rq_id v2_demo_batch)" by (simp_all add: v2_demo_batch_def v2_demo_def)
  then show ?thesis
    using RedisPipeline_batch_is_sequential[OF d(1,2), where ended = "\<lambda>_. False" and ended' = "\<lambda>_. False" and resp = Map.empty] d
    by blast
qed

lemma v2_late_run_result:
  "map_option (\<lambda>s. (pp_pc (vs_shards s ! 0), map rq_id (pp_queue (vs_shards s ! 0))))
     (v2_run map_redis v2_late_run (NewSystemV2 v2_demo rl_demo_store)) = Some (Returned, [0])"
  by code_simp

text \<open>Three requests in one batch: the context of the second has ended, so it has an answer before the first
  has; then the first is served, with the third still to come.\<close>

definition v2_demo_run :: "map_store v2_event list" where
  "v2_demo_run = [Submit ''k'' 1, Submit ''k'' 1, Submit ''k'' 2, Handle Enqueue False 0, Handle Enqueue False 1,
     Handle Enqueue False 2, Select 0 OnFirst, Collect 0, Collect 0, Collect 0, Build 0 False, Build 0 True, Build 0 False,
     Build 0 False, Eval 0, Eval 0, Exec 0 Answered, Answer 0 False]"


end
