(* ===== verification/RedisBatches.thy ===== *)
theory RedisBatches
  imports TokenBuckets RedisPipelines LoadBalancer
begin

text \<open>
  \<open>stability/redis_ratelimit_batch_v3.go\<close> and \<open>redis_ratelimit_batch_v4.go\<close>: the token bucket of
  batches. A pipeline groups its batch by key, reads the bucket of each key, decides for the requests
  of a group in their order, and sends the refill and the consumption of all groups as increments in one
  pipeline. The reading and the writing are two steps here, since other pipelines and processes may
  come between them; \<open>group\<close> is a map, so the order of its keys is given with each execution. The
  queues of the shards are those of \<open>RedisPipelines\<close>.
\<close>

section \<open>One group\<close>

fun bt_admit :: "int \<Rightarrow> int list \<Rightarrow> bool list" where
  "bt_admit remaining [] = []"
| "bt_admit remaining (reqN # ns) =
     (if reqN \<le> remaining then True # bt_admit (remaining - reqN) ns else False # bt_admit remaining ns)"

text \<open>The refill that is sent for the key, and which requests are allowed.\<close>

definition bt_group :: "rat \<Rightarrow> int \<Rightarrow> time \<Rightarrow> go_value \<Rightarrow> go_value \<Rightarrow> int list \<Rightarrow> rl_error + (int \<times> bool list)" where
  "bt_group limit burst now v0 v1 ns =
     (case (if v0 = GNil then Inr (0, burst)
            else (case toInt64 v0 of Inl e \<Rightarrow> Inl e | Inr parsed \<Rightarrow> Inr (parsed, 0))) of
        Inl e \<Rightarrow> Inl e
      | Inr (tokens, initialRefill) \<Rightarrow>
          (case (if v1 = GNil then Inr now else toInt64 v1) of
             Inl e \<Rightarrow> Inl e
           | Inr lastNS \<Rightarrow>
               let lastNS = (if lastNS > now then now else lastNS);
                   refill = calculateRefillTokens now lastNS limit;
                   maxRefill = (if wrap64 (burst - tokens) < 0 then 0 else wrap64 (burst - tokens));
                   refill = (if refill > 0 \<and> refill > maxRefill then maxRefill else refill);
                   remaining = wrap64 (tokens + initialRefill + refill);
                   remaining = (if remaining > burst then burst else remaining)
               in Inr (wrap64 (initialRefill + refill), bt_admit remaining ns)))"

definition bt_group_cmds :: "duration \<Rightarrow> time \<Rightarrow> int \<Rightarrow> (bool \<times> int) list \<Rightarrow> rd_cmd list" where
  "bt_group_cmds stateTTL now refill decisions =
     HIncrBy ''tokens'' refill #
     map (\<lambda>(allowed, n). HIncrBy ''tokens'' (if allowed then - n else 0)) decisions @
     [HSet ''last_ns'' (dec now)] @ (if stateTTL > 0 then [PExpire stateTTL] else [])"

section \<open>A batch\<close>

definition requests_of :: "string \<Rightarrow> pl_request list \<Rightarrow> pl_request list" where
  "requests_of redisKey = filter (\<lambda>req. rq_redisKey req = redisKey)"

text \<open>What \<open>HMGET\<close> of a key meets: the clock of the process, and an error of the call.\<close>

type_synonym bt_reads = "string \<Rightarrow> time \<times> string option"
type_synonym bt_plan = "(string \<times> (rl_error + (int \<times> bool list))) list"

definition bt_read_group ::
    "'db redis \<Rightarrow> ('a redis_limiter_scheme) \<Rightarrow> bt_reads \<Rightarrow> pl_request list \<Rightarrow> 'db \<Rightarrow> string \<Rightarrow> rl_error + (int \<times> bool list)" where
  "bt_read_group rd r reads batch db redisKey =
     (case reads redisKey of
        (now, Some e) \<Rightarrow> Inl (RedisError e)
      | (now, None) \<Rightarrow>
          bt_group (rl_limit r) (rl_burst r) now (of_hget (rd_HGET rd db redisKey ''tokens''))
            (of_hget (rd_HGET rd db redisKey ''last_ns'')) (map rq_n (requests_of redisKey batch)))"

definition bt_plan_batch ::
    "'db redis \<Rightarrow> ('a redis_limiter_scheme) \<Rightarrow> bt_reads \<Rightarrow> string list \<Rightarrow> pl_request list \<Rightarrow> 'db \<Rightarrow> bt_plan" where
  "bt_plan_batch rd r reads order batch db = map (\<lambda>key. (key, bt_read_group rd r reads batch db key)) order"

fun bt_send ::
    "'db redis \<Rightarrow> ('a redis_limiter_scheme) \<Rightarrow> (string \<Rightarrow> time) \<Rightarrow> pl_request list \<Rightarrow> bt_plan \<Rightarrow> 'db \<Rightarrow> bool \<times> 'db" where
  "bt_send rd r clock batch [] db = (True, db)"
| "bt_send rd r clock batch ((key, Inl e) # plan) db = bt_send rd r clock batch plan db"
| "bt_send rd r clock batch ((key, Inr (refill, flags)) # plan) db =
     (let (ok, db) = exec_cmds rd key
            (bt_group_cmds (rl_stateTTL r) (clock key) refill (zip flags (map rq_n (requests_of key batch)))) db;
          (rest, db) = bt_send rd r clock batch plan db
      in (ok \<and> rest, db))"

text \<open>The results of the requests whose contexts have not ended; a failed \<open>Exec\<close> answers them all.\<close>

fun flags_of :: "pl_request list \<Rightarrow> bool list \<Rightarrow> nat \<Rightarrow> bool" where
  "flags_of (req # reqs) (b # bs) i = (if rq_id req = i then b else flags_of reqs bs i)"
| "flags_of _ _ i = False"

definition bt_result :: "pl_request list \<Rightarrow> bt_plan \<Rightarrow> pl_request \<Rightarrow> rl_error + bool" where
  "bt_result batch plan req =
     (case map_of plan (rq_redisKey req) of
        Some (Inl e) \<Rightarrow> Inl e
      | Some (Inr (_, flags)) \<Rightarrow> Inr (flags_of (requests_of (rq_redisKey req) batch) flags (rq_id req))
      | None \<Rightarrow> Inr False)"

definition bt_commit ::
    "'db redis \<Rightarrow> ('a redis_limiter_scheme) \<Rightarrow> rd_fault \<Rightarrow> (string \<Rightarrow> time) \<Rightarrow> (nat \<Rightarrow> bool) \<Rightarrow> pl_request list \<Rightarrow> bt_plan
       \<Rightarrow> 'db \<Rightarrow> (pl_request \<times> (rl_error + bool)) list \<times> 'db" where
  "bt_commit rd r fault clock ended batch plan db =
     (let (ok, db') = bt_send rd r clock batch plan db;
          results = map (\<lambda>req. (req, bt_result batch plan req)) (filter (\<lambda>req. \<not> ended (rq_id req)) batch)
      in if \<forall>(_, p) \<in> set plan. isl p then (results, db)
         else case fault of
                Refused e \<Rightarrow> (map (\<lambda>req. (req, Inl (RedisError e))) batch, db)
              | Unanswered e \<Rightarrow> (map (\<lambda>req. (req, Inl (RedisError e))) batch, db')
              | Answered \<Rightarrow> if ok then (results, db')
                            else (map (\<lambda>req. (req, Inl (RedisError ''command''))) batch, db'))"

section \<open>Configuration and counters\<close>

record redis_limiter_batch = redis_limiter_v2 +
  bt_requestSeq :: int
  bt_correlationMismatches :: int

definition NewBatch :: "int \<Rightarrow> bool \<Rightarrow> redis_config_v2 \<Rightarrow> string + redis_limiter_batch" where
  "NewBatch defaultBatch client config =
     (if \<not> client then Inl ''redis client is nil''
      else if rc_Limit config \<le> 0 then Inl ''limit must be greater than zero''
      else if rc_Burst config \<le> 0 then Inl ''burst must be greater than zero''
      else let prefx = (if rc_KeyPrefix config = [] then ''stability:ratelimit'' else rc_KeyPrefix config);
               name = (if rc_Name config = [] then ''global'' else rc_Name config);
               failureMode = (if rc_FailureMode config = [] then RedisRateLimiterFailClosed
                              else rc_FailureMode config);
               pipelineMaxBatch = positive_or (rc_PipelineMaxBatch config) defaultBatch
           in if failureMode \<noteq> RedisRateLimiterFailClosed \<and> failureMode \<noteq> RedisRateLimiterFailOpen
              then Inl (''unsupported failure mode: '' @ failureMode)
              else Inr \<lparr>rl_baseKey = prefx @ '':'' @ name, rl_limit = rc_Limit config,
                        rl_burst = rc_Burst config, rl_failureMode = failureMode,
                        rl_operationTimeout = positive_or (rc_OperationTimeout config) (200 * 1000000),
                        rl_stateTTL = positive_or (rc_StateTTL config) (300 * 1000000000),
                        rl_totalRequests = 0, rl_allowedRequests = 0,
                        v2_pipelineEnabled = True,
                        v2_pipelineMaxWait = positive_or (rc_PipelineMaxWait config) (100 * 1000),
                        v2_pipelineMaxBatch = pipelineMaxBatch,
                        v2_pipelineShards = positive_or (rc_PipelineShards config) 64,
                        v2_pipelineQueueSize =
                          positive_or (positive_or (rc_PipelineQueueSize config) (wrap64 (pipelineMaxBatch * 2))) 1,
                        v2_closed = False, v2_pipelineBatches = 0, v2_pipelineRequests = 0,
                        v2_queueFullDenies = 0, bt_requestSeq = 0, bt_correlationMismatches = 0\<rparr>)"

definition NewRedisRateLimiterBatchV3 :: "bool \<Rightarrow> redis_config_v2 \<Rightarrow> string + redis_limiter_batch" where
  "NewRedisRateLimiterBatchV3 client config = NewBatch 1000 client config"

text \<open>The targets of the round-robin balancer of the fourth version are the shards.\<close>

definition pipeline_name :: "nat \<Rightarrow> string" where
  "pipeline_name i = ''pipeline-'' @ dec (int i)"

definition NewRedisRateLimiterBatchV4 :: "bool \<Rightarrow> redis_config_v2 \<Rightarrow> string + (redis_limiter_batch \<times> nat round_robin)" where
  "NewRedisRateLimiterBatchV4 client config =
     (case NewBatch 1000 client config of
        Inl e \<Rightarrow> Inl e
      | Inr r \<Rightarrow> Inr (r, fold (\<lambda>i lb. snd (rb_AddTarget lb (pipeline_name i) i 1)) [0..<nat (v2_pipelineShards r)]
                              NewRoundRobinLoadBalancer))"

text \<open>\<open>AllowN\<close> around a call of \<open>allowN\<close> that returned \<open>res\<close>.\<close>

definition bt_AllowN :: "int \<Rightarrow> rl_error + bool \<Rightarrow> redis_limiter_batch \<Rightarrow> bool \<times> redis_limiter_batch" where
  "bt_AllowN n res r =
     (if n \<le> 0 then (True, r)
      else let r = r\<lparr>rl_totalRequests := wrap64 (rl_totalRequests r + n)\<rparr>;
               admit = (case res of Inl err \<Rightarrow> rl_failureMode r = RedisRateLimiterFailOpen | Inr allowed \<Rightarrow> allowed)
           in (admit, if admit then r\<lparr>rl_allowedRequests := wrap64 (rl_allowedRequests r + n)\<rparr> else r))"

section \<open>The results of the third version\<close>

text \<open>The map of results of a pipeline and the requests whose \<open>release\<close> channel holds a token.\<close>

record bt_results =
  br_results :: "nat \<Rightarrow> (rl_error + bool) option"
  br_released :: "nat set"

definition storeResultAndRelease :: "nat \<Rightarrow> rl_error + bool \<Rightarrow> bt_results \<Rightarrow> bt_results" where
  "storeResultAndRelease i res b = b\<lparr>br_results := (br_results b)(i \<mapsto> res), br_released := insert i (br_released b)\<rparr>"

definition takeResult :: "nat \<Rightarrow> bt_results \<Rightarrow> (rl_error + bool) option \<times> bt_results" where
  "takeResult i b = (br_results b i, b\<lparr>br_results := (br_results b)(i := None)\<rparr>)"

definition deleteResult :: "nat \<Rightarrow> bt_results \<Rightarrow> bt_results" where
  "deleteResult i b = b\<lparr>br_results := (br_results b)(i := None)\<rparr>"

text \<open>The end of \<open>allowN\<close>: the token of the channel, or the end of the context; \<open>None\<close> while neither
  is there.\<close>

definition bt3_await :: "bool \<Rightarrow> nat \<Rightarrow> bt_results \<Rightarrow> ((rl_error + bool) \<times> bt_results) option" where
  "bt3_await ended i b =
     (if ended then Some (Inl ContextDone, deleteResult i b)
      else if i \<in> br_released b
      then (let b = b\<lparr>br_released := br_released b - {i}\<rparr>
            in case takeResult i b of
                 (None, b) \<Rightarrow> Some (Inl ResultMissing, b)
               | (Some res, b) \<Rightarrow> Some (res, b))
      else None)"

section \<open>The fourth version\<close>

definition InitializeTokenBucket ::
    "'db redis \<Rightarrow> rd_fault \<Rightarrow> time \<Rightarrow> string \<Rightarrow> int \<Rightarrow> redis_limiter_batch \<Rightarrow> 'db \<Rightarrow> rl_error option \<times> 'db" where
  "InitializeTokenBucket rd fault now key tokens r db =
     (if v2_closed r then (Some PipelineClosed, db)
      else let tokens = (if tokens < 0 then 0 else tokens);
               tokens = (if tokens > rl_burst r then rl_burst r else tokens);
               cmds = [HSet ''tokens'' (dec tokens), HSet ''last_ns'' (dec now)] @
                      (if rl_stateTTL r > 0 then [PExpire (rl_stateTTL r)] else []);
               (ok, db') = exec_cmds rd (rl_redisKey key r) cmds db
           in case fault of
                Refused e \<Rightarrow> (Some (RedisError e), db)
              | Unanswered e \<Rightarrow> (Some (RedisError e), db')
              | Answered \<Rightarrow> (if ok then None else Some (RedisError ''command''), db'))"

text \<open>The beginning of \<open>allowNWithRequestID\<close>: an immediate answer, or the request with the pipeline
  that the balancer chose for it.\<close>

definition bt4_submit ::
    "time \<Rightarrow> string \<Rightarrow> int \<Rightarrow> redis_limiter_batch \<times> nat round_robin
       \<Rightarrow> ((rl_error + bool) + (pl_request \<times> nat)) \<times> redis_limiter_batch \<times> nat round_robin" where
  "bt4_submit now key n = (\<lambda>(r, lb).
     if n > rl_burst r then (Inl (Inr False), r, lb)
     else if v2_closed r then (Inl (Inl PipelineClosed), r, lb)
     else let i = (bt_requestSeq r + 1) mod 2 ^ 64;
              r = r\<lparr>bt_requestSeq := i\<rparr>;
              req = \<lparr>rq_id = nat i, rq_shardKey = (if key = [] then dec i else key),
                     rq_redisKey = rl_redisKey key r, rq_n = n\<rparr>
          in case rb_SelectTarget now lb of
               (Inl _, lb) \<Rightarrow> (Inl (Inl NoTarget), r, lb)
             | (Inr (_, k), lb) \<Rightarrow> (Inr (req, k), r, lb))"

text \<open>Its end, on a result of the response channel that carries an identifier.\<close>

definition bt4_await :: "nat \<Rightarrow> nat \<times> (rl_error + bool) \<Rightarrow> redis_limiter_batch \<Rightarrow> (rl_error + bool) \<times> redis_limiter_batch" where
  "bt4_await requestID = (\<lambda>(i, res) r.
     if i \<noteq> requestID
     then (Inl CorrelationMismatch, r\<lparr>bt_correlationMismatches := wrap64 (bt_correlationMismatches r + 1)\<rparr>)
     else (res, r))"

section \<open>Executing a batch\<close>

definition bt_count :: "pl_request list \<Rightarrow> redis_limiter_batch \<Rightarrow> redis_limiter_batch" where
  "bt_count batch r = r\<lparr>v2_pipelineBatches := wrap64 (v2_pipelineBatches r + 1),
     v2_pipelineRequests := wrap64 (v2_pipelineRequests r + int (length batch))\<rparr>"

text \<open>\<open>others\<close> is what happens to the store between the reading and the writing.\<close>

definition bt3_executePipeline ::
    "'db redis \<Rightarrow> rd_fault \<Rightarrow> bt_reads \<Rightarrow> (string \<Rightarrow> time) \<Rightarrow> (nat \<Rightarrow> bool) \<Rightarrow> string list \<Rightarrow> ('db \<Rightarrow> 'db)
       \<Rightarrow> pl_request list \<Rightarrow> redis_limiter_batch \<times> bt_results \<times> 'db \<Rightarrow> redis_limiter_batch \<times> bt_results \<times> 'db" where
  "bt3_executePipeline rd fault reads clock ended order others batch = (\<lambda>(r, res, db).
     if batch = [] then (r, res, db)
     else let plan = bt_plan_batch rd r reads order batch db;
              (results, db) = bt_commit rd r fault clock ended batch plan (others db)
          in (bt_count batch r, fold (\<lambda>(req, x). storeResultAndRelease (rq_id req) x) results res, db))"

text \<open>The response channel of a request in the fourth version holds one result, with its identifier.\<close>

definition bt4_sendResult ::
    "pl_request \<Rightarrow> rl_error + bool \<Rightarrow> (nat \<Rightarrow> (nat \<times> (rl_error + bool)) option) \<Rightarrow> nat \<Rightarrow> (nat \<times> (rl_error + bool)) option" where
  "bt4_sendResult req x resp = (if resp (rq_id req) = None then resp(rq_id req \<mapsto> (rq_id req, x)) else resp)"

definition bt4_executePipeline ::
    "'db redis \<Rightarrow> rd_fault \<Rightarrow> bt_reads \<Rightarrow> (string \<Rightarrow> time) \<Rightarrow> (nat \<Rightarrow> bool) \<Rightarrow> string list \<Rightarrow> ('db \<Rightarrow> 'db)
       \<Rightarrow> pl_request list \<Rightarrow> redis_limiter_batch \<times> (nat \<Rightarrow> (nat \<times> (rl_error + bool)) option) \<times> 'db
       \<Rightarrow> redis_limiter_batch \<times> (nat \<Rightarrow> (nat \<times> (rl_error + bool)) option) \<times> 'db" where
  "bt4_executePipeline rd fault reads clock ended order others batch = (\<lambda>(r, resp, db).
     if batch = [] then (r, resp, db)
     else let plan = bt_plan_batch rd r reads order batch db;
              (results, db) = bt_commit rd r fault clock ended batch plan (others db)
          in (bt_count batch r, fold (\<lambda>(req, x). bt4_sendResult req x) results resp, db))"

text \<open>A result that is stored after its caller has left stays in the map.\<close>

lemma late_result_stays:
  "br_results (storeResultAndRelease i res (snd (the (bt3_await True i b)))) i = Some res"
  by (simp add: storeResultAndRelease_def bt3_await_def deleteResult_def)

section \<open>A group takes what it was granted\<close>

definition granted :: "bool list \<Rightarrow> int list \<Rightarrow> int" where
  "granted flags ns = sum_list (map (\<lambda>(b, n). if b then n else 0) (zip flags ns))"

lemma granted_simps [simp]:
  "granted [] ns = 0" "granted flags [] = 0"
  "granted (b # bs) (n # ns) = (if b then n else 0) + granted bs ns"
  by (simp_all add: granted_def)

lemma length_bt_admit [simp]: "length (bt_admit remaining ns) = length ns"
  by (induction ns arbitrary: remaining) simp_all

lemma bt_admit_granted:
  "\<forall>n \<in> set ns. 0 < n \<Longrightarrow> 0 \<le> remaining \<Longrightarrow> 0 \<le> granted (bt_admit remaining ns) ns \<and> granted (bt_admit remaining ns) ns \<le> remaining"
proof (induction ns arbitrary: remaining)
  case (Cons n ns)
  show ?case
  proof (cases "n \<le> remaining")
    case True
    then show ?thesis using Cons.prems Cons.IH[of "remaining - n"] by simp
  next
    case False
    then show ?thesis using Cons.prems Cons.IH[of remaining] by simp
  qed
qed simp

lemma exec_cmds_append:
  "exec_cmds rd key (xs @ ys) db =
     (let (ok, db) = exec_cmds rd key xs db; (ok', db) = exec_cmds rd key ys db in (ok \<and> ok', db))"
  by (induction rd key xs db rule: exec_cmds.induct) (auto split: option.splits prod.splits simp: Let_def)

text \<open>The increments of the requests of a group, in the order in which they are sent.\<close>

lemma exec_consume_tokens:
  assumes rd: "redis_lawful rd"
  shows "\<exists>s. rd_HGET rd db key ''tokens'' = Some s \<and> parse_int64 s = Some tok \<Longrightarrow> length flags = length ns \<Longrightarrow>
    \<forall>n \<in> set ns. 0 < n \<Longrightarrow> in_int64 tok \<Longrightarrow> 0 \<le> tok - granted flags ns \<Longrightarrow>
    \<exists>db'. exec_cmds rd key (map (\<lambda>(allowed, n). HIncrBy ''tokens'' (if allowed then - n else 0)) (zip flags ns)) db = (True, db') \<and>
      (\<exists>s. rd_HGET rd db' key ''tokens'' = Some s \<and> parse_int64 s = Some (tok - granted flags ns)) \<and>
      rd_HGET rd db' key ''last_ns'' = rd_HGET rd db key ''last_ns''"
proof (induction flags ns arbitrary: tok db rule: list_induct2')
  case (4 b bs n ns)
  define d where "d = (if b then - n else 0)"
  obtain s where s: "rd_HGET rd db key ''tokens'' = Some s" "parse_int64 s = Some tok" using 4(2) by blast
  have rest: "0 \<le> granted bs ns"
    using 4(3,4) by (auto simp: granted_def intro!: sum_list_nonneg dest!: set_zip_rightD) (meson less_imp_le)
  have w: "in_int64 (tok + d)" using 4 rest by (auto simp: in_int64_def d_def split: if_splits)
  define db1 where "db1 = rd_HSET rd key ''tokens'' (dec (tok + d)) db"
  have inc: "rd_HINCRBY rd key ''tokens'' d db = Some (tok + d, db1)"
    using hincrby_tokens[OF rd s(1,2) w] by (simp add: db1_def)
  have "rd_HGET rd db1 key ''tokens'' = Some (dec (tok + d))" "parse_int64 (dec (tok + d)) = Some (tok + d)"
    "rd_HGET rd db1 key ''last_ns'' = rd_HGET rd db key ''last_ns''"
    using w by (simp_all add: db1_def redis_laws[OF rd] parse_dec)
  moreover have "tok + d - granted bs ns = tok - granted (b # bs) (n # ns)" by (simp add: d_def)
  ultimately show ?case using 4(1)[of db1 "tok + d"] 4(3-) w inc by (auto simp: d_def[symmetric])
qed (auto simp: granted_def)

text \<open>A group on a key that nobody else writes between the reading and the writing.\<close>

lemma bt_group_commit:
  assumes rd: "redis_lawful rd" and conf: "tb_config_ok limit burst ttl" and ns: "\<forall>n \<in> set ns. 0 < n"
    and b: "tb_holds rd key (Some (tok, old)) db" "0 \<le> tok" "tok \<le> burst" "0 \<le> old" "old \<le> now"
    and now: "now \<le> 2 ^ 61" "now \<le> now2" "now2 \<le> 2 ^ 61"
    and dec: "bt_group limit burst now (of_hget (rd_HGET rd db key ''tokens'')) (of_hget (rd_HGET rd db key ''last_ns'')) ns = Inr (refill, flags)"
    and send: "exec_cmds rd key (bt_group_cmds ttl now2 refill (zip flags ns)) db = (ok, db')"
  shows "ok" "0 \<le> refill" "of_int refill \<le> tb_earned limit old now2" "0 \<le> granted flags ns"
    "tb_holds rd key (Some (tok + refill - granted flags ns, now2)) db'"
    "0 \<le> tok + refill - granted flags ns" "tok + refill \<le> burst"
proof -
  have c: "0 < limit" "limit \<le> 10 ^ 9" "0 < burst" "burst < 2 ^ 53" "0 < ttl" using conf by (simp_all add: tb_config_ok_def)
  obtain s t where s: "rd_HGET rd db key ''tokens'' = Some s" "parse_int64 s = Some tok"
      "rd_HGET rd db key ''last_ns'' = Some t" "parse_int64 t = Some old"
    using b by (auto simp: tb_holds_def)
  define r0 where "r0 = calculateRefillTokens now old limit"
  have r0: "0 \<le> r0" by (simp add: r0_def calculateRefillTokens_nonneg)
  define r1 where "r1 = (if r0 > 0 \<and> r0 > burst - tok then burst - tok else r0)"
  have r1: "0 \<le> r1" "tok + r1 \<le> burst" "r1 \<le> r0" using r0 b by (auto simp: r1_def)
  have wr: "wrap64 (burst - tok) = burst - tok" "wrap64 (tok + r1) = tok + r1" "wrap64 r1 = r1"
    using b c r1 by simp_all
  have refill: "refill = r1" "flags = bt_admit (tok + r1) ns"
    using dec s b c wr r1(2) unfolding bt_group_def of_hget_def toInt64_def
    by (auto simp: Let_def r0_def[symmetric] r1_def)
  note adm = bt_admit_granted[OF ns, of "tok + r1"]
  have g: "0 \<le> granted flags ns" "granted flags ns \<le> tok + r1" using adm b r1 by (simp_all add: refill)
  have w: "in_int64 (tok + r1)" "in_int64 (tok + r1 - granted flags ns)" "in_int64 now2"
    using g b c r1 now by (simp_all add: in_int64_def)
  define db1 where "db1 = rd_HSET rd key ''tokens'' (dec (tok + r1)) db"
  have inc: "rd_HINCRBY rd key ''tokens'' r1 db = Some (tok + r1, db1)"
    using hincrby_tokens[OF rd s(1,2) w(1)] by (simp add: db1_def)
  have "\<exists>s. rd_HGET rd db1 key ''tokens'' = Some s \<and> parse_int64 s = Some (tok + r1)" "length flags = length ns"
    using w by (simp_all add: db1_def redis_laws[OF rd] parse_dec refill)
  from exec_consume_tokens[OF rd this ns w(1)] g obtain db2 s2 where
    db2: "exec_cmds rd key (map (\<lambda>(allowed, n). HIncrBy ''tokens'' (if allowed then - n else 0)) (zip flags ns)) db1 = (True, db2)"
      "rd_HGET rd db2 key ''tokens'' = Some s2" "parse_int64 s2 = Some (tok + r1 - granted flags ns)"
    by auto
  have "tb_holds rd key (Some (tok + r1 - granted flags ns, now2)) (rd_HSET rd key ''last_ns'' (dec now2) db2)"
    using db2(2,3) w(3) by (simp add: tb_holds_def redis_laws[OF rd] parse_dec)
  then show "ok" "tb_holds rd key (Some (tok + refill - granted flags ns, now2)) db'"
    using send c(5) inc db2(1)
    by (auto simp: bt_group_cmds_def exec_cmds_append refill(1) tb_holds_expire[OF rd])
  show "0 \<le> refill" "0 \<le> granted flags ns" "0 \<le> tok + refill - granted flags ns" "tok + refill \<le> burst"
    using refill r1 g by simp_all
  have "(of_int refill :: rat) \<le> of_int r0" using refill(1) r1(3) by (simp only: of_int_le_iff)
  also have "\<dots> \<le> tb_earned limit old now"
    using calculateRefillTokens_bound[OF c(1) b(5,4)] now by (simp add: r0_def tb_earned_def)
  also have "\<dots> \<le> tb_earned limit old now2"
    using tb_earned_add[of limit old now now2] tb_earned_small(1)[OF c(1,2), of now now2] b now by simp
  finally show "of_int refill \<le> tb_earned limit old now2" .
qed

lemma bt_group_commit_fresh:
  assumes rd: "redis_lawful rd" and conf: "tb_config_ok limit burst ttl" and ns: "\<forall>n \<in> set ns. 0 < n"
    and b: "tb_holds rd key None db" and now: "0 \<le> now" "now \<le> now2" "now2 \<le> 2 ^ 61"
    and dec: "bt_group limit burst now (of_hget (rd_HGET rd db key ''tokens'')) (of_hget (rd_HGET rd db key ''last_ns'')) ns = Inr (refill, flags)"
    and send: "exec_cmds rd key (bt_group_cmds ttl now2 refill (zip flags ns)) db = (ok, db')"
  shows "ok" "0 \<le> granted flags ns"
    "tb_holds rd key (Some (burst - granted flags ns, now2)) db'" "0 \<le> burst - granted flags ns"
proof -
  have c: "0 < limit" "0 < burst" "burst < 2 ^ 53" "0 < ttl" using conf by (simp_all add: tb_config_ok_def)
  have none: "rd_HGET rd db key ''tokens'' = None" "rd_HGET rd db key ''last_ns'' = None" using b by (simp_all add: tb_holds_def)
  have refill: "refill = burst" "flags = bt_admit burst ns"
    using dec none c unfolding bt_group_def of_hget_def by (auto simp: Let_def)
  note g = bt_admit_granted[OF ns, of burst]
  have w: "in_int64 burst" "in_int64 now2" "in_int64 now" using c now by (simp_all add: in_int64_def)
  define db1 where "db1 = rd_HSET rd key ''tokens'' (dec burst) db"
  have inc: "rd_HINCRBY rd key ''tokens'' burst db = Some (burst, db1)"
    using hincrby_missing[OF rd none(1) w(1)] by (simp add: db1_def)
  have "\<exists>s. rd_HGET rd db1 key ''tokens'' = Some s \<and> parse_int64 s = Some burst" "length flags = length ns"
    using w by (simp_all add: db1_def redis_laws[OF rd] parse_dec refill)
  from exec_consume_tokens[OF rd this ns w(1)] g c obtain db2 s where
    db2: "exec_cmds rd key (map (\<lambda>(allowed, n). HIncrBy ''tokens'' (if allowed then - n else 0)) (zip flags ns)) db1 = (True, db2)"
      "rd_HGET rd db2 key ''tokens'' = Some s" "parse_int64 s = Some (burst - granted flags ns)"
    by (auto simp: refill)
  have "tb_holds rd key (Some (burst - granted flags ns, now2)) (rd_HSET rd key ''last_ns'' (dec now2) db2)"
    using db2(2,3) w(2) by (simp add: tb_holds_def redis_laws[OF rd] parse_dec)
  then show "ok" "tb_holds rd key (Some (burst - granted flags ns, now2)) db'"
    using send c(4) inc db2(1)
    by (auto simp: bt_group_cmds_def exec_cmds_append refill(1) tb_holds_expire[OF rd])
  show "0 \<le> granted flags ns" "0 \<le> burst - granted flags ns" using g c by (simp_all add: refill)
qed

section \<open>A key and the rest of its batch\<close>

lemma keeps_bucket_refl [simp]: "keeps_bucket rd key db db"
  by (simp add: keeps_bucket_def)

lemma keeps_bucket_trans: "keeps_bucket rd key db db' \<Longrightarrow> keeps_bucket rd key db' db'' \<Longrightarrow> keeps_bucket rd key db db''"
  by (simp add: keeps_bucket_def)

lemma exec_cmds_other_key:
  assumes rd: "redis_lawful rd" and key: "key' \<noteq> key"
  shows "\<forall>d. PExpire d \<in> set cs \<longrightarrow> 0 < d \<Longrightarrow> exec_cmds rd key' cs db = (ok, db') \<Longrightarrow> keeps_bucket rd key db db'"
proof (induction cs arbitrary: db ok db')
  case (Cons c cs)
  have step: "keeps_bucket rd key db db1 \<Longrightarrow> exec_cmds rd key' cs db1 = (ok1, db') \<Longrightarrow> keeps_bucket rd key db db'" for db1 ok1
    using Cons.IH Cons.prems(1) keeps_bucket_trans by (metis list.set_intros(2))
  show ?case
  proof (cases c)
    case (HIncrBy f d)
    show ?thesis
    proof (cases "rd_HINCRBY rd key' f d db")
      case None
      then show ?thesis using Cons.prems(2) HIncrBy step[of db] by (cases "exec_cmds rd key' cs db") auto
    next
      case (Some res)
      obtain w db1 where res: "res = (w, db1)" by fastforce
      have "keeps_bucket rd key db db1" using HINCRBY_other[OF rd] Some res key by (simp add: keeps_bucket_def)
      then show ?thesis using step Cons.prems(2) HIncrBy Some res by simp
    qed
  next
    case (HSet f v)
    have "keeps_bucket rd key db (rd_HSET rd key' f v db)" using key by (simp add: keeps_bucket_def redis_laws(2)[OF rd])
    then show ?thesis using step Cons.prems(2) HSet by simp
  next
    case (PExpire d)
    then have "keeps_bucket rd key db (rd_PEXPIRE rd key' (formatMs d) db)"
      using Cons.prems(1) by (simp add: keeps_bucket_def redis_laws(3)[OF rd] formatMs_pos)
    then show ?thesis using step Cons.prems(2) PExpire by simp
  qed
qed simp

lemma bt_group_cmds_expire: "0 < ttl \<Longrightarrow> \<forall>d. PExpire d \<in> set (bt_group_cmds ttl now refill ds) \<longrightarrow> 0 < d"
  by (auto simp: bt_group_cmds_def)

definition group_exec where
  "group_exec rd r clock batch key refill flags db =
     exec_cmds rd key (bt_group_cmds (rl_stateTTL r) (clock key) refill (zip flags (map rq_n (requests_of key batch)))) db"

lemma bt_send_other:
  assumes rd: "redis_lawful rd" and ttl: "0 < rl_stateTTL r"
  shows "\<forall>refill flags. (key, Inr (refill, flags)) \<notin> set plan \<Longrightarrow> bt_send rd r clock batch plan db = (ok, db') \<Longrightarrow>
    keeps_bucket rd key db db'"
proof (induction plan arbitrary: db ok db')
  case (Cons entry plan)
  obtain key' p where entry: "entry = (key', p)" by fastforce
  show ?case
  proof (cases p)
    case (Inl e)
    then show ?thesis using Cons entry by auto
  next
    case (Inr q)
    obtain refill' flags' where q: "q = (refill', flags')" by fastforce
    obtain ok1 db1 where 1: "group_exec rd r clock batch key' refill' flags' db = (ok1, db1)" by fastforce
    obtain ok2 where 2: "bt_send rd r clock batch plan db1 = (ok2, db')"
      using Cons.prems(2) 1 by (auto simp: entry Inr q group_exec_def split: prod.splits)
    have "key' \<noteq> key" using Cons.prems(1) by (auto simp: entry Inr q)
    then have "keeps_bucket rd key db db1"
      using exec_cmds_other_key[OF rd _ bt_group_cmds_expire[OF ttl]] 1 by (auto simp: group_exec_def)
    moreover have "keeps_bucket rd key db1 db'" using Cons.IH[OF _ 2] Cons.prems(1) by auto
    ultimately show ?thesis by (rule keeps_bucket_trans)
  qed
qed simp

lemma bt_send_key:
  assumes rd: "redis_lawful rd" and ttl: "0 < rl_stateTTL r"
  shows "distinct (map fst plan) \<Longrightarrow> (key, Inr (refill, flags)) \<in> set plan \<Longrightarrow>
    bt_send rd r clock batch plan db = (ok, db') \<Longrightarrow>
    \<exists>db1 ok1 db2. keeps_bucket rd key db db1 \<and> group_exec rd r clock batch key refill flags db1 = (ok1, db2) \<and>
      keeps_bucket rd key db2 db'"
proof (induction plan arbitrary: db ok db')
  case (Cons entry plan)
  obtain key' p where entry: "entry = (key', p)" by fastforce
  show ?case
  proof (cases p)
    case (Inl e)
    then show ?thesis using Cons entry by auto
  next
    case (Inr q)
    obtain refill' flags' where q: "q = (refill', flags')" by fastforce
    obtain ok1 db1 where 1: "group_exec rd r clock batch key' refill' flags' db = (ok1, db1)" by fastforce
    obtain ok2 where 2: "bt_send rd r clock batch plan db1 = (ok2, db')"
      using Cons.prems(3) 1 by (auto simp: entry Inr q group_exec_def split: prod.splits)
    show ?thesis
    proof (cases "key' = key")
      case True
      then have "\<forall>refill flags. (key, Inr (refill, flags)) \<notin> set plan" using Cons.prems(1) entry by force
      from bt_send_other[OF rd ttl this 2] True Cons.prems(1,2) 1 show ?thesis
        using keeps_bucket_refl by (force simp: entry Inr q)
    next
      case False
      have "keeps_bucket rd key db db1"
        using exec_cmds_other_key[OF rd False bt_group_cmds_expire[OF ttl]] 1 by (auto simp: group_exec_def)
      moreover obtain dba okb dbc where "keeps_bucket rd key db1 dba"
          "group_exec rd r clock batch key refill flags dba = (okb, dbc)" "keeps_bucket rd key dbc db'"
        using Cons.IH[OF _ _ 2] Cons.prems(1,2) False by (auto simp: entry)
      ultimately show ?thesis using keeps_bucket_trans by metis
    qed
  qed
qed simp

text \<open>What the callers of a key are told they got.\<close>

definition bt_admitted :: "string \<Rightarrow> (pl_request \<times> (rl_error + bool)) list \<Rightarrow> int" where
  "bt_admitted key results =
     sum_list (map (\<lambda>(req, res). if rq_redisKey req = key \<and> res = Inr True then rq_n req else 0) results)"

lemma flags_of_granted:
  "distinct (map rq_id reqs) \<Longrightarrow> length flags = length reqs \<Longrightarrow>
   sum_list (map (\<lambda>req. if flags_of reqs flags (rq_id req) then rq_n req else 0) reqs) = granted flags (map rq_n reqs)"
proof (induction reqs flags rule: list_induct2')
  case (4 req reqs b bs)
  have tl: "flags_of (req # reqs) (b # bs) (rq_id x) = flags_of reqs bs (rq_id x)" if "x \<in> set reqs" for x
    using 4(2) that by auto
  have hd: "flags_of (req # reqs) (b # bs) (rq_id req) = b" by simp
  have "sum_list (map (\<lambda>x. if flags_of (req # reqs) (b # bs) (rq_id x) then rq_n x else 0) reqs) =
      sum_list (map (\<lambda>x. if flags_of reqs bs (rq_id x) then rq_n x else 0) reqs)"
    by (intro arg_cong[where f = sum_list] map_cong refl) (simp_all only: tl)
  then show ?case using 4 by (simp add: hd del: flags_of.simps)
qed auto

lemma sum_list_filter_le:
  fixes f :: "'a \<Rightarrow> int"
  shows "\<forall>x \<in> set xs. 0 \<le> f x \<Longrightarrow> sum_list (map f (filter P xs)) \<le> sum_list (map f xs)"
  by (induction xs) auto

lemma sum_list_requests_of:
  "sum_list (map (\<lambda>req. if rq_redisKey req = key \<and> Q req then rq_n req else 0) batch) =
   sum_list (map (\<lambda>req. if Q req then rq_n req else (0 :: int)) (requests_of key batch))"
  by (induction batch) (auto simp: requests_of_def)

lemma bt_admitted_results:
  assumes "map_of plan key = Some (Inr (refill, flags))" "distinct (map rq_id batch)"
    "length flags = length (requests_of key batch)" "\<forall>req \<in> set batch. 0 < rq_n req"
  shows "bt_admitted key (map (\<lambda>req. (req, bt_result batch plan req)) (filter P batch))
      \<le> granted flags (map rq_n (requests_of key batch))"
    "0 \<le> bt_admitted key (map (\<lambda>req. (req, bt_result batch plan req)) (filter P batch))"
proof -
  define f where "f req = (if rq_redisKey req = key \<and> flags_of (requests_of key batch) flags (rq_id req) then rq_n req else 0)" for req :: pl_request
  have f: "bt_admitted key (map (\<lambda>req. (req, bt_result batch plan req)) xs) = sum_list (map f xs)" for xs :: "pl_request list"
  proof -
    have "(if rq_redisKey req = key \<and> bt_result batch plan req = Inr True then rq_n req else 0) = f req" for req
      by (cases "rq_redisKey req = key") (simp_all add: bt_result_def assms(1) f_def)
    then show ?thesis unfolding bt_admitted_def by (induction xs) simp_all
  qed
  have "distinct (map rq_id (requests_of key batch))" using assms(2) by (simp add: requests_of_def distinct_map_filter)
  from flags_of_granted[OF this assms(3)]
  have "sum_list (map f batch) = granted flags (map rq_n (requests_of key batch))"
    unfolding f_def sum_list_requests_of by simp
  then show "bt_admitted key (map (\<lambda>req. (req, bt_result batch plan req)) (filter P batch))
      \<le> granted flags (map rq_n (requests_of key batch))"
  proof -
    have "\<forall>req \<in> set batch. 0 \<le> f req" using assms(4) by (auto simp: f_def less_imp_le)
    then show ?thesis using sum_list_filter_le[of batch f P] \<open>sum_list (map f batch) = _\<close> by (simp add: f)
  qed
  show "0 \<le> bt_admitted key (map (\<lambda>req. (req, bt_result batch plan req)) (filter P batch))"
    unfolding f using assms(4) by (intro sum_list_nonneg) (auto simp: f_def)
qed

lemma bt_admitted_errors: "bt_admitted key (map (\<lambda>req. (req, Inl e)) batch) = 0"
  by (induction batch) (simp_all add: bt_admitted_def)

section \<open>The rate of admissions with one writer\<close>

text \<open>Whether the commands of the group of a key are executed.\<close>

definition bt_sent ::
    "'db redis \<Rightarrow> ('a redis_limiter_scheme) \<Rightarrow> bt_reads \<Rightarrow> rd_fault \<Rightarrow> pl_request list \<Rightarrow> 'db \<Rightarrow> string \<Rightarrow> bool" where
  "bt_sent rd r reads fault batch db key \<longleftrightarrow>
     (\<exists>p. bt_read_group rd r reads batch db key = Inr p) \<and> (\<forall>e. fault \<noteq> Refused e)"

text \<open>The batches that hold requests of a key, when nobody else changes its bucket between the reading and
  the writing of a batch, with the instants at which the clock of the process was read: not before
  the last instant, and the write not before the read. Between two batches the key may expire, when the time
  to live has passed since its commands were executed; the index before the store is the instant of these.\<close>

inductive bt_history ::
    "'db redis \<Rightarrow> ('a redis_limiter_scheme) \<Rightarrow> string \<Rightarrow> 'db \<Rightarrow> (time \<times> int) list \<Rightarrow> time option \<Rightarrow> 'db \<Rightarrow> bool"
  for rd r key db0 where
  bt_start: "bt_history rd r key db0 [] None db0"
| bt_batch:
    "bt_history rd r key db0 h lst db \<Longrightarrow> distinct order \<Longrightarrow> key \<in> set order \<Longrightarrow>
     distinct (map rq_id batch) \<Longrightarrow> \<forall>req \<in> set batch. 0 < rq_n req \<Longrightarrow>
     keeps_bucket rd key db db1 \<Longrightarrow>
     bt_commit rd r fault clock ended batch (bt_plan_batch rd r reads order batch db) db1 = (results, db2) \<Longrightarrow>
     \<forall>(t, m) \<in> set h. t \<le> fst (reads key) \<Longrightarrow>
     0 \<le> fst (reads key) \<Longrightarrow> fst (reads key) \<le> clock key \<Longrightarrow> clock key \<le> 2 ^ 61 \<Longrightarrow>
     bt_history rd r key db0 (h @ [(clock key, bt_admitted key results)])
       (if bt_sent rd r reads fault batch db key then Some (clock key) else lst) db2"
| bt_expire:
    "bt_history rd r key db0 h (Some u) db \<Longrightarrow> u + formatMs (rl_stateTTL r) * 1000000 \<le> now \<Longrightarrow>
     tb_holds rd key None db' \<Longrightarrow> \<forall>(t, m) \<in> set h. t \<le> now \<Longrightarrow> 0 \<le> now \<Longrightarrow> now \<le> 2 ^ 61 \<Longrightarrow>
     bt_history rd r key db0 (h @ [(now, 0)]) (Some u) db'"
| bt_other:
    "bt_history rd r key db0 h lst db \<Longrightarrow> keeps_bucket rd key db db' \<Longrightarrow> bt_history rd r key db0 h lst db'"

definition bt_inv :: "'db redis \<Rightarrow> rat \<Rightarrow> int \<Rightarrow> string \<Rightarrow> (time \<times> int) list \<Rightarrow> time option \<Rightarrow> 'db \<Rightarrow> bool" where
  "bt_inv rd limit burst key h lst db \<longleftrightarrow>
     sorted (map fst h) \<and> (\<forall>(t, m) \<in> set h. 0 \<le> t \<and> t \<le> 2 ^ 61) \<and>
     ((tb_holds rd key None db \<and>
         (sum_list (map snd h) = 0 \<or>
          h \<noteq> [] \<and> of_int (sum_list (map snd h)) \<le> tb_earned limit (fst (hd h)) (fst (last h)))) \<or>
      (h \<noteq> [] \<and> (\<exists>tok old. lst = Some old \<and> tb_holds rd key (Some (tok, old)) db \<and> 0 \<le> tok \<and> tok \<le> burst \<and>
         fst (hd h) \<le> old \<and> old \<le> fst (last h) \<and>
         of_int (tok + sum_list (map snd h)) \<le> of_int burst + tb_earned limit (fst (hd h)) old)))"

lemma bt_inv_keeps: "keeps_bucket rd key db db' \<Longrightarrow> bt_inv rd limit burst key h lst db \<Longrightarrow> bt_inv rd limit burst key h lst db'"
  by (simp add: bt_inv_def tb_holds_keeps)

lemma bt_clock_snoc:
  assumes "bt_inv rd limit burst key h lst db" "\<forall>(t, m) \<in> set h. t \<le> now" "0 \<le> now" "now \<le> 2 ^ 61"
  shows "h \<noteq> [] \<Longrightarrow> fst (last h) \<le> now" "sorted (map fst (h @ [(now, m)]))"
    "\<forall>(t, k) \<in> set (h @ [(now, m)]). 0 \<le> t \<and> t \<le> 2 ^ 61"
proof -
  show "fst (last h) \<le> now" if "h \<noteq> []"
    using assms(2) that by (cases "last h") (metis (no_types, lifting) case_prodD fst_conv last_in_set)
  show "sorted (map fst (h @ [(now, m)]))" using assms(1,2) by (auto simp: bt_inv_def sorted_append)
  show "\<forall>(t, k) \<in> set (h @ [(now, m)]). 0 \<le> t \<and> t \<le> 2 ^ 61" using assms(1,3,4) by (auto simp: bt_inv_def)
qed

lemma bt_inv_skip:
  assumes "0 < limit" "bt_inv rd limit burst key h lst db" "\<forall>(t, m) \<in> set h. t \<le> now" "0 \<le> now" "now \<le> 2 ^ 61"
  shows "bt_inv rd limit burst key (h @ [(now, 0)]) lst db"
proof -
  note c = bt_clock_snoc[OF assms(2-)]
  have "h \<noteq> [] \<Longrightarrow> tb_earned limit (fst (hd h)) (fst (last h)) \<le> tb_earned limit (fst (hd h)) now"
    using assms(1) c(1) by (intro tb_earned_mono)
  then show ?thesis using assms(2) c unfolding bt_inv_def
    by (cases "h = []") (auto simp: hd_append intro: order_trans)
qed

lemma bt_inv_expire:
  assumes c: "0 < limit" "0 < ttl" and ttl: "tb_ttl_ok limit burst ttl" and inv: "bt_inv rd limit burst key h (Some u) db"
    and due: "u + formatMs ttl * 1000000 \<le> now" and none: "tb_holds rd key None db'"
    and now: "\<forall>(t, m) \<in> set h. t \<le> now" "0 \<le> now" "now \<le> 2 ^ 61"
  shows "bt_inv rd limit burst key (h @ [(now, 0)]) (Some u) db'"
proof -
  note clock = bt_clock_snoc[OF inv now]
  have "sum_list (map snd h) = 0 \<or> h \<noteq> [] \<and> of_int (sum_list (map snd h)) \<le> tb_earned limit (fst (hd h)) now"
    using inv unfolding bt_inv_def
  proof (elim disjE conjE exE)
    fix tok old
    assume i: "h \<noteq> []" "Some u = Some old" "0 \<le> tok"
      "of_int (tok + sum_list (map snd h)) \<le> of_int burst + tb_earned limit (fst (hd h)) old"
    have "(0 :: rat) \<le> of_int tok" using i(3) by simp
    moreover have "of_int burst \<le> tb_earned limit old now" using tb_ttl_earned[OF c ttl, of old now] i due by simp
    ultimately show ?thesis using i tb_earned_add[of limit "fst (hd h)" old now] by simp
  next
    assume "h \<noteq> []" "of_int (sum_list (map snd h)) \<le> tb_earned limit (fst (hd h)) (fst (last h))"
    then show ?thesis using tb_earned_mono[OF c(1) clock(1), of "fst (hd h)"] by auto
  qed simp
  then show ?thesis using none clock unfolding bt_inv_def by (auto simp: hd_append)
qed

lemma bt_inv_group:
  assumes rd: "redis_lawful rd" and conf: "tb_config_ok (rl_limit r) (rl_burst r) (rl_stateTTL r)"
    and inv: "bt_inv rd (rl_limit r) (rl_burst r) key h lst db" and ns: "\<forall>req \<in> set batch. 0 < rq_n req"
    and h: "\<forall>(t, m) \<in> set h. t \<le> now" and now: "0 \<le> now" "now \<le> now2" "now2 \<le> 2 ^ 61" "clock key = now2"
    and dec: "bt_group (rl_limit r) (rl_burst r) now (of_hget (rd_HGET rd db key ''tokens'')) (of_hget (rd_HGET rd db key ''last_ns''))
      (map rq_n (requests_of key batch)) = Inr (refill, flags)"
    and send: "group_exec rd r clock batch key refill flags db = (ok, db')"
    and m: "0 \<le> m" "m \<le> granted flags (map rq_n (requests_of key batch))"
  shows "bt_inv rd (rl_limit r) (rl_burst r) key (h @ [(now2, m)]) (Some now2) db'"
proof -
  define ns' where "ns' = map rq_n (requests_of key batch)"
  define limit burst where "limit = rl_limit r" and "burst = rl_burst r"
  have ns': "\<forall>n \<in> set ns'. 0 < n" using ns by (auto simp: ns'_def requests_of_def)
  have c: "0 < limit" "limit \<le> 10 ^ 9" using conf by (simp_all add: tb_config_ok_def limit_def)
  have send': "exec_cmds rd key (bt_group_cmds (rl_stateTTL r) now2 refill (zip flags ns')) db = (ok, db')"
    using send now(4) by (simp add: group_exec_def ns'_def)
  have m': "m \<le> granted flags ns'" using m(2) by (simp add: ns'_def)
  have clocks: "sorted (map fst (h @ [(now2, m)]))" "\<forall>(t, k) \<in> set (h @ [(now2, m)]). 0 \<le> t \<and> t \<le> 2 ^ 61"
    using inv h now by (auto simp: bt_inv_def sorted_append)
  define t0 where "t0 = fst (hd (h @ [(now2, m)]))"
  show ?thesis
  proof (cases "tb_holds rd key None db \<and> (sum_list (map snd h) = 0 \<or>
      h \<noteq> [] \<and> of_int (sum_list (map snd h)) \<le> tb_earned limit (fst (hd h)) (fst (last h)))")
    case True
    note post = bt_group_commit_fresh[OF rd conf ns' conjunct1[OF True] now(1,2,3) dec[folded ns'_def] send']
    have t0: "0 \<le> t0" "t0 \<le> now2" using clocks h now by (cases h; auto simp: t0_def)+
    have "fst (last h) \<le> now2" if "h \<noteq> []" using clocks(1) that by (auto simp: sorted_append)
    then have "h \<noteq> [] \<Longrightarrow> tb_earned limit t0 (fst (last h)) \<le> tb_earned limit t0 now2" using c(1) by (intro tb_earned_mono)
    then have spent: "of_int (sum_list (map snd h)) \<le> tb_earned limit t0 now2"
      using True tb_earned_small(1)[OF c t0 now(3)] by (cases "h = []") (auto simp: t0_def)
    have "(of_int (burst - granted flags ns' + (sum_list (map snd h) + m)) :: rat) \<le> of_int (burst + sum_list (map snd h))"
      using m' by (simp only: of_int_le_iff)
    also have "\<dots> \<le> of_int burst + tb_earned limit t0 now2" using spent by simp
    finally show ?thesis using post t0 clocks unfolding bt_inv_def t0_def[symmetric] limit_def burst_def
      by (intro conjI disjI2 exI[of _ "rl_burst r - granted flags ns'"] exI[of _ now2]) auto
  next
    case False
    then obtain tok old where i: "h \<noteq> []" "tb_holds rd key (Some (tok, old)) db" "0 \<le> tok" "tok \<le> burst"
        "fst (hd h) \<le> old" "old \<le> fst (last h)"
        "of_int (tok + sum_list (map snd h)) \<le> of_int burst + tb_earned limit (fst (hd h)) old"
      using inv unfolding bt_inv_def limit_def burst_def by blast
    have "last h \<in> set h" "hd h \<in> set h" using i(1) by simp_all
    then have old: "0 \<le> old" "old \<le> now" using i(5,6) h inv by (fastforce simp: bt_inv_def)+
    note post = bt_group_commit[OF rd conf ns' i(2,3) _ old now(2)[THEN order_trans, OF now(3)] now(2,3) dec[folded ns'_def] send']
    have post: "of_int refill \<le> tb_earned limit old now2" "tb_holds rd key (Some (tok + refill - granted flags ns', now2)) db'"
      "0 \<le> tok + refill - granted flags ns'" "tok + refill \<le> burst" "0 \<le> granted flags ns'"
      using post i(4) by (simp_all add: limit_def burst_def)
    have hd: "t0 = fst (hd h)" using i(1) by (simp add: t0_def)
    have "tok + refill - granted flags ns' + (sum_list (map snd h) + m) \<le> tok + sum_list (map snd h) + refill" using m' by simp
    then have "(of_int (tok + refill - granted flags ns' + (sum_list (map snd h) + m)) :: rat) \<le> of_int (tok + sum_list (map snd h) + refill)"
      by (simp only: of_int_le_iff)
    also have "\<dots> \<le> of_int burst + tb_earned limit t0 now2"
      using i(7) post(1) tb_earned_add[of limit t0 old now2] by (simp add: hd)
    finally show ?thesis using i(1,5) old now post clocks hd unfolding bt_inv_def limit_def burst_def
      by (intro conjI disjI2 exI[of _ "tok + refill - granted flags ns'"] exI[of _ now2]) (auto simp: t0_def)
  qed
qed

text \<open>What a batch does for one key.\<close>

lemma bt_commit_cases:
  assumes rd: "redis_lawful rd" and ttl: "0 < rl_stateTTL r" and plan: "plan = bt_plan_batch rd r reads order batch db"
    and order: "distinct order" "key \<in> set order" and ids: "distinct (map rq_id batch)" "\<forall>req \<in> set batch. 0 < rq_n req"
    and run: "bt_commit rd r fault clock ended batch plan db1 = (results, db2)"
  shows "if \<not> bt_sent rd r reads fault batch db key then bt_admitted key results = 0 \<and> keeps_bucket rd key db1 db2
    else (\<exists>refill flags dba ok dbb. bt_read_group rd r reads batch db key = Inr (refill, flags) \<and>
       keeps_bucket rd key db1 dba \<and> group_exec rd r clock batch key refill flags dba = (ok, dbb) \<and> keeps_bucket rd key dbb db2 \<and>
       0 \<le> bt_admitted key results \<and> bt_admitted key results \<le> granted flags (map rq_n (requests_of key batch)))"
proof -
  obtain ok db' where send: "bt_send rd r clock batch plan db1 = (ok, db')" by fastforce
  have dist: "distinct (map fst plan)" using order(1) by (simp add: plan bt_plan_batch_def comp_def)
  have entry: "(key, bt_read_group rd r reads batch db key) \<in> set plan" using order(2) by (auto simp: plan bt_plan_batch_def)
  then have look: "map_of plan key = Some (bt_read_group rd r reads batch db key)" using dist by (simp add: map_of_is_SomeI)
  define answers where "answers = map (\<lambda>req. (req, bt_result batch plan req)) (filter (\<lambda>req. \<not> ended (rq_id req)) batch)"
  have out: "(results = answers \<or> (\<exists>e. results = map (\<lambda>req. (req, Inl e)) batch)) \<and>
      (db2 = db' \<or> (db2 = db1 \<and> (((\<exists>e. results = map (\<lambda>req. (req, Inl e)) batch) \<and> (\<exists>e. fault = Refused e)) \<or>
         (\<forall>(_, p) \<in> set plan. isl p)))) \<and> ((\<exists>e. fault = Refused e) \<longrightarrow> \<not> (\<forall>(_, p) \<in> set plan. isl p) \<longrightarrow>
         db2 = db1 \<and> (\<exists>e. results = map (\<lambda>req. (req, Inl e)) batch))"
    using run send by (auto simp: bt_commit_def answers_def[symmetric] Let_def split: rd_fault.splits if_splits)
  show ?thesis
  proof (cases "bt_read_group rd r reads batch db key")
    case (Inl e)
    then have "\<forall>refill flags. (key, Inr (refill, flags)) \<notin> set plan" using look dist by (metis map_of_is_SomeI option.inject sum.distinct(1))
    then have "keeps_bucket rd key db1 db'" by (rule bt_send_other[OF rd ttl _ send])
    moreover have "bt_admitted key answers = 0"
    proof -
      have "bt_result batch plan req = Inl e" if "rq_redisKey req = key" for req using that by (simp add: bt_result_def look Inl)
      then have "(if rq_redisKey req = key \<and> bt_result batch plan req = Inr True then rq_n req else 0) = 0" for req
        by auto
      then have "bt_admitted key (map (\<lambda>req. (req, bt_result batch plan req)) xs) = 0" for xs
        unfolding bt_admitted_def by (induction xs) simp_all
      then show ?thesis by (simp add: answers_def)
    qed
    ultimately show ?thesis using out bt_admitted_errors[of key] by (auto simp: bt_sent_def Inl)
  next
    case (Inr q)
    obtain refill flags where q: "q = (refill, flags)" by fastforce
    have live: "\<not> (\<forall>(_, p) \<in> set plan. isl p)" using entry Inr by fastforce
    have len: "length flags = length (requests_of key batch)"
      using Inr q unfolding bt_read_group_def bt_group_def
      by (auto simp: Let_def split: prod.splits option.splits sum.splits if_splits)
    have adm: "0 \<le> bt_admitted key results \<and> bt_admitted key results \<le> granted flags (map rq_n (requests_of key batch))"
    proof -
      have "0 \<le> bt_admitted key answers \<and> bt_admitted key answers \<le> granted flags (map rq_n (requests_of key batch))"
        using bt_admitted_results[OF look[unfolded Inr q] ids(1) len ids(2)] by (simp add: answers_def)
      then show ?thesis using out bt_admitted_errors[of key] by auto
    qed
    show ?thesis
    proof (cases "bt_sent rd r reads fault batch db key")
      case True
      then have "db2 = db'" using out live by (auto simp: bt_sent_def)
      then show ?thesis using bt_send_key[OF rd ttl dist _ send, of key refill flags] entry Inr q adm True by fastforce
    next
      case False
      then have "\<exists>e. fault = Refused e" by (auto simp: bt_sent_def Inr)
      then have "db2 = db1 \<and> (\<exists>e. results = map (\<lambda>req. (req, Inl e)) batch)" using out live by blast
      then show ?thesis using False bt_admitted_errors[of key] by auto
    qed
  qed
qed

lemma bt_history_inv:
  assumes rd: "redis_lawful rd" and conf: "tb_config_ok (rl_limit r) (rl_burst r) (rl_stateTTL r)"
    and keep: "tb_ttl_ok (rl_limit r) (rl_burst r) (rl_stateTTL r)" and fresh: "tb_holds rd key None db0"
  shows "bt_history rd r key db0 h lst db \<Longrightarrow> bt_inv rd (rl_limit r) (rl_burst r) key h lst db"
proof (induction rule: bt_history.induct)
  case bt_start
  then show ?case using fresh by (simp add: bt_inv_def)
next
  case (bt_batch h lst db order batch db1 fault clock ended reads results db2)
  have c: "0 < rl_stateTTL r" "0 < rl_limit r" using conf by (simp_all add: tb_config_ok_def)
  note cases = bt_commit_cases[OF rd c(1) refl bt_batch(2,3,4,5,7)]
  show ?case
  proof (cases "bt_sent rd r reads fault batch db key")
    case False
    then have none: "bt_admitted key results = 0" "keeps_bucket rd key db1 db2" using cases by simp_all
    have "bt_inv rd (rl_limit r) (rl_burst r) key h lst db2"
      by (rule bt_inv_keeps[OF none(2) bt_inv_keeps[OF bt_batch(6) bt_batch.IH]])
    moreover have "\<forall>(t, m) \<in> set h. t \<le> clock key" using bt_batch(8,10) by fastforce
    ultimately show ?thesis using bt_inv_skip[OF c(2), of rd _ key h lst db2 "clock key"] bt_batch none False by simp
  next
    case True
    then obtain refill flags dba ok dbb where d: "bt_read_group rd r reads batch db key = Inr (refill, flags)"
      and k: "keeps_bucket rd key db1 dba"
      and e: "group_exec rd r clock batch key refill flags dba = (ok, dbb)" "keeps_bucket rd key dbb db2"
      and adm: "0 \<le> bt_admitted key results" "bt_admitted key results \<le> granted flags (map rq_n (requests_of key batch))"
      using cases by auto
    have ka: "keeps_bucket rd key db dba" using bt_batch(6) k by (rule keeps_bucket_trans)
    obtain now where now: "reads key = (now, None)"
      using d by (auto simp: bt_read_group_def split: prod.splits option.splits)
    have "bt_group (rl_limit r) (rl_burst r) now (of_hget (rd_HGET rd dba key ''tokens''))
        (of_hget (rd_HGET rd dba key ''last_ns'')) (map rq_n (requests_of key batch)) = Inr (refill, flags)"
      using d ka by (simp add: bt_read_group_def now keeps_bucket_def)
    from bt_inv_group[OF rd conf bt_inv_keeps[OF ka bt_batch.IH] bt_batch(5) _ _ _ _ refl this e(1) adm]
    have "bt_inv rd (rl_limit r) (rl_burst r) key (h @ [(clock key, bt_admitted key results)]) (Some (clock key)) dbb"
      using bt_batch(8-11) by (simp add: now)
    then show ?thesis using True bt_inv_keeps[OF e(2)] by simp
  qed
next
  case (bt_expire h u db now db')
  have c: "0 < rl_limit r" "0 < rl_stateTTL r" using conf by (simp_all add: tb_config_ok_def)
  from bt_inv_expire[OF c keep bt_expire.IH bt_expire(2-6)] show ?case .
next
  case (bt_other h lst db db')
  then show ?case by (simp add: bt_inv_keeps)
qed


section \<open>Requests that come faster than tokens\<close>

text \<open>A batch of one request at an instant, with nothing in its way.\<close>

definition bt_poll :: "'db redis \<Rightarrow> ('a redis_limiter_scheme) \<Rightarrow> string \<Rightarrow> time \<Rightarrow> int \<Rightarrow> 'db \<Rightarrow> (rl_error + bool) \<times> 'db" where
  "bt_poll rd r key t n db =
     (let batch = [\<lparr>rq_id = 0, rq_shardKey = key, rq_redisKey = key, rq_n = n\<rparr>];
          plan = bt_plan_batch rd r (\<lambda>_. (t, None)) [key] batch db;
          (results, db) = bt_commit rd r Answered (\<lambda>_. t) (\<lambda>_. False) batch plan db
      in (snd (hd results), db))"

fun bt_polls :: "'db redis \<Rightarrow> ('a redis_limiter_scheme) \<Rightarrow> string \<Rightarrow> (time \<times> int) list \<Rightarrow> 'db \<Rightarrow> (rl_error + bool) list \<times> 'db" where
  "bt_polls rd r key [] db = ([], db)"
| "bt_polls rd r key ((t, n) # ts) db =
     (let (res, db) = bt_poll rd r key t n db; (rest, db) = bt_polls rd r key ts db in (res # rest, db))"

lemma bt_poll_group:
  assumes "bt_group (rl_limit r) (rl_burst r) t (of_hget (rd_HGET rd db key ''tokens''))
      (of_hget (rd_HGET rd db key ''last_ns'')) [n] = Inr (refill, [b])"
    and "exec_cmds rd key (bt_group_cmds (rl_stateTTL r) t refill [(b, n)]) db = (True, db')"
  shows "bt_poll rd r key t n db = (Inr b, db')"
  using assms
  by (simp add: bt_poll_def bt_commit_def bt_plan_batch_def bt_read_group_def requests_of_def bt_result_def)

text \<open>A poll on an empty bucket before a token has been earned is denied, and moves the instant on.\<close>

lemma bt_poll_empty:
  assumes rd: "redis_lawful rd" and r: "0 < rl_burst r" "rl_burst r < 2 ^ 53" "0 < rl_stateTTL r" and n: "0 < n"
    and b: "tb_holds rd key (Some (0, old)) db"
    and t: "old \<le> t" "0 \<le> t" "t \<le> 2 ^ 61" "calculateRefillTokens t old (rl_limit r) = 0"
  shows "\<exists>db'. bt_poll rd r key t n db = (Inr False, db') \<and> tb_holds rd key (Some (0, t)) db'"
proof -
  obtain s u where s: "rd_HGET rd db key ''tokens'' = Some s" "parse_int64 s = Some 0"
      "rd_HGET rd db key ''last_ns'' = Some u" "parse_int64 u = Some old"
    using b by (auto simp: tb_holds_def)
  have group: "bt_group (rl_limit r) (rl_burst r) t (of_hget (rd_HGET rd db key ''tokens''))
      (of_hget (rd_HGET rd db key ''last_ns'')) [n] = Inr (0, [False])"
    using s t r n by (simp add: bt_group_def of_hget_def toInt64_def Let_def)
  define db1 where "db1 = rd_HSET rd key ''tokens'' (dec 0) db"
  define db2 where "db2 = rd_HSET rd key ''tokens'' (dec 0) db1"
  have z: "in_int64 0" "in_int64 t" using t by (simp_all add: in_int64_def)
  have "rd_HINCRBY rd key ''tokens'' 0 db = Some (0, db1)"
    using hincrby_tokens[OF rd s(1,2), of 0] z by (simp add: db1_def)
  moreover have "rd_HINCRBY rd key ''tokens'' 0 db1 = Some (0, db2)"
    using hincrby_tokens[OF rd, of db1 key "dec 0" 0 0] z by (simp add: db1_def db2_def redis_laws[OF rd] parse_dec)
  ultimately have exec: "exec_cmds rd key (bt_group_cmds (rl_stateTTL r) t 0 [(False, n)]) db =
      (True, rd_PEXPIRE rd key (formatMs (rl_stateTTL r)) (rd_HSET rd key ''last_ns'' (dec t) db2))"
    using r(3) by (simp add: bt_group_cmds_def)
  have "tb_holds rd key (Some (0, t)) (rd_HSET rd key ''last_ns'' (dec t) db2)"
    unfolding db2_def using tb_holds_set[OF rd z] .
  then show ?thesis using bt_poll_group[OF group exec] r(3) by (simp add: tb_holds_expire[OF rd])
qed

text \<open>C1: on an empty bucket, requests that each come before the limit has earned one token since the request
  before are denied for ever, however long this lasts: every batch moves \<open>last_ns\<close> to the present, also one
  that refilled nothing.\<close>

theorem RedisBatch_starves_under_load:
  assumes "redis_lawful rd" and "0 < rl_burst r" "rl_burst r < 2 ^ 53" "0 < rl_stateTTL r"
    and "tb_holds rd key (Some (0, t0)) db" and "\<forall>(t, n) \<in> set polls. 0 < n \<and> 0 \<le> t \<and> t \<le> 2 ^ 61"
    and "successively (\<lambda>s t. s \<le> t \<and> calculateRefillTokens t s (rl_limit r) = 0) (t0 # map fst polls)"
  shows "fst (bt_polls rd r key polls db) = replicate (length polls) (Inr False)"
  using assms(5-)
proof (induction polls arbitrary: t0 db)
  case (Cons p polls)
  obtain t n where p: "p = (t, n)" by fastforce
  have "t0 \<le> t" "0 \<le> t" "t \<le> 2 ^ 61" "calculateRefillTokens t t0 (rl_limit r) = 0" "0 < n"
    using Cons.prems(2,3) by (simp_all add: p)
  from bt_poll_empty[OF assms(1-4) this(5) Cons.prems(1) this(1-4)]
  obtain db' where 1: "bt_poll rd r key t n db = (Inr False, db')" "tb_holds rd key (Some (0, t)) db'" by blast
  have "successively (\<lambda>s t. s \<le> t \<and> calculateRefillTokens t s (rl_limit r) = 0) (t # map fst polls)"
    using Cons.prems(3) by (cases polls) (simp_all add: p)
  from Cons.IH[OF 1(2) _ this] Cons.prems(2) show ?case
    by (simp add: p 1(1) case_prod_unfold)
qed simp

section \<open>Concrete runs\<close>

definition bt_store :: "int \<Rightarrow> time \<Rightarrow> map_store" where
  "bt_store tokens t = rl_demo_store\<lparr>ms_fields := [(''k'', ''tokens'') \<mapsto> dec tokens, (''k'', ''last_ns'') \<mapsto> dec t]\<rparr>"

lemma bt_store_holds: "in_int64 tokens \<Longrightarrow> in_int64 t \<Longrightarrow> tb_holds map_redis ''k'' (Some (tokens, t)) (bt_store tokens t)"
  by (simp add: tb_holds_def bt_store_def map_redis_def parse_dec)

text \<open>Ten requests per second, and a request every fifty milliseconds.\<close>

lemma RedisBatch_starves_under_load_witness:
  "fst (bt_polls map_redis rl_demo ''k'' [(1700000000050000000, 1), (1700000000100000000, 1), (1700000000150000000, 1)]
     (bt_store 0 1700000000000000000)) = [Inr False, Inr False, Inr False]"
proof -
  have gap: "successively (\<lambda>s t. s \<le> t \<and> calculateRefillTokens t s (rl_limit rl_demo) = 0)
    (1700000000000000000 # map fst [(1700000000050000000 :: int, 1 :: int), (1700000000100000000, 1), (1700000000150000000, 1)])"
    by code_simp
  have "tb_holds map_redis ''k'' (Some (0, 1700000000000000000)) (bt_store 0 1700000000000000000)"
    by (rule bt_store_holds) (simp_all add: in_int64_def)
  from RedisBatch_starves_under_load[OF map_redis_lawful _ _ _ this _ gap] show ?thesis
    by (simp add: rl_demo_def eval_nat_numeral)
qed

definition bt_demo_config :: redis_config_v2 where
  "bt_demo_config = \<lparr>rc_Limit = 10, rc_Burst = 2, rc_KeyPrefix = ''b'', rc_Name = ''n'', rc_FailureMode = [],
     rc_OperationTimeout = 0, rc_StateTTL = 0, rc_PipelineEnabled = True, rc_PipelineMaxWait = 0,
     rc_PipelineMaxBatch = 0, rc_PipelineShards = 2, rc_PipelineQueueSize = 0\<rparr>"

text \<open>Two requests for a key reach the fourth version; each pipeline reads the bucket before the other
  writes it. The pipelines, and what the two requests are told.\<close>

definition bt4_race :: "time \<Rightarrow> map_store \<Rightarrow> (nat \<times> nat \<times> (rl_error + bool) list) option" where
  "bt4_race t db =
     (case NewRedisRateLimiterBatchV4 True bt_demo_config of
        Inl _ \<Rightarrow> None
      | Inr limiter \<Rightarrow>
          (case bt4_submit t ''k'' 2 limiter of
             (Inr (req1, k1), limiter) \<Rightarrow>
               (case bt4_submit t ''k'' 2 limiter of
                  (Inr (req2, k2), r, _) \<Rightarrow>
                    let key = rq_redisKey req1;
                        plan1 = bt_plan_batch map_redis r (\<lambda>_. (t, None)) [key] [req1] db;
                        plan2 = bt_plan_batch map_redis r (\<lambda>_. (t, None)) [key] [req2] db;
                        (res1, db) = bt_commit map_redis r Answered (\<lambda>_. t) (\<lambda>_. False) [req1] plan1 db;
                        (res2, db) = bt_commit map_redis r Answered (\<lambda>_. t) (\<lambda>_. False) [req2] plan2 db
                    in Some (k1, k2, map snd (res1 @ res2))
                | _ \<Rightarrow> None)
           | _ \<Rightarrow> None))"

text \<open>C1: the fourth version sends two requests for one key to two pipelines, and when these read the bucket
  before either has written it, both are allowed the whole burst.\<close>

theorem RedisBatchV4_overspends:
  "bt4_race 1700000000000000000 rl_demo_store = Some (0, 1, [Inr True, Inr True])"
  by code_simp

text \<open>A batch of two requests on a fresh bucket of two tokens, a batch that comes too early, and one after
  the limit of ten per second has earned two tokens: what each tells the callers of the key.\<close>

definition bt_demo_batch :: "time \<Rightarrow> nat \<Rightarrow> map_store \<Rightarrow> (time \<times> int) \<times> map_store" where
  "bt_demo_batch t i db =
     (let batch = [\<lparr>rq_id = i, rq_shardKey = ''k'', rq_redisKey = ''k'', rq_n = 1\<rparr>,
                   \<lparr>rq_id = i + 1, rq_shardKey = ''k'', rq_redisKey = ''k'', rq_n = 1\<rparr>];
          (results, db') = bt_commit map_redis rl_demo Answered (\<lambda>_. t) (\<lambda>_. False) batch
            (bt_plan_batch map_redis rl_demo (\<lambda>_. (t, None)) [''k''] batch db) db
      in ((t, bt_admitted ''k'' results), db'))"

definition bt_demo_run :: "(time \<times> int) list \<times> map_store" where
  "bt_demo_run =
     (let (e1, db) = bt_demo_batch 1700000000000000000 0 rl_demo_store;
          (e2, db) = bt_demo_batch 1700000000050000000 2 db;
          (e3, db) = bt_demo_batch 1700000000250000000 4 db
      in ([e1, e2, e3], db))"

lemma bt_demo_history:
  assumes "bt_history map_redis rl_demo ''k'' rl_demo_store h lst db" "bt_demo_batch t i db = (e, db')"
    and "\<forall>(u, m) \<in> set h. u \<le> t" "0 \<le> t" "t \<le> 2 ^ 61"
  shows "\<exists>lst'. bt_history map_redis rl_demo ''k'' rl_demo_store (h @ [e]) lst' db'"
proof -
  define batch :: "pl_request list" where "batch = [\<lparr>rq_id = i, rq_shardKey = ''k'', rq_redisKey = ''k'', rq_n = 1\<rparr>,
    \<lparr>rq_id = i + 1, rq_shardKey = ''k'', rq_redisKey = ''k'', rq_n = 1\<rparr>]"
  obtain results where run: "bt_commit map_redis rl_demo Answered (\<lambda>_. t) (\<lambda>_. False) batch
      (bt_plan_batch map_redis rl_demo (\<lambda>_. (t, None)) [''k''] batch db) db = (results, db')"
    and e: "e = (t, bt_admitted ''k'' results)"
    using assms(2) by (auto simp: bt_demo_batch_def batch_def Let_def split: prod.splits)
  from bt_batch[OF assms(1) _ _ _ _ keeps_bucket_refl run] assms(3-) show ?thesis
    by (auto simp: e batch_def)
qed


end
