(* ===== verification/Spec2Isabelle.thy ===== *)
theory Spec2Isabelle
  imports Deques Stacks Queues LockFree Lists UnionFind Lru Caches Lfu DynamicLfu CircuitBreaker
    StateMachine LoadBalancer LeakyBucket Tries Selects Roaring RingBuffer HftRing GraphCycles
    Iterators Retriers Errors OrderedSets RedisBatches
begin

text \<open>
  The Go library \<open>unlimit\<close>: its containers, caches, resilience components and shared-memory
  transports, modelled in HOL as they are written and verified.

  \<^bold>\<open>How the code is modelled.\<close>
  A struct is a record, its pointer-linked nodes live in an explicit heap (a partial map from
  pointers), a Go map is a partial map or, where its order can be seen, an association list or an
  argument. A call that may panic has a result in \<open>option\<close>, \<open>None\<close> being the panic; a call that
  returns \<open>(T, bool)\<close> returns an \<open>option\<close> as well; an \<open>error\<close> result is a datatype in a sum. Machine
  integers are words or integers wrapped by \<open>wrap64\<close> where their width shows. The clock is an
  argument of every operation that reads it. Operations under a mutex are one step; code that uses
  atomics is a step relation with one atomic access per step and any number of threads. User
  callbacks, Bloom filters and capacity controllers are arguments. A loop without a structural bound
  has fuel, and a theorem shows that the fuel given is enough, or that the loop does not end.

  \<^bold>\<open>Shared theories.\<close>
  \<open>Prelude\<close> holds runs of operations (\<open>run_steps\<close>), Go integers and facts on lists and windows;
  \<open>Interfaces\<close> holds the contracts as locales: \<open>refinement\<close>, extended by \<open>deque_impl\<close>, \<open>queue_impl\<close>
  and \<open>stack_impl\<close>, each interpreted on the models that implement it. \<open>GoLists\<close> models
  \<open>container/list\<close>.

  \<^bold>\<open>Package algo.\<close>
  \<open>Deques\<close> (\<open>deque.go\<close>, \<open>deque_list.go\<close>), \<open>Stacks\<close> (\<open>stack.go\<close>), \<open>Queues\<close> (\<open>queue.go\<close>: the slice
  queue and the channel queue), \<open>Lists\<close> (\<open>linkedlist.go\<close>), \<open>Lru\<close> (\<open>lru.go\<close>), \<open>Lfu\<close> (\<open>lfu.go\<close>) and
  \<open>Roaring\<close> over \<open>Containers\<close> (\<open>roaring_bitmap.go\<close>) each prove that any sequence of operations
  returns what the obvious specification (a list, a recency list, a log of uses, a set of 32-bit
  values) returns. \<open>LockFree\<close> (\<open>queue.go\<close>) is the Michael and Scott queue as a transition system:
  every interleaving delivers the items in the order they were linked. \<open>UnionFind\<close>
  (\<open>union_find.go\<close>) decides the least equivalence containing the united pairs. \<open>Tries\<close>
  (\<open>trie.go\<close>) is a set of words. \<open>Graphs\<close> and \<open>GraphCycles\<close> (\<open>graph.go\<close>) show the searches and the
  cycle checks exact. \<open>RbTrees\<close> models \<open>red_black_tree.go\<close> on a heap; \<open>RbReps\<close> relates the heap to a
  tree with its positions as zippers, \<open>RbInserts\<close> and \<open>RbDeletes\<close> verify the two rebalancing loops
  (the cases of a right child are mirror images), \<open>RbSpecs\<close> derives the sorted list and the
  logarithmic depth, and \<open>OrderedSets\<close> (\<open>ordered_set.go\<close>) is a finite set on top. \<open>Selects\<close> and \<open>Bitcounts\<close> model \<open>kth.go\<close> and \<open>bitcount.go\<close> of package optz.

  \<^bold>\<open>Package cache.\<close>
  \<open>Caches\<close> (\<open>lru.go\<close>, \<open>hashtable.go\<close>) builds on \<open>Lru\<close>: a hit is the last value written, not deleted
  and not expired. \<open>DynamicLfu\<close> (\<open>dynamic_lfu.go\<close>) adds the growing and shrinking policy and the
  lock, which is not reentrant: the model keeps it, and a shrink deadlocks.

  \<^bold>\<open>Packages stability and state.\<close>
  \<open>CircuitBreaker\<close> (\<open>circuit_breaker.go\<close>, \<open>default_circuit_breaker.go\<close>), \<open>LoadBalancer\<close>
  (\<open>load_balancer.go\<close>), \<open>LeakyBucket\<close> (\<open>ratelimit.go\<close>) and \<open>StateMachine\<close> (\<open>state.go\<close>,
  \<open>statemachine.go\<close>) model every operation and prove the safety of the state machines, their
  recovery, the bound on admissions and the fairness of the round robin.

  \<^bold>\<open>The limiters kept in Redis.\<close>
  Redis is not part of the repository: \<open>RedisStores\<close> takes it as a parameter, a record of the
  commands the code sends, with its documented behaviour as the laws \<open>redis_lawful\<close>; a store of maps
  with any formatter of numbers that the parser inverts satisfies them (\<open>map_redis_lawful\<close>) and serves
  the witnesses. \<open>Doubles\<close> is rounding to a
  53-bit significand to the nearest, ties to even, over rationals, with the laws the bounds rest on:
  Lua's numbers and the durations computed in \<open>float64\<close> are modelled with it.
  \<open>RedisLimiters\<close> (\<open>redis_ratelimit.go\<close>) translates the three scripts and the limiter around them and
  bounds the admissions of a key by its burst and what leaked, with any number of processes, failing
  calls, other clients of other keys and the clock going back. \<open>RedisPipelines\<close>
  (\<open>redis_ratelimit_v2.go\<close>) is the sharded pipeline as a transition system of callers and shards: no
  accepted request is lost or answered out of turn, and a batch is its calls one after another.
  \<open>TokenBuckets\<close> (\<open>redis_ratelimit_v3.go\<close>) is the optimistic transaction with what others do between
  its reading and its \<open>EXEC\<close>; \<open>RedisBatches\<close> (\<open>redis_ratelimit_batch_v3.go\<close>,
  \<open>redis_ratelimit_batch_v4.go\<close>) are the batches of token-bucket calls. Both bound the admissions
  over an interval, and the theorems after the bounds are about what the buckets do beyond them.
  \<open>Shardings\<close> (\<open>consistent_hash.go\<close>, \<open>sharding_worker_pool.go\<close>) sends the tasks of one identifier to
  one worker, in order.

  \<^bold>\<open>Package messages.\<close>
  \<open>MessageCodec\<close> and \<open>RingBuffer\<close> (\<open>msg_shared_memory.go\<close>): the encoding of a message is inverted by
  the decoder, and any interleaving of writers and readers, one atomic access per step, delivers
  every message exactly once. \<open>HftRing\<close> (\<open>msg_hft_shared_memory.go\<close>) is the buffer for one producer
  and one consumer, a bounded queue with consecutive sequence numbers.

  \<^bold>\<open>Packages collections and errors.\<close>
  \<open>Iterators\<close> (\<open>iterator.go\<close>): the batch iterator yields the mapped, filtered and limited batches of
  its slice. \<open>Retriers\<close> (\<open>retrier.go\<close>): a run ends at the first attempt that may end it. \<open>Errors\<close>
  (\<open>error_code.go\<close>, \<open>error.go\<close>, \<open>common_code.go\<close>, \<open>common_errors.go\<close>): the codes, the error chain and
  the standard library's walk along it.

  \<^bold>\<open>Fuel.\<close>
  Walks over linked nodes get the size the list keeps of itself; a search of a graph gets the number
  of nodes ever allocated, the queue of a breadth-first search the number of child entries; the
  theorems of the components show that a run with this fuel returns. \<open>LFU_Resize_never_returns\<close> shows
  that no fuel is enough for the loop of \<open>Resize\<close> in some states.

  \<^bold>\<open>Not modelled.\<close>
  The Go scheduler's fairness, memory reclamation, the file handling and waiting loops of the
  shared-memory transports, floating point policies (capacity controllers, reservoir sampling), and
  the packages that only call third-party code: Kafka, NATS, databases, loggers, mail,
  storage, middlewares, schedulers, generators and the example commands.
\<close>

end
